(* ===== verification/Prelude.thy ===== *)
theory Prelude
  imports Main "HOL-Library.Word" "HOL-Library.Sublist"
begin

unbundle bit_operations_syntax

text \<open>
  Types and facts shared by every component of the development: bytes and
  machine words, the result type of an operation that can report an error or
  abort, and the conversions between words and their little-endian and
  big-endian byte strings.
\<close>

section \<open>Types\<close>

type_synonym byte = "8 word"
type_synonym bytes = "byte list"
type_synonym u32 = "32 word"
type_synonym u64 = "64 word"

text \<open>A QString is a list of UTF-16 code units, a byte string a list of bytes.\<close>

type_synonym qstring = "16 word list"

definition ascii :: "string \<Rightarrow> bytes" where
  "ascii s = map of_char s"

definition latin1 :: "string \<Rightarrow> qstring" where
  "latin1 s = map of_char s"

text \<open>
  How an operation ends without a value: \<open>Err\<close> is the text it leaves in its
  error out-parameter, \<open>Abort\<close> a failed \<open>Expects\<close> or a step the language
  leaves undefined.
\<close>

datatype fault = Err string | Abort string

type_synonym 'a result = "fault + 'a"

definition fail_unless :: "bool \<Rightarrow> string \<Rightarrow> 'a result \<Rightarrow> 'a result" where
  "fail_unless c msg k = (if c then k else Inl (Err msg))"

definition need :: "'a option \<Rightarrow> string \<Rightarrow> ('a \<Rightarrow> 'b result) \<Rightarrow> 'b result" where
  "need x msg k = (case x of None \<Rightarrow> Inl (Err msg) | Some v \<Rightarrow> k v)"

definition bind_result :: "'a result \<Rightarrow> ('a \<Rightarrow> 'b result) \<Rightarrow> 'b result" where
  "bind_result x k = (case x of Inl e \<Rightarrow> Inl e | Inr v \<Rightarrow> k v)"

definition aborts :: "'a result \<Rightarrow> bool" where
  "aborts x = (case x of Inl (Abort _) \<Rightarrow> True | _ \<Rightarrow> False)"

named_theorems result_simps \<open>when an operation that can fail succeeds\<close>
named_theorems abort_simps \<open>when an operation that can fail does not abort\<close>

lemma fail_unless_Inr [result_simps]:
  "fail_unless c msg k = Inr y \<longleftrightarrow> c \<and> k = Inr y"
  by (simp add: fail_unless_def)

lemma need_Inr [result_simps]:
  "need x msg k = Inr y \<longleftrightarrow> (\<exists>v. x = Some v \<and> k v = Inr y)"
  by (simp add: need_def split: option.splits)

lemma bind_result_Inr [result_simps]:
  "bind_result x k = Inr y \<longleftrightarrow> (\<exists>v. x = Inr v \<and> k v = Inr y)"
  by (simp add: bind_result_def split: sum.splits)

lemma fail_unless_eval [simp]:
  "fail_unless True msg k = k"
  "fail_unless False msg k = Inl (Err msg)"
  by (simp_all add: fail_unless_def)

lemma need_eval [simp]:
  "need (Some v) msg k = k v"
  "need None msg k = Inl (Err msg)"
  by (simp_all add: need_def)

lemma bind_result_eval [simp]:
  "bind_result (Inr v) k = k v"
  "bind_result (Inl e) k = Inl e"
  by (simp_all add: bind_result_def)

lemma aborts_eval [simp]:
  "aborts (Inr v) = False"
  "aborts (Inl (Err m)) = False"
  "aborts (Inl (Abort m)) = True"
  by (simp_all add: aborts_def)

lemma aborts_fail_unless [abort_simps]:
  "aborts (fail_unless c msg k) \<longleftrightarrow> c \<and> aborts k"
  by (simp add: fail_unless_def)

lemma aborts_need [abort_simps]:
  "aborts (need x msg k) \<longleftrightarrow> (\<exists>v. x = Some v \<and> aborts (k v))"
  by (simp add: need_def split: option.splits)

lemma aborts_bind [abort_simps]:
  "aborts (bind_result x k) \<longleftrightarrow> aborts x \<or> (\<exists>v. x = Inr v \<and> aborts (k v))"
  by (cases x) (auto simp: bind_result_def aborts_def split: fault.splits)

section \<open>Loops that may stop early\<close>

text \<open>
  \<open>traverse f xs\<close> is the loop that converts one entry at a time and gives up
  on the first entry it cannot convert.
\<close>

fun traverse :: "('a \<Rightarrow> 'b option) \<Rightarrow> 'a list \<Rightarrow> 'b list option" where
  "traverse f [] = Some []"
| "traverse f (x # xs) =
     (case f x of None \<Rightarrow> None
      | Some y \<Rightarrow> (case traverse f xs of None \<Rightarrow> None | Some ys \<Rightarrow> Some (y # ys)))"

lemma traverse_Some:
  "traverse f xs = Some ys \<longleftrightarrow> list_all2 (\<lambda>x y. f x = Some y) xs ys"
proof (induction xs arbitrary: ys)
  case Nil
  then show ?case by auto
next
  case (Cons x xs)
  show ?case
  proof (cases ys)
    case Nil
    then show ?thesis by (auto split: option.splits)
  next
    case (Cons y ys')
    then show ?thesis
      by (cases "traverse f xs") (use Cons.IH [of ys'] in \<open>auto split: option.splits\<close>)
  qed
qed

lemma traverse_length: "traverse f xs = Some ys \<Longrightarrow> length ys = length xs"
  by (auto simp: traverse_Some dest: list_all2_lengthD)

lemma traverse_all:
  assumes "traverse f xs = Some ys" and "\<And>x y. f x = Some y \<Longrightarrow> P y"
  shows "\<forall>y \<in> set ys. P y"
  using assms(1) by (force simp: traverse_Some list_all2_conv_all_nth in_set_conv_nth intro: assms(2))

section \<open>Splitting\<close>

text \<open>\<open>QString::split\<close> at a character, empty parts kept.\<close>

fun split_on :: "'a \<Rightarrow> 'a list \<Rightarrow> 'a list list" where
  "split_on c [] = [[]]"
| "split_on c (x # xs) =
     (if x = c then [] # split_on c xs
      else (case split_on c xs of [] \<Rightarrow> [[x]] | p # ps \<Rightarrow> (x # p) # ps))"

lemma split_on_nonempty: "split_on c xs \<noteq> []"
  by (cases xs) (auto split: list.split)

lemma split_on_append: "c \<notin> set xs \<Longrightarrow> split_on c (xs @ c # ys) = xs # split_on c ys"
  by (induction xs) auto

lemma split_on_none: "c \<notin> set xs \<Longrightarrow> split_on c xs = [xs]"
  by (induction xs) auto

end
