(* ===== verification/Byte_Words.thy ===== *)
theory Byte_Words
  imports Prelude
begin

text \<open>
  Words and byte strings. \<open>le_bytes n w\<close> is the loop that appends
  \<open>uint8_t(w >> (8 * i))\<close> for \<open>i = 0 .. n - 1\<close>, \<open>be_bytes n w\<close> the loop that
  counts down; \<open>le_value\<close> and \<open>be_value\<close> are the loops that read them back,
  \<open>value |= bytes[i] << (8 * i)\<close> and \<open>value = (value << 8) | byte\<close>. All are
  described bit by bit, which gives the round trips.
\<close>

definition le_bytes :: "nat \<Rightarrow> 'a::len word \<Rightarrow> bytes" where
  "le_bytes n w = map (\<lambda>i. ucast (drop_bit (8 * i) w)) [0..<n]"

definition be_bytes :: "nat \<Rightarrow> 'a::len word \<Rightarrow> bytes" where
  "be_bytes n w = map (\<lambda>i. ucast (drop_bit (8 * i) w)) (rev [0..<n])"

fun le_value :: "bytes \<Rightarrow> 'a::len word" where
  "le_value [] = 0"
| "le_value (b # bs) = ucast b OR push_bit 8 (le_value bs)"

definition be_value :: "bytes \<Rightarrow> 'a::len word" where
  "be_value bs = foldl (\<lambda>acc b. push_bit 8 acc OR ucast b) 0 bs"

lemma be_bytes_rev: "be_bytes n w = rev (le_bytes n w)"
  by (simp add: be_bytes_def le_bytes_def rev_map)

lemma length_le_bytes [simp]: "length (le_bytes n w) = n"
  by (simp add: le_bytes_def)

lemma length_be_bytes [simp]: "length (be_bytes n w) = n"
  by (simp add: be_bytes_def)

lemma nth_le_bytes [simp]: "i < n \<Longrightarrow> le_bytes n w ! i = ucast (drop_bit (8 * i) w)"
  by (simp add: le_bytes_def)

lemma be_value_rev: "be_value bs = le_value (rev bs)"
proof -
  have "foldr (\<lambda>b acc. push_bit 8 acc OR ucast b) cs 0 = (le_value cs :: 'a word)" for cs
    by (induction cs) (simp_all add: or.commute)
  then show ?thesis
    by (simp add: be_value_def foldl_conv_foldr)
qed

lemma bit_le_value:
  "bit (le_value bs :: 'a::len word) k
    \<longleftrightarrow> k < LENGTH('a) \<and> k div 8 < length bs \<and> bit (bs ! (k div 8)) (k mod 8)"
proof (induction bs arbitrary: k)
  case Nil
  then show ?case by simp
next
  case (Cons b bs)
  show ?case
  proof (cases "k < 8")
    case True
    then show ?thesis by (auto simp: bit_or_iff bit_push_bit_iff bit_ucast_iff)
  next
    case False
    then obtain j where k: "k = j + 8" by (metis add.commute le_Suc_ex linorder_not_less)
    then have "k div 8 = Suc (j div 8)" and "k mod 8 = j mod 8" by simp_all
    moreover have "\<not> bit b k" using False by (auto dest: bit_imp_le_length)
    ultimately show ?thesis
      using k Cons.IH [of j] by (auto simp: bit_or_iff bit_push_bit_iff bit_ucast_iff)
  qed
qed

lemma le_value_le_bytes: "le_value (le_bytes n w) = take_bit (8 * n) (w :: 'a::len word)"
proof (rule bit_word_eqI)
  fix k
  assume "k < LENGTH('a)"
  moreover have "k div 8 < n \<longleftrightarrow> k < 8 * n" by auto
  moreover have "k mod 8 < 8" by simp
  ultimately show "bit (le_value (le_bytes n w) :: 'a word) k \<longleftrightarrow> bit (take_bit (8 * n) w) k"
    by (auto simp: bit_le_value bit_take_bit_iff bit_ucast_iff bit_drop_bit_eq)
qed

lemma le_value_le_bytes_full:
  fixes w :: "'a::len word"
  assumes "LENGTH('a) \<le> 8 * n"
  shows "le_value (le_bytes n w) = w"
  using assms by (simp add: le_value_le_bytes take_bit_word_eq_self)

lemma le_bytes_le_value:
  assumes "8 * length bs \<le> LENGTH('a)"
  shows "le_bytes (length bs) (le_value bs :: 'a::len word) = bs"
proof (rule nth_equalityI)
  show "length (le_bytes (length bs) (le_value bs :: 'a word)) = length bs" by simp
next
  fix i
  assume "i < length (le_bytes (length bs) (le_value bs :: 'a word))"
  then have i: "i < length bs" by simp
  show "le_bytes (length bs) (le_value bs :: 'a word) ! i = bs ! i"
  proof (rule bit_word_eqI)
    fix k
    assume k: "k < LENGTH(8)"
    then have "(8 * i + k) div 8 = i" and "(8 * i + k) mod 8 = k" by simp_all
    moreover have "8 * i + k < LENGTH('a)" using i k assms by simp
    ultimately show "bit (le_bytes (length bs) (le_value bs :: 'a word) ! i) k = bit (bs ! i) k"
      using i k by (simp add: bit_ucast_iff bit_drop_bit_eq bit_le_value)
  qed
qed

lemma be_value_be_bytes: "be_value (be_bytes n w) = take_bit (8 * n) (w :: 'a::len word)"
  by (simp add: be_value_rev be_bytes_rev le_value_le_bytes)

lemma be_value_be_bytes_full:
  fixes w :: "'a::len word"
  assumes "LENGTH('a) \<le> 8 * n"
  shows "be_value (be_bytes n w) = w"
  using assms by (simp add: be_value_be_bytes take_bit_word_eq_self)

lemma be_bytes_be_value:
  assumes "8 * length bs \<le> LENGTH('a)"
  shows "be_bytes (length bs) (be_value bs :: 'a::len word) = bs"
  using assms le_bytes_le_value [of "rev bs", where 'a = 'a]
  by (simp add: be_value_rev be_bytes_rev)

lemma le_value_take_bit:
  assumes "length bs \<le> n"
  shows "take_bit (8 * n) (le_value bs :: 'a::len word) = le_value bs"
proof (rule bit_word_eqI)
  fix k
  assume "k < LENGTH('a)"
  moreover have "k div 8 < length bs \<Longrightarrow> k < 8 * n" using assms by auto
  ultimately show "bit (take_bit (8 * n) (le_value bs :: 'a word)) k = bit (le_value bs :: 'a word) k"
    by (auto simp: bit_take_bit_iff bit_le_value)
qed

lemma le_value_bound:
  assumes "8 * length bs \<le> LENGTH('a)"
  shows "unat (le_value bs :: 'a::len word) < 256 ^ length bs"
proof -
  have "take_bit (8 * length bs) (le_value bs :: 'a word) = le_value bs"
    by (rule le_value_take_bit) simp
  then have "unat (le_value bs :: 'a word) = take_bit (8 * length bs) (unat (le_value bs :: 'a word))"
    by (metis unsigned_take_bit_eq)
  also have "\<dots> < 2 ^ (8 * length bs)" by (rule take_bit_nat_less_exp)
  finally show ?thesis by (simp add: power_mult)
qed

lemma be_value_bound:
  assumes "8 * length bs \<le> LENGTH('a)"
  shows "unat (be_value bs :: 'a::len word) < 256 ^ length bs"
  using assms le_value_bound [of "rev bs", where 'a = 'a] by (simp add: be_value_rev)

text \<open>Four bytes written out one by one, as most readers and writers do it.\<close>

lemma le_value_4:
  "le_value [b0, b1, b2, b3]
    = ucast b0 OR push_bit 8 (ucast b1) OR push_bit 16 (ucast b2) OR (push_bit 24 (ucast b3) :: 'a::len word)"
  by (simp add: push_bit_or or.assoc)

lemma be_value_4:
  "be_value [b0, b1, b2, b3]
    = push_bit 24 (ucast b0) OR push_bit 16 (ucast b1) OR push_bit 8 (ucast b2) OR (ucast b3 :: 'a::len word)"
  by (simp add: be_value_def push_bit_or or.assoc)

lemma le_bytes_4:
  "le_bytes 4 w = [ucast w, ucast (drop_bit 8 w), ucast (drop_bit 16 w), ucast (drop_bit 24 w)]"
  by (simp add: le_bytes_def upt_rec)

lemma be_bytes_2: "be_bytes 2 w = [ucast (drop_bit 8 w), ucast w]"
  by (simp add: be_bytes_def upt_rec)

lemma be_bytes_4:
  "be_bytes 4 w = [ucast (drop_bit 24 w), ucast (drop_bit 16 w), ucast (drop_bit 8 w), ucast w]"
  by (simp add: be_bytes_def upt_rec)

lemma list_of_length_4:
  "length xs = 4 \<Longrightarrow> xs = [xs ! 0, xs ! 1, xs ! 2, xs ! 3]"
  by (simp add: list_eq_iff_nth_eq less_Suc_eq numeral_eq_Suc nth_Cons split: nat.split)

section \<open>Codecs\<close>

text \<open>
  The contract of a self-delimiting encoding: decoding what was encoded gives
  the value back and leaves exactly the bytes that followed it. A client needs
  nothing else to know that encodings can be concatenated.
\<close>

locale prefix_codec =
  fixes enc :: "'a \<Rightarrow> bytes"
    and dec :: "bytes \<Rightarrow> ('a \<times> bytes) option"
    and valid :: "'a \<Rightarrow> bool"
  assumes dec_enc: "valid x \<Longrightarrow> dec (enc x @ rest) = Some (x, rest)"
begin

lemma enc_prefix_free:
  assumes "valid x" and "valid y" and "enc x @ r = enc y @ s"
  shows "x = y \<and> r = s"
proof -
  have "Some (x, r) = Some (y, s)"
    using dec_enc [OF assms(1), of r] dec_enc [OF assms(2), of s] by (simp only: assms(3))
  then show ?thesis by simp
qed

lemma enc_inject: "valid x \<Longrightarrow> valid y \<Longrightarrow> enc x = enc y \<longleftrightarrow> x = y"
  using enc_prefix_free [where x = x and y = y and r = "[]" and s = "[]"] by blast

fun dec_many :: "nat \<Rightarrow> bytes \<Rightarrow> ('a list \<times> bytes) option" where
  "dec_many 0 bs = Some ([], bs)"
| "dec_many (Suc n) bs =
     (case dec bs of None \<Rightarrow> None
      | Some (x, bs') \<Rightarrow>
          (case dec_many n bs' of None \<Rightarrow> None | Some (xs, r) \<Rightarrow> Some (x # xs, r)))"

lemma dec_many_enc:
  "(\<forall>x \<in> set xs. valid x) \<Longrightarrow>
    dec_many (length xs) (concat (map enc xs) @ rest) = Some (xs, rest)"
  by (induction xs) (simp_all add: dec_enc)

lemma enc_list_inject:
  assumes "\<forall>x \<in> set xs. valid x" and "\<forall>y \<in> set ys. valid y" and "length xs = length ys"
    and "concat (map enc xs) @ r = concat (map enc ys) @ s"
  shows "xs = ys \<and> r = s"
proof -
  have "Some (xs, r) = Some (ys, s)"
    using dec_many_enc [OF assms(1), of r] dec_many_enc [OF assms(2), of s]
    by (simp only: assms(3,4))
  then show ?thesis by simp
qed

end

end
