(* ===== verification/Update_Format.thy ===== *)
theory Update_Format
  imports Byte_Words
begin

unbundle bit_operations_syntax

text \<open>
  The v2 update package: the enumerations and version numbers of
  \<open>core/update_verify.h\<close>, the bounds-checked reader and \<open>ParseEnvelope\<close> of
  \<open>core/update_verify.cpp\<close>, and the writer \<open>BuildV2Envelope\<close> of
  \<open>_other/packer.cpp\<close> that produces the files the client reads.
\<close>

section \<open>Channels, targets and versions\<close>

definition kEnvelopeMagic :: bytes where
  "kEnvelopeMagic = ascii ''TDUP''"

definition kEnvelopeFormat :: u32 where
  "kEnvelopeFormat = 2"

datatype channel = Stable | Beta | CanaryPublic | CanaryPrivate

definition channel_code :: "channel \<Rightarrow> byte" where
  "channel_code c = (case c of Stable \<Rightarrow> 0 | Beta \<Rightarrow> 1 | CanaryPublic \<Rightarrow> 2 | CanaryPrivate \<Rightarrow> 3)"

text \<open>The cast \<open>Channel(value)\<close>, applied only to values up to \<open>CanaryPrivate\<close>.\<close>

definition channel_of_code :: "byte \<Rightarrow> channel" where
  "channel_of_code b =
    (if b = 0 then Stable else if b = 1 then Beta else if b = 2 then CanaryPublic else CanaryPrivate)"

definition ChannelName :: "channel \<Rightarrow> bytes" where
  "ChannelName c = (case c of
      Stable \<Rightarrow> ascii ''stable''
    | Beta \<Rightarrow> ascii ''beta''
    | CanaryPublic \<Rightarrow> ascii ''canary-public''
    | CanaryPrivate \<Rightarrow> ascii ''canary-private'')"

definition ChannelFromName :: "bytes \<Rightarrow> channel option" where
  "ChannelFromName name =
    (if name = ascii ''stable'' then Some Stable
     else if name = ascii ''beta'' then Some Beta
     else if name = ascii ''canary-public'' then Some CanaryPublic
     else if name = ascii ''canary-private'' then Some CanaryPrivate
     else None)"

datatype os = Windows | Mac | Linux

datatype arch = X86 | X64 | Arm

definition os_code :: "os \<Rightarrow> byte" where
  "os_code x = (case x of Windows \<Rightarrow> 0 | Mac \<Rightarrow> 1 | Linux \<Rightarrow> 2)"

definition os_of_code :: "byte \<Rightarrow> os" where
  "os_of_code b = (if b = 0 then Windows else if b = 1 then Mac else Linux)"

definition arch_code :: "arch \<Rightarrow> byte" where
  "arch_code x = (case x of X86 \<Rightarrow> 0 | X64 \<Rightarrow> 1 | Arm \<Rightarrow> 2)"

definition arch_of_code :: "byte \<Rightarrow> arch" where
  "arch_of_code b = (if b = 0 then X86 else if b = 1 then X64 else Arm)"

record target =
  t_os :: os
  t_arch :: arch

definition OsName :: "os \<Rightarrow> bytes" where
  "OsName x = (case x of
      Windows \<Rightarrow> ascii ''win'' | Mac \<Rightarrow> ascii ''mac'' | Linux \<Rightarrow> ascii ''linux'')"

definition ArchName :: "arch \<Rightarrow> bytes" where
  "ArchName x = (case x of X86 \<Rightarrow> ascii ''x86'' | X64 \<Rightarrow> ascii ''x64'' | Arm \<Rightarrow> ascii ''arm'')"

definition TargetFromPlatformKey :: "bytes \<Rightarrow> target option" where
  "TargetFromPlatformKey key =
    (if key = ascii ''win'' then Some \<lparr>t_os = Windows, t_arch = X86\<rparr>
     else if key = ascii ''win64'' then Some \<lparr>t_os = Windows, t_arch = X64\<rparr>
     else if key = ascii ''winarm'' then Some \<lparr>t_os = Windows, t_arch = Arm\<rparr>
     else if key = ascii ''mac'' then Some \<lparr>t_os = Mac, t_arch = X64\<rparr>
     else if key = ascii ''armac'' then Some \<lparr>t_os = Mac, t_arch = Arm\<rparr>
     else if key = ascii ''linux'' then Some \<lparr>t_os = Linux, t_arch = X64\<rparr>
     else None)"

definition MakeUpdateVersion :: "u32 \<Rightarrow> u32 \<Rightarrow> u64" where
  "MakeUpdateVersion base counter = push_bit 32 (ucast base) OR ucast counter"

definition UpdateVersionBase :: "u64 \<Rightarrow> u32" where
  "UpdateVersionBase version = ucast (drop_bit 32 version)"

definition UpdateVersionCounter :: "u64 \<Rightarrow> u32" where
  "UpdateVersionCounter version = ucast (version AND 0xFFFFFFFF)"

section \<open>The reader\<close>

text \<open>
  \<open>size\<close> is the length of the data. A failed read leaves the reader as it was;
  \<open>readU64\<close> reads its second half even when the first one failed.
\<close>

record reader =
  rd_data :: bytes
  rd_offset :: nat

definition reader_read :: "nat \<Rightarrow> reader \<Rightarrow> bytes option \<times> reader" where
  "reader_read count r =
    (if count > length (rd_data r) - rd_offset r then (None, r)
     else (Some (take count (drop (rd_offset r) (rd_data r))), r\<lparr>rd_offset := rd_offset r + count\<rparr>))"

definition readU8 :: "reader \<Rightarrow> byte option \<times> reader" where
  "readU8 r =
    (case reader_read 1 r of
       (None, r') \<Rightarrow> (None, r')
     | (Some bs, r') \<Rightarrow> (Some (bs ! 0), r'))"

definition readU32 :: "reader \<Rightarrow> u32 option \<times> reader" where
  "readU32 r =
    (case reader_read 4 r of
       (None, r') \<Rightarrow> (None, r')
     | (Some bs, r') \<Rightarrow>
         (Some (ucast (bs ! 0) OR push_bit 8 (ucast (bs ! 1))
                OR push_bit 16 (ucast (bs ! 2)) OR push_bit 24 (ucast (bs ! 3))), r'))"

definition readU64 :: "reader \<Rightarrow> u64 option \<times> reader" where
  "readU64 r =
    (let (low, r1) = readU32 r; (high, r2) = readU32 r1
     in case (low, high) of
          (Some l, Some h) \<Rightarrow> (Some (ucast l OR push_bit 32 (ucast h)), r2)
        | _ \<Rightarrow> (None, r2))"

definition readBytes :: "u32 \<Rightarrow> reader \<Rightarrow> bytes option \<times> reader" where
  "readBytes count r =
    (if unat count > length (rd_data r) - rd_offset r then (None, r)
     else (Some (take (unat count) (drop (rd_offset r) (rd_data r))),
           r\<lparr>rd_offset := rd_offset r + unat count\<rparr>))"

section \<open>The envelope\<close>

definition kMaxManifestSize :: nat where "kMaxManifestSize = 256 * 1024"
definition kMaxManifestSignatureSize :: nat where "kMaxManifestSignatureSize = 256"
definition kMaxSignatures :: nat where "kMaxSignatures = 16"
definition kMaxKeyIdSize :: nat where "kMaxKeyIdSize = 64"
definition kMaxSignatureSize :: nat where "kMaxSignatureSize = 512"
definition kMaxPayloadSize :: nat where "kMaxPayloadSize = 256 * 1024 * 1024"

record envelope_signature =
  es_keyId :: bytes
  es_bytes :: bytes

record envelope =
  e_channel :: channel
  e_target :: target
  e_version :: u64
  e_created :: u64
  e_manifest :: bytes
  e_manifestSignature :: bytes
  e_signatures :: "envelope_signature list"
  e_payload :: bytes
  e_signedRegion :: bytes

definition IsV2UpdateFile :: "bytes \<Rightarrow> bool" where
  "IsV2UpdateFile data \<longleftrightarrow> length data \<ge> 4 \<and> take 4 data = kEnvelopeMagic"

text \<open>\<open>checked x P\<close>: the value is there and passes the test.\<close>

definition checked :: "'a option \<Rightarrow> ('a \<Rightarrow> bool) \<Rightarrow> 'a option" where
  "checked x P = (case x of None \<Rightarrow> None | Some v \<Rightarrow> if P v then Some v else None)"

definition size_in :: "nat \<Rightarrow> u32 \<Rightarrow> bool" where
  "size_in limit n \<longleftrightarrow> n \<noteq> 0 \<and> unat n \<le> limit"

text \<open>The loop over the signature list: \<open>n\<close> entries are still to be read.\<close>

fun read_signatures :: "nat \<Rightarrow> reader \<Rightarrow> (envelope_signature list \<times> reader) result" where
  "read_signatures 0 r = Inr ([], r)"
| "read_signatures (Suc n) r =
    (let (idLength, r1) = readU32 r
     in need (checked idLength (size_in kMaxKeyIdSize)) ''Bad envelope key id size.'' (\<lambda>idl.
     let (id, r2) = readBytes idl r1
     in need id ''Bad envelope key id.'' (\<lambda>keyId.
     let (sigLength, r3) = readU32 r2
     in need (checked sigLength (size_in kMaxSignatureSize)) ''Bad envelope signature size.'' (\<lambda>sl.
     let (sig, r4) = readBytes sl r3
     in need sig ''Bad envelope signature.'' (\<lambda>sigBytes.
     bind_result (read_signatures n r4) (\<lambda>(rest, r5).
       Inr (\<lparr>es_keyId = keyId, es_bytes = sigBytes\<rparr> # rest, r5)))))))"

definition ParseEnvelope :: "bytes \<Rightarrow> envelope result" where
  "ParseEnvelope data =
    fail_unless (IsV2UpdateFile data) ''Bad envelope magic.'' (
    let (format, r1) = readU32 \<lparr>rd_data = data, rd_offset = 4\<rparr>
    in need (checked format (\<lambda>f. f = kEnvelopeFormat)) ''Bad envelope format.'' (\<lambda>_.
    let (channel, r2) = readU8 r1
    in need (checked channel (\<lambda>c. c \<le> channel_code CanaryPrivate)) ''Bad envelope channel.'' (\<lambda>channel.
    let (os, r3) = readU8 r2
    in need (checked os (\<lambda>c. c \<le> os_code Linux)) ''Bad envelope os.'' (\<lambda>os.
    let (arch, r4) = readU8 r3
    in need (checked arch (\<lambda>c. c \<le> arch_code Arm)) ''Bad envelope arch.'' (\<lambda>arch.
    let (version, r5) = readU64 r4
    in need version ''Bad envelope version.'' (\<lambda>version.
    let (created, r6) = readU64 r5
    in need created ''Bad envelope timestamp.'' (\<lambda>created.
    let (manifestLength, r7) = readU32 r6
    in need (checked manifestLength (size_in kMaxManifestSize)) ''Bad envelope manifest size.'' (\<lambda>ml.
    let (manifest, r8) = readBytes ml r7
    in need manifest ''Bad envelope manifest.'' (\<lambda>manifest.
    let (manifestSigLength, r9) = readU32 r8
    in need (checked manifestSigLength (size_in kMaxManifestSignatureSize))
         ''Bad envelope manifest signature size.'' (\<lambda>msl.
    let (manifestSig, r10) = readBytes msl r9
    in need manifestSig ''Bad envelope manifest signature.'' (\<lambda>manifestSig.
    let (count, r11) = readU32 r10
    in need (checked count (\<lambda>c. unat c \<le> kMaxSignatures)) ''Bad envelope signature count.'' (\<lambda>count.
    bind_result (read_signatures (unat count) r11) (\<lambda>(signatures, r12).
    let (payloadLength, r13) = readU32 r12
    in need (checked payloadLength (size_in kMaxPayloadSize)) ''Bad envelope payload size.'' (\<lambda>pl.
    let (payload, r14) = readBytes pl r13
    in need (checked payload (\<lambda>_. rd_offset r14 = length data)) ''Bad envelope payload.'' (\<lambda>payload.
    Inr \<lparr>e_channel = channel_of_code channel,
         e_target = \<lparr>t_os = os_of_code os, t_arch = arch_of_code arch\<rparr>,
         e_version = version, e_created = created, e_manifest = manifest,
         e_manifestSignature = manifestSig, e_signatures = signatures,
         e_payload = payload, e_signedRegion = take (rd_offset r8) data\<rparr>)))))))))))))))"

section \<open>The packer\<close>

definition AppendLeU32 :: "bytes \<Rightarrow> u32 \<Rightarrow> bytes" where
  "AppendLeU32 to value =
    to @ [ucast (value AND 0xFF), ucast (drop_bit 8 value AND 0xFF),
          ucast (drop_bit 16 value AND 0xFF), ucast (drop_bit 24 value AND 0xFF)]"

definition AppendLeU64 :: "bytes \<Rightarrow> u64 \<Rightarrow> bytes" where
  "AppendLeU64 to value =
    AppendLeU32 (AppendLeU32 to (ucast (value AND 0xFFFFFFFF))) (ucast (drop_bit 32 value))"

fun append_signatures :: "bytes \<Rightarrow> envelope_signature list \<Rightarrow> bytes" where
  "append_signatures to [] = to"
| "append_signatures to (s # ss) =
     append_signatures
       (AppendLeU32 (AppendLeU32 to (of_nat (length (es_keyId s))) @ es_keyId s)
         (of_nat (length (es_bytes s))) @ es_bytes s) ss"

definition BuildV2Envelope ::
  "channel \<Rightarrow> target \<Rightarrow> u64 \<Rightarrow> u64 \<Rightarrow> bytes \<Rightarrow> bytes \<Rightarrow> envelope_signature list \<Rightarrow> bytes \<Rightarrow> bytes" where
  "BuildV2Envelope channel target version created manifest manifestSignature signatures payload =
    (let r = [] @ kEnvelopeMagic;
         r = AppendLeU32 r kEnvelopeFormat;
         r = r @ [channel_code channel];
         r = r @ [os_code (t_os target)];
         r = r @ [arch_code (t_arch target)];
         r = AppendLeU64 r version;
         r = AppendLeU64 r created;
         r = AppendLeU32 r (of_nat (length manifest));
         r = r @ manifest;
         r = AppendLeU32 r (of_nat (length manifestSignature));
         r = r @ manifestSignature;
         r = AppendLeU32 r (of_nat (length signatures));
         r = append_signatures r signatures;
         r = AppendLeU32 r (of_nat (length payload));
         r = r @ payload
     in r)"

section \<open>Reading as the inverse of writing\<close>

text \<open>
  \<open>reader_at p rest\<close> is a reader that has consumed \<open>p\<close> and has \<open>rest\<close> before
  it. The interface between the readers and everything that parses with them:
  a read of a field consumes exactly the field's encoding, or fails.
\<close>

definition reader_at :: "bytes \<Rightarrow> bytes \<Rightarrow> reader" where
  "reader_at p rest = \<lparr>rd_data = p @ rest, rd_offset = length p\<rparr>"

definition reader_rest :: "reader \<Rightarrow> bytes" where
  "reader_rest r = drop (rd_offset r) (rd_data r)"

lemma reader_rest_at [simp]: "reader_rest (reader_at p rest) = rest"
  by (simp add: reader_rest_def reader_at_def)

lemma reader_read_at:
  "reader_read n (reader_at p rest) =
    (if n \<le> length rest then (Some (take n rest), reader_at (p @ take n rest) (drop n rest))
     else (None, reader_at p rest))"
  by (simp add: reader_read_def reader_at_def)

lemma need_checked:
  "need (checked x P) msg f = need x msg (\<lambda>v. fail_unless (P v) msg (f v))"
  by (simp add: need_def checked_def fail_unless_def split: option.splits)

locale field_reader =
  fixes rd :: "reader \<Rightarrow> 'a option \<times> reader"
    and enc :: "'a \<Rightarrow> bytes"
    and valid :: "'a \<Rightarrow> bool"
  assumes rd_enc: "valid v \<Longrightarrow> rd (reader_at p (enc v @ rest)) = (Some v, reader_at (p @ enc v) rest)"
    and rd_Some: "rd (reader_at p rest) = (Some v, r') \<Longrightarrow>
      valid v \<and> (\<exists>rest'. rest = enc v @ rest' \<and> r' = reader_at (p @ enc v) rest')"
begin

lemma rd_iff:
  "rd (reader_at p rest) = (Some v, r') \<longleftrightarrow>
    valid v \<and> (\<exists>rest'. rest = enc v @ rest' \<and> r' = reader_at (p @ enc v) rest')"
  using rd_enc rd_Some by metis

text \<open>A read whose result is tested and passed on, the shape of every step of a parser.\<close>

lemma rd_need:
  "(let (x, r') = rd (reader_at p rest) in need x msg (\<lambda>v. k v r')) = Inr y \<longleftrightarrow>
    (\<exists>v rest'. valid v \<and> rest = enc v @ rest' \<and> k v (reader_at (p @ enc v) rest') = Inr y)"
proof (cases "rd (reader_at p rest)")
  case (Pair x r')
  show ?thesis
  proof (cases x)
    case None
    then show ?thesis using Pair rd_enc by fastforce
  next
    case (Some v)
    with Pair obtain rest' where "valid v" "rest = enc v @ rest'" "r' = reader_at (p @ enc v) rest'"
      using rd_Some by blast
    then show ?thesis using Pair Some rd_enc by fastforce
  qed
qed

lemma rd_need_checked:
  "(let (x, r') = rd (reader_at p rest) in need (checked x (\<lambda>v. P v r')) msg (\<lambda>v. k v r')) = Inr y \<longleftrightarrow>
    (\<exists>v rest'. valid v \<and> P v (reader_at (p @ enc v) rest') \<and> rest = enc v @ rest' \<and>
      k v (reader_at (p @ enc v) rest') = Inr y)"
  by (simp only: need_checked rd_need result_simps) blast

lemma rd_step:
  "valid v \<Longrightarrow>
    (let (x, r') = rd (reader_at p (enc v @ rest)) in need x msg (\<lambda>v. k v r'))
      = k v (reader_at (p @ enc v) rest)"
  by (simp add: rd_enc)

lemma rd_step_checked:
  "valid v \<Longrightarrow> P v (reader_at (p @ enc v) rest) \<Longrightarrow>
    (let (x, r') = rd (reader_at p (enc v @ rest)) in need (checked x (\<lambda>v. P v r')) msg (\<lambda>v. k v r'))
      = k v (reader_at (p @ enc v) rest)"
  by (simp add: rd_enc checked_def)

end

sublocale field_reader \<subseteq> prefix_codec enc
  "\<lambda>bs. case rd (reader_at [] bs) of (None, _) \<Rightarrow> None | (Some v, r) \<Rightarrow> Some (v, reader_rest r)" valid
  by unfold_locales (simp add: rd_enc)

interpretation u8: field_reader readU8 "\<lambda>v. [v]" "\<lambda>_. True"
proof
  show "readU8 (reader_at p ([v] @ rest)) = (Some v, reader_at (p @ [v]) rest)" for v p rest
    by (simp add: readU8_def reader_read_at)
  show "True \<and> (\<exists>rest'. rest = [v] @ rest' \<and> r' = reader_at (p @ [v]) rest')"
    if "readU8 (reader_at p rest) = (Some v, r')" for p rest v r'
    using that by (cases rest) (auto simp: readU8_def reader_read_at)
qed

lemma readU32_at:
  "readU32 (reader_at p rest) =
    (if 4 \<le> length rest then (Some (le_value (take 4 rest)), reader_at (p @ take 4 rest) (drop 4 rest))
     else (None, reader_at p rest))"
proof (cases "4 \<le> length rest")
  case True
  then have "take 4 rest = [rest ! 0, rest ! 1, rest ! 2, rest ! 3]"
    using list_of_length_4 [of "take 4 rest"] by simp
  then have "le_value (take 4 rest) = (ucast (rest ! 0) OR push_bit 8 (ucast (rest ! 1))
      OR push_bit 16 (ucast (rest ! 2)) OR push_bit 24 (ucast (rest ! 3)) :: u32)"
    by (simp only: le_value_4)
  with True show ?thesis by (simp add: readU32_def reader_read_at)
qed (simp add: readU32_def reader_read_at)

interpretation u32: field_reader readU32 "le_bytes 4" "\<lambda>_. True"
proof
  show "readU32 (reader_at p (le_bytes 4 v @ rest)) = (Some v, reader_at (p @ le_bytes 4 v) rest)"
    for v p rest
    by (simp add: readU32_at le_value_le_bytes_full)
  show "True \<and> (\<exists>rest'. rest = le_bytes 4 v @ rest' \<and> r' = reader_at (p @ le_bytes 4 v) rest')"
    if "readU32 (reader_at p rest) = (Some v, r')" for p rest v r'
  proof -
    from that have len: "4 \<le> length rest" and v: "v = le_value (take 4 rest)"
      and r': "r' = reader_at (p @ take 4 rest) (drop 4 rest)"
      by (auto simp: readU32_at split: if_splits)
    have "le_bytes 4 v = take 4 rest"
      using le_bytes_le_value [of "take 4 rest", where 'a = 32] len v by (simp add: min_absorb2)
    then show ?thesis using r' by (metis append_take_drop_id)
  qed
qed

lemma le_bytes_8:
  "le_bytes 8 (w :: u64) = le_bytes 4 (ucast w :: u32) @ le_bytes 4 (ucast (drop_bit 32 w) :: u32)"
proof -
  have "[0..<8] = [0, 1, 2, 3, 4, 5, 6, 7 :: nat]" by (simp add: upt_rec)
  moreover have "[0..<4] = [0, 1, 2, 3 :: nat]" by (simp add: upt_rec)
  moreover have "(ucast (drop_bit n (ucast v :: u32)) :: byte) = ucast (drop_bit n v)"
    if "n \<le> 24" for n and v :: u64
    using that by (intro bit_word_eqI) (auto simp: bit_ucast_iff bit_drop_bit_eq)
  moreover have "(ucast (ucast v :: u32) :: byte) = ucast v" for v :: u64
    by (intro bit_word_eqI) (auto simp: bit_ucast_iff)
  ultimately show ?thesis by (simp add: le_bytes_def)
qed

lemma u64_halves:
  "(ucast (ucast (w :: u64) :: u32) OR push_bit 32 (ucast (ucast (drop_bit 32 w) :: u32))) = w"
  by (rule bit_word_eqI) (auto simp: bit_or_iff bit_push_bit_iff bit_ucast_iff bit_drop_bit_eq)

lemma halves_u64:
  "(ucast (ucast l OR push_bit 32 (ucast h) :: u64) :: u32) = (l :: u32)"
  "(ucast (drop_bit 32 (ucast l OR push_bit 32 (ucast h) :: u64)) :: u32) = (h :: u32)"
  by (rule bit_word_eqI;
      auto simp: bit_or_iff bit_push_bit_iff bit_ucast_iff bit_drop_bit_eq dest: bit_imp_le_length)+

interpretation u64: field_reader readU64 "le_bytes 8" "\<lambda>_. True"
proof
  show "readU64 (reader_at p (le_bytes 8 v @ rest)) = (Some v, reader_at (p @ le_bytes 8 v) rest)"
    for v p rest
    by (simp add: readU64_def le_bytes_8 u64_halves u32.rd_enc)
  show "True \<and> (\<exists>rest'. rest = le_bytes 8 v @ rest' \<and> r' = reader_at (p @ le_bytes 8 v) rest')"
    if rd: "readU64 (reader_at p rest) = (Some v, r')" for p rest v r'
  proof -
    obtain l r1 h where l: "readU32 (reader_at p rest) = (Some l, r1)"
      and h: "readU32 r1 = (Some h, r')" and v: "v = ucast l OR push_bit 32 (ucast h)"
      using rd by (auto simp: readU64_def Let_def split: prod.splits option.splits)
    from l obtain rest1 where "rest = le_bytes 4 l @ rest1" and r1: "r1 = reader_at (p @ le_bytes 4 l) rest1"
      by (auto simp: u32.rd_iff)
    moreover from h r1 obtain rest2 where "rest1 = le_bytes 4 h @ rest2"
      and "r' = reader_at ((p @ le_bytes 4 l) @ le_bytes 4 h) rest2"
      by (auto simp: u32.rd_iff)
    moreover have "le_bytes 8 v = le_bytes 4 l @ le_bytes 4 h"
      by (simp only: v le_bytes_8 halves_u64)
    ultimately show ?thesis by simp
  qed
qed

interpretation rbytes: field_reader "readBytes n" "\<lambda>v. v" "\<lambda>v. length v = unat n" for n
proof
  show "readBytes n (reader_at p (v @ rest)) = (Some v, reader_at (p @ v) rest)"
    if "length v = unat n" for v p rest
    using that by (simp add: readBytes_def reader_at_def)
  show "length v = unat n \<and> (\<exists>rest'. rest = v @ rest' \<and> r' = reader_at (p @ v) rest')"
    if "readBytes n (reader_at p rest) = (Some v, r')" for p rest v r'
    using that
    by (auto simp: readBytes_def reader_at_def split: if_splits intro: exI [of _ "drop (unat n) rest"])
qed

lemmas read_needs =
  u8.rd_need_checked u32.rd_need_checked rbytes.rd_need_checked
  u64.rd_need rbytes.rd_need

lemmas read_steps =
  u8.rd_step_checked u32.rd_step_checked u64.rd_step rbytes.rd_step

section \<open>The file format\<close>

definition signature_ok :: "envelope_signature \<Rightarrow> bool" where
  "signature_ok s \<longleftrightarrow>
    es_keyId s \<noteq> [] \<and> length (es_keyId s) \<le> kMaxKeyIdSize \<and>
    es_bytes s \<noteq> [] \<and> length (es_bytes s) \<le> kMaxSignatureSize"

definition signature_bytes :: "envelope_signature \<Rightarrow> bytes" where
  "signature_bytes s =
    le_bytes 4 (of_nat (length (es_keyId s)) :: u32) @ es_keyId s
    @ le_bytes 4 (of_nat (length (es_bytes s)) :: u32) @ es_bytes s"

definition envelope_header :: "envelope \<Rightarrow> bytes" where
  "envelope_header e =
    kEnvelopeMagic @ le_bytes 4 kEnvelopeFormat
    @ [channel_code (e_channel e), os_code (t_os (e_target e)), arch_code (t_arch (e_target e))]
    @ le_bytes 8 (e_version e) @ le_bytes 8 (e_created e)
    @ le_bytes 4 (of_nat (length (e_manifest e)) :: u32) @ e_manifest e"

definition envelope_body :: "envelope \<Rightarrow> bytes" where
  "envelope_body e =
    le_bytes 4 (of_nat (length (e_manifestSignature e)) :: u32) @ e_manifestSignature e
    @ le_bytes 4 (of_nat (length (e_signatures e)) :: u32) @ concat (map signature_bytes (e_signatures e))
    @ le_bytes 4 (of_nat (length (e_payload e)) :: u32) @ e_payload e"

definition envelope_ok :: "envelope \<Rightarrow> bool" where
  "envelope_ok e \<longleftrightarrow>
    e_manifest e \<noteq> [] \<and> length (e_manifest e) \<le> kMaxManifestSize \<and>
    e_manifestSignature e \<noteq> [] \<and> length (e_manifestSignature e) \<le> kMaxManifestSignatureSize \<and>
    length (e_signatures e) \<le> kMaxSignatures \<and> (\<forall>s \<in> set (e_signatures e). signature_ok s) \<and>
    e_payload e \<noteq> [] \<and> length (e_payload e) \<le> kMaxPayloadSize \<and>
    e_signedRegion e = envelope_header e"

lemmas size_limits =
  kMaxManifestSize_def kMaxManifestSignatureSize_def kMaxSignatures_def kMaxKeyIdSize_def
  kMaxSignatureSize_def kMaxPayloadSize_def

lemma unat_size [simp]: "n < 2 ^ 32 \<Longrightarrow> unat (of_nat n :: u32) = n"
  by (simp add: unat_of_nat)

lemma size_in_of_nat:
  "n < 2 ^ 32 \<Longrightarrow> size_in limit (of_nat n) \<longleftrightarrow> n \<noteq> 0 \<and> n \<le> limit"
  by (metis size_in_def unat_size unat_eq_zero)

text \<open>A length-prefixed byte string: the read of a length and of that many bytes.\<close>

lemma sized_bytesD:
  assumes "size_in limit n" and "length v = unat n"
  shows "n = of_nat (length v) \<and> v \<noteq> [] \<and> length v \<le> limit"
  using assms by (auto simp: size_in_def unat_eq_zero)

lemma read_signatures_Inr:
  "read_signatures n (reader_at p rest) = Inr (ss, r') \<longleftrightarrow>
    length ss = n \<and> (\<forall>s \<in> set ss. signature_ok s) \<and>
    (\<exists>rest'. rest = concat (map signature_bytes ss) @ rest' \<and>
      r' = reader_at (p @ concat (map signature_bytes ss)) rest')"
proof (induction n arbitrary: p rest ss r')
  case 0
  show ?case by auto
next
  case (Suc n)
  show ?case
  proof
    assume "read_signatures (Suc n) (reader_at p rest) = Inr (ss, r')"
    then obtain idl kid sl sb rest' tl where
        id: "size_in kMaxKeyIdSize idl" "length kid = unat idl"
      and sg: "size_in kMaxSignatureSize sl" "length sb = unat sl"
      and rest: "rest = le_bytes 4 idl @ kid @ le_bytes 4 sl @ sb @ rest'"
      and tl: "read_signatures n (reader_at (p @ le_bytes 4 idl @ kid @ le_bytes 4 sl @ sb) rest') = Inr (tl, r')"
      and ss: "ss = \<lparr>es_keyId = kid, es_bytes = sb\<rparr> # tl"
      by (simp only: read_signatures.simps read_needs bind_result_Inr prod.case_distrib) auto
    have head: "signature_bytes \<lparr>es_keyId = kid, es_bytes = sb\<rparr> = le_bytes 4 idl @ kid @ le_bytes 4 sl @ sb"
      and "signature_ok \<lparr>es_keyId = kid, es_bytes = sb\<rparr>"
      using sized_bytesD [OF id] sized_bytesD [OF sg] by (simp_all add: signature_bytes_def signature_ok_def)
    with rest tl ss show
      "length ss = Suc n \<and> (\<forall>s \<in> set ss. signature_ok s) \<and>
        (\<exists>rest'. rest = concat (map signature_bytes ss) @ rest' \<and>
          r' = reader_at (p @ concat (map signature_bytes ss)) rest')"
      by (auto simp: Suc.IH head)
  next
    assume asm: "length ss = Suc n \<and> (\<forall>s \<in> set ss. signature_ok s) \<and>
        (\<exists>rest'. rest = concat (map signature_bytes ss) @ rest' \<and>
          r' = reader_at (p @ concat (map signature_bytes ss)) rest')"
    then obtain s tl rest' where ss: "ss = s # tl" and ok: "signature_ok s"
      and tl: "length tl = n" "\<forall>s \<in> set tl. signature_ok s"
      and rest: "rest = signature_bytes s @ concat (map signature_bytes tl) @ rest'"
      and r': "r' = reader_at (p @ signature_bytes s @ concat (map signature_bytes tl)) rest'"
      by (cases ss) auto
    have IH: "read_signatures n (reader_at q (concat (map signature_bytes tl) @ rest'))
        = Inr (tl, reader_at (q @ concat (map signature_bytes tl)) rest')" for q
      using tl by (simp add: Suc.IH)
    from ok have "length (es_keyId s) < 2 ^ 32" "length (es_bytes s) < 2 ^ 32"
      by (auto simp: signature_ok_def size_limits)
    with ok show "read_signatures (Suc n) (reader_at p rest) = Inr (ss, r')"
      by (simp add: ss rest r' signature_bytes_def u32.rd_enc rbytes.rd_enc checked_def size_in_of_nat
          signature_ok_def IH)
  qed
qed

lemma bind_read_signatures:
  "bind_result (read_signatures n (reader_at p rest)) (\<lambda>(ss, r). k ss r) = Inr y \<longleftrightarrow>
    (\<exists>ss rest'. length ss = n \<and> (\<forall>s \<in> set ss. signature_ok s) \<and>
      rest = concat (map signature_bytes ss) @ rest' \<and>
      k ss (reader_at (p @ concat (map signature_bytes ss)) rest') = Inr y)"
  by (auto simp: bind_result_Inr read_signatures_Inr)

lemma AppendLeU32_eq: "AppendLeU32 to w = to @ le_bytes 4 w"
proof -
  have "(0xFF :: u32) = mask 8" by (simp add: mask_eq_exp_minus_1)
  moreover have "(ucast (v AND mask 8) :: byte) = ucast v" for v :: u32
    by (rule bit_word_eqI) (auto simp: bit_ucast_iff bit_and_iff bit_mask_iff)
  ultimately show ?thesis by (simp add: AppendLeU32_def le_bytes_4)
qed

lemma AppendLeU64_eq: "AppendLeU64 to w = to @ le_bytes 8 w"
proof -
  have "(0xFFFFFFFF :: u64) = mask 32" by (simp add: mask_eq_exp_minus_1)
  moreover have "(ucast (w AND mask 32) :: u32) = ucast w"
    by (rule bit_word_eqI) (auto simp: bit_ucast_iff bit_and_iff bit_mask_iff)
  ultimately show ?thesis by (simp add: AppendLeU64_def AppendLeU32_eq le_bytes_8)
qed

lemma append_signatures_eq: "append_signatures to ss = to @ concat (map signature_bytes ss)"
  by (induction ss arbitrary: to) (simp_all add: AppendLeU32_eq signature_bytes_def)

lemma BuildV2Envelope_eq:
  "BuildV2Envelope (e_channel e) (e_target e) (e_version e) (e_created e) (e_manifest e)
     (e_manifestSignature e) (e_signatures e) (e_payload e) = envelope_header e @ envelope_body e"
  by (simp add: BuildV2Envelope_def AppendLeU32_eq AppendLeU64_eq append_signatures_eq
      envelope_header_def envelope_body_def)

lemma codes [simp]:
  "channel_of_code (channel_code c) = c"
  "os_of_code (os_code o') = o'"
  "arch_of_code (arch_code a) = a"
  by (simp_all add: channel_of_code_def channel_code_def os_of_code_def os_code_def
      arch_of_code_def arch_code_def split: channel.split os.split arch.split)

lemma codes_bounded [simp]:
  "channel_code c \<le> channel_code CanaryPrivate"
  "os_code o' \<le> os_code Linux"
  "arch_code a \<le> arch_code Arm"
  by (simp_all add: channel_code_def os_code_def arch_code_def split: channel.split os.split arch.split)

lemma byte_le_3: "(b :: byte) \<le> 3 \<Longrightarrow> b = 0 \<or> b = 1 \<or> b = 2 \<or> b = 3"
proof -
  assume "b \<le> 3"
  then have "unat b \<le> 3" by (simp add: word_le_nat_alt)
  then have "unat b \<in> {0, 1, 2, 3}" by auto
  moreover have "b = of_nat (unat b)" by simp
  ultimately show ?thesis by (elim insertE) (simp_all only: of_nat_simps of_nat_numeral empty_iff of_nat_1 simp_thms)
qed

lemma byte_le_2: "(b :: byte) \<le> 2 \<Longrightarrow> b = 0 \<or> b = 1 \<or> b = 2"
proof -
  assume le: "b \<le> 2"
  then have "b \<le> 3" by (simp add: word_le_nat_alt)
  moreover have "b \<noteq> 3" using le by auto
  ultimately show ?thesis using byte_le_3 by blast
qed

lemma code_of_codes:
  "b \<le> channel_code CanaryPrivate \<Longrightarrow> channel_code (channel_of_code b) = b"
  "b \<le> os_code Linux \<Longrightarrow> os_code (os_of_code b) = b"
  "b \<le> arch_code Arm \<Longrightarrow> arch_code (arch_of_code b) = b"
  using byte_le_3 [of b] byte_le_2 [of b]
  by (auto simp: channel_of_code_def channel_code_def os_of_code_def os_code_def
      arch_of_code_def arch_code_def)

lemma length_magic [simp]: "length kEnvelopeMagic = 4"
  by (simp add: kEnvelopeMagic_def ascii_def)

lemma IsV2UpdateFile_iff:
  "IsV2UpdateFile data \<longleftrightarrow> (\<exists>rest. data = kEnvelopeMagic @ rest)"
proof
  assume "IsV2UpdateFile data"
  then have "data = kEnvelopeMagic @ drop 4 data"
    by (metis IsV2UpdateFile_def append_take_drop_id)
  then show "\<exists>rest. data = kEnvelopeMagic @ rest" ..
qed (auto simp: IsV2UpdateFile_def)

lemma reader_after_magic:
  "\<lparr>rd_data = kEnvelopeMagic @ rest, rd_offset = 4\<rparr> = reader_at kEnvelopeMagic rest"
  by (simp add: reader_at_def)

lemma ParseEnvelope_complete:
  assumes ok: "envelope_ok e"
  shows "ParseEnvelope (envelope_header e @ envelope_body e) = Inr e"
proof -
  have sizes: "length (e_manifest e) < 2 ^ 32" "length (e_manifestSignature e) < 2 ^ 32"
    "length (e_signatures e) < 2 ^ 32" "length (e_payload e) < 2 ^ 32"
    using ok by (auto simp: envelope_ok_def size_limits)
  then have counts [simp]: "unat (of_nat (length (e_manifest e)) :: u32) = length (e_manifest e)"
    "unat (of_nat (length (e_manifestSignature e)) :: u32) = length (e_manifestSignature e)"
    "unat (of_nat (length (e_signatures e)) :: u32) = length (e_signatures e)"
    "unat (of_nat (length (e_payload e)) :: u32) = length (e_payload e)"
    by simp_all
  have facts: "size_in kMaxManifestSize (of_nat (length (e_manifest e)))"
    "size_in kMaxManifestSignatureSize (of_nat (length (e_manifestSignature e)))"
    "size_in kMaxPayloadSize (of_nat (length (e_payload e)))"
    "length (e_signatures e) \<le> kMaxSignatures"
    using ok sizes by (simp_all add: size_in_of_nat envelope_ok_def)
  have sigs: "read_signatures (length (e_signatures e)) (reader_at p (concat (map signature_bytes (e_signatures e)) @ rest))
      = Inr (e_signatures e, reader_at (p @ concat (map signature_bytes (e_signatures e))) rest)" for p rest
    using ok by (simp add: read_signatures_Inr envelope_ok_def)
  define rest where "rest = drop 4 (envelope_header e @ envelope_body e)"
  have data: "envelope_header e @ envelope_body e = kEnvelopeMagic @ rest"
    and rest: "rest = le_bytes 4 kEnvelopeFormat @ [channel_code (e_channel e)] @ [os_code (t_os (e_target e))]
      @ [arch_code (t_arch (e_target e))] @ le_bytes 8 (e_version e) @ le_bytes 8 (e_created e)
      @ le_bytes 4 (of_nat (length (e_manifest e)) :: u32) @ e_manifest e
      @ le_bytes 4 (of_nat (length (e_manifestSignature e)) :: u32) @ e_manifestSignature e
      @ le_bytes 4 (of_nat (length (e_signatures e)) :: u32) @ concat (map signature_bytes (e_signatures e))
      @ le_bytes 4 (of_nat (length (e_payload e)) :: u32) @ e_payload e"
    by (simp_all add: rest_def envelope_header_def envelope_body_def)
  have header: "kEnvelopeMagic @ le_bytes 4 kEnvelopeFormat @ channel_code (e_channel e)
      # os_code (t_os (e_target e)) # arch_code (t_arch (e_target e)) # le_bytes 8 (e_version e)
      @ le_bytes 8 (e_created e) @ le_bytes 4 (of_nat (length (e_manifest e)) :: u32) @ e_manifest e @ more
      = envelope_header e @ more"
    "kEnvelopeMagic @ le_bytes 4 kEnvelopeFormat @ channel_code (e_channel e)
      # os_code (t_os (e_target e)) # arch_code (t_arch (e_target e)) # le_bytes 8 (e_version e)
      @ le_bytes 8 (e_created e) @ le_bytes 4 (of_nat (length (e_manifest e)) :: u32) @ e_manifest e
      = envelope_header e" for more
    by (simp_all add: envelope_header_def)
  have offset: "rd_offset (reader_at p r) = length p" for p r
    by (simp add: reader_at_def)
  have last: "readBytes n (reader_at p v) = (Some v, reader_at (p @ v) [])" if "length v = unat n" for n p v
    using rbytes.rd_enc [OF that, of p "[]"] by simp
  have "IsV2UpdateFile (kEnvelopeMagic @ rest)" by (auto simp: IsV2UpdateFile_iff)
  then show ?thesis
    unfolding data ParseEnvelope_def
    apply (simp only: fail_unless_eval reader_after_magic)
    apply (subst rest)
    apply (simp only: read_steps facts counts codes_bounded simp_thms)
    apply (simp only: sigs bind_result_eval prod.case read_steps facts simp_thms)
    apply (simp only: last prod.case checked_def option.case need_eval offset data [symmetric]
        append_assoc append_Cons append_Nil header)
    apply (simp add: last offset envelope_body_def)
    apply (use ok in \<open>simp add: envelope_ok_def\<close>)
    done
qed

lemma ParseEnvelope_sound:
  assumes "ParseEnvelope data = Inr e"
  shows "envelope_ok e \<and> data = envelope_header e @ envelope_body e"
proof -
  have "IsV2UpdateFile data" using assms by (simp add: ParseEnvelope_def result_simps)
  then obtain rest where data: "data = kEnvelopeMagic @ rest" by (auto simp: IsV2UpdateFile_iff)
  have offset: "rd_offset (reader_at p r) = length p" for p r
    by (simp add: reader_at_def)
  have consumed: "d = p @ r \<Longrightarrow> take (rd_offset (reader_at p r)) d = p" for d p r
    by (simp add: offset)
  note eqs = assms [unfolded ParseEnvelope_def data fail_unless_Inr reader_after_magic read_needs
    bind_read_signatures simp_thms]
  from eqs show ?thesis
  proof (elim exE conjE, goal_cases)
    case (1 f r1 c r2 os r3 a r4 v r5 t r6 ml r7 m r8 msl r9 ms r10 n r11 ss r12 pl r13 pay r14)
    let ?P = "((((((((kEnvelopeMagic @ le_bytes 4 f) @ [c]) @ [os]) @ [a]) @ le_bytes 8 v) @ le_bytes 8 t)
      @ le_bytes 4 ml) @ m)"
    have tail: "r14 = []" using 1 by (simp add: offset)
    have "kEnvelopeMagic @ rest = ?P @ r8" using 1 by simp
    then have "take (rd_offset (reader_at ?P r8)) (kEnvelopeMagic @ rest) = ?P"
      by (rule consumed)
    with 1 have out: "e = \<lparr>e_channel = channel_of_code c,
        e_target = \<lparr>t_os = os_of_code os, t_arch = arch_of_code a\<rparr>, e_version = v, e_created = t,
        e_manifest = m, e_manifestSignature = ms, e_signatures = ss, e_payload = pay,
        e_signedRegion = ?P\<rparr>"
      by (simp only: sum.inject)
    have "size_in kMaxManifestSize ml" "length m = unat ml"
      and "size_in kMaxManifestSignatureSize msl" "length ms = unat msl"
      and "size_in kMaxPayloadSize pl" "length pay = unat pl"
      and signatures: "\<forall>s \<in> set ss. signature_ok s" "length ss = unat n" "unat n \<le> kMaxSignatures"
      and format: "f = kEnvelopeFormat"
      and code_bounds: "c \<le> channel_code CanaryPrivate" "os \<le> os_code Linux" "a \<le> arch_code Arm"
      by (rule 1)+
    then have m: "ml = of_nat (length m)" "m \<noteq> []" "length m \<le> kMaxManifestSize"
      and ms: "msl = of_nat (length ms)" "ms \<noteq> []" "length ms \<le> kMaxManifestSignatureSize"
      and pay: "pl = of_nat (length pay)" "pay \<noteq> []" "length pay \<le> kMaxPayloadSize"
      using sized_bytesD by blast+
    have codes: "channel_code (channel_of_code c) = c" "os_code (os_of_code os) = os" "arch_code (arch_of_code a) = a"
      using code_bounds by (simp_all add: code_of_codes)
    have n: "of_nat (length ss) = n" using signatures(2) by simp
    have "rest = le_bytes 4 f @ [c, os, a] @ le_bytes 8 v @ le_bytes 8 t @ le_bytes 4 ml @ m
      @ le_bytes 4 msl @ ms @ le_bytes 4 n @ concat (map signature_bytes ss) @ le_bytes 4 pl @ pay"
      using 1 tail by simp
    then show ?case
      using m ms pay signatures
      by (simp add: out data codes format n envelope_ok_def envelope_header_def envelope_body_def)
  qed
qed

section \<open>Properties\<close>

definition pack :: "envelope \<Rightarrow> bytes" where
  "pack e = BuildV2Envelope (e_channel e) (e_target e) (e_version e) (e_created e) (e_manifest e)
     (e_manifestSignature e) (e_signatures e) (e_payload e)"

text \<open>
  C2: \<open>ParseEnvelope\<close> accepts a file exactly when the packer's \<open>BuildV2Envelope\<close>
  writes it for an envelope within the structural limits, and it returns that
  envelope, with the signed region being the bytes from the magic through the
  manifest. Nothing else parses: no trailing bytes, no second encoding.
\<close>

theorem ParseEnvelope_inverts_BuildV2Envelope:
  "ParseEnvelope data = Inr e \<longleftrightarrow> envelope_ok e \<and> data = pack e"
  using ParseEnvelope_sound ParseEnvelope_complete by (auto simp: pack_def BuildV2Envelope_eq)

lemma envelope_header_inject:
  assumes "envelope_header e = envelope_header e'"
  shows "e_channel e = e_channel e' \<and> e_target e = e_target e' \<and> e_version e = e_version e' \<and>
    e_created e = e_created e' \<and> e_manifest e = e_manifest e'"
proof -
  have codes: "channel_code (e_channel e) = channel_code (e_channel e')"
    "os_code (t_os (e_target e)) = os_code (t_os (e_target e'))"
    "arch_code (t_arch (e_target e)) = arch_code (t_arch (e_target e'))"
    and words: "le_bytes 8 (e_version e) = le_bytes 8 (e_version e')"
    "le_bytes 8 (e_created e) = le_bytes 8 (e_created e')" and "e_manifest e = e_manifest e'"
    using assms by (auto simp: envelope_header_def)
  then show ?thesis
    by (metis codes(1,2,3) Update_Format.codes(1,2,3) target.equality unit.exhaust u64.enc_inject)
qed

text \<open>
  The signed region binds the package: two files whose envelopes have the same
  signed region agree on channel, target, version, creation time and manifest,
  so a valid signature for one cannot be carried over to another of these.
\<close>

theorem signed_region_binds:
  assumes "ParseEnvelope data = Inr e" and "ParseEnvelope data' = Inr e'"
    and "e_signedRegion e = e_signedRegion e'"
  shows "e_channel e = e_channel e' \<and> e_target e = e_target e' \<and> e_version e = e_version e' \<and>
    e_created e = e_created e' \<and> e_manifest e = e_manifest e'"
proof -
  have "e_signedRegion e = envelope_header e" "e_signedRegion e' = envelope_header e'"
    using ParseEnvelope_sound [OF assms(1)] ParseEnvelope_sound [OF assms(2)]
    by (auto simp: envelope_ok_def)
  with assms(3) show ?thesis by (intro envelope_header_inject) simp
qed

definition sample_envelope :: "bytes \<Rightarrow> envelope" where
  "sample_envelope payload =
    (let e = \<lparr>e_channel = Beta, e_target = \<lparr>t_os = Linux, t_arch = X64\<rparr>, e_version = 7, e_created = 1,
       e_manifest = [123, 125], e_manifestSignature = [9],
       e_signatures = [\<lparr>es_keyId = ascii ''rl'', es_bytes = [1, 2]\<rparr>],
       e_payload = payload, e_signedRegion = []\<rparr>
     in e\<lparr>e_signedRegion := envelope_header e\<rparr>)"

lemma sample_envelope_ok: "p \<noteq> [] \<Longrightarrow> length p \<le> 4 \<Longrightarrow> envelope_ok (sample_envelope p)"
  by (auto simp: envelope_ok_def sample_envelope_def signature_ok_def size_limits ascii_def
      envelope_header_def)

lemma sample_envelope_parses:
  "p \<noteq> [] \<Longrightarrow> length p \<le> 4 \<Longrightarrow>
    ParseEnvelope (envelope_header (sample_envelope p) @ envelope_body (sample_envelope p))
      = Inr (sample_envelope p)"
  by (intro ParseEnvelope_complete sample_envelope_ok)

theorem signed_region_binds_witness:
  "e_version (sample_envelope [5]) = e_version (sample_envelope [6])"
proof -
  have "e_signedRegion (sample_envelope [5]) = e_signedRegion (sample_envelope [6])"
    by (simp add: sample_envelope_def envelope_header_def)
  with signed_region_binds [OF sample_envelope_parses sample_envelope_parses, of "[5]" "[6]"]
  show ?thesis by simp
qed

text \<open>
  A version packs a base and a counter without loss, and comparing versions is
  comparing the base first and the counter only between equal bases.
\<close>

theorem update_version_order:
  "UpdateVersionBase (MakeUpdateVersion b c) = b \<and>
   UpdateVersionCounter (MakeUpdateVersion b c) = c \<and>
   (MakeUpdateVersion b c < MakeUpdateVersion b' c') = (b < b' \<or> b = b' \<and> c < c')"
proof -
  have base: "UpdateVersionBase (MakeUpdateVersion b c) = b"
    by (rule bit_word_eqI)
      (auto simp: UpdateVersionBase_def MakeUpdateVersion_def bit_or_iff bit_push_bit_iff
        bit_ucast_iff bit_drop_bit_eq dest: bit_imp_le_length)
  have mask: "(0xFFFFFFFF :: u64) = mask 32" by (simp add: mask_eq_exp_minus_1)
  have counter: "UpdateVersionCounter (MakeUpdateVersion b c) = c"
    unfolding UpdateVersionCounter_def MakeUpdateVersion_def mask
    by (intro bit_word_eqI)
      (auto simp: bit_or_iff bit_push_bit_iff bit_ucast_iff bit_and_iff bit_mask_iff)
  have unat_version: "unat (MakeUpdateVersion x y) = unat x * 2 ^ 32 + unat y" for x y
  proof -
    have "push_bit 32 (ucast x :: u64) AND ucast y = 0"
      by (rule bit_word_eqI) (auto simp: bit_and_iff bit_push_bit_iff bit_ucast_iff dest: bit_imp_le_length)
    then have "MakeUpdateVersion x y = push_bit 32 (ucast x) + ucast y"
      by (simp add: MakeUpdateVersion_def disjunctive_add_eq_or)
    moreover have "unat x < 2 ^ 32" "unat y < 2 ^ 32"
      using unsigned_less [of x] unsigned_less [of y] by simp_all
    ultimately show ?thesis
      by (simp add: push_bit_eq_mult unat_word_ariths unsigned_ucast_eq take_bit_nat_eq_self)
  qed
  have "unat c < 2 ^ 32" "unat c' < 2 ^ 32"
    using unsigned_less [of c] unsigned_less [of c'] by simp_all
  then have "(MakeUpdateVersion b c < MakeUpdateVersion b' c') = (b < b' \<or> b = b' \<and> c < c')"
    unfolding word_less_nat_alt unat_version word_unat_eq_iff by auto
  with base counter show ?thesis by blast
qed

end
