(* ===== verification/Update_Manifest.thy ===== *)
theory Update_Manifest
  imports Complex_Main Update_Format
begin

text \<open>
  The signed key manifest of \<open>core/update_verify.cpp\<close>: the Ed25519 / ES256
  signature checks and the defensive JSON parser behind
  \<open>ParseVerifiedManifest\<close>.

  OpenSSL and Qt are not part of the repository. What the code calls of them is
  the record \<open>platform\<close>, a parameter of every definition that uses it: JSON
  parsing, \<open>QString::toLatin1\<close>, base64url decoding, SHA-256, key loading and the
  two signature verifications. A JSON number is the exact rational value of its
  double.
\<close>

section \<open>The platform\<close>

datatype json =
    JUndefined
  | JNull
  | JBool bool
  | JDouble rat
  | JString qstring
  | JArray "json list"
  | JObject "(qstring \<times> json) list"

datatype digest = NoDigest | Sha256Digest

record 'k platform =
  qt_fromJson :: "bytes \<Rightarrow> json option"
  qt_toLatin1 :: "qstring \<Rightarrow> bytes"
  qt_fromBase64Url :: "bytes \<Rightarrow> bytes option"
  ssl_sha256 :: "bytes \<Rightarrow> bytes option"
  ssl_readPubkeyPem :: "bytes \<Rightarrow> 'k option"
  ssl_isEd25519 :: "'k \<Rightarrow> bool"
  ssl_newRawEd25519 :: "bytes \<Rightarrow> 'k option"
  ssl_d2iPubkey :: "bytes \<Rightarrow> 'k option"
  ssl_digestVerify :: "digest \<Rightarrow> 'k \<Rightarrow> bytes \<Rightarrow> bytes \<Rightarrow> bool"
  ssl_ecdsaSigDer :: "bytes \<Rightarrow> bytes \<Rightarrow> bytes option"

section \<open>Digests and signatures\<close>

definition kMaxKeys :: nat where "kMaxKeys = 64"
definition kMaxChannels :: nat where "kMaxChannels = 16"
definition kMaxGroups :: nat where "kMaxGroups = 8"
definition kMaxGroupKeys :: nat where "kMaxGroupKeys = 16"
definition kMaxRevoked :: nat where "kMaxRevoked = 64"
definition kRawSignatureSize :: nat where "kRawSignatureSize = 64"
definition kRawCoordinateSize :: nat where "kRawCoordinateSize = 32"
definition kSha256Size :: nat where "kSha256Size = 32"

definition Sha256 :: "'k platform \<Rightarrow> bytes \<Rightarrow> bytes" where
  "Sha256 P data =
    (case ssl_sha256 P data of
       None \<Rightarrow> []
     | Some digest \<Rightarrow> if length digest \<noteq> kSha256Size then [] else digest)"

definition FromBase64Url :: "'k platform \<Rightarrow> json \<Rightarrow> nat \<Rightarrow> bytes option" where
  "FromBase64Url P value expectedSize =
    (case value of
       JString s \<Rightarrow>
         (case qt_fromBase64Url P (qt_toLatin1 P s) of
            None \<Rightarrow> None
          | Some decoded \<Rightarrow> if length decoded \<noteq> expectedSize then None else Some decoded)
     | _ \<Rightarrow> None)"

text \<open>The cast from double to qint64 truncates.\<close>

definition trunc :: "rat \<Rightarrow> int" where
  "trunc x = (if x < 0 then \<lceil>x\<rceil> else \<lfloor>x\<rfloor>)"

definition ReadInt64 :: "json \<Rightarrow> int option" where
  "ReadInt64 value =
    (case value of
       JDouble number \<Rightarrow>
         if \<not> (number > -9007199254740992) \<or> \<not> (number < 9007199254740992) then None
         else let result = trunc number
              in if of_int result \<noteq> number then None else Some result
     | _ \<Rightarrow> None)"

definition LoadEd25519Pem :: "'k platform \<Rightarrow> bytes \<Rightarrow> 'k option" where
  "LoadEd25519Pem P pem =
    (case ssl_readPubkeyPem P pem of
       None \<Rightarrow> None
     | Some key \<Rightarrow> if ssl_isEd25519 P key then Some key else None)"

definition MakeEd25519 :: "'k platform \<Rightarrow> bytes \<Rightarrow> 'k option" where
  "MakeEd25519 P x =
    (if length x \<noteq> kRawCoordinateSize then None else ssl_newRawEd25519 P x)"

definition kSpkiPrefix :: bytes where
  "kSpkiPrefix =
    [0x30, 0x59, 0x30, 0x13, 0x06, 0x07, 0x2a, 0x86, 0x48, 0xce,
     0x3d, 0x02, 0x01, 0x06, 0x08, 0x2a, 0x86, 0x48, 0xce, 0x3d,
     0x03, 0x01, 0x07, 0x03, 0x42, 0x00]"

definition MakeEs256 :: "'k platform \<Rightarrow> bytes \<Rightarrow> bytes \<Rightarrow> 'k option" where
  "MakeEs256 P x y =
    (if length x \<noteq> kRawCoordinateSize \<or> length y \<noteq> kRawCoordinateSize then None
     else ssl_d2iPubkey P (kSpkiPrefix @ [0x04] @ x @ y))"

definition VerifyEd25519 :: "'k platform \<Rightarrow> 'k \<Rightarrow> bytes \<Rightarrow> bytes \<Rightarrow> bool" where
  "VerifyEd25519 P key message signature =
    (if length signature \<noteq> kRawSignatureSize then False
     else ssl_digestVerify P NoDigest key signature message)"

definition Es256RawToDer :: "'k platform \<Rightarrow> bytes \<Rightarrow> bytes" where
  "Es256RawToDer P raw =
    (if length raw \<noteq> kRawSignatureSize then []
     else case ssl_ecdsaSigDer P (take kRawCoordinateSize raw) (drop kRawCoordinateSize raw) of
            None \<Rightarrow> []
          | Some der \<Rightarrow> der)"

definition VerifyEs256 :: "'k platform \<Rightarrow> 'k \<Rightarrow> bytes \<Rightarrow> bytes \<Rightarrow> bool" where
  "VerifyEs256 P key message signature =
    (let der = Es256RawToDer P signature
     in if der = [] then False else ssl_digestVerify P Sha256Digest key der message)"

section \<open>The manifest\<close>

record manifest_key =
  mk_id :: bytes
  mk_ed25519 :: bool
  mk_x :: bytes
  mk_y :: bytes
  mk_expires :: int

record manifest =
  m_version :: u32
  m_issued :: int
  m_expires :: int
  m_keys :: "manifest_key list"
  m_channels :: "bytes \<rightharpoonup> bytes list list"
  m_revoked :: "bytes list"
  m_bytes :: bytes
  m_signature :: bytes

definition object_value :: "(qstring \<times> json) list \<Rightarrow> string \<Rightarrow> json" where
  "object_value object key =
    (case map_of object (latin1 key) of None \<Rightarrow> JUndefined | Some v \<Rightarrow> v)"

text \<open>A string entry converted to a key id of acceptable size.\<close>

definition read_key_id :: "'k platform \<Rightarrow> json \<Rightarrow> bytes option" where
  "read_key_id P value =
    (case value of
       JString s \<Rightarrow>
         (let id = qt_toLatin1 P s
          in if id = [] \<or> length id > kMaxKeyIdSize then None else Some id)
     | _ \<Rightarrow> None)"

text \<open>
  One round of the loop over the keys, given the keys already stored: \<open>None\<close>
  rejects the manifest, \<open>Some None\<close> is the \<open>continue\<close> for an algorithm this
  client does not know.
\<close>

definition parse_manifest_key ::
  "'k platform \<Rightarrow> manifest_key list \<Rightarrow> json \<Rightarrow> manifest_key option option" where
  "parse_manifest_key P result entry =
    (case entry of
       JObject object \<Rightarrow>
         (case read_key_id P (object_value object ''id'') of
            None \<Rightarrow> None
          | Some keyId \<Rightarrow>
              if \<exists>existing \<in> set result. mk_id existing = keyId then None
              else
                (let expires = object_value object ''expires''
                 in case (if expires = JUndefined then Some 0
                          else case ReadInt64 expires of
                                 None \<Rightarrow> None
                               | Some parsed \<Rightarrow> if parsed \<le> 0 then None else Some parsed) of
                      None \<Rightarrow> None
                    | Some expiry \<Rightarrow>
                        (case object_value object ''alg'' of
                           JString algName \<Rightarrow>
                             if algName = latin1 ''Ed25519'' then
                               (case FromBase64Url P (object_value object ''x'') kRawCoordinateSize of
                                  None \<Rightarrow> None
                                | Some x \<Rightarrow>
                                    Some (Some \<lparr>mk_id = keyId, mk_ed25519 = True, mk_x = x, mk_y = [],
                                                mk_expires = expiry\<rparr>))
                             else if algName = latin1 ''ES256'' then
                               (if object_value object ''crv'' \<noteq> JString (latin1 ''P-256'') then None
                                else
                                  (case (FromBase64Url P (object_value object ''x'') kRawCoordinateSize,
                                         FromBase64Url P (object_value object ''y'') kRawCoordinateSize) of
                                     (Some x, Some y) \<Rightarrow>
                                       Some (Some \<lparr>mk_id = keyId, mk_ed25519 = False, mk_x = x, mk_y = y,
                                                   mk_expires = expiry\<rparr>)
                                   | _ \<Rightarrow> None))
                             else Some None
                         | _ \<Rightarrow> None)))
     | _ \<Rightarrow> None)"

fun parse_manifest_keys_loop ::
  "'k platform \<Rightarrow> manifest_key list \<Rightarrow> json list \<Rightarrow> manifest_key list option" where
  "parse_manifest_keys_loop P result [] = Some result"
| "parse_manifest_keys_loop P result (entry # entries) =
     (case parse_manifest_key P result entry of
        None \<Rightarrow> None
      | Some None \<Rightarrow> parse_manifest_keys_loop P result entries
      | Some (Some key) \<Rightarrow> parse_manifest_keys_loop P (result @ [key]) entries)"

definition ParseManifestKeys :: "'k platform \<Rightarrow> json \<Rightarrow> manifest_key list option" where
  "ParseManifestKeys P value =
    (case value of
       JArray list \<Rightarrow> if length list > kMaxKeys then None else parse_manifest_keys_loop P [] list
     | _ \<Rightarrow> None)"

definition parse_group :: "'k platform \<Rightarrow> json \<Rightarrow> bytes list option" where
  "parse_group P groupValue =
    (case groupValue of
       JArray idsList \<Rightarrow>
         if idsList = [] \<or> length idsList > kMaxGroupKeys then None
         else traverse (read_key_id P) idsList
     | _ \<Rightarrow> None)"

definition parse_groups :: "'k platform \<Rightarrow> json \<Rightarrow> bytes list list option" where
  "parse_groups P value =
    (case value of
       JArray groupsList \<Rightarrow>
         if groupsList = [] \<or> length groupsList > kMaxGroups then None
         else traverse (parse_group P) groupsList
     | _ \<Rightarrow> None)"

text \<open>\<open>std::map::emplace\<close> keeps an entry that is already there.\<close>

definition map_emplace :: "'a \<Rightarrow> 'b \<Rightarrow> ('a \<rightharpoonup> 'b) \<Rightarrow> ('a \<rightharpoonup> 'b)" where
  "map_emplace k v m = (case m k of None \<Rightarrow> m(k \<mapsto> v) | Some _ \<Rightarrow> m)"

fun parse_manifest_channels_loop ::
  "'k platform \<Rightarrow> (bytes \<rightharpoonup> bytes list list) \<Rightarrow> (qstring \<times> json) list
    \<Rightarrow> (bytes \<rightharpoonup> bytes list list) option" where
  "parse_manifest_channels_loop P result [] = Some result"
| "parse_manifest_channels_loop P result ((key, value) # rest) =
     (case parse_groups P value of
        None \<Rightarrow> None
      | Some groups \<Rightarrow>
          parse_manifest_channels_loop P (map_emplace (qt_toLatin1 P key) groups result) rest)"

definition ParseManifestChannels :: "'k platform \<Rightarrow> json \<Rightarrow> (bytes \<rightharpoonup> bytes list list) option" where
  "ParseManifestChannels P value =
    (case value of
       JObject object \<Rightarrow>
         if length object > kMaxChannels then None
         else parse_manifest_channels_loop P Map.empty object
     | _ \<Rightarrow> None)"

definition ParseManifestRevoked :: "'k platform \<Rightarrow> json \<Rightarrow> bytes list option" where
  "ParseManifestRevoked P value =
    (case value of
       JArray list \<Rightarrow>
         if length list > kMaxRevoked then None else traverse (read_key_id P) list
     | _ \<Rightarrow> None)"

definition value_or :: "'a option \<Rightarrow> 'a \<Rightarrow> 'a" where
  "value_or x d = (case x of None \<Rightarrow> d | Some v \<Rightarrow> v)"

definition ParseVerifiedManifest :: "'k platform \<Rightarrow> bytes \<Rightarrow> bytes \<Rightarrow> bytes \<Rightarrow> manifest result" where
  "ParseVerifiedManifest P json signature rootPublicKeyPem =
    fail_unless (json \<noteq> [] \<and> length json \<le> kMaxManifestSize) ''Bad manifest size.'' (
    need (LoadEd25519Pem P rootPublicKeyPem) ''Could not load the root key.'' (\<lambda>root.
    fail_unless (VerifyEd25519 P root json signature) ''Bad manifest root signature.'' (
    need (case qt_fromJson P json of Some (JObject object) \<Rightarrow> Some object | _ \<Rightarrow> None)
      ''Could not parse manifest JSON.'' (\<lambda>object.
    fail_unless (object_value object ''format'' = JDouble 1) ''Bad manifest format.'' (
    need (checked (ReadInt64 (object_value object ''manifest_version''))
            (\<lambda>version. 1 \<le> version \<and> version \<le> 0xFFFFFFFF)) ''Bad manifest version.'' (\<lambda>version.
    let issued = value_or (ReadInt64 (object_value object ''issued'')) 0;
        expires = value_or (ReadInt64 (object_value object ''expires'')) 0
    in need (ParseManifestKeys P (object_value object ''keys'')) ''Bad manifest keys.'' (\<lambda>keys.
    need (ParseManifestChannels P (object_value object ''channels'')) ''Bad manifest channels.'' (\<lambda>channels.
    need (ParseManifestRevoked P (object_value object ''revoked'')) ''Bad manifest revoked list.'' (\<lambda>revoked.
    Inr \<lparr>m_version = word_of_int version, m_issued = issued, m_expires = expires, m_keys = keys,
         m_channels = channels, m_revoked = revoked, m_bytes = json, m_signature = signature\<rparr>)))))))))"

section \<open>What an accepted manifest satisfies\<close>

definition key_ok :: "manifest_key \<Rightarrow> bool" where
  "key_ok k \<longleftrightarrow>
    mk_id k \<noteq> [] \<and> length (mk_id k) \<le> kMaxKeyIdSize \<and> 0 \<le> mk_expires k \<and>
    length (mk_x k) = kRawCoordinateSize \<and>
    (if mk_ed25519 k then mk_y k = [] else length (mk_y k) = kRawCoordinateSize)"

definition group_ok :: "bytes list \<Rightarrow> bool" where
  "group_ok g \<longleftrightarrow> g \<noteq> [] \<and> length g \<le> kMaxGroupKeys \<and>
    (\<forall>id \<in> set g. id \<noteq> [] \<and> length id \<le> kMaxKeyIdSize)"

definition groups_ok :: "bytes list list \<Rightarrow> bool" where
  "groups_ok gs \<longleftrightarrow> gs \<noteq> [] \<and> length gs \<le> kMaxGroups \<and> (\<forall>g \<in> set gs. group_ok g)"

definition manifest_ok :: "manifest \<Rightarrow> bool" where
  "manifest_ok m \<longleftrightarrow>
    1 \<le> m_version m \<and>
    distinct (map mk_id (m_keys m)) \<and> length (m_keys m) \<le> kMaxKeys \<and> (\<forall>k \<in> set (m_keys m). key_ok k) \<and>
    (\<forall>gs \<in> ran (m_channels m). groups_ok gs) \<and>
    length (m_revoked m) \<le> kMaxRevoked"

lemma read_key_id_ok:
  "read_key_id P v = Some i \<Longrightarrow> i \<noteq> [] \<and> length i \<le> kMaxKeyIdSize"
  by (auto simp: read_key_id_def Let_def split: json.splits if_splits)

lemma FromBase64Url_length: "FromBase64Url P v n = Some x \<Longrightarrow> length x = n"
  by (auto simp: FromBase64Url_def split: json.splits option.splits if_splits)

lemma parse_manifest_key_ok:
  assumes "parse_manifest_key P ks v = Some (Some k)"
  shows "key_ok k \<and> mk_id k \<notin> mk_id ` set ks"
  using assms
  by (auto simp: parse_manifest_key_def Let_def key_ok_def
      dest!: FromBase64Url_length dest: read_key_id_ok split: json.splits option.splits if_splits)

lemma parse_manifest_keys_loop_ok:
  assumes "parse_manifest_keys_loop P acc vs = Some ks"
    and "distinct (map mk_id acc)" and "\<forall>k \<in> set acc. key_ok k"
  shows "distinct (map mk_id ks) \<and> (\<forall>k \<in> set ks. key_ok k) \<and> length ks \<le> length acc + length vs"
  using assms
proof (induction P acc vs rule: parse_manifest_keys_loop.induct)
  case (2 P acc v vs)
  show ?case
  proof (cases "parse_manifest_key P acc v")
    case None
    with "2.prems" show ?thesis by simp
  next
    case (Some r)
    show ?thesis
    proof (cases r)
      case None
      with Some 2 show ?thesis by fastforce
    next
      fix k
      assume r: "r = Some k"
      have "key_ok k" "mk_id k \<notin> mk_id ` set acc"
        using parse_manifest_key_ok Some r by blast+
      with Some r 2 show ?thesis by fastforce
    qed
  qed
qed simp

lemma parse_group_ok: "parse_group P v = Some g \<Longrightarrow> group_ok g"
  by (auto simp: parse_group_def group_ok_def split: json.splits if_splits
      dest: traverse_length traverse_all [OF _ read_key_id_ok])

lemma parse_groups_ok: "parse_groups P v = Some gs \<Longrightarrow> groups_ok gs"
  by (auto simp: parse_groups_def groups_ok_def split: json.splits if_splits
      dest: traverse_length traverse_all [OF _ parse_group_ok])

lemma parse_manifest_channels_loop_ok:
  assumes "parse_manifest_channels_loop P m kvs = Some m'" and "\<forall>gs \<in> ran m. groups_ok gs"
  shows "\<forall>gs \<in> ran m'. groups_ok gs"
  using assms
proof (induction P m kvs rule: parse_manifest_channels_loop.induct)
  case (2 P m k v rest)
  from "2.prems"(1) obtain gs where gs: "parse_groups P v = Some gs"
    and rest: "parse_manifest_channels_loop P (map_emplace (qt_toLatin1 P k) gs m) rest = Some m'"
    by (auto split: option.splits)
  have "\<forall>g \<in> ran (map_emplace (qt_toLatin1 P k) gs m). groups_ok g"
    using "2.prems"(2) parse_groups_ok [OF gs]
    by (auto simp: map_emplace_def ran_def split: option.splits)
  from "2.IH" [OF gs rest this] show ?case .
qed simp

end
