(* ===== verification/Update_Verify.thy ===== *)
theory Update_Verify
  imports Update_Manifest
begin

text \<open>
  The decision whether a downloaded package may be installed, from
  \<open>core/update_verify.cpp\<close>: the signing input, the check of one signature, the
  AND-of-ORs authorization of a channel, the channel policy of a build, and
  \<open>VerifyUpdate\<close>, which composes them with the envelope and manifest parsers.
\<close>

section \<open>The operations\<close>

definition SigningInput :: "'k platform \<Rightarrow> envelope \<Rightarrow> bytes" where
  "SigningInput P envelope =
    (let hash = Sha256 P (e_payload envelope)
     in if hash = [] \<or> e_signedRegion envelope = [] then [] else e_signedRegion envelope @ hash)"

definition VerifySignature :: "'k platform \<Rightarrow> manifest_key \<Rightarrow> bytes \<Rightarrow> bytes \<Rightarrow> unit result" where
  "VerifySignature P key signingInput signature =
    fail_unless (signingInput \<noteq> []) ''Empty signing input.'' (
    need (if mk_ed25519 key then MakeEd25519 P (mk_x key) else MakeEs256 P (mk_x key) (mk_y key))
      ''Could not build the public key.'' (\<lambda>pkey.
    fail_unless
      (if mk_ed25519 key then VerifyEd25519 P pkey signingInput signature
       else VerifyEs256 P pkey signingInput signature)
      ''Bad signature.'' (Inr ())))"

definition is_revoked :: "manifest \<Rightarrow> bytes \<Rightarrow> bool" where
  "is_revoked manifest keyId \<longleftrightarrow> (\<exists>entry \<in> set (m_revoked manifest). entry = keyId)"

definition find_key :: "manifest \<Rightarrow> bytes \<Rightarrow> manifest_key option" where
  "find_key manifest keyId = List.find (\<lambda>key. mk_id key = keyId) (m_keys manifest)"

text \<open>One entry of a group: whether this key id satisfies the group.\<close>

definition id_satisfies ::
  "'k platform \<Rightarrow> manifest \<Rightarrow> bytes \<Rightarrow> envelope_signature list \<Rightarrow> int \<Rightarrow> bytes \<Rightarrow> bool" where
  "id_satisfies P manifest signingInput signatures now keyId =
    (if is_revoked manifest keyId then False
     else case find_key manifest keyId of
            None \<Rightarrow> False
          | Some key \<Rightarrow>
              if mk_expires key > 0 \<and> mk_expires key \<le> now then False
              else list_ex (\<lambda>signature. es_keyId signature = keyId \<and>
                     VerifySignature P key signingInput (es_bytes signature) = Inr ()) signatures)"

definition VerifyChannelAuthorization ::
  "'k platform \<Rightarrow> manifest \<Rightarrow> channel \<Rightarrow> bytes \<Rightarrow> envelope_signature list \<Rightarrow> int \<Rightarrow> unit result" where
  "VerifyChannelAuthorization P manifest channel signingInput signatures now =
    need (checked (m_channels manifest (ChannelName channel)) (\<lambda>groups. groups \<noteq> []))
      ''Channel is not in the manifest.'' (\<lambda>groups.
    fail_unless
      (list_all (\<lambda>group. list_ex (id_satisfies P manifest signingInput signatures now) group) groups)
      ''No valid signature for a required group.'' (Inr ()))"

definition ChannelPolicyAllows :: "channel \<Rightarrow> bool \<Rightarrow> channel \<Rightarrow> u64 \<Rightarrow> u64 \<Rightarrow> bool" where
  "ChannelPolicyAllows build betaSet package packageVersion runningVersion =
    (case build of
       Stable \<Rightarrow> package = Stable \<or> (betaSet \<and> package = Beta)
     | Beta \<Rightarrow> package = Stable \<or> package = Beta
     | CanaryPublic \<Rightarrow>
         package = CanaryPublic \<or>
         ((package = Stable \<or> package = Beta) \<and>
          UpdateVersionBase packageVersion > UpdateVersionBase runningVersion)
     | CanaryPrivate \<Rightarrow> package = CanaryPrivate)"

record verified_update =
  vu_envelope :: envelope
  vu_manifest :: manifest
  vu_adoptManifest :: bool

text \<open>\<open>*held\<close> of an empty optional is undefined behaviour, modelled as an abort.\<close>

definition deref_held :: "manifest option \<Rightarrow> manifest result" where
  "deref_held held = (case held of None \<Rightarrow> Inl (Abort ''empty optional'') | Some m \<Rightarrow> Inr m)"

definition VerifyUpdate ::
  "'k platform \<Rightarrow> bytes \<Rightarrow> channel \<Rightarrow> bool \<Rightarrow> target \<Rightarrow> u64 \<Rightarrow> manifest option \<Rightarrow> bytes \<Rightarrow> int
    \<Rightarrow> verified_update result" where
  "VerifyUpdate P data buildChannel betaSet expectedTarget runningVersion held rootPublicKeyPem now =
    bind_result (ParseEnvelope data) (\<lambda>envelope.
    fail_unless (e_target envelope = expectedTarget) ''Package target is not this platform.'' (
    bind_result (ParseVerifiedManifest P (e_manifest envelope) (e_manifestSignature envelope) rootPublicKeyPem)
      (\<lambda>carried.
    let heldVersion = (case held of Some h \<Rightarrow> m_version h | None \<Rightarrow> 0)
    in bind_result
         (if m_version carried > heldVersion then Inr (carried, True)
          else bind_result (deref_held held) (\<lambda>h. Inr (h, False))) (\<lambda>(manifest, adoptManifest).
    fail_unless
      (ChannelPolicyAllows buildChannel betaSet (e_channel envelope) (e_version envelope) runningVersion)
      ''Package channel is not allowed for this build.'' (
    let signingInput = SigningInput P envelope
    in bind_result
         (VerifyChannelAuthorization P manifest (e_channel envelope) signingInput (e_signatures envelope) now)
         (\<lambda>_.
    fail_unless (\<not> e_version envelope \<le> runningVersion) ''Package version is not newer.'' (
    Inr \<lparr>vu_envelope = envelope, vu_manifest = manifest, vu_adoptManifest = adoptManifest\<rparr>)))))))"

section \<open>What each step guarantees\<close>

definition signature_valid :: "'k platform \<Rightarrow> manifest_key \<Rightarrow> bytes \<Rightarrow> bytes \<Rightarrow> bool" where
  "signature_valid P key message signature \<longleftrightarrow> VerifySignature P key message signature = Inr ()"

text \<open>
  The specification of an authorization: every group has a key that is listed,
  not revoked and not expired, with a valid signature over the input.
\<close>

definition group_authorized ::
  "'k platform \<Rightarrow> manifest \<Rightarrow> bytes \<Rightarrow> envelope_signature list \<Rightarrow> int \<Rightarrow> bytes list \<Rightarrow> bool" where
  "group_authorized P m input sigs now g \<longleftrightarrow>
    (\<exists>keyId \<in> set g. keyId \<notin> set (m_revoked m) \<and>
      (\<exists>key \<in> set (m_keys m). mk_id key = keyId \<and> (mk_expires key = 0 \<or> now < mk_expires key) \<and>
        (\<exists>s \<in> set sigs. es_keyId s = keyId \<and> signature_valid P key input (es_bytes s))))"

lemma find_key_iff:
  assumes "distinct (map mk_id (m_keys m))"
  shows "find_key m i = Some key \<longleftrightarrow> key \<in> set (m_keys m) \<and> mk_id key = i"
proof -
  have "List.find (\<lambda>k. mk_id k = i) ks = Some key \<longleftrightarrow> key \<in> set ks \<and> mk_id key = i"
    if "distinct (map mk_id ks)" for ks
    using that by (induction ks) auto
  then show ?thesis using assms by (simp add: find_key_def)
qed

lemma group_authorized_iff:
  assumes "manifest_ok m"
  shows "list_ex (id_satisfies P m input sigs now) g \<longleftrightarrow> group_authorized P m input sigs now g"
proof -
  have dist: "distinct (map mk_id (m_keys m))" and keys: "\<forall>k \<in> set (m_keys m). 0 \<le> mk_expires k"
    using assms by (auto simp: manifest_ok_def key_ok_def)
  have "id_satisfies P m input sigs now i \<longleftrightarrow> i \<notin> set (m_revoked m) \<and>
      (\<exists>key \<in> set (m_keys m). mk_id key = i \<and> (mk_expires key = 0 \<or> now < mk_expires key) \<and>
        (\<exists>s \<in> set sigs. es_keyId s = i \<and> signature_valid P key input (es_bytes s)))" for i
  proof (cases "find_key m i")
    case None
    then have "\<not> (\<exists>key \<in> set (m_keys m). mk_id key = i)"
      by (auto simp: find_key_def find_None_iff)
    with None show ?thesis by (auto simp: id_satisfies_def)
  next
    case (Some key)
    then have key: "key \<in> set (m_keys m)" "mk_id key = i" by (simp_all add: find_key_iff dist)
    moreover have "k = key" if "k \<in> set (m_keys m)" "mk_id k = i" for k
      using that Some find_key_iff [OF dist, of i k] by simp
    ultimately show ?thesis using Some keys
      by (force simp: id_satisfies_def is_revoked_def signature_valid_def list_ex_iff)
  qed
  then show ?thesis by (simp add: list_ex_iff group_authorized_def)
qed

lemma VerifyChannelAuthorization_iff:
  assumes "manifest_ok m"
  shows "VerifyChannelAuthorization P m c input sigs now = Inr () \<longleftrightarrow>
    (\<exists>groups. m_channels m (ChannelName c) = Some groups \<and> groups \<noteq> [] \<and>
      (\<forall>g \<in> set groups. group_authorized P m input sigs now g))"
  using group_authorized_iff [OF assms, of P input sigs now]
  by (auto simp: VerifyChannelAuthorization_def result_simps checked_def list_all_iff
      split: option.splits if_splits)

lemma ParseVerifiedManifest_Inr:
  assumes "ParseVerifiedManifest P json sig pem = Inr m"
  shows "manifest_ok m \<and> m_bytes m = json \<and> m_signature m = sig \<and>
    (\<exists>root. LoadEd25519Pem P pem = Some root \<and> VerifyEd25519 P root json sig)"
proof -
  obtain root object version keys channels revoked where
      root: "LoadEd25519Pem P pem = Some root" "VerifyEd25519 P root json sig"
    and version: "checked (ReadInt64 (object_value object ''manifest_version''))
      (\<lambda>version. 1 \<le> version \<and> version \<le> 0xFFFFFFFF) = Some version"
    and keys: "ParseManifestKeys P (object_value object ''keys'') = Some keys"
    and channels: "ParseManifestChannels P (object_value object ''channels'') = Some channels"
    and revoked: "ParseManifestRevoked P (object_value object ''revoked'') = Some revoked"
    and m: "m = \<lparr>m_version = word_of_int version, m_issued = value_or (ReadInt64 (object_value object ''issued'')) 0,
      m_expires = value_or (ReadInt64 (object_value object ''expires'')) 0, m_keys = keys,
      m_channels = channels, m_revoked = revoked, m_bytes = json, m_signature = sig\<rparr>"
    using assms by (auto simp: ParseVerifiedManifest_def result_simps Let_def)
  have "distinct (map mk_id keys) \<and> (\<forall>k \<in> set keys. key_ok k) \<and> length keys \<le> kMaxKeys"
    using keys parse_manifest_keys_loop_ok [of P "[]"]
    by (fastforce simp: ParseManifestKeys_def split: json.splits if_splits)
  moreover have "\<forall>gs \<in> ran channels. groups_ok gs"
    using channels parse_manifest_channels_loop_ok [of P Map.empty]
    by (auto simp: ParseManifestChannels_def split: json.splits if_splits)
  moreover have "length revoked \<le> kMaxRevoked"
    using revoked by (auto simp: ParseManifestRevoked_def dest: traverse_length split: json.splits if_splits)
  moreover have "1 \<le> (word_of_int version :: u32)"
    using version
    by (auto simp: checked_def word_le_def uint_word_of_int
        split: option.splits if_splits)
  ultimately show ?thesis using root by (simp add: m manifest_ok_def)
qed

lemma VerifyUpdate_Inr:
  assumes "VerifyUpdate P data build betaSet tgt running held pem now = Inr u"
  obtains carried where
    "ParseEnvelope data = Inr (vu_envelope u)" and "e_target (vu_envelope u) = tgt"
    and "ParseVerifiedManifest P (e_manifest (vu_envelope u)) (e_manifestSignature (vu_envelope u)) pem = Inr carried"
    and "(case held of None \<Rightarrow> 0 | Some h \<Rightarrow> m_version h) < m_version carried
        \<and> vu_manifest u = carried \<and> vu_adoptManifest u
      \<or> (\<exists>h. held = Some h \<and> m_version carried \<le> m_version h \<and> vu_manifest u = h \<and> \<not> vu_adoptManifest u)"
    and "ChannelPolicyAllows build betaSet (e_channel (vu_envelope u)) (e_version (vu_envelope u)) running"
    and "VerifyChannelAuthorization P (vu_manifest u) (e_channel (vu_envelope u))
      (SigningInput P (vu_envelope u)) (e_signatures (vu_envelope u)) now = Inr ()"
    and "running < e_version (vu_envelope u)"
  using assms
  by (auto simp: VerifyUpdate_def result_simps Let_def deref_held_def not_le not_less
      split: if_splits option.splits)

lemma no_abort_read_signatures: "\<not> aborts (read_signatures n r)"
  by (induction n arbitrary: r) (auto simp: abort_simps Let_def split: prod.splits)

lemma no_abort_ParseEnvelope: "\<not> aborts (ParseEnvelope data)"
  by (auto simp: ParseEnvelope_def abort_simps no_abort_read_signatures Let_def split: prod.splits)

lemma no_abort_ParseVerifiedManifest: "\<not> aborts (ParseVerifiedManifest P json sig pem)"
  by (auto simp: ParseVerifiedManifest_def abort_simps Let_def)

lemma no_abort_VerifyChannelAuthorization:
  "\<not> aborts (VerifyChannelAuthorization P m c input sigs now)"
  by (auto simp: VerifyChannelAuthorization_def abort_simps)

section \<open>Properties\<close>

text \<open>
  C1: A package that \<open>VerifyUpdate\<close> accepts is exactly the packed form of its
  envelope, is built for the expected platform, is strictly newer than the
  running version, is allowed by the channel policy, carries a manifest signed
  by the root key, and every key group its channel requires in the effective
  manifest has a listed, unrevoked, unexpired key with a valid signature over
  the signed region and the payload hash.
\<close>

theorem VerifyUpdate_sound:
  assumes "VerifyUpdate P data build betaSet tgt running held pem now = Inr u"
    and "\<And>h. held = Some h \<Longrightarrow> manifest_ok h"
  shows "let e = vu_envelope u; m = vu_manifest u in
    data = pack e \<and> e_target e = tgt \<and> running < e_version e \<and>
    ChannelPolicyAllows build betaSet (e_channel e) (e_version e) running \<and>
    (\<exists>root. LoadEd25519Pem P pem = Some root \<and>
      VerifyEd25519 P root (e_manifest e) (e_manifestSignature e)) \<and>
    (\<exists>groups. m_channels m (ChannelName (e_channel e)) = Some groups \<and> groups \<noteq> [] \<and>
      (\<forall>g \<in> set groups. group_authorized P m (SigningInput P e) (e_signatures e) now g))"
proof -
  obtain carried where u: "ParseEnvelope data = Inr (vu_envelope u)" "e_target (vu_envelope u) = tgt"
    "ParseVerifiedManifest P (e_manifest (vu_envelope u)) (e_manifestSignature (vu_envelope u)) pem = Inr carried"
    "vu_manifest u = carried \<or> held = Some (vu_manifest u)"
    "ChannelPolicyAllows build betaSet (e_channel (vu_envelope u)) (e_version (vu_envelope u)) running"
    "VerifyChannelAuthorization P (vu_manifest u) (e_channel (vu_envelope u))
      (SigningInput P (vu_envelope u)) (e_signatures (vu_envelope u)) now = Inr ()"
    "running < e_version (vu_envelope u)"
    using VerifyUpdate_Inr [OF assms(1)] by metis
  have "manifest_ok (vu_manifest u)"
    using u(3,4) assms(2) ParseVerifiedManifest_Inr by metis
  with u show ?thesis
    using ParseEnvelope_sound [OF u(1)] ParseVerifiedManifest_Inr [OF u(3)]
    by (simp add: Let_def pack_def BuildV2Envelope_eq VerifyChannelAuthorization_iff)
qed

text \<open>
  C3: \<open>VerifyUpdate\<close> never dereferences an empty held manifest: a root-signed
  manifest has version at least one, so without a held manifest the carried one
  is always adopted. Every run ends with an update or an error text.
\<close>

theorem VerifyUpdate_never_aborts:
  "\<not> aborts (VerifyUpdate P data build betaSet tgt running held pem now)"
proof -
  have "(0 :: u32) < m_version c" if "ParseVerifiedManifest P json sig pem = Inr c" for json sig c
  proof -
    have "1 \<le> m_version c" using ParseVerifiedManifest_Inr [OF that] by (simp add: manifest_ok_def)
    then show ?thesis by (auto simp: word_less_nat_alt word_le_nat_alt)
  qed
  then show ?thesis
    by (auto simp: VerifyUpdate_def abort_simps no_abort_ParseEnvelope no_abort_ParseVerifiedManifest
        no_abort_VerifyChannelAuthorization Let_def deref_held_def split: option.splits if_splits)
qed

text \<open>
  The effective manifest never goes backwards. It is the carried manifest
  exactly when that is strictly newer than the held one, and then it is to be
  adopted; otherwise it is the held manifest itself.
\<close>

theorem VerifyUpdate_manifest_monotone:
  assumes "VerifyUpdate P data build betaSet tgt running (Some h) pem now = Inr u"
  shows "m_version h \<le> m_version (vu_manifest u) \<and>
    (vu_adoptManifest u \<longleftrightarrow> m_version h < m_version (vu_manifest u)) \<and>
    (if vu_adoptManifest u
     then m_bytes (vu_manifest u) = e_manifest (vu_envelope u)
       \<and> m_signature (vu_manifest u) = e_manifestSignature (vu_envelope u)
     else vu_manifest u = h)"
  using assms
  by (rule VerifyUpdate_Inr) (auto dest: ParseVerifiedManifest_Inr)

text \<open>
  C4: A revocation cannot be undone by replaying an older manifest: if the held
  manifest revokes every key of some group a channel requires, then an accepted
  package of that channel carries a strictly newer manifest.
\<close>

theorem revocation_survives_replay:
  assumes "VerifyUpdate P data build betaSet tgt running (Some h) pem now = Inr u"
    and "manifest_ok h"
    and "m_channels h (ChannelName (e_channel (vu_envelope u))) = Some groups"
    and "g \<in> set groups" and "set g \<subseteq> set (m_revoked h)"
  shows "m_version h < m_version (vu_manifest u)"
proof -
  have "vu_manifest u \<noteq> h"
  proof
    assume "vu_manifest u = h"
    moreover have "VerifyChannelAuthorization P (vu_manifest u) (e_channel (vu_envelope u))
      (SigningInput P (vu_envelope u)) (e_signatures (vu_envelope u)) now = Inr ()"
      using assms(1) by (rule VerifyUpdate_Inr)
    ultimately have "group_authorized P h (SigningInput P (vu_envelope u)) (e_signatures (vu_envelope u)) now g"
      using assms(2-4) by (auto simp: VerifyChannelAuthorization_iff)
    then show False using assms(5) by (auto simp: group_authorized_def)
  qed
  then show ?thesis using assms(1) by (elim VerifyUpdate_Inr) auto
qed

text \<open>
  The JSON parser only ever sees bytes the root key signed: when the root
  signature does not verify, the outcome does not depend on the parser at all.
\<close>

theorem unauthenticated_json_never_parsed:
  assumes "\<And>root. LoadEd25519Pem P pem = Some root \<Longrightarrow> \<not> VerifyEd25519 P root json sig"
  shows "ParseVerifiedManifest (P\<lparr>qt_fromJson := parser\<rparr>) json sig pem = ParseVerifiedManifest P json sig pem"
proof -
  have "LoadEd25519Pem (P\<lparr>qt_fromJson := parser\<rparr>) pem = LoadEd25519Pem P pem"
    and "VerifyEd25519 (P\<lparr>qt_fromJson := parser\<rparr>) = VerifyEd25519 P"
    by (simp_all add: LoadEd25519Pem_def VerifyEd25519_def fun_eq_iff split: option.split)
  with assms show ?thesis
    by (auto simp: ParseVerifiedManifest_def need_def fail_unless_def split: option.splits)
qed

text \<open>
  What a signature covers: two parsed packages with the same signing input
  agree on channel, target, version, creation time and manifest, and their
  payloads have the same SHA-256.
\<close>

theorem signing_input_binds:
  assumes "ParseEnvelope data = Inr e" and "ParseEnvelope data' = Inr e'"
    and "SigningInput P e = SigningInput P e'" and "SigningInput P e \<noteq> []"
  shows "e_channel e = e_channel e' \<and> e_target e = e_target e' \<and> e_version e = e_version e' \<and>
    e_created e = e_created e' \<and> e_manifest e = e_manifest e' \<and>
    Sha256 P (e_payload e) = Sha256 P (e_payload e')"
proof -
  have len: "Sha256 P d \<noteq> [] \<Longrightarrow> length (Sha256 P d) = kSha256Size" for d
    by (auto simp: Sha256_def split: option.splits if_splits)
  have "Sha256 P (e_payload e) \<noteq> []" "Sha256 P (e_payload e') \<noteq> []"
    and "e_signedRegion e @ Sha256 P (e_payload e) = e_signedRegion e' @ Sha256 P (e_payload e')"
    using assms(3,4) by (auto simp: SigningInput_def Let_def split: if_splits)
  with len have "e_signedRegion e = e_signedRegion e'" "Sha256 P (e_payload e) = Sha256 P (e_payload e')"
    by (metis append_eq_append_conv)+
  moreover have "e_signedRegion e = envelope_header e" "e_signedRegion e' = envelope_header e'"
    using ParseEnvelope_sound [OF assms(1)] ParseEnvelope_sound [OF assms(2)]
    by (auto simp: envelope_ok_def)
  ultimately show ?thesis using envelope_header_inject by metis
qed

text \<open>
  The channel policy on accepted packages: a private canary build takes
  private canary packages only, no other build ever takes one, a stable build
  takes beta packages only with the install-beta option and never a canary, and
  a public canary build leaves its channel only for a strictly greater base
  version.
\<close>

theorem accepted_channel_policy:
  assumes "VerifyUpdate P data build betaSet tgt running held pem now = Inr u"
  shows "(build = CanaryPrivate \<longleftrightarrow> e_channel (vu_envelope u) = CanaryPrivate) \<and>
    (build = Stable \<and> \<not> betaSet \<longrightarrow> e_channel (vu_envelope u) = Stable) \<and>
    (build \<in> {Stable, Beta} \<longrightarrow> e_channel (vu_envelope u) \<in> {Stable, Beta}) \<and>
    (build = CanaryPublic \<and> e_channel (vu_envelope u) \<noteq> CanaryPublic \<longrightarrow>
      UpdateVersionBase running < UpdateVersionBase (e_version (vu_envelope u)))"
  using assms
  by (rule VerifyUpdate_Inr) (auto simp: ChannelPolicyAllows_def split: channel.splits)

section \<open>A concrete package\<close>

text \<open>
  A platform whose verifier accepts one fixed signature, and a beta package for it,
  to show that the hypotheses above hold together.
\<close>

definition sample_json :: json where
  "sample_json = JObject
    [(latin1 ''format'', JDouble 1), (latin1 ''manifest_version'', JDouble 3),
     (latin1 ''keys'', JArray [JObject
       [(latin1 ''id'', JString (latin1 ''rl'')), (latin1 ''alg'', JString (latin1 ''Ed25519'')),
        (latin1 ''x'', JString (latin1 ''k''))]]),
     (latin1 ''channels'', JObject [(latin1 ''beta'', JArray [JArray [JString (latin1 ''rl'')]])]),
     (latin1 ''revoked'', JArray [])]"

definition sample_signature :: bytes where
  "sample_signature = replicate 64 1"

definition sample_platform :: "unit platform" where
  "sample_platform = \<lparr>qt_fromJson = (\<lambda>_. Some sample_json), qt_toLatin1 = map ucast,
    qt_fromBase64Url = (\<lambda>_. Some (replicate 32 7)), ssl_sha256 = (\<lambda>d. Some (replicate 32 (d ! 0))),
    ssl_readPubkeyPem = (\<lambda>_. Some ()), ssl_isEd25519 = (\<lambda>_. True),
    ssl_newRawEd25519 = (\<lambda>_. Some ()), ssl_d2iPubkey = (\<lambda>_. Some ()),
    ssl_digestVerify = (\<lambda>_ _ signature _. signature = sample_signature),
    ssl_ecdsaSigDer = (\<lambda>_ _. None)\<rparr>"

definition sample_release :: "u64 \<Rightarrow> bytes \<Rightarrow> envelope" where
  "sample_release version payload =
    (let e = \<lparr>e_channel = Beta, e_target = \<lparr>t_os = Linux, t_arch = X64\<rparr>, e_version = version, e_created = 1,
       e_manifest = [123, 125], e_manifestSignature = sample_signature,
       e_signatures = [\<lparr>es_keyId = ascii ''rl'', es_bytes = sample_signature\<rparr>],
       e_payload = payload, e_signedRegion = []\<rparr>
     in e\<lparr>e_signedRegion := envelope_header e\<rparr>)"

definition sample_package :: envelope where
  "sample_package = sample_release 7 [5]"

definition sample_manifest :: manifest where
  "sample_manifest =
    \<lparr>m_version = 3, m_issued = 0, m_expires = 0,
     m_keys = [\<lparr>mk_id = ascii ''rl'', mk_ed25519 = True, mk_x = replicate 32 7, mk_y = [], mk_expires = 0\<rparr>],
     m_channels = [ascii ''beta'' \<mapsto> [[ascii ''rl'']]], m_revoked = [],
     m_bytes = [123, 125], m_signature = sample_signature\<rparr>"

definition sample_held :: manifest where
  "sample_held = sample_manifest\<lparr>m_version := 2, m_revoked := [ascii ''rl'']\<rparr>"

definition sample_accepted :: "u64 \<Rightarrow> bytes \<Rightarrow> verified_update" where
  "sample_accepted version payload =
    \<lparr>vu_envelope = sample_release version payload, vu_manifest = sample_manifest, vu_adoptManifest = True\<rparr>"

definition sample_update :: verified_update where
  "sample_update = sample_accepted 7 [5]"

definition sample_bytes :: "u64 \<Rightarrow> bytes \<Rightarrow> bytes" where
  "sample_bytes version payload = envelope_header (sample_release version payload) @ envelope_body (sample_release version payload)"

lemma sample_release_parses:
  "p \<noteq> [] \<Longrightarrow> length p \<le> 64 \<Longrightarrow> ParseEnvelope (sample_bytes v p) = Inr (sample_release v p)"
  unfolding sample_bytes_def
  by (rule ParseEnvelope_complete)
    (auto simp: envelope_ok_def sample_release_def signature_ok_def size_limits ascii_def
      envelope_header_def sample_signature_def)

lemma sample_manifest_parses:
  "ParseVerifiedManifest sample_platform [123, 125] sample_signature [] = Inr sample_manifest"
  by (simp add: ParseVerifiedManifest_def sample_platform_def sample_signature_def sample_json_def
      size_limits LoadEd25519Pem_def VerifyEd25519_def kRawSignatureSize_def object_value_def latin1_def
      checked_def ReadInt64_def trunc_def value_or_def ParseManifestKeys_def kMaxKeys_def
      parse_manifest_key_def read_key_id_def Let_def FromBase64Url_def kRawCoordinateSize_def
      ParseManifestChannels_def kMaxChannels_def parse_groups_def kMaxGroups_def parse_group_def
      kMaxGroupKeys_def map_emplace_def ParseManifestRevoked_def kMaxRevoked_def sample_manifest_def ascii_def)

lemma sample_release_accepted:
  assumes held: "held = None \<or> held = Some sample_held" and p: "p \<noteq> []" "length p \<le> 64" and v: "running < v"
  shows "VerifyUpdate sample_platform (sample_bytes v p)
    Beta False \<lparr>t_os = Linux, t_arch = X64\<rparr> running held [] 0 = Inr (sample_accepted v p)"
proof -
  let ?e = "sample_release v p"
  have fields: "e_manifest ?e = [123, 125]" "e_manifestSignature ?e = sample_signature"
    "e_target ?e = \<lparr>t_os = Linux, t_arch = X64\<rparr>" "e_channel ?e = Beta" "e_version ?e = v" "e_payload ?e = p"
    "e_signatures ?e = [\<lparr>es_keyId = ascii ''rl'', es_bytes = sample_signature\<rparr>]" "e_signedRegion ?e \<noteq> []"
    by (simp_all add: sample_release_def envelope_header_def kEnvelopeMagic_def ascii_def)
  have "VerifyChannelAuthorization sample_platform sample_manifest Beta (SigningInput sample_platform ?e)
      [\<lparr>es_keyId = ascii ''rl'', es_bytes = sample_signature\<rparr>] 0 = Inr ()"
    using fields(6,8)
    by (simp add: VerifyChannelAuthorization_def sample_manifest_def ChannelName_def checked_def
        id_satisfies_def is_revoked_def find_key_def VerifySignature_def SigningInput_def Sha256_def
        sample_platform_def MakeEd25519_def VerifyEd25519_def sample_signature_def kSha256Size_def
        kRawCoordinateSize_def kRawSignatureSize_def Let_def)
  then show ?thesis
    using held v
    by (auto simp: VerifyUpdate_def sample_release_parses [OF p] fields sample_manifest_parses Let_def
        ChannelPolicyAllows_def sample_accepted_def sample_held_def not_le)
      (simp_all add: sample_manifest_def)
qed

lemma sample_update_accepted:
  assumes "held = None \<or> held = Some sample_held"
  shows "VerifyUpdate sample_platform (sample_bytes 7 [5])
    Beta False \<lparr>t_os = Linux, t_arch = X64\<rparr> 6 held [] 0 = Inr sample_update"
  using sample_release_accepted [OF assms, of "[5]" 6 7] by (simp add: sample_update_def)

lemma sample_held_ok: "manifest_ok sample_held"
  by (auto simp: sample_held_def sample_manifest_def manifest_ok_def key_ok_def groups_ok_def group_ok_def
      ascii_def size_limits kMaxKeys_def kMaxGroups_def kMaxGroupKeys_def kMaxRevoked_def
      kRawCoordinateSize_def ran_def split: if_splits)

theorem VerifyUpdate_sound_witness: "6 < e_version (vu_envelope sample_update)"
  using VerifyUpdate_sound [OF sample_update_accepted [of None]] by (simp add: Let_def)

theorem VerifyUpdate_manifest_monotone_witness:
  "m_version sample_held \<le> m_version (vu_manifest sample_update)"
  using VerifyUpdate_manifest_monotone [OF sample_update_accepted [of "Some sample_held"]] by simp

theorem revocation_survives_replay_witness:
  "m_version sample_held < m_version (vu_manifest sample_update)"
  using revocation_survives_replay [OF sample_update_accepted [of "Some sample_held"] sample_held_ok,
      of "[[ascii ''rl'']]" "[ascii ''rl'']"]
  by (simp add: sample_update_def sample_accepted_def sample_held_def sample_manifest_def sample_release_def
      ChannelName_def)

theorem unauthenticated_json_never_parsed_witness:
  "ParseVerifiedManifest (sample_platform\<lparr>qt_fromJson := (\<lambda>_. None)\<rparr>) [123] [] []
    = ParseVerifiedManifest sample_platform [123] [] []"
  by (rule unauthenticated_json_never_parsed)
    (simp add: VerifyEd25519_def kRawSignatureSize_def)

theorem signing_input_binds_witness:
  "Sha256 sample_platform [5] = Sha256 sample_platform [5, 6]"
proof -
  have input: "SigningInput sample_platform (sample_envelope (5 # p))
      = e_signedRegion (sample_envelope [5]) @ replicate 32 5" for p
    by (simp add: SigningInput_def Sha256_def sample_platform_def kSha256Size_def sample_envelope_def
        envelope_header_def kEnvelopeMagic_def ascii_def Let_def)
  then have "SigningInput sample_platform (sample_envelope [5]) = SigningInput sample_platform (sample_envelope [5, 6])"
    and "SigningInput sample_platform (sample_envelope [5]) \<noteq> []"
    by (simp_all add: input)
  from signing_input_binds [OF sample_envelope_parses sample_envelope_parses this]
  show ?thesis by (simp add: sample_envelope_def)
qed

theorem accepted_channel_policy_witness:
  "e_channel (vu_envelope sample_update) \<noteq> CanaryPrivate"
  using accepted_channel_policy [OF sample_update_accepted [of None]] by simp

end
