(* ===== verification/Update_Unpack.thy ===== *)
theory Update_Unpack
  imports Update_Verify
begin

unbundle bit_operations_syntax

text \<open>
  \<open>core/update_unpack.cpp\<close>, the build with automatic updates on a system other
  than Windows: \<open>DecompressUpdatePayload\<close>, the file name checks, and
  \<open>ExtractUpdateFiles\<close>. QString conversions, liblzma, QDataStream and the file
  system are not under src/ and are the record \<open>unpacker\<close>. The file system is
  the history of the calls made so far, and \<open>up_call\<close> says whether the next
  call succeeds after that history.
\<close>

section \<open>The code around\<close>

datatype file_call =
    MakePath qstring
  | OpenNew qstring
  | WriteData qstring bytes
  | Flush qstring
  | SetExecutable qstring
  | CloseFile qstring

record lzma_outcome =
  lo_stream_end :: bool
  lo_avail_in :: nat
  lo_avail_out :: nat
  lo_output :: bytes

record 's unpacker =
  up_fromUtf8 :: "bytes \<Rightarrow> qstring"
  up_toUtf8 :: "qstring \<Rightarrow> bytes"
  up_trimmed :: "qstring \<Rightarrow> qstring"
  up_toUpper :: "qstring \<Rightarrow> qstring"
  up_normalized_C :: "qstring \<Rightarrow> qstring"
  up_toCaseFolded :: "qstring \<Rightarrow> qstring"
  up_lzma_init :: bool
  up_lzma_code :: "bytes \<Rightarrow> nat \<Rightarrow> lzma_outcome"
  up_stream :: "bytes \<Rightarrow> 's"
  up_u32 :: "'s \<Rightarrow> u32 \<times> 's"
  up_u8 :: "'s \<Rightarrow> byte \<times> 's"
  up_string :: "'s \<Rightarrow> qstring \<times> 's"
  up_ok :: "'s \<Rightarrow> bool"
  up_pos :: "'s \<Rightarrow> nat"
  up_available :: "'s \<Rightarrow> nat"
  up_seek :: "nat \<Rightarrow> 's \<Rightarrow> bool \<times> 's"
  up_atEnd :: "'s \<Rightarrow> bool"
  up_filePath :: "qstring \<Rightarrow> qstring \<Rightarrow> qstring"
  up_absolutePath :: "qstring \<Rightarrow> qstring"
  up_call :: "file_call list \<Rightarrow> file_call \<Rightarrow> bool"

definition kMaxUncompressedSize :: nat where
  "kMaxUncompressedSize = 1024 * 1024 * 1024"

definition kMinimumEntrySize :: nat where
  "kMinimumEntrySize = 15"

section \<open>File names\<close>

definition qch :: "char \<Rightarrow> 16 word" where
  "qch c = of_char c"

definition ends_with :: "qstring \<Rightarrow> 16 word \<Rightarrow> bool" where
  "ends_with s c \<longleftrightarrow> s \<noteq> [] \<and> last s = c"

definition device_names :: "qstring list" where
  "device_names = map latin1 [''CON'', ''PRN'', ''AUX'', ''NUL'', ''CONIN$'', ''CONOUT$'']"

definition safe_part :: "'s unpacker \<Rightarrow> qstring \<Rightarrow> bool" where
  "safe_part U part =
    (if part = [] \<or> part = latin1 ''.'' \<or> part = latin1 ''..''
        \<or> ends_with part (qch CHR ''.'') \<or> ends_with part (qch CHR '' '') then False
     else
       let stem = up_toUpper U (up_trimmed U (takeWhile (\<lambda>c. c \<noteq> qch CHR ''.'') part))
       in if stem \<in> set device_names then False
          else \<not> (length stem = 4
                 \<and> (take 3 stem = latin1 ''COM'' \<or> take 3 stem = latin1 ''LPT'')
                 \<and> (qch CHR ''1'' \<le> last stem \<and> last stem \<le> qch CHR ''9''
                    \<or> last stem = 0xB9 \<or> last stem = 0xB2 \<or> last stem = 0xB3)))"

definition SafeName :: "'s unpacker \<Rightarrow> qstring \<Rightarrow> bool" where
  "SafeName U name =
    (if name = [] \<or> up_fromUtf8 U (up_toUtf8 U name) \<noteq> name then False
     else if \<exists>ch \<in> set name. ch < 32 \<or> ch \<in> set (0x5C # latin1 '':<>'' @ [0x22] @ latin1 ''|?*'') then False
     else \<forall>part \<in> set (split_on (qch CHR ''/'') name). safe_part U part)"

definition name_key :: "'s unpacker \<Rightarrow> qstring \<Rightarrow> qstring" where
  "name_key U name = up_toCaseFolded U (up_normalized_C U name)"

text \<open>The positions \<open>indexOf\<close> visits, and the loop that claims every parent as a directory.\<close>

definition slashes :: "qstring \<Rightarrow> nat list" where
  "slashes key = filter (\<lambda>i. key ! i = qch CHR ''/'') [0..<length key]"

fun add_parents :: "qstring \<Rightarrow> nat list \<Rightarrow> qstring set \<Rightarrow> qstring set \<Rightarrow> bool \<times> qstring set" where
  "add_parents key [] files directories = (True, directories)"
| "add_parents key (slash # rest) files directories =
     (let parent = take slash key
      in if parent \<in> files then (False, directories)
         else add_parents key rest files (insert parent directories))"

definition AddName ::
  "'s unpacker \<Rightarrow> qstring \<Rightarrow> qstring set \<Rightarrow> qstring set \<Rightarrow> bool \<times> qstring set \<times> qstring set" where
  "AddName U name files directories =
    (let key = name_key U name
     in if key \<in> files \<or> key \<in> directories then (False, files, directories)
        else case add_parents key (slashes key) files directories of
            (False, directories') \<Rightarrow> (False, files, directories')
          | (True, directories') \<Rightarrow> (True, insert key files, directories'))"

section \<open>Decompression\<close>

text \<open>\<open>memcpy\<close> into a \<open>qint32\<close>, on the little-endian machines the client is built for.\<close>

definition original_size :: "bytes \<Rightarrow> int" where
  "original_size payload = sint (le_value (take 4 payload) :: 32 word)"

definition DecompressUpdatePayload :: "'s unpacker \<Rightarrow> verified_update \<Rightarrow> bytes result" where
  "DecompressUpdatePayload U verified =
    (let kHeaderSize = 4;
         payload = e_payload (vu_envelope verified)
     in fail_unless (\<not> (length payload \<le> kHeaderSize \<or> length payload > kMaxPayloadSize))
          ''Bad compressed payload size.'' (
        let originalSize = original_size payload
        in fail_unless (\<not> (originalSize \<le> 0 \<or> originalSize > int kMaxUncompressedSize))
             ''Bad uncompressed payload size.'' (
           fail_unless (up_lzma_init U) ''Could not initialize XZ decoder.'' (
           let status = up_lzma_code U (drop kHeaderSize payload) (nat originalSize)
           in fail_unless (\<not> (\<not> lo_stream_end status \<or> lo_avail_in status \<noteq> 0 \<or> lo_avail_out status \<noteq> 0))
                ''Could not decompress complete XZ payload.'' (Inr (lo_output status))))))"

section \<open>Extraction\<close>

text \<open>A call on the file system: it is added to the history, and a failure ends the extraction.\<close>

type_synonym 'a extraction = "file_call list \<Rightarrow> file_call list \<times> 'a result"

definition attempt :: "'s unpacker \<Rightarrow> file_call \<Rightarrow> string \<Rightarrow> 'a extraction \<Rightarrow> 'a extraction" where
  "attempt U c msg k trace =
    (if up_call U trace c then k (trace @ [c]) else (trace @ [c], Inl (Err msg)))"

definition stop_unless :: "bool \<Rightarrow> fault \<Rightarrow> 'a extraction \<Rightarrow> 'a extraction" where
  "stop_unless c f k trace = (if c then k trace else (trace, Inl f))"

definition write_file ::
  "'s unpacker \<Rightarrow> qstring \<Rightarrow> bytes \<Rightarrow> bool \<Rightarrow> 'a extraction \<Rightarrow> 'a extraction" where
  "write_file U path data executable k =
    attempt U (MakePath (up_absolutePath U path)) ''Could not create extracted update file.'' (
    attempt U (OpenNew path) ''Could not create extracted update file.'' (
    attempt U (WriteData path data) ''Could not write extracted update file.'' (
    attempt U (Flush path) ''Could not write extracted update file.'' (
    (if executable then attempt U (SetExecutable path) ''Could not set update executable permissions.''
     else (\<lambda>k. k)) (
    attempt U (CloseFile path) ''Could not close extracted update file.'' k)))))"

text \<open>
  The body of the loop. Reading \<open>dataSize\<close> bytes from \<open>constData() + pos()\<close>
  beyond the buffer would be undefined and is an abort.
\<close>

definition extract_entry ::
  "'s unpacker \<Rightarrow> bytes \<Rightarrow> qstring \<Rightarrow> 's \<Rightarrow> qstring set \<Rightarrow> qstring set
    \<Rightarrow> ('s \<Rightarrow> qstring set \<Rightarrow> qstring set \<Rightarrow> 'a extraction) \<Rightarrow> 'a extraction" where
  "extract_entry U uncompressed directory s files directories k =
    (let namePosition = up_pos U s;
         (nameSize, s1) = up_u32 U s;
         (sought, s2) = up_seek U namePosition s1
     in stop_unless (up_ok U s1 \<and> nameSize \<noteq> 0 \<and> nameSize mod 2 = 0
            \<and> unat nameSize \<le> up_available U s1 \<and> sought)
          (Err ''Bad update filename size.'') (
     let (name, s3) = up_string U s2;
         (fileSize, s4) = up_u32 U s3;
         (rawSize, s5) = up_u32 U s4;
         dataSize = (if rawSize = 0xFFFFFFFF then 0 else rawSize)
     in stop_unless (up_ok U s5 \<and> fileSize = dataSize \<and> unat dataSize \<le> up_available U s5)
          (Err ''Bad update file size.'') (
     let from = up_pos U s5;
         (moved, s6) = up_seek U (from + unat dataSize) s5
     in stop_unless moved (Err ''Truncated update file.'') (
     let (executable, s7) = up_u8 U s6
     in stop_unless (up_ok U s7 \<and> executable \<le> 1) (Err ''Bad update executable flag.'') (
     stop_unless (SafeName U name) (Err ''Unsafe or conflicting update filename.'') (
     case AddName U name files directories of (added, files', directories') \<Rightarrow>
     stop_unless added (Err ''Unsafe or conflicting update filename.'') (
     stop_unless (from + unat dataSize \<le> length uncompressed) (Abort ''read past the payload'') (
     write_file U (up_filePath U directory name) (take (unat dataSize) (drop from uncompressed))
       (executable \<noteq> 0) (k s7 files' directories')))))))))"

fun extract_entries ::
  "'s unpacker \<Rightarrow> bytes \<Rightarrow> qstring \<Rightarrow> nat \<Rightarrow> 's \<Rightarrow> qstring set \<Rightarrow> qstring set \<Rightarrow> unit extraction" where
  "extract_entries U uncompressed directory 0 s files directories =
     stop_unless (up_atEnd U s) (Err ''Unexpected trailing update data.'') (\<lambda>trace. (trace, Inr ()))"
| "extract_entries U uncompressed directory (Suc n) s files directories =
     extract_entry U uncompressed directory s files directories
       (extract_entries U uncompressed directory n)"

definition ExtractUpdateFiles :: "'s unpacker \<Rightarrow> bytes \<Rightarrow> u64 \<Rightarrow> qstring \<Rightarrow> unit extraction" where
  "ExtractUpdateFiles U uncompressed expectedVersion directory =
    stop_unless (length uncompressed \<le> kMaxUncompressedSize) (Err ''Uncompressed payload is too large.'') (
    let s = up_stream U uncompressed;
        (version, s1) = up_u32 U s;
        (count, s2) = up_u32 U s1
    in stop_unless (up_ok U s2 \<and> version = UpdateVersionBase expectedVersion)
         (Err ''Inner update version does not match envelope.'') (
    stop_unless (count \<noteq> 0 \<and> unat count \<le> up_available U s2 div kMinimumEntrySize)
      (Err ''Bad update file count.'') (
    extract_entries U uncompressed directory (unat count) s2 {} {})))"


section \<open>What an entry asks of the file system\<close>

record extracted =
  x_name :: qstring
  x_data :: bytes
  x_executable :: bool

definition entry_calls :: "'s unpacker \<Rightarrow> qstring \<Rightarrow> extracted \<Rightarrow> file_call list" where
  "entry_calls U directory e =
    (let path = up_filePath U directory (x_name e)
     in [MakePath (up_absolutePath U path), OpenNew path, WriteData path (x_data e), Flush path]
        @ (if x_executable e then [SetExecutable path] else []) @ [CloseFile path])"

text \<open>A failing call leaves a prefix of the calls of its entry, and nothing else.\<close>

lemma write_file_cases:
  "write_file U (up_filePath U directory (x_name e)) (x_data e) (x_executable e) k trace
      = k (trace @ entry_calls U directory e)
    \<or> (\<exists>p msg. prefix p (entry_calls U directory e) \<and>
        write_file U (up_filePath U directory (x_name e)) (x_data e) (x_executable e) k trace
          = (trace @ p, Inl (Err msg)))"
  unfolding entry_calls_def write_file_def attempt_def Let_def
  by (auto simp: prefix_Cons)

lemma stop_unless_rule:
  assumes "c \<Longrightarrow> Q (k trace)" and "\<not> c \<Longrightarrow> Q (trace, Inl f)"
  shows "Q (stop_unless c f k trace)"
  using assms by (simp add: stop_unless_def)

lemma extract_entry_rule:
  assumes stopped: "\<And>f. Q (trace, Inl f)"
    and written: "\<And>(e :: extracted) s' files' directories'. SafeName U (x_name e) \<Longrightarrow>
      AddName U (x_name e) files directories = (True, files', directories') \<Longrightarrow>
      sublist (x_data e) uncompressed \<Longrightarrow>
      Q (write_file U (up_filePath U directory (x_name e)) (x_data e) (x_executable e)
          (k s' files' directories') trace)"
  shows "Q (extract_entry U uncompressed directory s files directories k trace)"
proof -
  have slice: "sublist (take n (drop from uncompressed)) uncompressed" for n "from"
    by (metis append_take_drop_id sublist_appendI)
  show ?thesis
    unfolding extract_entry_def Let_def
    by (auto split: prod.split intro!: stop_unless_rule [where Q = Q] stopped slice
        written [where e = "\<lparr>x_name = _, x_data = _, x_executable = _\<rparr>", simplified])
qed


section \<open>Names that cannot conflict\<close>

definition parents :: "qstring \<Rightarrow> qstring set" where
  "parents key = (\<lambda>i. take i key) ` set (slashes key)"

text \<open>No two files share a key, and no file is a directory of another.\<close>

definition conflict_free :: "qstring list \<Rightarrow> bool" where
  "conflict_free keys \<longleftrightarrow> distinct keys \<and> (\<forall>x \<in> set keys. \<forall>y \<in> set keys. x \<notin> parents y)"

definition names_taken :: "qstring list \<Rightarrow> qstring set \<Rightarrow> qstring set \<Rightarrow> bool" where
  "names_taken keys files directories \<longleftrightarrow>
    files = set keys \<and> directories = \<Union> (parents ` set keys) \<and> conflict_free keys"

lemma add_parents_True:
  "add_parents key ps files directories = (True, directories') \<longleftrightarrow>
    (\<forall>i \<in> set ps. take i key \<notin> files) \<and> directories' = (\<lambda>i. take i key) ` set ps \<union> directories"
  by (induction ps arbitrary: directories) (auto simp: Let_def)

lemma not_own_parent: "key \<notin> parents key"
proof
  assume "key \<in> parents key"
  then obtain i where "i < length key" "key = take i key" by (auto simp: parents_def slashes_def)
  then have "length key = i" by (metis length_take min.absorb4)
  then show False using \<open>i < length key\<close> by simp
qed

lemma AddName_taken:
  assumes "AddName U name files directories = (True, files', directories')"
    and "names_taken keys files directories"
  shows "names_taken (keys @ [name_key U name]) files' directories'"
proof -
  let ?key = "name_key U name"
  have new: "?key \<notin> files" "?key \<notin> directories"
    and parents: "\<forall>i \<in> set (slashes ?key). take i ?key \<notin> files"
    and eq: "files' = insert ?key files" "directories' = parents ?key \<union> directories"
    using assms(1)
    by (auto simp: AddName_def Let_def add_parents_True parents_def split: if_splits prod.splits bool.splits)
  from parents have "\<forall>x \<in> files. x \<notin> parents ?key" by (auto simp: parents_def)
  then show ?thesis
    using assms(2) new not_own_parent [of ?key] by (auto simp: names_taken_def conflict_free_def eq)
qed

lemma names_taken_empty: "names_taken [] {} {}"
  by (simp add: names_taken_def conflict_free_def)

section \<open>The loop over the entries\<close>

definition entry_ok :: "'s unpacker \<Rightarrow> bytes \<Rightarrow> extracted \<Rightarrow> bool" where
  "entry_ok U uncompressed e \<longleftrightarrow> SafeName U (x_name e) \<and> sublist (x_data e) uncompressed"

text \<open>
  What a run did: entries that are safe and do not conflict, all of them
  complete when it succeeded, and a prefix of their calls otherwise.
\<close>

definition run_ok ::
  "'s unpacker \<Rightarrow> bytes \<Rightarrow> qstring \<Rightarrow> nat \<Rightarrow> qstring list \<Rightarrow> file_call list
    \<Rightarrow> file_call list \<times> unit result \<Rightarrow> bool" where
  "run_ok U uncompressed directory n keys trace r \<longleftrightarrow>
    (\<exists>es. length es \<le> n \<and> (\<forall>e \<in> set es. entry_ok U uncompressed e) \<and>
      conflict_free (keys @ map (\<lambda>e. name_key U (x_name e)) es) \<and>
      (\<exists>p. prefix p (concat (map (entry_calls U directory) es)) \<and> fst r = trace @ p) \<and>
      (snd r = Inr () \<longrightarrow>
        length es = n \<and> fst r = trace @ concat (map (entry_calls U directory) es)))"

lemma run_ok_stopped:
  "conflict_free keys \<Longrightarrow> run_ok U uncompressed directory n keys trace (trace, Inl f)"
  unfolding run_ok_def by (rule exI [of _ "[]"]) simp

lemma run_ok_entry:
  assumes "run_ok U uncompressed directory n (keys @ [name_key U (x_name e)])
      (trace @ entry_calls U directory e) r"
    and "entry_ok U uncompressed (e :: extracted)"
  shows "run_ok U uncompressed directory (Suc n) keys trace r"
proof -
  from assms(1) obtain es p where "length es \<le> n" "\<forall>e \<in> set es. entry_ok U uncompressed e"
    "conflict_free ((keys @ [name_key U (x_name e)]) @ map (\<lambda>e. name_key U (x_name e)) es)"
    "prefix p (concat (map (entry_calls U directory) es))" "fst r = (trace @ entry_calls U directory e) @ p"
    "snd r = Inr () \<longrightarrow> length es = n \<and>
      fst r = (trace @ entry_calls U directory e) @ concat (map (entry_calls U directory) es)"
    unfolding run_ok_def by blast
  then show ?thesis
    using assms(2) unfolding run_ok_def
    by (intro exI [of _ "e # es"] conjI exI [of _ "entry_calls U directory e @ p"]) auto
qed

lemma run_ok_partial:
  assumes "prefix p (entry_calls U directory (e :: extracted))" and "entry_ok U uncompressed e"
    and "conflict_free (keys @ [name_key U (x_name e)])"
  shows "run_ok U uncompressed directory (Suc n) keys trace (trace @ p, Inl f)"
  using assms unfolding run_ok_def by (intro exI [of _ "[e]"]) auto

lemma extract_entries_run_ok:
  assumes "names_taken keys files directories"
  shows "run_ok U uncompressed directory n keys trace
    (extract_entries U uncompressed directory n s files directories trace)"
  using assms
proof (induction n arbitrary: s files directories keys trace)
  case 0
  then show ?case
    using run_ok_stopped unfolding names_taken_def
    by (auto simp: stop_unless_def run_ok_def)
next
  case (Suc n)
  have free: "conflict_free keys" using Suc.prems by (simp add: names_taken_def)
  show ?case
    unfolding extract_entries.simps
  proof (rule extract_entry_rule)
    show "run_ok U uncompressed directory (Suc n) keys trace (trace, Inl f)" for f
      using free by (rule run_ok_stopped)
  next
    fix e :: extracted and s' files' directories'
    assume e: "SafeName U (x_name e)" "sublist (x_data e) uncompressed"
      and added: "AddName U (x_name e) files directories = (True, files', directories')"
    have ok: "entry_ok U uncompressed e" using e by (simp add: entry_ok_def)
    have taken: "names_taken (keys @ [name_key U (x_name e)]) files' directories'"
      using added Suc.prems by (rule AddName_taken)
    then have "run_ok U uncompressed directory n (keys @ [name_key U (x_name e)])
        (trace @ entry_calls U directory e)
        (extract_entries U uncompressed directory n s' files' directories' (trace @ entry_calls U directory e))"
      by (rule Suc.IH)
    note whole = run_ok_entry [OF this ok]
    show "run_ok U uncompressed directory (Suc n) keys trace
        (write_file U (up_filePath U directory (x_name e)) (x_data e) (x_executable e)
          (extract_entries U uncompressed directory n s' files' directories') trace)"
      using write_file_cases [of U directory e "extract_entries U uncompressed directory n s' files' directories'" trace]
        whole run_ok_partial [OF _ ok] taken
      unfolding names_taken_def by metis
  qed
qed


section \<open>Reading inside the payload\<close>

text \<open>
  What the code relies on of a QDataStream over a byte array: position and
  bytes available always add up to the size of the array.
\<close>

definition stream_size :: "'s unpacker \<Rightarrow> 's \<Rightarrow> nat" where
  "stream_size U s = up_pos U s + up_available U s"

definition buffer_laws :: "'s unpacker \<Rightarrow> bool" where
  "buffer_laws U \<longleftrightarrow>
    (\<forall>d. stream_size U (up_stream U d) = length d) \<and>
    (\<forall>s. stream_size U (snd (up_u32 U s)) = stream_size U s) \<and>
    (\<forall>s. stream_size U (snd (up_u8 U s)) = stream_size U s) \<and>
    (\<forall>s. stream_size U (snd (up_string U s)) = stream_size U s) \<and>
    (\<forall>n s. stream_size U (snd (up_seek U n s)) = stream_size U s)"

definition no_abort :: "file_call list \<times> 'a result \<Rightarrow> bool" where
  "no_abort r \<longleftrightarrow> \<not> aborts (snd r)"

lemma no_abort_stop: "(c \<Longrightarrow> no_abort (k trace)) \<Longrightarrow> no_abort (stop_unless c (Err msg) k trace)"
  by (simp add: stop_unless_def no_abort_def)

lemma no_abort_write_file: "(\<And>t. no_abort (k t)) \<Longrightarrow> no_abort (write_file U path data x k trace)"
  unfolding write_file_def attempt_def by (auto simp: no_abort_def)

lemma extract_entry_no_abort:
  assumes laws: "buffer_laws U" and size: "stream_size U s = length uncompressed"
    and k: "\<And>s' files' directories' t. stream_size U s' = length uncompressed \<Longrightarrow>
      no_abort (k s' files' directories' t)"
  shows "no_abort (extract_entry U uncompressed directory s files directories k trace)"
proof -
  obtain nameSize s1 where 1: "up_u32 U s = (nameSize, s1)" by fastforce
  obtain sought s2 where 2: "up_seek U (up_pos U s) s1 = (sought, s2)" by fastforce
  obtain name s3 where 3: "up_string U s2 = (name, s3)" by fastforce
  obtain fileSize s4 where 4: "up_u32 U s3 = (fileSize, s4)" by fastforce
  obtain rawSize s5 where 5: "up_u32 U s4 = (rawSize, s5)" by fastforce
  let ?n = "if rawSize = 0xFFFFFFFF then 0 else rawSize"
  obtain moved s6 where 6: "up_seek U (up_pos U s5 + unat ?n) s5 = (moved, s6)" by fastforce
  obtain x s7 where 7: "up_u8 U s6 = (x, s7)" by fastforce
  obtain added files' directories' where 8: "AddName U name files directories = (added, files', directories')"
    by (cases "AddName U name files directories")
  have s5: "stream_size U s5 = length uncompressed"
    using laws size 1 2 3 4 5 unfolding buffer_laws_def by (metis snd_conv)
  then have s7: "stream_size U s7 = length uncompressed"
    using laws 6 7 unfolding buffer_laws_def by (metis snd_conv)
  have "unat ?n \<le> up_available U s5 \<Longrightarrow> up_pos U s5 + unat ?n \<le> length uncompressed"
    using s5 by (simp add: stream_size_def)
  then show ?thesis
    unfolding extract_entry_def Let_def 1 2 3 4 5 6 7 8 prod.case
    by (intro no_abort_stop) (auto simp: stop_unless_def intro!: no_abort_write_file k s7)
qed

lemma extract_entries_no_abort:
  assumes "buffer_laws U" and "stream_size U s = length uncompressed"
  shows "no_abort (extract_entries U uncompressed directory n s files directories trace)"
  using assms(2)
proof (induction n arbitrary: s files directories trace)
  case 0
  then show ?case by (auto simp: no_abort_def intro!: no_abort_stop [unfolded no_abort_def])
next
  case (Suc n)
  then show ?case using assms(1) by (auto intro!: extract_entry_no_abort)
qed

section \<open>A concrete environment\<close>

text \<open>
  A stream over a byte list that behaves as the Qt documentation of QDataStream
  says, used to show that the hypotheses below can hold.
\<close>

type_synonym byte_stream = "bytes \<times> nat \<times> bool"

definition bs_take :: "nat \<Rightarrow> byte_stream \<Rightarrow> bytes option \<times> byte_stream" where
  "bs_take n s = (case s of (d, p, ok) \<Rightarrow>
    (if p + n \<le> length d then (Some (take n (drop p d)), (d, p + n, ok)) else (None, (d, p, False))))"

definition bs_u32 :: "byte_stream \<Rightarrow> u32 \<times> byte_stream" where
  "bs_u32 s = (case bs_take 4 s of (None, s') \<Rightarrow> (0, s') | (Some b, s') \<Rightarrow> (be_value b, s'))"

definition bs_u8 :: "byte_stream \<Rightarrow> byte \<times> byte_stream" where
  "bs_u8 s = (case bs_take 1 s of (None, s') \<Rightarrow> (0, s') | (Some b, s') \<Rightarrow> (b ! 0, s'))"

fun utf16_units :: "bytes \<Rightarrow> qstring" where
  "utf16_units (a # b # rest) = be_value [a, b] # utf16_units rest"
| "utf16_units _ = []"

definition bs_string :: "byte_stream \<Rightarrow> qstring \<times> byte_stream" where
  "bs_string s = (case bs_u32 s of (n, s') \<Rightarrow>
    (case bs_take (unat n) s' of (None, s'') \<Rightarrow> ([], s'') | (Some b, s'') \<Rightarrow> (utf16_units b, s'')))"

definition sample_unpacker :: "byte_stream unpacker" where
  "sample_unpacker = \<lparr>
    up_fromUtf8 = map ucast, up_toUtf8 = map ucast, up_trimmed = (\<lambda>s. s), up_toUpper = (\<lambda>s. s),
    up_normalized_C = (\<lambda>s. s), up_toCaseFolded = (\<lambda>s. s),
    up_lzma_init = True,
    up_lzma_code = (\<lambda>i n. \<lparr>lo_stream_end = True, lo_avail_in = 0, lo_avail_out = n - length i,
      lo_output = take n i\<rparr>),
    up_stream = (\<lambda>d. (d, 0, True)), up_u32 = bs_u32, up_u8 = bs_u8, up_string = bs_string,
    up_ok = (\<lambda>(d, p, ok). ok), up_pos = (\<lambda>(d, p, ok). min p (length d)),
    up_available = (\<lambda>(d, p, ok). length d - min p (length d)),
    up_seek = (\<lambda>n (d, p, ok). if n \<le> length d then (True, (d, n, ok)) else (False, (d, p, ok))),
    up_atEnd = (\<lambda>(d, p, ok). p = length d),
    up_filePath = (\<lambda>d n. d @ latin1 ''/'' @ n), up_absolutePath = (\<lambda>p. p),
    up_call = (\<lambda>h c. True)\<rparr>"

lemmas sample_ops = bs_u32_def bs_u8_def bs_string_def bs_take_def be_value_def

lemma sample_unpacker_simps [simp]:
  "up_stream sample_unpacker d = (d, 0, True)"
  "up_u32 sample_unpacker = bs_u32" "up_u8 sample_unpacker = bs_u8"
  "up_string sample_unpacker = bs_string"
  "up_ok sample_unpacker (d, p, ok) = ok"
  "up_pos sample_unpacker (d, p, ok) = min p (length d)"
  "up_available sample_unpacker (d, p, ok) = length d - min p (length d)"
  "up_seek sample_unpacker n (d, p, ok) = (if n \<le> length d then (True, (d, n, ok)) else (False, (d, p, ok)))"
  "up_atEnd sample_unpacker (d, p, ok) = (p = length d)"
  "up_call sample_unpacker h c"
  by (simp_all add: sample_unpacker_def)

definition sample_payload :: bytes where
  "sample_payload =
    [0, 0, 0, 7, 0, 0, 0, 1,
     0, 0, 0, 2, 0, 0x61, 0, 0, 0, 1, 0, 0, 0, 1, 0x2A, 1]"

definition sample_file :: extracted where
  "sample_file = \<lparr>x_name = latin1 ''a'', x_data = [0x2A], x_executable = True\<rparr>"

lemma sample_extraction:
  "ExtractUpdateFiles sample_unpacker sample_payload (MakeUpdateVersion 7 0) dir []
    = (entry_calls sample_unpacker dir sample_file, Inr ())"
proof -
  have version: "UpdateVersionBase (MakeUpdateVersion 7 0) = 7" by (simp add: UpdateVersionBase_def MakeUpdateVersion_def)
  have name: "SafeName sample_unpacker (latin1 ''a'')"
    by (simp add: SafeName_def safe_part_def sample_unpacker_def latin1_def qch_def ends_with_def device_names_def)
  have add: "AddName sample_unpacker (latin1 ''a'') {} {} = (True, {latin1 ''a''}, {})"
    by (simp add: AddName_def name_key_def sample_unpacker_def slashes_def qch_def latin1_def)
  show ?thesis
    using name add
    by (simp add: ExtractUpdateFiles_def version stop_unless_def sample_payload_def sample_ops
        kMaxUncompressedSize_def kMinimumEntrySize_def extract_entry_def Let_def latin1_def
        write_file_def attempt_def entry_calls_def sample_file_def)
qed


section \<open>Properties\<close>



text \<open>
  Over a stream that counts its bytes right the extraction never reads beyond the
  payload: the pointer it hands to the file write always has \<open>dataSize\<close> bytes
  of the payload behind it.
\<close>

theorem ExtractUpdateFiles_in_bounds:
  assumes "buffer_laws U"
  shows "\<not> aborts (snd (ExtractUpdateFiles U uncompressed version directory trace))"
proof -
  obtain v s1 count s2 where s: "up_u32 U (up_stream U uncompressed) = (v, s1)" "up_u32 U s1 = (count, s2)"
    by (metis surj_pair)
  then have "stream_size U s2 = length uncompressed"
    using assms unfolding buffer_laws_def by (metis snd_conv)
  then have "no_abort (extract_entries U uncompressed directory (unat count) s2 {} {} trace)"
    using assms by (rule extract_entries_no_abort [rotated])
  then show ?thesis
    by (auto simp: ExtractUpdateFiles_def stop_unless_def s no_abort_def)
qed

lemma sample_buffer_laws: "buffer_laws sample_unpacker"
proof -
  have size: "stream_size sample_unpacker (d, p, ok) = length d" for d p ok
    by (simp add: stream_size_def)
  have take: "stream_size sample_unpacker (snd (bs_take n s)) = stream_size sample_unpacker s" for n s
    by (cases s) (simp add: bs_take_def size)
  have u32: "stream_size sample_unpacker (snd (bs_u32 s)) = stream_size sample_unpacker s" for s
    using take [of 4 s] by (cases "bs_take 4 s") (auto simp: bs_u32_def split: option.splits)
  moreover have "stream_size sample_unpacker (snd (bs_u8 s)) = stream_size sample_unpacker s" for s
    using take [of 1 s] by (cases "bs_take 1 s") (auto simp: bs_u8_def split: option.splits)
  moreover have "stream_size sample_unpacker (snd (bs_string s)) = stream_size sample_unpacker s" for s
    using u32 [of s] take [of "unat (fst (bs_u32 s))" "snd (bs_u32 s)"]
    by (cases "bs_take (unat (fst (bs_u32 s))) (snd (bs_u32 s))")
      (auto simp: bs_string_def split: option.splits prod.split)
  moreover have "stream_size sample_unpacker (snd (up_seek sample_unpacker n s)) = stream_size sample_unpacker s" for n s
    by (cases s) (simp add: size)
  ultimately show ?thesis
    by (simp add: buffer_laws_def size)
qed

theorem ExtractUpdateFiles_in_bounds_witness:
  "\<not> aborts (snd (ExtractUpdateFiles sample_unpacker sample_payload 7 (latin1 ''d'') []))"
  by (rule ExtractUpdateFiles_in_bounds) (rule sample_buffer_laws)

text \<open>
  A successful decompression returns exactly as many bytes as the payload's
  header announces, at least one and at most one GiB.
\<close>

theorem DecompressUpdatePayload_size:
  assumes "\<And>i n. length (lo_output (up_lzma_code U i n)) + lo_avail_out (up_lzma_code U i n) = n"
    and "DecompressUpdatePayload U verified = Inr result"
  shows "int (length result) = original_size (e_payload (vu_envelope verified)) \<and>
    result \<noteq> [] \<and> length result \<le> kMaxUncompressedSize"
proof -
  let ?size = "original_size (e_payload (vu_envelope verified))"
  from assms(2) have "0 < ?size" "?size \<le> int kMaxUncompressedSize"
    and "lo_avail_out (up_lzma_code U (drop 4 (e_payload (vu_envelope verified))) (nat ?size)) = 0"
    and "result = lo_output (up_lzma_code U (drop 4 (e_payload (vu_envelope verified))) (nat ?size))"
    by (auto simp: DecompressUpdatePayload_def Let_def result_simps)
  with assms(1) [of "drop 4 (e_payload (vu_envelope verified))" "nat ?size"] show ?thesis by auto
qed


theorem DecompressUpdatePayload_size_witness:
  "int (length [0xAA, 0xBB :: byte]) = original_size [2, 0, 0, 0, 0xAA, 0xBB]"
proof -
  let ?v = "sample_update\<lparr>vu_envelope := sample_package\<lparr>e_payload := [2, 0, 0, 0, 0xAA, 0xBB]\<rparr>\<rparr>"
  have "DecompressUpdatePayload sample_unpacker ?v = Inr [0xAA, 0xBB]"
    by (simp add: DecompressUpdatePayload_def sample_unpacker_def original_size_def kMaxPayloadSize_def
        kMaxUncompressedSize_def)
  from DecompressUpdatePayload_size [OF _ this] show ?thesis
    by (simp add: sample_unpacker_def)
qed

end
