(* ===== verification/Update_Apply.thy ===== *)
theory Update_Apply
  imports Update_Unpack "HOL-Library.Signed_Division"
begin

text \<open>
  From an accepted package to an update that the next start installs:
  \<open>HeldManifest\<close>, \<open>AdoptManifest\<close>, \<open>UnpackUpdateV2\<close> and the version check of
  \<open>checkReadyUpdate\<close> in \<open>core/update_checker.cpp\<close>, with the manifest file of
  \<open>storage/localstorage.cpp\<close>, in a build with automatic updates on a system other than
  Windows. What the file system answers is the record \<open>host\<close>; what is asked of
  it is the list \<open>un_calls\<close>.
\<close>

section \<open>The held manifest\<close>

record 'k client =
  cl_platform :: "'k platform"
  cl_embeddedManifest :: bytes
  cl_embeddedSignature :: bytes
  cl_rootKey :: bytes
  cl_updaterDisabled :: bool
  cl_buildChannel :: channel
  cl_appVersion :: u32
  cl_canaryCounter :: u32
  cl_appBeta :: bool
  cl_updateKey :: bytes

text \<open>The manifest file: its content, when it is there and can be opened.\<close>

type_synonym manifest_file = "bytes option"

definition readUpdateManifest :: "'k client \<Rightarrow> manifest_file \<Rightarrow> (bytes \<times> bytes) option" where
  "readUpdateManifest C file =
    (if cl_updaterDisabled C then None
     else case file of
            None \<Rightarrow> None
          | Some content \<Rightarrow>
              if length content \<le> 64 \<or> length content > 64 + 256 * 1024 then None
              else Some (drop 64 content, take 64 content))"

text \<open>\<open>saved\<close> is whether the commit of the new file succeeds; a \<open>QSaveFile\<close> replaces the old one or leaves it.\<close>

definition writeUpdateManifest :: "'k client \<Rightarrow> bool \<Rightarrow> bytes \<Rightarrow> bytes \<Rightarrow> manifest_file \<Rightarrow> manifest_file" where
  "writeUpdateManifest C saved manifest signature file =
    (if cl_updaterDisabled C \<or> length signature \<noteq> 64 \<or> manifest = [] then file
     else if \<not> saved then file
     else Some (signature @ manifest))"

definition HeldManifest :: "'k client \<Rightarrow> manifest_file \<Rightarrow> manifest option" where
  "HeldManifest C file =
    (let parse = ParseVerifiedManifest (cl_platform C);
         result = (case parse (cl_embeddedManifest C) (cl_embeddedSignature C) (cl_rootKey C) of
                     Inl _ \<Rightarrow> None | Inr m \<Rightarrow> Some m)
     in case readUpdateManifest C file of
          None \<Rightarrow> result
        | Some (manifest, signature) \<Rightarrow>
            (case parse manifest signature (cl_rootKey C) of
               Inl _ \<Rightarrow> result
             | Inr persisted \<Rightarrow>
                 if (case result of None \<Rightarrow> True | Some r \<Rightarrow> m_version persisted > m_version r) then Some persisted
                 else result))"

definition AdoptManifest :: "'k client \<Rightarrow> bool \<Rightarrow> manifest \<Rightarrow> manifest_file \<Rightarrow> manifest_file" where
  "AdoptManifest C saved manifest file =
    (if (case HeldManifest C file of None \<Rightarrow> True | Some held \<Rightarrow> m_version manifest > m_version held)
     then writeUpdateManifest C saved (m_bytes manifest) (m_signature manifest) file
     else file)"

section \<open>The version file\<close>

fun digits :: "nat \<Rightarrow> string" where
  "digits n = (if n < 10 then [char_of (48 + n)] else digits (n div 10) @ [char_of (48 + n mod 10)])"

declare digits.simps [simp del]

definition number_text :: "int \<Rightarrow> string" where
  "number_text n = (if n < 0 then CHR ''-'' # digits (nat (- n)) else digits (nat n))"

definition FormatVersionDisplay :: "int \<Rightarrow> string" where
  "FormatVersionDisplay version =
    number_text (version sdiv 1000000) @ ''.'' @ number_text ((version smod 1000000) sdiv 1000) @
    (if version smod 1000 \<noteq> 0 then ''.'' @ number_text (version smod 1000) else '''')"

definition kVersionFileCanaryMarker :: u32 where "kVersionFileCanaryMarker = 0x7FFFFFFE"

text \<open>The bytes of the version file; a wide character has four.\<close>

definition version_file :: "u32 \<Rightarrow> u64 \<Rightarrow> bytes list" where
  "version_file version canaryVersion =
    (let versionString = FormatVersionDisplay (sint version);
         versionNum = (if canaryVersion \<noteq> 0 then kVersionFileCanaryMarker else version)
     in if canaryVersion \<noteq> 0 then [le_bytes 4 versionNum, le_bytes 8 canaryVersion]
        else [le_bytes 4 versionNum, le_bytes 4 (of_nat (4 * length versionString) :: u32),
              concat (map (\<lambda>c. le_bytes 4 (of_char c :: u32)) versionString)])"

definition BuildIsCanary :: "'k client \<Rightarrow> bool" where
  "BuildIsCanary C \<longleftrightarrow> cl_buildChannel C = CanaryPublic \<or> cl_buildChannel C = CanaryPrivate"

definition RunningUpdateVersion :: "'k client \<Rightarrow> u64" where
  "RunningUpdateVersion C = MakeUpdateVersion (cl_appVersion C) (cl_canaryCounter C)"

text \<open>What \<open>checkReadyUpdate\<close> demands of the version file before it goes on.\<close>

definition ready_version_ok :: "'k client \<Rightarrow> bytes \<Rightarrow> bool" where
  "ready_version_ok C content =
    (if length content < 4 then False
     else
       let versionNum = le_value (take 4 content) :: u32
       in if versionNum = 0x7FFFFFFF then False
          else if versionNum = kVersionFileCanaryMarker then
            (if length (drop 4 content) < 8 then False
             else
               let canaryVersion = le_value (take 8 (drop 4 content)) :: u64
               in \<not> (\<not> BuildIsCanary C \<or> canaryVersion \<le> RunningUpdateVersion C))
          else if cl_buildChannel C = CanaryPrivate then False
          else \<not> sint versionNum \<le> sint (cl_appVersion C))"

section \<open>Unpacking\<close>

datatype step_call =
    DeleteDirectory qstring
  | MakeDirectory qstring
  | Extracting file_call
  | OpenForWrite qstring
  | WriteBytes qstring bytes
  | CloseFile qstring nat
  | RemoveFile qstring

text \<open>
  \<open>ho_tempCleared\<close>: neither the directory nor the ready file exists after the
  deletion. \<open>ho_writeReady\<close> is what \<open>QFile::write\<close> returns, \<open>- 1\<close> for an error. The writes of
  the version file are buffered and their results not looked at: \<open>ho_versionKept\<close> is how
  many of its bytes, from the first on, are in the file once it is closed.
\<close>

record host =
  ho_workingDir :: qstring
  ho_absolutePath :: "qstring \<Rightarrow> qstring"
  ho_tempCleared :: bool
  ho_openVersion :: bool
  ho_versionKept :: nat
  ho_openReady :: bool
  ho_writeReady :: int
  ho_saved :: bool

record unpacking =
  un_manifest :: manifest_file
  un_queued :: "manifest list"
  un_calls :: "step_call list"

datatype manifest_adoption = Queued | Immediate

definition ask :: "step_call list \<Rightarrow> unpacking \<Rightarrow> unpacking" where
  "ask cs s = s\<lparr>un_calls := un_calls s @ cs\<rparr>"

definition WriteUpdateVersionFile :: "host \<Rightarrow> qstring \<Rightarrow> u32 \<Rightarrow> u64 \<Rightarrow> unpacking \<Rightarrow> bool \<times> unpacking" where
  "WriteUpdateVersionFile H tempDirPath version canaryVersion s =
    (let path = tempDirPath @ latin1 ''/tdata/version'';
         s = ask [MakeDirectory (ho_absolutePath H (tempDirPath @ latin1 ''/tdata'')), OpenForWrite path] s
     in if \<not> ho_openVersion H then (False, s)
        else (True, ask (map (WriteBytes path) (version_file version canaryVersion)
            @ [CloseFile path (ho_versionKept H)]) s))"

definition WriteUpdateReadyFile :: "host \<Rightarrow> qstring \<Rightarrow> unpacking \<Rightarrow> bool \<times> unpacking" where
  "WriteUpdateReadyFile H readyFilePath s =
    (let s = ask [OpenForWrite readyFilePath] s
     in if ho_openReady H then
          (let s = ask [WriteBytes readyFilePath (ascii ''1'')] s
           in (ho_writeReady H \<noteq> 0, s))
        else (False, s))"

definition adopt_verified :: "'k client \<Rightarrow> host \<Rightarrow> manifest_adoption \<Rightarrow> verified_update \<Rightarrow> unpacking \<Rightarrow> unpacking" where
  "adopt_verified C H adoption verified s =
    (if vu_adoptManifest verified then
       (case adoption of
          Immediate \<Rightarrow> s\<lparr>un_manifest := AdoptManifest C (ho_saved H) (vu_manifest verified) (un_manifest s)\<rparr>
        | Queued \<Rightarrow> s\<lparr>un_queued := un_queued s @ [vu_manifest verified]\<rparr>)
     else s)"

definition temp_path :: "host \<Rightarrow> qstring" where
  "temp_path H = ho_workingDir H @ latin1 ''tupdates/temp''"

definition ready_path :: "host \<Rightarrow> qstring" where
  "ready_path H = ho_workingDir H @ latin1 ''tupdates/temp/ready''"

definition canary_version :: "envelope \<Rightarrow> u64" where
  "canary_version e = (if e_channel e = CanaryPublic \<or> e_channel e = CanaryPrivate then e_version e else 0)"

text \<open>What follows the verification.\<close>

definition stage_update :: "'s unpacker \<Rightarrow> host \<Rightarrow> qstring \<Rightarrow> verified_update \<Rightarrow> unpacking \<Rightarrow> bool \<times> unpacking" where
  "stage_update U H filepath verified s =
    (let s = ask [DeleteDirectory (temp_path H)] s
     in if \<not> ho_tempCleared H then (False, s)
        else case DecompressUpdatePayload U verified of
            Inl _ \<Rightarrow> (False, s)
          | Inr uncompressed \<Rightarrow>
              let s = ask [MakeDirectory (ho_absolutePath H (temp_path H))] s
              in case ExtractUpdateFiles U uncompressed (e_version (vu_envelope verified)) (temp_path H) [] of
                   (trace, r) \<Rightarrow>
                     let s = ask (map Extracting trace) s
                     in case r of
                          Inl _ \<Rightarrow> (False, s)
                        | Inr _ \<Rightarrow>
                            (case WriteUpdateVersionFile H (temp_path H)
                                    (UpdateVersionBase (e_version (vu_envelope verified)))
                                    (canary_version (vu_envelope verified)) s of
                               (False, s) \<Rightarrow> (False, s)
                             | (True, s) \<Rightarrow>
                                 (case WriteUpdateReadyFile H (ready_path H) s of
                                    (False, s) \<Rightarrow> (False, s)
                                  | (True, s) \<Rightarrow> (True, ask [RemoveFile filepath] s))))"

definition UnpackUpdateV2 ::
  "'k client \<Rightarrow> 's unpacker \<Rightarrow> host \<Rightarrow> bool \<Rightarrow> int \<Rightarrow> qstring \<Rightarrow> bytes \<Rightarrow> manifest_adoption
    \<Rightarrow> unpacking \<Rightarrow> bool \<times> unpacking" where
  "UnpackUpdateV2 C U H installBeta now filepath content adoption s =
    (case TargetFromPlatformKey (cl_updateKey C) of
       None \<Rightarrow> (False, s)
     | Some target \<Rightarrow>
         (case VerifyUpdate (cl_platform C) content (cl_buildChannel C) (cl_appBeta C \<or> installBeta) target
                 (RunningUpdateVersion C) (HeldManifest C (un_manifest s)) (cl_rootKey C) now of
            Inl _ \<Rightarrow> (False, s)
          | Inr verified \<Rightarrow> stage_update U H filepath verified (adopt_verified C H adoption verified s)))"

section \<open>The held manifest never goes back\<close>

definition held_version :: "'k client \<Rightarrow> manifest_file \<Rightarrow> u32" where
  "held_version C stored = (case HeldManifest C stored of None \<Rightarrow> 0 | Some m \<Rightarrow> m_version m)"

text \<open>What \<open>ParseVerifiedManifest\<close> returned for the bytes of the manifest.\<close>

definition genuine :: "'k client \<Rightarrow> manifest \<Rightarrow> bool" where
  "genuine C m \<longleftrightarrow> ParseVerifiedManifest (cl_platform C) (m_bytes m) (m_signature m) (cl_rootKey C) = Inr m"

definition adopt_all :: "'k client \<Rightarrow> (bool \<times> manifest) list \<Rightarrow> manifest_file \<Rightarrow> manifest_file" where
  "adopt_all C xs stored = fold (\<lambda>(saved, m). AdoptManifest C saved m) xs stored"

lemma genuine_written:
  assumes "genuine C m" and "\<not> cl_updaterDisabled C"
  shows "readUpdateManifest C (writeUpdateManifest C True (m_bytes m) (m_signature m) stored) = Some (m_bytes m, m_signature m)"
proof -
  have "m_bytes m \<noteq> []" and "length (m_bytes m) \<le> 256 * 1024" and "length (m_signature m) = 64"
    using assms(1)
    by (auto simp: genuine_def ParseVerifiedManifest_def result_simps kMaxManifestSize_def VerifyEd25519_def
        kRawSignatureSize_def split: if_splits)
  then show ?thesis
    using assms(2) by (simp add: writeUpdateManifest_def readUpdateManifest_def)
qed

lemma genuine_version: "genuine C m \<Longrightarrow> 0 < m_version m"
  using ParseVerifiedManifest_Inr [of "cl_platform C" "m_bytes m" "m_signature m" "cl_rootKey C" m]
  by (auto simp: genuine_def manifest_ok_def word_less_nat_alt word_le_nat_alt)

text \<open>The embedded manifest is a floor of what is held, whatever the file says.\<close>

lemma held_after_write:
  assumes m: "genuine C m" and newer: "held_version C stored < m_version m" and "\<not> cl_updaterDisabled C"
  shows "HeldManifest C (writeUpdateManifest C True (m_bytes m) (m_signature m) stored) = Some m"
proof -
  let ?parse = "ParseVerifiedManifest (cl_platform C)"
  have "m_version r < m_version m"
    if "?parse (cl_embeddedManifest C) (cl_embeddedSignature C) (cl_rootKey C) = Inr r" for r
  proof -
    have "m_version r \<le> held_version C stored"
      using that by (auto simp: held_version_def HeldManifest_def Let_def split: option.split sum.split)
    then show ?thesis using newer by (rule order.strict_trans1)
  qed
  then show ?thesis
    using m genuine_written [OF m assms(3), of stored]
    by (auto simp: HeldManifest_def Let_def genuine_def split: sum.split)
qed

lemma adopt_version:
  assumes m: "genuine C m"
  shows "held_version C stored \<le> held_version C (AdoptManifest C saved m stored)"
    and "saved \<Longrightarrow> \<not> cl_updaterDisabled C \<Longrightarrow> m_version m \<le> held_version C (AdoptManifest C saved m stored)"
proof -
  have newer: "(case HeldManifest C stored of None \<Rightarrow> True | Some held \<Rightarrow> m_version m > m_version held) \<longleftrightarrow>
      held_version C stored < m_version m"
    using genuine_version [OF m] by (auto simp: held_version_def split: option.split)
  have wrote: "held_version C (writeUpdateManifest C True (m_bytes m) (m_signature m) stored) = m_version m"
    if "held_version C stored < m_version m" and "\<not> cl_updaterDisabled C"
    using held_after_write [OF m that] by (simp add: held_version_def)
  show "saved \<Longrightarrow> \<not> cl_updaterDisabled C \<Longrightarrow> m_version m \<le> held_version C (AdoptManifest C saved m stored)"
    using newer wrote by (simp add: AdoptManifest_def not_less)
  show "held_version C stored \<le> held_version C (AdoptManifest C saved m stored)"
  proof (cases "held_version C stored < m_version m \<and> saved \<and> \<not> cl_updaterDisabled C")
    case True
    then show ?thesis
      using newer wrote by (simp add: AdoptManifest_def less_imp_le)
  next
    case False
    then have "AdoptManifest C saved m stored = stored"
      using newer by (auto simp: AdoptManifest_def writeUpdateManifest_def)
    then show ?thesis by simp
  qed
qed

text \<open>
  C23: However manifests that the root key signed are adopted, the version of the held
  manifest never goes down, not even when a write fails, and it never falls below that of
  a manifest whose adoption was saved. Each step reads the held manifest from the
  file again, as the client does after a restart.
\<close>

theorem held_manifest_never_goes_back:
  assumes "\<forall>(saved, m)\<in>set xs. genuine C m"
  shows "held_version C stored \<le> held_version C (adopt_all C xs stored) \<and>
    (\<not> cl_updaterDisabled C \<longrightarrow> (\<forall>m. (True, m) \<in> set xs \<longrightarrow> m_version m \<le> held_version C (adopt_all C xs stored)))"
  using assms
proof (induction xs arbitrary: stored)
  case (Cons x xs)
  obtain saved m where x: "x = (saved, m)" by (cases x)
  let ?f = "AdoptManifest C saved m stored"
  have "genuine C m" using Cons.prems x by simp
  note step = adopt_version [OF this, where stored = stored and saved = saved]
  have IH: "held_version C ?f \<le> held_version C (adopt_all C xs ?f)"
    "\<not> cl_updaterDisabled C \<Longrightarrow> (True, n) \<in> set xs \<Longrightarrow> m_version n \<le> held_version C (adopt_all C xs ?f)" for n
    using Cons.IH [of ?f] Cons.prems by auto
  have run: "adopt_all C (x # xs) stored = adopt_all C xs ?f"
    by (simp add: adopt_all_def x)
  show ?case
    unfolding run using IH step x by (auto intro: order.trans)
qed (simp add: adopt_all_def)

section \<open>What a staged update needs\<close>

text \<open>The calls of a complete update up to the opening of the ready file.\<close>

definition staging_calls :: "host \<Rightarrow> verified_update \<Rightarrow> file_call list \<Rightarrow> step_call list" where
  "staging_calls H u trace =
    [DeleteDirectory (temp_path H), MakeDirectory (ho_absolutePath H (temp_path H))] @ map Extracting trace @
    [MakeDirectory (ho_absolutePath H (temp_path H @ latin1 ''/tdata'')),
     OpenForWrite (temp_path H @ latin1 ''/tdata/version'')] @
    map (WriteBytes (temp_path H @ latin1 ''/tdata/version''))
      (version_file (UpdateVersionBase (e_version (vu_envelope u))) (canary_version (vu_envelope u))) @
    [CloseFile (temp_path H @ latin1 ''/tdata/version'') (ho_versionKept H), OpenForWrite (ready_path H)]"

definition fully_extracted :: "'s unpacker \<Rightarrow> host \<Rightarrow> verified_update \<Rightarrow> file_call list \<Rightarrow> bool" where
  "fully_extracted U H u trace \<longleftrightarrow> (\<exists>uncompressed. DecompressUpdatePayload U u = Inr uncompressed \<and>
    ExtractUpdateFiles U uncompressed (e_version (vu_envelope u)) (temp_path H) [] = (trace, Inr ()))"

lemma version_not_ready: "temp_path H @ latin1 ''/tdata/version'' \<noteq> ready_path H"
  by (simp add: temp_path_def ready_path_def latin1_def)

lemma stage_update_calls:
  assumes "stage_update U H filepath u s = (r, t)"
  shows "(\<exists>trace rest. fully_extracted U H u trace \<and> un_calls t = un_calls s @ staging_calls H u trace @ rest \<and>
      set rest \<subseteq> {WriteBytes (ready_path H) (ascii ''1''), RemoveFile filepath}) \<or>
    (\<not> r \<and> (\<exists>cs. un_calls t = un_calls s @ cs \<and> OpenForWrite (ready_path H) \<notin> set cs))"
proof -
  note steps = stage_update_def ask_def Let_def
  have early: ?thesis if "\<not> r" and "\<exists>cs. un_calls t = un_calls s @ cs \<and> OpenForWrite (ready_path H) \<notin> set cs"
    using that by blast
  show ?thesis
  proof (cases "ho_tempCleared H")
    case False
    then show ?thesis
      by (intro early) (use assms in \<open>auto simp: steps\<close>)
  next
    case cleared: True
    show ?thesis
    proof (cases "DecompressUpdatePayload U u")
      case (Inl e)
      then show ?thesis
        by (intro early) (use assms cleared in \<open>auto simp: steps\<close>)
    next
      case (Inr d)
      obtain trace q where x: "ExtractUpdateFiles U d (e_version (vu_envelope u)) (temp_path H) [] = (trace, q)"
        by fastforce
      show ?thesis
      proof (cases q)
        case Inl': (Inl e)
        then show ?thesis
          by (intro early) (use assms cleared Inr x in \<open>auto simp: steps\<close>)
      next
        case Inr': (Inr e)
        show ?thesis
        proof (cases "ho_openVersion H")
          case False
          then show ?thesis
            using assms cleared Inr x Inr' version_not_ready [of H]
            by (intro early) (auto simp: steps WriteUpdateVersionFile_def)
        next
          case True
          let ?rest = "if \<not> ho_openReady H then [] else
            WriteBytes (ready_path H) (ascii ''1'') # (if ho_writeReady H = 0 then [] else [RemoveFile filepath])"
          have "un_calls t = un_calls s @ staging_calls H u trace @ ?rest"
            using assms cleared Inr x Inr' True
            by (cases "ho_openReady H"; cases "ho_writeReady H = 0")
              (auto simp: steps WriteUpdateVersionFile_def WriteUpdateReadyFile_def staging_calls_def)
          moreover have "fully_extracted U H u trace"
            using Inr x Inr' by (simp add: fully_extracted_def)
          moreover have "set ?rest \<subseteq> {WriteBytes (ready_path H) (ascii ''1''), RemoveFile filepath}"
            by auto
          ultimately show ?thesis by blast
        qed
      qed
    qed
  qed
qed

lemma adopt_verified_calls [simp]: "un_calls (adopt_verified C H adoption v s) = un_calls s"
  by (simp add: adopt_verified_def split: manifest_adoption.split)


section \<open>A prepared update is installed\<close>

text \<open>What a file holds after the calls: the bytes written since it was opened last, cut when it
  was closed.\<close>

definition content_of :: "qstring \<Rightarrow> step_call list \<Rightarrow> bytes" where
  "content_of path calls = foldl (\<lambda>content c. case c of
     OpenForWrite p \<Rightarrow> if p = path then [] else content
   | WriteBytes p bs \<Rightarrow> if p = path then content @ bs else content
   | CloseFile p n \<Rightarrow> if p = path then take n content else content
   | _ \<Rightarrow> content) [] calls"

lemma content_of_simps [simp]:
  "content_of path [] = []"
  "content_of path (calls @ [OpenForWrite p]) = (if p = path then [] else content_of path calls)"
  "content_of path (calls @ [WriteBytes p bs]) = (if p = path then content_of path calls @ bs else content_of path calls)"
  "content_of path (calls @ [CloseFile p n]) = (if p = path then take n (content_of path calls) else content_of path calls)"
  "content_of path (calls @ [DeleteDirectory p]) = content_of path calls"
  "content_of path (calls @ [MakeDirectory p]) = content_of path calls"
  "content_of path (calls @ [Extracting x]) = content_of path calls"
  "content_of path (calls @ [RemoveFile p]) = content_of path calls"
  by (simp_all add: content_of_def)

lemma content_of_writes: "content_of path (calls @ map (WriteBytes path) bss) = content_of path calls @ concat bss"
proof (induction bss rule: rev_induct)
  case (snoc bs bss)
  have "content_of path ((calls @ map (WriteBytes path) bss) @ [WriteBytes path bs]) =
      content_of path (calls @ map (WriteBytes path) bss) @ bs"
    by (simp only: content_of_simps simp_thms if_True)
  with snoc show ?case by simp
qed simp

lemma content_of_other:
  "(\<forall>c\<in>set cs. c \<in> {WriteBytes q b, RemoveFile p, OpenForWrite q}) \<Longrightarrow> q \<noteq> path \<Longrightarrow>
   content_of path (calls @ cs) = content_of path calls"
proof (induction cs rule: rev_induct)
  case (snoc c cs)
  then have "content_of path ((calls @ cs) @ [c]) = content_of path calls"
    by (auto simp: append_assoc [symmetric] simp del: append_assoc)
  then show ?case by simp
qed simp

lemma staged_version_file:
  assumes "set rest \<subseteq> {WriteBytes (ready_path H) b, RemoveFile p}"
  shows "content_of (temp_path H @ latin1 ''/tdata/version'') (before @ staging_calls H u trace @ rest) =
    take (ho_versionKept H)
      (concat (version_file (UpdateVersionBase (e_version (vu_envelope u))) (canary_version (vu_envelope u))))"
proof -
  let ?v = "temp_path H @ latin1 ''/tdata/version''"
  let ?pre = "before @ [DeleteDirectory (temp_path H), MakeDirectory (ho_absolutePath H (temp_path H))] @
    map Extracting trace @ [MakeDirectory (ho_absolutePath H (temp_path H @ latin1 ''/tdata''))]"
  let ?f = "version_file (UpdateVersionBase (e_version (vu_envelope u))) (canary_version (vu_envelope u))"
  have "before @ staging_calls H u trace @ rest =
      (((?pre @ [OpenForWrite ?v]) @ map (WriteBytes ?v) ?f) @ [CloseFile ?v (ho_versionKept H)])
        @ OpenForWrite (ready_path H) # rest"
    by (simp add: staging_calls_def)
  moreover have "\<forall>c\<in>set (OpenForWrite (ready_path H) # rest).
      c \<in> {WriteBytes (ready_path H) b, RemoveFile p, OpenForWrite (ready_path H)}"
    using assms by auto
  ultimately show ?thesis
    using content_of_other [of "OpenForWrite (ready_path H) # rest" "ready_path H" b p ?v] version_not_ready [of H]
    by (simp only: content_of_writes content_of_simps if_True simp_thms append_Nil)
qed

text \<open>The version file of an update the policy allows passes the check.\<close>

lemma version_split: "MakeUpdateVersion (UpdateVersionBase v) (UpdateVersionCounter v) = v"
proof (rule bit_word_eqI)
  fix n assume "n < LENGTH(64)"
  have mask: "(0xFFFFFFFF :: u64) = mask 32" by (simp add: mask_eq_exp_minus_1)
  have "32 + (n - 32) = n" if "\<not> n < 32"
    using that by simp
  then show "bit (MakeUpdateVersion (UpdateVersionBase v) (UpdateVersionCounter v)) n = bit v n"
    using \<open>n < LENGTH(64)\<close> unfolding MakeUpdateVersion_def UpdateVersionBase_def UpdateVersionCounter_def mask
    by (cases "n < 32") (auto simp: bit_simps dest: bit_imp_le_length)
qed

lemma newer_base:
  "UpdateVersionCounter v = 0 \<Longrightarrow> MakeUpdateVersion a 0 < v \<Longrightarrow> a < UpdateVersionBase v"
  using update_version_order [of a 0 "UpdateVersionBase v" "UpdateVersionCounter v"] version_split [of v] by simp

lemma sint_less:
  assumes "a < b" and "b < 0x7FFFFFFE"
  shows "sint (a :: u32) < sint b"
proof -
  have "uint b < 0x7FFFFFFE" and "uint a < uint b"
    using assms by (simp_all add: word_less_def)
  moreover have "sint w = uint w" if "uint w < 0x7FFFFFFE" for w :: u32
  proof -
    have "- (2 ^ 31) \<le> uint w"
      by (rule order.trans [OF _ unsigned_greater_eq]) simp
    then have "signed_take_bit 31 (uint w) = uint w"
      by (rule signed_take_bit_int_eq_self) (use that in simp)
    then show ?thesis by (simp add: sint_uint)
  qed
  ultimately show ?thesis by simp
qed

lemma canary_file_ok:
  assumes policy: "ChannelPolicyAllows (cl_buildChannel C) betaSet (e_channel e) (e_version e) (RunningUpdateVersion C)"
    and newer: "RunningUpdateVersion C < e_version e" and canary: "canary_version e \<noteq> 0"
  shows "ready_version_ok C (take n (concat (version_file (UpdateVersionBase (e_version e)) (canary_version e)))) \<longleftrightarrow> 12 \<le> n"
proof -
  have e: "canary_version e = e_version e" "e_channel e = CanaryPublic \<or> e_channel e = CanaryPrivate"
    using canary by (auto simp: canary_version_def split: if_splits)
  then have build: "BuildIsCanary C"
    using policy by (auto simp: ChannelPolicyAllows_def BuildIsCanary_def split: channel.splits if_splits)
  let ?f = "le_bytes 4 kVersionFileCanaryMarker @ le_bytes 8 (e_version e)"
  have f: "concat (version_file (UpdateVersionBase (e_version e)) (canary_version e)) = ?f"
    using canary e(1) by (simp add: version_file_def Let_def)
  have four: "take 4 (take n ?f) = le_bytes 4 kVersionFileCanaryMarker" if "4 \<le> n"
    using that by (simp add: min_def)
  have m: "kVersionFileCanaryMarker \<noteq> 0x7FFFFFFF" by (simp add: kVersionFileCanaryMarker_def)
  show ?thesis
  proof (cases "4 \<le> n")
    case True
    have "take 8 (drop 4 (take n ?f)) = le_bytes 8 (e_version e)" if "12 \<le> n"
      using that by (simp add: min_def)
    then show ?thesis
      using True four m build newer unfolding f
      by (auto simp: ready_version_ok_def le_value_le_bytes_full Let_def)
  qed (simp add: f ready_version_ok_def)
qed

lemma plain_file_ok:
  assumes policy: "ChannelPolicyAllows (cl_buildChannel C) betaSet (e_channel e) (e_version e) (RunningUpdateVersion C)"
    and newer: "RunningUpdateVersion C < e_version e" and plain: "canary_version e = 0"
    and marker: "UpdateVersionBase (e_version e) \<noteq> 0x7FFFFFFE"
  shows "ready_version_ok C (take n (concat (version_file (UpdateVersionBase (e_version e)) (canary_version e))))
    \<longleftrightarrow> 4 \<le> n \<and> UpdateVersionBase (e_version e) \<noteq> 0x7FFFFFFF
      \<and> sint (cl_appVersion C) < sint (UpdateVersionBase (e_version e))"
proof -
  let ?base = "UpdateVersionBase (e_version e)"
  have "e_version e \<noteq> 0" using newer by auto
  then have stable: "e_channel e = Stable \<or> e_channel e = Beta"
    using plain by (cases "e_channel e") (auto simp: canary_version_def)
  then have build: "cl_buildChannel C \<noteq> CanaryPrivate"
    using policy by (auto simp: ChannelPolicyAllows_def split: if_splits)
  obtain rest where f: "concat (version_file ?base (canary_version e)) = le_bytes 4 ?base @ rest"
    using plain by (simp add: version_file_def Let_def)
  have "take 4 (take n (le_bytes 4 ?base @ rest)) = le_bytes 4 ?base" if "4 \<le> n"
    using that by (simp add: min_def)
  then show ?thesis
    using build marker unfolding f
    by (auto simp: ready_version_ok_def le_value_le_bytes_full kVersionFileCanaryMarker_def Let_def)
qed

lemma plain_version_newer:
  assumes policy: "ChannelPolicyAllows (cl_buildChannel C) betaSet (e_channel e) (e_version e) (RunningUpdateVersion C)"
    and newer: "RunningUpdateVersion C < e_version e" and plain: "canary_version e = 0"
    and build: "BuildIsCanary C \<longleftrightarrow> cl_canaryCounter C \<noteq> 0" and packed: "UpdateVersionCounter (e_version e) = 0"
  shows "cl_appVersion C < UpdateVersionBase (e_version e)"
proof (cases "BuildIsCanary C")
  case True
  have "e_version e \<noteq> 0" using newer by auto
  then have "e_channel e = Stable \<or> e_channel e = Beta"
    using plain by (cases "e_channel e") (auto simp: canary_version_def)
  then show ?thesis
    using True policy update_version_order [of "cl_appVersion C" "cl_canaryCounter C"]
    by (auto simp: BuildIsCanary_def ChannelPolicyAllows_def RunningUpdateVersion_def)
next
  case False
  then show ?thesis
    using newer build packed newer_base [of "e_version e" "cl_appVersion C"]
    by (simp add: RunningUpdateVersion_def)
qed

text \<open>
  C22: When the next start takes an update that \<open>UnpackUpdateV2\<close> reports as ready. A canary
  package passes the version check of \<open>checkReadyUpdate\<close> exactly if the first 12 bytes of the
  version file reached it, a stable or beta package exactly if the first 4 did and the
  base of its version is above that of the build. The second holds for every such package
  without a counter whose base is below the two marker values, as the packer makes them; the client itself
  compares whole versions and would prepare another one, which the check then refuses. The
  results of the writes are not looked at. A build has a canary counter exactly when it is a
  canary, and the base of the package is not the canary marker.
\<close>

theorem prepared_update_passes_check:
  assumes run: "UnpackUpdateV2 C U H installBeta now filepath content adoption s = (True, t)"
    and envelope: "ParseEnvelope content = Inr e"
    and build: "BuildIsCanary C \<longleftrightarrow> cl_canaryCounter C \<noteq> 0"
    and marker: "canary_version e = 0 \<longrightarrow> UpdateVersionBase (e_version e) \<noteq> 0x7FFFFFFE"
  shows "let base = UpdateVersionBase (e_version e) in
    (ready_version_ok C (content_of (temp_path H @ latin1 ''/tdata/version'') (un_calls t)) \<longleftrightarrow>
      (if canary_version e \<noteq> 0 then 12 \<le> ho_versionKept H
       else 4 \<le> ho_versionKept H \<and> base \<noteq> 0x7FFFFFFF \<and> sint (cl_appVersion C) < sint base))
    \<and> (canary_version e = 0 \<and> UpdateVersionCounter (e_version e) = 0 \<and> base < 0x7FFFFFFE \<longrightarrow>
      sint (cl_appVersion C) < sint base)"
proof -
  let ?base = "UpdateVersionBase (e_version e)"
  obtain target u where
    u: "VerifyUpdate (cl_platform C) content (cl_buildChannel C) (cl_appBeta C \<or> installBeta) target
      (RunningUpdateVersion C) (HeldManifest C (un_manifest s)) (cl_rootKey C) now = Inr u"
    and stage: "stage_update U H filepath u (adopt_verified C H adoption u s) = (True, t)"
    using run by (auto simp: UnpackUpdateV2_def split: option.splits sum.splits)
  obtain trace rest where "un_calls t = un_calls s @ staging_calls H u trace @ rest"
    and "set rest \<subseteq> {WriteBytes (ready_path H) (ascii ''1''), RemoveFile filepath}"
    using stage_update_calls [OF stage] by auto
  then have content: "content_of (temp_path H @ latin1 ''/tdata/version'') (un_calls t) = take (ho_versionKept H)
      (concat (version_file (UpdateVersionBase (e_version (vu_envelope u))) (canary_version (vu_envelope u))))"
    using staged_version_file by simp
  have e: "vu_envelope u = e \<and> RunningUpdateVersion C < e_version e
      \<and> ChannelPolicyAllows (cl_buildChannel C) (cl_appBeta C \<or> installBeta) (e_channel e) (e_version e)
        (RunningUpdateVersion C)"
    using u by (rule VerifyUpdate_Inr) (use envelope in simp)
  have "ready_version_ok C (content_of (temp_path H @ latin1 ''/tdata/version'') (un_calls t)) \<longleftrightarrow>
      (if canary_version e \<noteq> 0 then 12 \<le> ho_versionKept H
       else 4 \<le> ho_versionKept H \<and> ?base \<noteq> 0x7FFFFFFF \<and> sint (cl_appVersion C) < sint ?base)"
    using e canary_file_ok [of C _ e] plain_file_ok [of C _ e] marker unfolding content by auto
  moreover have "sint (cl_appVersion C) < sint ?base"
    if "canary_version e = 0 \<and> UpdateVersionCounter (e_version e) = 0 \<and> ?base < 0x7FFFFFFE"
    using e plain_version_newer [OF _ _ _ build] sint_less [of "cl_appVersion C"] that by auto
  ultimately show ?thesis unfolding Let_def by blast
qed

text \<open>A failed write of the ready byte, for which \<open>QFile::write\<close> returns \<open>- 1\<close>, counts as success.\<close>

lemma ready_write_error_ignored:
  "ho_openReady H \<Longrightarrow> fst (WriteUpdateReadyFile (H\<lparr>ho_writeReady := - 1\<rparr>) p s) = True"
  by (simp add: WriteUpdateReadyFile_def Let_def)

section \<open>A concrete update\<close>

definition sample_client :: "unit client" where
  "sample_client = \<lparr>cl_platform = sample_platform, cl_embeddedManifest = [], cl_embeddedSignature = [],
    cl_rootKey = [], cl_updaterDisabled = False, cl_buildChannel = Beta, cl_appVersion = 6, cl_canaryCounter = 0,
    cl_appBeta = False, cl_updateKey = ascii ''linux''\<rparr>"

definition sample_host :: host where
  "sample_host = \<lparr>ho_workingDir = latin1 ''w/'', ho_absolutePath = (\<lambda>p. p), ho_tempCleared = True,
    ho_openVersion = True, ho_versionKept = 100, ho_openReady = True, ho_writeReady = 1, ho_saved = True\<rparr>"

definition idle :: unpacking where
  "idle = \<lparr>un_manifest = None, un_queued = [], un_calls = []\<rparr>"

abbreviation sample_version :: u64 where "sample_version \<equiv> MakeUpdateVersion 7 0"

definition packed_payload :: bytes where
  "packed_payload = [24, 0, 0, 0] @ sample_payload"

lemma sample_running: "RunningUpdateVersion sample_client < sample_version"
  using update_version_order [of 6 0 7 0] by (simp add: RunningUpdateVersion_def sample_client_def)

lemma sample_verified:
  "VerifyUpdate (cl_platform sample_client) (sample_bytes sample_version packed_payload)
     (cl_buildChannel sample_client) (cl_appBeta sample_client \<or> False) \<lparr>t_os = Linux, t_arch = X64\<rparr>
     (RunningUpdateVersion sample_client) (HeldManifest sample_client (un_manifest idle)) (cl_rootKey sample_client) 0
   = Inr (sample_accepted sample_version packed_payload)"
proof -
  have "HeldManifest sample_client (un_manifest idle) = None"
    by (simp add: HeldManifest_def sample_client_def idle_def readUpdateManifest_def ParseVerifiedManifest_def)
  moreover have "packed_payload \<noteq> []" and "length packed_payload \<le> 64"
    by (simp_all add: packed_payload_def sample_payload_def)
  ultimately show ?thesis
    using sample_release_accepted [OF _ _ _ sample_running, of None packed_payload]
    by (simp add: sample_client_def)
qed

lemma sample_decompressed:
  "DecompressUpdatePayload sample_unpacker (sample_accepted sample_version packed_payload) = Inr sample_payload"
proof -
  have "e_payload (vu_envelope (sample_accepted sample_version packed_payload)) = packed_payload"
    by (simp add: sample_accepted_def sample_release_def)
  then show ?thesis
    by (simp add: DecompressUpdatePayload_def packed_payload_def sample_unpacker_def original_size_def
        kMaxPayloadSize_def kMaxUncompressedSize_def sample_payload_def)
qed

lemma sample_run:
  "fst (UnpackUpdateV2 sample_client sample_unpacker sample_host False 0 p
    (sample_bytes sample_version packed_payload) Immediate idle)"
proof -
  have key: "TargetFromPlatformKey (cl_updateKey sample_client) = Some \<lparr>t_os = Linux, t_arch = X64\<rparr>"
    by (simp add: sample_client_def TargetFromPlatformKey_def ascii_def)
  have "e_version (vu_envelope (sample_accepted sample_version packed_payload)) = sample_version"
    by (simp add: sample_accepted_def sample_release_def)
  then show ?thesis
    unfolding UnpackUpdateV2_def key option.case sample_verified sum.case
    by (simp add: stage_update_def Let_def sample_host_def sample_decompressed sample_extraction
        WriteUpdateVersionFile_def WriteUpdateReadyFile_def)
qed


theorem prepared_update_passes_check_witness:
  "\<exists>t. UnpackUpdateV2 sample_client sample_unpacker sample_host False 0 []
      (sample_bytes sample_version packed_payload) Immediate idle = (True, t) \<and>
    ready_version_ok sample_client (content_of (temp_path sample_host @ latin1 ''/tdata/version'') (un_calls t))"
proof -
  let ?e = "sample_release sample_version packed_payload"
  obtain t where t: "UnpackUpdateV2 sample_client sample_unpacker sample_host False 0 []
      (sample_bytes sample_version packed_payload) Immediate idle = (True, t)"
    using sample_run [of "[]"] by (metis prod.collapse)
  have e: "ParseEnvelope (sample_bytes sample_version packed_payload) = Inr ?e"
    using sample_release_parses [of packed_payload sample_version] by (simp add: packed_payload_def sample_payload_def)
  have build: "BuildIsCanary sample_client \<longleftrightarrow> cl_canaryCounter sample_client \<noteq> 0"
    by (simp add: BuildIsCanary_def sample_client_def)
  have v: "canary_version ?e = 0" "UpdateVersionCounter (e_version ?e) = 0" "UpdateVersionBase (e_version ?e) = 7"
    using update_version_order [of 7 0] by (simp_all add: canary_version_def sample_release_def)
  have marker: "canary_version ?e = 0 \<longrightarrow> UpdateVersionBase (e_version ?e) \<noteq> 0x7FFFFFFE" by (simp add: v)
  have "ready_version_ok sample_client (content_of (temp_path sample_host @ latin1 ''/tdata/version'') (un_calls t))"
    using prepared_update_passes_check [OF t e build marker] unfolding Let_def v by (simp add: sample_host_def)
  with t show ?thesis by blast
qed

theorem held_manifest_never_goes_back_witness:
  "m_version sample_manifest \<le> held_version sample_client (adopt_all sample_client [(True, sample_manifest)] None)"
proof -
  have "genuine sample_client sample_manifest"
    using sample_manifest_parses by (simp add: genuine_def sample_client_def sample_manifest_def)
  then show ?thesis
    using held_manifest_never_goes_back [of "[(True, sample_manifest)]" sample_client None]
    by (simp add: sample_client_def)
qed

end
