(* ===== verification/Web_Frame.thy ===== *)
theory Web_Frame
  imports Byte_Words
begin

unbundle bit_operations_syntax

text \<open>
  The frame layer of the web proxy transport, \<open>mtproto/web_proxy/web_proxy_frame.h\<close>
  and \<open>.cpp\<close>: eleven frame types, an eight byte header, a serializer that
  expects its arguments in range, and the incremental parser that takes every
  complete frame off the front of a receive buffer.
\<close>

section \<open>Frames\<close>

definition kFrameHeaderSize :: nat where "kFrameHeaderSize = 8"
definition kMaxFramePayload :: nat where "kMaxFramePayload = 1024 * 1024"
definition kMaxBatchFrames :: nat where "kMaxBatchFrames = 4096"

datatype frame_type =
  Open | Data | Close | Window | Ping | Pong | Hello | Welcome | AuthChallenge | AuthResponse | Bye

fun frame_type_code :: "frame_type \<Rightarrow> byte" where
  "frame_type_code Open = 0x01"
| "frame_type_code Data = 0x02"
| "frame_type_code Close = 0x03"
| "frame_type_code Window = 0x04"
| "frame_type_code Ping = 0x05"
| "frame_type_code Pong = 0x06"
| "frame_type_code Hello = 0x10"
| "frame_type_code Welcome = 0x11"
| "frame_type_code AuthChallenge = 0x12"
| "frame_type_code AuthResponse = 0x13"
| "frame_type_code Bye = 0x1F"

definition all_frame_types :: "frame_type list" where
  "all_frame_types =
    [Open, Data, Close, Window, Ping, Pong, Hello, Welcome, AuthChallenge, AuthResponse, Bye]"

definition IsKnownType :: "byte \<Rightarrow> bool" where
  "IsKnownType value \<longleftrightarrow> value \<in> set (map frame_type_code all_frame_types)"

text \<open>The cast \<open>FrameType(value)\<close>; a byte that is no frame type has no constructor.\<close>

definition frame_type_of :: "byte \<Rightarrow> frame_type option" where
  "frame_type_of value = List.find (\<lambda>t. frame_type_code t = value) all_frame_types"

record frame =
  f_type :: frame_type
  f_streamId :: u32
  f_payload :: bytes

definition SerializeFrame :: "frame_type \<Rightarrow> u32 \<Rightarrow> bytes \<Rightarrow> bytes result" where
  "SerializeFrame type streamId payload =
    (if \<not> streamId \<le> 0x00FFFFFF then Inl (Abort ''streamId <= 0x00FFFFFF'')
     else if \<not> length payload \<le> kMaxFramePayload then Inl (Abort ''payload.size() <= kMaxFramePayload'')
     else
       let size = (of_nat (length payload) :: u32)
       in Inr ([frame_type_code type,
                ucast (drop_bit 16 streamId), ucast (drop_bit 8 streamId), ucast streamId,
                ucast (drop_bit 24 size), ucast (drop_bit 16 size), ucast (drop_bit 8 size), ucast size]
               @ payload))"

section \<open>The parser\<close>

definition header_streamId :: "bytes \<Rightarrow> u32" where
  "header_streamId data =
    push_bit 16 (ucast (data ! 1)) OR push_bit 8 (ucast (data ! 2)) OR ucast (data ! 3)"

definition header_size :: "bytes \<Rightarrow> u32" where
  "header_size data =
    push_bit 24 (ucast (data ! 4)) OR push_bit 16 (ucast (data ! 5))
      OR push_bit 8 (ucast (data ! 6)) OR ucast (data ! 7)"

text \<open>
  The loop of \<open>ParseFrames\<close>: the flag of the return statement that ends it, the
  offset it has reached, and the output vector. Every round moves the offset
  by at least the header, so the bytes left are a measure.
\<close>

function parse_loop :: "bytes \<Rightarrow> nat \<Rightarrow> frame list \<Rightarrow> bool \<times> nat \<times> frame list" where
  "parse_loop buffer offset out =
    (if length buffer - offset \<ge> kFrameHeaderSize then
       let data = drop offset buffer
       in if \<not> IsKnownType (data ! 0) then (False, offset, out)
          else if unat (header_size data) > kMaxFramePayload then (False, offset, out)
          else
            let full = kFrameHeaderSize + unat (header_size data)
            in if length buffer - offset < full then (True, offset, out)
               else if length out \<ge> kMaxBatchFrames then (False, offset, out)
               else parse_loop buffer (offset + full)
                 (out @ [\<lparr>f_type = the (frame_type_of (data ! 0)), f_streamId = header_streamId data,
                    f_payload = take (unat (header_size data)) (drop kFrameHeaderSize data)\<rparr>])
     else (True, offset, out))"
  by pat_completeness auto
termination
  by (relation "measure (\<lambda>(buffer, offset, out). length buffer - offset)")
    (auto simp: kFrameHeaderSize_def)

declare parse_loop.simps [simp del]

text \<open>Result, the buffer and the output vector after the call.\<close>

definition ParseFrames :: "bytes \<Rightarrow> frame list \<Rightarrow> bool \<times> bytes \<times> frame list" where
  "ParseFrames buffer out =
    (case parse_loop buffer 0 out of
       (False, _, out') \<Rightarrow> (False, buffer, out')
     | (True, offset, out') \<Rightarrow>
         (True, if offset > 0 then drop offset buffer else buffer, out'))"

section \<open>Frame types and headers\<close>

lemma frame_type_code_inject [simp]: "frame_type_code s = frame_type_code t \<longleftrightarrow> s = t"
  by (cases s; cases t) simp_all

lemma all_frame_types_complete [simp]: "t \<in> set all_frame_types"
  by (cases t) (simp_all add: all_frame_types_def)

lemma frame_type_of_code [simp]: "frame_type_of (frame_type_code t) = Some t"
  by (cases t) (simp_all add: frame_type_of_def all_frame_types_def)

lemma IsKnownType_code [simp]: "IsKnownType (frame_type_code t)"
  by (simp add: IsKnownType_def)

lemma IsKnownType_iff: "IsKnownType v \<longleftrightarrow> (\<exists>t. v = frame_type_code t)"
  by (auto simp: IsKnownType_def)

definition valid_frame :: "frame \<Rightarrow> bool" where
  "valid_frame f \<longleftrightarrow> f_streamId f \<le> 0x00FFFFFF \<and> length (f_payload f) \<le> kMaxFramePayload"

text \<open>The bytes of a frame; for a valid frame this is what \<open>SerializeFrame\<close> returns.\<close>

definition frame_header :: "frame \<Rightarrow> bytes" where
  "frame_header f =
    frame_type_code (f_type f) # be_bytes 3 (f_streamId f) @ be_bytes 4 (of_nat (length (f_payload f)) :: u32)"

definition frame_bytes :: "frame \<Rightarrow> bytes" where
  "frame_bytes f = frame_header f @ f_payload f"

lemma be_bytes_3: "be_bytes 3 w = [ucast (drop_bit 16 w), ucast (drop_bit 8 w), ucast w]"
  by (simp add: be_bytes_def upt_rec)

lemma be_value_3:
  "be_value [b0, b1, b2] = push_bit 16 (ucast b0) OR push_bit 8 (ucast b1) OR (ucast b2 :: 'a::len word)"
  by (simp add: be_value_def push_bit_or or.assoc)

lemma SerializeFrame_eq:
  "SerializeFrame (f_type f) (f_streamId f) (f_payload f) = Inr bs \<longleftrightarrow> valid_frame f \<and> bs = frame_bytes f"
  by (auto simp: SerializeFrame_def valid_frame_def frame_bytes_def frame_header_def be_bytes_3 be_bytes_4
      Let_def)

lemma SerializeFrame_aborts:
  "aborts (SerializeFrame (f_type f) (f_streamId f) (f_payload f)) \<longleftrightarrow> \<not> valid_frame f"
  by (auto simp: SerializeFrame_def valid_frame_def Let_def)

lemma length_frame_header [simp]: "length (frame_header f) = kFrameHeaderSize"
  by (simp add: frame_header_def kFrameHeaderSize_def)

lemma header_streamId_be: "length data \<ge> 4 \<Longrightarrow> header_streamId data = be_value (take 3 (drop 1 data))"
  by (cases data; cases "tl data"; cases "tl (tl data)"; cases "tl (tl (tl data))")
    (auto simp: header_streamId_def be_value_3)

lemma header_size_be:
  assumes "length data \<ge> 8"
  shows "header_size data = be_value (take 4 (drop 4 data))"
proof -
  have "take 4 (drop 4 data) = [data ! 4, data ! 5, data ! 6, data ! 7]"
    using list_of_length_4 [of "take 4 (drop 4 data)"] assms by simp
  then show ?thesis by (simp add: header_size_def be_value_4)
qed

lemma header_read_back:
  assumes "valid_frame f"
  shows "header_streamId (frame_header f @ r) = f_streamId f"
    and "unat (header_size (frame_header f @ r)) = length (f_payload f)"
    and "(frame_header f @ r) ! 0 = frame_type_code (f_type f)"
proof -
  have "length (frame_header f @ r) \<ge> 8" by (simp add: kFrameHeaderSize_def)
  then have "header_streamId (frame_header f @ r) = be_value (be_bytes 3 (f_streamId f))"
    and size: "header_size (frame_header f @ r) = be_value (be_bytes 4 (of_nat (length (f_payload f)) :: u32))"
    by (simp_all add: header_streamId_be header_size_be) (simp_all add: frame_header_def kFrameHeaderSize_def)
  moreover have "take_bit 24 (f_streamId f) = f_streamId f"
  proof -
    have "unat (f_streamId f) < 2 ^ 24" using assms by (simp add: valid_frame_def word_le_nat_alt)
    then show ?thesis by (simp add: word_unat_eq_iff unsigned_take_bit_eq take_bit_nat_eq_self)
  qed
  ultimately show "header_streamId (frame_header f @ r) = f_streamId f"
    by (simp add: be_value_be_bytes)
  show "unat (header_size (frame_header f @ r)) = length (f_payload f)"
    using assms unfolding size
    by (simp add: be_value_be_bytes_full valid_frame_def kMaxFramePayload_def unat_of_nat)
  show "(frame_header f @ r) ! 0 = frame_type_code (f_type f)"
    by (simp add: frame_header_def)
qed


section \<open>One frame off the front\<close>

text \<open>One round of the loop, as a function of the bytes before the offset.\<close>

definition take_frame :: "bytes \<Rightarrow> (frame \<times> bytes) option" where
  "take_frame data =
    (if length data \<ge> kFrameHeaderSize \<and> IsKnownType (data ! 0)
        \<and> unat (header_size data) \<le> kMaxFramePayload
        \<and> kFrameHeaderSize + unat (header_size data) \<le> length data
     then Some (\<lparr>f_type = the (frame_type_of (data ! 0)), f_streamId = header_streamId data,
                 f_payload = take (unat (header_size data)) (drop kFrameHeaderSize data)\<rparr>,
                drop (kFrameHeaderSize + unat (header_size data)) data)
     else None)"

text \<open>What the parser waits with: a proper prefix of a frame whose header, if it is there, is legal.\<close>

definition incomplete :: "bytes \<Rightarrow> bool" where
  "incomplete data \<longleftrightarrow>
    length data < kFrameHeaderSize \<or>
    (IsKnownType (data ! 0) \<and> unat (header_size data) \<le> kMaxFramePayload \<and>
     length data < kFrameHeaderSize + unat (header_size data))"

lemma incomplete_no_frame: "incomplete data \<Longrightarrow> take_frame data = None"
  by (auto simp: incomplete_def take_frame_def)

lemma take_frame_bytes:
  assumes "valid_frame f"
  shows "take_frame (frame_bytes f @ rest) = Some (f, rest)"
  using header_read_back [OF assms, of "f_payload f @ rest"] assms
  by (simp add: take_frame_def frame_bytes_def valid_frame_def)

lemma take_frame_Some:
  assumes "take_frame data = Some (f, rest)"
  shows "valid_frame f \<and> data = frame_bytes f @ rest"
proof -
  have len: "length data \<ge> 8" and known: "IsKnownType (data ! 0)"
    and size: "unat (header_size data) \<le> kMaxFramePayload"
    and room: "8 + unat (header_size data) \<le> length data"
    and f: "f = \<lparr>f_type = the (frame_type_of (data ! 0)), f_streamId = header_streamId data,
              f_payload = take (unat (header_size data)) (drop 8 data)\<rparr>"
    and rest: "rest = drop (8 + unat (header_size data)) data"
    using assms by (auto simp: take_frame_def kFrameHeaderSize_def split: if_splits)
  from len obtain t where data: "data = data ! 0 # take 3 (drop 1 data) @ take 4 (drop 4 data) @ drop 8 data"
    by (cases data)
      (simp_all, metis add.commute append_take_drop_id drop_drop numeral_plus_numeral semiring_norm(3,5)
        add_num_simps)
  have stream: "be_bytes 3 (header_streamId data) = take 3 (drop 1 data)"
    using be_bytes_be_value [of "take 3 (drop 1 data)", where 'a = 32] len
    by (simp add: header_streamId_be)
  have sz: "be_bytes 4 (header_size data) = take 4 (drop 4 data)"
    using be_bytes_be_value [of "take 4 (drop 4 data)", where 'a = 32] len
    by (simp add: header_size_be)
  have "header_streamId data \<le> 0x00FFFFFF"
    using be_value_bound [of "take 3 (drop 1 data)", where 'a = 32] len
    by (simp add: header_streamId_be word_le_nat_alt)
  moreover have "frame_header f @ drop 8 data = data"
  proof -
    have "length (f_payload f) = unat (header_size data)" using room by (simp add: f)
    moreover have "frame_type_code (f_type f) = data ! 0" using known by (auto simp: IsKnownType_iff f)
    moreover have "f_streamId f = header_streamId data" by (simp add: f)
    ultimately show ?thesis using data by (simp add: frame_header_def stream sz)
  qed
  moreover have "drop 8 data = f_payload f @ rest"
    using append_take_drop_id [of "unat (header_size data)" "drop 8 data"]
    by (simp add: f rest kFrameHeaderSize_def add.commute)
  moreover have "length (f_payload f) \<le> kMaxFramePayload" and "f_streamId f = header_streamId data"
    using size by (simp_all add: f)
  ultimately show ?thesis
    by (simp only: valid_frame_def frame_bytes_def append_assoc simp_thms)
qed


text \<open>The frame encoding honours the codec contract, so a stream is cut into frames in one way only.\<close>

interpretation frames: prefix_codec frame_bytes take_frame valid_frame
  by unfold_locales (rule take_frame_bytes)

section \<open>The loop\<close>

lemma parse_loop_frame:
  assumes "take_frame (drop offset buffer) = Some (f, rest)"
  shows "parse_loop buffer offset out =
    (if length out \<ge> kMaxBatchFrames then (False, offset, out)
     else parse_loop buffer (offset + length (frame_bytes f)) (out @ [f]))"
proof -
  let ?d = "drop offset buffer"
  have valid: "valid_frame f" "?d = frame_bytes f @ rest" using take_frame_Some [OF assms] by simp_all
  have size: "unat (header_size ?d) = length (f_payload f)"
    using header_read_back(2) [OF valid(1), of "f_payload f @ rest"] by (simp add: valid(2) frame_bytes_def)
  have c: "kFrameHeaderSize \<le> length ?d" "IsKnownType (?d ! 0)" "unat (header_size ?d) \<le> kMaxFramePayload"
    "kFrameHeaderSize + unat (header_size ?d) \<le> length ?d"
    and f: "\<lparr>f_type = the (frame_type_of (?d ! 0)), f_streamId = header_streamId ?d,
      f_payload = take (unat (header_size ?d)) (drop kFrameHeaderSize ?d)\<rparr> = f"
    using assms unfolding take_frame_def by (simp_all only: split: if_splits) simp_all
  have l: "kFrameHeaderSize + unat (header_size ?d) = length (frame_bytes f)"
    by (simp add: size frame_bytes_def)
  show ?thesis
    using c by (subst parse_loop.simps) (simp only: Let_def f l length_drop not_less [symmetric] not_le if_not_P if_P simp_thms)
qed

lemma parse_loop_incomplete:
  "incomplete (drop offset buffer) \<Longrightarrow> parse_loop buffer offset out = (True, offset, out)"
  by (subst parse_loop.simps) (simp only: incomplete_def Let_def length_drop not_le [symmetric] simp_thms
      split: if_split, blast)

lemma take_frame_None:
  "take_frame data = None \<longleftrightarrow>
    \<not> (length data \<ge> kFrameHeaderSize \<and> IsKnownType (data ! 0) \<and>
      unat (header_size data) \<le> kMaxFramePayload \<and>
      kFrameHeaderSize + unat (header_size data) \<le> length data)"
  by (simp only: take_frame_def split: if_split) simp

lemma parse_loop_bad:
  assumes "take_frame (drop offset buffer) = None" and "\<not> incomplete (drop offset buffer)"
  shows "parse_loop buffer offset out = (False, offset, out)"
proof -
  let ?d = "drop offset buffer"
  have "length buffer - offset \<ge> kFrameHeaderSize"
    using assms(2) by (simp only: incomplete_def length_drop not_less de_Morgan_disj)
  moreover have "IsKnownType (?d ! 0) \<Longrightarrow> unat (header_size ?d) > kMaxFramePayload"
    using assms calculation unfolding incomplete_def take_frame_None length_drop by linarith
  ultimately show ?thesis
    unfolding parse_loop.simps [of buffer offset out] Let_def by (cases "IsKnownType (?d ! 0)") (simp_all only: if_P if_not_P simp_thms if_False if_True)
qed

text \<open>The three lemmas cover the loop; a client reasons about it by this case distinction.\<close>

lemma parse_loop_cases [case_names frame incomplete bad]:
  obtains f rest where "take_frame data = Some (f, rest)" "valid_frame f" "data = frame_bytes f @ rest"
  | "incomplete data" "take_frame data = None"
  | "take_frame data = None" "\<not> incomplete data"
proof (cases "take_frame data")
  case None
  then show ?thesis using that(2,3) by blast
next
  case (Some fr)
  obtain f rest where "fr = (f, rest)" by (cases fr)
  then show ?thesis using that(1) take_frame_Some Some by blast
qed

lemma parse_loop_sound:
  assumes "parse_loop buffer offset out = (True, offset', out')" and "offset \<le> length buffer"
  shows "\<exists>fs. (\<forall>f \<in> set fs. valid_frame f) \<and> out' = out @ fs \<and>
    drop offset buffer = concat (map frame_bytes fs) @ drop offset' buffer \<and>
    incomplete (drop offset' buffer) \<and> offset' = offset + length (concat (map frame_bytes fs)) \<and>
    (fs = [] \<or> length out' \<le> kMaxBatchFrames)"
  using assms
proof (induction "length buffer - offset" arbitrary: offset out rule: less_induct)
  case less
  show ?case
  proof (cases "drop offset buffer" rule: parse_loop_cases)
    case (frame f rest)
    let ?next = "offset + length (frame_bytes f)"
    have len: "length (drop offset buffer) = length (frame_bytes f) + length rest"
      using frame(3) by simp
    have pos: "length (frame_bytes f) > 0" by (simp add: frame_bytes_def kFrameHeaderSize_def)
    have rest: "drop ?next buffer = rest"
    proof -
      have "drop ?next buffer = drop (length (frame_bytes f)) (drop offset buffer)"
        by (simp add: add.commute)
      then show ?thesis by (simp only: frame(3)) simp
    qed
    have room: "length out < kMaxBatchFrames"
      and loop: "parse_loop buffer ?next (out @ [f]) = (True, offset', out')"
      using less.prems(1) by (auto simp: parse_loop_frame [OF frame(1)] split: if_splits)
    obtain fs where fs: "\<forall>f \<in> set fs. valid_frame f" "out' = (out @ [f]) @ fs"
      "drop ?next buffer = concat (map frame_bytes fs) @ drop offset' buffer"
      "incomplete (drop offset' buffer)" "offset' = ?next + length (concat (map frame_bytes fs))"
      "fs = [] \<or> length out' \<le> kMaxBatchFrames"
    proof -
      have "length buffer - ?next < length buffer - offset" and "?next \<le> length buffer"
        using len pos less.prems(2) by (unfold length_drop) linarith+
      from less.hyps [OF this(1) loop this(2)] show ?thesis using that by blast
    qed
    show ?thesis
    proof (intro exI [of _ "f # fs"] conjI)
      show "\<forall>g \<in> set (f # fs). valid_frame g" using fs(1) frame(2) by simp
      show "drop offset buffer = concat (map frame_bytes (f # fs)) @ drop offset' buffer"
        using frame(3) rest fs(3) by (simp only: list.map concat.simps append_assoc)
      show "f # fs = [] \<or> length out' \<le> kMaxBatchFrames" using fs(2,6) room by auto
    qed (use fs in simp_all)
  next
    case incomplete
    then show ?thesis using less.prems by (auto simp: parse_loop_incomplete)
  next
    case bad
    then show ?thesis using less.prems by (auto simp: parse_loop_bad)
  qed
qed

lemma parse_loop_complete:
  assumes "\<forall>f \<in> set fs. valid_frame f" and "fs = [] \<or> length out + length fs \<le> kMaxBatchFrames"
  shows "parse_loop (p @ concat (map frame_bytes fs) @ rest) (length p) out =
    parse_loop (p @ concat (map frame_bytes fs) @ rest) (length (p @ concat (map frame_bytes fs))) (out @ fs)"
  using assms
proof (induction fs arbitrary: p out)
  case Nil
  then show ?case by simp
next
  case (Cons f fs)
  have "take_frame (drop (length p) (p @ concat (map frame_bytes (f # fs)) @ rest))
      = Some (f, concat (map frame_bytes fs) @ rest)"
    using Cons.prems by (simp add: take_frame_bytes)
  then show ?case
    using Cons.IH [of "out @ [f]" "p @ frame_bytes f"] Cons.prems by (simp add: parse_loop_frame)
qed

lemma parse_loop_shift:
  "parse_loop (p @ d) (length p + k) out =
    (case parse_loop d k out of (ok, offset, o') \<Rightarrow> (ok, length p + offset, o'))"
proof (induction d k out rule: parse_loop.induct)
  case (1 d k out)
  then show ?case
    by (subst (1 2) parse_loop.simps) (simp add: Let_def add.assoc)
qed

lemma ParseFrames_sound:
  assumes "ParseFrames buffer out = (True, rest, out')"
  shows "\<exists>fs. (\<forall>f \<in> set fs. valid_frame f) \<and> buffer = concat (map frame_bytes fs) @ rest \<and>
      incomplete rest \<and> out' = out @ fs \<and>
      (fs = [] \<or> length out + length fs \<le> kMaxBatchFrames)"
proof -
  from assms obtain offset where "parse_loop buffer 0 out = (True, offset, out')"
    and "rest = drop offset buffer"
    by (auto simp: ParseFrames_def split: prod.splits bool.splits if_splits)
  then show ?thesis using parse_loop_sound [of buffer 0 out offset out'] by auto
qed

lemma ParseFrames_complete:
  assumes "\<forall>f \<in> set fs. valid_frame f" and "buffer = concat (map frame_bytes fs) @ rest"
    and "incomplete rest" and "out' = out @ fs" and "fs = [] \<or> length out + length fs \<le> kMaxBatchFrames"
  shows "ParseFrames buffer out = (True, rest, out')"
  using parse_loop_complete [OF assms(1,5), of "[]" rest] assms
  by (simp add: ParseFrames_def parse_loop_incomplete)

section \<open>Properties\<close>

text \<open>
  C5: \<open>ParseFrames\<close> succeeds exactly when the receive buffer is a sequence of
  serialized frames, within the batch limit, followed by an incomplete frame;
  it then appends exactly those frames and keeps exactly the incomplete tail.
\<close>

theorem ParseFrames_iff:
  "ParseFrames buffer out = (True, rest, out') \<longleftrightarrow>
    (\<exists>fs. (\<forall>f \<in> set fs. valid_frame f) \<and> buffer = concat (map frame_bytes fs) @ rest \<and>
      incomplete rest \<and> out' = out @ fs \<and>
      (fs = [] \<or> length out + length fs \<le> kMaxBatchFrames))"
  (is "?lhs \<longleftrightarrow> (\<exists>fs. ?P fs)")
proof
  assume ?lhs
  then show "\<exists>fs. ?P fs" by (rule ParseFrames_sound)
next
  assume "\<exists>fs. ?P fs"
  then show ?lhs using ParseFrames_complete by blast
qed

theorem ParseFrames_iff_witness:
  "ParseFrames [0x05, 0, 0, 0, 0, 0, 0, 0, 0x04, 0] [] =
    (True, [0x04, 0], [\<lparr>f_type = Ping, f_streamId = 0, f_payload = []\<rparr>])"
  unfolding ParseFrames_iff
  by (rule exI [of _ "[\<lparr>f_type = Ping, f_streamId = 0, f_payload = []\<rparr>]"])
    (simp add: valid_frame_def frame_bytes_def frame_header_def be_bytes_3 be_bytes_4 incomplete_def
      kFrameHeaderSize_def kMaxFramePayload_def kMaxBatchFrames_def)

text \<open>
  Splitting the received stream into reads does not change what is parsed:
  parsing what has arrived and then the kept tail with the rest gives the same
  result, frames and tail as parsing everything at once.
\<close>

theorem ParseFrames_stream:
  assumes "ParseFrames buffer out = (True, rest, output1)"
  shows "ParseFrames (buffer @ later) out =
    (case ParseFrames (rest @ later) output1 of
       (ok, rest', output2) \<Rightarrow> (ok, if ok then rest' else buffer @ later, output2))"
proof -
  obtain fs where fs: "\<forall>f \<in> set fs. valid_frame f" "buffer = concat (map frame_bytes fs) @ rest"
    "output1 = out @ fs" "fs = [] \<or> length out + length fs \<le> kMaxBatchFrames"
    using ParseFrames_sound [OF assms] by blast
  let ?p = "concat (map frame_bytes fs)"
  have "parse_loop (buffer @ later) 0 out = parse_loop (?p @ rest @ later) (length ?p + 0) output1"
    using parse_loop_complete [OF fs(1,4), of "[]" "rest @ later"] fs(2,3) by simp
  also have "\<dots> = (case parse_loop (rest @ later) 0 output1 of
      (ok, offset, o') \<Rightarrow> (ok, length ?p + offset, o'))"
    by (rule parse_loop_shift)
  finally show ?thesis
    using fs(2) by (auto simp: ParseFrames_def split: prod.splits bool.splits)
qed

theorem ParseFrames_stream_witness:
  "ParseFrames ([0x05, 0, 0, 0, 0, 0, 0, 0, 0x04, 0, 0, 1] @ [0, 0, 0, 1, 0x2A]) [] =
    (True, [], [\<lparr>f_type = Ping, f_streamId = 0, f_payload = []\<rparr>,
      \<lparr>f_type = Window, f_streamId = 1, f_payload = [0x2A]\<rparr>])"
proof -
  let ?ping = "\<lparr>f_type = Ping, f_streamId = 0, f_payload = []\<rparr>"
  let ?window = "\<lparr>f_type = Window, f_streamId = 1, f_payload = [0x2A]\<rparr>"
  have "ParseFrames [0x05, 0, 0, 0, 0, 0, 0, 0, 0x04, 0, 0, 1] [] = (True, [0x04, 0, 0, 1], [?ping])"
    by (rule ParseFrames_complete [of "[?ping]"])
      (simp_all add: valid_frame_def frame_bytes_def frame_header_def be_bytes_3 be_bytes_4 incomplete_def
        kFrameHeaderSize_def kMaxFramePayload_def kMaxBatchFrames_def)
  note step = ParseFrames_stream [OF this, of "[0, 0, 0, 1, 0x2A]"]
  have "ParseFrames ([0x04, 0, 0, 1] @ [0, 0, 0, 1, 0x2A]) [?ping] = (True, [], [?ping, ?window])"
    by (rule ParseFrames_complete [of "[?window]"])
      (simp_all add: valid_frame_def frame_bytes_def frame_header_def be_bytes_3 be_bytes_4 incomplete_def
        kFrameHeaderSize_def kMaxFramePayload_def kMaxBatchFrames_def)
  with step show ?thesis by (simp only: prod.case if_True)
qed

end
