(* ===== verification/Gram_Boc.thy ===== *)
theory Gram_Boc
  imports Byte_Words
begin

unbundle bit_operations_syntax

text \<open>
  The bag-of-cells reader of the wallet, \<open>gram/gram_boc.cpp\<close>: the cell parser,
  the search for the one signed key-rotation request, the CRC-32C, the routine
  that replaces the signature of that request by random bytes, and the text
  comment reader. Base64, UTF-8 and the random generator are not under src/
  and are the record \<open>boc_env\<close>. Offsets are natural numbers, and a test
  \<open>a - b < c\<close> of the code on ints is written \<open>a < b + c\<close>.
\<close>

section \<open>Cells\<close>

definition kBocMagic :: u32 where "kBocMagic = 0xB5EE9C72"
definition kSignatureBytes :: nat where "kSignatureBytes = 64"
definition kRequestBytes :: nat where "kRequestBytes = kSignatureBytes + 4 + 4 + 4 + 4 + 32"
definition kRequestRefs :: nat where "kRequestRefs = 1"
definition kExternalOpcode :: u32 where "kExternalOpcode = 0xFBBA99C8"
definition kInternalOpcode :: u32 where "kInternalOpcode = 0xFBBA99C7"
definition kMaxCells :: nat where "kMaxCells = 64"
definition kMaxBytes :: nat where "kMaxBytes = 64 * 1024"

record cell =
  c_dataFrom :: nat
  c_dataSize :: nat
  c_refsFrom :: nat
  c_refs :: nat
  c_wholeBytes :: bool

record parsed_boc =
  pb_data :: bytes
  pb_cells :: "cell list"
  pb_refSize :: nat
  pb_root :: int
  pb_hasCrc :: bool

record boc_env =
  be_fromBase64 :: "qstring \<Rightarrow> bytes"
  be_toBase64 :: "bytes \<Rightarrow> qstring"
  be_fromUtf8 :: "bytes \<Rightarrow> qstring"
  be_toUtf8 :: "qstring \<Rightarrow> bytes"
  be_random :: "nat \<Rightarrow> bytes"

definition ReadNumber :: "bytes \<Rightarrow> nat \<Rightarrow> nat \<Rightarrow> u64 option \<times> nat" where
  "ReadNumber data offset width =
    (if width < 1 \<or> width > 8 \<or> length data < offset + width then (None, offset)
     else (Some (be_value (take width (drop offset data))), offset + width))"

definition ReadOpcode :: "bytes \<Rightarrow> nat \<Rightarrow> u32" where
  "ReadOpcode data offset = be_value (take 4 (drop offset data))"

text \<open>The loop over the cells: \<open>n\<close> are still to be read.\<close>

fun parse_cells_loop :: "bytes \<Rightarrow> nat \<Rightarrow> nat \<Rightarrow> nat \<Rightarrow> nat \<Rightarrow> (cell list \<times> nat) option" where
  "parse_cells_loop data till refSize 0 offset = Some ([], offset)"
| "parse_cells_loop data till refSize (Suc n) offset =
    (if till < offset + 2 then None
     else
       let first = data ! offset;
           second = data ! (offset + 1);
           offset = offset + 2;
           refs = unat (first AND 0x07);
           dataSize = unat (drop_bit 1 second) + unat (second AND 0x01)
       in if first AND 0xF8 \<noteq> 0 \<or> refs > 4 \<or> till < offset + dataSize then None
          else
            let c = \<lparr>c_dataFrom = offset, c_dataSize = dataSize, c_refsFrom = offset + dataSize,
                     c_refs = refs, c_wholeBytes = (second AND 0x01 = 0)\<rparr>;
                offset = offset + dataSize
            in if till < offset + refs * refSize then None
               else case parse_cells_loop data till refSize n (offset + refs * refSize) of
                   None \<Rightarrow> None
                 | Some (cells, final) \<Rightarrow> Some (c # cells, final))"

definition ParseCells :: "bytes \<Rightarrow> nat \<Rightarrow> nat \<Rightarrow> nat \<Rightarrow> nat \<Rightarrow> cell list option" where
  "ParseCells data from till count refSize =
    (case parse_cells_loop data till refSize count from of
       None \<Rightarrow> None
     | Some (cells, offset) \<Rightarrow> if offset = till then Some cells else None)"

definition is_request :: "bytes \<Rightarrow> cell \<Rightarrow> bool" where
  "is_request data c \<longleftrightarrow>
    \<not> (\<not> c_wholeBytes c \<or> c_refs c \<noteq> kRequestRefs \<or> c_dataSize c \<noteq> kRequestBytes) \<and>
    (let opcode = ReadOpcode data (c_dataFrom c + kSignatureBytes)
     in \<not> (opcode \<noteq> kExternalOpcode \<and> opcode \<noteq> kInternalOpcode))"

text \<open>The loop, at index \<open>i\<close>, with the result so far.\<close>

fun find_request_loop :: "bytes \<Rightarrow> cell list \<Rightarrow> int \<Rightarrow> int \<Rightarrow> int" where
  "find_request_loop data [] i result = result"
| "find_request_loop data (c # cells) i result =
    (if \<not> is_request data c then find_request_loop data cells (i + 1) result
     else if result \<ge> 0 then -1
     else find_request_loop data cells (i + 1) i)"

definition FindRequest :: "bytes \<Rightarrow> cell list \<Rightarrow> int" where
  "FindRequest data cells = find_request_loop data cells 0 (-1)"

definition crc_bit :: "u32 \<Rightarrow> u32" where
  "crc_bit r = (if r AND 1 \<noteq> 0 then drop_bit 1 r XOR 0x82F63B78 else drop_bit 1 r)"

definition crc_byte :: "u32 \<Rightarrow> byte \<Rightarrow> u32" where
  "crc_byte r b = (crc_bit ^^ 8) (r XOR ucast b)"

definition Crc32c :: "bytes \<Rightarrow> nat \<Rightarrow> u32" where
  "Crc32c data width = NOT (foldl crc_byte 0xFFFFFFFF (take width data))"

section \<open>The bag of cells\<close>

definition ParseBoc :: "boc_env \<Rightarrow> qstring \<Rightarrow> parsed_boc option" where
  "ParseBoc E bocBase64 =
    (let data = be_fromBase64 E bocBase64
     in if data = [] \<or> length data > kMaxBytes then None
        else
    let (magic, o1) = ReadNumber data 0 4;
        (flags, o2) = ReadNumber data o1 1
    in if magic \<noteq> Some (ucast kBocMagic) then None
       else case flags of None \<Rightarrow> None | Some flags \<Rightarrow>
    let hasIndex = (flags AND 0x80 \<noteq> 0);
        hasCrc = (flags AND 0x40 \<noteq> 0);
        hasCacheBits = (flags AND 0x20 \<noteq> 0);
        refSize = unat (flags AND 0x07)
    in if hasCacheBits \<or> refSize < 1 \<or> refSize > 4 then None
       else case ReadNumber data o2 1 of
         (None, _) \<Rightarrow> None
       | (Some offsetSize, o3) \<Rightarrow>
    if unat offsetSize < 1 \<or> unat offsetSize > 8 then None
    else
    let (cells, o4) = ReadNumber data o3 refSize;
        (roots, o5) = ReadNumber data o4 refSize;
        (absent, o6) = ReadNumber data o5 refSize;
        (width, o7) = ReadNumber data o6 (unat offsetSize)
    in case (cells, roots, absent, width) of
         (Some cells, Some roots, Some absent, Some width) \<Rightarrow>
    if absent \<noteq> 0 \<or> roots \<noteq> 1 \<or> cells < 1 \<or> unat cells > kMaxCells \<or> unat width > kMaxBytes then None
    else
    (case ReadNumber data o7 refSize of
         (None, _) \<Rightarrow> None
       | (Some root, o8) \<Rightarrow>
    let listed = (if hasIndex then unat cells * unat offsetSize else 0)
    in if length data < o8 + listed then None
       else
    let offset = o8 + listed;
        tail = (if hasCrc then 4 else 0)
    in if length data \<noteq> offset + (unat width + tail) then None
       else case ParseCells data offset (offset + unat width) (unat cells) refSize of
         None \<Rightarrow> None
       | Some parsed \<Rightarrow>
           Some \<lparr>pb_data = data, pb_cells = parsed, pb_refSize = refSize,
                 pb_root = sint (ucast root :: 32 word), pb_hasCrc = hasCrc\<rparr>)
       | _ \<Rightarrow> None)"

definition overwrite :: "nat \<Rightarrow> bytes \<Rightarrow> bytes \<Rightarrow> bytes" where
  "overwrite from new data = take from data @ new @ drop (from + length new) data"

text \<open>The empty QString is the empty list.\<close>

definition BreakRotationSignature :: "boc_env \<Rightarrow> qstring \<Rightarrow> qstring" where
  "BreakRotationSignature E bocBase64 =
    (case ParseBoc E bocBase64 of
       None \<Rightarrow> []
     | Some parsed \<Rightarrow>
         let index = FindRequest (pb_data parsed) (pb_cells parsed)
         in if index < 0 then []
            else
              let data = overwrite (c_dataFrom (pb_cells parsed ! nat index)) (be_random E kSignatureBytes)
                           (pb_data parsed);
                  data = (if pb_hasCrc parsed
                          then let till = length data - 4
                               in overwrite till (le_bytes 4 (Crc32c data till)) data
                          else data)
              in be_toBase64 E data)"

text \<open>The walk along the comment's cells; \<open>steps\<close> rounds of the loop are left.\<close>

fun comment_loop ::
  "boc_env \<Rightarrow> parsed_boc \<Rightarrow> nat \<Rightarrow> bool \<Rightarrow> int \<Rightarrow> bool list \<Rightarrow> bytes \<Rightarrow> qstring option" where
  "comment_loop E parsed 0 start index visited bytes = None"
| "comment_loop E parsed (Suc steps) start index visited bytes =
    (let data = pb_data parsed; cells = pb_cells parsed
     in if index < 0 \<or> index \<ge> int (length cells) \<or> visited ! nat index then None
        else
          let visited = visited[nat index := True];
              c = cells ! nat index
          in if \<not> c_wholeBytes c \<or> c_refs c > 1 then None
             else if start \<and> (c_dataSize c < 4 \<or> ReadOpcode data (c_dataFrom c) \<noteq> 0) then None
             else
               let from = (if start then c_dataFrom c + 4 else c_dataFrom c);
                   width = (if start then c_dataSize c - 4 else c_dataSize c);
                   bytes = bytes @ take width (drop from data)
               in if c_refs c = 0 then
                    (let text = be_fromUtf8 E bytes in if be_toUtf8 E text \<noteq> bytes then None else Some text)
                  else case ReadNumber data (c_refsFrom c) (pb_refSize parsed) of
                      (None, _) \<Rightarrow> None
                    | (Some next, _) \<Rightarrow>
                        if unat next \<ge> length cells then None
                        else comment_loop E parsed steps False (int (unat next)) visited bytes)"

definition TextCommentFromBoc :: "boc_env \<Rightarrow> qstring \<Rightarrow> qstring option" where
  "TextCommentFromBoc E bocBase64 =
    (case ParseBoc E bocBase64 of
       None \<Rightarrow> None
     | Some parsed \<Rightarrow>
         comment_loop E parsed kMaxCells True (pb_root parsed)
           (replicate (length (pb_cells parsed)) False) [])"


section \<open>The header\<close>

text \<open>The reads and tests that a parsed bag has passed, in the order of the code.\<close>

definition boc_header ::
  "bytes \<Rightarrow> u64 \<Rightarrow> u64 \<Rightarrow> u64 \<Rightarrow> u64 \<Rightarrow> u64 \<Rightarrow> nat \<Rightarrow> bool" where
  "boc_header data flags offsetSize cells csize root offset \<longleftrightarrow>
    (\<exists>o1 o2 o3 o4 o5 o6 o7.
      ReadNumber data 0 4 = (Some (ucast kBocMagic), o1) \<and>
      ReadNumber data o1 1 = (Some flags, o2) \<and>
      flags AND 0x20 = 0 \<and> \<not> unat (flags AND 0x07) < 1 \<and> \<not> unat (flags AND 0x07) > 4 \<and>
      ReadNumber data o2 1 = (Some offsetSize, o3) \<and> \<not> unat offsetSize < 1 \<and> \<not> unat offsetSize > 8 \<and>
      ReadNumber data o3 (unat (flags AND 0x07)) = (Some cells, o4) \<and>
      ReadNumber data o4 (unat (flags AND 0x07)) = (Some 1, o5) \<and>
      ReadNumber data o5 (unat (flags AND 0x07)) = (Some 0, o6) \<and>
      ReadNumber data o6 (unat offsetSize) = (Some csize, o7) \<and>
      \<not> cells < 1 \<and> \<not> unat cells > kMaxCells \<and> \<not> unat csize > kMaxBytes \<and>
      ReadNumber data o7 (unat (flags AND 0x07)) = (Some root, offset))"

definition listed_size :: "u64 \<Rightarrow> u64 \<Rightarrow> u64 \<Rightarrow> nat" where
  "listed_size flags cells offsetSize = (if flags AND 0x80 \<noteq> 0 then unat cells * unat offsetSize else 0)"

definition tail_size :: "u64 \<Rightarrow> nat" where
  "tail_size flags = (if flags AND 0x40 \<noteq> 0 then 4 else 0)"

definition boc_ok :: "bytes \<Rightarrow> parsed_boc \<Rightarrow> bool" where
  "boc_ok data p \<longleftrightarrow>
    (\<exists>flags offsetSize cells csize root offset.
      data \<noteq> [] \<and> length data \<le> kMaxBytes \<and>
      boc_header data flags offsetSize cells csize root offset \<and>
      length data = offset + listed_size flags cells offsetSize + (unat csize + tail_size flags) \<and>
      ParseCells data (offset + listed_size flags cells offsetSize)
        (offset + listed_size flags cells offsetSize + unat csize) (unat cells) (unat (flags AND 0x07))
        = Some (pb_cells p) \<and>
      p = \<lparr>pb_data = data, pb_cells = pb_cells p, pb_refSize = unat (flags AND 0x07),
           pb_root = sint (ucast root :: 32 word), pb_hasCrc = (flags AND 0x40 \<noteq> 0)\<rparr>)"

lemma ParseBoc_sound:
  assumes "ParseBoc E q = Some p"
  shows "boc_ok (be_fromBase64 E q) p"
proof -
  define data where "data = be_fromBase64 E q"
  obtain magic o1 where 1: "ReadNumber data 0 4 = (magic, o1)" by fastforce
  obtain fl o2 where 2: "ReadNumber data o1 1 = (fl, o2)" by fastforce
  have m: "data \<noteq> []" "length data \<le> kMaxBytes" "magic = Some (ucast kBocMagic)" "\<exists>flags. fl = Some flags"
    using assms unfolding ParseBoc_def data_def [symmetric] Let_def 1 2 prod.case
    by (auto split: if_splits option.splits)
  then obtain flags where fl: "fl = Some flags" by blast
  let ?w = "unat (flags AND 0x07)"
  obtain os o3 where 3: "ReadNumber data o2 1 = (os, o3)" by fastforce
  have fl_ok: "flags AND 0x20 = 0" "\<not> ?w < 1" "\<not> ?w > 4" "\<exists>offsetSize. os = Some offsetSize"
    using assms unfolding ParseBoc_def data_def [symmetric] Let_def 1 2 3 prod.case m(3) fl option.case
    by (auto split: if_splits option.splits)
  then obtain offsetSize where os: "os = Some offsetSize" by blast
  obtain cs o4 rs o5 ab o6 sz o7 rt offset where
    r: "ReadNumber data o3 ?w = (cs, o4)" "ReadNumber data o4 ?w = (rs, o5)" "ReadNumber data o5 ?w = (ab, o6)"
      "ReadNumber data o6 (unat offsetSize) = (sz, o7)" "ReadNumber data o7 ?w = (rt, offset)"
    by (metis surj_pair)
  note head = assms [unfolded ParseBoc_def data_def [symmetric] Let_def 1 2 3 r prod.case m(3) fl os option.case]
  obtain cells csize root where some: "cs = Some cells" "rs = Some 1" "ab = Some 0" "sz = Some csize" "rt = Some root"
    and sizes: "\<not> unat offsetSize < 1" "\<not> unat offsetSize > 8" "\<not> cells < 1" "\<not> unat cells > kMaxCells"
      "\<not> unat csize > kMaxBytes"
    using head by (auto split: if_splits option.splits)
  have cells_read: "length data = offset + listed_size flags cells offsetSize + (unat csize + tail_size flags)"
    "ParseCells data (offset + listed_size flags cells offsetSize)
        (offset + listed_size flags cells offsetSize + unat csize) (unat cells) ?w = Some (pb_cells p)"
    "p = \<lparr>pb_data = data, pb_cells = pb_cells p, pb_refSize = ?w,
           pb_root = sint (ucast root :: 32 word), pb_hasCrc = (flags AND 0x40 \<noteq> 0)\<rparr>"
    using head unfolding some prod.case option.case listed_size_def tail_size_def
    by (auto split: if_splits option.splits)
  have "boc_header data flags offsetSize cells csize root offset"
    unfolding boc_header_def
    by (rule exI [of _ o1], rule exI [of _ o2], rule exI [of _ o3], rule exI [of _ o4],
        rule exI [of _ o5], rule exI [of _ o6], rule exI [of _ o7])
      (use 1 2 3 r m(3) fl os some fl_ok(1-3) sizes in \<open>simp only: simp_thms\<close>)
  then have "boc_ok data p"
    unfolding boc_ok_def using m(1,2) cells_read by blast
  then show ?thesis by (simp add: data_def)
qed

lemma ParseBoc_complete:
  assumes "boc_ok (be_fromBase64 E q) p"
  shows "ParseBoc E q = Some p"
proof -
  define data where "data = be_fromBase64 E q"
  from assms [folded data_def] obtain flags offsetSize cells csize root offset o1 o2 o3 o4 o5 o6 o7 where
     a: "data \<noteq> []" "length data \<le> kMaxBytes"
      "length data = offset + listed_size flags cells offsetSize + (unat csize + tail_size flags)"
      "ParseCells data (offset + listed_size flags cells offsetSize)
        (offset + listed_size flags cells offsetSize + unat csize) (unat cells) (unat (flags AND 0x07))
        = Some (pb_cells p)"
     and p: "p = \<lparr>pb_data = data, pb_cells = pb_cells p, pb_refSize = unat (flags AND 0x07),
           pb_root = sint (ucast root :: 32 word), pb_hasCrc = (flags AND 0x40 \<noteq> 0)\<rparr>"
     and r: "ReadNumber data 0 4 = (Some (ucast kBocMagic), o1)"
      "ReadNumber data o1 1 = (Some flags, o2)"
      "ReadNumber data o2 1 = (Some offsetSize, o3)"
      "ReadNumber data o3 (unat (flags AND 0x07)) = (Some cells, o4)"
      "ReadNumber data o4 (unat (flags AND 0x07)) = (Some 1, o5)"
      "ReadNumber data o5 (unat (flags AND 0x07)) = (Some 0, o6)"
      "ReadNumber data o6 (unat offsetSize) = (Some csize, o7)"
      "ReadNumber data o7 (unat (flags AND 0x07)) = (Some root, offset)"
     and c: "flags AND 0x20 = 0" "\<not> unat (flags AND 0x07) < 1" "\<not> unat (flags AND 0x07) > 4"
      "\<not> unat offsetSize < 1" "\<not> unat offsetSize > 8"
      "\<not> cells < 1" "\<not> unat cells > kMaxCells" "\<not> unat csize > kMaxBytes"
    unfolding boc_ok_def boc_header_def by blast
  have room: "\<not> length data < offset + listed_size flags cells offsetSize" using a(3) by linarith
  note e = a(4)[unfolded listed_size_def] a(3)[unfolded listed_size_def tail_size_def, symmetric]
    room [unfolded listed_size_def]
  show ?thesis
    unfolding ParseBoc_def data_def [symmetric] Let_def
    by (subst p) (simp only: r c a(1) e prod.case option.case if_False if_True simp_thms
        a(2) [folded not_less])
qed


section \<open>What the readers look at\<close>

definition agree_on :: "nat set \<Rightarrow> bytes \<Rightarrow> bytes \<Rightarrow> bool" where
  "agree_on S data data' \<longleftrightarrow> length data' = length data \<and> (\<forall>i \<in> S. data' ! i = data ! i)"

lemma agree_on_subset: "agree_on S data data' \<Longrightarrow> T \<subseteq> S \<Longrightarrow> agree_on T data data'"
  by (auto simp: agree_on_def)

lemma agree_on_slice:
  assumes "agree_on {o1..<o1 + n} data data'" and "o1 + n \<le> length data"
  shows "take n (drop o1 data') = take n (drop o1 data)"
  using assms by (intro nth_equalityI) (auto simp: agree_on_def)

lemma ReadNumber_Some:
  "ReadNumber data o1 n = (Some v, o2) \<longleftrightarrow>
    1 \<le> n \<and> n \<le> 8 \<and> o2 = o1 + n \<and> o2 \<le> length data \<and> v = be_value (take n (drop o1 data))"
  by (auto simp: ReadNumber_def)

lemma ReadNumber_agree:
  assumes "ReadNumber data o1 n = (Some v, o2)" and "agree_on {o1..<o2} data data'"
  shows "ReadNumber data' o1 n = (Some v, o2)"
  using assms agree_on_slice [of o1 n data data'] by (auto simp: ReadNumber_Some agree_on_def)

lemma boc_header_agree:
  assumes "boc_header data flags offsetSize cells csize root offset" and "agree_on {..<offset} data data'"
  shows "boc_header data' flags offsetSize cells csize root offset"
proof -
  have step: "ReadNumber data o1 n = (Some v, o2) \<Longrightarrow> o2 \<le> offset \<Longrightarrow> ReadNumber data' o1 n = (Some v, o2)"
    for o1 n v o2
    by (rule ReadNumber_agree) (auto intro: agree_on_subset [OF assms(2)])
  have mono: "ReadNumber data o1 n = (Some v, o2) \<Longrightarrow> o1 \<le> o2" for o1 n v o2
    by (simp add: ReadNumber_Some)
  from assms(1) obtain o1 o2 o3 o4 o5 o6 o7 where
    r: "ReadNumber data 0 4 = (Some (ucast kBocMagic), o1)" "ReadNumber data o1 1 = (Some flags, o2)"
      "ReadNumber data o2 1 = (Some offsetSize, o3)" "ReadNumber data o3 (unat (flags AND 0x07)) = (Some cells, o4)"
      "ReadNumber data o4 (unat (flags AND 0x07)) = (Some 1, o5)"
      "ReadNumber data o5 (unat (flags AND 0x07)) = (Some 0, o6)"
      "ReadNumber data o6 (unat offsetSize) = (Some csize, o7)"
      "ReadNumber data o7 (unat (flags AND 0x07)) = (Some root, offset)"
    and c: "flags AND 0x20 = 0" "\<not> unat (flags AND 0x07) < 1" "\<not> unat (flags AND 0x07) > 4"
      "\<not> unat offsetSize < 1" "\<not> unat offsetSize > 8" "\<not> cells < 1" "\<not> unat cells > kMaxCells"
      "\<not> unat csize > kMaxBytes"
    unfolding boc_header_def by blast
  have "o1 \<le> offset" "o2 \<le> offset" "o3 \<le> offset" "o4 \<le> offset" "o5 \<le> offset" "o6 \<le> offset" "o7 \<le> offset"
    using r [THEN mono] by linarith+
  show ?thesis
    unfolding boc_header_def
    by (rule exI [of _ o1], rule exI [of _ o2], rule exI [of _ o3], rule exI [of _ o4],
        rule exI [of _ o5], rule exI [of _ o6], rule exI [of _ o7])
      (simp only: c simp_thms r [THEN step] \<open>o1 \<le> offset\<close> \<open>o2 \<le> offset\<close> \<open>o3 \<le> offset\<close> \<open>o4 \<le> offset\<close>
        \<open>o5 \<le> offset\<close> \<open>o6 \<le> offset\<close> \<open>o7 \<le> offset\<close> order_refl)
qed

lemma boc_header_bound: "boc_header data flags offsetSize cells csize root offset \<Longrightarrow> offset \<le> length data"
  by (auto simp: boc_header_def ReadNumber_Some)

lemma parse_cells_loop_Suc:
  "parse_cells_loop data till w (Suc n) o1 = Some (cs, e) \<longleftrightarrow>
    (\<exists>c cs'. cs = c # cs' \<and> o1 + 2 \<le> till \<and> data ! o1 AND 0xF8 = 0 \<and> c_refs c \<le> 4 \<and>
      c_refs c = unat (data ! o1 AND 0x07) \<and> c_dataFrom c = o1 + 2 \<and>
      c_dataSize c = unat (drop_bit 1 (data ! (o1 + 1))) + unat (data ! (o1 + 1) AND 0x01) \<and>
      c_refsFrom c = c_dataFrom c + c_dataSize c \<and> c_wholeBytes c = (data ! (o1 + 1) AND 0x01 = 0) \<and>
      c_refsFrom c + c_refs c * w \<le> till \<and>
      parse_cells_loop data till w n (c_refsFrom c + c_refs c * w) = Some (cs', e))"
  by (auto simp: Let_def not_less split: option.splits)

declare parse_cells_loop.simps(2) [simp del]

text \<open>Cells follow one another: descriptors, data, references, the next cell.\<close>

lemma parse_cells_loop_bounds:
  assumes "parse_cells_loop data till w n o1 = Some (cs, e)" and "o1 \<le> till"
  shows "o1 \<le> e \<and> e \<le> till \<and> length cs = n \<and>
    (\<forall>c \<in> set cs. o1 + 2 \<le> c_dataFrom c \<and> c_refsFrom c = c_dataFrom c + c_dataSize c \<and>
      c_refs c \<le> 4 \<and> c_refsFrom c + c_refs c * w \<le> e)"
  using assms
proof (induction n arbitrary: o1 cs)
  case 0
  then show ?case by simp
next
  case (Suc n)
  then obtain c cs' where c: "cs = c # cs'" "c_refs c \<le> 4" "c_dataFrom c = o1 + 2"
    "c_refsFrom c = c_dataFrom c + c_dataSize c" "c_refsFrom c + c_refs c * w \<le> till"
    "parse_cells_loop data till w n (c_refsFrom c + c_refs c * w) = Some (cs', e)"
    by (auto simp: parse_cells_loop_Suc)
  from Suc.IH [OF c(6,5)] c show ?case by auto
qed

lemma parse_cells_loop_agree:
  assumes "parse_cells_loop data till w n o1 = Some (cs, e)" and "agree_on {o1..<till} data data'"
  shows "parse_cells_loop data' till w n o1 = Some (cs, e)"
  using assms
proof (induction n arbitrary: o1 cs)
  case 0
  then show ?case by simp
next
  case (Suc n)
  from Suc.prems(1) obtain c cs' where c: "cs = c # cs'"
    "parse_cells_loop data till w n (c_refsFrom c + c_refs c * w) = Some (cs', e)"
    and from_le: "o1 \<le> c_refsFrom c + c_refs c * w" "o1 + 2 \<le> till"
    by (auto simp: parse_cells_loop_Suc)
  have "agree_on {c_refsFrom c + c_refs c * w..<till} data data'"
    using Suc.prems(2) by (rule agree_on_subset) (use from_le in auto)
  moreover have "data' ! o1 = data ! o1" "data' ! (o1 + 1) = data ! (o1 + 1)"
    using Suc.prems(2) from_le(2) by (auto simp: agree_on_def)
  ultimately show ?case
    using Suc.prems(1) Suc.IH [OF c(2)] c(1) by (auto simp: parse_cells_loop_Suc)
qed

text \<open>The data bytes of a cell are not read by the cell parser.\<close>

lemma parse_cells_loop_data_irrelevant:
  assumes "parse_cells_loop data till w n o1 = Some (cs, e)" and "o1 \<le> till" and "d \<in> set cs"
    and "agree_on ({o1..<till} - {c_dataFrom d..<c_refsFrom d}) data data'"
  shows "parse_cells_loop data' till w n o1 = Some (cs, e)"
  using assms
proof (induction n arbitrary: o1 cs)
  case 0
  then show ?case by simp
next
  case (Suc n)
  from Suc.prems(1) obtain c cs' where c: "cs = c # cs'" "c_dataFrom c = o1 + 2"
    "c_refsFrom c = c_dataFrom c + c_dataSize c" "c_refsFrom c + c_refs c * w \<le> till"
    "parse_cells_loop data till w n (c_refsFrom c + c_refs c * w) = Some (cs', e)"
    by (auto simp: parse_cells_loop_Suc)
  let ?next = "c_refsFrom c + c_refs c * w"
  have d_from: "o1 + 2 \<le> c_dataFrom d"
    using parse_cells_loop_bounds [OF Suc.prems(1,2)] Suc.prems(3) by blast
  have same: "data' ! o1 = data ! o1" "data' ! (o1 + 1) = data ! (o1 + 1)"
    using Suc.prems(4) d_from c(2-4) by (auto simp: agree_on_def)
  have "parse_cells_loop data' till w n ?next = Some (cs', e)"
  proof (cases "d \<in> set cs'")
    case True
    have "agree_on ({?next..<till} - {c_dataFrom d..<c_refsFrom d}) data data'"
      using Suc.prems(4) by (rule agree_on_subset) (use c in auto)
    then show ?thesis using Suc.IH [OF c(5,4) True] by simp
  next
    case False
    then have "d = c" using Suc.prems(3) c(1) by simp
    have "agree_on {?next..<till} data data'"
      using Suc.prems(4) by (rule agree_on_subset) (use c \<open>d = c\<close> in auto)
    then show ?thesis using parse_cells_loop_agree [OF c(5)] by simp
  qed
  then show ?case
    using Suc.prems(1) c(1) same by (auto simp: parse_cells_loop_Suc)
qed

section \<open>The request\<close>

lemma find_request_loop_found:
  "0 \<le> r \<Longrightarrow> find_request_loop data cells i r = (if \<exists>c \<in> set cells. is_request data c then -1 else r)"
  by (induction cells arbitrary: i) auto

lemma find_request_loop_spec:
  "find_request_loop data cells (int i) (-1) =
    (case filter (\<lambda>j. is_request data (cells ! j)) [0..<length cells] of [j] \<Rightarrow> int (i + j) | _ \<Rightarrow> -1)"
proof (induction cells arbitrary: i)
  case Nil
  then show ?case by simp
next
  case (Cons c cells)
  have "filter (\<lambda>j. is_request data ((c # cells) ! j)) [0..<length (c # cells)] =
      (if is_request data c then [0] else []) @
      map Suc (filter (\<lambda>j. is_request data (cells ! j)) [0..<length cells])"
    by (simp add: upt_conv_Cons filter_map comp_def del: upt_Suc flip: map_Suc_upt)
  moreover have "(\<exists>c \<in> set cells. is_request data c) \<longleftrightarrow>
      filter (\<lambda>j. is_request data (cells ! j)) [0..<length cells] \<noteq> []"
    unfolding filter_empty_conv set_upt atLeast0LessThan lessThan_iff Bex_def by (metis in_set_conv_nth lessThan_iff)
  ultimately show ?case
    using Cons.IH [of "i + 1"]
    by (auto simp: find_request_loop_found add.commute split: list.splits)
qed


lemma FindRequest_nonneg:
  assumes "0 \<le> FindRequest data cells"
  obtains j where "FindRequest data cells = int j" "j < length cells" "is_request data (cells ! j)"
proof -
  have "FindRequest data cells =
    (case filter (\<lambda>j. is_request data (cells ! j)) [0..<length cells] of [j] \<Rightarrow> int j | _ \<Rightarrow> -1)"
    using find_request_loop_spec [of data cells 0, unfolded add_0 of_nat_0] by (simp only: FindRequest_def semiring_1_class.of_nat_0)
  with assms obtain j where
    one: "filter (\<lambda>j. is_request data (cells ! j)) [0..<length cells] = [j]" and eq: "FindRequest data cells = int j"
    by (auto split: list.splits)
  have "j \<in> set (filter (\<lambda>j. is_request data (cells ! j)) [0..<length cells])" by (simp only: one) simp
  then have "j < length cells" "is_request data (cells ! j)" by simp_all
  then show thesis using that eq by blast
qed

section \<open>Overwriting\<close>

lemma length_overwrite: "o1 + length new \<le> length data \<Longrightarrow> length (overwrite o1 new data) = length data"
  by (simp add: overwrite_def)

lemma overwrite_agree:
  "o1 + length new \<le> length data \<Longrightarrow> agree_on ({..<length data} - {o1..<o1 + length new}) data (overwrite o1 new data)"
  by (auto simp: agree_on_def overwrite_def nth_append min_def)

lemma overwrite_there:
  "o1 + length new \<le> length data \<Longrightarrow> take (length new) (drop o1 (overwrite o1 new data)) = new"
  by (simp add: overwrite_def)

lemma agree_on_trans:
  "agree_on S data data' \<Longrightarrow> agree_on T data' data'' \<Longrightarrow> agree_on (S \<inter> T) data data''"
  by (auto simp: agree_on_def)

text \<open>A bag whose data bytes of one cell, and whose trailing checksum, have changed.\<close>

lemma boc_ok_changed:
  assumes "boc_ok data p" and "d \<in> set (pb_cells p)"
    and "agree_on ({..<length data - (if pb_hasCrc p then 4 else 0)} - {c_dataFrom d..<c_refsFrom d}) data data'"
  shows "boc_ok data' (p\<lparr>pb_data := data'\<rparr>)"
    and "c_refsFrom d \<le> length data - (if pb_hasCrc p then 4 else 0)"
    and "c_refsFrom d = c_dataFrom d + c_dataSize d" and "pb_hasCrc p \<longrightarrow> 4 \<le> length data"
proof -
  from assms(1) obtain flags offsetSize cells csize root offset where
    a: "data \<noteq> []" "length data \<le> kMaxBytes" "boc_header data flags offsetSize cells csize root offset"
      "length data = offset + listed_size flags cells offsetSize + (unat csize + tail_size flags)"
    and pc: "ParseCells data (offset + listed_size flags cells offsetSize)
        (offset + listed_size flags cells offsetSize + unat csize) (unat cells) (unat (flags AND 0x07))
        = Some (pb_cells p)"
    and p: "p = \<lparr>pb_data = data, pb_cells = pb_cells p, pb_refSize = unat (flags AND 0x07),
           pb_root = sint (ucast root :: 32 word), pb_hasCrc = (flags AND 0x40 \<noteq> 0)\<rparr>"
    unfolding boc_ok_def by blast
  define o1 where "o1 = offset + listed_size flags cells offsetSize"
  let ?till = "o1 + unat csize" and ?w = "unat (flags AND 0x07)"
  have crc: "pb_hasCrc p = (flags AND 0x40 \<noteq> 0)" by (subst p) simp
  then have till: "?till = length data - (if pb_hasCrc p then 4 else 0)"
    and tail: "pb_hasCrc p \<longrightarrow> 4 \<le> length data"
    using a(4) by (simp_all add: tail_size_def o1_def)
  have loop: "parse_cells_loop data ?till ?w (unat cells) o1 = Some (pb_cells p, ?till)"
    using pc by (auto simp: ParseCells_def o1_def split: option.splits prod.splits if_splits)
  have d: "o1 + 2 \<le> c_dataFrom d" "c_refsFrom d = c_dataFrom d + c_dataSize d" "c_refsFrom d \<le> ?till"
    using parse_cells_loop_bounds [OF loop] assms(2) by (auto dest: bspec)
  then show "c_refsFrom d \<le> length data - (if pb_hasCrc p then 4 else 0)"
    and "c_refsFrom d = c_dataFrom d + c_dataSize d" using till by simp_all
  show "pb_hasCrc p \<longrightarrow> 4 \<le> length data" by (rule tail)
  have "agree_on ({o1..<?till} - {c_dataFrom d..<c_refsFrom d}) data data'"
    using assms(3) by (rule agree_on_subset) (use till in auto)
  then have "parse_cells_loop data' ?till ?w (unat cells) o1 = Some (pb_cells p, ?till)"
    using parse_cells_loop_data_irrelevant [OF loop _ assms(2)] by simp
  then have pc': "ParseCells data' o1 ?till (unat cells) ?w = Some (pb_cells p)"
    by (simp add: ParseCells_def)
  have "offset \<le> o1" "o1 \<le> ?till" by (simp_all add: o1_def)
  then have "agree_on {..<offset} data data'"
    using d(1) by (intro agree_on_subset [OF assms(3)]) (auto simp flip: till)
  then have "boc_header data' flags offsetSize cells csize root offset"
    by (rule boc_header_agree [OF a(3)])
  moreover have len: "length data' = length data" using assms(3) by (simp add: agree_on_def)
  moreover have p': "p\<lparr>pb_data := data'\<rparr> = \<lparr>pb_data = data', pb_cells = pb_cells p,
      pb_refSize = ?w, pb_root = sint (ucast root :: 32 word), pb_hasCrc = (flags AND 0x40 \<noteq> 0)\<rparr>"
    by (subst p) simp
  moreover have "data' \<noteq> []" using len a(1) by auto
  ultimately show "boc_ok data' (p\<lparr>pb_data := data'\<rparr>)"
    unfolding boc_ok_def p' parsed_boc.select_convs
    using a(2,4) pc' [unfolded o1_def] by (intro exI [of _ root] exI conjI; (assumption | simp))
qed


lemma parse_cells_loop_ordered:
  assumes "parse_cells_loop data till w n o1 = Some (cs, e)" and "o1 \<le> till"
  shows "sorted_wrt (\<lambda>c d. c_refsFrom c \<le> c_dataFrom d) cs"
  using assms
proof (induction n arbitrary: o1 cs)
  case 0
  then show ?case by simp
next
  case (Suc n)
  then obtain c cs' where c: "cs = c # cs'" "c_refsFrom c + c_refs c * w \<le> till"
    "parse_cells_loop data till w n (c_refsFrom c + c_refs c * w) = Some (cs', e)"
    by (auto simp: parse_cells_loop_Suc)
  from parse_cells_loop_bounds [OF c(3,2)] Suc.IH [OF c(3,2)] c(1) show ?case by fastforce
qed

text \<open>The facts of a parsed bag that its users need.\<close>

lemma boc_ok_cells:
  assumes "boc_ok data p"
  shows "pb_data p = data" and "length (pb_cells p) \<le> kMaxCells"
    and "sorted_wrt (\<lambda>c d. c_refsFrom c \<le> c_dataFrom d) (pb_cells p)"
proof -
  from assms obtain flags offsetSize cells csize root offset where
    head: "boc_header data flags offsetSize cells csize root offset"
    and pc: "ParseCells data (offset + listed_size flags cells offsetSize)
        (offset + listed_size flags cells offsetSize + unat csize) (unat cells) (unat (flags AND 0x07))
        = Some (pb_cells p)"
    and p: "p = \<lparr>pb_data = data, pb_cells = pb_cells p, pb_refSize = unat (flags AND 0x07),
           pb_root = sint (ucast root :: 32 word), pb_hasCrc = (flags AND 0x40 \<noteq> 0)\<rparr>"
    unfolding boc_ok_def by blast
  have n: "unat cells \<le> kMaxCells" using head by (auto simp: boc_header_def)
  define o1 where "o1 = offset + listed_size flags cells offsetSize"
  have loop: "parse_cells_loop data (o1 + unat (csize :: u64)) (unat (flags AND 0x07)) (unat cells) o1
      = Some (pb_cells p, o1 + unat csize)"
    using pc by (auto simp: ParseCells_def o1_def split: option.splits prod.splits if_splits)
  show "pb_data p = data" by (subst p) simp
  show "length (pb_cells p) \<le> kMaxCells" using parse_cells_loop_bounds [OF loop] n by simp
  show "sorted_wrt (\<lambda>c d. c_refsFrom c \<le> c_dataFrom d) (pb_cells p)"
    by (rule parse_cells_loop_ordered [OF loop]) simp
qed

lemma ReadOpcode_agree:
  "agree_on {o1..<o1 + 4} data data' \<Longrightarrow> o1 + 4 \<le> length data \<Longrightarrow> ReadOpcode data' o1 = ReadOpcode data o1"
  by (simp add: ReadOpcode_def agree_on_slice)

text \<open>Replacing the signature of one request changes no cell's status as a request.\<close>

lemma is_request_changed:
  assumes ok: "boc_ok data p" and j: "j < length (pb_cells p)" and k: "k < length (pb_cells p)"
    and agree: "agree_on ({..<length data - (if pb_hasCrc p then 4 else 0)} -
      {c_dataFrom (pb_cells p ! j)..<c_dataFrom (pb_cells p ! j) + kSignatureBytes}) data data'"
    and req: "c_dataSize (pb_cells p ! j) = kRequestBytes"
  shows "is_request data' (pb_cells p ! k) \<longleftrightarrow> is_request data (pb_cells p ! k)"
proof (cases "c_dataSize (pb_cells p ! k) = kRequestBytes")
  case False
  then show ?thesis by (simp add: is_request_def)
next
  case True
  let ?c = "pb_cells p ! j" and ?d = "pb_cells p ! k"
  let ?lim = "length data - (if pb_hasCrc p then 4 else 0)"
  have mem: "?c \<in> set (pb_cells p)" "?d \<in> set (pb_cells p)" using j k by simp_all
  have "agree_on ({..<?lim} - {c_dataFrom x..<c_refsFrom x}) data data" for x by (simp add: agree_on_def)
  note bounds = boc_ok_changed(2,3) [OF ok mem(1) this] boc_ok_changed(2,3) [OF ok mem(2) this]
  have apart: "j = k \<or> c_refsFrom ?c \<le> c_dataFrom ?d \<or> c_refsFrom ?d \<le> c_dataFrom ?c"
    using boc_ok_cells(3) [OF ok] j k by (metis linorder_neqE_nat sorted_wrt_nth_less)
  let ?o = "c_dataFrom ?d + kSignatureBytes"
  have "{?o..<?o + 4} \<subseteq> {..<?lim} - {c_dataFrom ?c..<c_dataFrom ?c + kSignatureBytes}"
    using apart bounds True req by (auto simp: kRequestBytes_def)
  then have "agree_on {?o..<?o + 4} data data'" using agree by (rule agree_on_subset [rotated])
  then have "ReadOpcode data' ?o = ReadOpcode data ?o"
    using bounds True by (intro ReadOpcode_agree) (auto simp: kRequestBytes_def)
  then show ?thesis by (simp add: is_request_def)
qed

lemma FindRequest_cong:
  "(\<And>k. k < length cells \<Longrightarrow> is_request data' (cells ! k) = is_request data (cells ! k)) \<Longrightarrow>
    FindRequest data' cells = FindRequest data cells"
proof -
  assume same: "\<And>k. k < length cells \<Longrightarrow> is_request data' (cells ! k) = is_request data (cells ! k)"
  have "find_request_loop data' cs i r = find_request_loop data cs i r"
    if "\<forall>c \<in> set cs. is_request data' c = is_request data c" for cs i r
    using that by (induction cs arbitrary: i r) auto
  moreover have "\<forall>c \<in> set cells. is_request data' c = is_request data c"
    using same by (metis in_set_conv_nth)
  ultimately show ?thesis by (simp add: FindRequest_def)
qed

text \<open>The bytes that leave \<open>BreakRotationSignature\<close>.\<close>

definition broken_data :: "boc_env \<Rightarrow> parsed_boc \<Rightarrow> nat \<Rightarrow> bytes" where
  "broken_data E p j =
    (let data = overwrite (c_dataFrom (pb_cells p ! j)) (be_random E kSignatureBytes) (pb_data p)
     in if pb_hasCrc p
        then overwrite (length data - 4) (le_bytes 4 (Crc32c data (length data - 4))) data
        else data)"

lemma BreakRotationSignature_eq:
  assumes "ParseBoc E q = Some p" and "FindRequest (pb_data p) (pb_cells p) = int j"
  shows "BreakRotationSignature E q = be_toBase64 E (broken_data E p j)"
  using assms by (simp add: BreakRotationSignature_def broken_data_def Let_def)

lemma broken_data_facts:
  assumes ok: "boc_ok data p" and j: "j < length (pb_cells p)" and req: "is_request data (pb_cells p ! j)"
    and random: "length (be_random E kSignatureBytes) = kSignatureBytes"
  defines "from \<equiv> c_dataFrom (pb_cells p ! j)" and "data' \<equiv> broken_data E p j"
  defines "lim \<equiv> length data - (if pb_hasCrc p then 4 else 0)"
  shows "agree_on ({..<lim} - {from..<from + kSignatureBytes}) data data'"
    and "take kSignatureBytes (drop from data') = be_random E kSignatureBytes"
    and "pb_hasCrc p \<Longrightarrow> drop lim data' = le_bytes 4 (Crc32c data' lim)"
    and "from + kSignatureBytes \<le> c_refsFrom (pb_cells p ! j)"
    and "c_refsFrom (pb_cells p ! j) \<le> lim"
proof -
  have mem: "pb_cells p ! j \<in> set (pb_cells p)" using j by simp
  have "agree_on ({..<lim} - {c_dataFrom x..<c_refsFrom x}) data data" for x by (simp add: agree_on_def)
  note bounds = boc_ok_changed(2-4) [OF ok mem this [unfolded lim_def], folded lim_def]
  have size: "c_dataSize (pb_cells p ! j) = kRequestBytes" using req by (simp add: is_request_def)
  then show le: "from + kSignatureBytes \<le> c_refsFrom (pb_cells p ! j)" "c_refsFrom (pb_cells p ! j) \<le> lim"
    using bounds by (simp_all add: from_def kRequestBytes_def)
  define d1 where "d1 = overwrite from (be_random E kSignatureBytes) data"
  have room: "from + length (be_random E kSignatureBytes) \<le> length data"
    using le random by (simp add: lim_def)
  have len: "length d1 = length data" using room by (simp add: d1_def length_overwrite)
  have pd: "pb_data p = data" by (rule boc_ok_cells [OF ok])
  have d': "data' = (if pb_hasCrc p then overwrite lim (le_bytes 4 (Crc32c d1 lim)) d1 else d1)"
    by (simp add: data'_def broken_data_def Let_def pd d1_def [symmetric] from_def [symmetric] len lim_def)
  have a1: "agree_on ({..<length data} - {from..<from + kSignatureBytes}) data d1"
    using overwrite_agree [OF room] random by (simp add: d1_def)
  have a2: "agree_on {..<lim} d1 data'"
  proof (cases "pb_hasCrc p")
    case True
    then have "lim + length (le_bytes 4 (Crc32c d1 lim)) = length d1" using bounds(3) len by (simp add: lim_def)
    from overwrite_agree [of "lim" "le_bytes 4 (Crc32c d1 lim)" d1] this show ?thesis
      using True by (auto simp: d' agree_on_def)
  next
    case False
    then show ?thesis by (simp add: d' agree_on_def)
  qed
  show "agree_on ({..<lim} - {from..<from + kSignatureBytes}) data data'"
    by (rule agree_on_subset [OF agree_on_trans [OF a1 a2]]) (auto simp: lim_def)
  have "take kSignatureBytes (drop from data') = take kSignatureBytes (drop from d1)"
    using a2 le len by (intro agree_on_slice) (auto simp: lim_def intro: agree_on_subset)
  then show "take kSignatureBytes (drop from data') = be_random E kSignatureBytes"
    using overwrite_there [OF room] random by (simp add: d1_def)
  assume crc: "pb_hasCrc p"
  then have e: "length d1 = lim + 4" using bounds(3) len by (simp add: lim_def)
  have "take lim data' = take lim d1"
    using agree_on_slice [of 0 "lim" d1 data'] a2 e by (simp add: atLeast0LessThan)
  then have "Crc32c data' lim = Crc32c d1 lim" by (simp add: Crc32c_def)
  moreover have "drop lim data' = le_bytes 4 (Crc32c d1 lim)"
    using crc e by (simp add: d' overwrite_def)
  ultimately show "drop lim data' = le_bytes 4 (Crc32c data' lim)" by simp
qed


section \<open>Comments\<close>

text \<open>
  The bytes a chain of cells spells, as a specification: every cell holds whole
  bytes, and the last one is the only one without a reference.
\<close>

definition cell_bytes :: "bytes \<Rightarrow> cell \<Rightarrow> bytes" where
  "cell_bytes data c = take (c_dataSize c) (drop (c_dataFrom c) data)"

inductive chain :: "parsed_boc \<Rightarrow> int \<Rightarrow> nat \<Rightarrow> bytes \<Rightarrow> bool" for p where
  chain_end: "0 \<le> i \<Longrightarrow> i < int (length (pb_cells p)) \<Longrightarrow> c = pb_cells p ! nat i \<Longrightarrow>
    c_wholeBytes c \<Longrightarrow> c_refs c = 0 \<Longrightarrow> chain p i 0 (cell_bytes (pb_data p) c)"
| chain_next: "0 \<le> i \<Longrightarrow> i < int (length (pb_cells p)) \<Longrightarrow> c = pb_cells p ! nat i \<Longrightarrow>
    c_wholeBytes c \<Longrightarrow> c_refs c = 1 \<Longrightarrow>
    ReadNumber (pb_data p) (c_refsFrom c) (pb_refSize p) = (Some k, o') \<Longrightarrow> unat k < length (pb_cells p) \<Longrightarrow>
    chain p (int (unat k)) n bs \<Longrightarrow> chain p i (Suc n) (cell_bytes (pb_data p) c @ bs)"

inductive_cases chain_cases: "chain p i n bs"

lemma chain_range: "chain p i n bs \<Longrightarrow> 0 \<le> i \<and> i < int (length (pb_cells p))"
  by (cases rule: chain.cases) auto

lemma chain_unique: "chain p i n bs \<Longrightarrow> chain p i m cs \<Longrightarrow> m = n \<and> cs = bs"
proof (induction arbitrary: m cs rule: chain.induct)
  case (chain_end i c)
  from chain_end.prems show ?case by (cases rule: chain.cases) (use chain_end.hyps in auto)
next
  case (chain_next i c k o' n bs)
  from chain_next.prems show ?case
  proof (cases rule: chain.cases)
    case chain_end
    then show ?thesis using chain_next.hyps by simp
  next
    case (chain_next c' k' o'' n' bs')
    with \<open>c = pb_cells p ! nat i\<close> \<open>ReadNumber (pb_data p) (c_refsFrom c) (pb_refSize p) = (Some k, o')\<close>
    have "k' = k" "c' = c" by simp_all
    with chain_next chain_next.IH show ?thesis by simp
  qed
qed


text \<open>The end of the walk, and the two ways one round can go.\<close>

definition decode_text :: "boc_env \<Rightarrow> bytes \<Rightarrow> qstring option" where
  "decode_text E bytes =
    (let text = be_fromUtf8 E bytes in if be_toUtf8 E text \<noteq> bytes then None else Some text)"

definition opens_comment :: "parsed_boc \<Rightarrow> int \<Rightarrow> bool" where
  "opens_comment p i \<longleftrightarrow>
    (let c = pb_cells p ! nat i in 4 \<le> c_dataSize c \<and> ReadOpcode (pb_data p) (c_dataFrom c) = 0)"

definition cells_inside :: "parsed_boc \<Rightarrow> bool" where
  "cells_inside p \<longleftrightarrow> (\<forall>c \<in> set (pb_cells p). c_dataFrom c + c_dataSize c \<le> length (pb_data p))"

definition round_part :: "bool \<Rightarrow> parsed_boc \<Rightarrow> int \<Rightarrow> bytes" where
  "round_part start p i =
    take (if start then c_dataSize (pb_cells p ! nat i) - 4 else c_dataSize (pb_cells p ! nat i))
      (drop (if start then c_dataFrom (pb_cells p ! nat i) + 4 else c_dataFrom (pb_cells p ! nat i)) (pb_data p))"

lemma comment_loop_Suc:
  "comment_loop E p (Suc steps) start i visited bytes =
    (if i < 0 \<or> i \<ge> int (length (pb_cells p)) \<or> visited ! nat i then None
     else if \<not> c_wholeBytes (pb_cells p ! nat i) \<or> c_refs (pb_cells p ! nat i) > 1 then None
     else if start \<and> \<not> opens_comment p i then None
     else if c_refs (pb_cells p ! nat i) = 0 then decode_text E (bytes @ round_part start p i)
     else case ReadNumber (pb_data p) (c_refsFrom (pb_cells p ! nat i)) (pb_refSize p) of
         (None, _) \<Rightarrow> None
       | (Some k, _) \<Rightarrow>
           if unat k \<ge> length (pb_cells p) then None
           else comment_loop E p steps False (int (unat k)) (visited[nat i := True])
             (bytes @ round_part start p i))"
  by (simp only: comment_loop.simps Let_def round_part_def opens_comment_def decode_text_def
      de_Morgan_conj not_le)

declare comment_loop.simps(2) [simp del]

lemma comment_loop_round:
  assumes "comment_loop E p (Suc steps) start i visited bytes = Some t"
  shows "0 \<le> i" "i < int (length (pb_cells p))" "c_wholeBytes (pb_cells p ! nat i)"
    "c_refs (pb_cells p ! nat i) \<le> 1" "start \<longrightarrow> opens_comment p i"
    "c_refs (pb_cells p ! nat i) = 0 \<Longrightarrow> decode_text E (bytes @ round_part start p i) = Some t"
    "c_refs (pb_cells p ! nat i) \<noteq> 0 \<Longrightarrow> \<exists>k o'.
      ReadNumber (pb_data p) (c_refsFrom (pb_cells p ! nat i)) (pb_refSize p) = (Some k, o') \<and>
      unat k < length (pb_cells p) \<and>
      comment_loop E p steps False (int (unat k)) (visited[nat i := True]) (bytes @ round_part start p i) = Some t"
  using assms unfolding comment_loop_Suc
  by (auto simp: not_le split: if_split_asm prod.splits option.splits)

lemma round_bytes:
  assumes "cells_inside p" and "0 \<le> i" and "i < int (length (pb_cells p))" and "start \<longrightarrow> opens_comment p i"
  shows "round_part start p i @ bs = (if start then drop 4 (cell_bytes (pb_data p) (pb_cells p ! nat i) @ bs)
       else cell_bytes (pb_data p) (pb_cells p ! nat i) @ bs)"
proof (cases start)
  case True
  have "pb_cells p ! nat i \<in> set (pb_cells p)" using assms(2,3) by simp
  then have "length (cell_bytes (pb_data p) (pb_cells p ! nat i)) = c_dataSize (pb_cells p ! nat i)"
    using assms(1) by (auto simp: cells_inside_def cell_bytes_def)
  then show ?thesis
    using True assms(4) by (simp add: round_part_def opens_comment_def Let_def cell_bytes_def drop_take add.commute)
next
  case False
  then show ?thesis by (simp add: round_part_def cell_bytes_def)
qed

lemma comment_loop_sound:
  assumes "comment_loop E p steps start i visited bytes = Some t" and "cells_inside p"
  shows "\<exists>n bs. chain p i n bs \<and> (start \<longrightarrow> opens_comment p i) \<and>
    decode_text E (bytes @ (if start then drop 4 bs else bs)) = Some t"
  using assms(1)
proof (induction steps arbitrary: start i visited bytes)
  case 0
  then show ?case by simp
next
  case (Suc steps)
  let ?c = "pb_cells p ! nat i"
  note r = comment_loop_round [OF Suc.prems]
  note bytes = round_bytes [OF assms(2) r(1,2,5)]
  show ?case
  proof (cases "c_refs ?c = 0")
    case True
    have "chain p i 0 (cell_bytes (pb_data p) ?c)"
      using r(1-3) True by (intro chain_end) auto
    moreover have "decode_text E (bytes @ (if start then drop 4 (cell_bytes (pb_data p) ?c)
        else cell_bytes (pb_data p) ?c)) = Some t"
      using bytes [of "[]"] r(6) [OF True] by (cases start) simp_all
    ultimately show ?thesis using r(5) by blast
  next
    case False
    then have one: "c_refs ?c = 1" using r(4) by simp
    from r(7) [OF False] obtain k o' where
      k: "ReadNumber (pb_data p) (c_refsFrom ?c) (pb_refSize p) = (Some k, o')" "unat k < length (pb_cells p)"
      and rest: "comment_loop E p steps False (int (unat k)) (visited[nat i := True])
        (bytes @ round_part start p i) = Some t"
      by blast
    from Suc.IH [OF rest] obtain n bs where n: "chain p (int (unat k)) n bs"
      and t: "decode_text E ((bytes @ round_part start p i) @ bs) = Some t" by auto
    have "chain p i (Suc n) (cell_bytes (pb_data p) ?c @ bs)"
      using r(1-3) one k n by (intro chain_next) auto
    moreover have "decode_text E (bytes @ (if start then drop 4 (cell_bytes (pb_data p) ?c @ bs)
        else cell_bytes (pb_data p) ?c @ bs)) = Some t"
      using bytes [of bs] t by (cases start) simp_all
    ultimately show ?thesis using r(5) by blast
  qed
qed

lemma mark_visited:
  assumes "j < length visited" and "\<not> visited ! j"
  shows "length (filter Not visited) = Suc (length (filter Not (visited[j := True])))"
proof -
  have "visited = take j visited @ False # drop (Suc j) visited"
    using id_take_nth_drop [OF assms(1)] assms(2) by simp
  from arg_cong [OF this, of "\<lambda>v. length (filter Not v)"]
  have "length (filter Not visited) = Suc (length (filter Not (take j visited @ drop (Suc j) visited)))"
    by (simp only: filter_append filter.simps length_append list.size simp_thms if_True add_Suc_right)
  then show ?thesis
    using assms(1) by (simp add: upd_conv_take_nth_drop)
qed

text \<open>
  A chain is followed to its end: a visited cell is never met again, because
  it would be further from the end than itself, and every round visits a new
  cell, so as many steps as there are unvisited cells are enough.
\<close>

lemma comment_loop_complete:
  assumes "chain p i n bs" and "cells_inside p" and "start \<longrightarrow> opens_comment p i"
    and "length visited = length (pb_cells p)" and "length (filter Not visited) \<le> steps"
    and "\<forall>j < length visited. visited ! j \<longrightarrow> (\<forall>m cs. chain p (int j) m cs \<longrightarrow> n < m)"
  shows "comment_loop E p steps start i visited bytes = decode_text E (bytes @ (if start then drop 4 bs else bs))"
  using assms(1,3-6)
proof (induction arbitrary: steps start visited bytes rule: chain.induct)
  case (chain_end i c)
  then have "\<not> visited ! nat i" using chain.chain_end [of i p c] by (metis int_nat_eq less_irrefl nat_less_iff)
  moreover have i: "nat i < length visited" using chain_end by (simp add: nat_less_iff)
  ultimately have "steps \<noteq> 0" using mark_visited chain_end.prems(3) by fastforce
  then obtain s where "steps = Suc s" by (cases steps) auto
  then show ?case
    using chain_end \<open>\<not> visited ! nat i\<close> round_bytes [OF assms(2) chain_end.hyps(1,2), of start "[]"]
    by (simp add: comment_loop_Suc)
next
  case (chain_next i c k o' n bs)
  note whole = chain.chain_next [OF chain_next.hyps]
  have "\<not> visited ! nat i"
    using chain_next.prems(2,4) whole chain_next.hyps(1,2) by (metis int_nat_eq less_irrefl nat_less_iff)
  moreover have i: "nat i < length visited" using chain_next by (simp add: nat_less_iff)
  ultimately have unvisited: "length (filter Not visited) = Suc (length (filter Not (visited[nat i := True])))"
    by (intro mark_visited)
  then obtain s where s: "steps = Suc s" using chain_next.prems(3) by (cases steps) auto
  let ?b = "round_part start p i"
  have "comment_loop E p s False (int (unat k)) (visited[nat i := True]) (bytes @ ?b)
      = decode_text E ((bytes @ ?b) @ (if False then drop 4 bs else bs))"
  proof (rule chain_next.IH)
    show "\<forall>j < length (visited[nat i := True]). visited[nat i := True] ! j \<longrightarrow>
        (\<forall>m cs. chain p (int j) m cs \<longrightarrow> n < m)"
    proof (intro allI impI)
      fix j m cs
      assume j: "j < length (visited[nat i := True])" "visited[nat i := True] ! j" "chain p (int j) m cs"
      show "n < m"
      proof (cases "j = nat i")
        case True
        then have "chain p i m cs" using j(3) chain_next.hyps(1) by simp
        from chain_unique [OF whole this] show ?thesis by simp
      next
        case False
        then have "visited ! j" using j by simp
        then show ?thesis using chain_next.prems(4) j by fastforce
      qed
    qed
  qed (use chain_next.prems unvisited s in auto)
  moreover have "comment_loop E p steps start i visited bytes
      = comment_loop E p s False (int (unat k)) (visited[nat i := True]) (bytes @ ?b)"
    using chain_next.hyps chain_next.prems(1) \<open>\<not> visited ! nat i\<close> s
    by (cases start) (simp_all add: comment_loop_Suc)
  ultimately show ?case
    using round_bytes [OF assms(2) chain_next.hyps(1,2) chain_next.prems(1), of bs] chain_next.hyps(3) by simp
qed


lemma boc_ok_inside: "boc_ok data p \<Longrightarrow> cells_inside p"
proof -
  assume ok: "boc_ok data p"
  have "c_dataFrom c + c_dataSize c \<le> length (pb_data p)" if "c \<in> set (pb_cells p)" for c
  proof -
    have "agree_on ({..<length data - (if pb_hasCrc p then 4 else 0)} - {c_dataFrom c..<c_refsFrom c}) data data"
      by (simp add: agree_on_def)
    from boc_ok_changed(2,3) [OF ok that this] show ?thesis by (simp add: boc_ok_cells(1) [OF ok])
  qed
  then show ?thesis by (simp add: cells_inside_def)
qed

section \<open>Properties\<close>


text \<open>
  C8: A comment is read exactly when the bag parses and a finite chain of whole-byte
  cells leads from the root to a cell without references, opening with the zero
  opcode and spelling valid UTF-8; the text is what the chain spells. So neither
  the visited marks nor the limit of 64 steps ever cuts a well-formed comment off,
  and a cycle never gives one.
\<close>

theorem TextCommentFromBoc_iff:
  "TextCommentFromBoc E q = Some t \<longleftrightarrow>
    (\<exists>p n bs. ParseBoc E q = Some p \<and> chain p (pb_root p) n bs \<and> opens_comment p (pb_root p) \<and>
      be_fromUtf8 E (drop 4 bs) = t \<and> be_toUtf8 E t = drop 4 bs)"
  (is "?lhs \<longleftrightarrow> ?rhs")
proof (cases "ParseBoc E q")
  case None
  then show ?thesis by (simp add: TextCommentFromBoc_def)
next
  case (Some p)
  note ok = ParseBoc_sound [OF Some]
  note inside = boc_ok_inside [OF ok]
  let ?loop = "comment_loop E p kMaxCells True (pb_root p) (replicate (length (pb_cells p)) False) []"
  have spells: "decode_text E (drop 4 bs) = Some t \<longleftrightarrow> be_fromUtf8 E (drop 4 bs) = t \<and> be_toUtf8 E t = drop 4 bs" for bs
    by (auto simp: decode_text_def Let_def)
  have "?loop = Some t \<longleftrightarrow> (\<exists>n bs. chain p (pb_root p) n bs \<and> opens_comment p (pb_root p) \<and>
      decode_text E (drop 4 bs) = Some t)" (is "_ \<longleftrightarrow> ?spec")
  proof
    assume "?loop = Some t"
    from comment_loop_sound [OF this inside] show ?spec by simp
  next
    assume ?spec
    then obtain n bs where c: "chain p (pb_root p) n bs" "opens_comment p (pb_root p)"
      and t: "decode_text E (drop 4 bs) = Some t" by blast
    have "?loop = decode_text E ([] @ (if True then drop 4 bs else bs))"
      by (rule comment_loop_complete [OF c(1) inside]) (use c(2) boc_ok_cells(2) [OF ok] in simp_all)
    then show "?loop = Some t" using t by simp
  qed
  then show ?thesis by (simp add: TextCommentFromBoc_def Some spells)
qed


section \<open>A rotation message\<close>

definition sample_boc_env :: boc_env where
  "sample_boc_env = \<lparr>be_fromBase64 = map ucast, be_toBase64 = map ucast, be_fromUtf8 = map ucast,
    be_toUtf8 = map ucast, be_random = (\<lambda>n. replicate n 7)\<rparr>"

text \<open>One root cell with the request, one empty cell, and a checksum.\<close>

definition sample_head :: bytes where
  "sample_head = [0xB5, 0xEE, 0x9C, 0x72, 0x41, 1, 2, 1, 0, 117, 0]"

definition sample_boc :: bytes where
  "sample_boc = sample_head @ [0x01, 0xE0] @ replicate 64 0 @ [0xFB, 0xBA, 0x99, 0xC8] @ replicate 44 0
    @ [1] @ [0, 0] @ [1, 2, 3, 4]"

definition sample_cells :: "cell list" where
  "sample_cells =
    [\<lparr>c_dataFrom = 13, c_dataSize = 112, c_refsFrom = 125, c_refs = 1, c_wholeBytes = True\<rparr>,
     \<lparr>c_dataFrom = 128, c_dataSize = 0, c_refsFrom = 128, c_refs = 0, c_wholeBytes = True\<rparr>]"

lemma sample_boc_at:
  "length sample_boc = 132"
  "sample_boc ! 11 = 0x01" "sample_boc ! 12 = 0xE0" "sample_boc ! 126 = 0" "sample_boc ! 127 = 0"
  "take 4 (drop 77 sample_boc) = [0xFB, 0xBA, 0x99, 0xC8]"
  by (simp_all add: sample_boc_def sample_head_def nth_append)

lemma sample_boc_cells: "ParseCells sample_boc 11 128 2 1 = Some sample_cells"
proof -
  have "parse_cells_loop sample_boc 128 1 0 128 = Some ([], 128)" by simp
  then have "parse_cells_loop sample_boc 128 1 (Suc 0) 126 = Some ([sample_cells ! 1], 128)"
    unfolding parse_cells_loop_Suc
    by (simp add: sample_boc_at sample_cells_def)
  then have "parse_cells_loop sample_boc 128 1 (Suc (Suc 0)) 11 = Some ([sample_cells ! 0, sample_cells ! 1], 128)"
    unfolding parse_cells_loop_Suc [of _ _ _ "Suc 0"]
    by (simp add: sample_boc_at sample_cells_def)
  then show ?thesis by (simp add: ParseCells_def numeral_2_eq_2 sample_cells_def)
qed


definition sample_parsed :: parsed_boc where
  "sample_parsed = \<lparr>pb_data = sample_boc, pb_cells = sample_cells, pb_refSize = 1, pb_root = 0, pb_hasCrc = True\<rparr>"

lemma sample_boc_header: "boc_header sample_boc 0x41 1 2 117 0 11"
proof -
  have r: "ReadNumber sample_boc n 1 = (Some (ucast (sample_boc ! n)), n + 1)" if "n < 132" for n
  proof -
    have "drop n sample_boc = sample_boc ! n # drop (Suc n) sample_boc"
      using that by (simp add: Cons_nth_drop_Suc sample_boc_at(1))
    then show ?thesis using that by (simp add: ReadNumber_def sample_boc_at(1) be_value_def)
  qed
  have m: "ReadNumber sample_boc 0 4 = (Some (ucast kBocMagic), 4)"
    by (simp add: ReadNumber_def sample_boc_def sample_head_def be_value_def kBocMagic_def)
  have at: "sample_boc ! 4 = 0x41" "sample_boc ! 5 = 1" "sample_boc ! 6 = 2" "sample_boc ! 7 = 1"
    "sample_boc ! 8 = 0" "sample_boc ! 9 = 117" "sample_boc ! 10 = 0"
    by (simp_all add: sample_boc_def sample_head_def)
  show ?thesis
    unfolding boc_header_def
    by (rule exI [of _ 4], rule exI [of _ 5], rule exI [of _ 6], rule exI [of _ 7],
        rule exI [of _ 8], rule exI [of _ 9], rule exI [of _ 10])
      (simp add: m r [of 4, simplified] r [of 5, simplified] r [of 6, simplified] r [of 7, simplified]
        r [of 8, simplified] r [of 9, simplified] r [of 10, simplified] at kMaxCells_def kMaxBytes_def)
qed

lemma sample_boc_ok: "boc_ok sample_boc sample_parsed"
  unfolding boc_ok_def
  by (rule exI [of _ "0x41"], rule exI [of _ 1], rule exI [of _ 2], rule exI [of _ 117], rule exI [of _ 0],
      rule exI [of _ 11])
    (simp add: sample_boc_header sample_boc_cells [simplified] sample_boc_at listed_size_def tail_size_def kMaxBytes_def
      sample_parsed_def flip: length_greater_0_conv)

lemma ucast_8_16: "ucast (ucast (b :: byte) :: 16 word) = b"
  by (rule bit_word_eqI) (auto simp: bit_ucast_iff)

lemma sample_boc_parses: "ParseBoc sample_boc_env (map ucast sample_boc) = Some sample_parsed"
proof (rule ParseBoc_complete)
  have "be_fromBase64 sample_boc_env (map ucast sample_boc) = sample_boc"
    by (simp add: sample_boc_env_def comp_def ucast_8_16 map_idI)
  then show "boc_ok (be_fromBase64 sample_boc_env (map ucast sample_boc)) sample_parsed"
    by (simp only: sample_boc_ok)
qed

lemma sample_boc_request: "FindRequest sample_boc sample_cells = 0"
  by (simp add: FindRequest_def sample_cells_def is_request_def kRequestRefs_def kRequestBytes_def
      kSignatureBytes_def ReadOpcode_def sample_boc_at be_value_def kExternalOpcode_def)


end
