(* ===== verification/Cbor.thy ===== *)
theory Cbor
  imports Byte_Words
begin

unbundle bit_operations_syntax

text \<open>
  The CBOR layer of \<open>webauthn/cable_core.h\<close> and \<open>.cpp\<close>: values, the encoder, the
  decoder with its depth limit, the lookups in maps, and the reader of padded
  maps. Byte strings and text strings are both lists of bytes. An \<open>int64_t\<close> is
  a 64-bit word read with \<open>sint\<close>.
\<close>

section \<open>Values and the encoder\<close>

datatype cbor =
    CInt u64
  | CBytes bytes
  | CString bytes
  | CArray "cbor list"
  | CMap "(cbor \<times> cbor) list"
  | CBool bool

definition kMaxCborDepth :: nat where "kMaxCborDepth = 16"

definition isMap :: "cbor \<Rightarrow> bool" where
  "isMap v = (case v of CMap _ \<Rightarrow> True | _ \<Rightarrow> False)"

definition AppendUnsigned :: "bytes \<Rightarrow> byte \<Rightarrow> u64 \<Rightarrow> bytes" where
  "AppendUnsigned out major value =
    (let type = push_bit 5 major
     in if value < 24 then out @ [type OR ucast value]
        else if value \<le> 0xFF then out @ [type OR 24] @ [ucast value]
        else if value \<le> 0xFFFF then out @ [type OR 25] @ [ucast (drop_bit 8 value)] @ [ucast value]
        else if value \<le> 0xFFFFFFFF then out @ [type OR 26] @ be_bytes 4 value
        else out @ [type OR 27] @ be_bytes 8 value)"

lemma size_in_list: "v \<in> set a \<Longrightarrow> size v < Suc (size_list size a)" for v :: cbor
  by (induction a) auto

lemma size_pair_in_list:
  "(k, e) \<in> set m \<Longrightarrow> size k < Suc (size_list (size_prod size size) m)"
  "(k, e) \<in> set m \<Longrightarrow> size e < Suc (size_list (size_prod size size) m)"
  by (induction m) auto

function (sequential) EncodeTo :: "bytes \<Rightarrow> cbor \<Rightarrow> bytes" where
  "EncodeTo out (CInt v) =
     (if 0 \<le> sint v then AppendUnsigned out 0 v else AppendUnsigned out 1 (- 1 - v))"
| "EncodeTo out (CBytes b) = AppendUnsigned out 2 (of_nat (length b)) @ b"
| "EncodeTo out (CString s) = AppendUnsigned out 3 (of_nat (length s)) @ s"
| "EncodeTo out (CArray a) = foldl EncodeTo (AppendUnsigned out 4 (of_nat (length a))) a"
| "EncodeTo out (CMap m) =
     foldl (\<lambda>out entry. EncodeTo (EncodeTo out (fst entry)) (snd entry))
       (AppendUnsigned out 5 (of_nat (length m))) m"
| "EncodeTo out (CBool b) = out @ [if b then 0xF5 else 0xF4]"
  by pat_completeness auto
termination
  by (relation "measure (\<lambda>(out, v). size v)") (auto dest: size_pair_in_list size_in_list)

definition CborEncode :: "cbor \<Rightarrow> bytes" where
  "CborEncode value = EncodeTo [] value"

section \<open>The decoder\<close>

record cbor_reader =
  cr_data :: bytes
  cr_position :: nat

definition cr_read :: "cbor_reader \<Rightarrow> (byte \<times> cbor_reader) option" where
  "cr_read r =
    (if cr_position r \<ge> length (cr_data r) then None
     else Some (cr_data r ! cr_position r, r\<lparr>cr_position := cr_position r + 1\<rparr>))"

definition readBig :: "nat \<Rightarrow> cbor_reader \<Rightarrow> (u64 \<times> cbor_reader) option" where
  "readBig count r =
    (if length (cr_data r) - cr_position r < count then None
     else Some (be_value (take count (drop (cr_position r) (cr_data r))),
                r\<lparr>cr_position := cr_position r + count\<rparr>))"

definition read_argument :: "byte \<Rightarrow> cbor_reader \<Rightarrow> (u64 \<times> cbor_reader) option" where
  "read_argument additional r =
    (if additional < 24 then Some (ucast additional, r)
     else if additional = 24 then readBig 1 r
     else if additional = 25 then readBig 2 r
     else if additional = 26 then readBig 4 r
     else if additional = 27 then readBig 8 r
     else None)"

text \<open>The loop of \<open>case 4\<close>; a map's loop reads two values per round.\<close>

fun decode_array :: "(cbor_reader \<Rightarrow> (cbor \<times> cbor_reader) option) \<Rightarrow> nat \<Rightarrow> cbor_reader
    \<Rightarrow> (cbor list \<times> cbor_reader) option" where
  "decode_array dec 0 r = Some ([], r)"
| "decode_array dec (Suc n) r =
     (case dec r of None \<Rightarrow> None
      | Some (entry, r1) \<Rightarrow>
          (case decode_array dec n r1 of None \<Rightarrow> None
           | Some (rest, r2) \<Rightarrow> Some (entry # rest, r2)))"

fun decode_map :: "(cbor_reader \<Rightarrow> (cbor \<times> cbor_reader) option) \<Rightarrow> nat \<Rightarrow> cbor_reader
    \<Rightarrow> ((cbor \<times> cbor) list \<times> cbor_reader) option" where
  "decode_map dec 0 r = Some ([], r)"
| "decode_map dec (Suc n) r =
     (case dec r of None \<Rightarrow> None
      | Some (key, r1) \<Rightarrow>
          (case dec r1 of None \<Rightarrow> None
           | Some (entry, r2) \<Rightarrow>
               (case decode_map dec n r2 of None \<Rightarrow> None
                | Some (rest, r3) \<Rightarrow> Some ((key, entry) # rest, r3))))"

definition INT64_MAX :: u64 where "INT64_MAX = 0x7FFFFFFFFFFFFFFF"

text \<open>The switch on the major type; \<open>dec\<close> decodes one value a level deeper.\<close>

definition decode_switch :: "(cbor_reader \<Rightarrow> (cbor \<times> cbor_reader) option) \<Rightarrow> byte \<Rightarrow> byte \<Rightarrow> u64
    \<Rightarrow> cbor_reader \<Rightarrow> (cbor \<times> cbor_reader) option" where
  "decode_switch dec initial major argument r =
    (if major = 0 then (if argument > INT64_MAX then None else Some (CInt argument, r))
     else if major = 1 then (if argument > INT64_MAX then None else Some (CInt (- 1 - argument), r))
     else if major = 2 \<or> major = 3 then
       (if unat argument > length (cr_data r) - cr_position r then None
        else
          let part = take (unat argument) (drop (cr_position r) (cr_data r));
              r' = r\<lparr>cr_position := cr_position r + unat argument\<rparr>
          in Some (if major = 2 then CBytes part else CString part, r'))
     else if major = 4 then
       (case decode_array dec (unat argument) r of None \<Rightarrow> None
        | Some (a, r') \<Rightarrow> Some (CArray a, r'))
     else if major = 5 then
       (case decode_map dec (unat argument) r of None \<Rightarrow> None
        | Some (m, r') \<Rightarrow> Some (CMap m, r'))
     else if major = 7 then
       (if initial = 0xF4 then Some (CBool False, r)
        else if initial = 0xF5 then Some (CBool True, r) else None)
     else None)"

text \<open>
  \<open>DecodeOne\<close> with the number of levels still allowed, \<open>kMaxCborDepth + 1 - depth\<close>:
  at \<open>0\<close> the depth is beyond the limit.
\<close>

primrec decode_levels :: "nat \<Rightarrow> cbor_reader \<Rightarrow> (cbor \<times> cbor_reader) option" where
  "decode_levels 0 r = None"
| "decode_levels (Suc levels) r =
    (case cr_read r of None \<Rightarrow> None
     | Some (initial, r1) \<Rightarrow>
         let major = drop_bit 5 initial; additional = initial AND 0x1F
         in case read_argument additional r1 of None \<Rightarrow> None
            | Some (argument, r2) \<Rightarrow> decode_switch (decode_levels levels) initial major argument r2)"

definition DecodeOne :: "cbor_reader \<Rightarrow> nat \<Rightarrow> (cbor \<times> cbor_reader) option" where
  "DecodeOne r depth = decode_levels (kMaxCborDepth + 1 - depth) r"

definition CborDecode :: "bytes \<Rightarrow> cbor option" where
  "CborDecode data =
    (case DecodeOne \<lparr>cr_data = data, cr_position = 0\<rparr> 0 of
       None \<Rightarrow> None
     | Some (result, r) \<Rightarrow> if cr_position r \<noteq> length (cr_data r) then None else Some result)"

section \<open>Lookups and padded maps\<close>

fun FindText :: "(cbor \<times> cbor) list \<Rightarrow> bytes \<Rightarrow> cbor option" where
  "FindText [] key = None"
| "FindText ((k, v) # m) key = (if k = CString key then Some v else FindText m key)"

fun find_int :: "(cbor \<times> cbor) list \<Rightarrow> u64 \<Rightarrow> cbor option" where
  "find_int [] key = None"
| "find_int ((k, v) # m) key = (if k = CInt key then Some v else find_int m key)"

definition cbor_find :: "cbor \<Rightarrow> u64 \<Rightarrow> cbor option" where
  "cbor_find value key = (case value of CMap m \<Rightarrow> find_int m key | _ \<Rightarrow> None)"

definition decode_map_prefix :: "bytes \<Rightarrow> nat \<Rightarrow> cbor option" where
  "decode_map_prefix input n =
    (case CborDecode (take n input) of
       Some v \<Rightarrow> if isMap v then Some v else None
     | None \<Rightarrow> None)"

definition DecodePaddedCborMap :: "bytes \<Rightarrow> cbor option" where
  "DecodePaddedCborMap input =
    (let n = length input;
         wide = (if n \<ge> 2 then
                   let padding = unat (input ! (n - 2)) + 256 * unat (input ! (n - 1))
                   in if padding + 2 \<le> n then decode_map_prefix input (n - padding - 2) else None
                 else None)
     in case wide of
          Some v \<Rightarrow> Some v
        | None \<Rightarrow>
            if input \<noteq> [] then
              let padding = unat (last input)
              in if padding + 1 \<le> n then decode_map_prefix input (n - padding - 1) else None
            else None)"


section \<open>What the encoder writes\<close>

text \<open>The encoder only appends, so every value has an encoding of its own.\<close>

lemma AppendUnsigned_append: "AppendUnsigned out major v = out @ AppendUnsigned [] major v"
  by (simp add: AppendUnsigned_def Let_def)

lemma foldl_append_map:
  assumes "\<And>out x. x \<in> set xs \<Longrightarrow> f out x = out @ g x"
  shows "foldl f out xs = out @ concat (map g xs)"
  using assms by (induction xs arbitrary: out) auto

lemma EncodeTo_append: "EncodeTo out v = out @ CborEncode v"
proof -
  have "EncodeTo out v = out @ EncodeTo [] v" for out v
  proof (induction "size v" arbitrary: out v rule: less_induct)
    case less
    show ?case
    proof (cases v)
      case (CArray a)
      have "EncodeTo out x = out @ EncodeTo [] x" if "x \<in> set a" for out x
        by (rule less) (use size_in_list [OF that] CArray in simp)
      then have fold: "foldl EncodeTo out' a = out' @ concat (map (EncodeTo []) a)" for out'
        by (rule foldl_append_map)
      show ?thesis by (simp add: CArray fold AppendUnsigned_append [of out])
    next
      case (CMap m)
      have "EncodeTo out (fst x) = out @ EncodeTo [] (fst x)" "EncodeTo out (snd x) = out @ EncodeTo [] (snd x)"
        if "x \<in> set m" for out x
        by (rule less; use size_pair_in_list [of "fst x" "snd x" m] that CMap in simp)+
      then have "EncodeTo (EncodeTo out (fst x)) (snd x) = out @ (EncodeTo [] (fst x) @ EncodeTo [] (snd x))"
        if "x \<in> set m" for out x
        using that by (metis append_assoc)
      then have fold: "foldl (\<lambda>out x. EncodeTo (EncodeTo out (fst x)) (snd x)) out' m
          = out' @ concat (map (\<lambda>x. EncodeTo [] (fst x) @ EncodeTo [] (snd x)) m)" for out'
        by (rule foldl_append_map)
      show ?thesis by (simp add: CMap fold AppendUnsigned_append [of out])
    qed (simp_all add: AppendUnsigned_append [of out])
  qed
  then show ?thesis unfolding CborEncode_def by blast
qed

definition pair_bytes :: "cbor \<times> cbor \<Rightarrow> bytes" where
  "pair_bytes x = CborEncode (fst x) @ CborEncode (snd x)"

lemma pair_bytes_Pair: "pair_bytes (k, v) = CborEncode k @ CborEncode v"
  by (simp add: pair_bytes_def)

lemma CborEncode_simps [simp]:
  "CborEncode (CInt v) = (if 0 \<le> sint v then AppendUnsigned [] 0 v else AppendUnsigned [] 1 (- 1 - v))"
  "CborEncode (CBytes b) = AppendUnsigned [] 2 (of_nat (length b)) @ b"
  "CborEncode (CString b) = AppendUnsigned [] 3 (of_nat (length b)) @ b"
  "CborEncode (CArray a) = AppendUnsigned [] 4 (of_nat (length a)) @ concat (map CborEncode a)"
  "CborEncode (CMap m) = AppendUnsigned [] 5 (of_nat (length m)) @ concat (map pair_bytes m)"
  "CborEncode (CBool c) = [if c then 0xF5 else 0xF4]"
  by (subst CborEncode_def, subst EncodeTo.simps, simp add: EncodeTo_append
      foldl_append_map [where g = CborEncode] foldl_append_map [where g = pair_bytes] pair_bytes_def; fail)+

section \<open>Reading back\<close>

definition cr_at :: "bytes \<Rightarrow> bytes \<Rightarrow> cbor_reader" where
  "cr_at p rest = \<lparr>cr_data = p @ rest, cr_position = length p\<rparr>"

lemma cr_read_at [simp]:
  "cr_read (cr_at p (b # rest)) = Some (b, cr_at (p @ [b]) rest)"
  "cr_read (cr_at p []) = None"
  by (simp_all add: cr_read_def cr_at_def nth_append)

lemma readBig_at:
  "readBig n (cr_at p rest) =
    (if n \<le> length rest then Some (be_value (take n rest), cr_at (p @ take n rest) (drop n rest)) else None)"
  by (auto simp: readBig_def cr_at_def)

lemma major_additional:
  fixes m w :: byte
  assumes "m < 8" and "w < 32"
  shows "drop_bit 5 (push_bit 5 m OR w) = m" and "(push_bit 5 m OR w) AND 0x1F = w"
proof -
  have m: "take_bit 3 m = m" and w: "take_bit 5 w = w"
    using assms by (simp_all add: word_unat_eq_iff unsigned_take_bit_eq take_bit_nat_eq_self word_less_nat_alt)
  have bm: "bit m n \<Longrightarrow> n < 3" for n using m by (metis bit_take_bit_iff)
  have bw: "bit w n \<Longrightarrow> n < 5" for n using w by (metis bit_take_bit_iff)
  show "drop_bit 5 (push_bit 5 m OR w) = m"
    by (rule bit_word_eqI) (use bm bw in \<open>force simp: bit_drop_bit_eq bit_or_iff bit_push_bit_iff\<close>)
  have "(push_bit 5 m OR w) AND mask 5 = w"
    by (rule bit_word_eqI) (use bw in \<open>auto simp: bit_and_iff bit_or_iff bit_push_bit_iff bit_mask_iff\<close>)
  then show "(push_bit 5 m OR w) AND 0x1F = w" by (simp add: mask_eq_exp_minus_1)
qed

text \<open>
  The head of an encoding: an initial byte that carries the major type, then
  the bytes from which the argument is read back.
\<close>

lemma AppendUnsigned_head:
  assumes "m < 8"
  obtains i tl where "AppendUnsigned [] m v = i # tl" "drop_bit 5 i = m"
    "\<And>p rest. read_argument (i AND 0x1F) (cr_at p (tl @ rest)) = Some (v, cr_at (p @ tl) rest)"
proof -
  have read_back: "be_value (be_bytes n v) = v" if "unat v < 256 ^ n" for n
    using that by (simp add: be_value_be_bytes word_unat_eq_iff unsigned_take_bit_eq take_bit_nat_eq_self
        power_mult)
  have big: "readBig n (cr_at p (be_bytes n v @ rest)) = Some (v, cr_at (p @ be_bytes n v) rest)"
    if "unat v < 256 ^ n" for n p rest
    using read_back [OF that] by (simp add: readBig_at)
  consider "v < 24" | "24 \<le> v" "v \<le> 0xFF" | "0xFF < v" "v \<le> 0xFFFF"
    | "0xFFFF < v" "v \<le> 0xFFFFFFFF" | "0xFFFFFFFF < v"
    by (meson linorder_not_less)
  then show thesis
  proof cases
    case 1
    have u: "unat (ucast v :: byte) = unat v"
      using 1 by (simp add: unsigned_ucast_eq take_bit_nat_eq_self word_less_nat_alt)
    then have small: "(ucast v :: byte) < 24" using 1 by (simp add: word_less_nat_alt)
    then have "(ucast v :: byte) < 32" by (rule order_less_trans) simp
    note add = major_additional [OF assms this]
    have "take_bit 8 v = v"
      using 1 by (simp add: word_unat_eq_iff unsigned_take_bit_eq take_bit_nat_eq_self word_less_nat_alt)
    moreover have "ucast (ucast v :: byte) = take_bit 8 v"
      by (rule bit_word_eqI) (auto simp: bit_ucast_iff bit_take_bit_iff)
    ultimately have "ucast (ucast v :: byte) = v" by simp
    then show thesis
      using 1 add small by (intro that [of "push_bit 5 m OR ucast v" "[]"])
        (simp_all add: AppendUnsigned_def read_argument_def)
  next
    case 2
    have "be_bytes 1 v = [ucast v]" by (simp add: be_bytes_def)
    then show thesis
      using 2 major_additional [OF assms, of 24] big [of 1]
      by (intro that [of "push_bit 5 m OR 24" "be_bytes 1 v"])
        (simp_all add: AppendUnsigned_def read_argument_def word_less_nat_alt word_le_nat_alt)
  next
    case 3
    have "be_bytes 2 v = [ucast (drop_bit 8 v), ucast v]" by (simp add: be_bytes_def upt_rec)
    then show thesis
      using 3 major_additional [OF assms, of 25] big [of 2]
      by (intro that [of "push_bit 5 m OR 25" "be_bytes 2 v"])
        (simp_all add: AppendUnsigned_def read_argument_def word_less_nat_alt word_le_nat_alt)
  next
    case 4
    then show thesis
      using major_additional [OF assms, of 26] big [of 4]
      by (intro that [of "push_bit 5 m OR 26" "be_bytes 4 v"])
        (simp_all add: AppendUnsigned_def read_argument_def word_less_nat_alt word_le_nat_alt)
  next
    case 5
    then show thesis
      using major_additional [OF assms, of 27] big [of 8] unsigned_less [of v, where 'a = nat]
      by (intro that [of "push_bit 5 m OR 27" "be_bytes 8 v"])
        (simp_all add: AppendUnsigned_def read_argument_def word_less_nat_alt word_le_nat_alt)
  qed
qed


lemma sint_nonneg: "0 \<le> sint v \<longleftrightarrow> v \<le> INT64_MAX" for v :: u64
proof -
  have "0 \<le> sint v \<longleftrightarrow> \<not> bit (uint v) 63"
    by (simp add: sint_uint signed_take_bit_nonnegative_iff)
  moreover have "bit (uint v) 63 \<longleftrightarrow> 2 ^ 63 \<le> uint v"
  proof -
    have "uint v < 2 ^ 64" using unsigned_less [of v, where 'a = int] by simp
    then have "uint v div 2 ^ 63 < 2" by simp
    moreover have "0 \<le> uint v div 2 ^ 63" by (rule pos_imp_zdiv_nonneg_iff [THEN iffD2]) simp_all
    moreover have "0 \<le> d \<Longrightarrow> d < 2 \<Longrightarrow> odd d \<longleftrightarrow> 1 \<le> d" for d :: int by presburger
    ultimately have "odd (uint v div 2 ^ 63) \<longleftrightarrow> 1 \<le> uint v div 2 ^ 63" by blast
    then show ?thesis by (simp add: bit_iff_odd) linarith
  qed
  ultimately show ?thesis by (simp add: INT64_MAX_def word_le_def) linarith
qed

lemma complement_max: "- 1 - w \<le> INT64_MAX \<longleftrightarrow> INT64_MAX < w" for w :: u64
proof -
  have "unat (- 1 - w) = unat (- 1 :: u64) - unat w" by (rule unat_sub) simp
  moreover have "unat (- 1 :: u64) = 2 ^ 64 - 1"
    by (simp add: unsigned_minus_1_eq_mask mask_eq_exp_minus_1)
  ultimately show ?thesis by (auto simp: INT64_MAX_def word_le_nat_alt word_less_nat_alt)
qed

section \<open>Values within the limits\<close>

text \<open>\<open>within n v\<close>: the nesting of \<open>v\<close> fits \<open>n\<close> levels.\<close>

primrec within :: "nat \<Rightarrow> cbor \<Rightarrow> bool" where
  "within 0 v = False"
| "within (Suc n) v =
    (case v of
       CArray a \<Rightarrow> list_all (within n) a
     | CMap m \<Rightarrow> list_all (\<lambda>x. within n (fst x) \<and> within n (snd x)) m
     | _ \<Rightarrow> True)"

function sized :: "cbor \<Rightarrow> bool" where
  "sized (CInt v) = True"
| "sized (CBytes b) \<longleftrightarrow> length b < 2 ^ 64"
| "sized (CString b) \<longleftrightarrow> length b < 2 ^ 64"
| "sized (CArray a) \<longleftrightarrow> length a < 2 ^ 64 \<and> (\<forall>x \<in> set a. sized x)"
| "sized (CMap m) \<longleftrightarrow> length m < 2 ^ 64 \<and> (\<forall>x \<in> set m. sized (fst x) \<and> sized (snd x))"
| "sized (CBool c) = True"
  by pat_completeness auto
termination
  by (relation "measure size") (auto dest: size_pair_in_list size_in_list)

lemma decode_array_enc:
  assumes "\<forall>x \<in> set a. \<forall>p rest. dec (cr_at p (CborEncode x @ rest)) =
    (if P x then Some (x, cr_at (p @ CborEncode x) rest) else None)"
  shows "decode_array dec (length a) (cr_at p (concat (map CborEncode a) @ rest)) =
    (if list_all P a then Some (a, cr_at (p @ concat (map CborEncode a)) rest) else None)"
  using assms by (induction a arbitrary: p) auto

lemma decode_map_enc:
  assumes "\<forall>x \<in> fst ` set m \<union> snd ` set m. \<forall>p rest. dec (cr_at p (CborEncode x @ rest)) =
    (if P x then Some (x, cr_at (p @ CborEncode x) rest) else None)"
  shows "decode_map dec (length m) (cr_at p (concat (map pair_bytes m) @ rest)) =
    (if list_all (\<lambda>x. P (fst x) \<and> P (snd x)) m then Some (m, cr_at (p @ concat (map pair_bytes m)) rest)
     else None)"
  using assms
proof (induction m arbitrary: p)
  case Nil
  then show ?case by simp
next
  case (Cons x m)
  from Cons.prems have rest: "decode_map dec (length m) (cr_at q (concat (map pair_bytes m) @ rest)) =
    (if list_all (\<lambda>x. P (fst x) \<and> P (snd x)) m then Some (m, cr_at (q @ concat (map pair_bytes m)) rest)
     else None)" for q
    by (intro Cons.IH) simp
  have "dec (cr_at q (CborEncode y @ r)) = (if P y then Some (y, cr_at (q @ CborEncode y) r) else None)"
    if "y = fst x \<or> y = snd x" for q r y
    using Cons.prems that by auto
  then show ?case
    by (cases x) (simp add: pair_bytes_Pair rest)
qed

lemma decode_levels_enc:
  "sized v \<Longrightarrow> decode_levels n (cr_at p (CborEncode v @ rest)) =
    (if within n v then Some (v, cr_at (p @ CborEncode v) rest) else None)"
proof (induction n arbitrary: v p rest)
  case 0
  then show ?case by simp
next
  case (Suc n)
  have head: "\<exists>i. decode_levels (Suc n) (cr_at p (AppendUnsigned [] m arg @ r)) =
      decode_switch (decode_levels n) i m arg (cr_at (p @ AppendUnsigned [] m arg) r)"
    if m: "m < 8" for m arg r
  proof -
    obtain i tl where "AppendUnsigned [] m arg = i # tl" "drop_bit 5 i = m"
      "\<And>p rest. read_argument (i AND 0x1F) (cr_at p (tl @ rest)) = Some (arg, cr_at (p @ tl) rest)"
      using AppendUnsigned_head [OF m] by blast
    then show ?thesis by auto
  qed
  have num: "unat (of_nat k :: u64) = k" if "k < 2 ^ 64" for k
    using that by (simp add: unat_of_nat)
  show ?case
  proof (cases v)
    case (CInt w)
    have neg: "\<not> 0 \<le> sint w \<Longrightarrow> \<not> INT64_MAX < - 1 - w"
      using sint_nonneg [of w] complement_max [of w] by (metis linorder_not_less)
    show ?thesis
      using head [of 0 w rest] head [of 1 "- 1 - w" rest] neg sint_nonneg [of w]
      by (auto simp: CInt decode_switch_def)
  next
    case (CBytes b)
    then show ?thesis using head [of 2 "of_nat (length b)" "b @ rest"] Suc.prems
      by (auto simp: decode_switch_def num cr_at_def)
  next
    case (CString b)
    then show ?thesis using head [of 3 "of_nat (length b)" "b @ rest"] Suc.prems
      by (auto simp: decode_switch_def num cr_at_def)
  next
    case (CArray a)
    then have "\<forall>x \<in> set a. \<forall>p rest. decode_levels n (cr_at p (CborEncode x @ rest)) =
        (if within n x then Some (x, cr_at (p @ CborEncode x) rest) else None)"
      using Suc by auto
    from decode_array_enc [OF this] show ?thesis
      using head [of 4 "of_nat (length a)" "concat (map CborEncode a) @ rest"] Suc.prems CArray
      by (auto simp: decode_switch_def num)
  next
    case (CMap m)
    then have "\<forall>x \<in> fst ` set m \<union> snd ` set m. \<forall>p rest. decode_levels n (cr_at p (CborEncode x @ rest)) =
        (if within n x then Some (x, cr_at (p @ CborEncode x) rest) else None)"
      using Suc by auto
    from decode_map_enc [OF this] show ?thesis
      using head [of 5 "of_nat (length m)" "concat (map pair_bytes m) @ rest"] Suc.prems CMap
      by (auto simp: decode_switch_def num)
  next
    case (CBool c)
    then show ?thesis by (simp add: read_argument_def decode_switch_def)
  qed
qed


section \<open>What the decoder accepts\<close>

lemma cr_at_inject [simp]: "cr_at p r = cr_at q s \<longleftrightarrow> p = q \<and> r = s"
  by (auto simp: cr_at_def)

text \<open>A reader that moves on: it has consumed \<open>used\<close> and nothing else has changed.\<close>

definition consumes :: "cbor_reader \<Rightarrow> bytes \<Rightarrow> cbor_reader \<Rightarrow> bool" where
  "consumes r used r' \<longleftrightarrow> (\<exists>p rest. r = cr_at p (used @ rest) \<and> r' = cr_at (p @ used) rest)"

lemma consumes_trans: "consumes r a r1 \<Longrightarrow> consumes r1 b r2 \<Longrightarrow> consumes r (a @ b) r2"
proof -
  assume "consumes r a r1" "consumes r1 b r2"
  then obtain p rest q rest' where "r = cr_at p (a @ rest)" "r1 = cr_at (p @ a) rest"
    "r1 = cr_at q (b @ rest')" "r2 = cr_at (q @ b) rest'"
    by (auto simp: consumes_def)
  then show ?thesis by (auto simp: consumes_def)
qed

lemma consumes_refl [simp]: "consumes (cr_at p rest) [] (cr_at p rest)"
  by (auto simp: consumes_def)

lemma consumes_at: "consumes (cr_at p bs) used r' \<longleftrightarrow> (\<exists>rest. bs = used @ rest \<and> r' = cr_at (p @ used) rest)"
  by (auto simp: consumes_def)

text \<open>No argument has a shorter head than the one the encoder writes.\<close>

lemma length_AppendUnsigned:
  "length (AppendUnsigned [] m v) \<le> Suc n" if "unat v < 256 ^ n" "n \<in> {1, 2, 4, 8}"
  using that by (auto simp: AppendUnsigned_def Let_def word_less_nat_alt word_le_nat_alt)

lemma readBig_sound:
  assumes "readBig n (cr_at p bs) = Some (v, r')" and "n \<in> {1, 2, 4, 8}"
  shows "\<exists>used. consumes (cr_at p bs) used r' \<and> length (AppendUnsigned [] m v) \<le> Suc (length used)"
proof -
  from assms(1) have n: "n \<le> length bs" and v: "v = be_value (take n bs)"
    and r': "r' = cr_at (p @ take n bs) (drop n bs)"
    by (auto simp: readBig_at split: if_splits)
  have "unat v < 256 ^ length (take n bs)" unfolding v by (rule be_value_bound) (use assms(2) in auto)
  moreover have "length (take n bs) = n" using n by simp
  ultimately have "length (AppendUnsigned [] m v) \<le> Suc n"
    using assms(2) by (intro length_AppendUnsigned) simp_all
  then show ?thesis
    using n r' by (intro exI [of _ "take n bs"]) (auto simp: consumes_at min_def)
qed

lemma read_argument_sound:
  assumes "read_argument a (cr_at p bs) = Some (v, r')"
  shows "\<exists>used. consumes (cr_at p bs) used r' \<and> length (AppendUnsigned [] m v) \<le> Suc (length used)"
proof (cases "a < 24")
  case True
  then have "v = ucast a" "r' = cr_at p bs" using assms by (simp_all add: read_argument_def)
  moreover have "unat (ucast a :: u64) = unat a"
    using unsigned_less [of a, where 'a = nat]
    by (simp add: unsigned_ucast_eq take_bit_nat_eq_self)
  then have "(ucast a :: u64) < 24" using True by (simp add: word_less_nat_alt)
  ultimately show ?thesis by (intro exI [of _ "[]"]) (simp add: AppendUnsigned_def)
next
  case False
  then show ?thesis
    using assms readBig_sound [of _ p bs v r' m] by (auto simp: read_argument_def split: if_splits)
qed

lemma decode_array_sound:
  assumes "decode_array dec n (cr_at p bs) = Some (a, r')"
    and "\<And>p bs v r'. dec (cr_at p bs) = Some (v, r') \<Longrightarrow>
      P v \<and> (\<exists>used. consumes (cr_at p bs) used r' \<and> length (CborEncode v) \<le> length used)"
  shows "length a = n \<and> list_all P a \<and>
    (\<exists>used. consumes (cr_at p bs) used r' \<and> length (concat (map CborEncode a)) \<le> length used)"
  using assms(1)
proof (induction n arbitrary: p bs a)
  case 0
  then show ?case by (auto intro: exI [of _ "[]"])
next
  case (Suc n)
  then obtain v r1 a' where v: "dec (cr_at p bs) = Some (v, r1)"
    and a': "decode_array dec n r1 = Some (a', r')" "a = v # a'"
    by (auto split: option.splits)
  from assms(2) [OF v] obtain u1 where u1: "P v" "consumes (cr_at p bs) u1 r1"
    "length (CborEncode v) \<le> length u1" by blast
  then obtain rest where r1: "r1 = cr_at (p @ u1) rest" by (auto simp: consumes_at)
  from Suc.IH [OF a'(1) [unfolded r1]] obtain u2 where "length a' = n" "list_all P a'"
    "consumes r1 u2 r'" "length (concat (map CborEncode a')) \<le> length u2"
    unfolding r1 by blast
  then show ?case using u1 a'(2) consumes_trans [OF u1(2)] by (auto intro!: exI [of _ "u1 @ u2"])
qed

text \<open>A map is read like the array of its keys and values in turn.\<close>

lemma decode_map_as_array:
  "decode_map dec n r = (case decode_array dec (2 * n) r of None \<Rightarrow> None
     | Some (a, r') \<Rightarrow> Some (map (\<lambda>i. (a ! (2 * i), a ! (2 * i + 1))) [0..<n], r'))"
proof (induction n arbitrary: r)
  case 0
  then show ?case by simp
next
  case (Suc n)
  have "[0..<Suc n] = 0 # map Suc [0..<n]" by (simp add: upt_conv_Cons map_Suc_upt del: upt_Suc)
  then show ?case
    by (auto simp: Suc split: option.split)
qed

lemma pairs_of_list:
  assumes "length a = 2 * n"
  shows "concat (map pair_bytes (map (\<lambda>i. (a ! (2 * i), a ! (2 * i + 1))) [0..<n])) = concat (map CborEncode a)"
  using assms
proof (induction n arbitrary: a)
  case 0
  then show ?case by simp
next
  case (Suc n)
  then obtain x y b where a: "a = x # y # b" "length b = 2 * n"
    by (cases a; cases "tl a") auto
  have "[0..<Suc n] = 0 # map Suc [0..<n]" by (simp add: upt_conv_Cons map_Suc_upt del: upt_Suc)
  then show ?case using Suc.IH [OF a(2)] by (simp add: a(1) pair_bytes_Pair comp_def del: upt_Suc)
qed


definition decoded_well :: "nat \<Rightarrow> cbor \<Rightarrow> bool" where
  "decoded_well n v \<longleftrightarrow> within n v \<and> sized v"

lemma decode_switch_sound:
  assumes "decode_switch (decode_levels n) initial major arg (cr_at p bs) = Some (v, r')"
    and deeper: "\<And>p bs v r'. decode_levels n (cr_at p bs) = Some (v, r') \<Longrightarrow>
      decoded_well n v \<and> (\<exists>used. consumes (cr_at p bs) used r' \<and> length (CborEncode v) \<le> length used)"
    and head: "\<And>m. length (AppendUnsigned [] m arg) \<le> k" and "1 \<le> k"
  shows "decoded_well (Suc n) v \<and>
    (\<exists>used. consumes (cr_at p bs) used r' \<and> length (CborEncode v) \<le> k + length used)"
proof -
  have cancel: "- 1 - (- 1 - arg) = arg" by simp
  consider "major = 0" | "major = 1" | "major = 2 \<or> major = 3" | "major = 4" | "major = 5" | "major = 7"
    using assms(1) by (fastforce simp: decode_switch_def split: if_splits)
  then show ?thesis
  proof cases
    case 1
    then show ?thesis using assms(1) head sint_nonneg [of arg]
      by (auto simp: decode_switch_def decoded_well_def not_less intro!: exI [of _ "[]"] split: if_splits)
  next
    case 2
    then have "arg \<le> INT64_MAX" and v: "v = CInt (- 1 - arg)" "r' = cr_at p bs"
      using assms(1) by (auto simp: decode_switch_def not_less split: if_splits)
    then have "\<not> 0 \<le> sint (- 1 - arg)"
      by (simp add: sint_nonneg complement_max not_less)
    then show ?thesis using head v by (auto simp: decoded_well_def cancel intro!: exI [of _ "[]"])
  next
    case 3
    let ?part = "take (unat arg) bs"
    from 3 have le: "unat arg \<le> length bs" and v: "v = CBytes ?part \<or> v = CString ?part"
      and r': "r' = cr_at (p @ ?part) (drop (unat arg) bs)"
      using assms(1) by (auto simp: decode_switch_def Let_def cr_at_def not_less split: if_splits)
    have "length ?part = unat arg" using le by simp
    moreover have "unat arg < 2 ^ 64" using unsigned_less [of arg, where 'a = nat] by simp
    moreover have "consumes (cr_at p bs) ?part r'" using r' by (simp add: consumes_at)
    ultimately show ?thesis using v head by (auto simp: decoded_well_def intro!: exI [of _ ?part])
  next
    case 4
    then obtain a where a: "decode_array (decode_levels n) (unat arg) (cr_at p bs) = Some (a, r')" "v = CArray a"
      using assms(1) by (auto simp: decode_switch_def split: if_splits option.splits)
    from decode_array_sound [OF a(1) deeper] obtain used where "length a = unat arg" "list_all (decoded_well n) a"
      "consumes (cr_at p bs) used r'" "length (concat (map CborEncode a)) \<le> length used" by blast
    moreover have "unat arg < 2 ^ 64" using unsigned_less [of arg, where 'a = nat] by simp
    ultimately show ?thesis
      using head [of 4] by (auto simp: a(2) decoded_well_def list_all_iff intro!: exI [of _ used])
  next
    case 5
    then obtain m where m: "decode_map (decode_levels n) (unat arg) (cr_at p bs) = Some (m, r')" "v = CMap m"
      using assms(1) by (auto simp: decode_switch_def split: if_splits option.splits)
    then obtain a where a: "decode_array (decode_levels n) (2 * unat arg) (cr_at p bs) = Some (a, r')"
      and pairs: "m = map (\<lambda>i. (a ! (2 * i), a ! (2 * i + 1))) [0..<unat arg]"
      by (auto simp: decode_map_as_array split: option.splits)
    from decode_array_sound [OF a deeper] obtain used where la: "length a = 2 * unat arg" and
      "list_all (decoded_well n) a" "consumes (cr_at p bs) used r'"
      and "length (concat (map CborEncode a)) \<le> length used" by blast
    moreover have "concat (map pair_bytes m) = concat (map CborEncode a)"
      unfolding pairs by (rule pairs_of_list [OF la])
    moreover have "unat arg < 2 ^ 64" using unsigned_less [of arg, where 'a = nat] by simp
    ultimately show ?thesis
      using head [of 5] la pairs
      by (auto simp: m(2) decoded_well_def list_all_length intro!: exI [of _ used])
  next
    case 6
    then show ?thesis using assms(1,4)
      by (auto simp: decode_switch_def decoded_well_def intro!: exI [of _ "[]"] split: if_splits)
  qed
qed

lemma decode_levels_sound:
  "decode_levels n (cr_at p bs) = Some (v, r') \<Longrightarrow>
    decoded_well n v \<and> (\<exists>used. consumes (cr_at p bs) used r' \<and> length (CborEncode v) \<le> length used)"
proof (induction n arbitrary: p bs v r')
  case 0
  then show ?case by simp
next
  case (Suc n)
  then obtain i tl where bs: "bs = i # tl" by (cases bs) auto
  with Suc.prems obtain arg r2 where
    arg: "read_argument (i AND 0x1F) (cr_at (p @ [i]) tl) = Some (arg, r2)"
    and switch: "decode_switch (decode_levels n) i (drop_bit 5 i) arg r2 = Some (v, r')"
    by (auto simp: Let_def split: option.splits)
  from read_argument_sound [OF arg] obtain u1 where u1: "consumes (cr_at (p @ [i]) tl) u1 r2" by blast
  then obtain rest where r2: "r2 = cr_at ((p @ [i]) @ u1) rest" "tl = u1 @ rest" by (auto simp: consumes_at)
  have head: "length (AppendUnsigned [] m arg) \<le> Suc (length u1)" for m
  proof -
    from read_argument_sound [OF arg, of m] obtain u where
      "consumes (cr_at (p @ [i]) tl) u r2" "length (AppendUnsigned [] m arg) \<le> Suc (length u)" by blast
    moreover have "u = u1" using calculation(1) u1 by (auto simp: consumes_at)
    ultimately show ?thesis by simp
  qed
  from decode_switch_sound [OF switch [unfolded r2(1)] Suc.IH head] obtain u2 where
    "decoded_well (Suc n) v" "consumes r2 u2 r'" "length (CborEncode v) \<le> Suc (length u1) + length u2"
    unfolding r2(1) by auto
  moreover have "consumes (cr_at p bs) ((i # u1) @ u2) r'"
  proof (rule consumes_trans)
    show "consumes (cr_at p bs) (i # u1) r2" using r2 bs by (simp add: consumes_at)
  qed (rule calculation(2))
  ultimately show ?case by (intro conjI exI [of _ "(i # u1) @ u2"]) auto
qed


text \<open>The encoder and decoder keep the codec contract, whatever follows the value.\<close>

definition cbor_dec :: "bytes \<Rightarrow> (cbor \<times> bytes) option" where
  "cbor_dec bs =
    (case DecodeOne (cr_at [] bs) 0 of None \<Rightarrow> None
     | Some (v, r) \<Rightarrow> Some (v, drop (cr_position r) (cr_data r)))"

definition encodable :: "cbor \<Rightarrow> bool" where
  "encodable v \<longleftrightarrow> sized v \<and> within (kMaxCborDepth + 1) v"

interpretation cbor_codec: prefix_codec CborEncode cbor_dec encodable
  by unfold_locales
    (simp add: cbor_dec_def encodable_def DecodeOne_def decode_levels_enc [where p = "[]"] del: decode_levels.simps,
      simp add: cr_at_def)

lemma CborDecode_enc: "sized v \<Longrightarrow> CborDecode (CborEncode v) = (if within (kMaxCborDepth + 1) v then Some v else None)"
  using decode_levels_enc [of v "kMaxCborDepth + 1" "[]" "[]"]
  by (simp add: CborDecode_def DecodeOne_def cr_at_def del: decode_levels.simps)

lemma levels_3: obtains n where "kMaxCborDepth + 1 = Suc (Suc (Suc n))"
proof
  show "kMaxCborDepth + 1 = Suc (Suc (Suc 14))" by (simp add: kMaxCborDepth_def)
qed

section \<open>Properties\<close>

text \<open>
  C9: Decoding what the encoder wrote gives the value back exactly when its nesting is
  within the limit of sixteen levels below the top, and fails otherwise.
\<close>

theorem CborDecode_CborEncode:
  assumes "sized v"
  shows "CborDecode (CborEncode v) = (if within (kMaxCborDepth + 1) v then Some v else None)"
  using assms by (rule CborDecode_enc)

theorem CborDecode_CborEncode_witness:
  "CborDecode (CborEncode (CMap [(CInt 1, CArray [CBool True, CInt (- 5)])]))
    = Some (CMap [(CInt 1, CArray [CBool True, CInt (- 5)])])"
proof -
  obtain n where n: "kMaxCborDepth + 1 = Suc (Suc (Suc n))" by (rule levels_3)
  show ?thesis
    using CborDecode_CborEncode [of "CMap [(CInt 1, CArray [CBool True, CInt (- 5)])]"]
    unfolding n by (simp del: CborEncode_simps)
qed

text \<open>
  C10: Whatever bytes the decoder accepts, its result is within the depth limit, has a
  canonical encoding that is no longer than the input, and re-encoding and
  decoding it changes nothing.
\<close>

theorem CborDecode_sound:
  assumes "CborDecode data = Some v"
  shows "encodable v \<and> length (CborEncode v) \<le> length data \<and> CborDecode (CborEncode v) = Some v"
proof -
  from assms obtain r where "decode_levels (kMaxCborDepth + 1) (cr_at [] data) = Some (v, r)"
    by (auto simp: CborDecode_def DecodeOne_def cr_at_def split: option.splits if_splits simp del: decode_levels.simps)
  from decode_levels_sound [OF this] obtain used where "decoded_well (kMaxCborDepth + 1) v"
    "consumes (cr_at [] data) used r" "length (CborEncode v) \<le> length used" by blast
  then show ?thesis using CborDecode_enc [of v] by (auto simp: encodable_def decoded_well_def consumes_at)
qed

theorem CborDecode_sound_witness:
  "CborDecode (CborEncode (CInt 7)) = Some (CInt 7)"
proof -
  obtain n where n: "kMaxCborDepth + 1 = Suc (Suc (Suc n))" by (rule levels_3)
  have "CborDecode [0x18, 7] = Some (CInt 7)"
    unfolding CborDecode_def DecodeOne_def diff_zero n
    by (simp add: cr_read_def read_argument_def readBig_def be_value_def decode_switch_def INT64_MAX_def)
  from CborDecode_sound [OF this] show ?thesis by simp
qed

end
