(* ===== verification/Cable_Noise.thy ===== *)
theory Cable_Noise
  imports Byte_Words
begin

unbundle bit_operations_syntax

text \<open>
  The secure channel of \<open>webauthn/cable_core.cpp\<close>: the Noise symmetric state, the
  two sides of the KNpsk0 handshake and the sequenced \<open>Crypter\<close>. SHA-256, HKDF,
  AES-GCM, ECDH and key generation are OpenSSL calls and are the record
  \<open>crypto\<close>; a generated key is an argument, \<open>None\<close> when generation fails.
\<close>

section \<open>Primitives\<close>

record 'k crypto =
  cy_sha256 :: "bytes \<Rightarrow> bytes"
  cy_hkdf :: "nat \<Rightarrow> bytes \<Rightarrow> bytes \<Rightarrow> bytes \<Rightarrow> bytes"
  cy_seal :: "bytes \<Rightarrow> bytes \<Rightarrow> bytes \<Rightarrow> bytes \<Rightarrow> bytes"
  cy_open :: "bytes \<Rightarrow> bytes \<Rightarrow> bytes \<Rightarrow> bytes \<Rightarrow> bytes option"
  cy_public :: "'k \<Rightarrow> bool \<Rightarrow> bytes"
  cy_ecdh :: "'k \<Rightarrow> bytes \<Rightarrow> bytes option"

definition kP256X962Length :: nat where "kP256X962Length = 65"
definition kHandshakeResponseSize :: nat where "kHandshakeResponseSize = kP256X962Length + 16"
definition kMaxSequence :: u32 where "kMaxSequence = push_bit 24 1 - 1"
definition kPaddingGranularity :: nat where "kPaddingGranularity = 32"

section \<open>The Noise state\<close>

datatype handshake_type = KNpsk0 | NKpsk0

record noise =
  n_chainingKey :: bytes
  n_h :: bytes
  n_symmetricKey :: bytes
  n_symmetricNonce :: u32

definition handshake_name :: "handshake_type \<Rightarrow> bytes" where
  "handshake_name t = (case t of
      KNpsk0 \<Rightarrow> ascii ''Noise_KNpsk0_P256_AESGCM_SHA256''
    | NKpsk0 \<Rightarrow> ascii ''Noise_NKpsk0_P256_AESGCM_SHA256'')"

definition noise_init :: "handshake_type \<Rightarrow> noise" where
  "noise_init t =
    (let name = handshake_name t; ck = name @ replicate (32 - length name) 0
     in \<lparr>n_chainingKey = ck, n_h = ck, n_symmetricKey = replicate 32 0, n_symmetricNonce = 0\<rparr>)"

definition mixHash :: "'k crypto \<Rightarrow> bytes \<Rightarrow> noise \<Rightarrow> noise" where
  "mixHash C bs n = n\<lparr>n_h := cy_sha256 C (n_h n @ bs)\<rparr>"

definition mixHashPoint :: "'k crypto \<Rightarrow> bytes \<Rightarrow> noise \<Rightarrow> noise" where
  "mixHashPoint C point n = mixHash C point n"

definition initializeKey :: "bytes \<Rightarrow> noise \<Rightarrow> noise" where
  "initializeKey key n = n\<lparr>n_symmetricKey := key, n_symmetricNonce := 0\<rparr>"

definition mixKey :: "'k crypto \<Rightarrow> bytes \<Rightarrow> noise \<Rightarrow> noise" where
  "mixKey C ikm n =
    (let output = cy_hkdf C 64 ikm (n_chainingKey n) [];
         n = n\<lparr>n_chainingKey := take 32 output\<rparr>
     in initializeKey (take 32 (drop 32 output)) n)"

definition mixKeyAndHash :: "'k crypto \<Rightarrow> bytes \<Rightarrow> noise \<Rightarrow> noise" where
  "mixKeyAndHash C ikm n =
    (let output = cy_hkdf C 96 ikm (n_chainingKey n) [];
         n = n\<lparr>n_chainingKey := take 32 output\<rparr>;
         n = mixHash C (take 32 (drop 32 output)) n
     in initializeKey (take 32 (drop 64 output)) n)"

text \<open>The counter is in the first four bytes of the nonce.\<close>

definition noise_nonce :: "u32 \<Rightarrow> bytes" where
  "noise_nonce k =
    [ucast (drop_bit 24 k), ucast (drop_bit 16 k), ucast (drop_bit 8 k), ucast k] @ replicate 8 0"

definition encryptAndHash :: "'k crypto \<Rightarrow> bytes \<Rightarrow> noise \<Rightarrow> bytes \<times> noise" where
  "encryptAndHash C plaintext n =
    (let nonce = noise_nonce (n_symmetricNonce n);
         n = n\<lparr>n_symmetricNonce := n_symmetricNonce n + 1\<rparr>;
         ciphertext = cy_seal C (n_symmetricKey n) nonce plaintext (n_h n)
     in (ciphertext, mixHash C ciphertext n))"

definition decryptAndHash :: "'k crypto \<Rightarrow> bytes \<Rightarrow> noise \<Rightarrow> bytes option \<times> noise" where
  "decryptAndHash C ciphertext n =
    (let nonce = noise_nonce (n_symmetricNonce n);
         n = n\<lparr>n_symmetricNonce := n_symmetricNonce n + 1\<rparr>
     in case cy_open C (n_symmetricKey n) nonce ciphertext (n_h n) of
          None \<Rightarrow> (None, n)
        | Some plaintext \<Rightarrow> (Some plaintext, mixHash C ciphertext n))"

definition trafficKeys :: "'k crypto \<Rightarrow> noise \<Rightarrow> bytes \<times> bytes" where
  "trafficKeys C n =
    (let output = cy_hkdf C 64 [] (n_chainingKey n) []
     in (take 32 output, take 32 (drop 32 output)))"

section \<open>The crypter\<close>

record crypter =
  cr_readKey :: bytes
  cr_writeKey :: bytes
  cr_readSequence :: u32
  cr_writeSequence :: u32

definition make_crypter :: "bytes \<Rightarrow> bytes \<Rightarrow> crypter" where
  "make_crypter readKey writeKey =
    \<lparr>cr_readKey = readKey, cr_writeKey = writeKey, cr_readSequence = 0, cr_writeSequence = 0\<rparr>"

definition sequence_nonce :: "u32 \<Rightarrow> bytes" where
  "sequence_nonce k =
    replicate 8 0 @ [ucast (drop_bit 24 k), ucast (drop_bit 16 k), ucast (drop_bit 8 k), ucast k]"

definition pad_message :: "bytes \<Rightarrow> bytes" where
  "pad_message plaintext =
    (let n = length plaintext;
         paddedSize = (n + 1 + kPaddingGranularity - 1) div kPaddingGranularity * kPaddingGranularity;
         padded = plaintext @ replicate (paddedSize - n) 0
     in padded[paddedSize - 1 := of_nat (paddedSize - n - 1)])"

definition crypter_encrypt :: "'k crypto \<Rightarrow> bytes \<Rightarrow> crypter \<Rightarrow> bytes option \<times> crypter" where
  "crypter_encrypt C plaintext c =
    (if cr_writeSequence c > kMaxSequence then (None, c)
     else
       let counter = cr_writeSequence c;
           c = c\<lparr>cr_writeSequence := counter + 1\<rparr>;
           result = cy_seal C (cr_writeKey c) (sequence_nonce counter) (pad_message plaintext) []
       in if result = [] then (None, c) else (Some result, c))"

definition crypter_decrypt :: "'k crypto \<Rightarrow> bytes \<Rightarrow> crypter \<Rightarrow> bytes option \<times> crypter" where
  "crypter_decrypt C ciphertext c =
    (if cr_readSequence c > kMaxSequence then (None, c)
     else case cy_open C (cr_readKey c) (sequence_nonce (cr_readSequence c)) ciphertext [] of
         None \<Rightarrow> (None, c)
       | Some plaintext \<Rightarrow>
           let c = c\<lparr>cr_readSequence := cr_readSequence c + 1\<rparr>
           in if plaintext = [] then (None, c)
              else
                let padding = unat (last plaintext)
                in if padding + 1 > length plaintext then (None, c)
                   else (Some (take (length plaintext - padding - 1) plaintext), c))"

section \<open>The handshake\<close>

record handshake_result =
  hr_crypter :: crypter
  hr_handshakeHash :: bytes

record 'k initiator =
  hi_psk :: bytes
  hi_localIdentity :: 'k
  hi_ephemeralKey :: "'k option"
  hi_noise :: noise

definition HandshakeInitiator :: "bytes \<Rightarrow> 'k \<Rightarrow> 'k initiator" where
  "HandshakeInitiator psk identity =
    \<lparr>hi_psk = psk, hi_localIdentity = identity, hi_ephemeralKey = None,
     hi_noise = \<lparr>n_chainingKey = replicate 32 0, n_h = replicate 32 0, n_symmetricKey = replicate 32 0,
       n_symmetricNonce = 0\<rparr>\<rparr>"

definition buildInitialMessage :: "'k crypto \<Rightarrow> 'k option \<Rightarrow> 'k initiator \<Rightarrow> bytes \<times> 'k initiator" where
  "buildInitialMessage C generated s =
    (let n = noise_init KNpsk0;
         n = mixHash C [1] n;
         n = mixHashPoint C (cy_public C (hi_localIdentity s) False) n;
         n = mixKeyAndHash C (hi_psk s) n;
         s = s\<lparr>hi_ephemeralKey := generated\<rparr>
     in case generated of
          None \<Rightarrow> ([], s\<lparr>hi_noise := n\<rparr>)
        | Some key \<Rightarrow>
            let ephemeralPublic = cy_public C key False;
                n = mixHash C ephemeralPublic n;
                n = mixKey C ephemeralPublic n;
                (ciphertext, n) = encryptAndHash C [] n
            in (ephemeralPublic @ ciphertext, s\<lparr>hi_noise := n\<rparr>))"

definition processResponse ::
  "'k crypto \<Rightarrow> bytes \<Rightarrow> 'k initiator \<Rightarrow> handshake_result option \<times> 'k initiator" where
  "processResponse C response s =
    (if length response \<noteq> kHandshakeResponseSize then (None, s)
     else case hi_ephemeralKey s of None \<Rightarrow> (None, s)
     | Some ephemeral \<Rightarrow>
         let peerPoint = take kP256X962Length response;
             ciphertext = drop kP256X962Length response;
             n = hi_noise s
         in case cy_ecdh C ephemeral peerPoint of None \<Rightarrow> (None, s)
            | Some sharedEe \<Rightarrow>
                let n = mixHash C peerPoint n;
                    n = mixKey C peerPoint n;
                    n = mixKey C sharedEe n
                in case cy_ecdh C (hi_localIdentity s) peerPoint of
                     None \<Rightarrow> (None, s\<lparr>hi_noise := n\<rparr>)
                   | Some sharedSe \<Rightarrow>
                       let n = mixKey C sharedSe n;
                           (plaintext, n) = decryptAndHash C ciphertext n;
                           s = s\<lparr>hi_noise := n\<rparr>
                       in if plaintext \<noteq> Some [] then (None, s)
                          else
                            let (writeKey, readKey) = trafficKeys C n
                            in (Some \<lparr>hr_crypter = make_crypter readKey writeKey, hr_handshakeHash = n_h n\<rparr>, s))"

text \<open>The result and the bytes appended to \<open>outResponse\<close>.\<close>

definition RespondToHandshake ::
  "'k crypto \<Rightarrow> 'k option \<Rightarrow> bytes \<Rightarrow> bytes \<Rightarrow> bytes \<Rightarrow> bytes \<Rightarrow> handshake_result option \<times> bytes" where
  "RespondToHandshake C generated psk peerIdentity message outResponse =
    (if length message < kP256X962Length then (None, outResponse)
     else
       let peerPoint = take kP256X962Length message;
           ciphertext = drop kP256X962Length message;
           n = noise_init KNpsk0;
           n = mixHash C [1] n;
           n = mixHash C peerIdentity n;
           n = mixKeyAndHash C psk n;
           n = mixHash C peerPoint n;
           n = mixKey C peerPoint n
       in case generated of None \<Rightarrow> (None, outResponse)
          | Some ephemeral \<Rightarrow>
              let (plaintext, n) = decryptAndHash C ciphertext n
              in if plaintext \<noteq> Some [] then (None, outResponse)
                 else
                   let ephemeralPublic = cy_public C ephemeral False;
                       n = mixHash C ephemeralPublic n;
                       n = mixKey C ephemeralPublic n
                   in case cy_ecdh C ephemeral peerPoint of None \<Rightarrow> (None, outResponse)
                      | Some sharedEe \<Rightarrow>
                          let n = mixKey C sharedEe n
                          in case cy_ecdh C ephemeral peerIdentity of None \<Rightarrow> (None, outResponse)
                             | Some sharedSe \<Rightarrow>
                                 let n = mixKey C sharedSe n;
                                     (myCiphertext, n) = encryptAndHash C [] n;
                                     (readKey, writeKey) = trafficKeys C n
                                 in (Some \<lparr>hr_crypter = make_crypter readKey writeKey,
                                           hr_handshakeHash = n_h n\<rparr>,
                                     outResponse @ ephemeralPublic @ myCiphertext))"


section \<open>Channels\<close>

text \<open>
  What the two ends of a sequenced channel promise each other: a message that
  was sent is received as it was, and the ends stay paired. \<open>ready n s\<close> says
  that \<open>s\<close> can still send \<open>n\<close> messages.
\<close>

fun transfer :: "(bytes \<Rightarrow> 's \<Rightarrow> bytes option \<times> 's) \<Rightarrow> (bytes \<Rightarrow> 'r \<Rightarrow> bytes option \<times> 'r)
    \<Rightarrow> bytes list \<Rightarrow> 's \<Rightarrow> 'r \<Rightarrow> bytes option list \<times> 's \<times> 'r" where
  "transfer send recv [] s r = ([], s, r)"
| "transfer send recv (m # ms) s r =
     (case send m s of
        (None, s') \<Rightarrow> (case transfer send recv ms s' r of (ms', q) \<Rightarrow> (None # ms', q))
      | (Some c, s') \<Rightarrow>
          (case recv c r of (got, r') \<Rightarrow>
            (case transfer send recv ms s' r' of (ms', q) \<Rightarrow> (got # ms', q))))"

locale sequenced_channel =
  fixes send :: "bytes \<Rightarrow> 's \<Rightarrow> bytes option \<times> 's"
    and recv :: "bytes \<Rightarrow> 'r \<Rightarrow> bytes option \<times> 'r"
    and paired :: "'s \<Rightarrow> 'r \<Rightarrow> bool"
    and ready :: "nat \<Rightarrow> 's \<Rightarrow> bool"
  assumes delivers: "paired s r \<Longrightarrow> send m s = (Some c, s') \<Longrightarrow> \<exists>r'. recv c r = (Some m, r') \<and> paired s' r'"
    and sends: "paired s r \<Longrightarrow> ready (Suc n) s \<Longrightarrow> \<exists>c s'. send m s = (Some c, s') \<and> ready n s'"
begin

lemma transfer_all:
  assumes "paired s r" and "ready (length ms) s"
  shows "\<exists>s' r'. transfer send recv ms s r = (map Some ms, s', r') \<and> paired s' r'"
  using assms
proof (induction ms arbitrary: s r)
  case Nil
  then show ?case by simp
next
  case (Cons m ms)
  from Cons.prems obtain c s1 where s: "send m s = (Some c, s1)" "ready (length ms) s1"
    using sends by (metis length_Cons)
  with Cons.prems obtain r1 where r: "recv c r = (Some m, r1)" "paired s1 r1" using delivers by blast
  from Cons.IH [OF r(2) s(2)] s r show ?case by auto
qed

end

section \<open>Laws of the primitives\<close>

text \<open>
  What is relied on: opening inverts sealing under the same key, nonce and
  associated data; sealing adds a 16 byte tag; an uncompressed P-256 point has
  65 bytes; and Diffie-Hellman agrees.
\<close>

definition crypto_laws :: "'k crypto \<Rightarrow> bool" where
  "crypto_laws C \<longleftrightarrow>
    (\<forall>key nonce m ad. cy_open C key nonce (cy_seal C key nonce m ad) ad = Some m) \<and>
    (\<forall>key nonce m ad. length (cy_seal C key nonce m ad) = length m + 16) \<and>
    (\<forall>k. length (cy_public C k False) = kP256X962Length) \<and>
    (\<forall>a b. cy_ecdh C a (cy_public C b False) \<noteq> None \<and>
      cy_ecdh C a (cy_public C b False) = cy_ecdh C b (cy_public C a False))"

lemma crypto_lawsD:
  assumes "crypto_laws C"
  shows "cy_open C key nonce (cy_seal C key nonce m ad) ad = Some m"
    and "length (cy_seal C key nonce m ad) = length m + 16"
    and "length (cy_public C k False) = kP256X962Length"
    and "\<exists>x. cy_ecdh C a (cy_public C b False) = Some x \<and> cy_ecdh C b (cy_public C a False) = Some x"
  using assms unfolding crypto_laws_def by (blast | metis not_None_eq)+

section \<open>Padding and the crypter\<close>

lemma pad_message_shape:
  obtains k where "pad_message m = m @ replicate k 0 @ [of_nat k]" "k < 32"
proof -
  let ?n = "length m"
  let ?size = "(?n + 32) div 32 * 32"
  have "?size mod 32 = 0" "?n < ?size" "?size \<le> ?n + 32" by simp_all
  define k where "k = ?size - ?n - 1"
  have size: "?size = ?n + k + 1" "k < 32"
    using \<open>?n < ?size\<close> \<open>?size \<le> ?n + 32\<close> unfolding k_def by linarith+
  have "replicate (Suc k) (0 :: byte) = replicate k 0 @ [0]" by (simp add: replicate_append_same)
  then have last: "(m @ replicate (Suc k) 0)[?n + k := of_nat k] = m @ replicate k 0 @ [of_nat k]"
    by (simp add: list_update_append)
  then show thesis
  proof (intro that [of k])
    have "?n + 1 + kPaddingGranularity - 1 = ?n + 32" by (simp add: kPaddingGranularity_def)
    moreover have "?n + k + 1 - ?n = Suc k" "?n + k + 1 - 1 = ?n + k" "Suc k - 1 = k" by simp_all
    ultimately show "pad_message m = m @ replicate k 0 @ [of_nat k]"
      using last
      by (simp only: pad_message_def Let_def kPaddingGranularity_def size)
  qed (rule size(2))
qed

lemma unpad_message:
  assumes "pad_message m = m @ replicate k 0 @ [of_nat k]" and "k < 32"
  shows "pad_message m \<noteq> []" and "unat (last (pad_message m)) = k"
    and "length (pad_message m) = length m + k + 1" and "take (length m) (pad_message m) = m"
proof -
  have "unat (of_nat k :: byte) = k" using assms(2) by (simp add: unat_of_nat)
  then show "unat (last (pad_message m)) = k" by (simp add: assms(1))
qed (simp_all add: assms(1))

lemma sequence_bound: "w \<le> kMaxSequence \<longleftrightarrow> unat w < 2 ^ 24"
  by (auto simp: kMaxSequence_def word_le_nat_alt)

lemma sequence_Suc: "unat w < 2 ^ 24 \<Longrightarrow> unat (w + 1) = Suc (unat w)" for w :: u32
  by (simp add: unat_word_ariths)

definition paired_crypters :: "'k crypto \<Rightarrow> crypter \<Rightarrow> crypter \<Rightarrow> bool" where
  "paired_crypters C a b \<longleftrightarrow>
    crypto_laws C \<and> cr_readKey b = cr_writeKey a \<and> cr_readSequence b = cr_writeSequence a"

definition can_send :: "nat \<Rightarrow> crypter \<Rightarrow> bool" where
  "can_send n c \<longleftrightarrow> unat (cr_writeSequence c) + n \<le> 2 ^ 24"

lemma crypter_delivers:
  assumes "paired_crypters C a b" and "crypter_encrypt C m a = (Some c, a')"
  shows "\<exists>b'. crypter_decrypt C c b = (Some m, b') \<and> paired_crypters C a' b'"
proof -
  have laws: "crypto_laws C" and same: "cr_readKey b = cr_writeKey a" "cr_readSequence b = cr_writeSequence a"
    using assms(1) by (simp_all add: paired_crypters_def)
  have c: "\<not> cr_writeSequence a > kMaxSequence"
    "c = cy_seal C (cr_writeKey a) (sequence_nonce (cr_writeSequence a)) (pad_message m) []"
    "a' = a\<lparr>cr_writeSequence := cr_writeSequence a + 1\<rparr>"
    using assms(2) by (auto simp: crypter_encrypt_def Let_def split: if_splits)
  obtain k where k: "pad_message m = m @ replicate k 0 @ [of_nat k]" "k < 32" by (rule pad_message_shape)
  have "crypter_decrypt C c b = (Some m, b\<lparr>cr_readSequence := cr_readSequence b + 1\<rparr>)"
    using c(1) unpad_message [OF k] by (simp add: crypter_decrypt_def c(2) same crypto_lawsD(1) [OF laws] Let_def)
  then show ?thesis using laws same by (simp add: paired_crypters_def c(3))
qed

lemma crypter_sends:
  assumes "paired_crypters C a b" and "can_send (Suc n) a"
  shows "\<exists>c a'. crypter_encrypt C m a = (Some c, a') \<and> can_send n a'"
proof -
  have laws: "crypto_laws C" using assms(1) by (simp add: paired_crypters_def)
  have seq: "unat (cr_writeSequence a) < 2 ^ 24" using assms(2) by (simp add: can_send_def)
  have "cy_seal C key nonce p ad \<noteq> []" for key nonce p ad
    using crypto_lawsD(2) [OF laws, of key nonce p ad] by auto
  moreover have "\<not> cr_writeSequence a > kMaxSequence" using seq sequence_bound by (metis linorder_not_less)
  ultimately show ?thesis
    using assms(2) sequence_Suc [OF seq] by (auto simp: crypter_encrypt_def Let_def can_send_def)
qed

interpretation crypter_channel: sequenced_channel "crypter_encrypt C" "crypter_decrypt C" "paired_crypters C" can_send
  for C
  by unfold_locales (rule crypter_delivers crypter_sends, assumption+)+


section \<open>The handshake runs through\<close>

lemma decryptAndHash_of_encrypt:
  assumes "crypto_laws C"
  shows "decryptAndHash C (fst (encryptAndHash C m n)) n = (Some m, snd (encryptAndHash C m n))"
  by (simp add: decryptAndHash_def encryptAndHash_def Let_def crypto_lawsD(1) [OF assms])

lemma encryptAndHash_length:
  assumes "crypto_laws C"
  shows "length (fst (encryptAndHash C m n)) = length m + 16"
  by (simp add: encryptAndHash_def Let_def crypto_lawsD(2) [OF assms])

text \<open>The state both sides have after the first message, and the one they end with.\<close>

definition noise_one :: "'k crypto \<Rightarrow> bytes \<Rightarrow> 'k \<Rightarrow> 'k \<Rightarrow> noise" where
  "noise_one C psk identity ephemeral =
    mixKey C (cy_public C ephemeral False) (mixHash C (cy_public C ephemeral False)
      (mixKeyAndHash C psk (mixHash C (cy_public C identity False) (mixHash C [1] (noise_init KNpsk0)))))"

definition noise_two :: "'k crypto \<Rightarrow> bytes \<Rightarrow> bytes \<Rightarrow> bytes \<Rightarrow> noise \<Rightarrow> noise" where
  "noise_two C point ee se n = mixKey C se (mixKey C ee (mixKey C point (mixHash C point n)))"

lemma initiator_first:
  "buildInitialMessage C (Some e) (HandshakeInitiator psk i) =
    (cy_public C e False @ fst (encryptAndHash C [] (noise_one C psk i e)),
     \<lparr>hi_psk = psk, hi_localIdentity = i, hi_ephemeralKey = Some e,
      hi_noise = snd (encryptAndHash C [] (noise_one C psk i e))\<rparr>)"
  by (simp add: buildInitialMessage_def HandshakeInitiator_def noise_one_def mixHashPoint_def Let_def
      split: prod.split)

lemma responder_answer:
  fixes psk :: bytes and C :: "'k crypto" and r e i :: 'k
  assumes laws: "crypto_laws C"
    and ee: "cy_ecdh C r (cy_public C e False) = Some ee" and se: "cy_ecdh C r (cy_public C i False) = Some se"
  defines "n2 \<equiv> noise_two C (cy_public C r False) ee se (snd (encryptAndHash C [] (noise_one C psk i e)))"
  shows "RespondToHandshake C (Some r) psk (cy_public C i False)
      (cy_public C e False @ fst (encryptAndHash C [] (noise_one C psk i e))) [] =
    (Some \<lparr>hr_crypter = make_crypter (fst (trafficKeys C (snd (encryptAndHash C [] n2))))
            (snd (trafficKeys C (snd (encryptAndHash C [] n2)))),
           hr_handshakeHash = n_h (snd (encryptAndHash C [] n2))\<rparr>,
     cy_public C r False @ fst (encryptAndHash C [] n2))"
proof -
  let ?n1 = "noise_one C psk i e"
  have "decryptAndHash C (fst (encryptAndHash C [] ?n1)) ?n1 = (Some [], snd (encryptAndHash C [] ?n1))"
    by (rule decryptAndHash_of_encrypt [OF laws])
  then show ?thesis
    using ee se
    by (simp add: RespondToHandshake_def crypto_lawsD(3) [OF laws] n2_def noise_two_def Let_def
        noise_one_def [symmetric] split: prod.split)
qed

lemma initiator_finish:
  fixes psk :: bytes and C :: "'k crypto" and r e i :: 'k and n :: noise
  assumes laws: "crypto_laws C"
    and ee: "cy_ecdh C e (cy_public C r False) = Some ee" and se: "cy_ecdh C i (cy_public C r False) = Some se"
  defines "n2 \<equiv> noise_two C (cy_public C r False) ee se n"
  shows "fst (processResponse C (cy_public C r False @ fst (encryptAndHash C [] n2))
      \<lparr>hi_psk = psk, hi_localIdentity = i, hi_ephemeralKey = Some e, hi_noise = n\<rparr>) =
    Some \<lparr>hr_crypter = make_crypter (snd (trafficKeys C (snd (encryptAndHash C [] n2))))
            (fst (trafficKeys C (snd (encryptAndHash C [] n2)))),
          hr_handshakeHash = n_h (snd (encryptAndHash C [] n2))\<rparr>"
proof -
  have "decryptAndHash C (fst (encryptAndHash C [] n2)) n2 = (Some [], snd (encryptAndHash C [] n2))"
    by (rule decryptAndHash_of_encrypt [OF laws])
  moreover have "length (cy_public C r False @ fst (encryptAndHash C [] n2)) = kHandshakeResponseSize"
    by (simp add: kHandshakeResponseSize_def crypto_lawsD(3) [OF laws] encryptAndHash_length [OF laws])
  ultimately show ?thesis
    using ee se
    by (simp add: processResponse_def crypto_lawsD(3) [OF laws] n2_def noise_two_def Let_def
        split: prod.split)
qed

section \<open>Properties\<close>

text \<open>
  C11: When the two sides hold the same pre-shared key and the responder knows the
  initiator's identity key, the three steps of the handshake succeed, both sides
  end with the same handshake hash, and each side's crypter is paired with the
  other's in both directions.
\<close>

theorem handshake_agrees:
  assumes laws: "crypto_laws C"
    and first: "buildInitialMessage C (Some e) (HandshakeInitiator psk i) = (message, s)"
    and answer: "RespondToHandshake C (Some r) psk (cy_public C i False) message [] = (responder, response)"
  shows "\<exists>a b. responder = Some b \<and> fst (processResponse C response s) = Some a \<and>
    hr_handshakeHash a = hr_handshakeHash b \<and>
    paired_crypters C (hr_crypter a) (hr_crypter b) \<and> paired_crypters C (hr_crypter b) (hr_crypter a)"
proof -
  obtain ee where ee: "cy_ecdh C e (cy_public C r False) = Some ee" "cy_ecdh C r (cy_public C e False) = Some ee"
    using crypto_lawsD(4) [OF laws] by blast
  obtain se where se: "cy_ecdh C i (cy_public C r False) = Some se" "cy_ecdh C r (cy_public C i False) = Some se"
    using crypto_lawsD(4) [OF laws] by blast
  from first have m: "message = cy_public C e False @ fst (encryptAndHash C [] (noise_one C psk i e))"
    and s: "s = \<lparr>hi_psk = psk, hi_localIdentity = i, hi_ephemeralKey = Some e,
      hi_noise = snd (encryptAndHash C [] (noise_one C psk i e))\<rparr>"
    by (simp_all add: initiator_first)
  show ?thesis
    using answer responder_answer [OF laws ee(2) se(2), of psk]
      initiator_finish [OF laws ee(1) se(1), of "snd (encryptAndHash C [] (noise_one C psk i e))" psk]
    by (auto simp: m s paired_crypters_def make_crypter_def laws)
qed

text \<open>A toy group and cipher that satisfy the laws, for the witnesses.\<close>

definition sample_crypto :: "nat crypto" where
  "sample_crypto = \<lparr>cy_sha256 = (\<lambda>b. replicate 32 (of_nat (length b))), cy_hkdf = (\<lambda>n s k i. replicate n 1),
    cy_seal = (\<lambda>key nonce m ad. m @ replicate 16 0),
    cy_open = (\<lambda>key nonce c ad. if length c < 16 then None else Some (take (length c - 16) c)),
    cy_public = (\<lambda>k compressed. replicate (if compressed then 33 else 65) 4),
    cy_ecdh = (\<lambda>k p. Some (replicate 32 9))\<rparr>"

lemma sample_crypto_laws: "crypto_laws sample_crypto"
  by (simp add: crypto_laws_def sample_crypto_def kP256X962Length_def)

theorem handshake_agrees_witness:
  "\<exists>(a :: handshake_result) (b :: handshake_result). paired_crypters sample_crypto (hr_crypter a) (hr_crypter b) \<and> hr_handshakeHash a = hr_handshakeHash b"
proof -
  obtain message s where first: "buildInitialMessage sample_crypto (Some 1) (HandshakeInitiator [7] 2) = (message, s)"
    by (cases "buildInitialMessage sample_crypto (Some 1) (HandshakeInitiator [7] 2)")
  obtain responder response where "RespondToHandshake sample_crypto (Some 3) [7] (cy_public sample_crypto 2 False)
      message [] = (responder, response)"
    by (cases "RespondToHandshake sample_crypto (Some 3) [7] (cy_public sample_crypto 2 False) message []")
  from handshake_agrees [OF sample_crypto_laws first this] show ?thesis by blast
qed

text \<open>
  Paired crypters deliver every message, in order and unchanged, as long as the
  sequence numbers last.
\<close>

theorem crypter_transfer:
  assumes "paired_crypters C a b" and "unat (cr_writeSequence a) + length ms \<le> 2 ^ 24"
  shows "\<exists>a' b'. transfer (crypter_encrypt C) (crypter_decrypt C) ms a b = (map Some ms, a', b') \<and>
    paired_crypters C a' b'"
  by (rule crypter_channel.transfer_all) (use assms in \<open>simp_all add: can_send_def\<close>)

theorem crypter_transfer_witness:
  "\<exists>a' b'. transfer (crypter_encrypt sample_crypto) (crypter_decrypt sample_crypto) [[1, 2], []]
      (make_crypter [1] [2]) (make_crypter [2] [1]) = ([Some [1, 2], Some []], a', b')"
  using crypter_transfer [of sample_crypto "make_crypter [1] [2]" "make_crypter [2] [1]" "[[1, 2], []]"]
  by (auto simp: paired_crypters_def sample_crypto_laws make_crypter_def)

end
