(* ===== verification/Cable_Messages.thy ===== *)
theory Cable_Messages
  imports Cbor Cable_Noise
begin

unbundle bit_operations_syntax

text \<open>
  The messages of the caBLE flow, \<open>webauthn/cable_core.cpp\<close>: the decimal encoding of
  the QR code, advertisements and tunnel addresses, the CTAP requests and their
  responses. Strings are byte lists. HMAC-SHA256 and AES-256 block decryption
  are arguments; SHA-256 and HKDF come from the record \<open>crypto\<close>.
\<close>

section \<open>Digits\<close>

definition UINT64_MAX :: nat where "UINT64_MAX = 2 ^ 64 - 1"

definition kWidths :: "nat list" where "kWidths = [0, 3, 5, 8, 10, 13, 15, 17]"

text \<open>\<open>%0*llu\<close>: the decimal digits, padded with zeros to the width.\<close>

function decimal :: "nat \<Rightarrow> bytes" where
  "decimal n = (if n < 10 then [48 + of_nat n] else decimal (n div 10) @ [48 + of_nat (n mod 10)])"
  by pat_completeness auto
termination
  by (relation "measure id") auto

declare decimal.simps [simp del]

definition printf_width :: "nat \<Rightarrow> nat \<Rightarrow> bytes" where
  "printf_width width n = (let d = decimal n in replicate (width - length d) 48 @ d)"

function BytesToDigits :: "bytes \<Rightarrow> bytes" where
  "BytesToDigits bs =
    (if bs = [] then []
     else
       let n = min (length bs) 7;
           value = (le_value (take n bs) :: u64)
       in printf_width (kWidths ! n) (unat value) @ BytesToDigits (drop n bs))"
  by pat_completeness auto
termination
  by (relation "measure length") auto

declare BytesToDigits.simps [simp del]

text \<open>The lambda \<open>parse\<close>; its check keeps the value within 64 bits.\<close>

fun parse_digits :: "nat \<Rightarrow> bytes \<Rightarrow> nat option" where
  "parse_digits value [] = Some value"
| "parse_digits value (ch # chunk) =
    (if ch < 48 \<or> ch > 57 then None
     else if value > (UINT64_MAX - unat (ch - 48)) div 10 then None
     else parse_digits (value * 10 + unat (ch - 48)) chunk)"

definition bytes_count :: "nat \<Rightarrow> nat option" where
  "bytes_count n =
    (if n = 3 then Some 1 else if n = 5 then Some 2 else if n = 8 then Some 3
     else if n = 10 then Some 4 else if n = 13 then Some 5 else if n = 15 then Some 6 else None)"

function digits_loop :: "bytes \<Rightarrow> bytes \<Rightarrow> bytes option" where
  "digits_loop result digits =
    (if length digits \<ge> 17 then
       (case parse_digits 0 (take 17 digits) of
          None \<Rightarrow> None
        | Some value \<Rightarrow>
            if value div 2 ^ 56 \<noteq> 0 then None
            else digits_loop (result @ le_bytes 7 (of_nat value :: u64)) (drop 17 digits))
     else if digits \<noteq> [] then
       (case bytes_count (length digits) of
          None \<Rightarrow> None
        | Some n \<Rightarrow>
            (case parse_digits 0 digits of
               None \<Rightarrow> None
             | Some value \<Rightarrow>
                 if n < 8 \<and> value div 2 ^ (8 * n) \<noteq> 0 then None
                 else Some (result @ le_bytes n (of_nat value :: u64))))
     else Some result)"
  by pat_completeness auto
termination
  by (relation "measure (\<lambda>(result, digits). length digits)") auto

declare digits_loop.simps [simp del]

definition DigitsToBytes :: "bytes \<Rightarrow> bytes option" where
  "DigitsToBytes digits = digits_loop [] digits"

section \<open>Advertisements and tunnel addresses\<close>

definition kAdvertSize :: nat where "kAdvertSize = 20"
definition kEidSize :: nat where "kEidSize = 16"
definition kEidKeySize :: nat where "kEidKeySize = 64"
definition kNonceSize :: nat where "kNonceSize = 10"
definition kRoutingIdSize :: nat where "kRoutingIdSize = 3"
definition kTunnelIdSize :: nat where "kTunnelIdSize = 16"
definition kPskSize :: nat where "kPskSize = 32"

definition kAssignedTunnelDomains :: "bytes list" where
  "kAssignedTunnelDomains = [ascii ''cable.ua5v.com'', ascii ''cable.auth.com'']"

text \<open>\<open>aes key block\<close> is \<open>None\<close> when the key cannot be set.\<close>

definition DecryptAdvert ::
  "(bytes \<Rightarrow> bytes \<Rightarrow> bytes) \<Rightarrow> (bytes \<Rightarrow> bytes \<Rightarrow> bytes option) \<Rightarrow> bytes \<Rightarrow> bytes \<Rightarrow> bytes option" where
  "DecryptAdvert hmac aes serviceData eidKey =
    (if length serviceData < kAdvertSize \<or> length eidKey \<noteq> kEidKeySize then None
     else
       let aesKey = take 32 eidKey;
           hmacKey = drop 32 eidKey;
           body = take 16 serviceData;
           tag = take 4 (drop 16 serviceData);
           expected = hmac hmacKey body
       in if tag \<noteq> take 4 expected then None
          else case aes aesKey body of
              None \<Rightarrow> None
            | Some plaintext \<Rightarrow>
                if plaintext ! 0 \<noteq> 0 then None
                else
                  let domain = (ucast (plaintext ! 14) OR push_bit 8 (ucast (plaintext ! 15)) :: 16 word)
                  in if domain \<ge> 256 \<or> unat domain < length kAssignedTunnelDomains then Some plaintext
                     else None)"

record eid_components =
  ec_nonce :: bytes
  ec_routingId :: bytes
  ec_tunnelServerDomain :: "16 word"

definition ToEidComponents :: "bytes \<Rightarrow> eid_components" where
  "ToEidComponents eid =
    \<lparr>ec_nonce = take kNonceSize (drop 1 eid),
     ec_routingId = take kRoutingIdSize (drop (1 + kNonceSize) eid),
     ec_tunnelServerDomain = ucast (eid ! 14) OR push_bit 8 (ucast (eid ! 15))\<rparr>"

definition kBase32 :: bytes where "kBase32 = ascii ''abcdefghijklmnopqrstuvwxyz234567''"

definition kTlds :: "bytes list" where
  "kTlds = map ascii [''.com'', ''.org'', ''.net'', ''.info'']"

function base32_loop :: "nat \<Rightarrow> bytes" where
  "base32_loop value = (if value \<noteq> 0 then kBase32 ! (value mod 32) # base32_loop (value div 32) else [])"
  by pat_completeness auto
termination
  by (relation "measure id") auto

declare base32_loop.simps [simp del]

definition DecodeTunnelServerDomain :: "'k crypto \<Rightarrow> 16 word \<Rightarrow> bytes" where
  "DecodeTunnelServerDomain C domain =
    (if domain < 256 then
       (if unat domain < length kAssignedTunnelDomains then kAssignedTunnelDomains ! unat domain else [])
     else
       let input = ascii ''caBLEv2 tunnel server domain''
             @ [ucast (domain AND 0xFF)] @ [ucast (drop_bit 8 domain)] @ [0];
           digest = cy_sha256 C input;
           value = unat (le_value (take 8 digest) :: u64)
       in ascii ''cable.'' @ base32_loop (value div 4) @ kTlds ! (value mod 4))"

definition hex_digit :: "byte \<Rightarrow> byte" where
  "hex_digit n = ascii ''0123456789abcdef'' ! unat n"

definition HexLower :: "bytes \<Rightarrow> bytes" where
  "HexLower bs = concat (map (\<lambda>b. [hex_digit (drop_bit 4 b), hex_digit (b AND 0x0F)]) bs)"

datatype derived_type = EidKey | TunnelId | Psk

definition derived_code :: "derived_type \<Rightarrow> u32" where
  "derived_code t = (case t of EidKey \<Rightarrow> 1 | TunnelId \<Rightarrow> 2 | Psk \<Rightarrow> 3)"

definition Derive :: "'k crypto \<Rightarrow> nat \<Rightarrow> bytes \<Rightarrow> bytes \<Rightarrow> derived_type \<Rightarrow> bytes" where
  "Derive C n secret nonce type =
    (let t = derived_code type;
         info = [ucast (t AND 0xFF), ucast (drop_bit 8 t AND 0xFF), ucast (drop_bit 16 t AND 0xFF),
                 ucast (drop_bit 24 t AND 0xFF)]
     in cy_hkdf C n secret nonce info)"

section \<open>QR contents and CTAP requests\<close>

record 'k qr_key =
  qr_identity :: 'k
  qr_secret :: bytes

definition EncodeQRContents :: "'k crypto \<Rightarrow> 'k qr_key \<Rightarrow> bool \<Rightarrow> u64 \<Rightarrow> bytes" where
  "EncodeQRContents C key makeCredentialHint nowUnixSeconds =
    (let m = [];
         m = m @ [(CInt 0, CBytes (cy_public C (qr_identity key) True))];
         m = m @ [(CInt 1, CBytes (qr_secret key))];
         m = m @ [(CInt 2, CInt (of_nat (length kAssignedTunnelDomains)))];
         m = m @ [(CInt 3, CInt nowUnixSeconds)];
         m = m @ [(CInt 4, CBool False)];
         m = m @ [(CInt 5, CString (if makeCredentialHint then ascii ''mc'' else ascii ''ga''))]
     in ascii ''FIDO:/'' @ BytesToDigits (CborEncode (CMap m)))"

definition text_key :: "string \<Rightarrow> cbor" where
  "text_key s = CString (ascii s)"

definition BuildMakeCredentialRequest ::
  "bytes \<Rightarrow> bytes \<Rightarrow> bytes \<Rightarrow> bytes \<Rightarrow> bytes \<Rightarrow> bytes \<Rightarrow> u64 list \<Rightarrow> bytes" where
  "BuildMakeCredentialRequest clientDataHash rpId rpName userId userName userDisplayName algorithms =
    (let params = map (\<lambda>algorithm.
           CMap [(text_key ''alg'', CInt algorithm), (text_key ''type'', text_key ''public-key'')]) algorithms;
         rp = [(text_key ''id'', CString rpId), (text_key ''name'', CString rpName)];
         user = [(text_key ''id'', CBytes userId), (text_key ''name'', CString userName),
                 (text_key ''displayName'', CString userDisplayName)];
         options = [(text_key ''rk'', CBool True), (text_key ''uv'', CBool True)];
         m = [(CInt 1, CBytes clientDataHash), (CInt 2, CMap rp), (CInt 3, CMap user),
              (CInt 4, CArray params), (CInt 7, CMap options)]
     in [0x01] @ CborEncode (CMap m))"

definition BuildGetAssertionRequest :: "bytes \<Rightarrow> bytes \<Rightarrow> bytes list \<Rightarrow> bytes" where
  "BuildGetAssertionRequest rpId clientDataHash allowCredentialIds =
    (let m = [(CInt 1, CString rpId), (CInt 2, CBytes clientDataHash)];
         allow = map (\<lambda>i. CMap [(text_key ''id'', CBytes i), (text_key ''type'', text_key ''public-key'')])
           allowCredentialIds;
         m = (if allowCredentialIds \<noteq> [] then m @ [(CInt 3, CArray allow)] else m);
         options = [(text_key ''up'', CBool True), (text_key ''uv'', CBool True)];
         m = m @ [(CInt 5, CMap options)]
     in [0x02] @ CborEncode (CMap m))"

section \<open>Responses\<close>

record make_credential_response =
  mc_authData :: bytes
  mc_credentialId :: bytes

record get_assertion_response =
  ga_credentialId :: bytes
  ga_authData :: bytes
  ga_signature :: bytes
  ga_userHandle :: bytes

record post_handshake_message =
  ph_getInfo :: bytes
  ph_protocolRevision :: nat
  ph_supportsCtap :: bool

definition kCtapSuccess :: byte where "kCtapSuccess = 0"

definition kAuthDataPrefix :: nat where "kAuthDataPrefix = 32 + 1 + 4"

definition CredentialIdFromAuthData :: "bytes \<Rightarrow> bytes option" where
  "CredentialIdFromAuthData authData =
    (if length authData < kAuthDataPrefix + 16 + 2 then None
     else
       let flags = authData ! 32
       in if flags AND 0x40 = 0 then None
          else
            let idLength = unat (push_bit 8 (ucast (authData ! (kAuthDataPrefix + 16)))
                                 OR ucast (authData ! (kAuthDataPrefix + 17)) :: u64)
            in if length authData < kAuthDataPrefix + 18 + idLength then None
               else Some (take idLength (drop (kAuthDataPrefix + 18) authData)))"

text \<open>A response with a success status whose rest decodes to a map.\<close>

definition response_map :: "bytes \<Rightarrow> cbor option" where
  "response_map payload =
    (if payload = [] \<or> payload ! 0 \<noteq> kCtapSuccess then None
     else case CborDecode (drop 1 payload) of
         None \<Rightarrow> None
       | Some v \<Rightarrow> if isMap v then Some v else None)"

definition ParseMakeCredentialResponse :: "bytes \<Rightarrow> make_credential_response option" where
  "ParseMakeCredentialResponse payload =
    (case response_map payload of None \<Rightarrow> None
     | Some parsed \<Rightarrow>
         (case cbor_find parsed 2 of
            Some (CBytes authData) \<Rightarrow>
              (case CredentialIdFromAuthData authData of None \<Rightarrow> None
               | Some credentialId \<Rightarrow> Some \<lparr>mc_authData = authData, mc_credentialId = credentialId\<rparr>)
          | _ \<Rightarrow> None))"

text \<open>\<open>id\<close> of a credential or user map, empty when it is not there.\<close>

definition id_field :: "cbor option \<Rightarrow> bytes" where
  "id_field entry =
    (case entry of
       Some (CMap m) \<Rightarrow> (case FindText m (ascii ''id'') of Some (CBytes b) \<Rightarrow> b | _ \<Rightarrow> [])
     | _ \<Rightarrow> [])"

definition ParseGetAssertionResponse :: "bytes \<Rightarrow> get_assertion_response option" where
  "ParseGetAssertionResponse payload =
    (case response_map payload of None \<Rightarrow> None
     | Some parsed \<Rightarrow>
         (case (cbor_find parsed 2, cbor_find parsed 3) of
            (Some (CBytes authData), Some (CBytes signature)) \<Rightarrow>
              Some \<lparr>ga_credentialId = id_field (cbor_find parsed 1), ga_authData = authData,
                    ga_signature = signature, ga_userHandle = id_field (cbor_find parsed 4)\<rparr>
          | _ \<Rightarrow> None))"

definition ParsePostHandshakeMessage :: "bytes \<Rightarrow> post_handshake_message option" where
  "ParsePostHandshakeMessage plaintext =
    (let (parsed, revision) =
           (case CborDecode plaintext of
              Some v \<Rightarrow> if isMap v then (Some v, 1) else (DecodePaddedCborMap plaintext, 0)
            | None \<Rightarrow> (DecodePaddedCborMap plaintext, 0))
     in case parsed of None \<Rightarrow> None
        | Some v \<Rightarrow>
            if \<not> isMap v then None
            else
              let info = (\<lambda>supports.
                    case cbor_find v 1 of
                      None \<Rightarrow> Some \<lparr>ph_getInfo = [], ph_protocolRevision = revision, ph_supportsCtap = supports\<rparr>
                    | Some (CBytes b) \<Rightarrow>
                        Some \<lparr>ph_getInfo = b, ph_protocolRevision = revision, ph_supportsCtap = supports\<rparr>
                    | Some _ \<Rightarrow> None)
              in case cbor_find v 3 of
                   None \<Rightarrow> info True
                 | Some (CArray features) \<Rightarrow> info (CString (ascii ''ctap'') \<in> set features)
                 | Some _ \<Rightarrow> None)"


section \<open>Digits of a fixed width\<close>

fun fixed :: "nat \<Rightarrow> nat \<Rightarrow> bytes" where
  "fixed 0 n = []"
| "fixed (Suc w) n = fixed w (n div 10) @ [48 + of_nat (n mod 10)]"

lemma length_fixed [simp]: "length (fixed w n) = w"
  by (induction w arbitrary: n) simp_all

lemma fixed_zero: "fixed w 0 = replicate w 48"
  by (induction w) (simp_all add: replicate_append_same)

lemma printf_width_fixed: "n < 10 ^ w \<Longrightarrow> 0 < w \<Longrightarrow> printf_width w n = fixed w n"
proof (induction w arbitrary: n)
  case 0
  then show ?case by simp
next
  case (Suc w)
  show ?case
  proof (cases "n < 10")
    case True
    then show ?thesis by (simp add: printf_width_def decimal.simps [of n] fixed_zero)
  next
    case False
    then have "w > 0" using Suc.prems by (cases w) auto
    moreover have "n div 10 < 10 ^ w" using Suc.prems(1) by simp
    ultimately have "printf_width w (n div 10) = fixed w (n div 10)" by (intro Suc.IH)
    then show ?thesis using False by (simp add: printf_width_def decimal.simps [of n] Let_def)
  qed
qed

lemma parse_digits_append:
  "parse_digits v (xs @ ys) = (case parse_digits v xs of None \<Rightarrow> None | Some u \<Rightarrow> parse_digits u ys)"
  by (induction v xs rule: parse_digits.induct) auto

lemma digit_char:
  assumes "d < 10"
  shows "\<not> (48 + of_nat d :: byte) < 48" and "\<not> (48 + of_nat d :: byte) > 57"
    and "unat ((48 + of_nat d :: byte) - 48) = d"
proof -
  have "unat (of_nat d :: byte) = d" using assms by (simp add: unat_of_nat)
  moreover from this have "unat (48 + of_nat d :: byte) = 48 + d" using assms by (simp add: unat_word_ariths)
  ultimately show "\<not> (48 + of_nat d :: byte) < 48" "\<not> (48 + of_nat d :: byte) > 57"
    "unat ((48 + of_nat d :: byte) - 48) = d"
    using assms by (simp_all add: word_less_nat_alt)
qed

lemma parse_fixed:
  "n < 10 ^ w \<Longrightarrow> v * 10 ^ w + n \<le> UINT64_MAX \<Longrightarrow> parse_digits v (fixed w n) = Some (v * 10 ^ w + n)"
proof (induction w arbitrary: n)
  case 0
  then show ?case by simp
next
  case (Suc w)
  let ?u = "v * 10 ^ w + n div 10" and ?d = "n mod 10"
  have "n div 10 < 10 ^ w" using Suc.prems(1) by simp
  have u: "?u * 10 + ?d = v * 10 ^ Suc w + n" by simp
  then have "?u * 10 + ?d \<le> UINT64_MAX" using Suc.prems(2) by (simp only:)
  moreover have "x \<le> m" if "x * 10 + d \<le> m" for x d m :: nat using that by linarith
  ultimately have "?u \<le> UINT64_MAX" by blast
  with \<open>n div 10 < 10 ^ w\<close> have "parse_digits v (fixed w (n div 10)) = Some ?u" by (rule Suc.IH)
  moreover have "\<not> ?u > (UINT64_MAX - ?d) div 10"
  proof -
    have "\<not> x > (m - d) div 10" if "x * 10 + d \<le> m" for x d m :: nat
      using that by (simp add: not_less less_eq_div_iff_mult_less_eq)
    then show ?thesis using \<open>?u * 10 + ?d \<le> UINT64_MAX\<close> by blast
  qed
  ultimately show ?case
    using digit_char [of ?d] u by (simp add: parse_digits_append)
qed

lemma parse_digits_fixed:
  "parse_digits v cs = Some u \<Longrightarrow>
    \<exists>n. n < 10 ^ length cs \<and> cs = fixed (length cs) n \<and> u = v * 10 ^ length cs + n"
proof (induction cs arbitrary: u rule: rev_induct)
  case Nil
  then show ?case by simp
next
  case (snoc c cs)
  then obtain t where t: "parse_digits v cs = Some t" and c: "\<not> c < 48" "\<not> c > 57"
    and u: "u = t * 10 + unat (c - 48)"
    by (auto simp: parse_digits_append split: option.splits if_splits)
  from snoc.IH [OF t] obtain n where n: "n < 10 ^ length cs" "cs = fixed (length cs) n"
    "t = v * 10 ^ length cs + n" by blast
  let ?d = "unat (c - 48)"
  have "unat (c - 48) = unat c - 48" using c(1) by (simp add: unat_sub_if_size word_less_nat_alt word_le_nat_alt)
  then have d: "?d < 10" using c by (simp add: word_less_nat_alt)
  have digit: "c = 48 + of_nat ?d" by simp
  have "n * 10 + ?d < 10 ^ length (cs @ [c])" using n(1) d by simp
  moreover have "cs @ [c] = fixed (length (cs @ [c])) (n * 10 + ?d)"
    using n(2) d digit by simp
  ultimately show ?case using u n(3) by (intro exI [of _ "n * 10 + ?d"]) simp
qed


section \<open>Digits and bytes\<close>

text \<open>The widths leave room for every value of so many bytes, and none is the width of two.\<close>

lemma widths:
  assumes "k \<le> 7"
  shows "256 ^ k \<le> (10 :: nat) ^ (kWidths ! k)" and "kWidths ! k \<le> 17" and "0 < k \<Longrightarrow> 0 < kWidths ! k"
    and "0 < k \<Longrightarrow> k < 7 \<Longrightarrow> kWidths ! k < 17 \<and> bytes_count (kWidths ! k) = Some k"
proof -
  have "k = 0 \<or> k = 1 \<or> k = 2 \<or> k = 3 \<or> k = 4 \<or> k = 5 \<or> k = 6 \<or> k = 7" using assms by linarith
  then show "256 ^ k \<le> (10 :: nat) ^ (kWidths ! k)" and "kWidths ! k \<le> 17" and "0 < k \<Longrightarrow> 0 < kWidths ! k"
    and "0 < k \<Longrightarrow> k < 7 \<Longrightarrow> kWidths ! k < 17 \<and> bytes_count (kWidths ! k) = Some k"
    by (elim disjE; simp add: kWidths_def bytes_count_def)+
qed

lemma bytes_count_width: "bytes_count n = Some k \<Longrightarrow> 0 < k \<and> k < 7 \<and> n = kWidths ! k"
  by (auto simp: bytes_count_def kWidths_def split: if_splits)

text \<open>One chunk: \<open>k\<close> bytes and the \<open>kWidths[k]\<close> digits they become.\<close>

definition chunk_digits :: "bytes \<Rightarrow> bytes" where
  "chunk_digits bs = fixed (kWidths ! length bs) (unat (le_value bs :: u64))"

lemma chunk_value:
  assumes "length bs \<le> 7"
  shows "unat (le_value bs :: u64) < 256 ^ length bs" and "unat (le_value bs :: u64) < 10 ^ (kWidths ! length bs)"
proof -
  show "unat (le_value bs :: u64) < 256 ^ length bs" by (rule le_value_bound) (use assms in simp)
  then show "unat (le_value bs :: u64) < 10 ^ (kWidths ! length bs)"
    using widths(1) [OF assms] by (rule order_less_le_trans)
qed

lemma parse_chunk:
  assumes "length bs \<le> 7"
  shows "parse_digits 0 (chunk_digits bs) = Some (unat (le_value bs :: u64))"
  unfolding chunk_digits_def
  using chunk_value(2) [OF assms] unsigned_less [of "le_value bs :: u64", where 'a = nat]
  by (subst parse_fixed) (simp_all add: UINT64_MAX_def)

lemma chunk_back:
  assumes "length bs \<le> 7"
  shows "le_bytes (length bs) (of_nat (unat (le_value bs :: u64)) :: u64) = bs"
  using assms by (simp add: le_bytes_le_value)

lemma chunk_unique:
  assumes "parse_digits 0 cs = Some v" and "length cs = kWidths ! k" and "v < 256 ^ k" and "k \<le> 7"
  shows "chunk_digits (le_bytes k (of_nat v :: u64)) = cs"
proof -
  obtain n where n: "cs = fixed (length cs) n" "v = n"
    using parse_digits_fixed [OF assms(1)] by auto
  have "v < 2 ^ (8 * k)" using assms(3) by (simp add: power_mult)
  moreover have "(2 :: nat) ^ (8 * k) \<le> 2 ^ 64" using assms(4) by (intro power_increasing) simp_all
  ultimately have "unat (of_nat v :: u64) = v" by (simp add: unat_of_nat)
  moreover have "take_bit (8 * k) v = v" using \<open>v < 2 ^ (8 * k)\<close> by (rule take_bit_nat_eq_self)
  ultimately have "unat (le_value (le_bytes k (of_nat v :: u64)) :: u64) = v"
    by (simp add: le_value_le_bytes unsigned_take_bit_eq)
  then show ?thesis using n assms(2) by (simp add: chunk_digits_def)
qed

lemma BytesToDigits_chunk:
  "BytesToDigits bs = (if bs = [] then [] else chunk_digits (take 7 bs) @ BytesToDigits (drop 7 bs))"
proof (cases "bs = []")
  case True
  then show ?thesis by (simp add: BytesToDigits.simps)
next
  case False
  define n where "n = min (length bs) 7"
  have n: "0 < n" "n \<le> 7" "take n bs = take 7 bs" "drop n bs = drop 7 bs" "length (take 7 bs) = n"
    using False by (auto simp: n_def min_def)
  then have "printf_width (kWidths ! n) (unat (le_value (take n bs) :: u64)) = chunk_digits (take 7 bs)"
    using chunk_value(2) [of "take 7 bs"] widths(3) [OF n(2)] by (simp add: chunk_digits_def printf_width_fixed)
  then show ?thesis
    using False n by (subst BytesToDigits.simps) (simp add: Let_def flip: n_def)
qed

lemma length_chunk_digits: "length (chunk_digits bs) = kWidths ! length bs"
  by (simp add: chunk_digits_def)

lemma digits_loop_of_bytes: "digits_loop result (BytesToDigits bs) = Some (result @ bs)"
proof (induction "length bs" arbitrary: result bs rule: less_induct)
  case less
  show ?case
  proof (cases "length bs < 7")
    case True
    show ?thesis
    proof (cases "bs = []")
      case True
      then show ?thesis by (simp add: BytesToDigits_chunk [of "[]"] digits_loop.simps)
    next
      case False
      let ?k = "length bs"
      have w: "kWidths ! ?k < 17" "bytes_count (kWidths ! ?k) = Some ?k" "0 < kWidths ! ?k"
        using widths(3,4) [of ?k] False \<open>length bs < 7\<close> by auto
      have "BytesToDigits bs = chunk_digits bs"
        using \<open>length bs < 7\<close> False by (simp add: BytesToDigits_chunk [of bs] BytesToDigits_chunk [of "[]"])
      moreover have "chunk_digits bs \<noteq> []" using w(3) length_chunk_digits [of bs] by auto
      moreover have "unat (le_value bs :: u64) div 2 ^ (8 * ?k) = 0"
        using chunk_value(1) [of bs] \<open>length bs < 7\<close> by (simp add: power_mult)
      ultimately show ?thesis
        using w \<open>length bs < 7\<close>
        by (subst digits_loop.simps) (simp add: length_chunk_digits parse_chunk le_bytes_le_value)
    qed
  next
    case False
    then have seven: "length (take 7 bs) = 7" "bs \<noteq> []" by auto
    then have len: "length (chunk_digits (take 7 bs)) = 17" by (simp add: length_chunk_digits kWidths_def)
    have b: "BytesToDigits bs = chunk_digits (take 7 bs) @ BytesToDigits (drop 7 bs)"
      using seven(2) by (simp add: BytesToDigits_chunk [of bs])
    have "unat (le_value (take 7 bs) :: u64) div 2 ^ 56 = 0"
      using chunk_value(1) [of "take 7 bs"] seven(1) by simp
    moreover have "digits_loop (result @ take 7 bs) (BytesToDigits (drop 7 bs)) = Some ((result @ take 7 bs) @ drop 7 bs)"
      by (rule less) (use False in simp)
    ultimately show ?thesis
      using len chunk_back [of "take 7 bs"] parse_chunk [of "take 7 bs"] seven(1) unfolding b
      by (subst digits_loop.simps) simp
  qed
qed

lemma digits_loop_sound:
  "digits_loop result digits = Some bs \<Longrightarrow> \<exists>tl. bs = result @ tl \<and> digits = BytesToDigits tl"
proof (induction result digits rule: digits_loop.induct)
  case (1 result digits)
  show ?case
  proof (cases "length digits \<ge> 17")
    case True
    then obtain v where v: "parse_digits 0 (take 17 digits) = Some v" "v div 2 ^ 56 = 0"
      and rest: "digits_loop (result @ le_bytes 7 (of_nat v :: u64)) (drop 17 digits) = Some bs"
      using "1.prems" by (subst (asm) digits_loop.simps) (auto split: option.splits if_splits)
    from "1.IH" [OF True v(1) _ rest] v(2) obtain tl where
      tl: "bs = (result @ le_bytes 7 (of_nat v :: u64)) @ tl" "drop 17 digits = BytesToDigits tl" by auto
    have "v < 256 ^ 7" using v(2) by simp
    then have "chunk_digits (le_bytes 7 (of_nat v :: u64)) = take 17 digits"
      using v(1) True by (intro chunk_unique) (simp_all add: kWidths_def)
    moreover have "le_bytes 7 (of_nat v :: u64) \<noteq> []" by (metis length_le_bytes list.size(3) zero_neq_numeral)
    ultimately have "BytesToDigits (le_bytes 7 (of_nat v :: u64) @ tl) = take 17 digits @ drop 17 digits"
      by (subst BytesToDigits_chunk) (simp add: tl(2))
    then show ?thesis using tl(1) by (intro exI [of _ "le_bytes 7 (of_nat v :: u64) @ tl"]) simp
  next
    case False
    show ?thesis
    proof (cases "digits = []")
      case True
      then show ?thesis using "1.prems" by (simp add: digits_loop.simps BytesToDigits_chunk [of "[]"])
    next
      case nonempty: False
      then obtain n v where n: "bytes_count (length digits) = Some n" and v: "parse_digits 0 digits = Some v"
        "n < 8 \<longrightarrow> v div 2 ^ (8 * n) = 0" and bs: "bs = result @ le_bytes n (of_nat v :: u64)"
        using "1.prems" False by (subst (asm) digits_loop.simps) (auto split: option.splits if_splits)
      from bytes_count_width [OF n] have k: "0 < n" "n < 7" "length digits = kWidths ! n" by simp_all
      have "v < 256 ^ n" using v(2) k(2) by (simp add: power_mult div_eq_0_iff)
      then have "chunk_digits (le_bytes n (of_nat v :: u64)) = digits"
        using v(1) k by (intro chunk_unique) simp_all
      moreover have "le_bytes n (of_nat v :: u64) \<noteq> []" using k(1) by (metis length_le_bytes list.size(3) less_irrefl)
      ultimately have "BytesToDigits (le_bytes n (of_nat v :: u64)) = digits"
        using k(2) by (subst BytesToDigits_chunk) (simp add: BytesToDigits_chunk [of "[]"])
      then show ?thesis using bs by blast
    qed
  qed
qed


section \<open>Maps that are read back\<close>

lemma within_mono: "within n v \<Longrightarrow> n \<le> k \<Longrightarrow> within k v"
proof (induction n arbitrary: v k)
  case 0
  then show ?case by simp
next
  case (Suc n)
  then obtain j where k: "k = Suc j" "n \<le> j" by (cases k) auto
  show ?case using Suc.prems(1) Suc.IH [OF _ k(2)] k(1)
    by (cases v) (auto simp: list_all_iff)
qed

lemma decode_encoded:
  assumes "sized v" and "within 4 v"
  shows "CborDecode (CborEncode v) = Some v"
  using CborDecode_enc [OF assms(1)] within_mono [OF assms(2)] by (simp add: kMaxCborDepth_def)

lemma within_leaf [simp]:
  "within (Suc n) (CInt i)" "within (Suc n) (CBytes b)" "within (Suc n) (CString b)" "within (Suc n) (CBool c)"
  by simp_all

lemma four: "(4 :: nat) = Suc (Suc (Suc (Suc 0)))" by simp

lemma sized_text [simp]: "sized (text_key s) \<longleftrightarrow> length s < 2 ^ 64"
  by (simp add: text_key_def ascii_def)

lemma within_text [simp]: "within (Suc n) (text_key s)"
  by (simp add: text_key_def)

section \<open>Properties\<close>

text \<open>
  The digits of a byte string decode to it, and no other digits do: the decoder
  accepts exactly what the encoder writes.
\<close>

theorem DigitsToBytes_iff:
  "DigitsToBytes digits = Some bs \<longleftrightarrow> digits = BytesToDigits bs"
  using digits_loop_of_bytes [of "[]" bs] digits_loop_sound [of "[]" digits bs]
  by (auto simp: DigitsToBytes_def)

text \<open>
  The QR code carries its key: the digits behind the scheme decode, through the
  digit and the CBOR decoder, to the compressed identity key, the secret, the
  time and the hint it was made from.
\<close>

theorem EncodeQRContents_readable:
  assumes "length (cy_public C (qr_identity key) True) < 2 ^ 64" and "length (qr_secret key) < 2 ^ 64"
  shows "take 6 (EncodeQRContents C key hint now) = ascii ''FIDO:/'' \<and>
    (\<exists>bs v. digits_loop [] (drop 6 (EncodeQRContents C key hint now)) = Some bs \<and> CborDecode bs = Some v \<and>
      cbor_find v 0 = Some (CBytes (cy_public C (qr_identity key) True)) \<and>
      cbor_find v 1 = Some (CBytes (qr_secret key)) \<and>
      cbor_find v 3 = Some (CInt now) \<and>
      cbor_find v 5 = Some (CString (if hint then ascii ''mc'' else ascii ''ga'')))"
proof -
  let ?v = "CMap [(CInt 0, CBytes (cy_public C (qr_identity key) True)), (CInt 1, CBytes (qr_secret key)),
    (CInt 2, CInt (of_nat (length kAssignedTunnelDomains))), (CInt 3, CInt now), (CInt 4, CBool False),
    (CInt 5, CString (if hint then ascii ''mc'' else ascii ''ga''))]"
  have qr: "EncodeQRContents C key hint now = ascii ''FIDO:/'' @ BytesToDigits (CborEncode ?v)"
    by (simp add: EncodeQRContents_def Let_def del: CborEncode_simps)
  have "CborDecode (CborEncode ?v) = Some ?v"
    by (rule decode_encoded) (use assms in \<open>simp_all add: ascii_def four\<close>)
  moreover have "length (ascii ''FIDO:/'') = 6" by (simp add: ascii_def)
  ultimately show ?thesis
    unfolding qr using digits_loop_of_bytes [of "[]" "CborEncode ?v"]
    by (simp add: cbor_find_def del: CborEncode_simps)
qed

theorem EncodeQRContents_readable_witness:
  "take 6 (EncodeQRContents sample_crypto \<lparr>qr_identity = 1, qr_secret = replicate 16 2\<rparr> True 77) = ascii ''FIDO:/''"
  using EncodeQRContents_readable [of sample_crypto "\<lparr>qr_identity = 1, qr_secret = replicate 16 2\<rparr>" True 77]
  by (simp add: sample_crypto_def)

text \<open>
  What follows the command byte of a make-credential request decodes to exactly
  the map of its arguments under the CTAP keys.
\<close>

theorem BuildMakeCredentialRequest_decodes:
  assumes "length hash < 2 ^ 64" "length rpId < 2 ^ 64" "length rpName < 2 ^ 64" "length userId < 2 ^ 64"
    "length userName < 2 ^ 64" "length userDisplayName < 2 ^ 64" "length algorithms < 2 ^ 64"
  shows "hd (BuildMakeCredentialRequest hash rpId rpName userId userName userDisplayName algorithms) = 1 \<and>
    CborDecode (tl (BuildMakeCredentialRequest hash rpId rpName userId userName userDisplayName algorithms)) =
      Some (CMap
        [(CInt 1, CBytes hash),
         (CInt 2, CMap [(text_key ''id'', CString rpId), (text_key ''name'', CString rpName)]),
         (CInt 3, CMap [(text_key ''id'', CBytes userId), (text_key ''name'', CString userName),
            (text_key ''displayName'', CString userDisplayName)]),
         (CInt 4, CArray (map (\<lambda>a. CMap [(text_key ''alg'', CInt a), (text_key ''type'', text_key ''public-key'')])
            algorithms)),
         (CInt 7, CMap [(text_key ''rk'', CBool True), (text_key ''uv'', CBool True)])])"
  unfolding BuildMakeCredentialRequest_def Let_def append_Cons append_Nil list.sel
  by (intro conjI refl decode_encoded) (use assms in \<open>simp_all add: four list_all_iff text_key_def ascii_def\<close>)

theorem BuildMakeCredentialRequest_decodes_witness:
  "hd (BuildMakeCredentialRequest [1] (ascii ''t.org'') (ascii ''T'') [7] (ascii ''u'') (ascii ''U'') [- 7]) = 1"
  using BuildMakeCredentialRequest_decodes
    [of "[1]" "ascii ''t.org''" "ascii ''T''" "[7]" "ascii ''u''" "ascii ''U''" "[- 7]"]
  by (simp add: ascii_def)

text \<open>
  What follows the command byte of a get-assertion request decodes to the map of
  its arguments; the list of allowed credentials is there exactly when it is not
  empty.
\<close>

theorem BuildGetAssertionRequest_decodes:
  assumes "length rpId < 2 ^ 64" "length hash < 2 ^ 64" "length ids < 2 ^ 64" "\<forall>i \<in> set ids. length i < 2 ^ 64"
  shows "hd (BuildGetAssertionRequest rpId hash ids) = 2 \<and>
    CborDecode (tl (BuildGetAssertionRequest rpId hash ids)) =
      Some (CMap
        ([(CInt 1, CString rpId), (CInt 2, CBytes hash)]
         @ (if ids = [] then [] else
             [(CInt 3, CArray (map (\<lambda>i. CMap [(text_key ''id'', CBytes i), (text_key ''type'', text_key ''public-key'')]) ids))])
         @ [(CInt 5, CMap [(text_key ''up'', CBool True), (text_key ''uv'', CBool True)])]))"
proof -
  let ?m = "[(CInt 1, CString rpId), (CInt 2, CBytes hash)]
         @ (if ids = [] then [] else
             [(CInt 3, CArray (map (\<lambda>i. CMap [(text_key ''id'', CBytes i), (text_key ''type'', text_key ''public-key'')]) ids))])
         @ [(CInt 5, CMap [(text_key ''up'', CBool True), (text_key ''uv'', CBool True)])]"
  have "BuildGetAssertionRequest rpId hash ids = 2 # CborEncode (CMap ?m)"
    by (simp add: BuildGetAssertionRequest_def Let_def del: CborEncode_simps)
  moreover have "CborDecode (CborEncode (CMap ?m)) = Some (CMap ?m)"
    by (rule decode_encoded) (use assms in \<open>auto simp: four list_all_iff text_key_def ascii_def\<close>)
  ultimately show ?thesis by simp
qed

theorem BuildGetAssertionRequest_decodes_witness:
  "hd (BuildGetAssertionRequest (ascii ''t.org'') [1] [[3], [4]]) = 2"
  using BuildGetAssertionRequest_decodes [of "ascii ''t.org''" "[1]" "[[3], [4]]"]
  by (simp add: ascii_def)


lemma take_drop_rest: "take n (drop m xs) @ drop (m + n) xs = drop m xs"
  by (metis add.commute append_take_drop_id drop_drop)

text \<open>
  The credential id is read exactly from authenticator data that has the
  attested-credential flag and, after the hash, flags, counter and AAGUID, a
  two-byte length followed by that many bytes; it is those bytes.
\<close>

theorem CredentialIdFromAuthData_iff:
  "CredentialIdFromAuthData authData = Some credentialId \<longleftrightarrow>
    (\<exists>rpHash flags middle rest.
      authData = rpHash @ [flags] @ middle @ be_bytes 2 (of_nat (length credentialId) :: u64) @ credentialId @ rest \<and>
      length rpHash = 32 \<and> length middle = 20 \<and> flags AND 0x40 \<noteq> 0 \<and> length credentialId < 65536)"
  (is "?lhs \<longleftrightarrow> ?rhs")
proof
  assume ?lhs
  define n where "n = unat (push_bit 8 (ucast (authData ! 53)) OR ucast (authData ! 54) :: u64)"
  from \<open>?lhs\<close> have len: "55 + n \<le> length authData" and flags: "authData ! 32 AND 0x40 \<noteq> 0"
    and c: "credentialId = take n (drop 55 authData)"
    by (auto simp: CredentialIdFromAuthData_def kAuthDataPrefix_def Let_def n_def split: if_splits)
  have two: "take 2 (drop 53 authData) = [authData ! 53, authData ! 54]"
    using len by (simp add: numeral_2_eq_2 take_Suc_conv_app_nth hd_drop_conv_nth take_Suc tl_drop nth_tl)
  have as_be: "push_bit 8 (ucast (authData ! 53)) OR ucast (authData ! 54) = (be_value (take 2 (drop 53 authData)) :: u64)"
    by (simp add: two be_value_def)
  have n: "length credentialId = n" using c len by simp
  have "n < 256 ^ length (take 2 (drop 53 authData))"
    unfolding n_def as_be by (rule be_value_bound) (use len in simp)
  then have small: "n < 65536" using len by simp
  have "be_bytes (length (take 2 (drop 53 authData))) (be_value (take 2 (drop 53 authData)) :: u64) = take 2 (drop 53 authData)"
    by (rule be_bytes_be_value) simp
  moreover have "length (take 2 (drop 53 authData)) = 2" by (simp only: two) simp
  ultimately have "be_bytes 2 (of_nat n :: u64) = take 2 (drop 53 authData)"
    unfolding n_def as_be by simp
  moreover have "authData = take 32 authData @ [authData ! 32] @ take 20 (drop 33 authData)
      @ take 2 (drop 53 authData) @ take n (drop 55 authData) @ drop (55 + n) authData"
  proof -
    have "[authData ! 32] = take 1 (drop 32 authData)"
      using len by (simp add: take_Suc_conv_app_nth hd_drop_conv_nth take_Suc)
    then show ?thesis
      using take_drop_rest [of n 55 authData] take_drop_rest [of 2 53 authData] take_drop_rest [of 20 33 authData]
        take_drop_rest [of 1 32 authData]
      by simp
  qed
  ultimately show ?rhs
    using len flags c n small
    by (intro exI [of _ "take 32 authData"] exI [of _ "authData ! 32"] exI [of _ "take 20 (drop 33 authData)"]
        exI [of _ "drop (55 + n) authData"]) simp
next
  assume ?rhs
  then obtain rpHash flags middle rest where
    a: "authData = rpHash @ [flags] @ middle @ be_bytes 2 (of_nat (length credentialId) :: u64) @ credentialId @ rest"
    and l: "length rpHash = 32" "length middle = 20" "flags AND 0x40 \<noteq> 0" "length credentialId < 65536"
    by blast
  let ?w = "of_nat (length credentialId) :: u64"
  have "push_bit 8 (ucast (ucast (drop_bit 8 ?w) :: byte)) OR ucast (ucast ?w :: byte)
      = (be_value (be_bytes 2 ?w) :: u64)"
    by (simp add: be_bytes_2 be_value_def)
  also have "\<dots> = take_bit 16 ?w" by (simp add: be_value_be_bytes)
  finally have "unat (push_bit 8 (ucast (ucast (drop_bit 8 ?w) :: byte)) OR ucast (ucast ?w :: byte) :: u64)
      = length credentialId"
    using l(4) by (simp add: unsigned_take_bit_eq unat_of_nat take_bit_nat_eq_self)
  moreover have "authData ! 53 = ucast (drop_bit 8 ?w)" "authData ! 54 = ucast ?w" "authData ! 32 = flags"
    using l by (simp_all add: a nth_append be_bytes_2)
  moreover have "drop 55 authData = credentialId @ rest" using l by (simp add: a be_bytes_2)
  moreover have "length authData \<ge> 55 + length credentialId" using l by (simp add: a)
  ultimately show ?lhs
    using l(3) by (simp add: CredentialIdFromAuthData_def kAuthDataPrefix_def Let_def)
qed


text \<open>
  An advertisement that is accepted always names a tunnel server: the domain of
  its decrypted identifier, read by \<open>ToEidComponents\<close>, is never decoded to the
  empty string.
\<close>

theorem DecryptAdvert_names_server:
  assumes "DecryptAdvert hmac aes serviceData eidKey = Some eid"
  shows "DecodeTunnelServerDomain C (ec_tunnelServerDomain (ToEidComponents eid)) \<noteq> []"
proof -
  let ?d = "ec_tunnelServerDomain (ToEidComponents eid)"
  have "?d \<ge> 256 \<or> unat ?d < length kAssignedTunnelDomains"
    using assms by (auto simp: DecryptAdvert_def Let_def ToEidComponents_def split: if_splits option.splits)
  moreover have "length kAssignedTunnelDomains = 2" by (simp add: kAssignedTunnelDomains_def)
  ultimately show ?thesis
    by (auto simp: DecodeTunnelServerDomain_def Let_def kAssignedTunnelDomains_def ascii_def less_2_cases_iff
        nth_Cons not_less split: nat.split)
qed

theorem DecryptAdvert_names_server_witness:
  "DecodeTunnelServerDomain sample_crypto (ec_tunnelServerDomain (ToEidComponents (replicate 16 0))) \<noteq> []"
  by (rule DecryptAdvert_names_server
      [of "\<lambda>k b. replicate 32 5" "\<lambda>k b. Some (replicate 16 0)" "replicate 16 1 @ replicate 4 5" "replicate 64 2"])
    (simp add: DecryptAdvert_def kAdvertSize_def kEidKeySize_def kAssignedTunnelDomains_def)

lemma decode_map_then_more:
  assumes "encodable v" and "r \<noteq> []"
  shows "CborDecode (CborEncode v @ r) = None"
proof -
  have "decode_levels (kMaxCborDepth + 1) (cr_at [] (CborEncode v @ r)) = Some (v, cr_at ([] @ CborEncode v) r)"
    using decode_levels_enc [of v "kMaxCborDepth + 1" "[]" r] assms(1) by (simp only: encodable_def if_True)
  then show ?thesis
    using assms(2) by (simp add: CborDecode_def DecodeOne_def cr_at_def del: decode_levels.simps)
qed

text \<open>
  A padded post-handshake message means the same as the unpadded one, except that
  it is read at protocol revision 0 and the unpadded one at revision 1.
\<close>

theorem ParsePostHandshakeMessage_padded:
  assumes "encodable (CMap m)" and "length pad = unat lo + 256 * unat hi"
  shows "ParsePostHandshakeMessage (CborEncode (CMap m) @ pad @ [lo, hi]) =
    map_option (ph_protocolRevision_update (\<lambda>_. 0)) (ParsePostHandshakeMessage (CborEncode (CMap m))) \<and>
    map_option ph_protocolRevision (ParsePostHandshakeMessage (CborEncode (CMap m))) \<in> {None, Some 1}"
proof -
  let ?e = "CborEncode (CMap m)"
  have plain: "CborDecode ?e = Some (CMap m)"
    using CborDecode_enc [of "CMap m"] assms(1) by (simp add: encodable_def del: CborEncode_simps within.simps)
  have whole: "CborDecode (?e @ pad @ [lo, hi]) = None" by (rule decode_map_then_more) (use assms(1) in simp_all)
  let ?i = "?e @ pad @ [lo, hi]"
  have n: "length ?i = length ?e + length pad + 2" by simp
  have "?i ! (length ?i - 2) = lo" and "?i ! (length ?i - 1) = hi"
    by (simp_all add: nth_append del: CborEncode_simps)
  then have padded: "DecodePaddedCborMap ?i = Some (CMap m)"
    using assms(2) plain
    by (simp add: DecodePaddedCborMap_def decode_map_prefix_def isMap_def Let_def del: CborEncode_simps)
  have "ParsePostHandshakeMessage ?i = map_option (ph_protocolRevision_update (\<lambda>_. 0)) (ParsePostHandshakeMessage ?e)"
    by (auto simp: ParsePostHandshakeMessage_def plain whole padded isMap_def Let_def simp del: CborEncode_simps
        split: option.split cbor.split)
  moreover have "map_option ph_protocolRevision (ParsePostHandshakeMessage ?e) \<in> {None, Some 1}"
    by (auto simp: ParsePostHandshakeMessage_def plain isMap_def Let_def simp del: CborEncode_simps
        split: option.split cbor.split)
  ultimately show ?thesis by blast
qed

theorem ParsePostHandshakeMessage_padded_witness:
  "ParsePostHandshakeMessage (CborEncode (CMap [(CInt 1, CBytes [9])]) @ [0, 0, 0] @ [3, 0]) =
    Some \<lparr>ph_getInfo = [9], ph_protocolRevision = 0, ph_supportsCtap = True\<rparr>"
proof -
  have "within 4 (CMap [(CInt 1, CBytes [9])])" by (simp add: four)
  then have "within (kMaxCborDepth + 1) (CMap [(CInt 1, CBytes [9])])"
    by (rule within_mono) (simp add: kMaxCborDepth_def)
  then have e: "encodable (CMap [(CInt 1, CBytes [9])])" by (simp add: encodable_def del: within.simps)
  then have "CborDecode (CborEncode (CMap [(CInt 1, CBytes [9])])) = Some (CMap [(CInt 1, CBytes [9])])"
    using CborDecode_enc [of "CMap [(CInt 1, CBytes [9])]"] by (simp only: encodable_def if_True)
  then have "ParsePostHandshakeMessage (CborEncode (CMap [(CInt 1, CBytes [9])])) =
      Some \<lparr>ph_getInfo = [9], ph_protocolRevision = 1, ph_supportsCtap = True\<rparr>"
    by (simp add: ParsePostHandshakeMessage_def isMap_def cbor_find_def del: CborEncode_simps)
  with ParsePostHandshakeMessage_padded [OF e, of "[0, 0, 0]" 3 0] show ?thesis
    by (simp del: CborEncode_simps)
qed

end
