(* ===== verification/Web_Socket.thy ===== *)
theory Web_Socket
  imports Byte_Words
begin

unbundle bit_operations_syntax

text \<open>
  The WebSocket client, \<open>core/websocket_client.h\<close> and \<open>.cpp\<close>: the frame format
  with masking, the upgrade response, the incremental parser that calls the
  handlers, and the life of a connection. The socket is the list of what has
  been asked of it; SHA-1, base64, the QByteArray text helpers and random bytes
  are the record \<open>ws_env\<close>. A handler is a function on the client, since it may
  send or close; \<open>ws_user\<close> is the state of its owner.
\<close>

section \<open>State\<close>

definition kOpcodeContinuation :: byte where "kOpcodeContinuation = 0x0"
definition kOpcodeText :: byte where "kOpcodeText = 0x1"
definition kOpcodeBinary :: byte where "kOpcodeBinary = 0x2"
definition kOpcodeClose :: byte where "kOpcodeClose = 0x8"
definition kOpcodePing :: byte where "kOpcodePing = 0x9"
definition kOpcodePong :: byte where "kOpcodePong = 0xA"
definition kMaxWsPayload :: u64 where "kMaxWsPayload = 4 * 1024 * 1024"
definition kMaxUpgradeResponse :: nat where "kMaxUpgradeResponse = 8 * 1024"
definition kAcceptGuid :: bytes where "kAcceptGuid = ascii ''258EAFA5-E914-47DA-95CA-C5AB0DC85B11''"
definition kSecureDefaultPort :: nat where "kSecureDefaultPort = 443"

datatype ws_state = Idle | Connecting | WaitingUpgrade | Connected | Closed

datatype socket_call = ConnectHost bytes nat | SocketWrite bytes | SocketAbort

record 'u ws =
  ws_host :: bytes
  ws_target :: bytes
  ws_subprotocol :: bytes
  ws_key :: bytes
  ws_incoming :: bytes
  ws_state :: ws_state
  ws_port :: nat
  ws_failed :: bool
  ws_socket :: "socket_call list"
  ws_user :: 'u

record 'u ws_env =
  we_onConnected :: "('u ws \<Rightarrow> 'u ws) option"
  we_onText :: "(bytes \<Rightarrow> 'u ws \<Rightarrow> 'u ws) option"
  we_onBinary :: "(bytes \<Rightarrow> 'u ws \<Rightarrow> 'u ws) option"
  we_onClosed :: "('u ws \<Rightarrow> 'u ws) option"
  we_onActivity :: "('u ws \<Rightarrow> 'u ws) option"
  we_random :: "nat \<Rightarrow> socket_call list \<Rightarrow> bytes"
  we_sha1 :: "bytes \<Rightarrow> bytes"
  we_toBase64 :: "bytes \<Rightarrow> bytes"
  we_trimmed :: "bytes \<Rightarrow> bytes"
  we_toLower :: "bytes \<Rightarrow> bytes"
  we_number :: "nat \<Rightarrow> bytes"

definition call0 :: "('u ws \<Rightarrow> 'u ws) option \<Rightarrow> 'u ws \<Rightarrow> 'u ws" where
  "call0 handler c = (case handler of None \<Rightarrow> c | Some f \<Rightarrow> f c)"

definition socket_do :: "socket_call \<Rightarrow> 'u ws \<Rightarrow> 'u ws" where
  "socket_do x c = c\<lparr>ws_socket := ws_socket c @ [x]\<rparr>"

section \<open>Frames\<close>

definition mask_with :: "bytes \<Rightarrow> bytes \<Rightarrow> bytes" where
  "mask_with m payload = map (\<lambda>i. payload ! i XOR m ! (i mod 4)) [0..<length payload]"

definition frame_of :: "bytes \<Rightarrow> byte \<Rightarrow> bytes \<Rightarrow> bytes" where
  "frame_of m opcode payload =
    (let length = (of_nat (length payload) :: u64)
     in [0x80 OR opcode]
        @ (if length < 126 then [0x80 OR ucast length]
           else if length \<le> 0xFFFF then
             [0x80 OR 126, ucast (drop_bit 8 length AND 0xFF), ucast (length AND 0xFF)]
           else [0x80 OR 127] @ be_bytes 8 length)
        @ m @ mask_with m payload)"

definition writeFrame :: "'u ws_env \<Rightarrow> bytes \<Rightarrow> byte \<Rightarrow> 'u ws \<Rightarrow> 'u ws" where
  "writeFrame E payload opcode c =
    socket_do (SocketWrite (frame_of (we_random E 4 (ws_socket c)) opcode payload)) c"

text \<open>The part of the loop of \<open>parseFrames\<close> that reads one frame from the bytes before the offset.\<close>

datatype take_result = NeedMore | TooLong | Taken byte bytes nat

definition read_length :: "bytes \<Rightarrow> (u64 \<times> nat) option" where
  "read_length data =
    (let length7 = (ucast (data ! 1 AND 0x7F) :: u64)
     in if length7 = 126 then
          (if length data < 4 then None
           else Some (push_bit 8 (ucast (data ! 2)) OR ucast (data ! 3), 4))
        else if length7 = 127 then
          (if length data < 10 then None else Some (be_value (take 8 (drop 2 data)), 10))
        else Some (length7, 2))"

definition take_ws_frame :: "bytes \<Rightarrow> take_result" where
  "take_ws_frame data =
    (if length data < 2 then NeedMore
     else
       let first = data ! 0; second = data ! 1;
           opcode = first AND 0x0F;
           masked = (second AND 0x80 \<noteq> 0)
       in case read_length data of None \<Rightarrow> NeedMore
          | Some (len, header) \<Rightarrow>
              if len > kMaxWsPayload then TooLong
              else
                let header = (if masked then header + 4 else header)
                in if length data < header + unat len then NeedMore
                   else
                     let payload = take (unat len) (drop header data);
                         m = take 4 (drop (header - 4) data)
                     in Taken opcode (if masked then mask_with m payload else payload) (header + unat len))"

text \<open>The switch on the opcode: whether the loop goes on, \<open>closed\<close>, and the client.\<close>

definition ws_dispatch :: "'u ws_env \<Rightarrow> byte \<Rightarrow> bytes \<Rightarrow> 'u ws \<Rightarrow> bool \<times> bool \<times> 'u ws" where
  "ws_dispatch E opcode payload c =
    (let deliver = (\<lambda>handler.
           (if payload = [] then (True, False, c)
            else case handler of None \<Rightarrow> (True, False, c)
            | Some f \<Rightarrow> let c' = f payload c in (True, ws_state c' \<noteq> Connected, c')))
     in if opcode = kOpcodeContinuation \<or> opcode = kOpcodeBinary then deliver (we_onBinary E)
        else if opcode = kOpcodeText then deliver (we_onText E)
        else if opcode = kOpcodeClose then (False, False, c)
        else if opcode = kOpcodePing then (True, False, writeFrame E payload kOpcodePong c)
        else if opcode = kOpcodePong then (True, False, c)
        else (False, False, c))"

lemma take_ws_frame_pos: "take_ws_frame data = Taken opcode payload n \<Longrightarrow> 0 < n \<and> n \<le> length data"
  by (auto simp: take_ws_frame_def read_length_def Let_def split: if_splits)

function ws_loop :: "'u ws_env \<Rightarrow> bytes \<Rightarrow> nat \<Rightarrow> bool \<Rightarrow> 'u ws \<Rightarrow> bool \<times> nat \<times> 'u ws" where
  "ws_loop E data offset closed c =
    (if closed then (True, offset, c)
     else case take_ws_frame (drop offset data) of
         NeedMore \<Rightarrow> (True, offset, c)
       | TooLong \<Rightarrow> (False, offset, c)
       | Taken opcode payload n \<Rightarrow>
           (case ws_dispatch E opcode payload (call0 (we_onActivity E) c) of
              (False, _, c') \<Rightarrow> (False, offset + n, c')
            | (True, closed', c') \<Rightarrow> ws_loop E data (offset + n) closed' c'))"
  by pat_completeness auto
termination
  by (relation "measure (\<lambda>(E, data, offset, closed, c). length data - offset)")
    (auto dest!: take_ws_frame_pos)

declare ws_loop.simps [simp del]

definition parseFrames :: "'u ws_env \<Rightarrow> 'u ws \<Rightarrow> bool \<times> 'u ws" where
  "parseFrames E c =
    (case ws_loop E (ws_incoming c) 0 False c of
       (False, _, c') \<Rightarrow> (False, c')
     | (True, offset, c') \<Rightarrow>
         (True, if offset > 0 then c'\<lparr>ws_incoming := drop offset (ws_incoming c')\<rparr> else c'))"

section \<open>Connection\<close>

definition connectTo :: "'u ws_env \<Rightarrow> bytes \<Rightarrow> nat \<Rightarrow> bytes \<Rightarrow> bytes \<Rightarrow> 'u ws \<Rightarrow> 'u ws" where
  "connectTo E host port requestTarget subprotocol c =
    (if ws_state c \<noteq> Idle then c
     else socket_do (ConnectHost host port)
       (c\<lparr>ws_host := host, ws_port := port, ws_target := requestTarget, ws_subprotocol := subprotocol,
          ws_state := Connecting\<rparr>))"

definition crlf :: bytes where "crlf = [13, 10]"

definition sendUpgradeRequest :: "'u ws_env \<Rightarrow> 'u ws \<Rightarrow> 'u ws" where
  "sendUpgradeRequest E c =
    (let key = we_toBase64 E (we_random E 16 (ws_socket c));
         c = c\<lparr>ws_key := key\<rparr>;
         host = (if ws_port c = kSecureDefaultPort then ws_host c
                 else ws_host c @ ascii '':'' @ we_number E (ws_port c));
         request = ascii ''GET '' @ ws_target c @ ascii '' HTTP/1.1'' @ crlf
           @ ascii ''Host: '' @ host @ crlf
           @ ascii ''Upgrade: websocket'' @ crlf
           @ ascii ''Connection: Upgrade'' @ crlf
           @ ascii ''Sec-WebSocket-Key: '' @ key @ crlf
           @ ascii ''Sec-WebSocket-Version: 13'' @ crlf;
         request = (if ws_subprotocol c \<noteq> [] then
             request @ ascii ''Sec-WebSocket-Protocol: '' @ ws_subprotocol c @ crlf else request);
         request = request @ crlf
     in socket_do (SocketWrite request) c)"

definition onSslConnected :: "'u ws_env \<Rightarrow> 'u ws \<Rightarrow> 'u ws" where
  "onSslConnected E c =
    (if ws_state c \<noteq> Connecting then c
     else sendUpgradeRequest E (c\<lparr>ws_state := WaitingUpgrade\<rparr>))"

text \<open>\<open>indexOf\<close> of a byte string and of a byte, and \<open>split\<close>.\<close>

fun index_of :: "bytes \<Rightarrow> bytes \<Rightarrow> nat option" where
  "index_of pat [] = (if pat = [] then Some 0 else None)"
| "index_of pat (b # bs) =
     (if take (length pat) (b # bs) = pat then Some 0 else map_option Suc (index_of pat bs))"

fun split_lines :: "bytes \<Rightarrow> bytes list" where
  "split_lines [] = [[]]"
| "split_lines (b # bs) =
     (if b = 10 then [] # split_lines bs
      else (case split_lines bs of [] \<Rightarrow> [[b]] | l # ls \<Rightarrow> (b # l) # ls))"

fun accept_line :: "'u ws_env \<Rightarrow> bytes \<Rightarrow> bytes list \<Rightarrow> bool" where
  "accept_line E expected [] = False"
| "accept_line E expected (line # lines) =
     (case index_of [58] line of
        None \<Rightarrow> accept_line E expected lines
      | Some colon \<Rightarrow>
          if we_toLower E (we_trimmed E (take colon line)) \<noteq> ascii ''sec-websocket-accept''
          then accept_line E expected lines
          else we_trimmed E (drop (colon + 1) line) = expected)"

definition expected_accept :: "'u ws_env \<Rightarrow> bytes \<Rightarrow> bytes" where
  "expected_accept E key = we_toBase64 E (we_sha1 E (key @ kAcceptGuid))"

definition readUpgradeResponse :: "'u ws_env \<Rightarrow> 'u ws \<Rightarrow> bool \<times> 'u ws" where
  "readUpgradeResponse E c =
    (case index_of (crlf @ crlf) (ws_incoming c) of
       None \<Rightarrow> (length (ws_incoming c) < kMaxUpgradeResponse, c)
     | Some stop \<Rightarrow>
         let head = take stop (ws_incoming c);
             lines = split_lines head;
             status = we_trimmed E (hd lines)
         in if index_of (ascii '' 101'') status = None then (False, c)
            else if \<not> accept_line E (expected_accept E (ws_key c)) lines then (False, c)
            else (True, call0 (we_onConnected E)
                   (c\<lparr>ws_incoming := drop (stop + 4) (ws_incoming c), ws_state := Connected\<rparr>)))"

definition ws_fail :: "'u ws_env \<Rightarrow> 'u ws \<Rightarrow> 'u ws" where
  "ws_fail E c =
    (if ws_failed c \<or> ws_state c = Closed then c
     else call0 (we_onClosed E) (c\<lparr>ws_failed := True, ws_state := Closed\<rparr>))"

definition finish_read :: "'u ws_env \<Rightarrow> 'u ws \<Rightarrow> 'u ws" where
  "finish_read E c = (case parseFrames E c of (False, c') \<Rightarrow> ws_fail E c' | (True, c') \<Rightarrow> c')"

definition onReadyRead :: "'u ws_env \<Rightarrow> bytes \<Rightarrow> 'u ws \<Rightarrow> 'u ws" where
  "onReadyRead E read c =
    (if ws_state c = WaitingUpgrade then
       (case readUpgradeResponse E (c\<lparr>ws_incoming := ws_incoming c @ read\<rparr>) of
          (False, c') \<Rightarrow> ws_fail E c'
        | (True, c') \<Rightarrow> if ws_state c' \<noteq> Connected then c' else finish_read E c')
     else if ws_state c = Connected then
       finish_read E (c\<lparr>ws_incoming := ws_incoming c @ read\<rparr>)
     else c)"

definition sendText :: "'u ws_env \<Rightarrow> bytes \<Rightarrow> 'u ws \<Rightarrow> 'u ws" where
  "sendText E message c = (if ws_state c \<noteq> Connected then c else writeFrame E message kOpcodeText c)"

definition sendBinary :: "'u ws_env \<Rightarrow> bytes \<Rightarrow> 'u ws \<Rightarrow> 'u ws" where
  "sendBinary E message c = (if ws_state c \<noteq> Connected then c else writeFrame E message kOpcodeBinary c)"

definition ws_close :: "'u ws_env \<Rightarrow> 'u ws \<Rightarrow> 'u ws" where
  "ws_close E c =
    (let c = (if ws_state c = Connected then writeFrame E [] kOpcodeClose c else c);
         c = c\<lparr>ws_state := Closed\<rparr>
     in socket_do SocketAbort c)"


section \<open>Masking and the frame codec\<close>

lemma length_mask_with [simp]: "length (mask_with m payload) = length payload"
  by (simp add: mask_with_def)

lemma mask_with_twice: "mask_with m (mask_with m payload) = payload"
  by (rule nth_equalityI) (simp_all add: mask_with_def xor.assoc)

definition valid_ws_frame :: "bytes \<Rightarrow> byte \<times> bytes \<Rightarrow> bool" where
  "valid_ws_frame m f \<longleftrightarrow> fst f < 16 \<and> length m = 4 \<and> length (snd f) \<le> unat kMaxWsPayload"

lemma opcode_bits:
  assumes "opcode < (16 :: byte)"
  shows "(0x80 OR opcode) AND 0x0F = opcode"
proof -
  have w: "take_bit 4 opcode = opcode"
    using assms by (simp add: word_unat_eq_iff unsigned_take_bit_eq take_bit_nat_eq_self word_less_nat_alt)
  have "(0x80 OR opcode) AND mask 4 = take_bit 4 (0x80 OR opcode)" by (simp add: take_bit_eq_mask and.commute)
  also have "\<dots> = take_bit 4 (0x80 :: byte) OR take_bit 4 opcode" by (rule take_bit_or)
  also have "take_bit 4 (0x80 :: byte) = 0" by simp
  finally show ?thesis using w by (simp add: mask_eq_exp_minus_1)
qed

lemma length7_bits:
  assumes "w < (128 :: byte)"
  shows "(0x80 OR w) AND 0x7F = w" and "(0x80 OR w) AND 0x80 \<noteq> 0"
proof -
  have w: "take_bit 7 w = w"
    using assms by (simp add: word_unat_eq_iff unsigned_take_bit_eq take_bit_nat_eq_self word_less_nat_alt)
  have "(0x80 OR w) AND mask 7 = take_bit 7 (0x80 OR w)" by (simp add: take_bit_eq_mask and.commute)
  also have "\<dots> = take_bit 7 (0x80 :: byte) OR take_bit 7 w" by (rule take_bit_or)
  also have "take_bit 7 (0x80 :: byte) = 0" by simp
  finally show "(0x80 OR w) AND 0x7F = w" using w by (simp add: mask_eq_exp_minus_1)
  have "bit ((0x80 OR w) AND 0x80) 7" by (simp add: bit_and_iff bit_or_iff)
  then show "(0x80 OR w) AND 0x80 \<noteq> 0" by auto
qed

lemma low_byte: "ucast (w AND 0xFF) = (ucast w :: byte)" for w :: u64
proof -
  have "w AND mask 8 = take_bit 8 w" by (simp add: take_bit_eq_mask)
  moreover have "ucast (take_bit 8 w) = (ucast w :: byte)"
    by (rule bit_word_eqI) (auto simp: bit_ucast_iff bit_take_bit_iff)
  ultimately show ?thesis by (simp add: mask_eq_exp_minus_1)
qed

text \<open>The head of a masked frame, as the writer puts it: two bytes and the extended length.\<close>

definition ws_head :: "byte \<Rightarrow> u64 \<Rightarrow> bytes" where
  "ws_head opcode len =
    [0x80 OR opcode]
    @ (if len < 126 then [0x80 OR ucast len]
       else if len \<le> 0xFFFF then [0x80 OR 126, ucast (drop_bit 8 len AND 0xFF), ucast (len AND 0xFF)]
       else [0x80 OR 127] @ be_bytes 8 len)"

lemma ws_head_read:
  obtains s where "ws_head opcode len ! 1 = 0x80 OR s" "s < 128"
    "\<And>r. read_length (ws_head opcode len @ r) = Some (len, length (ws_head opcode len))"
proof -
  consider "len < 126" | "126 \<le> len" "len \<le> 0xFFFF" | "0xFFFF < len" by (meson linorder_not_less)
  then show thesis
  proof cases
    case 1
    have u: "unat (ucast len :: byte) = unat len"
      using 1 by (simp add: unsigned_ucast_eq take_bit_nat_eq_self word_less_nat_alt)
    then have small: "(ucast len :: byte) < 128" "(ucast len :: byte) < 126" using 1 by (simp_all add: word_less_nat_alt)
    have "take_bit 8 len = len"
      using 1 by (simp add: word_unat_eq_iff unsigned_take_bit_eq take_bit_nat_eq_self word_less_nat_alt)
    moreover have "ucast (ucast len :: byte) = take_bit 8 len"
      by (rule bit_word_eqI) (auto simp: bit_ucast_iff bit_take_bit_iff)
    ultimately have "ucast (ucast len :: byte) = len" by simp
    moreover have "len \<noteq> 126" "len \<noteq> 127" using 1 by auto
    ultimately show thesis
      using 1 small length7_bits [OF small(1)]
      by (intro that [of "ucast len"]) (simp_all add: ws_head_def read_length_def)
  next
    case 2
    have "take_bit 16 len = len"
      using 2 by (simp add: word_unat_eq_iff unsigned_take_bit_eq take_bit_nat_eq_self word_le_nat_alt)
    then have "be_value (be_bytes 2 len) = len" by (simp add: be_value_be_bytes)
    moreover have "be_bytes 2 len = [ucast (drop_bit 8 len), ucast len]" by (simp add: be_bytes_def upt_rec)
    ultimately have "push_bit 8 (ucast (ucast (drop_bit 8 len) :: byte)) OR ucast (ucast len :: byte) = len"
      by (simp add: be_value_def)
    moreover have "\<not> len < 126" using 2 by (simp add: not_less)
    ultimately show thesis
      using 2 length7_bits [of 126]
      by (intro that [of 126]) (simp_all add: ws_head_def read_length_def low_byte)
  next
    case 3
    have "be_value (be_bytes 8 len) = len" by (rule be_value_be_bytes_full) simp
    moreover have "\<not> len < 126" "\<not> len \<le> 0xFFFF" using 3 by (simp_all add: word_less_nat_alt word_le_nat_alt)
    ultimately show thesis
      using length7_bits [of 127]
      by (intro that [of 127]) (simp_all add: ws_head_def read_length_def)
  qed
qed

lemma frame_of_head: "frame_of m opcode payload = ws_head opcode (of_nat (length payload)) @ m @ mask_with m payload"
  by (simp add: frame_of_def ws_head_def Let_def)

lemma take_ws_frame_of:
  assumes "valid_ws_frame m (opcode, payload)"
  shows "take_ws_frame (frame_of m opcode payload @ rest) = Taken opcode payload (length (frame_of m opcode payload))"
proof -
  let ?len = "of_nat (length payload) :: u64" and ?f = "frame_of m opcode payload"
  have small: "length payload \<le> 4 * 1024 * 1024"
    using assms by (simp add: valid_ws_frame_def kMaxWsPayload_def)
  then have len: "unat ?len = length payload" "\<not> ?len > kMaxWsPayload"
    by (simp_all add: unat_of_nat kMaxWsPayload_def word_less_nat_alt)
  obtain s where s: "ws_head opcode ?len ! 1 = 0x80 OR s" "s < 128"
    and read: "\<And>r. read_length (ws_head opcode ?len @ r) = Some (?len, length (ws_head opcode ?len))"
    by (rule ws_head_read) blast
  have two: "2 \<le> length (ws_head opcode ?len)" and zero: "ws_head opcode ?len ! 0 = 0x80 OR opcode"
    by (simp_all add: ws_head_def)
  let ?h = "ws_head opcode ?len"
  have f: "?f @ rest = ?h @ m @ mask_with m payload @ rest" by (simp add: frame_of_head)
  have m: "length m = 4" and op: "opcode < 16" using assms by (simp_all add: valid_ws_frame_def)
  have d0: "(?f @ rest) ! 0 = 0x80 OR opcode"
  proof -
    have "0 < length ?h" using two by linarith
    then show ?thesis using zero unfolding f by (simp only: nth_append if_True)
  qed
  have d1: "(?f @ rest) ! 1 = 0x80 OR s"
  proof -
    have "1 < length ?h" using two by linarith
    then show ?thesis using s(1) unfolding f by (simp only: nth_append if_True)
  qed
  have l: "read_length (?f @ rest) = Some (?len, length ?h)" unfolding f by (rule read)
  have n: "length ?f = length ?h + 4 + length payload" using m by (simp add: frame_of_head)
  have "take 4 (drop (length ?h + 4 - 4) (?f @ rest)) = m" using m unfolding f by simp
  moreover have "take (length payload) (drop (length ?h + 4) (?f @ rest)) = mask_with m payload"
    using m unfolding f by simp
  moreover have "\<not> length (?f @ rest) < 2" using two n by simp
  moreover have "\<not> length (?f @ rest) < length ?h + 4 + length payload" using n by simp
  ultimately show ?thesis
    unfolding take_ws_frame_def
    using opcode_bits [OF op] length7_bits(2) [OF s(2)] len n
    by (simp only: Let_def d0 d1 l option.case prod.case if_True if_False mask_with_twice simp_thms)
qed

text \<open>A masked frame honours the codec contract, for every mask.\<close>

definition ws_dec :: "bytes \<Rightarrow> ((byte \<times> bytes) \<times> bytes) option" where
  "ws_dec data = (case take_ws_frame data of Taken opcode payload n \<Rightarrow> Some ((opcode, payload), drop n data) | _ \<Rightarrow> None)"

interpretation ws_frames: prefix_codec "\<lambda>f. frame_of m (fst f) (snd f)" ws_dec "valid_ws_frame m" for m
  by unfold_locales (simp add: ws_dec_def take_ws_frame_of)


section \<open>The loop over the frames\<close>

text \<open>What the received frames ask for, without their encoding: the result, how many were taken, the client.\<close>

fun run_frames :: "'u ws_env \<Rightarrow> (byte \<times> bytes) list \<Rightarrow> 'u ws \<Rightarrow> bool \<times> nat \<times> 'u ws" where
  "run_frames E [] c = (True, 0, c)"
| "run_frames E (f # fs) c =
     (case ws_dispatch E (fst f) (snd f) (call0 (we_onActivity E) c) of
        (False, _, c') \<Rightarrow> (False, 1, c')
      | (True, closed, c') \<Rightarrow>
          if closed then (True, 1, c')
          else (case run_frames E fs c' of (ok, k, c'') \<Rightarrow> (ok, Suc k, c'')))"

type_synonym sent_frame = "bytes \<times> byte \<times> bytes"

definition sent_bytes :: "sent_frame \<Rightarrow> bytes" where
  "sent_bytes f = frame_of (fst f) (fst (snd f)) (snd (snd f))"

lemma sent_bytes_nonempty: "sent_bytes f \<noteq> []"
  by (simp add: sent_bytes_def frame_of_head ws_head_def)

lemma ws_loop_frames:
  assumes "\<forall>f \<in> set fs. valid_ws_frame (fst f) (snd f)" and "take_ws_frame rest = NeedMore"
  shows "ws_loop E (p @ concat (map sent_bytes fs) @ rest) (length p) False c =
    (case run_frames E (map snd fs) c of
       (ok, k, c') \<Rightarrow> (ok, length p + length (concat (map sent_bytes (take k fs))), c'))"
  using assms(1)
proof (induction fs arbitrary: p c)
  case Nil
  then show ?case using assms(2) by (simp add: ws_loop.simps)
next
  case (Cons f fs)
  let ?data = "p @ concat (map sent_bytes (f # fs)) @ rest"
  have t: "take_ws_frame (drop (length p) ?data) = Taken (fst (snd f)) (snd (snd f)) (length (sent_bytes f))"
    using Cons.prems take_ws_frame_of [of "fst f" "fst (snd f)" "snd (snd f)"]
    by (simp add: sent_bytes_def)
  obtain ok closed c1 where d:
    "ws_dispatch E (fst (snd f)) (snd (snd f)) (call0 (we_onActivity E) c) = (ok, closed, c1)"
    by (metis surj_pair)
  have step: "ws_loop E ?data (length p) False c =
      (if ok then ws_loop E ?data (length p + length (sent_bytes f)) closed c1
       else (False, length p + length (sent_bytes f), c1))"
    by (subst ws_loop.simps) (use t d in \<open>simp only: if_False take_result.case prod.case split: bool.split if_split; simp\<close>)
  show ?case
  proof (cases "ok \<and> \<not> closed")
    case True
    have "ws_loop E ((p @ sent_bytes f) @ concat (map sent_bytes fs) @ rest) (length (p @ sent_bytes f)) False c1 =
        (case run_frames E (map snd fs) c1 of
          (ok, k, c') \<Rightarrow> (ok, length (p @ sent_bytes f) + length (concat (map sent_bytes (take k fs))), c'))"
      by (rule Cons.IH) (use Cons.prems in simp)
    then show ?thesis using step True d by (simp split: prod.splits)
  next
    case False
    then have "ws_loop E ?data (length p) False c = (ok, length p + length (sent_bytes f), c1)"
      unfolding step by (simp add: ws_loop.simps)
    then show ?thesis using False d by (auto split: bool.splits)
  qed
qed

section \<open>The order of the callbacks\<close>

text \<open>
  The owner keeps a log of the callbacks beside its own state. A handler adds
  its own callback and then acts on the client through its public operations.
\<close>

datatype callback = OnConnected | OnData bytes | OnClosed

inductive owner_moves :: "(callback list \<times> 'v) ws_env \<Rightarrow> (callback list \<times> 'v) ws \<Rightarrow> (callback list \<times> 'v) ws \<Rightarrow> bool"
  for E where
  moves_none: "owner_moves E c c"
| moves_text: "owner_moves E c c' \<Longrightarrow> owner_moves E c (sendText E m c')"
| moves_binary: "owner_moves E c c' \<Longrightarrow> owner_moves E c (sendBinary E m c')"
| moves_close: "owner_moves E c c' \<Longrightarrow> owner_moves E c (ws_close E c')"
| moves_own: "owner_moves E c c' \<Longrightarrow> owner_moves E c (c'\<lparr>ws_user := (fst (ws_user c'), v)\<rparr>)"

definition logged :: "callback \<Rightarrow> (callback list \<times> 'v) ws \<Rightarrow> (callback list \<times> 'v) ws" where
  "logged x c = c\<lparr>ws_user := (fst (ws_user c) @ [x], snd (ws_user c))\<rparr>"

definition keeps_state :: "('u ws \<Rightarrow> 'u ws) option \<Rightarrow> bool" where
  "keeps_state h \<longleftrightarrow> (\<forall>f. h = Some f \<longrightarrow> (\<forall>c. ws_state (f c) = ws_state c \<and> ws_user (f c) = ws_user c))"

definition logging_handlers :: "(callback list \<times> 'v) ws_env \<Rightarrow> bool" where
  "logging_handlers E \<longleftrightarrow>
    (\<exists>f. we_onConnected E = Some f \<and> (\<forall>c. owner_moves E (logged OnConnected c) (f c))) \<and>
    (\<forall>f. we_onText E = Some f \<longrightarrow> (\<forall>m c. owner_moves E (logged (OnData m) c) (f m c))) \<and>
    (\<forall>f. we_onBinary E = Some f \<longrightarrow> (\<forall>m c. owner_moves E (logged (OnData m) c) (f m c))) \<and>
    (\<forall>f. we_onClosed E = Some f \<longrightarrow> (\<forall>c. owner_moves E (logged OnClosed c) (f c))) \<and>
    keeps_state (we_onActivity E)"

definition is_data :: "callback \<Rightarrow> bool" where
  "is_data x \<longleftrightarrow> (case x of OnData _ \<Rightarrow> True | _ \<Rightarrow> False)"

text \<open>Nothing yet; the connection, then data; either of them, then the end.\<close>

definition orderly :: "ws_state \<Rightarrow> callback list \<Rightarrow> bool" where
  "orderly st l \<longleftrightarrow>
    (case st of
       Connected \<Rightarrow> (\<exists>ds. l = OnConnected # ds \<and> list_all is_data ds)
     | Closed \<Rightarrow> (\<exists>ds tl. l = ds @ tl \<and> tl \<in> {[], [OnClosed]} \<and>
         (ds = [] \<or> (\<exists>ds'. ds = OnConnected # ds' \<and> list_all is_data ds')))
     | _ \<Rightarrow> l = [])"

inductive ws_step :: "(callback list \<times> 'v) ws_env \<Rightarrow> (callback list \<times> 'v) ws \<Rightarrow> (callback list \<times> 'v) ws \<Rightarrow> bool"
  for E where
  step_connect: "ws_step E c (connectTo E host port target protocol c)"
| step_encrypted: "ws_step E c (onSslConnected E c)"
| step_read: "ws_step E c (onReadyRead E bs c)"
| step_fail: "ws_step E c (ws_fail E c)"
| step_owner: "owner_moves E c c' \<Longrightarrow> ws_step E c c'"

inductive_cases ws_step_cases: "ws_step E c c'"

definition ws_start :: "(callback list \<times> 'v) ws \<Rightarrow> bool" where
  "ws_start c \<longleftrightarrow> ws_state c = Idle \<and> fst (ws_user c) = [] \<and> ws_socket c = []"

inductive ws_reachable :: "(callback list \<times> 'v) ws_env \<Rightarrow> (callback list \<times> 'v) ws \<Rightarrow> bool" for E where
  reach_start: "ws_start c \<Longrightarrow> ws_reachable E c"
| reach_step: "ws_reachable E c \<Longrightarrow> ws_step E c c' \<Longrightarrow> ws_reachable E c'"

definition in_order :: "(callback list \<times> 'v) ws \<Rightarrow> bool" where
  "in_order c \<longleftrightarrow> orderly (ws_state c) (fst (ws_user c))"

text \<open>What a move of the owner does to the state and the log.\<close>

lemma owner_moves_state:
  "owner_moves E c c' \<Longrightarrow> (ws_state c' = ws_state c \<or> ws_state c' = Closed) \<and> fst (ws_user c') = fst (ws_user c)"
  by (induction rule: owner_moves.induct)
    (auto simp: sendText_def sendBinary_def ws_close_def writeFrame_def socket_do_def Let_def)

lemma orderly_close: "orderly st l \<Longrightarrow> orderly Closed l"
proof (cases st)
  case Connected
  assume "orderly st l"
  then show ?thesis unfolding orderly_def Connected ws_state.case by (metis append_Nil2 insertI1)
qed (auto simp: orderly_def)

lemma owner_moves_in_order: "owner_moves E c c' \<Longrightarrow> in_order c \<Longrightarrow> in_order c'"
  using owner_moves_state [of E c c'] orderly_close by (auto simp: in_order_def)

lemma logged_data_in_order: "in_order c \<Longrightarrow> ws_state c = Connected \<Longrightarrow> in_order (logged (OnData m) c)"
  by (auto simp: in_order_def orderly_def logged_def is_data_def)

lemma ws_dispatch_in_order:
  assumes "logging_handlers E" and "in_order c" and "ws_state c = Connected"
    and "ws_dispatch E opcode payload c = (ok, closed, c')"
  shows "in_order c' \<and> (closed \<or> ws_state c' = Connected) \<and> ws_state c' \<in> {Connected, Closed}"
proof -
  have deliver: "in_order (f payload c) \<and> ws_state (f payload c) \<in> {Connected, Closed}"
    if "owner_moves E (logged (OnData payload) c) (f payload c)" for f
    using owner_moves_in_order [OF that logged_data_in_order [OF assms(2,3)]] owner_moves_state [OF that] assms(3)
    by (auto simp: logged_def)
  have ping: "in_order (writeFrame E payload kOpcodePong c) \<and> ws_state (writeFrame E payload kOpcodePong c) = Connected"
    using assms(2,3) by (simp add: writeFrame_def socket_do_def in_order_def)
  show ?thesis
    using assms(4) assms(1-3) ping deliver unfolding ws_dispatch_def logging_handlers_def Let_def
    by (auto split: if_splits option.splits)
qed

lemma ws_loop_in_order:
  "logging_handlers E \<Longrightarrow> in_order c \<Longrightarrow> ws_state c \<in> {Connected, Closed} \<Longrightarrow> closed \<or> ws_state c = Connected \<Longrightarrow>
    ws_loop E data offset closed c = (ok, offset', c') \<Longrightarrow> in_order c' \<and> ws_state c' \<in> {Connected, Closed}"
proof (induction E data offset closed c rule: ws_loop.induct)
  case (1 E data offset closed c)
  show ?case
  proof (cases closed)
    case True
    then show ?thesis using 1 by (auto simp: ws_loop.simps)
  next
    case False
    show ?thesis
    proof (cases "take_ws_frame (drop offset data)")
      case (Taken opcode payload n)
      let ?c = "call0 (we_onActivity E) c"
      have c: "in_order ?c" "ws_state ?c = Connected"
        using 1 False by (auto simp: logging_handlers_def keeps_state_def call0_def in_order_def split: option.split)
      obtain ok1 closed1 c1 where d: "ws_dispatch E opcode payload ?c = (ok1, closed1, c1)" by (metis surj_pair)
      note after = ws_dispatch_in_order [OF "1.prems"(1) c d]
      show ?thesis
      proof (cases ok1)
        case True
        then have "ws_loop E data (offset + n) closed1 c1 = (ok, offset', c')"
          using "1.prems"(5) False Taken d by (subst (asm) ws_loop.simps) simp
        then show ?thesis using "1.IH" [OF False Taken d [symmetric]] True after "1.prems"(1) by auto
      next
        case False
        then have "c' = c1" using "1.prems"(5) \<open>\<not> closed\<close> Taken d by (subst (asm) ws_loop.simps) simp
        then show ?thesis using after by auto
      qed
    qed (use 1 False in \<open>auto simp: ws_loop.simps\<close>)
  qed
qed


lemma parseFrames_in_order:
  assumes "logging_handlers E" and "in_order c" and "ws_state c = Connected"
    and "parseFrames E c = (ok, c')"
  shows "in_order c'"
proof -
  obtain ok1 offset c1 where l: "ws_loop E (ws_incoming c) 0 False c = (ok1, offset, c1)" by (metis surj_pair)
  from ws_loop_in_order [OF assms(1,2) _ _ l] assms(3) have "in_order c1" by simp
  then show ?thesis
    using assms(4) by (auto simp: parseFrames_def l in_order_def split: bool.splits if_splits)
qed

lemma ws_fail_in_order:
  assumes "logging_handlers E" and "in_order c"
  shows "in_order (ws_fail E c)"
proof (cases "ws_failed c \<or> ws_state c = Closed")
  case True
  then show ?thesis using assms(2) by (simp add: ws_fail_def)
next
  case False
  let ?c = "c\<lparr>ws_failed := True, ws_state := Closed\<rparr>"
  from False assms(2) have l: "fst (ws_user c) = [] \<or> (\<exists>ds. fst (ws_user c) = OnConnected # ds \<and> list_all is_data ds)"
    by (auto simp: in_order_def orderly_def split: ws_state.splits)
  show ?thesis
  proof (cases "we_onClosed E")
    case None
    then show ?thesis using False l by (auto simp: ws_fail_def call0_def in_order_def orderly_def)
  next
    case (Some f)
    then have moves: "owner_moves E (logged OnClosed ?c) (f ?c)" using assms(1) by (simp add: logging_handlers_def)
    have "\<exists>ds tl. fst (ws_user c) @ [OnClosed] = ds @ tl \<and> tl \<in> {[], [OnClosed]} \<and>
        (ds = [] \<or> (\<exists>ds'. ds = OnConnected # ds' \<and> list_all is_data ds'))"
      by (rule exI [of _ "fst (ws_user c)"], rule exI [of _ "[OnClosed]"]) (use l in simp)
    then have "in_order (logged OnClosed ?c)"
      by (simp add: in_order_def orderly_def logged_def)
    from owner_moves_in_order [OF moves this] show ?thesis using False Some by (simp add: ws_fail_def call0_def)
  qed
qed

lemma readUpgradeResponse_in_order:
  assumes "logging_handlers E" and "in_order c" and "ws_state c = WaitingUpgrade"
    and "readUpgradeResponse E c = (ok, c')"
  shows "in_order c'"
proof -
  obtain f where f: "we_onConnected E = Some f" "\<And>c. owner_moves E (logged OnConnected c) (f c)"
    using assms(1) by (auto simp: logging_handlers_def)
  have "fst (ws_user c) = []" using assms(2,3) by (simp add: in_order_def orderly_def)
  then have "in_order (logged OnConnected (c\<lparr>ws_incoming := x, ws_state := Connected\<rparr>))" for x
    by (simp add: in_order_def orderly_def logged_def)
  from owner_moves_in_order [OF f(2) this] show ?thesis
    using assms(2,4) f(1) by (auto simp: readUpgradeResponse_def Let_def call0_def split: option.splits if_splits)
qed

lemma finish_read_in_order:
  assumes "logging_handlers E" and "in_order c" and "ws_state c = Connected"
  shows "in_order (finish_read E c)"
  using parseFrames_in_order [OF assms] ws_fail_in_order [OF assms(1)]
  by (auto simp: finish_read_def split: prod.split bool.split)

lemma in_order_incoming [simp]: "in_order (c\<lparr>ws_incoming := x\<rparr>) \<longleftrightarrow> in_order c"
  by (simp add: in_order_def)

lemma onReadyRead_in_order:
  assumes "logging_handlers E" and "in_order c"
  shows "in_order (onReadyRead E bs c)"
proof -
  let ?c = "c\<lparr>ws_incoming := ws_incoming c @ bs\<rparr>"
  consider "ws_state c = WaitingUpgrade" | "ws_state c = Connected"
    | "ws_state c \<noteq> WaitingUpgrade" "ws_state c \<noteq> Connected" by blast
  then show ?thesis
  proof cases
    case 1
    obtain ok c' where r: "readUpgradeResponse E ?c = (ok, c')" by (metis surj_pair)
    from readUpgradeResponse_in_order [OF assms(1) _ _ r] have "in_order c'" using assms(2) 1 by simp
    then show ?thesis
      using 1 r ws_fail_in_order [OF assms(1)] finish_read_in_order [OF assms(1)]
      by (auto simp: onReadyRead_def split: bool.split)
  next
    case 2
    then show ?thesis using finish_read_in_order [OF assms(1), of ?c] assms(2) by (simp add: onReadyRead_def)
  next
    case 3
    then show ?thesis using assms(2) by (simp add: onReadyRead_def)
  qed
qed

lemma ws_step_in_order:
  assumes "logging_handlers E" and "ws_step E c c'" and "in_order c"
  shows "in_order c'"
  using assms(2)
proof cases
  case step_connect
  then show ?thesis using assms(3) by (auto simp: connectTo_def socket_do_def in_order_def orderly_def)
next
  case step_encrypted
  then show ?thesis using assms(3)
    by (auto simp: onSslConnected_def sendUpgradeRequest_def socket_do_def in_order_def orderly_def Let_def)
next
  case step_read
  then show ?thesis using onReadyRead_in_order [OF assms(1,3)] by simp
next
  case step_fail
  then show ?thesis using ws_fail_in_order [OF assms(1,3)] by simp
next
  case step_owner
  then show ?thesis using owner_moves_in_order assms(3) by blast
qed

section \<open>Properties\<close>

text \<open>
  A frame that the client writes is read back by the parser with its opcode and
  payload, whatever mask it was written with, and takes exactly its own bytes.
\<close>

theorem written_frame_is_read:
  assumes "length m = 4" and "opcode < 16" and "length payload \<le> 4 * 1024 * 1024"
  shows "take_ws_frame (frame_of m opcode payload @ rest) = Taken opcode payload (length (frame_of m opcode payload))"
  by (rule take_ws_frame_of) (use assms in \<open>simp add: valid_ws_frame_def kMaxWsPayload_def\<close>)

theorem written_frame_is_read_witness:
  "take_ws_frame (frame_of [1, 2, 3, 4] kOpcodeBinary [5, 6, 7, 8, 9] @ [0x82])
    = Taken kOpcodeBinary [5, 6, 7, 8, 9] 11"
  using written_frame_is_read [of "[1, 2, 3, 4]" kOpcodeBinary "[5, 6, 7, 8, 9]" "[0x82]"]
  by (simp add: kOpcodeBinary_def frame_of_def)

text \<open>
  Parsing a buffer of frames followed by a piece of one does what handling the
  frames one by one does: the same handlers in the same order up to the first
  that ends the connection, and only whole, handled frames leave the buffer.
\<close>

theorem parseFrames_frames:
  assumes "\<forall>f \<in> set fs. valid_ws_frame (fst f) (snd f)" and "take_ws_frame rest = NeedMore"
    and "ws_incoming c = concat (map sent_bytes fs) @ rest"
    and "run_frames E (map snd fs) c = (ok, k, c')"
  shows "parseFrames E c =
    (ok, if ok \<and> 0 < k
         then c'\<lparr>ws_incoming := drop (length (concat (map sent_bytes (take k fs)))) (ws_incoming c')\<rparr> else c')"
proof -
  have k: "k \<le> length fs"
  proof -
    have "run_frames E gs c = (ok, k, c') \<Longrightarrow> k \<le> length gs" for gs c ok k c'
      by (induction gs arbitrary: c ok k c') (fastforce split: prod.splits bool.splits if_splits)+
    from this [OF assms(4)] show ?thesis by simp
  qed
  have "0 < length (concat (map sent_bytes (take k fs))) \<longleftrightarrow> 0 < k"
    using k sent_bytes_nonempty by (cases fs; cases k) (auto simp: length_greater_0_conv)
  then show ?thesis
    using ws_loop_frames [OF assms(1,2), of E "[]" c] assms(3,4)
    by (auto simp: parseFrames_def split: bool.splits)
qed

text \<open>A client whose handlers only keep the log.\<close>

definition sample_ws_env :: "(callback list \<times> unit) ws_env" where
  "sample_ws_env = \<lparr>we_onConnected = Some (logged OnConnected), we_onText = None,
    we_onBinary = Some (\<lambda>m. logged (OnData m)), we_onClosed = Some (logged OnClosed), we_onActivity = None,
    we_random = (\<lambda>n h. replicate n 3), we_sha1 = (\<lambda>b. b), we_toBase64 = (\<lambda>b. b),
    we_trimmed = (\<lambda>b. b), we_toLower = (\<lambda>b. b), we_number = (\<lambda>n. [])\<rparr>"

definition sample_ws :: "ws_state \<Rightarrow> bytes \<Rightarrow> (callback list \<times> unit) ws" where
  "sample_ws st incoming = \<lparr>ws_host = [], ws_target = [], ws_subprotocol = [], ws_key = [], ws_incoming = incoming,
    ws_state = st, ws_port = 443, ws_failed = False, ws_socket = [], ws_user = ([], ())\<rparr>"

theorem parseFrames_frames_witness:
  "parseFrames sample_ws_env (sample_ws Connected (sent_bytes ([1, 2, 3, 4], kOpcodeBinary, [5]) @ [0x82])) =
    (True, (logged (OnData [5]) (sample_ws Connected [0x82])))"
proof -
  let ?f = "([1, 2, 3, 4], kOpcodeBinary, [5]) :: sent_frame"
  let ?c = "sample_ws Connected (sent_bytes ?f @ [0x82])"
  have valid: "\<forall>f \<in> set [?f]. valid_ws_frame (fst f) (snd f)"
    by (simp add: valid_ws_frame_def kOpcodeBinary_def kMaxWsPayload_def)
  have more: "take_ws_frame [0x82] = NeedMore" by (simp add: take_ws_frame_def)
  have incoming: "ws_incoming ?c = concat (map sent_bytes [?f]) @ [0x82]" by (simp add: sample_ws_def)
  have run: "run_frames sample_ws_env (map snd [?f]) ?c = (True, 1, logged (OnData [5]) ?c)"
    by (simp add: ws_dispatch_def sample_ws_env_def call0_def kOpcodeBinary_def kOpcodeContinuation_def
        logged_def sample_ws_def)
  from parseFrames_frames [OF valid more incoming run] show ?thesis
    by (simp add: sample_ws_def logged_def)
qed

text \<open>
  Whatever the network and the owner do, the callbacks come in order: the
  connection at most once and first, data only between the connection and the
  end and never after the owner has closed, the end at most once and last.
\<close>

theorem callbacks_in_order:
  assumes "logging_handlers E" and "ws_reachable E c"
  shows "orderly (ws_state c) (fst (ws_user c))"
proof -
  from assms(2) have "in_order c"
  proof induction
    case (reach_start c)
    then show ?case by (simp add: ws_start_def in_order_def orderly_def)
  next
    case (reach_step c c')
    then show ?case using ws_step_in_order [OF assms(1)] by blast
  qed
  then show ?thesis by (simp add: in_order_def)
qed


theorem callbacks_in_order_witness:
  "orderly Closed (fst (ws_user (ws_fail sample_ws_env (sample_ws Idle []))))"
proof -
  have handlers: "logging_handlers sample_ws_env"
    by (auto simp: logging_handlers_def sample_ws_env_def keeps_state_def intro: owner_moves.intros)
  have "ws_reachable sample_ws_env (sample_ws Idle [])"
    by (rule reach_start) (simp add: ws_start_def sample_ws_def)
  then have "ws_reachable sample_ws_env (ws_fail sample_ws_env (sample_ws Idle []))"
    by (rule reach_step) (rule step_fail)
  from callbacks_in_order [OF handlers this] show ?thesis
    by (simp add: ws_fail_def sample_ws_def sample_ws_env_def call0_def logged_def)
qed

end
