(* ===== verification/Cable_Ceremony.thy ===== *)
theory Cable_Ceremony
  imports Cable_Messages Web_Socket
begin

text \<open>
  The caBLE ceremony, \<open>webauthn/cable_ceremony.cpp\<close>: one passkey request from the
  QR code over the advertisement, the tunnel and the handshake to the reply. The
  state is the struct \<open>Ceremony\<close>; what its functions do to the box, the scanner,
  the timers, the socket and the two callbacks is the list \<open>ce_calls\<close>. A call
  through a null pointer is an abort. Deferred calls to the main thread only
  touch the box and are entries of the list.
\<close>

section \<open>State\<close>

datatype outcome = Success | Cancelled | SecurityKey | NoBluetooth | Failed

datatype sheet = SheetQr | SheetConnecting | SheetContinue | SheetError

record register_request =
  rr_rpId :: bytes
  rr_rpName :: bytes
  rr_userId :: bytes
  rr_userName :: bytes
  rr_userDisplayName :: bytes
  rr_clientDataHash :: bytes
  rr_algorithms :: "u64 list"
  rr_timeoutMs :: int

record login_request =
  lr_rpId :: bytes
  lr_clientDataHash :: bytes
  lr_allowCredentialIds :: "bytes list"
  lr_timeoutMs :: int

record register_result =
  rs_credentialId :: bytes
  rs_authData :: bytes
  rs_outcome :: outcome

record login_result =
  ls_credentialId :: bytes
  ls_authData :: bytes
  ls_signature :: bytes
  ls_userHandle :: bytes
  ls_outcome :: outcome

datatype step = Scanning | StepConnecting | Handshake | PostHandshake | AwaitingReply | Finished

datatype ceremony_call =
    RegisterDone register_result
  | LoginDone login_result
  | CancelTimeout
  | CancelProbe
  | StartTimeout int
  | StartProbe
  | StopScanner
  | CloseSocket
  | ConnectSocket bytes bytes
  | SendBinary bytes
  | PostSheet sheet
  | ShowError outcome
  | CloseBox
  | ShowToast outcome
  | ShowNoDevice
  | ShowCableBox "bytes option"
  | PostDropKeepAlive

record 'k ceremony =
  ce_isRegister :: bool
  ce_registerRequest :: register_request
  ce_loginRequest :: login_request
  ce_registerDone :: bool
  ce_loginDone :: bool
  ce_identity :: "'k option"
  ce_secret :: bytes
  ce_eidKey :: bytes
  ce_socket :: bool
  ce_scanner :: bool
  ce_handshake :: "'k initiator option"
  ce_crypter :: "crypter option"
  ce_protocolRevision :: nat
  ce_ui :: bool
  ce_boxShown :: bool
  ce_step :: step
  ce_finished :: bool
  ce_bluetoothAvailable :: bool
  ce_calls :: "ceremony_call list"

definition kCeremonyTimeoutMs :: int where "kCeremonyTimeoutMs = 180000"

definition calls :: "ceremony_call list \<Rightarrow> 'k ceremony \<Rightarrow> 'k ceremony" where
  "calls xs c = c\<lparr>ce_calls := ce_calls c @ xs\<rparr>"

section \<open>Finishing\<close>

definition empty_register :: "outcome \<Rightarrow> register_result" where
  "empty_register o' = \<lparr>rs_credentialId = [], rs_authData = [], rs_outcome = o'\<rparr>"

definition empty_login :: "outcome \<Rightarrow> login_result" where
  "empty_login o' =
    \<lparr>ls_credentialId = [], ls_authData = [], ls_signature = [], ls_userHandle = [], ls_outcome = o'\<rparr>"

definition take_registerDone :: "register_result \<Rightarrow> 'k ceremony \<Rightarrow> 'k ceremony" where
  "take_registerDone r c =
    (if ce_registerDone c then calls [RegisterDone r] (c\<lparr>ce_registerDone := False\<rparr>) else c)"

definition take_loginDone :: "login_result \<Rightarrow> 'k ceremony \<Rightarrow> 'k ceremony" where
  "take_loginDone r c =
    (if ce_loginDone c then calls [LoginDone r] (c\<lparr>ce_loginDone := False\<rparr>) else c)"

definition Finish :: "outcome \<Rightarrow> 'k ceremony \<Rightarrow> 'k ceremony" where
  "Finish outcome c =
    (if ce_finished c then c
     else
       let c = c\<lparr>ce_finished := True, ce_step := Finished\<rparr>;
           c = calls [CancelTimeout] c;
           c = (if ce_scanner c then calls [StopScanner] c else c);
           c = (if ce_socket c then calls [CloseSocket] c else c);
           failed = (outcome = Failed \<or> outcome = NoBluetooth);
           c = (if ce_boxShown c \<and> ce_ui c then
                  (if failed then calls [ShowError outcome, PostSheet SheetError] c else calls [CloseBox] c)
                else if failed then calls [ShowToast outcome] c
                else c);
           c = take_registerDone (empty_register outcome) c;
           c = take_loginDone (empty_login outcome) c
       in calls [PostDropKeepAlive] c)"

definition FinishSuccessRegister :: "make_credential_response \<Rightarrow> 'k ceremony \<Rightarrow> 'k ceremony" where
  "FinishSuccessRegister response c =
    Finish Success (take_registerDone
      \<lparr>rs_credentialId = mc_credentialId response, rs_authData = mc_authData response, rs_outcome = Success\<rparr> c)"

definition FinishSuccessLogin :: "get_assertion_response \<Rightarrow> 'k ceremony \<Rightarrow> 'k ceremony" where
  "FinishSuccessLogin response c =
    Finish Success (take_loginDone
      \<lparr>ls_credentialId = ga_credentialId response, ls_authData = ga_authData response,
       ls_signature = ga_signature response, ls_userHandle = ga_userHandle response, ls_outcome = Success\<rparr> c)"

section \<open>The tunnel\<close>

definition BuildCtapRequest :: "'k ceremony \<Rightarrow> bytes" where
  "BuildCtapRequest c =
    (if ce_isRegister c then
       let r = ce_registerRequest c
       in BuildMakeCredentialRequest (rr_clientDataHash r) (rr_rpId r) (rr_rpName r) (rr_userId r)
            (rr_userName r) (rr_userDisplayName r) (rr_algorithms r)
     else
       let r = ce_loginRequest c
       in BuildGetAssertionRequest (lr_rpId r) (lr_clientDataHash r) (lr_allowCredentialIds r))"

text \<open>The codes of \<open>MessageType\<close>.\<close>

definition message_ctap :: byte where "message_ctap = 1"
definition message_update :: byte where "message_update = 2"

definition null_call :: "'a result" where "null_call = Inl (Abort ''null pointer'')"

definition SendCtapRequest :: "'k crypto \<Rightarrow> 'k ceremony \<Rightarrow> 'k ceremony result" where
  "SendCtapRequest C c =
    (let plaintext = (if ce_protocolRevision c \<ge> 1 then [message_ctap] else []) @ BuildCtapRequest c
     in case ce_crypter c of None \<Rightarrow> null_call
        | Some crypter \<Rightarrow>
            (case crypter_encrypt C plaintext crypter of
               (None, crypter') \<Rightarrow> Inr (Finish Failed (c\<lparr>ce_crypter := Some crypter'\<rparr>))
             | (Some encrypted, crypter') \<Rightarrow>
                 let c = c\<lparr>ce_crypter := Some crypter', ce_step := AwaitingReply\<rparr>;
                     c = calls [PostSheet SheetContinue] c
                 in if \<not> ce_socket c then null_call else Inr (calls [SendBinary encrypted] c)))"

definition HandleReply :: "bytes \<Rightarrow> 'k ceremony \<Rightarrow> 'k ceremony" where
  "HandleReply plaintext c =
    (let parse = (\<lambda>plaintext.
           if ce_isRegister c then
             (case ParseMakeCredentialResponse plaintext of
                None \<Rightarrow> Finish Failed c | Some parsed \<Rightarrow> FinishSuccessRegister parsed c)
           else
             (case ParseGetAssertionResponse plaintext of
                None \<Rightarrow> Finish Failed c | Some parsed \<Rightarrow> FinishSuccessLogin parsed c))
     in if ce_protocolRevision c \<ge> 1 then
          (case plaintext of
             [] \<Rightarrow> Finish Failed c
           | type # rest \<Rightarrow>
               if type = message_update then c
               else if type \<noteq> message_ctap then Finish Failed c
               else parse rest)
        else parse plaintext)"

definition HandleTunnelData :: "'k crypto \<Rightarrow> bytes \<Rightarrow> 'k ceremony \<Rightarrow> 'k ceremony result" where
  "HandleTunnelData C bs c =
    (case ce_step c of
       Handshake \<Rightarrow>
         (case ce_handshake c of None \<Rightarrow> null_call
          | Some h \<Rightarrow>
              (case processResponse C bs h of
                 (None, h') \<Rightarrow> Inr (Finish Failed (c\<lparr>ce_handshake := Some h'\<rparr>))
               | (Some r, h') \<Rightarrow>
                   Inr (c\<lparr>ce_crypter := Some (hr_crypter r), ce_handshake := None, ce_step := PostHandshake\<rparr>)))
     | PostHandshake \<Rightarrow>
         (case ce_crypter c of None \<Rightarrow> null_call
          | Some crypter \<Rightarrow>
              (case crypter_decrypt C bs crypter of
                 (None, crypter') \<Rightarrow> Inr (Finish Failed (c\<lparr>ce_crypter := Some crypter'\<rparr>))
               | (Some decrypted, crypter') \<Rightarrow>
                   let c = c\<lparr>ce_crypter := Some crypter'\<rparr>
                   in case ParsePostHandshakeMessage decrypted of
                        None \<Rightarrow> Inr (Finish Failed c)
                      | Some parsed \<Rightarrow>
                          if \<not> ph_supportsCtap parsed then Inr (Finish Failed c)
                          else SendCtapRequest C (c\<lparr>ce_protocolRevision := ph_protocolRevision parsed\<rparr>)))
     | AwaitingReply \<Rightarrow>
         (case ce_crypter c of None \<Rightarrow> null_call
          | Some crypter \<Rightarrow>
              (case crypter_decrypt C bs crypter of
                 (None, crypter') \<Rightarrow> Inr (Finish Failed (c\<lparr>ce_crypter := Some crypter'\<rparr>))
               | (Some decrypted, crypter') \<Rightarrow> Inr (HandleReply decrypted (c\<lparr>ce_crypter := Some crypter'\<rparr>))))
     | _ \<Rightarrow> Inr c)"

section \<open>The advertisement and the socket\<close>

definition tunnel_path :: "bytes \<Rightarrow> bytes \<Rightarrow> bytes" where
  "tunnel_path routingId tunnelId =
    ascii ''/cable/connect/'' @ HexLower routingId @ ascii ''/'' @ HexLower tunnelId"

definition OnAdvert ::
  "'k crypto \<Rightarrow> (bytes \<Rightarrow> bytes \<Rightarrow> bytes) \<Rightarrow> (bytes \<Rightarrow> bytes \<Rightarrow> bytes option) \<Rightarrow> bytes
    \<Rightarrow> 'k ceremony \<Rightarrow> 'k ceremony result" where
  "OnAdvert C hmac aes serviceData c =
    (if ce_step c \<noteq> Scanning then Inr c
     else case DecryptAdvert hmac aes serviceData (ce_eidKey c) of
         None \<Rightarrow> Inr c
       | Some eid \<Rightarrow>
           let c = c\<lparr>ce_step := StepConnecting\<rparr>
           in if \<not> ce_scanner c then null_call
              else
                let c = calls [StopScanner] c;
                    components = ToEidComponents eid;
                    domain = DecodeTunnelServerDomain C (ec_tunnelServerDomain components)
                in if domain = [] then Inr (Finish Failed c)
                   else
                     let psk = Derive C kPskSize (ce_secret c) eid Psk;
                         tunnelId = Derive C kTunnelIdSize (ce_secret c) [] TunnelId;
                         path = tunnel_path (ec_routingId components) tunnelId
                     in case ce_identity c of None \<Rightarrow> null_call
                        | Some identity \<Rightarrow>
                            let c = c\<lparr>ce_handshake := Some (HandshakeInitiator psk identity)\<rparr>;
                                c = calls [PostSheet SheetConnecting] c;
                                c = c\<lparr>ce_socket := True\<rparr>
                            in Inr (calls [ConnectSocket domain path] c))"

text \<open>The three handlers \<open>OnAdvert\<close> installs on the socket.\<close>

definition on_connected :: "'k crypto \<Rightarrow> 'k option \<Rightarrow> 'k ceremony \<Rightarrow> 'k ceremony result" where
  "on_connected C generated c =
    (if ce_finished c then Inr c
     else case ce_handshake c of None \<Rightarrow> null_call
     | Some h \<Rightarrow>
         (case buildInitialMessage C generated h of (initial, h') \<Rightarrow>
            let c = c\<lparr>ce_handshake := Some h'\<rparr>
            in if initial = [] then Inr (Finish Failed c)
               else
                 let c = c\<lparr>ce_step := Handshake\<rparr>
                 in if \<not> ce_socket c then null_call else Inr (calls [SendBinary initial] c)))"

definition on_binary :: "'k crypto \<Rightarrow> bytes \<Rightarrow> 'k ceremony \<Rightarrow> 'k ceremony result" where
  "on_binary C message c = (if ce_finished c then Inr c else HandleTunnelData C message c)"

definition on_closed :: "'k ceremony \<Rightarrow> 'k ceremony result" where
  "on_closed c = (if ce_finished c then Inr c else Inr (Finish Failed c))"

section \<open>The box and the start\<close>

text \<open>\<open>shown\<close> is what \<open>ShowCableBox\<close> returns.\<close>

definition ShowBox :: "'k crypto \<Rightarrow> u64 \<Rightarrow> bool \<Rightarrow> bool \<Rightarrow> 'k ceremony \<Rightarrow> 'k ceremony result" where
  "ShowBox C now shown bluetooth c =
    (if ce_finished c \<or> ce_boxShown c then Inr c
     else
       let c = calls [CancelProbe] c;
           c = c\<lparr>ce_bluetoothAvailable := bluetooth\<rparr>;
           finish = (\<lambda>qr.
             let c = (calls [ShowCableBox qr] c)\<lparr>ce_boxShown := shown\<rparr>
             in Inr (if \<not> shown then Finish Failed c else c))
       in if \<not> bluetooth then finish None
          else case ce_identity c of None \<Rightarrow> null_call
             | Some identity \<Rightarrow>
                 finish (Some (EncodeQRContents C \<lparr>qr_identity = identity, qr_secret = ce_secret c\<rparr>
                   (ce_isRegister c) now)))"

definition security_key_chosen :: "bool \<Rightarrow> 'k ceremony \<Rightarrow> 'k ceremony" where
  "security_key_chosen present c =
    (if ce_finished c then c
     else if \<not> present then calls [ShowNoDevice] c
     else Finish SecurityKey c)"

definition box_cancelled :: "'k ceremony \<Rightarrow> 'k ceremony" where
  "box_cancelled c = (if \<not> ce_finished c then Finish Cancelled c else c)"

definition timeout_fired :: "'k ceremony \<Rightarrow> 'k ceremony" where
  "timeout_fired c = (if \<not> ce_finished c then Finish Failed c else c)"

text \<open>The generated QR key, the scanner if there is one, and whether it started.\<close>

definition Start ::
  "'k crypto \<Rightarrow> 'k option \<Rightarrow> bytes \<Rightarrow> bool \<Rightarrow> bool \<Rightarrow> u64 \<Rightarrow> bool \<Rightarrow> 'k ceremony \<Rightarrow> 'k ceremony result" where
  "Start C identity secret scanner starts now shown c =
    (let c = c\<lparr>ce_ui := True, ce_identity := identity, ce_secret := secret\<rparr>
     in if identity = None then Inr (Finish Failed c)
        else
          let c = c\<lparr>ce_eidKey := Derive C kEidKeySize secret [] EidKey\<rparr>;
              c = c\<lparr>ce_scanner := scanner\<rparr>;
              started = (scanner \<and> starts);
              requested = (if ce_isRegister c then rr_timeoutMs (ce_registerRequest c)
                           else lr_timeoutMs (ce_loginRequest c));
              c = calls [StartTimeout (if requested > 0 then requested else kCeremonyTimeoutMs)] c
          in if \<not> started then ShowBox C now shown False c
             else Inr (calls [StartProbe] c))"

definition empty_ceremony :: "'k ceremony" where
  "empty_ceremony = \<lparr>ce_isRegister = False,
    ce_registerRequest = \<lparr>rr_rpId = [], rr_rpName = [], rr_userId = [], rr_userName = [], rr_userDisplayName = [],
      rr_clientDataHash = [], rr_algorithms = [], rr_timeoutMs = 90000\<rparr>,
    ce_loginRequest = \<lparr>lr_rpId = [], lr_clientDataHash = [], lr_allowCredentialIds = [], lr_timeoutMs = 90000\<rparr>,
    ce_registerDone = False, ce_loginDone = False, ce_identity = None, ce_secret = [], ce_eidKey = [],
    ce_socket = False, ce_scanner = False, ce_handshake = None, ce_crypter = None, ce_protocolRevision = 1,
    ce_ui = False, ce_boxShown = False, ce_step = Scanning, ce_finished = False, ce_bluetoothAvailable = False,
    ce_calls = []\<rparr>"

text \<open>The state \<open>Register\<close> and \<open>Login\<close> hand to \<open>Start\<close>.\<close>

definition Register :: "register_request \<Rightarrow> 'k ceremony" where
  "Register request =
    empty_ceremony\<lparr>ce_isRegister := True, ce_registerRequest := request, ce_registerDone := True\<rparr>"

definition Login :: "login_request \<Rightarrow> 'k ceremony" where
  "Login request =
    empty_ceremony\<lparr>ce_isRegister := False, ce_loginRequest := request, ce_loginDone := True\<rparr>"


section \<open>Events\<close>

datatype 'k event =
    Advert bytes
  | Available u64 bool bool
  | ProbeFired u64 bool
  | TimeoutFired
  | SocketConnected "'k option"
  | SocketBinary bytes
  | SocketClosed
  | KeyChosen bool
  | BoxCancelled

record 'k ceremony_env =
  ev_crypto :: "'k crypto"
  ev_hmac :: "bytes \<Rightarrow> bytes \<Rightarrow> bytes"
  ev_aes :: "bytes \<Rightarrow> bytes \<Rightarrow> bytes option"

fun handle :: "'k ceremony_env \<Rightarrow> 'k event \<Rightarrow> 'k ceremony \<Rightarrow> 'k ceremony result" where
  "handle V (Advert d) c = OnAdvert (ev_crypto V) (ev_hmac V) (ev_aes V) d c"
| "handle V (Available now shown b) c = ShowBox (ev_crypto V) now shown b c"
| "handle V (ProbeFired now shown) c = ShowBox (ev_crypto V) now shown False c"
| "handle V TimeoutFired c = Inr (timeout_fired c)"
| "handle V (SocketConnected g) c = on_connected (ev_crypto V) g c"
| "handle V (SocketBinary m) c = on_binary (ev_crypto V) m c"
| "handle V SocketClosed c = on_closed c"
| "handle V (KeyChosen present) c = Inr (security_key_chosen present c)"
| "handle V BoxCancelled c = Inr (box_cancelled c)"

text \<open>
  When an event can come: adverts from a scanner, socket callbacks from a socket
  and in the order that \<open>Web_Socket.callbacks_in_order\<close> proves of the client.
\<close>

fun enabled :: "'k event \<Rightarrow> 'k ceremony \<Rightarrow> callback list \<Rightarrow> bool" where
  "enabled (Advert d) c log = ce_scanner c"
| "enabled (Available now shown b) c log = ce_scanner c"
| "enabled (SocketConnected g) c log = (ce_socket c \<and> log = [])"
| "enabled (SocketBinary m) c log = (ce_socket c \<and> (\<exists>ds. log = OnConnected # ds \<and> list_all is_data ds))"
| "enabled SocketClosed c log = (ce_socket c \<and> OnClosed \<notin> set log)"
| "enabled _ c log = True"

fun log_event :: "'k event \<Rightarrow> callback list \<Rightarrow> callback list" where
  "log_event (SocketConnected g) log = log @ [OnConnected]"
| "log_event (SocketBinary m) log = log @ [OnData m]"
| "log_event SocketClosed log = log @ [OnClosed]"
| "log_event _ log = log"

inductive ceremony_reachable :: "'k ceremony_env \<Rightarrow> 'k ceremony \<Rightarrow> callback list \<Rightarrow> bool" for V where
  start_register: "Start (ev_crypto V) identity secret scanner starts now shown (Register r) = Inr c \<Longrightarrow>
    ceremony_reachable V c []"
| start_login: "Start (ev_crypto V) identity secret scanner starts now shown (Login l) = Inr c \<Longrightarrow>
    ceremony_reachable V c []"
| event: "ceremony_reachable V c log \<Longrightarrow> enabled e c log \<Longrightarrow> handle V e c = Inr c' \<Longrightarrow>
    ceremony_reachable V c' (log_event e log)"

section \<open>The invariant\<close>

definition is_done :: "ceremony_call \<Rightarrow> bool" where
  "is_done x = (case x of RegisterDone _ \<Rightarrow> True | LoginDone _ \<Rightarrow> True | _ \<Rightarrow> False)"

definition is_success :: "ceremony_call \<Rightarrow> bool" where
  "is_success x = (case x of RegisterDone r \<Rightarrow> rs_outcome r = Success | LoginDone r \<Rightarrow> ls_outcome r = Success | _ \<Rightarrow> False)"

definition is_send :: "ceremony_call \<Rightarrow> bool" where
  "is_send x = (case x of SendBinary _ \<Rightarrow> True | _ \<Rightarrow> False)"

definition count_calls :: "(ceremony_call \<Rightarrow> bool) \<Rightarrow> 'k ceremony \<Rightarrow> nat" where
  "count_calls P c = length (filter P (ce_calls c))"

definition sends_at :: "step \<Rightarrow> nat \<Rightarrow> bool" where
  "sends_at st n = (case st of Scanning \<Rightarrow> n = 0 | StepConnecting \<Rightarrow> n = 0 | Handshake \<Rightarrow> n = 1
     | PostHandshake \<Rightarrow> n = 1 | AwaitingReply \<Rightarrow> n = 2 | Finished \<Rightarrow> True)"

text \<open>While the ceremony runs, and once it has finished.\<close>

definition running :: "'k ceremony \<Rightarrow> callback list \<Rightarrow> bool" where
  "running c log \<longleftrightarrow>
    \<not> ce_finished c \<and> ce_step c \<noteq> Finished \<and>
    ce_registerDone c = ce_isRegister c \<and> ce_loginDone c = (\<not> ce_isRegister c) \<and>
    count_calls is_done c = 0 \<and> count_calls is_success c = 0 \<and> sends_at (ce_step c) (count_calls is_send c) \<and>
    ce_identity c \<noteq> None \<and>
    (ce_socket c \<longleftrightarrow> ce_step c \<noteq> Scanning) \<and>
    (ce_step c \<in> {StepConnecting, Handshake} \<longrightarrow> ce_handshake c \<noteq> None) \<and>
    (ce_step c \<in> {PostHandshake, AwaitingReply} \<longrightarrow> ce_crypter c \<noteq> None) \<and>
    (log = [] \<longleftrightarrow> ce_step c \<in> {Scanning, StepConnecting})"

definition over :: "'k ceremony \<Rightarrow> bool" where
  "over c \<longleftrightarrow>
    ce_finished c \<and> ce_step c = Finished \<and> count_calls is_done c = 1 \<and>
    (count_calls is_success c \<noteq> 0 \<longrightarrow> count_calls is_send c = 2)"

definition good :: "'k ceremony \<Rightarrow> callback list \<Rightarrow> bool" where
  "good c log \<longleftrightarrow> running c log \<or> over c"

lemma count_calls_simps [simp]:
  "count_calls P (calls xs c) = count_calls P c + length (filter P xs)"
  "count_calls P (c\<lparr>ce_registerDone := b\<rparr>) = count_calls P c"
  "count_calls P (c\<lparr>ce_loginDone := b\<rparr>) = count_calls P c"
  "count_calls P (c\<lparr>ce_finished := b\<rparr>) = count_calls P c"
  "count_calls P (c\<lparr>ce_step := st\<rparr>) = count_calls P c"
  "count_calls P (c\<lparr>ce_handshake := h\<rparr>) = count_calls P c"
  "count_calls P (c\<lparr>ce_crypter := k\<rparr>) = count_calls P c"
  "count_calls P (c\<lparr>ce_socket := b\<rparr>) = count_calls P c"
  "count_calls P (c\<lparr>ce_scanner := b\<rparr>) = count_calls P c"
  "count_calls P (c\<lparr>ce_boxShown := b\<rparr>) = count_calls P c"
  "count_calls P (c\<lparr>ce_ui := b\<rparr>) = count_calls P c"
  "count_calls P (c\<lparr>ce_bluetoothAvailable := b\<rparr>) = count_calls P c"
  "count_calls P (c\<lparr>ce_identity := i\<rparr>) = count_calls P c"
  "count_calls P (c\<lparr>ce_secret := bs\<rparr>) = count_calls P c"
  "count_calls P (c\<lparr>ce_eidKey := bs\<rparr>) = count_calls P c"
  "count_calls P (c\<lparr>ce_protocolRevision := n\<rparr>) = count_calls P c"
  by (simp_all add: count_calls_def calls_def)

lemma calls_select [simp]:
  "ce_finished (calls xs c) = ce_finished c" "ce_step (calls xs c) = ce_step c"
  "ce_registerDone (calls xs c) = ce_registerDone c" "ce_loginDone (calls xs c) = ce_loginDone c"
  "ce_isRegister (calls xs c) = ce_isRegister c" "ce_identity (calls xs c) = ce_identity c"
  "ce_socket (calls xs c) = ce_socket c" "ce_scanner (calls xs c) = ce_scanner c"
  "ce_handshake (calls xs c) = ce_handshake c" "ce_crypter (calls xs c) = ce_crypter c"
  "ce_boxShown (calls xs c) = ce_boxShown c" "ce_ui (calls xs c) = ce_ui c"
  by (simp_all add: calls_def)

lemmas call_kinds = is_done_def is_success_def is_send_def

text \<open>
  Finishing a running ceremony reports exactly once. With an outcome other than
  success it reports through the callback that is left; with success the
  callback has been taken before.
\<close>

definition pending :: "'k ceremony \<Rightarrow> nat" where
  "pending c = (if ce_registerDone c then 1 else 0) + (if ce_loginDone c then 1 else 0)"

lemma Finish_counts:
  assumes "\<not> ce_finished c"
  shows "ce_finished (Finish o' c)" and "ce_step (Finish o' c) = Finished"
    and "count_calls is_done (Finish o' c) = count_calls is_done c + pending c"
    and "count_calls is_send (Finish o' c) = count_calls is_send c"
    and "count_calls is_success (Finish o' c) = count_calls is_success c + (if o' = Success then pending c else 0)"
  using assms
  by (simp_all add: Finish_def Let_def take_registerDone_def take_loginDone_def pending_def call_kinds
      empty_register_def empty_login_def)

text \<open>What \<open>Finish\<close> needs of a state; updates of the other fields do not matter to it.\<close>

definition unfinished :: "'k ceremony \<Rightarrow> bool" where
  "unfinished c \<longleftrightarrow>
    \<not> ce_finished c \<and> pending c = 1 \<and> count_calls is_done c = 0 \<and> count_calls is_success c = 0"

lemma Finish_over: "unfinished c \<Longrightarrow> o' \<noteq> Success \<Longrightarrow> over (Finish o' c)"
  using Finish_counts [of c o'] by (auto simp: unfinished_def over_def)

lemma running_unfinished: "running c log \<Longrightarrow> unfinished c"
  by (auto simp: running_def unfinished_def pending_def)

lemma unfinished_updates [simp]:
  "unfinished (c\<lparr>ce_step := st\<rparr>) = unfinished c"
  "unfinished (c\<lparr>ce_handshake := h\<rparr>) = unfinished c"
  "unfinished (c\<lparr>ce_crypter := k\<rparr>) = unfinished c"
  "unfinished (c\<lparr>ce_boxShown := b\<rparr>) = unfinished c"
  "unfinished (c\<lparr>ce_bluetoothAvailable := b\<rparr>) = unfinished c"
  "list_all (\<lambda>x. \<not> is_done x \<and> \<not> is_success x) xs \<Longrightarrow> unfinished (calls xs c) = unfinished c"
  by (auto simp: unfinished_def pending_def filter_empty_conv list_all_iff)

lemma running_crypter: "running c log \<Longrightarrow> running (c\<lparr>ce_crypter := Some k\<rparr>) log"
  by (auto simp: running_def)

lemma running_handshake: "running c log \<Longrightarrow> running (c\<lparr>ce_handshake := Some h\<rparr>) log"
  by (auto simp: running_def)

lemma running_revision: "running c log \<Longrightarrow> running (c\<lparr>ce_protocolRevision := n\<rparr>) log"
  by (auto simp: running_def)

lemma running_logged: "running c log \<Longrightarrow> log \<noteq> [] \<Longrightarrow> running c (log @ xs)"
  by (auto simp: running_def)

lemma success_over:
  assumes "running c log" and "ce_step c = AwaitingReply"
  shows "ce_isRegister c \<Longrightarrow> over (FinishSuccessRegister m c)"
    and "\<not> ce_isRegister c \<Longrightarrow> over (FinishSuccessLogin g c)"
  using assms Finish_counts [of "take_registerDone _ c" Success] Finish_counts [of "take_loginDone _ c" Success]
  by (auto simp: running_def over_def FinishSuccessRegister_def FinishSuccessLogin_def take_registerDone_def
      take_loginDone_def pending_def sends_at_def call_kinds)

section \<open>Every handler keeps the invariant\<close>

lemma over_handle: "over c \<Longrightarrow> handle V e c = Inr c"
  by (cases e) (auto simp: over_def OnAdvert_def ShowBox_def timeout_fired_def on_connected_def on_binary_def
      on_closed_def security_key_chosen_def box_cancelled_def)

text \<open>A handler that runs: it does not abort and its state is good again.\<close>

definition keeps :: "'k ceremony result \<Rightarrow> callback list \<Rightarrow> bool" where
  "keeps r log = (case r of Inl _ \<Rightarrow> False | Inr c \<Rightarrow> good c log)"

lemma keeps_Inr [simp]: "keeps (Inr c) log = good c log"
  by (simp add: keeps_def)

lemma good_Finish [simp]: "unfinished c \<Longrightarrow> o' \<noteq> Success \<Longrightarrow> good (Finish o' c) log"
  by (simp add: good_def Finish_over)

lemma good_running: "running c log \<Longrightarrow> good c log"
  by (simp add: good_def)

lemma OnAdvert_keeps:
  assumes run: "running c log" and "ce_scanner c"
  shows "keeps (OnAdvert C hmac aes d c) log"
proof (cases "ce_step c = Scanning \<and> DecryptAdvert hmac aes d (ce_eidKey c) \<noteq> None")
  case False
  then show ?thesis
    using run by (auto simp: OnAdvert_def good_running)
next
  case True
  then obtain eid identity where "DecryptAdvert hmac aes d (ce_eidKey c) = Some eid" and "ce_identity c = Some identity"
    using run by (auto simp: running_def)
  moreover have "unfinished c"
    using run by (rule running_unfinished)
  ultimately show ?thesis
    using True assms
    by (simp add: OnAdvert_def Let_def call_kinds)
      (auto intro!: good_running simp: running_def sends_at_def call_kinds)
qed

lemma ShowBox_keeps:
  assumes run: "running c log"
  shows "keeps (ShowBox C now shown bluetooth c) log"
proof -
  obtain identity where "ce_identity c = Some identity"
    using run by (auto simp: running_def)
  moreover have "unfinished c"
    using run by (rule running_unfinished)
  ultimately show ?thesis
    using run
    by (simp add: ShowBox_def Let_def call_kinds good_running)
      (auto intro!: good_running simp: running_def call_kinds)
qed

lemma on_connected_keeps:
  assumes run: "running c []" and "ce_socket c"
  shows "keeps (on_connected C generated c) [OnConnected]"
proof -
  obtain h where "ce_handshake c = Some h"
    using assms by (auto simp: running_def)
  moreover have "unfinished c"
    using run by (rule running_unfinished)
  moreover obtain initial h' where "buildInitialMessage C generated h = (initial, h')"
    by (metis surj_pair)
  ultimately show ?thesis
    using assms
    by (simp add: on_connected_def Let_def call_kinds)
      (auto intro!: good_running simp: running_def sends_at_def call_kinds)
qed

lemma SendCtapRequest_keeps:
  assumes run: "running c log" and "ce_step c = PostHandshake"
  shows "keeps (SendCtapRequest C c) log"
proof -
  obtain k where "ce_crypter c = Some k"
    using assms by (auto simp: running_def)
  moreover have "unfinished c"
    using run by (rule running_unfinished)
  moreover obtain encrypted k' where
    "crypter_encrypt C ((if ce_protocolRevision c \<ge> 1 then [message_ctap] else []) @ BuildCtapRequest c) k = (encrypted, k')"
    by (metis surj_pair)
  ultimately show ?thesis
    using assms
    by (cases encrypted; simp add: SendCtapRequest_def Let_def call_kinds)
      (auto intro!: good_running simp: running_def sends_at_def call_kinds)
qed

lemma HandleReply_keeps:
  assumes run: "running c log" and "ce_step c = AwaitingReply"
  shows "good (HandleReply bs c) log"
proof -
  have [simp]: "unfinished c"
    using run by (rule running_unfinished)
  have [simp]: "ce_isRegister c \<Longrightarrow> good (FinishSuccessRegister m c) log"
    and [simp]: "\<not> ce_isRegister c \<Longrightarrow> good (FinishSuccessLogin g c) log" for m g
    using success_over [OF assms] by (simp_all add: good_def)
  have [simp]: "good c log"
    using run by (rule good_running)
  show ?thesis
    by (simp add: HandleReply_def Let_def split: list.splits option.splits)
qed

lemma tunnel_handshake_keeps:
  assumes run: "running c log" and st: "ce_step c = Handshake"
  shows "keeps (HandleTunnelData C bs c) log"
proof -
  obtain h where "ce_handshake c = Some h"
    using assms by (auto simp: running_def)
  moreover have "unfinished c"
    using run by (rule running_unfinished)
  moreover obtain r h' where "processResponse C bs h = (r, h')"
    by (metis surj_pair)
  ultimately show ?thesis
    using assms
    by (cases r; simp add: HandleTunnelData_def Let_def)
      (auto intro!: good_running simp: running_def sends_at_def)
qed

lemma tunnel_crypted_keeps:
  assumes run: "running c log" and st: "ce_step c = PostHandshake \<or> ce_step c = AwaitingReply"
  shows "keeps (HandleTunnelData C bs c) log"
proof -
  obtain k where k: "ce_crypter c = Some k"
    using assms by (auto simp: running_def)
  have u: "unfinished c"
    using run by (rule running_unfinished)
  obtain plain k' where d: "crypter_decrypt C bs k = (plain, k')"
    by (metis surj_pair)
  show ?thesis
  proof (cases plain)
    case None
    then show ?thesis
      using st k u d by (auto simp: HandleTunnelData_def)
  next
    case (Some p)
    have run': "running (c\<lparr>ce_crypter := Some k'\<rparr>) log"
      using run by (rule running_crypter)
    have u': "unfinished (c\<lparr>ce_crypter := Some k'\<rparr>)"
      using u by simp
    have "ce_step c = AwaitingReply \<Longrightarrow> good (HandleReply p (c\<lparr>ce_crypter := Some k'\<rparr>)) log"
      using HandleReply_keeps [OF run'] by simp
    moreover have "ce_step c = PostHandshake \<Longrightarrow>
        keeps (SendCtapRequest C (c\<lparr>ce_crypter := Some k', ce_protocolRevision := n\<rparr>)) log" for n
      using SendCtapRequest_keeps [OF running_revision [OF run']] by simp
    ultimately show ?thesis
      using st k u' d Some by (auto simp: HandleTunnelData_def Let_def split: option.splits)
  qed
qed

lemma on_binary_keeps:
  assumes run: "running c log" and "log \<noteq> []"
  shows "keeps (on_binary C bs c) (log @ [OnData bs])"
proof -
  have run': "running c (log @ [OnData bs])"
    using assms by (rule running_logged)
  have "ce_step c \<in> {Handshake, PostHandshake, AwaitingReply}"
    using assms by (cases "ce_step c") (auto simp: running_def)
  then have "keeps (HandleTunnelData C bs c) (log @ [OnData bs])"
    using tunnel_handshake_keeps [OF run'] tunnel_crypted_keeps [OF run'] by auto
  then show ?thesis
    using run by (simp add: on_binary_def running_def)
qed

lemma running_handle:
  assumes run: "running c log" and en: "enabled e c log"
  shows "keeps (handle V e c) (log_event e log)"
proof -
  have u [simp]: "unfinished c" "good c log"
    using run by (simp_all add: running_unfinished good_running)
  show ?thesis
  proof (cases e)
    case (Advert d)
    then show ?thesis
      using run en OnAdvert_keeps by simp
  next
    case (SocketConnected g)
    then show ?thesis
      using run en on_connected_keeps by auto
  next
    case (SocketBinary m)
    then show ?thesis
      using run en on_binary_keeps by auto
  next
    case (KeyChosen present)
    have "running (calls [ShowNoDevice] c) log"
      using run by (simp add: running_def call_kinds)
    then show ?thesis
      using KeyChosen by (auto simp: security_key_chosen_def good_running)
  next
    case SocketClosed
    then show ?thesis
      using run by (simp add: on_closed_def running_def)
  qed (use run ShowBox_keeps in \<open>auto simp: timeout_fired_def box_cancelled_def\<close>)
qed

lemma Start_keeps:
  assumes "c = Register r \<or> c = Login l"
  shows "keeps (Start C identity secret scanner starts now shown c) []"
proof (cases identity)
  case None
  then show ?thesis
    using assms
    by (auto simp: Start_def Register_def Login_def empty_ceremony_def unfinished_def pending_def count_calls_def)
next
  case (Some i)
  have run: "running (calls [StartTimeout t] (c\<lparr>ce_ui := True, ce_identity := Some i, ce_secret := secret,
      ce_eidKey := k, ce_scanner := b\<rparr>)) []" for t k b
    using assms
    by (auto simp: running_def sends_at_def call_kinds Register_def Login_def empty_ceremony_def count_calls_def
        calls_def)
  have probe: "running (calls [StartProbe] c') []" if "running c' []" for c' :: "'a ceremony"
    using that by (simp add: running_def call_kinds)
  have "keeps (ShowBox C now shown False (calls [StartTimeout t] (c\<lparr>ce_ui := True, ce_identity := Some i,
      ce_secret := secret, ce_eidKey := k, ce_scanner := b\<rparr>))) []" for t k b
    using ShowBox_keeps [OF run] .
  moreover have "good (calls [StartProbe] (calls [StartTimeout t] (c\<lparr>ce_ui := True, ce_identity := Some i,
      ce_secret := secret, ce_eidKey := k, ce_scanner := b\<rparr>))) []" for t k b
    using good_running [OF probe [OF run]] .
  ultimately show ?thesis
    using Some by (simp add: Start_def Let_def)
qed

lemma reachable_good: "ceremony_reachable V c log \<Longrightarrow> good c log"
proof (induction rule: ceremony_reachable.induct)
  case (start_register identity secret scanner starts now shown r c)
  then show ?case
    using Start_keeps [of "Register r" r undefined "ev_crypto V" identity secret scanner starts now shown] by simp
next
  case (start_login identity secret scanner starts now shown l c)
  then show ?case
    using Start_keeps [of "Login l" undefined l "ev_crypto V" identity secret scanner starts now shown] by simp
next
  case (event c log e c')
  from event.IH show ?case
    unfolding good_def [of c]
  proof
    assume "running c log"
    then show ?thesis
      using running_handle [of c log e V] event.hyps by simp
  next
    assume "over c"
    then show ?thesis
      using event over_handle [of c V e] by (simp add: good_def)
  qed
qed

section \<open>Properties\<close>

text \<open>
  C13: No event that can come to a reachable ceremony dereferences a null pointer: the
  scanner, the QR identity, the handshake, the crypter and the socket are there
  whenever a handler calls them.
\<close>

theorem ceremony_never_aborts:
  assumes "ceremony_reachable V c log" and "enabled e c log"
  shows "\<exists>c'. handle V e c = Inr c'"
proof -
  from reachable_good [OF assms(1)] have "keeps (handle V e c) (log_event e log) \<or> handle V e c = Inr c"
    unfolding good_def using running_handle [OF _ assms(2)] over_handle by blast
  then show ?thesis
    by (auto simp: keeps_def split: sum.splits)
qed

text \<open>
  C12: In every reachable state the caller's callback has been called once if the
  ceremony has finished and not at all otherwise.
\<close>

theorem done_called_once:
  assumes "ceremony_reachable V c log"
  shows "count_calls is_done c = (if ce_finished c then 1 else 0)"
  using reachable_good [OF assms] by (auto simp: good_def running_def over_def)

text \<open>
  Success is never reported before both messages, the handshake and the request,
  have been sent over the tunnel.
\<close>

theorem no_success_before_request:
  assumes "ceremony_reachable V c log" and "count_calls is_send c < 2"
  shows "(\<forall>r. RegisterDone r \<in> set (ce_calls c) \<longrightarrow> rs_outcome r \<noteq> Success) \<and>
    (\<forall>l. LoginDone l \<in> set (ce_calls c) \<longrightarrow> ls_outcome l \<noteq> Success)"
proof -
  have "count_calls is_success c = 0"
    using reachable_good [OF assms(1)] assms(2) by (auto simp: good_def running_def over_def)
  then show ?thesis
    by (auto simp: count_calls_def filter_empty_conv is_success_def)
qed

text \<open>
  C14: When the timeout fires, a ceremony that still runs ends: it is finished and has
  called its callback once, and no later event changes it.
\<close>

theorem timeout_finishes:
  assumes "ceremony_reachable V c log"
  shows "\<exists>c'. handle V TimeoutFired c = Inr c' \<and> ce_finished c' \<and> count_calls is_done c' = 1 \<and>
    (\<forall>e. handle V e c' = Inr c')"
proof -
  have fired: "over (timeout_fired c)"
  proof (cases "ce_finished c")
    case True
    then show ?thesis
      using reachable_good [OF assms] by (simp add: good_def timeout_fired_def running_def)
  next
    case False
    then have "running c log"
      using reachable_good [OF assms] by (simp add: good_def over_def)
    then show ?thesis
      using False by (simp add: timeout_fired_def Finish_over running_unfinished)
  qed
  then have "ce_finished (timeout_fired c)" and "count_calls is_done (timeout_fired c) = 1"
    by (simp_all add: over_def)
  moreover have "handle V TimeoutFired c = Inr (timeout_fired c)"
    by simp
  ultimately show ?thesis
    using over_handle [OF fired] by blast
qed

section \<open>Witnesses\<close>

definition sample_env :: "nat ceremony_env" where
  "sample_env = \<lparr>ev_crypto = sample_crypto, ev_hmac = (\<lambda>k b. replicate 32 5),
    ev_aes = (\<lambda>k b. Some (replicate 16 0))\<rparr>"

definition sample_login :: login_request where
  "sample_login = \<lparr>lr_rpId = [], lr_clientDataHash = [], lr_allowCredentialIds = [], lr_timeoutMs = 5\<rparr>"

text \<open>A login that scans, and one that could not make its key.\<close>

definition sample_scanning :: "nat ceremony" where
  "sample_scanning = calls [StartTimeout 5, StartProbe] ((Login sample_login)\<lparr>ce_ui := True, ce_identity := Some 1,
    ce_secret := [2], ce_eidKey := Derive sample_crypto kEidKeySize [2] [] EidKey, ce_scanner := True\<rparr>)"

definition sample_failed :: "nat ceremony" where
  "sample_failed = Finish Failed ((Login sample_login)\<lparr>ce_ui := True, ce_identity := None, ce_secret := []\<rparr>)"

lemma sample_scanning_reachable: "ceremony_reachable sample_env sample_scanning []"
  by (rule start_login [of _ "Some 1" "[2]" True True 0 True sample_login])
    (simp add: Start_def sample_scanning_def sample_env_def sample_login_def Login_def empty_ceremony_def calls_def)

lemma sample_failed_reachable: "ceremony_reachable sample_env sample_failed []"
  by (rule start_login [of _ None "[]" True True 0 True sample_login])
    (simp add: Start_def sample_failed_def)

theorem ceremony_never_aborts_witness:
  "\<exists>c'. handle sample_env (Advert (replicate 20 1)) sample_scanning = Inr c'"
  by (rule ceremony_never_aborts [OF sample_scanning_reachable])
    (simp add: sample_scanning_def Login_def empty_ceremony_def)

theorem done_called_once_witness:
  "count_calls is_done sample_failed = 1 \<and> count_calls is_done sample_scanning = 0"
  using done_called_once [OF sample_failed_reachable] done_called_once [OF sample_scanning_reachable]
  by (simp add: sample_failed_def sample_scanning_def Login_def empty_ceremony_def Finish_counts)

theorem no_success_before_request_witness:
  "LoginDone (empty_login Failed) \<in> set (ce_calls sample_failed) \<and> ls_outcome (empty_login Failed) \<noteq> Success"
proof -
  have "count_calls is_send sample_failed < 2"
    by (simp add: sample_failed_def Login_def empty_ceremony_def Finish_counts) (simp add: count_calls_def)
  moreover have "LoginDone (empty_login Failed) \<in> set (ce_calls sample_failed)"
    by (simp add: sample_failed_def Login_def empty_ceremony_def Finish_def calls_def take_registerDone_def
        take_loginDone_def)
  ultimately show ?thesis
    using no_success_before_request [OF sample_failed_reachable] by blast
qed

theorem timeout_finishes_witness:
  "\<exists>c'. handle sample_env TimeoutFired sample_scanning = Inr c' \<and> ce_finished c' \<and> count_calls is_done c' = 1"
  using timeout_finishes [OF sample_scanning_reachable] by blast

end
