(* ===== verification/Slices.thy ===== *)
theory Slices
  imports Prelude
begin

text \<open>
  The lists of known message ranges that \<open>data/data_messages.cpp\<close> and
  \<open>storage/storage_sparse_ids_list.cpp\<close> keep. A slice is a range in which no
  message is missing and the messages known in it. A \<open>base::flat_set\<close> is its
  sorted list of elements, an iterator into one an index; \<open>ranges::lower_bound\<close> and
  \<open>upper_bound\<close> are the length of the prefix before the position they find.
\<close>

section \<open>Sorted sets\<close>

abbreviation ordered :: "'p::linorder list \<Rightarrow> bool" where
  "ordered \<equiv> sorted_wrt (<)"

definition fs_merge :: "'p::linorder list \<Rightarrow> 'p list \<Rightarrow> 'p list" where
  "fs_merge xs ys = fold insort_insert xs ys"

definition fs_lower_bound :: "'p::linorder list \<Rightarrow> 'p \<Rightarrow> nat" where
  "fs_lower_bound xs p = length (takeWhile (\<lambda>x. x < p) xs)"

lemma ordered_insort_insert: "ordered xs \<Longrightarrow> ordered (insort_insert x xs)"
  by (simp add: strict_sorted_iff sorted_insort_insert distinct_insort_insert)

lemma fs_merge_simps [simp]:
  "set (fs_merge xs ys) = set xs \<union> set ys"
  "ordered ys \<Longrightarrow> ordered (fs_merge xs ys)"
  unfolding fs_merge_def
   by (induction xs arbitrary: ys) (auto simp: set_insort_insert ordered_insort_insert)

lemma ordered_length: "ordered xs \<Longrightarrow> length xs = card (set xs)"
  by (simp add: strict_sorted_iff distinct_card)

lemma ordered_last: "ordered xs \<Longrightarrow> x \<in> set xs \<Longrightarrow> x \<le> last xs"
  by (induction xs) (auto intro: less_imp_le)

lemma ordered_take_while: "ordered xs \<Longrightarrow> set (takeWhile (\<lambda>x. x < p) xs) = {x \<in> set xs. x < p}"
  by (induction xs) auto

lemma ordered_drop_while: "ordered xs \<Longrightarrow> set (dropWhile (\<lambda>x. x < p) xs) = {x \<in> set xs. p \<le> x}"
  by (induction xs) (auto simp: not_less intro: order_trans less_imp_le)

lemma fs_lower_bound_split:
  "take (fs_lower_bound xs p) xs = takeWhile (\<lambda>x. x < p) xs"
  "drop (fs_lower_bound xs p) xs = dropWhile (\<lambda>x. x < p) xs"
  by (simp_all add: fs_lower_bound_def dropWhile_eq_drop flip: takeWhile_eq_take)

section \<open>Slices\<close>

record 'p slice =
  sl_messages :: "'p list"
  sl_from :: 'p
  sl_till :: 'p

record 'p slice_update =
  up_messages :: "'p list option"
  up_from :: 'p
  up_till :: 'p
  up_count :: "int option"

definition slice_merge :: "'p::linorder list \<Rightarrow> 'p \<Rightarrow> 'p \<Rightarrow> 'p slice \<Rightarrow> 'p slice result" where
  "slice_merge moreMessages moreFrom moreTill s =
    (if \<not> (moreFrom \<le> sl_till s \<and> sl_from s \<le> moreTill) then Inl (Abort ''Expects'')
     else Inr \<lparr>sl_messages = fs_merge moreMessages (sl_messages s),
       sl_from = min (sl_from s) moreFrom, sl_till = max (sl_till s) moreTill\<rparr>)"

text \<open>The first slice that ends at or after a position, and the first that begins after it.\<close>

definition lower_till :: "'p::linorder slice list \<Rightarrow> 'p \<Rightarrow> nat" where
  "lower_till ss p = length (takeWhile (\<lambda>s. sl_till s < p) ss)"

definition upper_from :: "'p::linorder slice list \<Rightarrow> 'p \<Rightarrow> nat" where
  "upper_from ss p = length (takeWhile (\<lambda>s. sl_from s \<le> p) ss)"

fun merge_all :: "'p::linorder slice list \<Rightarrow> 'p slice \<Rightarrow> 'p slice result" where
  "merge_all [] s = Inr s"
| "merge_all (it # its) s =
     bind_result (slice_merge (sl_messages it) (sl_from it) (sl_till it) s) (merge_all its)"

text \<open>The number of new messages, the merged slice and the slices after it.\<close>

definition uniteAndAdd ::
  "nat \<Rightarrow> nat \<Rightarrow> 'p::linorder list \<Rightarrow> 'p \<Rightarrow> 'p \<Rightarrow> 'p slice list \<Rightarrow> (int \<times> 'p slice \<times> 'p slice list) result" where
  "uniteAndAdd uniteFrom uniteTill messages from till ss =
    (let was = length (sl_messages (ss ! uniteFrom))
     in bind_result (slice_merge messages from till (ss ! uniteFrom)) (\<lambda>s.
        bind_result (merge_all (take (uniteTill - (uniteFrom + 1)) (drop (uniteFrom + 1) ss)) s) (\<lambda>s.
        Inr (int (length (sl_messages s)) - int was, s, take uniteFrom ss @ s # drop uniteTill ss))))"

text \<open>\<open>emplace\<close> keeps a slice that begins at the same position.\<close>

definition emplace_slice :: "'p::linorder slice \<Rightarrow> 'p slice list \<Rightarrow> 'p slice \<times> 'p slice list" where
  "emplace_slice s ss =
    (let i = length (takeWhile (\<lambda>x. sl_from x < sl_from s) ss)
     in if i < length ss \<and> sl_from (ss ! i) = sl_from s then (ss ! i, ss)
        else (s, take i ss @ s # drop i ss))"

definition unite_or_emplace ::
  "'p::linorder list \<Rightarrow> 'p \<Rightarrow> 'p \<Rightarrow> 'p slice list \<Rightarrow> (int \<times> 'p slice \<times> 'p slice list) result" where
  "unite_or_emplace messages from till ss =
    (let uniteFrom = lower_till ss from; uniteTill = upper_from ss till
     in if uniteFrom < uniteTill then uniteAndAdd uniteFrom uniteTill messages from till ss
        else case emplace_slice \<lparr>sl_messages = fs_merge messages [], sl_from = from, sl_till = till\<rparr> ss of
          (s, ss') \<Rightarrow> Inr (int (length (sl_messages s)), s, ss'))"

section \<open>The invariant and the abstraction\<close>

definition slice_ok :: "'p::linorder slice \<Rightarrow> bool" where
  "slice_ok s \<longleftrightarrow> sl_from s \<le> sl_till s \<and> ordered (sl_messages s) \<and> set (sl_messages s) \<subseteq> {sl_from s .. sl_till s}"

definition separated :: "'p::linorder slice list \<Rightarrow> bool" where
  "separated ss \<longleftrightarrow> sorted_wrt (\<lambda>a b. sl_till a < sl_from b) ss \<and> list_all slice_ok ss"

definition covered :: "'p::linorder slice list \<Rightarrow> 'p set" where
  "covered ss = (\<Union>s\<in>set ss. {sl_from s .. sl_till s})"

definition known :: "'p::linorder slice list \<Rightarrow> 'p set" where
  "known ss = (\<Union>s\<in>set ss. set (sl_messages s))"

lemma covered_simps [simp]:
  "covered [] = {}" "covered (s # ss) = {sl_from s .. sl_till s} \<union> covered ss"
  "covered (ss @ ss') = covered ss \<union> covered ss'"
  by (auto simp: covered_def)

lemma known_simps [simp]:
  "known [] = {}" "known (s # ss) = set (sl_messages s) \<union> known ss"
  "known (ss @ ss') = known ss \<union> known ss'"
  by (auto simp: known_def)

lemma separated_simps [simp]:
  "separated []"
  "separated (s # ss) \<longleftrightarrow> slice_ok s \<and> (\<forall>x\<in>set ss. sl_till s < sl_from x) \<and> separated ss"
  by (auto simp: separated_def)

lemma separated_append:
  "separated (ss @ ss') \<longleftrightarrow> separated ss \<and> separated ss' \<and> (\<forall>a\<in>set ss. \<forall>b\<in>set ss'. sl_till a < sl_from b)"
  by (auto simp: separated_def sorted_wrt_append)

lemma separated_ok: "separated ss \<Longrightarrow> s \<in> set ss \<Longrightarrow> slice_ok s"
  by (auto simp: separated_def list_all_iff)

lemma known_covered: "separated ss \<Longrightarrow> known ss \<subseteq> covered ss"
  using separated_ok by (fastforce simp: known_def covered_def slice_ok_def)

text \<open>A list agrees with the server's set \<open>S\<close> when it knows of \<open>S\<close> all it covers.\<close>

definition slices_agree :: "'p::linorder set \<Rightarrow> 'p slice list \<Rightarrow> bool" where
  "slices_agree S ss \<longleftrightarrow> separated ss \<and> known ss = S \<inter> covered ss"

lemma slices_agree_slice:
  assumes "slices_agree S ss" and "s \<in> set ss"
  shows "set (sl_messages s) = S \<inter> {sl_from s..sl_till s}"
proof -
  obtain A D where ss: "ss = A @ s # D"
    using assms(2) by (auto dest: split_list)
  have sep: "separated A" "separated D" "slice_ok s"
    and disj: "\<And>x. x \<in> {sl_from s..sl_till s} \<Longrightarrow> x \<notin> covered A \<and> x \<notin> covered D"
    using assms(1) by (auto simp: slices_agree_def ss separated_append covered_def)
  have "x \<in> set (sl_messages s) \<longleftrightarrow> x \<in> S" if x: "x \<in> {sl_from s..sl_till s}" for x
  proof -
    have "x \<in> known ss \<longleftrightarrow> x \<in> S \<inter> covered ss"
      using assms(1) by (simp add: slices_agree_def)
    moreover have "x \<notin> known A" "x \<notin> known D"
      using disj [OF x] known_covered sep by blast+
    ultimately show ?thesis
      using x disj [OF x] by (simp add: ss)
  qed
  then show ?thesis
    using sep(3) by (auto simp: slice_ok_def)
qed

lemma slices_agree_Cons:
  "slices_agree S (s # ss) \<longleftrightarrow>
    slice_ok s \<and> (\<forall>x\<in>set ss. sl_till s < sl_from x) \<and> set (sl_messages s) = S \<inter> {sl_from s..sl_till s} \<and>
    slices_agree S ss"
proof
  assume a: "slices_agree S (s # ss)"
  have "x \<in> known ss \<longleftrightarrow> x \<in> S \<inter> covered ss" for x
  proof -
    have "x \<in> known ss \<longleftrightarrow> (\<exists>t\<in>set ss. x \<in> set (sl_messages t))"
      by (simp add: known_def)
    also have "\<dots> \<longleftrightarrow> (\<exists>t\<in>set ss. x \<in> S \<inter> {sl_from t..sl_till t})"
      using slices_agree_slice [OF a] by auto
    finally show ?thesis
      by (auto simp: covered_def)
  qed
  then show "slice_ok s \<and> (\<forall>x\<in>set ss. sl_till s < sl_from x) \<and> set (sl_messages s) = S \<inter> {sl_from s..sl_till s} \<and>
      slices_agree S ss"
    using a slices_agree_slice [OF a, of s] by (auto simp: slices_agree_def)
qed (auto simp: slices_agree_def)

text \<open>The one slice of a full list holds all of \<open>S\<close>.\<close>

lemma full_slice:
  fixes S :: "'p::linorder set"
  assumes "slices_agree S [f]" and "sl_from f = lowest" and "sl_till f = highest" and "S \<subseteq> {lowest..highest}"
  shows "length (sl_messages f) = card S"
proof -
  have "set (sl_messages f) = S"
    using slices_agree_slice [OF assms(1), of f] assms(2-4) by auto
  moreover have "ordered (sl_messages f)"
    using assms(1) by (simp add: slices_agree_def slice_ok_def)
  ultimately show ?thesis
    using ordered_length by metis
qed

section \<open>Uniting\<close>

text \<open>The slices a range meets lie between those before it and those after it.\<close>

lemma split_slices:
  assumes "separated ss" and "from \<le> till"
  obtains A B D where "ss = A @ B @ D" and "lower_till ss from = length A"
    and "upper_from ss till = length A + length B"
    and "\<forall>a\<in>set A. sl_till a < from" and "\<forall>d\<in>set D. till < sl_from d"
    and "\<forall>b\<in>set B. from \<le> sl_till b \<and> sl_from b \<le> till"
proof
  let ?A = "takeWhile (\<lambda>s. sl_till s < from) ss" and ?R = "dropWhile (\<lambda>s. sl_till s < from) ss"
  let ?B = "takeWhile (\<lambda>s. sl_from s \<le> till) ?R" and ?D = "dropWhile (\<lambda>s. sl_from s \<le> till) ?R"
  show ss: "ss = ?A @ ?B @ ?D" by simp
  show A: "\<forall>a\<in>set ?A. sl_till a < from" by (auto dest: set_takeWhileD)
  have sepR: "separated ?R"
    using assms(1) ss by (metis separated_append append_assoc takeWhile_dropWhile_id)
  have R: "\<forall>r\<in>set ?R. from \<le> sl_till r"
  proof (cases ?R)
    case (Cons r rs)
    have "\<not> sl_till r < from"
      using hd_dropWhile [of "\<lambda>s. sl_till s < from" ss] Cons by simp
    moreover have "\<forall>x\<in>set rs. sl_till r < sl_from x \<and> sl_from x \<le> sl_till x"
      using sepR Cons by (auto simp: slice_ok_def dest: separated_ok)
    ultimately have "from \<le> sl_till x" if "x \<in> set (r # rs)" for x
      using that by (auto simp: not_less intro: order_trans less_imp_le)
    then show ?thesis
      unfolding Cons by blast
  qed (simp only: list.set ball_simps)
  then show "\<forall>b\<in>set ?B. from \<le> sl_till b \<and> sl_from b \<le> till"
    by (auto dest: set_takeWhileD)
  have sepD: "separated ?D"
    using sepR by (metis separated_append takeWhile_dropWhile_id)
  show "\<forall>d\<in>set ?D. till < sl_from d"
  proof (cases ?D)
    case (Cons d ds)
    have "\<not> sl_from d \<le> till"
      using hd_dropWhile [of "\<lambda>s. sl_from s \<le> till" ?R] Cons by simp
    moreover have "\<forall>x\<in>set ds. sl_from d \<le> sl_from x"
      using sepD Cons by (auto simp: slice_ok_def)
    ultimately show ?thesis
      unfolding Cons by auto
  qed (simp only: list.set ball_simps)
  show "lower_till ss from = length ?A"
    by (simp add: lower_till_def)
  have "\<forall>a\<in>set ?A. sl_from a \<le> till"
    using A assms separated_ok [of ss] by (fastforce simp: slice_ok_def dest: set_takeWhileD)
  then have "takeWhile (\<lambda>s. sl_from s \<le> till) (?A @ ?R) = ?A @ ?B"
    by (intro takeWhile_append2) blast
  then show "upper_from ss till = length ?A + length ?B"
    unfolding upper_from_def by (metis length_append takeWhile_dropWhile_id)
qed

lemma join_intervals:
  fixes a :: "'p::linorder"
  assumes "a \<le> b" and "c \<le> d" and "a \<le> d" and "c \<le> b"
  shows "{min a c..max b d} = {a..b} \<union> {c..d}"
  using assms by (auto simp: min_le_iff_disj le_max_iff_disj not_le)

text \<open>What one or several merges do to the first slice.\<close>

lemma slice_merge_ok:
  assumes "slice_ok s" and "sl_from s \<le> till" and "from \<le> sl_till s" and "from \<le> till"
    and "set messages \<subseteq> {from..till}"
  obtains s' where "slice_merge messages from till s = Inr s'" and "slice_ok s'"
    and "{sl_from s'..sl_till s'} = {sl_from s..sl_till s} \<union> {from..till}"
    and "set (sl_messages s') = set (sl_messages s) \<union> set messages"
    and "sl_from s' = min (sl_from s) from" and "sl_till s' = max (sl_till s) till"
proof
  let ?s' = "\<lparr>sl_messages = fs_merge messages (sl_messages s), sl_from = min (sl_from s) from,
    sl_till = max (sl_till s) till\<rparr>"
  show "slice_merge messages from till s = Inr ?s'"
    using assms by (simp add: slice_merge_def)
  show eq: "{sl_from ?s'..sl_till ?s'} = {sl_from s..sl_till s} \<union> {from..till}"
    using assms join_intervals [of "sl_from s" "sl_till s" "from" till] by (simp add: slice_ok_def)
  have "sl_from ?s' \<le> sl_till ?s'"
    using assms by (simp add: slice_ok_def min_le_iff_disj le_max_iff_disj)
  moreover have "set (sl_messages ?s') \<subseteq> {sl_from ?s'..sl_till ?s'}"
    unfolding eq using assms by (auto simp: slice_ok_def)
  ultimately show "slice_ok ?s'"
    using assms by (simp add: slice_ok_def)
qed (simp_all add: Un_commute)

lemma merge_all_ok:
  assumes "slice_ok s" and "list_all slice_ok B" and "sl_from s \<le> p" and "p \<le> till" and "till \<le> sl_till s"
    and "\<forall>b\<in>set B. p \<le> sl_till b \<and> sl_from b \<le> till"
  obtains s' where "merge_all B s = Inr s'" and "slice_ok s'"
    and "{sl_from s'..sl_till s'} = {sl_from s..sl_till s} \<union> covered B"
    and "set (sl_messages s') = set (sl_messages s) \<union> known B"
  using assms
proof (induction B arbitrary: s thesis)
  case Nil
  then show ?case by simp
next
  case (Cons b B)
  have b: "slice_ok b" "p \<le> sl_till b" "sl_from b \<le> till"
    using Cons.prems by auto
  have "sl_from s \<le> sl_till b" and "sl_from b \<le> sl_till s"
    using b Cons.prems(4-6) by (auto intro: order_trans)
  then obtain s1 where s1: "slice_merge (sl_messages b) (sl_from b) (sl_till b) s = Inr s1" "slice_ok s1"
      "{sl_from s1..sl_till s1} = {sl_from s..sl_till s} \<union> {sl_from b..sl_till b}"
      "set (sl_messages s1) = set (sl_messages s) \<union> set (sl_messages b)"
      "sl_from s1 = min (sl_from s) (sl_from b)" "sl_till s1 = max (sl_till s) (sl_till b)"
    using slice_merge_ok [of s "sl_till b" "sl_from b" "sl_messages b"] b Cons.prems(2) unfolding slice_ok_def by blast
  have "sl_from s1 \<le> p" and "till \<le> sl_till s1"
    using s1(5,6) Cons.prems(4,6) by (auto simp: min_le_iff_disj le_max_iff_disj)
  with Cons.IH [of s1] s1(2) Cons.prems obtain s' where "merge_all B s1 = Inr s'" "slice_ok s'"
      "{sl_from s'..sl_till s'} = {sl_from s1..sl_till s1} \<union> covered B"
      "set (sl_messages s') = set (sl_messages s1) \<union> known B"
    by auto
  then show ?case
    using Cons.prems(1) [of s'] s1 by auto
qed

text \<open>
  Adding a range: no \<open>Expects\<close> fails, the slices stay separated, and what they
  cover and know grows by exactly the range and its messages. The reported number
  leaves out the messages \<open>W\<close> of the first slice that was united.
\<close>

definition adds ::
  "'p::linorder list \<Rightarrow> 'p \<Rightarrow> 'p \<Rightarrow> 'p slice list \<Rightarrow> 'p slice \<Rightarrow> 'p slice list \<Rightarrow> int \<Rightarrow> bool" where
  "adds messages from till ss s ss' added \<longleftrightarrow>
    separated ss' \<and> s \<in> set ss' \<and> {from..till} \<subseteq> {sl_from s..sl_till s} \<and>
    covered ss' = covered ss \<union> {from..till} \<and> known ss' = known ss \<union> set messages \<and>
    (\<exists>W. W \<subseteq> known ss \<and> W \<subseteq> set (sl_messages s) \<and>
      added = int (length (sl_messages s)) - int (card W) \<and> (\<forall>x\<in>set (sl_messages s) - W. from \<le> x))"

lemma unite_adds:
  assumes sep: "separated (A @ b # B @ D)" and le: "from \<le> till" and ms: "set messages \<subseteq> {from..till}"
    and A: "\<forall>a\<in>set A. sl_till a < from" and D: "\<forall>d\<in>set D. till < sl_from d"
    and B: "\<forall>x\<in>set (b # B). from \<le> sl_till x \<and> sl_from x \<le> till"
  shows "\<exists>s added. uniteAndAdd (length A) (length A + length (b # B)) messages from till (A @ b # B @ D) =
      Inr (added, s, A @ s # D) \<and> adds messages from till (A @ b # B @ D) s (A @ s # D) added"
proof -
  have b: "slice_ok b" "from \<le> sl_till b" "sl_from b \<le> till" and okB: "list_all slice_ok B"
    using sep B by (auto simp: separated_append list_all_iff dest: separated_ok)
  obtain s1 where s1: "slice_merge messages from till b = Inr s1" "slice_ok s1"
      "{sl_from s1..sl_till s1} = {sl_from b..sl_till b} \<union> {from..till}"
      "set (sl_messages s1) = set (sl_messages b) \<union> set messages"
      "sl_from s1 = min (sl_from b) from" "sl_till s1 = max (sl_till b) till"
    using slice_merge_ok [OF b(1) b(3) b(2) le ms] by blast
  have "sl_from s1 \<le> from" and "till \<le> sl_till s1"
    using s1(5,6) by simp_all
  with merge_all_ok [OF s1(2) okB] le B obtain s where s: "merge_all B s1 = Inr s" "slice_ok s"
      "{sl_from s..sl_till s} = {sl_from s1..sl_till s1} \<union> covered B"
      "set (sl_messages s) = set (sl_messages s1) \<union> known B"
    by (metis list.set_intros(2))
  have cov: "{sl_from s..sl_till s} = covered (b # B) \<union> {from..till}"
    using s(3) s1(3) by auto
  have kn: "set (sl_messages s) = known (b # B) \<union> set messages"
    using s(4) s1(4) by auto
  have endpoints: "sl_from s \<in> covered (b # B) \<union> {from..till}" "sl_till s \<in> covered (b # B) \<union> {from..till}"
    using s(2) unfolding cov [symmetric] slice_ok_def by auto
  have before: "sl_till a < x" if a: "a \<in> set A" and x: "x \<in> covered (b # B) \<union> {from..till}" for a x
  proof -
    obtain y where y: "y \<le> x" "y = from \<or> y \<in> sl_from ` set (b # B)"
      using x by (auto simp: covered_def)
    have "\<forall>z\<in>set (b # B). sl_till a < sl_from z"
      using sep a by (simp add: separated_append)
    then show ?thesis
      using y A a by (blast intro: order.strict_trans2)
  qed
  have after: "x < sl_from d" if d: "d \<in> set D" and x: "x \<in> covered (b # B) \<union> {from..till}" for d x
  proof -
    obtain y where y: "x \<le> y" "y = till \<or> y \<in> sl_till ` set (b # B)"
      using x by (auto simp: covered_def)
    have "\<forall>z\<in>set (b # B). sl_till z < sl_from d"
      using sep d by (simp add: separated_append)
    then show ?thesis
      using y D d by (blast intro: order.strict_trans1)
  qed
  have "separated (A @ s # D)"
    using sep s(2) before endpoints after by (auto simp: separated_append)
  moreover have "from \<le> x" if "x \<in> set (sl_messages s) - set (sl_messages b)" for x
  proof -
    have "x \<in> known B \<or> x \<in> set messages"
      using that kn by auto
    moreover have "sl_till b < x" if x: "x \<in> known B"
    proof -
      have "separated B" and first: "\<forall>y\<in>set B. sl_till b < sl_from y"
        using sep by (simp_all add: separated_append)
      then obtain y where "y \<in> set B" and "sl_from y \<le> x"
        using x known_covered [of B] by (auto simp: covered_def)
      then show ?thesis
        using first by (blast intro: order.strict_trans2)
    qed
    ultimately show ?thesis
      using b(2) ms by auto
  qed
  moreover have "length (sl_messages b) = card (set (sl_messages b))"
    using b(1) by (simp add: slice_ok_def ordered_length)
  moreover have "covered (A @ s # D) = covered (A @ b # B @ D) \<union> {from..till}"
      "known (A @ s # D) = known (A @ b # B @ D) \<union> set messages"
    using cov kn by auto
  moreover have "uniteAndAdd (length A) (length A + length (b # B)) messages from till (A @ b # B @ D) =
      Inr (int (length (sl_messages s)) - int (length (sl_messages b)), s, A @ s # D)"
    by (simp add: uniteAndAdd_def Let_def nth_append s1(1) s(1))
  ultimately show ?thesis
    using cov kn by (intro exI [of _ s] exI [of _ "int (length (sl_messages s)) - int (length (sl_messages b))"])
      (auto simp: adds_def intro!: exI [of _ "set (sl_messages b)"])
qed

lemma emplace_adds:
  assumes sep: "separated (A @ D)" and le: "from \<le> till" and ms: "set messages \<subseteq> {from..till}"
    and A: "\<forall>a\<in>set A. sl_till a < from" and D: "\<forall>d\<in>set D. till < sl_from d"
  shows "\<exists>s. emplace_slice \<lparr>sl_messages = fs_merge messages [], sl_from = from, sl_till = till\<rparr> (A @ D) =
      (s, A @ s # D) \<and> adds messages from till (A @ D) s (A @ s # D) (int (length (sl_messages s)))"
proof -
  let ?s = "\<lparr>sl_messages = fs_merge messages [], sl_from = from, sl_till = till\<rparr>"
  have "\<forall>a\<in>set A. sl_from a < from"
    using sep A separated_ok by (fastforce simp: separated_append slice_ok_def)
  moreover have dD: "\<forall>d\<in>set D. from < sl_from d"
    using D le by auto
  ultimately have "takeWhile (\<lambda>x. sl_from x < from) (A @ D) = A"
    by (cases D) (auto simp: takeWhile_append)
  moreover have "D \<noteq> [] \<Longrightarrow> sl_from (hd D) \<noteq> from"
    using dD by (cases D) auto
  ultimately have "emplace_slice ?s (A @ D) = (?s, A @ ?s # D)"
    by (auto simp: emplace_slice_def Let_def nth_append hd_conv_nth)
  moreover have "separated (A @ ?s # D)"
    using sep A D le ms by (auto simp: separated_append slice_ok_def)
  ultimately show ?thesis
    using ms by (auto simp: adds_def intro!: exI [of _ "{}"])
qed

lemma unite_or_emplace_adds:
  assumes sep: "separated ss" and le: "from \<le> till" and ms: "set messages \<subseteq> {from..till}"
  shows "\<exists>added s ss'. unite_or_emplace messages from till ss = Inr (added, s, ss') \<and> adds messages from till ss s ss' added"
proof -
  obtain A B D where ss: "ss = A @ B @ D" and low: "lower_till ss from = length A"
    and up: "upper_from ss till = length A + length B"
    and A: "\<forall>a\<in>set A. sl_till a < from" and D: "\<forall>d\<in>set D. till < sl_from d"
    and B: "\<forall>b\<in>set B. from \<le> sl_till b \<and> sl_from b \<le> till"
    using split_slices [OF sep le] by metis
  show ?thesis
  proof (cases B)
    case Nil
    then show ?thesis
      using emplace_adds [OF _ le ms A D] sep ss low up by (fastforce simp: unite_or_emplace_def)
  next
    case (Cons b B')
    then show ?thesis
      using unite_adds [OF _ le ms A D, of b B'] B sep ss low up by (fastforce simp: unite_or_emplace_def)
  qed
qed

lemma agree_load:
  assumes agree: "slices_agree S ss" and le: "from \<le> till" and ms: "set ms = S \<inter> {from..till}"
  shows "\<exists>added s ss'. unite_or_emplace ms from till ss = Inr (added, s, ss') \<and> s \<in> set ss' \<and> slices_agree S ss'"
proof -
  have "separated ss" and "known ss = S \<inter> covered ss" and "set ms \<subseteq> {from..till}"
    using agree ms by (auto simp: slices_agree_def)
  moreover obtain added s ss' where "unite_or_emplace ms from till ss = Inr (added, s, ss')"
    and "adds ms from till ss s ss' added"
    using unite_or_emplace_adds [OF \<open>separated ss\<close> le \<open>set ms \<subseteq> {from..till}\<close>] by blast
  ultimately show ?thesis
    using ms by (auto simp: adds_def slices_agree_def)
qed

lemma agree_arrive:
  assumes agree: "slices_agree S ss" and "m \<le> highest" and new: "\<forall>x\<in>S. x < m"
  shows "\<exists>s ss'. unite_or_emplace [m] m highest ss = Inr (1, s, ss') \<and> s \<in> set ss' \<and> slices_agree (insert m S) ss'"
proof -
  obtain added s ss' where u: "unite_or_emplace [m] m highest ss = Inr (added, s, ss')"
    and a: "adds [m] m highest ss s ss' added"
    using unite_or_emplace_adds [of ss m highest "[m]"] assms by (auto simp: slices_agree_def)
  have sep: "separated ss'" and s: "s \<in> set ss'" "{m..highest} \<subseteq> {sl_from s..sl_till s}"
    and cov: "covered ss' = covered ss \<union> {m..highest}" and kn: "known ss' = known ss \<union> {m}"
    using a by (auto simp: adds_def)
  obtain W where W: "W \<subseteq> known ss" "W \<subseteq> set (sl_messages s)"
      "added = int (length (sl_messages s)) - int (card W)" "\<forall>x\<in>set (sl_messages s) - W. m \<le> x"
    using a by (auto simp: adds_def)
  have S: "known ss = S \<inter> covered ss"
    using agree by (simp add: slices_agree_def)
  have "known ss' = insert m S \<inter> covered ss'"
    using new assms(2) unfolding kn cov S by (auto simp: not_le [symmetric])
  then have agree': "slices_agree (insert m S) ss'"
    using sep by (simp add: slices_agree_def)
  have sm: "set (sl_messages s) = insert m S \<inter> {sl_from s..sl_till s}"
    using slices_agree_slice [OF agree' s(1)] .
  have "m \<in> {sl_from s..sl_till s}"
    using s(2) assms(2) by (meson atLeastAtMost_iff order_refl subsetD)
  then have m: "m \<in> set (sl_messages s)"
    by (simp add: sm)
  have "m \<notin> W"
    using W(1) S new by auto
  moreover have "x = m" if "x \<in> set (sl_messages s) - W" for x
  proof -
    have "m \<le> x" and "x \<in> insert m S"
      using W(4) that sm by blast+
    then show ?thesis
      using new by (meson insertE leD)
  qed
  ultimately have "set (sl_messages s) = insert m W"
    using W(2) m by blast
  moreover have "finite W"
    using W(2) finite_subset by blast
  moreover have "length (sl_messages s) = card (set (sl_messages s))"
    using separated_ok [OF sep s(1)] by (simp add: slice_ok_def ordered_length)
  ultimately have "added = 1"
    using W(3) \<open>m \<notin> W\<close> by simp
  then show ?thesis
    using u s(1) agree' by auto
qed

section \<open>The slice at a position\<close>

definition slice_index :: "'p::linorder slice list \<Rightarrow> 'p \<Rightarrow> nat option" where
  "slice_index ss p =
    (let i = lower_till ss p in if i < length ss \<and> sl_from (ss ! i) \<le> p then Some i else None)"

lemma slice_index_split:
  assumes "separated ss" and "slice_index ss p = Some i"
  shows "ss = take i ss @ ss ! i # drop (Suc i) ss" and "p \<in> {sl_from (ss ! i)..sl_till (ss ! i)}" and "i < length ss"
proof -
  have i: "i < length ss" "sl_from (ss ! i) \<le> p" "i = length (takeWhile (\<lambda>s. sl_till s < p) ss)"
    using assms(2) by (auto simp: slice_index_def lower_till_def Let_def split: if_splits)
  then show "ss = take i ss @ ss ! i # drop (Suc i) ss" and "i < length ss"
    by (simp_all add: id_take_nth_drop)
  have "\<not> sl_till (ss ! i) < p"
    using i nth_length_takeWhile [of "\<lambda>s. sl_till s < p" ss] by simp
  then show "p \<in> {sl_from (ss ! i)..sl_till (ss ! i)}"
    using i by simp
qed

lemma slice_index_None:
  assumes "separated ss" and "slice_index ss p = None"
  shows "p \<notin> covered ss"
proof
  assume "p \<in> covered ss"
  then obtain s where "s \<in> set ss" and p: "sl_from s \<le> p" "p \<le> sl_till s"
    by (auto simp: covered_def)
  then obtain A D where ss: "ss = A @ s # D"
    by (auto dest: split_list)
  have "\<forall>a\<in>set A. sl_till a < p"
    using assms(1) p by (auto simp: ss separated_append intro: order.strict_trans2)
  then have "lower_till ss p = length A"
    using p by (simp add: ss lower_till_def takeWhile_append not_less)
  then show False
    using assms(2) p by (simp add: slice_index_def ss)
qed

lemma replaced_slice:
  assumes "separated (A @ s # D)" and "slice_ok s'" and "sl_from s' = sl_from s" and "sl_till s' = sl_till s"
  shows "separated (A @ s' # D)" and "covered (A @ s' # D) = covered (A @ s # D)"
  using assms by (simp_all add: separated_append)

lemma remove_known:
  assumes "separated (A @ s # D)" and "p \<in> {sl_from s..sl_till s}"
  shows "known (A @ s\<lparr>sl_messages := remove1 p (sl_messages s)\<rparr> # D) = known (A @ s # D) - {p}"
    and "slice_ok (s\<lparr>sl_messages := remove1 p (sl_messages s)\<rparr>)"
proof -
  have ok: "slice_ok s" and "separated A" "separated D"
    using assms(1) by (auto simp: separated_append)
  have "p \<notin> covered A" and "p \<notin> covered D"
    using assms by (auto simp: separated_append covered_def)
  then have "p \<notin> known A" and "p \<notin> known D"
    using known_covered \<open>separated A\<close> \<open>separated D\<close> by blast+
  moreover have "distinct (sl_messages s)"
    using ok by (simp add: slice_ok_def strict_sorted_iff)
  ultimately show "known (A @ s\<lparr>sl_messages := remove1 p (sl_messages s)\<rparr> # D) = known (A @ s # D) - {p}"
    by auto
  have "ordered (remove1 p (sl_messages s))"
    using ok by (simp add: slice_ok_def strict_sorted_iff sorted_remove1)
  then show "slice_ok (s\<lparr>sl_messages := remove1 p (sl_messages s)\<rparr>)"
    using ok set_remove1_subset [of p "sl_messages s"] by (auto simp: slice_ok_def)
qed

section \<open>Removing and forgetting\<close>

definition remove_in_slices :: "'p::linorder \<Rightarrow> 'p slice list \<Rightarrow> 'p slice list" where
  "remove_in_slices p ss =
    (case slice_index ss p of None \<Rightarrow> ss
     | Some i \<Rightarrow> ss[i := (ss ! i)\<lparr>sl_messages := remove1 p (sl_messages (ss ! i))\<rparr>])"

definition trim_bottom :: "'p::linorder \<Rightarrow> 'p slice list \<Rightarrow> 'p slice list" where
  "trim_bottom highest ss =
    (if ss \<noteq> [] \<and> sl_till (last ss) = highest then
       let s = last ss
       in butlast ss @ [s\<lparr>sl_till := (if sl_messages s = [] then sl_from s else last (sl_messages s))\<rparr>]
     else ss)"

lemma agree_remove:
  assumes agree: "slices_agree S ss"
  shows "slices_agree (S - {p}) (remove_in_slices p ss)" and "length (remove_in_slices p ss) = length ss"
proof -
  have sep: "separated ss" and S: "known ss = S \<inter> covered ss"
    using agree by (simp_all add: slices_agree_def)
  show "slices_agree (S - {p}) (remove_in_slices p ss)"
  proof (cases "slice_index ss p")
    case None
    then have "p \<notin> covered ss"
      by (rule slice_index_None [OF sep])
    then show ?thesis
      using None agree by (auto simp: remove_in_slices_def slices_agree_def)
  next
    case (Some i)
    let ?A = "take i ss" and ?D = "drop (Suc i) ss" and ?s = "ss ! i"
    let ?s' = "?s\<lparr>sl_messages := remove1 p (sl_messages ?s)\<rparr>"
    have ss: "ss = ?A @ ?s # ?D" and p: "p \<in> {sl_from ?s..sl_till ?s}" and i: "i < length ss"
      using slice_index_split [OF sep Some] by blast+
    have sep': "separated (?A @ ?s # ?D)"
      using sep ss by simp
    note r = remove_known [OF sep' p]
    have "remove_in_slices p ss = ?A @ ?s' # ?D"
      using Some i by (simp add: remove_in_slices_def upd_conv_take_nth_drop)
    moreover have "separated (?A @ ?s' # ?D)" and "covered (?A @ ?s' # ?D) = covered (?A @ ?s # ?D)"
      by (rule replaced_slice [OF sep' r(2)]; simp)+
    ultimately show ?thesis
      using r(1) S ss by (auto simp: slices_agree_def)
  qed
  show "length (remove_in_slices p ss) = length ss"
    by (simp add: remove_in_slices_def split: option.split)
qed

lemma last_slice_shrinks:
  assumes "slice_ok s"
  defines "s' \<equiv> s\<lparr>sl_till := (if sl_messages s = [] then sl_from s else last (sl_messages s))\<rparr>"
  shows "slice_ok s'" and "sl_till s' \<le> sl_till s"
proof -
  have "x \<le> last (sl_messages s)" if "x \<in> set (sl_messages s)" for x
    using assms(1) that by (auto simp: slice_ok_def intro: ordered_last)
  moreover have "last (sl_messages s) \<in> {sl_from s..sl_till s}" if "sl_messages s \<noteq> []"
    using assms(1) that last_in_set by (fastforce simp: slice_ok_def)
  ultimately show "slice_ok s'" and "sl_till s' \<le> sl_till s"
    using assms(1) by (auto simp: slice_ok_def s'_def)
qed

lemma agree_trim:
  assumes agree: "slices_agree S ss"
  shows "slices_agree S (trim_bottom highest ss)"
proof (cases "ss \<noteq> [] \<and> sl_till (last ss) = highest")
  case True
  let ?s = "last ss"
  let ?s' = "?s\<lparr>sl_till := (if sl_messages ?s = [] then sl_from ?s else last (sl_messages ?s))\<rparr>"
  have ss: "ss = butlast ss @ [?s]"
    using True by simp
  have trim: "trim_bottom highest ss = butlast ss @ [?s']"
    using True by (simp add: trim_bottom_def Let_def)
  have sep: "separated (butlast ss @ [?s])" and S: "known ss = S \<inter> covered ss"
    using agree ss by (simp_all add: slices_agree_def)
  then have ok: "slice_ok ?s"
    by (simp add: separated_append)
  have sep': "separated (butlast ss @ [?s'])"
    using sep last_slice_shrinks [OF ok] by (auto simp: separated_append)
  have "known (butlast ss @ [?s']) = known ss"
    by (subst (3) ss) simp
  moreover have "covered (butlast ss @ [?s']) \<subseteq> covered ss"
    by (subst (3) ss) (use last_slice_shrinks(2) [OF ok] in auto)
  ultimately show ?thesis
    using S known_covered [OF sep'] sep' unfolding trim slices_agree_def by blast
next
  case False
  then have "trim_bottom highest ss = ss"
    unfolding trim_bottom_def by (rule if_not_P)
  then show ?thesis
    using agree by simp
qed

section \<open>Queries\<close>

record 'p messages_result =
  mr_count :: "int option"
  mr_skippedBefore :: "int option"
  mr_skippedAfter :: "int option"
  mr_ids :: "'p list"

text \<open>
  \<open>queryFromSlice\<close> for the smallest and largest position of the list. An iterator
  range whose end lies before its beginning is undefined.
\<close>

definition query_from_slice ::
  "'p::linorder \<Rightarrow> 'p \<Rightarrow> int option \<Rightarrow> 'p \<Rightarrow> int \<Rightarrow> int \<Rightarrow> 'p slice \<Rightarrow> 'p messages_result result" where
  "query_from_slice lowest highest count aroundId limitBefore limitAfter sl =
    (let position = fs_lower_bound (sl_messages sl) aroundId;
         haveBefore = int position;
         haveEqualOrAfter = int (length (sl_messages sl)) - int position;
         before = min haveBefore limitBefore;
         equalOrAfter = min haveEqualOrAfter (limitAfter + 1);
         ids = take (nat (before + equalOrAfter)) (drop (nat (int position - before)) (sl_messages sl));
         skippedBefore = (if sl_from sl = lowest then Some (haveBefore - before) else None);
         skippedAfter = (if sl_till sl = highest then Some (haveEqualOrAfter - equalOrAfter) else None);
         n = int (length ids);
         (skippedBefore, skippedAfter) =
           (case (count, skippedBefore, skippedAfter) of
              (Some c, None, Some a) \<Rightarrow> (Some (c - a - n), Some a)
            | (Some c, Some b, None) \<Rightarrow> (Some b, Some (c - b - n))
            | _ \<Rightarrow> (skippedBefore, skippedAfter))
     in if before + equalOrAfter < 0 then Inl (Abort ''iterator range'')
        else Inr \<lparr>mr_count = count, mr_skippedBefore = skippedBefore, mr_skippedAfter = skippedAfter,
               mr_ids = fs_merge ids []\<rparr>)"

lemma fs_merge_ordered: "ordered xs \<Longrightarrow> fs_merge xs [] = xs"
  by (rule strict_sorted_equal) simp_all

text \<open>
  The messages of \<open>S\<close> next to a position: a stretch of \<open>S\<close> without holes, which
  reaches from the position as far as the two limits or the slice allow.
\<close>

definition nearest :: "'p::linorder set \<Rightarrow> 'p \<Rightarrow> 'p list \<Rightarrow> bool" where
  "nearest S p ids \<longleftrightarrow> ordered ids \<and> set ids \<subseteq> S \<and>
    (\<forall>x\<in>S. \<forall>a\<in>set ids. (a \<le> x \<and> x < p) \<or> (p \<le> x \<and> x \<le> a) \<longrightarrow> x \<in> set ids)"

definition counts_match :: "'p::linorder set \<Rightarrow> 'p \<Rightarrow> 'p messages_result \<Rightarrow> bool" where
  "counts_match S p r \<longleftrightarrow>
    (\<forall>b. mr_skippedBefore r = Some b \<longrightarrow> b + int (length (filter (\<lambda>x. x < p) (mr_ids r))) = int (card {x \<in> S. x < p})) \<and>
    (\<forall>a. mr_skippedAfter r = Some a \<longrightarrow> a + int (length (filter (\<lambda>x. p \<le> x) (mr_ids r))) = int (card {x \<in> S. p \<le> x}))"

lemma split_at_position:
  fixes xs :: "'p::linorder list"
  assumes "ordered xs"
  obtains L R where "xs = L @ R" and "ordered L" and "ordered R" and "\<forall>x\<in>set L. x < p" and "\<forall>x\<in>set R. p \<le> x"
    and "fs_lower_bound xs p = length L"
proof
  let ?L = "takeWhile (\<lambda>x. x < p) xs" and ?R = "dropWhile (\<lambda>x. x < p) xs"
  show "xs = ?L @ ?R" by simp
  then show "ordered ?L" and "ordered ?R"
    using assms by (metis sorted_wrt_append)+
  show "\<forall>x\<in>set ?L. x < p" by (auto dest: set_takeWhileD)
  show "\<forall>x\<in>set ?R. p \<le> x" using assms by (auto simp: ordered_drop_while)
  show "fs_lower_bound xs p = length ?L" by (simp add: fs_lower_bound_def)
qed

text \<open>Some last elements before a position and some first ones from it on.\<close>

lemma nearest_part:
  assumes near: "nearest S p (L @ R)" and L: "\<forall>x\<in>set L. x < p" and R: "\<forall>x\<in>set R. p \<le> x"
  shows "nearest S p (drop k L @ take n R)"
proof -
  let ?ids = "drop k L @ take n R"
  have o: "ordered (L @ R)" and S: "set (L @ R) \<subseteq> S"
    using near by (simp_all add: nearest_def)
  have sub: "set (drop k L) \<subseteq> set L" "set (take n R) \<subseteq> set R"
    by (rule set_drop_subset, rule set_take_subset)
  have before: "x \<in> set (drop k L)" if "x \<in> set L" "a \<in> set (drop k L)" "a \<le> x" for x a
  proof -
    have "L = take k L @ drop k L" by simp
    moreover have "ordered (take k L @ drop k L)"
      using o by (simp add: sorted_wrt_append)
    then have "\<forall>y\<in>set (take k L). y < a"
      using that(2) unfolding sorted_wrt_append by blast
    ultimately show ?thesis
      using that by (metis Un_iff leD set_append)
  qed
  have after: "x \<in> set (take n R)" if "x \<in> set R" "a \<in> set (take n R)" "x \<le> a" for x a
  proof -
    have "R = take n R @ drop n R" by simp
    moreover have "ordered (take n R @ drop n R)"
      using o by (simp add: sorted_wrt_append)
    then have "\<forall>y\<in>set (drop n R). a < y"
      using that(2) unfolding sorted_wrt_append by blast
    ultimately show ?thesis
      using that by (metis Un_iff leD set_append)
  qed
  have "ordered ?ids"
    using o sub by (auto simp: sorted_wrt_append sorted_wrt_take sorted_wrt_drop)
  moreover have "set ?ids \<subseteq> S"
    using sub S by auto
  moreover have "x \<in> set ?ids" if x: "x \<in> S" and a: "a \<in> set ?ids" and r: "(a \<le> x \<and> x < p) \<or> (p \<le> x \<and> x \<le> a)" for x a
  proof -
    have "a \<in> set (L @ R)"
      using a sub by auto
    then have "x \<in> set (L @ R)"
      using near x r unfolding nearest_def by blast
    then have "x < p \<Longrightarrow> x \<in> set L" and "p \<le> x \<Longrightarrow> x \<in> set R"
      using L R by (auto dest: leD)
    moreover have "a < p \<Longrightarrow> a \<in> set (drop k L)" and "p \<le> a \<Longrightarrow> a \<in> set (take n R)"
      using a sub L R by (auto dest: leD)
    ultimately show ?thesis
      using r before [of x a] after [of x a] by (auto dest: order.strict_trans1 order.trans)
  qed
  ultimately show ?thesis
    unfolding nearest_def by blast
qed

lemma nearest_range:
  assumes "ordered xs" and "set xs = S \<inter> {from..till}" and "from \<le> p" and "p \<le> till"
  shows "nearest S p xs"
  using assms by (auto simp: nearest_def dest: order.trans)

lemma card_at_position: "finite S \<Longrightarrow> card S = card {x \<in> S. x < p} + card {x \<in> S. (p::'p::linorder) \<le> x}"
  by (subst card_Un_disjoint [symmetric]) (auto intro: arg_cong [of _ _ card])

lemma stretch_counts:
  assumes "\<forall>x\<in>set L. x < p" and "\<forall>x\<in>set R. (p::'p::linorder) \<le> x"
  shows "length (filter (\<lambda>x. x < p) (drop k L @ take n R)) = length L - k"
    and "length (filter (\<lambda>x. p \<le> x) (drop k L @ take n R)) = min n (length R)"
proof -
  have "\<forall>x\<in>set (drop k L). x < p" and "\<forall>x\<in>set (take n R). p \<le> x"
    using assms by (auto dest: in_set_dropD in_set_takeD)
  then have "filter (\<lambda>x. x < p) (drop k L @ take n R) = drop k L"
    and "filter (\<lambda>x. p \<le> x) (drop k L @ take n R) = take n R"
    by (auto simp: filter_id_conv filter_empty_conv)
  then show "length (filter (\<lambda>x. x < p) (drop k L @ take n R)) = length L - k"
    and "length (filter (\<lambda>x. p \<le> x) (drop k L @ take n R)) = min n (length R)"
    by simp_all
qed

lemma query_from_slice_ok:
  assumes ok: "slice_ok sl" and S: "set (sl_messages sl) = S \<inter> {sl_from sl..sl_till sl}"
    and p: "sl_from sl \<le> p" "p \<le> sl_till sl" and limits: "0 \<le> limitBefore" "0 \<le> limitAfter"
    and fin: "finite S" "S \<subseteq> {lowest..highest}" and count: "\<forall>c. count = Some c \<longrightarrow> c = int (card S)"
  shows "\<exists>r. query_from_slice lowest highest count p limitBefore limitAfter sl = Inr r \<and> mr_count r = count \<and>
    nearest S p (mr_ids r) \<and> counts_match S p r \<and>
    int (length (filter (\<lambda>x. x < p) (mr_ids r))) = min limitBefore (int (card (S \<inter> {sl_from sl..<p}))) \<and>
    int (length (filter (\<lambda>x. p \<le> x) (mr_ids r))) = min (limitAfter + 1) (int (card (S \<inter> {p..sl_till sl})))"
proof -
  obtain L R where LR: "sl_messages sl = L @ R" "\<forall>x\<in>set L. x < p" "\<forall>x\<in>set R. p \<le> x"
    and oLR: "ordered L" "ordered R" and low: "fs_lower_bound (sl_messages sl) p = length L"
    using split_at_position [of "sl_messages sl" p] ok unfolding slice_ok_def by metis
  define before where "before = min (int (length L)) limitBefore"
  define after where "after = min (int (length R)) (limitAfter + 1)"
  define ids where "ids = drop (length L - nat before) L @ take (nat after) R"
  have b: "0 \<le> before" "before \<le> int (length L)" and a: "0 \<le> after" "after \<le> int (length R)"
    using limits by (auto simp: before_def after_def)
  have near: "nearest S p ids"
    unfolding ids_def
    using nearest_part [OF nearest_range [of "L @ R" S "sl_from sl" "sl_till sl" p] LR(2,3)] ok S LR(1) p
    by (simp add: slice_ok_def)
  have lens: "int (length (filter (\<lambda>x. x < p) ids)) = before" "int (length (filter (\<lambda>x. p \<le> x) ids)) = after"
    using stretch_counts [OF LR(2,3)] a b by (simp_all add: ids_def)
  have n: "int (length ids) = before + after"
    using a b by (simp add: ids_def)
  have shape: "fs_merge (take (nat (before + after)) (drop (nat (int (length L) - before)) (sl_messages sl))) [] = ids"
    using a b near fs_merge_ordered [of ids]
    by (simp add: nearest_def LR(1) ids_def nat_diff_distrib nat_add_distrib take_add)
  have cards: "card (S \<inter> {sl_from sl..<p}) = length L" "card (S \<inter> {p..sl_till sl}) = length R"
  proof -
    have "S \<inter> {sl_from sl..<p} = {x \<in> set (sl_messages sl). x < p}"
      using S p by auto
    also have "\<dots> = set L"
      using LR by (auto dest: leD)
    finally show "card (S \<inter> {sl_from sl..<p}) = length L"
      using ordered_length [OF oLR(1)] by simp
    have "S \<inter> {p..sl_till sl} = {x \<in> set (sl_messages sl). p \<le> x}"
      using S p by auto
    also have "\<dots> = set R"
      using LR by (auto dest: leD)
    finally show "card (S \<inter> {p..sl_till sl}) = length R"
      using ordered_length [OF oLR(2)] by simp
  qed
  have lowest: "card {x \<in> S. x < p} = length L" if "sl_from sl = lowest"
  proof -
    have "{x \<in> S. x < p} = S \<inter> {sl_from sl..<p}"
      using that fin(2) by auto
    then show ?thesis using cards(1) by simp
  qed
  have highest: "card {x \<in> S. p \<le> x} = length R" if "sl_till sl = highest"
  proof -
    have "{x \<in> S. p \<le> x} = S \<inter> {p..sl_till sl}"
      using that fin(2) by auto
    then show ?thesis using cards(2) by simp
  qed
  define fill where "fill = (case (count, if sl_from sl = lowest then Some (int (length L) - before) else None,
      if sl_till sl = highest then Some (int (length R) - after) else None) of
        (Some c, None, Some a) \<Rightarrow> (Some (c - a - int (length ids)), Some a)
      | (Some c, Some b, None) \<Rightarrow> (Some b, Some (c - b - int (length ids)))
      | (_, b, a) \<Rightarrow> (b, a))"
  have len: "int (length (sl_messages sl)) - int (length L) = int (length R)"
    by (simp add: LR(1))
  have "query_from_slice lowest highest count p limitBefore limitAfter sl =
      Inr \<lparr>mr_count = count, mr_skippedBefore = fst fill, mr_skippedAfter = snd fill, mr_ids = ids\<rparr>"
    unfolding query_from_slice_def low Let_def len before_def [symmetric] after_def [symmetric] shape
    using a b n shape
    by (cases count; cases "sl_from sl = lowest"; cases "sl_till sl = highest"; simp add: fill_def LR(1))
  moreover have "counts_match S p \<lparr>mr_count = count, mr_skippedBefore = fst fill, mr_skippedAfter = snd fill, mr_ids = ids\<rparr>"
    unfolding counts_match_def
    using lens n lowest highest card_at_position [OF fin(1), of p] count
    by (cases count; cases "sl_from sl = lowest"; cases "sl_till sl = highest"; simp add: fill_def)
  ultimately show ?thesis
    using near lens by (simp add: cards before_def after_def min.commute)
qed

section \<open>Following a list on the server\<close>

text \<open>
  What a client hears of a list: a loaded range with all its messages and perhaps
  the total count, a new last message, a deletion; and that it forgets what it
  knows of the end.
\<close>

datatype 'p list_event = Loaded "'p list" 'p 'p "int option" | Arrived 'p | Deleted 'p | Forgotten

fun on_server :: "'p list_event \<Rightarrow> 'p set \<Rightarrow> 'p set" where
  "on_server (Arrived m) S = insert m S"
| "on_server (Deleted m) S = S - {m}"
| "on_server _ S = S"

definition kIntMax :: nat where "kIntMax = 2147483647"

fun honest :: "'p::linorder \<Rightarrow> 'p \<Rightarrow> 'p list_event \<Rightarrow> 'p set \<Rightarrow> bool" where
  "honest lowest highest (Loaded ms from till count) S \<longleftrightarrow>
     from \<le> till \<and> set ms = S \<inter> {from..till} \<and> (count = None \<or> count = Some (int (card S)))"
| "honest lowest highest (Arrived m) S \<longleftrightarrow>
     lowest \<le> m \<and> m \<le> highest \<and> (\<forall>x\<in>S. x < m) \<and> card S < kIntMax"
| "honest lowest highest (Deleted m) S \<longleftrightarrow> m \<in> S"
| "honest lowest highest Forgotten S \<longleftrightarrow> True"

fun honest_history :: "'p::linorder \<Rightarrow> 'p \<Rightarrow> 'p list_event list \<Rightarrow> 'p set \<Rightarrow> bool" where
  "honest_history lowest highest [] S = True"
| "honest_history lowest highest (e # es) S \<longleftrightarrow>
     honest lowest highest e S \<and> honest_history lowest highest es (on_server e S)"

fun server_after :: "'p list_event list \<Rightarrow> 'p set \<Rightarrow> 'p set" where
  "server_after [] S = S"
| "server_after (e # es) S = server_after es (on_server e S)"

fun follow :: "('p list_event \<Rightarrow> 's \<Rightarrow> 's result) \<Rightarrow> 'p list_event list \<Rightarrow> 's \<Rightarrow> 's result" where
  "follow react [] s = Inr s"
| "follow react (e # es) s = bind_result (react e s) (follow react es)"

locale server_index =
  fixes agrees :: "'p::linorder set \<Rightarrow> 's \<Rightarrow> bool"
    and lowest :: 'p and highest :: 'p
    and react :: "'p list_event \<Rightarrow> 's \<Rightarrow> 's result"
  assumes react_agrees: "agrees S s \<Longrightarrow> honest lowest highest e S \<Longrightarrow> \<exists>s'. react e s = Inr s' \<and> agrees (on_server e S) s'"
begin

lemma follow_agrees:
  "agrees S s \<Longrightarrow> honest_history lowest highest es S \<Longrightarrow> \<exists>s'. follow react es s = Inr s' \<and> agrees (server_after es S) s'"
proof (induction es arbitrary: S s)
  case (Cons e es)
  then obtain s1 where "react e s = Inr s1" and "agrees (on_server e S) s1"
    using react_agrees by fastforce
  with Cons show ?case
    by simp
qed simp

end

end
