(* ===== verification/Messages_List.thy ===== *)
theory Messages_List
  imports Slices
begin

text \<open>
  The list of the messages of a chat that are known, \<open>data/data_messages.cpp\<close>:
  \<open>MessagesList\<close> and its queries. A message position orders by date, then by peer
  and id. The stream \<open>_sliceUpdated\<close> is the list of the updates it fired.
\<close>

section \<open>Positions\<close>

datatype full_msg_id = FullMsgId (fm_peer: u64) (fm_msg: int)

datatype message_position = MessagePosition (mp_fullId: full_msg_id) (mp_date: int)

text \<open>The orders of the code, then the library's classes for them.\<close>

definition fullMsgId_less :: "full_msg_id \<Rightarrow> full_msg_id \<Rightarrow> bool" where
  "fullMsgId_less a b \<longleftrightarrow> fm_peer a < fm_peer b \<or> (fm_peer a = fm_peer b \<and> fm_msg a < fm_msg b)"

definition messagePosition_less :: "message_position \<Rightarrow> message_position \<Rightarrow> bool" where
  "messagePosition_less a b \<longleftrightarrow>
    (if mp_date a < mp_date b then True
     else if mp_date b < mp_date a then False
     else fullMsgId_less (mp_fullId a) (mp_fullId b))"

definition messagePosition_less_eq :: "message_position \<Rightarrow> message_position \<Rightarrow> bool" where
  "messagePosition_less_eq a b \<longleftrightarrow> \<not> messagePosition_less b a"

instantiation full_msg_id :: linorder
begin

definition less_full_msg_id :: "full_msg_id \<Rightarrow> full_msg_id \<Rightarrow> bool" where
  "less_full_msg_id = fullMsgId_less"

definition less_eq_full_msg_id :: "full_msg_id \<Rightarrow> full_msg_id \<Rightarrow> bool" where
  "less_eq_full_msg_id a b \<longleftrightarrow> \<not> fullMsgId_less b a"

lemmas full_msg_id_order = less_full_msg_id_def less_eq_full_msg_id_def fullMsgId_less_def

instance
proof
  fix a b c :: full_msg_id
  show "a < b \<longleftrightarrow> a \<le> b \<and> \<not> b \<le> a"
    by (cases a; cases b) (auto simp: full_msg_id_order)
  show "a \<le> a"
    by (auto simp: full_msg_id_order)
  show "a \<le> b \<Longrightarrow> b \<le> c \<Longrightarrow> a \<le> c"
    by (cases a; cases b; cases c) (auto simp: full_msg_id_order)
  show "a \<le> b \<Longrightarrow> b \<le> a \<Longrightarrow> a = b"
    by (cases a; cases b) (auto simp: full_msg_id_order)
  show "a \<le> b \<or> b \<le> a"
    by (auto simp: full_msg_id_order)
qed

end

instantiation message_position :: linorder
begin

definition less_message_position :: "message_position \<Rightarrow> message_position \<Rightarrow> bool" where
  "less_message_position = messagePosition_less"

definition less_eq_message_position :: "message_position \<Rightarrow> message_position \<Rightarrow> bool" where
  "less_eq_message_position = messagePosition_less_eq"

lemmas message_position_order = less_message_position_def less_eq_message_position_def
  messagePosition_less_def messagePosition_less_eq_def fullMsgId_less_def

instance
proof
  fix a b c :: message_position
  show "a < b \<longleftrightarrow> a \<le> b \<and> \<not> b \<le> a"
    by (cases a; cases b) (auto simp: message_position_order split: if_splits)
  show "a \<le> a"
    by (auto simp: message_position_order)
  show "a \<le> b \<Longrightarrow> b \<le> c \<Longrightarrow> a \<le> c"
    by (cases a; cases b; cases c)
      (auto simp: message_position_order split: if_splits)
  show "a \<le> b \<Longrightarrow> b \<le> a \<Longrightarrow> a = b"
    by (cases a; cases b) (auto intro: full_msg_id.expand simp: message_position_order split: if_splits)
  show "a \<le> b \<or> b \<le> a"
    by (auto simp: message_position_order)
qed

end

text \<open>\<open>operator bool\<close> of a position.\<close>

definition names_message :: "message_position \<Rightarrow> bool" where
  "names_message p \<longleftrightarrow> fm_msg (mp_fullId p) \<noteq> 0"

definition ServerMaxMsgId :: int where "ServerMaxMsgId = 2 ^ 56"
definition MinDate :: int where "MinDate = 0"
definition MaxDate :: int where "MaxDate = 2147483647"
definition MinMessagePosition :: message_position where
  "MinMessagePosition = MessagePosition (FullMsgId 0 1) MinDate"
definition MaxMessagePosition :: message_position where
  "MaxMessagePosition = MessagePosition (FullMsgId 0 (ServerMaxMsgId - 1)) MaxDate"

lemma Min_less_Max: "MinMessagePosition < MaxMessagePosition"
  by (simp add: message_position_order MinMessagePosition_def MaxMessagePosition_def MinDate_def MaxDate_def)

section \<open>The list\<close>

record messages_list =
  ml_count :: "int option"
  ml_slices :: "message_position slice list"
  ml_sliceUpdated :: "message_position slice_update list"

definition empty_messages_list :: messages_list where
  "empty_messages_list = \<lparr>ml_count = None, ml_slices = [], ml_sliceUpdated = []\<rparr>"

definition addRangeItemsAndCountNew ::
  "message_position list \<Rightarrow> message_position \<Rightarrow> message_position \<Rightarrow> message_position slice list
    \<Rightarrow> (int \<times> message_position slice \<times> message_position slice list) result" where
  "addRangeItemsAndCountNew messages from till ss =
    (if \<not> from \<le> till then Inl (Abort ''Expects'') else unite_or_emplace messages from till ss)"

text \<open>The count after adding, and what a single full slice says of it.\<close>

definition added_count :: "int option \<Rightarrow> bool \<Rightarrow> int \<Rightarrow> int option \<Rightarrow> int option" where
  "added_count count incrementCount result old =
    (if count \<noteq> None then count
     else if incrementCount \<and> result > 0 then map_option (\<lambda>c. c + result) old
     else old)"

definition full_count :: "message_position slice list \<Rightarrow> int option \<Rightarrow> int option" where
  "full_count ss c =
    (case ss of
       [f] \<Rightarrow> if sl_from f = MinMessagePosition \<and> sl_till f = MaxMessagePosition
              then Some (int (length (sl_messages f))) else c
     | _ \<Rightarrow> c)"

definition addRange ::
  "message_position list \<Rightarrow> message_position \<Rightarrow> message_position \<Rightarrow> int option \<Rightarrow> bool
    \<Rightarrow> messages_list \<Rightarrow> messages_list result" where
  "addRange messages from till count incrementCount l =
    (if \<not> (count = None \<or> \<not> incrementCount) then Inl (Abort ''Expects'')
     else bind_result (addRangeItemsAndCountNew messages from till (ml_slices l)) (\<lambda>(result, s, ss).
       let c = full_count ss (added_count count incrementCount result (ml_count l))
       in Inr (l\<lparr>ml_count := c, ml_slices := ss,
            ml_sliceUpdated := ml_sliceUpdated l @
              [\<lparr>up_messages = Some (sl_messages s), up_from = sl_from s, up_till = sl_till s, up_count = c\<rparr>]\<rparr>)))"

definition addOne :: "message_position \<Rightarrow> messages_list \<Rightarrow> messages_list result" where
  "addOne messageId = addRange [messageId] messageId messageId None True"

definition addNew :: "message_position \<Rightarrow> messages_list \<Rightarrow> messages_list result" where
  "addNew messageId = addRange [messageId] messageId MaxMessagePosition None True"

definition addSlice ::
  "message_position list \<Rightarrow> message_position \<Rightarrow> message_position \<Rightarrow> int option \<Rightarrow> messages_list \<Rightarrow> messages_list result" where
  "addSlice messageIds from till count = addRange messageIds from till count False"

definition removeOne :: "message_position \<Rightarrow> messages_list \<Rightarrow> messages_list" where
  "removeOne messageId l =
    (let c = map_option (\<lambda>c. c - 1) (ml_count l)
     in case slice_index (ml_slices l) messageId of
          None \<Rightarrow> l\<lparr>ml_count := c\<rparr>
        | Some i \<Rightarrow>
            let ss = remove_in_slices messageId (ml_slices l); s = ss ! i
            in l\<lparr>ml_count := c, ml_slices := ss,
                 ml_sliceUpdated := ml_sliceUpdated l @
                   [\<lparr>up_messages = Some (sl_messages s), up_from = sl_from s, up_till = sl_till s, up_count = c\<rparr>]\<rparr>)"

fun remove_less :: "message_position \<Rightarrow> message_position slice list \<Rightarrow> int \<times> message_position slice list" where
  "remove_less p [] = (0, [])"
| "remove_less p (s # ss) =
     (if sl_till s \<le> p then (case remove_less p ss of (removed, ss') \<Rightarrow> (removed + int (length (sl_messages s)), ss'))
      else if sl_from s \<le> p then
        let n = fs_lower_bound (sl_messages s) p
        in (int n, s\<lparr>sl_from := MinMessagePosition, sl_messages := drop n (sl_messages s)\<rparr> # ss)
      else (0, s # ss))"

definition removeLessThan :: "message_position \<Rightarrow> messages_list \<Rightarrow> messages_list" where
  "removeLessThan messageId l =
    (case remove_less messageId (ml_slices l) of (removed, ss) \<Rightarrow>
      l\<lparr>ml_slices := ss, ml_count := (if removed \<noteq> 0 then map_option (\<lambda>c. c - removed) (ml_count l) else ml_count l)\<rparr>)"

definition invalidate :: "messages_list \<Rightarrow> messages_list" where
  "invalidate l = l\<lparr>ml_slices := [], ml_count := None\<rparr>"

definition invalidateBottom :: "messages_list \<Rightarrow> messages_list" where
  "invalidateBottom l = l\<lparr>ml_slices := trim_bottom MaxMessagePosition (ml_slices l), ml_count := None\<rparr>"

record 'p messages_query =
  mq_aroundId :: 'p
  mq_limitBefore :: int
  mq_limitAfter :: int

definition no_result :: "'p messages_result" where
  "no_result = \<lparr>mr_count = None, mr_skippedBefore = None, mr_skippedAfter = None, mr_ids = []\<rparr>"

definition queryCurrent ::
  "message_position messages_query \<Rightarrow> messages_list \<Rightarrow> message_position messages_result result" where
  "queryCurrent q l =
    (if \<not> names_message (mq_aroundId q) then Inr no_result
     else case slice_index (ml_slices l) (mq_aroundId q) of
            None \<Rightarrow> Inr no_result
          | Some i \<Rightarrow> query_from_slice MinMessagePosition MaxMessagePosition (ml_count l)
              (mq_aroundId q) (mq_limitBefore q) (mq_limitAfter q) (ml_slices l ! i))"

definition list_is_empty :: "messages_list \<Rightarrow> bool" where
  "list_is_empty l = list_all (\<lambda>s. sl_messages s = []) (ml_slices l)"

section \<open>Agreement with the server\<close>

definition list_agrees :: "message_position set \<Rightarrow> messages_list \<Rightarrow> bool" where
  "list_agrees S l \<longleftrightarrow>
    slices_agree S (ml_slices l) \<and> finite S \<and> S \<subseteq> {MinMessagePosition..MaxMessagePosition} \<and>
    (\<forall>c. ml_count l = Some c \<longrightarrow> c = int (card S))"

lemma addRange_agrees:
  assumes u: "unite_or_emplace ms from till (ml_slices l) = Inr (n, s, ss)" and "from \<le> till"
    and agree: "slices_agree S ss" and fin: "finite S" "S \<subseteq> {MinMessagePosition..MaxMessagePosition}"
    and c: "count = None \<or> \<not> incrementCount"
    and count: "\<forall>c. added_count count incrementCount n (ml_count l) = Some c \<longrightarrow> c = int (card S)"
  shows "\<exists>l'. addRange ms from till count incrementCount l = Inr l' \<and> list_agrees S l'"
proof -
  have "\<forall>c. full_count ss (added_count count incrementCount n (ml_count l)) = Some c \<longrightarrow> c = int (card S)"
    using count full_slice [of S _ MinMessagePosition MaxMessagePosition] agree fin(2)
    by (auto simp: full_count_def split: list.splits if_splits)
  then show ?thesis
    using assms(2) agree fin c
    by (simp add: addRange_def addRangeItemsAndCountNew_def u Let_def list_agrees_def del: not_None_eq)
qed

fun list_react :: "message_position list_event \<Rightarrow> messages_list \<Rightarrow> messages_list result" where
  "list_react (Loaded ms from till count) l = addSlice ms from till count l"
| "list_react (Arrived m) l = addNew m l"
| "list_react (Deleted m) l = Inr (removeOne m l)"
| "list_react Forgotten l = Inr (invalidateBottom l)"

lemma list_react_agrees:
  assumes agree: "list_agrees S l" and e: "honest MinMessagePosition MaxMessagePosition e S"
  shows "\<exists>l'. list_react e l = Inr l' \<and> list_agrees (on_server e S) l'"
proof (cases e)
  case (Loaded ms "from" till count)
  have h: "from \<le> till" "set ms = S \<inter> {from..till}" "count = None \<or> count = Some (int (card S))"
    using e Loaded by auto
  moreover have "slices_agree S (ml_slices l)"
    using agree by (simp add: list_agrees_def)
  ultimately obtain n s ss where "unite_or_emplace ms from till (ml_slices l) = Inr (n, s, ss)" "slices_agree S ss"
    using agree_load by blast
  then show ?thesis
    using addRange_agrees [of ms "from" till l n s ss S count False] h agree Loaded
    by (auto simp: addSlice_def list_agrees_def added_count_def)
next
  case (Arrived m)
  have h: "MinMessagePosition \<le> m" "m \<le> MaxMessagePosition" "\<forall>x\<in>S. x < m" "m \<notin> S"
    using e Arrived by auto
  moreover have sl: "slices_agree S (ml_slices l)" and fin: "finite S" "S \<subseteq> {MinMessagePosition..MaxMessagePosition}"
    using agree by (simp_all add: list_agrees_def)
  ultimately obtain s ss where "unite_or_emplace [m] m MaxMessagePosition (ml_slices l) = Inr (1, s, ss)"
      "slices_agree (insert m S) ss"
    using agree_arrive by blast
  moreover have "\<forall>c. added_count None True 1 (ml_count l) = Some c \<longrightarrow> c = int (card (insert m S))"
    using agree h(4) fin(1) by (auto simp: added_count_def list_agrees_def)
  ultimately show ?thesis
    using addRange_agrees [of "[m]" m MaxMessagePosition l 1 s ss "insert m S" None True] h fin Arrived
    by (simp add: addNew_def)
next
  case (Deleted m)
  have "m \<in> S" and sl: "slices_agree S (ml_slices l)" and fin: "finite S" "S \<subseteq> {MinMessagePosition..MaxMessagePosition}"
    and c: "\<forall>c. ml_count l = Some c \<longrightarrow> c = int (card S)"
    using agree e Deleted by (simp_all add: list_agrees_def)
  then have "card S = Suc (card (S - {m}))"
    by (intro card.remove)
  then have "int (card (S - {m})) = int (card S) - 1"
    by simp
  moreover have "ml_slices (removeOne m l) = remove_in_slices m (ml_slices l)"
    by (simp add: removeOne_def Let_def remove_in_slices_def split: option.split)
  moreover have "ml_count (removeOne m l) = map_option (\<lambda>c. c - 1) (ml_count l)"
    by (simp add: removeOne_def Let_def split: option.split)
  ultimately show ?thesis
    using agree_remove(1) [OF sl, of m] fin c Deleted by (auto simp: list_agrees_def)
next
  case Forgotten
  then show ?thesis
    using agree agree_trim [of S "ml_slices l"] by (auto simp: invalidateBottom_def list_agrees_def)
qed

interpretation chat_messages: server_index list_agrees MinMessagePosition MaxMessagePosition list_react
  by unfold_locales (rule list_react_agrees)

lemma empty_agrees:
  "finite S \<Longrightarrow> S \<subseteq> {MinMessagePosition..MaxMessagePosition} \<Longrightarrow> list_agrees S empty_messages_list"
  by (simp add: list_agrees_def empty_messages_list_def slices_agree_def)

text \<open>
  C15: However ranges, new messages and deletions come in, the list never fails an
  \<open>Expects\<close>, its slices stay sorted and apart, it knows exactly the server's messages
  in what it covers, and a count it shows is the server's.
\<close>

theorem messages_list_follows_server:
  assumes "finite S" and "S \<subseteq> {MinMessagePosition..MaxMessagePosition}"
    and "honest_history MinMessagePosition MaxMessagePosition es S"
  shows "\<exists>l. follow list_react es empty_messages_list = Inr l \<and> separated (ml_slices l) \<and>
    known (ml_slices l) = server_after es S \<inter> covered (ml_slices l) \<and>
    (ml_count l = None \<or> ml_count l = Some (int (card (server_after es S))))"
proof -
  obtain l where "follow list_react es empty_messages_list = Inr l" and "list_agrees (server_after es S) l"
    using chat_messages.follow_agrees [OF empty_agrees [OF assms(1,2)] assms(3)] by blast
  then show ?thesis
    by (cases "ml_count l") (auto simp: list_agrees_def slices_agree_def)
qed

text \<open>
  A query at a position the list covers returns the server's messages next to it,
  without a hole, as many as the limits ask for unless the slice ends, and skipped
  counts that are the numbers of messages left out; elsewhere it returns nothing.
\<close>

theorem query_returns_nearest:
  assumes "finite S" and "S \<subseteq> {MinMessagePosition..MaxMessagePosition}"
    and "honest_history MinMessagePosition MaxMessagePosition es S"
    and "follow list_react es empty_messages_list = Inr l" and "0 \<le> mq_limitBefore q" and "0 \<le> mq_limitAfter q"
    and "names_message (mq_aroundId q)"
  shows "\<exists>r. queryCurrent q l = Inr r \<and>
    (if mq_aroundId q \<notin> covered (ml_slices l) then r = no_result
     else mr_count r = ml_count l \<and> nearest (server_after es S) (mq_aroundId q) (mr_ids r) \<and>
       counts_match (server_after es S) (mq_aroundId q) r \<and>
       (\<exists>s\<in>set (ml_slices l). mq_aroundId q \<in> {sl_from s..sl_till s} \<and>
         int (length (filter (\<lambda>x. x < mq_aroundId q) (mr_ids r))) =
           min (mq_limitBefore q) (int (card (server_after es S \<inter> {sl_from s..<mq_aroundId q}))) \<and>
         int (length (filter (\<lambda>x. mq_aroundId q \<le> x) (mr_ids r))) =
           min (mq_limitAfter q + 1) (int (card (server_after es S \<inter> {mq_aroundId q..sl_till s})))))"
proof -
  let ?p = "mq_aroundId q" and ?S = "server_after es S"
  have agree: "list_agrees ?S l"
    using chat_messages.follow_agrees [OF empty_agrees [OF assms(1,2)] assms(3)] assms(4) by simp
  then have sl: "slices_agree ?S (ml_slices l)" and sep: "separated (ml_slices l)" and fin: "finite ?S"
    and bounds: "?S \<subseteq> {MinMessagePosition..MaxMessagePosition}"
    and c: "\<forall>c. ml_count l = Some c \<longrightarrow> c = int (card ?S)"
    by (simp_all add: list_agrees_def slices_agree_def)
  show ?thesis
  proof (cases "slice_index (ml_slices l) ?p")
    case None
    then show ?thesis
      using slice_index_None [OF sep None] assms(7) by (simp add: queryCurrent_def)
  next
    case (Some i)
    let ?s = "ml_slices l ! i"
    have i: "i < length (ml_slices l)" and p: "?p \<in> {sl_from ?s..sl_till ?s}"
      using slice_index_split [OF sep Some] by blast+
    then have "?s \<in> set (ml_slices l)" by simp
    moreover from this have "?p \<in> covered (ml_slices l)"
      using p by (auto simp: covered_def)
    moreover note query_from_slice_ok [OF separated_ok [OF sep \<open>?s \<in> set (ml_slices l)\<close>]
        slices_agree_slice [OF sl \<open>?s \<in> set (ml_slices l)\<close>] _ _ assms(5,6) fin bounds c, of ?p]
    ultimately show ?thesis
      using p Some assms(7) by (auto simp: queryCurrent_def)
  qed
qed

section \<open>Removing the beginning\<close>

lemma slices_agree_later:
  assumes "slices_agree S ss" and "\<forall>s\<in>set ss. p < sl_from s"
  shows "slices_agree {x \<in> S. p \<le> x} ss"
proof -
  have "\<forall>x\<in>covered ss. p \<le> x"
    using assms(2) by (force simp: covered_def)
  then show ?thesis
    using assms(1) by (auto simp: slices_agree_def)
qed

definition message_total :: "message_position slice list \<Rightarrow> int" where
  "message_total ss = int (sum_list (map (\<lambda>s. length (sl_messages s)) ss))"

lemma remove_less_agrees:
  assumes "slices_agree S ss" and "MinMessagePosition \<le> p" and "remove_less p ss = (removed, ss')"
  shows "slices_agree {x \<in> S. p \<le> x} ss' \<and> removed = message_total ss - message_total ss'"
  using assms
proof (induction ss arbitrary: removed ss')
  case Nil
  then show ?case
    by (auto simp: slices_agree_def)
next
  case (Cons s ss)
  have ok: "slice_ok s" and later: "\<forall>x\<in>set ss. sl_till s < sl_from x" and rest: "slices_agree S ss"
    and ms: "set (sl_messages s) = S \<inter> {sl_from s..sl_till s}"
    using Cons.prems(1) by (simp_all add: slices_agree_Cons)
  consider "sl_till s \<le> p" | "p < sl_till s" "sl_from s \<le> p" | "p < sl_from s"
    by fastforce
  then show ?case
  proof cases
    case 1
    then obtain r where "remove_less p ss = (r, ss')" and "removed = r + int (length (sl_messages s))"
      using Cons.prems(3) by (auto split: prod.splits)
    with Cons.IH [OF rest Cons.prems(2)] show ?thesis
      by (simp add: message_total_def)
  next
    case 2
    define n where "n = fs_lower_bound (sl_messages s) p"
    define s' where "s' = s\<lparr>sl_from := MinMessagePosition, sl_messages := drop n (sl_messages s)\<rparr>"
    have "(sl_till s \<le> p) = False"
      using 2 by (simp add: not_le)
    then have r: "removed = int n" "ss' = s' # ss"
      using Cons.prems(3) 2(2) by (simp_all add: n_def s'_def Let_def)
    have "set (sl_messages s') = {x \<in> set (sl_messages s). p \<le> x}"
      using ok by (simp add: s'_def n_def fs_lower_bound_split ordered_drop_while slice_ok_def)
    then have set': "set (sl_messages s') = {x \<in> S. p \<le> x} \<inter> {sl_from s'..sl_till s'}"
      using ms 2 Cons.prems(2) by (auto simp: s'_def)
    have "ordered (sl_messages s')" and "sl_from s' \<le> sl_till s'"
      using ok 2 Cons.prems(2) by (auto simp: s'_def slice_ok_def sorted_wrt_drop)
    then have "slice_ok s'"
      using set' by (auto simp: slice_ok_def)
    moreover have "slices_agree {x \<in> S. p \<le> x} ss"
      by (rule slices_agree_later [OF rest]) (use later 2 in \<open>auto intro: order.strict_trans\<close>)
    moreover have "n \<le> length (sl_messages s)"
      by (simp add: n_def fs_lower_bound_def length_takeWhile_le)
    ultimately show ?thesis
      using set' later by (simp add: r slices_agree_Cons message_total_def s'_def)
  next
    case 3
    then have "p < sl_till s"
      using ok by (auto simp: slice_ok_def)
    then have "(sl_till s \<le> p) = False" and "(sl_from s \<le> p) = False"
      using 3 by (simp_all add: not_le)
    then have "removed = 0" and "ss' = s # ss"
      using Cons.prems(3) by simp_all
    moreover have "\<forall>x\<in>set (s # ss). p < sl_from x"
      using 3 later \<open>p < sl_till s\<close> by (auto intro: order.strict_trans)
    ultimately show ?thesis
      using slices_agree_later [OF Cons.prems(1)] by simp
  qed
qed

text \<open>
  Removing everything before a position leaves a list that agrees with the server
  after it dropped those messages, and lowers a count by the messages it held.
\<close>

theorem removeLessThan_follows:
  assumes "slices_agree S (ml_slices l)" and "MinMessagePosition \<le> p"
  shows "slices_agree {x \<in> S. p \<le> x} (ml_slices (removeLessThan p l)) \<and>
    ml_count (removeLessThan p l) =
      map_option (\<lambda>c. c - (message_total (ml_slices l) - message_total (ml_slices (removeLessThan p l)))) (ml_count l)"
proof -
  obtain removed ss' where r: "remove_less p (ml_slices l) = (removed, ss')"
    by fastforce
  then show ?thesis
    using remove_less_agrees [OF assms r] by (cases "ml_count l") (auto simp: removeLessThan_def)
qed

section \<open>Witnesses\<close>

definition sample_position :: "int \<Rightarrow> message_position" where
  "sample_position d = MessagePosition (FullMsgId 7 d) d"

lemma sample_position_less [simp]:
  "sample_position a < sample_position b \<longleftrightarrow> a < b"
  "sample_position a \<le> sample_position b \<longleftrightarrow> a \<le> b"
  "sample_position a = sample_position b \<longleftrightarrow> a = b"
  by (auto simp: sample_position_def message_position_order full_msg_id_order)

lemma sample_position_bounds [simp]:
  "0 < a \<Longrightarrow> a < MaxDate \<Longrightarrow> MinMessagePosition \<le> sample_position a"
  "0 < a \<Longrightarrow> a < MaxDate \<Longrightarrow> sample_position a \<le> MaxMessagePosition"
  by (simp_all add: sample_position_def message_position_order
      MinMessagePosition_def MaxMessagePosition_def MinDate_def MaxDate_def)

definition sample_server :: "message_position set" where
  "sample_server = {sample_position 3, sample_position 5}"

definition sample_events :: "message_position list_event list" where
  "sample_events = [Loaded [sample_position 3] (sample_position 2) (sample_position 4) (Some 2),
    Arrived (sample_position 8), Deleted (sample_position 3)]"

lemma sample_history: "honest_history MinMessagePosition MaxMessagePosition sample_events sample_server"
  by (auto simp: sample_events_def sample_server_def kIntMax_def MaxDate_def)

lemma sample_server_ok: "finite sample_server" "sample_server \<subseteq> {MinMessagePosition..MaxMessagePosition}"
  by (simp_all add: sample_server_def MaxDate_def)

theorem messages_list_follows_server_witness:
  "\<exists>l. follow list_react sample_events empty_messages_list = Inr l \<and>
    known (ml_slices l) = {sample_position 5, sample_position 8} \<inter> covered (ml_slices l)"
proof -
  have "server_after sample_events sample_server = {sample_position 5, sample_position 8}"
    by (auto simp: sample_events_def sample_server_def)
  then show ?thesis
    using messages_list_follows_server [OF sample_server_ok sample_history] by auto
qed

theorem query_returns_nearest_witness:
  "\<exists>l r. follow list_react sample_events empty_messages_list = Inr l \<and>
    queryCurrent \<lparr>mq_aroundId = sample_position 4, mq_limitBefore = 1, mq_limitAfter = 2\<rparr> l = Inr r"
proof -
  obtain l where l: "follow list_react sample_events empty_messages_list = Inr l"
    using chat_messages.follow_agrees [OF empty_agrees [OF sample_server_ok] sample_history] by blast
  then show ?thesis
    using query_returns_nearest [OF sample_server_ok sample_history l,
        of "\<lparr>mq_aroundId = sample_position 4, mq_limitBefore = 1, mq_limitAfter = 2\<rparr>"]
    by (auto simp: names_message_def sample_position_def)
qed

theorem removeLessThan_follows_witness:
  "slices_agree {x \<in> sample_server. sample_position 4 \<le> x}
    (ml_slices (removeLessThan (sample_position 4) \<lparr>ml_count = Some 2,
      ml_slices = [\<lparr>sl_messages = [sample_position 3], sl_from = sample_position 2, sl_till = sample_position 3\<rparr>],
      ml_sliceUpdated = []\<rparr>))"
proof -
  have "slices_agree sample_server
      [\<lparr>sl_messages = [sample_position 3], sl_from = sample_position 2, sl_till = sample_position 3\<rparr>]"
    by (auto simp: slices_agree_Cons slices_agree_def slice_ok_def sample_server_def)
  then show ?thesis
    using removeLessThan_follows [of sample_server "\<lparr>ml_count = Some 2, ml_slices =
        [\<lparr>sl_messages = [sample_position 3], sl_from = sample_position 2, sl_till = sample_position 3\<rparr>],
        ml_sliceUpdated = []\<rparr>" "sample_position 4"]
    by (simp add: MaxDate_def)
qed

end
