(* ===== verification/Slice_Builder.thy ===== *)
theory Slice_Builder
  imports Messages_List
begin

text \<open>
  \<open>MessagesSliceBuilder\<close> of \<open>data/data_messages.cpp\<close>: the window of messages around a
  key that a view shows. It starts from a query, follows the updates of the list, and
  asks for more when it has too few. What it asks for is the list \<open>sb_requests\<close>.
\<close>

section \<open>The builder\<close>

datatype load_direction = Around | Before | After

record slice_builder =
  sb_key :: message_position
  sb_ids :: "message_position list"
  sb_from :: message_position
  sb_till :: message_position
  sb_fullCount :: "int option"
  sb_skippedBefore :: "int option"
  sb_skippedAfter :: "int option"
  sb_limitBefore :: int
  sb_limitAfter :: int
  sb_requests :: "(message_position \<times> load_direction) list"

definition no_position :: message_position where
  "no_position = MessagePosition (FullMsgId 0 0) 0"

definition impossible :: message_position where
  "impossible = MessagePosition (FullMsgId 0 0) (- 1)"

definition MessagesSliceBuilder :: "message_position \<Rightarrow> int \<Rightarrow> int \<Rightarrow> slice_builder" where
  "MessagesSliceBuilder key limitBefore limitAfter =
    \<lparr>sb_key = key, sb_ids = [], sb_from = no_position, sb_till = no_position, sb_fullCount = None,
     sb_skippedBefore = None, sb_skippedAfter = None, sb_limitBefore = limitBefore, sb_limitAfter = limitAfter,
     sb_requests = []\<rparr>"

definition requestMessages :: "load_direction \<Rightarrow> slice_builder \<Rightarrow> slice_builder" where
  "requestMessages direction b =
    b\<lparr>sb_requests := sb_requests b @
      [if sb_ids b = [] then (sb_key b, Around)
       else if direction = Before then (hd (sb_ids b), Before)
       else (last (sb_ids b), After)]\<rparr>"

definition requestMessagesCount :: "slice_builder \<Rightarrow> slice_builder" where
  "requestMessagesCount b = b\<lparr>sb_requests := sb_requests b @ [(no_position, Around)]\<rparr>"

text \<open>The two halves of \<open>sliceToLimits\<close>; erasing more than there is is undefined.\<close>

definition slice_begin :: "int \<Rightarrow> slice_builder \<Rightarrow> (bool \<times> slice_builder) result" where
  "slice_begin removeFromBegin b =
    (if removeFromBegin > 0 then
       (if removeFromBegin > int (length (sb_ids b)) then Inl (Abort ''erase'')
        else Inr (False, b\<lparr>sb_ids := drop (nat removeFromBegin) (sb_ids b),
          sb_skippedBefore := map_option (\<lambda>n. n + removeFromBegin) (sb_skippedBefore b)\<rparr>))
     else if removeFromBegin < 0 \<and> (case sb_skippedBefore b of None \<Rightarrow> True | Some n \<Rightarrow> n > 0) then
       Inr (True, requestMessages Before b)
     else Inr (False, b))"

definition slice_end :: "int \<Rightarrow> slice_builder \<Rightarrow> (bool \<times> slice_builder) result" where
  "slice_end removeFromEnd b =
    (if removeFromEnd > 0 then
       (if removeFromEnd > int (length (sb_ids b)) then Inl (Abort ''erase'')
        else Inr (False, b\<lparr>sb_ids := take (length (sb_ids b) - nat removeFromEnd) (sb_ids b),
          sb_skippedAfter := map_option (\<lambda>n. n + removeFromEnd) (sb_skippedAfter b)\<rparr>))
     else if removeFromEnd < 0 \<and> (case sb_skippedAfter b of None \<Rightarrow> True | Some n \<Rightarrow> n > 0) then
       Inr (True, requestMessages After b)
     else Inr (False, b))"

definition sliceToLimits :: "slice_builder \<Rightarrow> slice_builder result" where
  "sliceToLimits b =
    (if \<not> names_message (sb_key b) then
       Inr (if sb_fullCount b = None then requestMessagesCount b else b)
     else
       let around = int (fs_lower_bound (sb_ids b) (sb_key b));
           removeFromBegin = around - sb_limitBefore b;
           removeFromEnd = int (length (sb_ids b)) - around - sb_limitAfter b - 1
       in bind_result (slice_begin removeFromBegin b) (\<lambda>(requested1, b).
          bind_result (slice_end removeFromEnd b) (\<lambda>(requested2, b).
          Inr (if sb_fullCount b = None \<and> \<not> (requested1 \<or> requested2) then requestMessagesCount b else b))))"

definition fill_skipped :: "slice_builder \<Rightarrow> slice_builder" where
  "fill_skipped b =
    (case (sb_fullCount b, sb_skippedBefore b, sb_skippedAfter b) of
       (Some c, Some n, None) \<Rightarrow> b\<lparr>sb_skippedAfter := Some (c - n - int (length (sb_ids b)))\<rparr>
     | (Some c, None, Some n) \<Rightarrow> b\<lparr>sb_skippedBefore := Some (c - n - int (length (sb_ids b)))\<rparr>
     | _ \<Rightarrow> b)"

definition fillSkippedAndSliceToLimits :: "slice_builder \<Rightarrow> slice_builder result" where
  "fillSkippedAndSliceToLimits b = sliceToLimits (fill_skipped b)"

definition index_in :: "message_position list \<Rightarrow> message_position \<Rightarrow> nat" where
  "index_in ids p = length (takeWhile (\<lambda>x. x \<noteq> p) ids)"

text \<open>The lambdas \<open>adjustSkippedBefore\<close> and \<open>adjustSkippedAfter\<close>, with their \<open>Assert\<close>.\<close>

definition adjustSkippedBefore :: "message_position \<Rightarrow> int \<Rightarrow> slice_builder \<Rightarrow> slice_builder result" where
  "adjustSkippedBefore oldId oldSkippedBefore b =
    (let it = index_in (sb_ids b) oldId
     in if it = length (sb_ids b) then Inl (Abort ''Assert'')
        else Inr (b\<lparr>sb_skippedBefore := Some (max (oldSkippedBefore - int it) 0)\<rparr>))"

definition adjustSkippedAfter :: "message_position \<Rightarrow> int \<Rightarrow> slice_builder \<Rightarrow> slice_builder result" where
  "adjustSkippedAfter oldId oldSkippedAfter b =
    (let it = index_in (sb_ids b) oldId
     in if it = length (sb_ids b) then Inl (Abort ''Assert'')
        else Inr (b\<lparr>sb_skippedAfter := Some (max (oldSkippedAfter - (int (length (sb_ids b)) - int it - 1)) 0)\<rparr>))"

text \<open>The skipped counts after merging, from the merged messages or from what was known.\<close>

definition keep_before :: "int option \<Rightarrow> message_position list \<Rightarrow> message_position \<Rightarrow> slice_builder \<Rightarrow> slice_builder result" where
  "keep_before skippedBefore messageIds wasMinId b =
    (case skippedBefore of
       Some n \<Rightarrow> adjustSkippedBefore (hd messageIds) n b
     | None \<Rightarrow>
         (case sb_skippedBefore b of
            Some n \<Rightarrow> if wasMinId \<noteq> impossible then adjustSkippedBefore wasMinId n b
                      else Inr (b\<lparr>sb_skippedBefore := None\<rparr>)
          | None \<Rightarrow> Inr (b\<lparr>sb_skippedBefore := None\<rparr>)))"

definition keep_after :: "int option \<Rightarrow> message_position list \<Rightarrow> message_position \<Rightarrow> slice_builder \<Rightarrow> slice_builder result" where
  "keep_after skippedAfter messageIds wasMaxId b =
    (case skippedAfter of
       Some n \<Rightarrow> adjustSkippedAfter (last messageIds) n b
     | None \<Rightarrow>
         (case sb_skippedAfter b of
            Some n \<Rightarrow> if wasMaxId \<noteq> impossible then adjustSkippedAfter wasMaxId n b
                      else Inr (b\<lparr>sb_skippedAfter := None\<rparr>)
          | None \<Rightarrow> Inr (b\<lparr>sb_skippedAfter := None\<rparr>)))"

definition merge_count :: "int option \<Rightarrow> slice_builder \<Rightarrow> slice_builder" where
  "merge_count count b =
    (case count of None \<Rightarrow> b
     | Some c \<Rightarrow>
         if sb_fullCount b = Some c then b
         else if 0 \<le> c \<and> c \<le> int (length (sb_ids b)) then
           b\<lparr>sb_fullCount := Some (int (length (sb_ids b))), sb_skippedBefore := Some 0, sb_skippedAfter := Some 0\<rparr>
         else b\<lparr>sb_fullCount := Some c\<rparr>)"

definition mergeSliceData ::
  "int option \<Rightarrow> message_position list \<Rightarrow> int option \<Rightarrow> int option \<Rightarrow> slice_builder \<Rightarrow> slice_builder result" where
  "mergeSliceData count messageIds skippedBefore skippedAfter b =
    (if messageIds = [] then fillSkippedAndSliceToLimits (merge_count count b)
     else
       let b = (if count \<noteq> None then b\<lparr>sb_fullCount := count\<rparr> else b);
           wasMinId = (if sb_ids b = [] then impossible else hd (sb_ids b));
           wasMaxId = (if sb_ids b = [] then impossible else last (sb_ids b));
           b = b\<lparr>sb_ids := fs_merge messageIds (sb_ids b)\<rparr>
       in bind_result (keep_before skippedBefore messageIds wasMinId b) (\<lambda>b.
          bind_result (keep_after skippedAfter messageIds wasMaxId b) fillSkippedAndSliceToLimits))"

definition applyInitial :: "message_position messages_result \<Rightarrow> slice_builder \<Rightarrow> slice_builder result" where
  "applyInitial r = mergeSliceData (mr_count r) (mr_ids r) (mr_skippedBefore r) (mr_skippedAfter r)"

definition applyUpdate :: "message_position slice_update \<Rightarrow> slice_builder \<Rightarrow> (bool \<times> slice_builder) result" where
  "applyUpdate u b =
    (let front = (if sb_ids b = [] then sb_key b else hd (sb_ids b));
         back = (if sb_ids b = [] then sb_key b else last (sb_ids b));
         needMergeMessages = (up_messages u \<noteq> None \<and> up_from u \<le> back \<and> front \<le> up_till u)
     in if \<not> needMergeMessages \<and> up_count u = None then Inr (False, b)
        else bind_result
          (mergeSliceData (up_count u) (if needMergeMessages then the (up_messages u) else [])
            (if up_from u = MinMessagePosition then Some 0 else None)
            (if up_till u = MaxMessagePosition then Some 0 else None) b)
          (\<lambda>b. Inr (True, b)))"

definition builder_removeOne :: "message_position \<Rightarrow> slice_builder \<Rightarrow> bool \<times> slice_builder" where
  "builder_removeOne messageId b =
    (let (changed, b) =
           (case sb_fullCount b of
              Some c \<Rightarrow> if c > 0 then (True, b\<lparr>sb_fullCount := Some (c - 1)\<rparr>) else (False, b)
            | None \<Rightarrow> (False, b))
     in if messageId \<in> set (sb_ids b) then (True, b\<lparr>sb_ids := remove1 messageId (sb_ids b)\<rparr>)
        else if sb_ids b \<noteq> [] then
          (case (sb_skippedBefore b, sb_skippedAfter b) of
             (before, after) \<Rightarrow>
               if hd (sb_ids b) > messageId \<and> (case before of Some n \<Rightarrow> n > 0 | None \<Rightarrow> False) then
                 (True, b\<lparr>sb_skippedBefore := map_option (\<lambda>n. n - 1) before\<rparr>)
               else if last (sb_ids b) < messageId \<and> (case after of Some n \<Rightarrow> n > 0 | None \<Rightarrow> False) then
                 (True, b\<lparr>sb_skippedAfter := map_option (\<lambda>n. n - 1) after\<rparr>)
               else (changed, b))
        else (changed, b))"

definition builder_removeAll :: "slice_builder \<Rightarrow> slice_builder" where
  "builder_removeAll b = b\<lparr>sb_ids := [], sb_from := MinMessagePosition, sb_till := MaxMessagePosition,
    sb_fullCount := Some 0, sb_skippedBefore := Some 0, sb_skippedAfter := Some 0\<rparr>"

definition builder_invalidated :: "slice_builder \<Rightarrow> slice_builder result" where
  "builder_invalidated b =
    sliceToLimits (b\<lparr>sb_fullCount := None, sb_skippedBefore := None, sb_skippedAfter := None, sb_ids := []\<rparr>)"

definition bottomInvalidated :: "slice_builder \<Rightarrow> slice_builder result" where
  "bottomInvalidated b = sliceToLimits (b\<lparr>sb_fullCount := None, sb_skippedAfter := None\<rparr>)"

record messages_slice =
  ms_ids :: "full_msg_id list"
  ms_nearestToAround :: full_msg_id
  ms_skippedBefore :: "int option"
  ms_skippedAfter :: "int option"
  ms_fullCount :: "int option"

definition builder_snapshot :: "slice_builder \<Rightarrow> messages_slice" where
  "builder_snapshot b =
    \<lparr>ms_ids = map mp_fullId (sb_ids b),
     ms_nearestToAround =
       (case dropWhile (\<lambda>p. \<not> p \<ge> sb_key b) (sb_ids b) of
          p # _ \<Rightarrow> mp_fullId p
        | [] \<Rightarrow> if sb_ids b = [] then FullMsgId 0 0 else mp_fullId (last (sb_ids b))),
     ms_skippedBefore = sb_skippedBefore b, ms_skippedAfter = sb_skippedAfter b, ms_fullCount = sb_fullCount b\<rparr>"

section \<open>The window\<close>

text \<open>A stretch of \<open>S\<close>, and the position of its elements in \<open>S\<close>.\<close>

definition stretch :: "'p::linorder set \<Rightarrow> 'p list \<Rightarrow> bool" where
  "stretch S ids \<longleftrightarrow> ordered ids \<and> set ids \<subseteq> S \<and> (\<forall>x\<in>S. \<forall>a\<in>set ids. \<forall>b\<in>set ids. a \<le> x \<and> x \<le> b \<longrightarrow> x \<in> set ids)"

lemma nearest_stretch: "nearest S p ids \<Longrightarrow> stretch S ids"
  unfolding nearest_def stretch_def by (meson linorder_not_le order.trans)

lemma rank_before:
  assumes "stretch S ids" and "finite S" and "k < length ids"
  shows "card {x \<in> S. x < ids ! k} = card {x \<in> S. x < hd ids} + k"
proof -
  have o: "ordered ids" using assms(1) by (simp add: stretch_def)
  have ids: "ids = take k ids @ ids ! k # drop (Suc k) ids"
    by (rule id_take_nth_drop [OF assms(3)])
  then have "ordered (take k ids @ ids ! k # drop (Suc k) ids)"
    using o by simp
  then have less: "\<forall>x\<in>set (take k ids). x < ids ! k" and more: "\<forall>x\<in>set (drop (Suc k) ids). ids ! k < x"
    by (simp_all add: sorted_wrt_append)
  have hd: "\<forall>x\<in>set ids. hd ids \<le> x"
    using o by (cases ids) (auto intro: less_imp_le)
  have "hd ids \<in> set ids"
    using assms(3) by (cases ids) auto
  have "{x \<in> S. x < ids ! k} = {x \<in> S. x < hd ids} \<union> set (take k ids)" (is "?A = ?B \<union> ?C")
  proof (intro set_eqI iffI)
    fix x assume x: "x \<in> ?A"
    show "x \<in> ?B \<union> ?C"
    proof (cases "x < hd ids")
      case False
      then have "hd ids \<le> x" and "x \<le> ids ! k" and "x \<in> S"
        using x by auto
      then have "x \<in> set ids"
        using assms(1) \<open>hd ids \<in> set ids\<close> nth_mem [OF assms(3)] unfolding stretch_def by blast
      then have "x \<in> set (take k ids) \<or> x = ids ! k \<or> x \<in> set (drop (Suc k) ids)"
        by (subst (asm) ids) auto
      then show ?thesis using x more by auto
    qed (use x in simp)
  next
    fix x assume "x \<in> ?B \<union> ?C"
    then show "x \<in> ?A"
      using less hd nth_mem [OF assms(3)] assms(1) set_take_subset [of k ids]
      by (auto simp: stretch_def intro: order.strict_trans2)
  qed
  moreover have "?B \<inter> ?C = {}"
    using hd set_take_subset [of k ids] by (auto dest: leD)
  moreover have "card ?C = k"
    using o assms(3) by (simp add: distinct_card strict_sorted_iff)
  ultimately show ?thesis
    using assms(2) by (simp add: card_Un_disjoint)
qed

lemma rank_after:
  assumes "stretch S ids" and "finite S" and "k < length ids"
  shows "card {x \<in> S. ids ! k < x} = card {x \<in> S. last ids < x} + (length ids - 1 - k)"
proof -
  have split: "card S = card {x \<in> S. x < p} + card {x \<in> S. p < x} + 1" if "p \<in> S" for p
  proof -
    have "{x \<in> S. p \<le> x} = insert p {x \<in> S. p < x}"
      using that by auto
    then show ?thesis
      using card_at_position [OF assms(2), of p] assms(2) by simp
  qed
  have "ids \<noteq> []" and "set ids \<subseteq> S"
    using assms by (auto simp: stretch_def)
  then have "ids ! k \<in> S" and "last ids \<in> S"
    using nth_mem [OF assms(3)] last_in_set by blast+
  moreover have "card {x \<in> S. x < last ids} = card {x \<in> S. x < hd ids} + (length ids - 1)"
    using rank_before [OF assms(1,2), of "length ids - 1"] \<open>ids \<noteq> []\<close> by (simp add: last_conv_nth)
  ultimately show ?thesis
    using rank_before [OF assms] split [of "ids ! k"] split [of "last ids"] assms(3) by linarith
qed

lemma stretch_card:
  assumes "stretch S ids" and "finite S" and "ids \<noteq> []"
  shows "card S = card {x \<in> S. x < hd ids} + length ids + card {x \<in> S. last ids < x}"
proof -
  have "ids ! 0 \<in> S"
    using assms(1,3) by (auto simp: stretch_def intro: nth_mem)
  then have "{x \<in> S. ids ! 0 \<le> x} = insert (ids ! 0) {x \<in> S. ids ! 0 < x}"
    by auto
  then have "card {x \<in> S. ids ! 0 \<le> x} = Suc (card {x \<in> S. ids ! 0 < x})"
    using assms(2) by simp
  moreover have "length ids \<ge> 1"
    using assms(3) by (cases ids) auto
  ultimately show ?thesis
    using card_at_position [OF assms(2), of "ids ! 0"] rank_after [OF assms(1,2), of 0] assms(3)
    by (simp add: hd_conv_nth)
qed

text \<open>The window agrees with the server's messages \<open>S\<close>.\<close>

definition window :: "message_position set \<Rightarrow> slice_builder \<Rightarrow> bool" where
  "window S b \<longleftrightarrow>
    finite S \<and> nearest S (sb_key b) (sb_ids b) \<and> (\<forall>c. sb_fullCount b = Some c \<longrightarrow> c = int (card S)) \<and>
    (sb_ids b \<noteq> [] \<longrightarrow>
      (\<forall>n. sb_skippedBefore b = Some n \<longrightarrow> n = int (card {x \<in> S. x < hd (sb_ids b)})) \<and>
      (\<forall>n. sb_skippedAfter b = Some n \<longrightarrow> n = int (card {x \<in> S. last (sb_ids b) < x})))"

definition usable :: "slice_builder \<Rightarrow> bool" where
  "usable b \<longleftrightarrow> names_message (sb_key b) \<and> 0 \<le> sb_limitBefore b \<and> 0 \<le> sb_limitAfter b"

lemma window_fill: "window S b \<Longrightarrow> window S (fill_skipped b)"
  using stretch_card [OF nearest_stretch, of S "sb_key b" "sb_ids b"]
  by (auto simp: window_def fill_skipped_def split: option.splits)

text \<open>Cutting to the limits.\<close>

definition complete :: "message_position set \<Rightarrow> slice_builder \<Rightarrow> bool" where
  "complete S b \<longleftrightarrow>
    int (length (filter (\<lambda>x. x < sb_key b) (sb_ids b))) = min (sb_limitBefore b) (int (card {x \<in> S. x < sb_key b})) \<and>
    int (length (filter (\<lambda>x. sb_key b \<le> x) (sb_ids b))) = min (sb_limitAfter b + 1) (int (card {x \<in> S. sb_key b \<le> x}))"

lemma window_drop:
  assumes w: "window S b" and k: "k \<le> fs_lower_bound (sb_ids b) (sb_key b)" and n: "n = int k"
  shows "window S (b\<lparr>sb_ids := drop k (sb_ids b), sb_skippedBefore := map_option (\<lambda>m. m + n) (sb_skippedBefore b)\<rparr>)"
proof -
  have near: "nearest S (sb_key b) (sb_ids b)" and fin: "finite S"
    using w by (simp_all add: window_def)
  obtain L R where LR: "sb_ids b = L @ R" "\<forall>x\<in>set L. x < sb_key b" "\<forall>x\<in>set R. sb_key b \<le> x"
      "fs_lower_bound (sb_ids b) (sb_key b) = length L"
    using split_at_position [of "sb_ids b" "sb_key b"] near unfolding nearest_def by metis
  have "drop k (sb_ids b) = drop k L @ take (length R) R"
    using k LR(1,4) by simp
  then have "nearest S (sb_key b) (drop k (sb_ids b))"
    using nearest_part [OF _ LR(2,3), of S k "length R"] near LR(1) by simp
  moreover have "card {x \<in> S. x < hd (drop k (sb_ids b))} = card {x \<in> S. x < hd (sb_ids b)} + k"
    if "drop k (sb_ids b) \<noteq> []"
    using rank_before [OF nearest_stretch [OF near] fin, of k] that by (simp add: hd_drop_conv_nth)
  ultimately show ?thesis
    using w n by (auto simp: window_def)
qed

lemma window_take:
  assumes w: "window S b" and k: "fs_lower_bound (sb_ids b) (sb_key b) \<le> length (sb_ids b) - k"
    and kn: "k \<le> length (sb_ids b)" and n: "n = int k"
  shows "window S (b\<lparr>sb_ids := take (length (sb_ids b) - k) (sb_ids b),
    sb_skippedAfter := map_option (\<lambda>m. m + n) (sb_skippedAfter b)\<rparr>)"
proof -
  have near: "nearest S (sb_key b) (sb_ids b)" and fin: "finite S"
    using w by (simp_all add: window_def)
  obtain L R where LR: "sb_ids b = L @ R" "\<forall>x\<in>set L. x < sb_key b" "\<forall>x\<in>set R. sb_key b \<le> x"
      "fs_lower_bound (sb_ids b) (sb_key b) = length L"
    using split_at_position [of "sb_ids b" "sb_key b"] near unfolding nearest_def by metis
  let ?m = "length (sb_ids b) - k"
  have "take ?m (sb_ids b) = drop 0 L @ take (?m - length L) R"
    using k LR(1,4) by simp
  then have "nearest S (sb_key b) (take ?m (sb_ids b))"
    using nearest_part [OF _ LR(2,3), of S 0 "?m - length L"] near LR(1) by simp
  moreover have "card {x \<in> S. last (take ?m (sb_ids b)) < x} = card {x \<in> S. last (sb_ids b) < x} + k"
    if "take ?m (sb_ids b) \<noteq> []"
  proof -
    have "?m > 0" and "?m \<le> length (sb_ids b)"
      using that by (auto simp: take_eq_Nil)
    then have "last (take ?m (sb_ids b)) = sb_ids b ! (?m - 1)"
      by (simp add: last_conv_nth [OF that])
    then show ?thesis
      using rank_after [OF nearest_stretch [OF near] fin, of "?m - 1"] \<open>?m > 0\<close> kn by simp
  qed
  moreover have "hd (take ?m (sb_ids b)) = hd (sb_ids b)" if "take ?m (sb_ids b) \<noteq> []"
    using that by (cases "sb_ids b"; cases ?m) simp_all
  ultimately show ?thesis
    using w n by (auto simp: window_def)
qed

lemma lower_bound_le: "fs_lower_bound xs p \<le> length xs"
  by (simp add: fs_lower_bound_def length_takeWhile_le)

lemma nearest_before: "nearest S p ids \<Longrightarrow> x \<in> S \<Longrightarrow> a \<in> set ids \<Longrightarrow> a \<le> x \<Longrightarrow> x < p \<Longrightarrow> x \<in> set ids"
  unfolding nearest_def by blast

lemma nearest_after: "nearest S p ids \<Longrightarrow> x \<in> S \<Longrightarrow> a \<in> set ids \<Longrightarrow> p \<le> x \<Longrightarrow> x \<le> a \<Longrightarrow> x \<in> set ids"
  unfolding nearest_def by blast

lemma nearest_counts:
  assumes near: "nearest S p ids" and "finite S"
  shows "fs_lower_bound ids p \<le> card {x \<in> S. x < p}"
    and "length ids - fs_lower_bound ids p \<le> card {x \<in> S. p \<le> x}"
proof -
  obtain L R where LR: "ids = L @ R" "ordered L" "ordered R" "\<forall>x\<in>set L. x < p" "\<forall>x\<in>set R. p \<le> x"
      "fs_lower_bound ids p = length L"
    using split_at_position [of ids p] near unfolding nearest_def by metis
  have "set L \<subseteq> {x \<in> S. x < p}" and "set R \<subseteq> {x \<in> S. p \<le> x}"
    using near LR(1,4,5) by (auto simp: nearest_def)
  then have "card (set L) \<le> card {x \<in> S. x < p}" and "card (set R) \<le> card {x \<in> S. p \<le> x}"
    using assms(2) by (simp_all add: card_mono)
  then show "fs_lower_bound ids p \<le> card {x \<in> S. x < p}"
    and "length ids - fs_lower_bound ids p \<le> card {x \<in> S. p \<le> x}"
    using LR(1,6) ordered_length [OF LR(2)] ordered_length [OF LR(3)] by simp_all
qed

lemma before_all:
  assumes near: "nearest S p ids" and "finite S" and "ids \<noteq> []" and none: "card {x \<in> S. x < hd ids} = 0"
  shows "card {x \<in> S. x < p} = fs_lower_bound ids p"
proof -
  have o: "ordered ids" and sub: "set ids \<subseteq> S"
    using near by (simp_all add: nearest_def)
  have "hd ids \<le> x" if "x \<in> S" for x
    using none that assms(2) by (auto simp: not_less [symmetric])
  then have "{x \<in> S. x < p} = {x \<in> set ids. x < p}"
    using nearest_before [OF near _ hd_in_set [OF assms(3)]] sub by blast
  then have "{x \<in> S. x < p} = set (takeWhile (\<lambda>x. x < p) ids)"
    using ordered_take_while [OF o] by simp
  then show ?thesis
    using o ordered_length [of "takeWhile (\<lambda>x. x < p) ids"]
    by (metis fs_lower_bound_def sorted_wrt_append takeWhile_dropWhile_id)
qed

lemma after_all:
  assumes near: "nearest S p ids" and "finite S" and "ids \<noteq> []" and none: "card {x \<in> S. last ids < x} = 0"
  shows "card {x \<in> S. p \<le> x} = length ids - fs_lower_bound ids p"
proof -
  have o: "ordered ids" and sub: "set ids \<subseteq> S"
    using near by (simp_all add: nearest_def)
  have "x \<le> last ids" if "x \<in> S" for x
    using none that assms(2) by (auto simp: not_less [symmetric])
  then have "{x \<in> S. p \<le> x} = {x \<in> set ids. p \<le> x}"
    using nearest_after [OF near _ last_in_set [OF assms(3)]] sub by blast
  then have eq: "{x \<in> S. p \<le> x} = set (dropWhile (\<lambda>x. x < p) ids)"
    using ordered_drop_while [OF o] by simp
  have "ordered (dropWhile (\<lambda>x. x < p) ids)"
    using o by (metis sorted_wrt_append takeWhile_dropWhile_id)
  then have "card {x \<in> S. p \<le> x} = length (dropWhile (\<lambda>x. x < p) ids)"
    unfolding eq by (rule ordered_length [symmetric])
  moreover have "dropWhile (\<lambda>x. x < p) ids = drop (fs_lower_bound ids p) ids"
    by (simp add: fs_lower_bound_split)
  ultimately show ?thesis
    by simp
qed

definition same_view :: "slice_builder \<Rightarrow> slice_builder \<Rightarrow> bool" where
  "same_view b b' \<longleftrightarrow> sb_key b' = sb_key b \<and> sb_limitBefore b' = sb_limitBefore b \<and>
    sb_limitAfter b' = sb_limitAfter b \<and> sb_fullCount b' = sb_fullCount b"

lemma slice_begin_ok:
  assumes w: "window S b" and u: "usable b"
  defines "pos \<equiv> fs_lower_bound (sb_ids b) (sb_key b)"
  shows "\<exists>r b'. slice_begin (int pos - sb_limitBefore b) b = Inr (r, b') \<and> window S b' \<and> same_view b b' \<and>
    sb_skippedAfter b' = sb_skippedAfter b \<and> sb_ids b' = drop (pos - nat (sb_limitBefore b)) (sb_ids b) \<and>
    length (sb_requests b') = length (sb_requests b) + (if r then 1 else 0) \<and>
    (\<not> r \<and> sb_ids b \<noteq> [] \<longrightarrow>
      int (pos - (pos - nat (sb_limitBefore b))) = min (sb_limitBefore b) (int (card {x \<in> S. x < sb_key b})))"
proof -
  let ?lb = "sb_limitBefore b" and ?k = "pos - nat (sb_limitBefore b)" and ?n = "int pos - sb_limitBefore b"
  have lb: "0 \<le> ?lb" using u by (simp add: usable_def)
  have near: "nearest S (sb_key b) (sb_ids b)" and fin: "finite S"
    using w by (simp_all add: window_def)
  have le: "pos \<le> length (sb_ids b)"
    by (simp add: pos_def lower_bound_le)
  have card: "pos \<le> card {x \<in> S. x < sb_key b}"
    unfolding pos_def by (rule nearest_counts(1) [OF near fin])
  consider (cut) "?n > 0" | (fits) "?n = 0" | (ask) "?n < 0" "case sb_skippedBefore b of None \<Rightarrow> True | Some n \<Rightarrow> n > 0"
    | (all) m where "?n < 0" "sb_skippedBefore b = Some m" "m \<le> 0"
    by (cases "sb_skippedBefore b") (fastforce simp: not_less)+
  then show ?thesis
  proof cases
    case cut
    then have k: "?n = int ?k" and "nat ?n = ?k"
      using lb by auto
    have b': "slice_begin ?n b = Inr (False, b\<lparr>sb_ids := drop ?k (sb_ids b),
        sb_skippedBefore := map_option (\<lambda>m. m + ?n) (sb_skippedBefore b)\<rparr>)"
      using cut le lb \<open>nat ?n = ?k\<close> by (simp add: slice_begin_def)
    have "window S (b\<lparr>sb_ids := drop ?k (sb_ids b), sb_skippedBefore := map_option (\<lambda>m. m + ?n) (sb_skippedBefore b)\<rparr>)"
      by (rule window_drop [OF w _ k]) (simp add: pos_def)
    then show ?thesis
      using b' cut lb card by (intro exI [of _ False]) (simp add: same_view_def)
  next
    case fits
    then have "slice_begin ?n b = Inr (False, b)" and "?k = 0"
      using lb by (simp_all add: slice_begin_def)
    then show ?thesis
      using w fits card by (intro exI [of _ False]) (simp add: same_view_def)
  next
    case ask
    then have "slice_begin ?n b = Inr (True, requestMessages Before b)" and "?k = 0"
      using lb by (simp_all add: slice_begin_def)
    then show ?thesis
      using w by (intro exI [of _ True]) (simp add: same_view_def requestMessages_def window_def)
  next
    case all
    then have "slice_begin ?n b = Inr (False, b)" and "?k = 0"
      using lb by (simp_all add: slice_begin_def)
    moreover have "card {x \<in> S. x < sb_key b} = pos" if "sb_ids b \<noteq> []"
      using before_all [OF near fin that] w all that by (auto simp: window_def pos_def)
    ultimately show ?thesis
      using w all by (intro exI [of _ False]) (simp add: same_view_def)
  qed
qed

lemma slice_end_ok:
  assumes w: "window S b" and u: "usable b"
  defines "len \<equiv> length (sb_ids b) - fs_lower_bound (sb_ids b) (sb_key b)"
  shows "\<exists>r b'. slice_end (int len - sb_limitAfter b - 1) b = Inr (r, b') \<and> window S b' \<and> same_view b b' \<and>
    sb_ids b' = take (length (sb_ids b) - (len - nat (sb_limitAfter b + 1))) (sb_ids b) \<and>
    length (sb_requests b') = length (sb_requests b) + (if r then 1 else 0) \<and>
    (\<not> r \<and> sb_ids b \<noteq> [] \<longrightarrow>
      int (len - (len - nat (sb_limitAfter b + 1))) = min (sb_limitAfter b + 1) (int (card {x \<in> S. sb_key b \<le> x})))"
proof -
  let ?k = "len - nat (sb_limitAfter b + 1)" and ?n = "int len - sb_limitAfter b - 1"
  have la: "0 \<le> sb_limitAfter b" using u by (simp add: usable_def)
  have near: "nearest S (sb_key b) (sb_ids b)" and fin: "finite S"
    using w by (simp_all add: window_def)
  have le: "len \<le> length (sb_ids b)" and pos: "fs_lower_bound (sb_ids b) (sb_key b) = length (sb_ids b) - len"
    using lower_bound_le [of "sb_ids b" "sb_key b"] by (simp_all add: len_def)
  have card: "len \<le> card {x \<in> S. sb_key b \<le> x}"
    unfolding len_def by (rule nearest_counts(2) [OF near fin])
  consider (cut) "?n > 0" | (fits) "?n = 0" | (ask) "?n < 0" "case sb_skippedAfter b of None \<Rightarrow> True | Some n \<Rightarrow> n > 0"
    | (all) m where "?n < 0" "sb_skippedAfter b = Some m" "m \<le> 0"
    by (cases "sb_skippedAfter b") (fastforce simp: not_less)+
  then show ?thesis
  proof cases
    case cut
    then have k: "?n = int ?k" and nat: "nat ?n = ?k" and kl: "?k \<le> length (sb_ids b)"
      using la le by auto
    have b': "slice_end ?n b = Inr (False, b\<lparr>sb_ids := take (length (sb_ids b) - ?k) (sb_ids b),
        sb_skippedAfter := map_option (\<lambda>m. m + ?n) (sb_skippedAfter b)\<rparr>)"
      using cut le la nat by (simp add: slice_end_def)
    have "window S (b\<lparr>sb_ids := take (length (sb_ids b) - ?k) (sb_ids b),
        sb_skippedAfter := map_option (\<lambda>m. m + ?n) (sb_skippedAfter b)\<rparr>)"
      by (rule window_take [OF w _ kl k]) (simp add: pos)
    then show ?thesis
      using b' cut la card by (intro exI [of _ False]) (simp add: same_view_def)
  next
    case fits
    then have "slice_end ?n b = Inr (False, b)" and "?k = 0"
      using la by (simp_all add: slice_end_def)
    then show ?thesis
      using w fits card by (intro exI [of _ False]) (simp add: same_view_def)
  next
    case ask
    then have "slice_end ?n b = Inr (True, requestMessages After b)" and "?k = 0"
      using la by (simp_all add: slice_end_def)
    then show ?thesis
      using w by (intro exI [of _ True]) (simp add: same_view_def requestMessages_def window_def)
  next
    case all
    then have "slice_end ?n b = Inr (False, b)" and "?k = 0"
      using la by (simp_all add: slice_end_def)
    moreover have "card {x \<in> S. sb_key b \<le> x} = len" if "sb_ids b \<noteq> []"
      using after_all [OF near fin that] w all that by (auto simp: window_def len_def)
    ultimately show ?thesis
      using w all by (intro exI [of _ False]) (simp add: same_view_def)
  qed
qed

text \<open>Dropping from the begin moves the key's position in the window.\<close>

lemma lower_bound_drop:
  "k \<le> fs_lower_bound xs p \<Longrightarrow> fs_lower_bound (drop k xs) p = fs_lower_bound xs p - k"
proof (induction k arbitrary: xs)
  case (Suc k)
  then show ?case
    by (cases xs) (auto simp: fs_lower_bound_def split: if_splits)
qed simp

lemma lower_bound_take:
  "fs_lower_bound xs p \<le> n \<Longrightarrow> fs_lower_bound (take n xs) p = fs_lower_bound xs p"
proof (induction n arbitrary: xs)
  case 0
  then show ?case by (simp add: fs_lower_bound_def)
next
  case (Suc n)
  then show ?case
    by (cases xs) (auto simp: fs_lower_bound_def split: if_splits)
qed

lemma filter_lengths:
  assumes "ordered (xs :: 'p::linorder list)"
  shows "length (filter (\<lambda>x. x < p) xs) = fs_lower_bound xs p"
    and "length (filter (\<lambda>x. p \<le> x) xs) = length xs - fs_lower_bound xs p"
proof -
  obtain L R where "xs = L @ R" "\<forall>x\<in>set L. x < p" "\<forall>x\<in>set R. p \<le> x" "fs_lower_bound xs p = length L"
    using split_at_position [OF assms, of p] by metis
  then show "length (filter (\<lambda>x. x < p) xs) = fs_lower_bound xs p"
    and "length (filter (\<lambda>x. p \<le> x) xs) = length xs - fs_lower_bound xs p"
    using stretch_counts [of L p R 0 "length R"] by simp_all
qed

lemma sliceToLimits_ok:
  assumes w: "window S b" and u: "usable b"
  shows "\<exists>b'. sliceToLimits b = Inr b' \<and> window S b' \<and> same_view b b' \<and>
    length (sb_requests b) \<le> length (sb_requests b') \<and>
    (sb_ids b' \<noteq> [] \<and> length (sb_requests b') = length (sb_requests b) \<longrightarrow> complete S b')"
proof -
  define pos where "pos = fs_lower_bound (sb_ids b) (sb_key b)"
  define k where "k = pos - nat (sb_limitBefore b)"
  have pos: "pos \<le> length (sb_ids b)"
    by (simp add: pos_def lower_bound_le)
  obtain r1 b1 where b1: "slice_begin (int pos - sb_limitBefore b) b = Inr (r1, b1)" "window S b1" "same_view b b1"
      "sb_ids b1 = drop k (sb_ids b)" "length (sb_requests b1) = length (sb_requests b) + (if r1 then 1 else 0)"
      "\<not> r1 \<and> sb_ids b \<noteq> [] \<longrightarrow> int (pos - k) = min (sb_limitBefore b) (int (card {x \<in> S. x < sb_key b}))"
    using slice_begin_ok [OF w u] unfolding pos_def k_def by blast
  have u1: "usable b1" and view: "sb_key b1 = sb_key b" "sb_limitBefore b1 = sb_limitBefore b"
      "sb_limitAfter b1 = sb_limitAfter b" "sb_fullCount b1 = sb_fullCount b"
    using u b1(3) by (simp_all add: usable_def same_view_def)
  define len where "len = length (sb_ids b) - pos"
  have pos1: "fs_lower_bound (sb_ids b1) (sb_key b1) = pos - k"
    using lower_bound_drop [of k "sb_ids b" "sb_key b"] by (simp add: b1(4) view pos_def k_def)
  have len1: "length (sb_ids b1) - fs_lower_bound (sb_ids b1) (sb_key b1) = len"
    unfolding pos1 using b1(4) pos by (simp add: len_def k_def)
  obtain r2 b2 where b2: "slice_end (int len - sb_limitAfter b - 1) b1 = Inr (r2, b2)" "window S b2" "same_view b1 b2"
      "sb_ids b2 = take (length (sb_ids b1) - (len - nat (sb_limitAfter b + 1))) (sb_ids b1)"
      "length (sb_requests b2) = length (sb_requests b1) + (if r2 then 1 else 0)"
      "\<not> r2 \<and> sb_ids b1 \<noteq> [] \<longrightarrow>
        int (len - (len - nat (sb_limitAfter b + 1))) = min (sb_limitAfter b + 1) (int (card {x \<in> S. sb_key b \<le> x}))"
    using slice_end_ok [OF b1(2) u1, unfolded len1, unfolded view] by blast
  define b3 where "b3 = (if sb_fullCount b2 = None \<and> \<not> (r1 \<or> r2) then requestMessagesCount b2 else b2)"
  have "int (length (sb_ids b)) - int pos - sb_limitAfter b - 1 = int len - sb_limitAfter b - 1"
    using pos by (simp add: len_def)
  then have run: "sliceToLimits b = Inr b3"
    using u b1(1) b2(1) by (simp add: sliceToLimits_def usable_def Let_def pos_def [symmetric] b3_def)
  have b3: "window S b3" "same_view b b3" "sb_ids b3 = sb_ids b2" "length (sb_requests b2) \<le> length (sb_requests b3)"
    using b2(2,3) b1(3) by (auto simp: b3_def requestMessagesCount_def window_def same_view_def)
  have "complete S b3" if ne: "sb_ids b3 \<noteq> []" and eq: "length (sb_requests b3) = length (sb_requests b)"
  proof -
    have "\<not> r1" and "\<not> r2"
      using eq b3(4) b1(5) b2(5) by (auto split: if_splits)
    moreover have ne1: "sb_ids b1 \<noteq> []" and "sb_ids b \<noteq> []"
      using ne b3(3) b2(4) b1(4) by auto
    ultimately have before: "int (pos - k) = min (sb_limitBefore b) (int (card {x \<in> S. x < sb_key b}))"
      and after: "int (len - (len - nat (sb_limitAfter b + 1))) = min (sb_limitAfter b + 1) (int (card {x \<in> S. sb_key b \<le> x}))"
      using b1(6) b2(6) by auto
    have o: "ordered (sb_ids b2)"
      using b2(2) by (simp add: window_def nearest_def)
    have low: "fs_lower_bound (sb_ids b2) (sb_key b) = pos - k"
      unfolding b2(4)
      by (subst lower_bound_take)
        (use pos1 len1 lower_bound_le [of "sb_ids b1" "sb_key b1"] view in simp_all)
    moreover have "length (sb_ids b2) - (pos - k) = len - (len - nat (sb_limitAfter b + 1))"
    proof -
      have "length (sb_ids b1) = len + (pos - k)"
        using len1 pos1 lower_bound_le [of "sb_ids b1" "sb_key b1"] by simp
      then show ?thesis
        by (simp add: b2(4))
    qed
    ultimately show ?thesis
      using before after filter_lengths [OF o, of "sb_key b"] b3(2,3) by (simp add: complete_def same_view_def)
  qed
  moreover have "length (sb_requests b) \<le> length (sb_requests b3)"
    using b3(4) b1(5) b2(5) by simp
  ultimately show ?thesis
    using run b3(1,2) by blast
qed

section \<open>Merging\<close>

lemma index_in_nth:
  assumes "p \<in> set ids"
  shows "index_in ids p < length ids" and "ids ! index_in ids p = p"
proof -
  show less: "index_in ids p < length ids"
    using assms by (induction ids) (auto simp: index_in_def)
  then show "ids ! index_in ids p = p"
    using nth_length_takeWhile [of "\<lambda>x. x \<noteq> p" ids] by (simp add: index_in_def)
qed

lemma adjust_ok:
  assumes st: "stretch S (sb_ids b)" and fin: "finite S" and p: "p \<in> set (sb_ids b)"
  shows "n = int (card {x \<in> S. x < p}) \<Longrightarrow>
      adjustSkippedBefore p n b = Inr (b\<lparr>sb_skippedBefore := Some (int (card {x \<in> S. x < hd (sb_ids b)}))\<rparr>)"
    and "n = int (card {x \<in> S. p < x}) \<Longrightarrow>
      adjustSkippedAfter p n b = Inr (b\<lparr>sb_skippedAfter := Some (int (card {x \<in> S. last (sb_ids b) < x}))\<rparr>)"
proof -
  define k where "k = index_in (sb_ids b) p"
  have k: "k < length (sb_ids b)" "sb_ids b ! k = p"
    using index_in_nth [OF p] by (simp_all add: k_def)
  have r: "card {x \<in> S. x < p} = card {x \<in> S. x < hd (sb_ids b)} + k"
      "card {x \<in> S. p < x} = card {x \<in> S. last (sb_ids b) < x} + (length (sb_ids b) - 1 - k)"
    using rank_before [OF st fin k(1)] rank_after [OF st fin k(1)] unfolding k(2) .
  have "int (length (sb_ids b)) - int k - 1 = int (length (sb_ids b) - 1 - k)"
    using k(1) by simp
  then show "n = int (card {x \<in> S. x < p}) \<Longrightarrow>
      adjustSkippedBefore p n b = Inr (b\<lparr>sb_skippedBefore := Some (int (card {x \<in> S. x < hd (sb_ids b)}))\<rparr>)"
    and "n = int (card {x \<in> S. p < x}) \<Longrightarrow>
      adjustSkippedAfter p n b = Inr (b\<lparr>sb_skippedAfter := Some (int (card {x \<in> S. last (sb_ids b) < x}))\<rparr>)"
    using k(1) unfolding adjustSkippedBefore_def adjustSkippedAfter_def Let_def k_def [symmetric] r by simp_all
qed

lemma keep_before_ok:
  assumes st: "stretch S (sb_ids b)" and fin: "finite S"
    and given: "\<forall>n. given = Some n \<longrightarrow> hd ids \<in> set (sb_ids b) \<and> n = int (card {x \<in> S. x < hd ids})"
    and old: "\<forall>n. sb_skippedBefore b = Some n \<and> was \<noteq> impossible \<longrightarrow> was \<in> set (sb_ids b) \<and> n = int (card {x \<in> S. x < was})"
  shows "\<exists>x. (x = None \<or> x = Some (int (card {x \<in> S. x < hd (sb_ids b)}))) \<and>
    keep_before given ids was b = Inr (b\<lparr>sb_skippedBefore := x\<rparr>)"
proof (cases given)
  case (Some n)
  then have p: "hd ids \<in> set (sb_ids b)" and n: "n = int (card {x \<in> S. x < hd ids})"
    using given by blast+
  show ?thesis
    using adjust_ok(1) [OF st fin p n] Some by (auto simp: keep_before_def)
next
  case None
  show ?thesis
  proof (cases "\<exists>n. sb_skippedBefore b = Some n \<and> was \<noteq> impossible")
    case True
    then show ?thesis
      using None old adjust_ok(1) [OF st fin, of was] by (fastforce simp: keep_before_def)
  next
    case False
    then have "keep_before given ids was b = Inr (b\<lparr>sb_skippedBefore := None\<rparr>)"
      using None by (auto simp: keep_before_def split: option.split)
    then show ?thesis
      by blast
  qed
qed

lemma keep_after_ok:
  assumes st: "stretch S (sb_ids b)" and fin: "finite S"
    and given: "\<forall>n. given = Some n \<longrightarrow> last ids \<in> set (sb_ids b) \<and> n = int (card {x \<in> S. last ids < x})"
    and old: "\<forall>n. sb_skippedAfter b = Some n \<and> was \<noteq> impossible \<longrightarrow> was \<in> set (sb_ids b) \<and> n = int (card {x \<in> S. was < x})"
  shows "\<exists>x. (x = None \<or> x = Some (int (card {x \<in> S. last (sb_ids b) < x}))) \<and>
    keep_after given ids was b = Inr (b\<lparr>sb_skippedAfter := x\<rparr>)"
proof (cases given)
  case (Some n)
  then have p: "last ids \<in> set (sb_ids b)" and n: "n = int (card {x \<in> S. last ids < x})"
    using given by blast+
  show ?thesis
    using adjust_ok(2) [OF st fin p n] Some by (auto simp: keep_after_def)
next
  case None
  show ?thesis
  proof (cases "\<exists>n. sb_skippedAfter b = Some n \<and> was \<noteq> impossible")
    case True
    then show ?thesis
      using None old adjust_ok(2) [OF st fin, of was] by (fastforce simp: keep_after_def)
  next
    case False
    then have "keep_after given ids was b = Inr (b\<lparr>sb_skippedAfter := None\<rparr>)"
      using None by (auto simp: keep_after_def split: option.split)
    then show ?thesis
      by blast
  qed
qed

lemma window_merge_count:
  assumes "window S b" and "\<forall>c. count = Some c \<longrightarrow> c = int (card S)"
  shows "window S (merge_count count b)"
proof (cases count)
  case None
  then show ?thesis using assms(1) by (simp add: merge_count_def)
next
  case (Some c)
  then have c: "c = int (card S)" using assms(2) by simp
  have st: "stretch S (sb_ids b)" and fin: "finite S"
    using assms(1) nearest_stretch by (auto simp: window_def)
  show ?thesis
  proof (cases "c \<le> int (length (sb_ids b))")
    case True
    have "card S = length (sb_ids b)" if "sb_ids b = []"
      using True c that by simp
    moreover have "card S = length (sb_ids b) \<and> card {x \<in> S. x < hd (sb_ids b)} = 0 \<and> card {x \<in> S. last (sb_ids b) < x} = 0"
      if "sb_ids b \<noteq> []"
      using stretch_card [OF st fin that] True c by linarith
    ultimately have "card S = length (sb_ids b)"
      and "sb_ids b \<noteq> [] \<Longrightarrow> card {x \<in> S. x < hd (sb_ids b)} = 0 \<and> card {x \<in> S. last (sb_ids b) < x} = 0"
      by blast+
    then have "window S (b\<lparr>sb_fullCount := Some (int (length (sb_ids b))), sb_skippedBefore := Some 0,
        sb_skippedAfter := Some 0\<rparr>)"
      using assms(1) unfolding window_def by simp
    then show ?thesis
      using assms(1) Some True c unfolding merge_count_def by (simp only: option.case if_True) (simp split: if_split)
  next
    case False
    then have "merge_count count b = b \<or> merge_count count b = b\<lparr>sb_fullCount := Some c\<rparr>"
      using Some by (auto simp: merge_count_def)
    moreover have "window S (b\<lparr>sb_fullCount := Some c\<rparr>)"
      using assms(1) c unfolding window_def by simp
    ultimately show ?thesis
      using assms(1) by metis
  qed
qed

text \<open>What is merged: messages of \<open>S\<close> that leave the window without a hole.\<close>

definition mergeable ::
  "message_position set \<Rightarrow> int option \<Rightarrow> message_position list \<Rightarrow> int option \<Rightarrow> int option \<Rightarrow> slice_builder \<Rightarrow> bool" where
  "mergeable S count ids before after b \<longleftrightarrow>
    (\<forall>c. count = Some c \<longrightarrow> c = int (card S)) \<and> ordered ids \<and>
    (ids \<noteq> [] \<longrightarrow>
      nearest S (sb_key b) (fs_merge ids (sb_ids b)) \<and>
      (\<forall>n. before = Some n \<longrightarrow> n = int (card {x \<in> S. x < hd ids})) \<and>
      (\<forall>n. after = Some n \<longrightarrow> n = int (card {x \<in> S. last ids < x})))"

definition settled :: "message_position set \<Rightarrow> slice_builder \<Rightarrow> slice_builder \<Rightarrow> bool" where
  "settled S b b' \<longleftrightarrow> window S b' \<and> usable b' \<and> sb_key b' = sb_key b \<and>
    (sb_ids b' \<noteq> [] \<and> length (sb_requests b') = length (sb_requests b) \<longrightarrow> complete S b')"

lemma settle_ok:
  assumes "window S b1" and "usable b1" and "sb_requests b1 = sb_requests b" and "sb_key b1 = sb_key b"
  shows "\<exists>b'. sliceToLimits b1 = Inr b' \<and> settled S b b'"
  using sliceToLimits_ok [OF assms(1,2)] assms by (auto simp: settled_def same_view_def usable_def)

lemma fill_same [simp]:
  "usable (fill_skipped b) = usable b" "sb_requests (fill_skipped b) = sb_requests b" "sb_key (fill_skipped b) = sb_key b"
  by (auto simp: fill_skipped_def usable_def split: option.split)

lemma fill_settle_ok:
  assumes "window S b1" and "usable b1" and "sb_requests b1 = sb_requests b" and "sb_key b1 = sb_key b"
  shows "\<exists>b'. fillSkippedAndSliceToLimits b1 = Inr b' \<and> settled S b b'"
  unfolding fillSkippedAndSliceToLimits_def
  by (rule settle_ok [OF window_fill [OF assms(1)]]) (simp_all add: assms)

lemma merge_messages_ok:
  assumes ids: "ids \<noteq> []" and u: "usable b" and fin: "finite S"
    and near: "nearest S (sb_key b) (fs_merge ids (sb_ids b))"
    and full: "\<forall>c. (if count \<noteq> None then count else sb_fullCount b) = Some c \<longrightarrow> c = int (card S)"
    and given: "\<forall>n. before = Some n \<longrightarrow> n = int (card {x \<in> S. x < hd ids})"
      "\<forall>n. after = Some n \<longrightarrow> n = int (card {x \<in> S. last ids < x})"
    and old: "sb_ids b \<noteq> [] \<Longrightarrow> \<forall>n. sb_skippedBefore b = Some n \<longrightarrow> n = int (card {x \<in> S. x < hd (sb_ids b)})"
      "sb_ids b \<noteq> [] \<Longrightarrow> after = None \<Longrightarrow>
        \<forall>n. sb_skippedAfter b = Some n \<longrightarrow> n = int (card {x \<in> S. last (sb_ids b) < x})"
  shows "\<exists>b'. mergeSliceData count ids before after b = Inr b' \<and> settled S b b'"
proof -
  define b1 where "b1 = (if count \<noteq> None then b\<lparr>sb_fullCount := count\<rparr> else b)\<lparr>sb_ids := fs_merge ids (sb_ids b)\<rparr>"
  have b1: "sb_ids b1 = fs_merge ids (sb_ids b)" "sb_skippedBefore b1 = sb_skippedBefore b"
      "sb_skippedAfter b1 = sb_skippedAfter b" "sb_key b1 = sb_key b" "sb_requests b1 = sb_requests b" "usable b1"
    using u by (auto simp: b1_def usable_def)
  have near1: "nearest S (sb_key b) (sb_ids b1)" using near by (simp add: b1)
  have full1: "\<forall>c. sb_fullCount b1 = Some c \<longrightarrow> c = int (card S)" using full by (auto simp: b1_def)
  have st: "stretch S (sb_ids b1)"
    using near1 by (rule nearest_stretch)
  have hd: "hd ids \<in> set (sb_ids b1)" "last ids \<in> set (sb_ids b1)" and nonempty: "sb_ids b1 \<noteq> []"
    using ids hd_in_set [of ids] last_in_set [of ids] by (auto simp: b1 dest: arg_cong [of _ _ set])
  have ends: "hd (sb_ids b) \<in> set (sb_ids b1)" "last (sb_ids b) \<in> set (sb_ids b1)" if "sb_ids b \<noteq> []"
    using that hd_in_set [of "sb_ids b"] last_in_set [of "sb_ids b"] by (auto simp: b1)
  have old_before: "\<forall>n. sb_skippedBefore b1 = Some n \<and> (if sb_ids b = [] then impossible else hd (sb_ids b)) \<noteq> impossible \<longrightarrow>
      (if sb_ids b = [] then impossible else hd (sb_ids b)) \<in> set (sb_ids b1) \<and>
      n = int (card {x \<in> S. x < (if sb_ids b = [] then impossible else hd (sb_ids b))})"
    using old(1) ends(1) by (auto simp: b1(2))
  have given1: "\<forall>n. before = Some n \<longrightarrow> hd ids \<in> set (sb_ids b1) \<and> n = int (card {x \<in> S. x < hd ids})"
    using given(1) hd by simp
  obtain x where x: "x = None \<or> x = Some (int (card {x \<in> S. x < hd (sb_ids b1)}))" and before:
      "keep_before before ids (if sb_ids b = [] then impossible else hd (sb_ids b)) b1 = Inr (b1\<lparr>sb_skippedBefore := x\<rparr>)"
    using keep_before_ok [OF st fin given1 old_before] by blast
  let ?b2 = "b1\<lparr>sb_skippedBefore := x\<rparr>"
  obtain y where y: "y = None \<or> y = Some (int (card {x \<in> S. last (sb_ids ?b2) < x}))" and after:
      "keep_after after ids (if sb_ids b = [] then impossible else last (sb_ids b)) ?b2 = Inr (?b2\<lparr>sb_skippedAfter := y\<rparr>)"
  proof (cases after)
    case None
    have old_after: "\<forall>n. sb_skippedAfter ?b2 = Some n \<and> (if sb_ids b = [] then impossible else last (sb_ids b)) \<noteq> impossible \<longrightarrow>
        (if sb_ids b = [] then impossible else last (sb_ids b)) \<in> set (sb_ids ?b2) \<and>
        n = int (card {x \<in> S. (if sb_ids b = [] then impossible else last (sb_ids b)) < x})"
      using old(2) None ends(2) by (auto simp: b1(3))
    have "stretch S (sb_ids ?b2)" and "\<forall>n. after = Some n \<longrightarrow> last ids \<in> set (sb_ids ?b2) \<and> n = int (card {x \<in> S. last ids < x})"
      using st None by simp_all
    then show thesis
      using keep_after_ok [OF _ fin _ old_after] that by blast
  next
    case (Some n)
    let ?c = "?b2\<lparr>sb_skippedAfter := None\<rparr>"
    have "stretch S (sb_ids ?c)" and "\<forall>n. after = Some n \<longrightarrow> last ids \<in> set (sb_ids ?c) \<and> n = int (card {x \<in> S. last ids < x})"
      and "\<forall>n. sb_skippedAfter ?c = Some n \<and> impossible \<noteq> impossible \<longrightarrow>
        impossible \<in> set (sb_ids ?c) \<and> n = int (card {x \<in> S. impossible < x})"
      using st given(2) hd by simp_all
    from keep_after_ok [OF this(1) fin this(2,3)] obtain y where y: "y = None \<or> y = Some (int (card {x \<in> S. last (sb_ids ?c) < x}))"
      and "keep_after after ids impossible ?c = Inr (?c\<lparr>sb_skippedAfter := y\<rparr>)" by blast
    moreover have "keep_after after ids w ?b2 = keep_after after ids impossible ?c" for w
      by (auto simp: Some keep_after_def adjustSkippedAfter_def Let_def)
    ultimately have "keep_after after ids w ?b2 = Inr (?b2\<lparr>sb_skippedAfter := y\<rparr>)" for w
      by simp
    with y that show thesis by simp
  qed
  let ?b3 = "?b2\<lparr>sb_skippedAfter := y\<rparr>"
  have "window S ?b3"
    using near1 fin full1 x y by (auto simp: window_def b1(4))
  moreover have "usable ?b3" "sb_requests ?b3 = sb_requests b" "sb_key ?b3 = sb_key b"
    using b1 by (simp_all add: usable_def)
  moreover have same: "sb_ids (if count \<noteq> None then b\<lparr>sb_fullCount := count\<rparr> else b) = sb_ids b"
    by simp
  have "mergeSliceData count ids before after b = fillSkippedAndSliceToLimits ?b3"
    unfolding mergeSliceData_def if_not_P [OF ids] Let_def same b1_def [symmetric] before after bind_result_eval ..
  ultimately show ?thesis
    using fill_settle_ok by simp
qed

lemma mergeSliceData_ok:
  assumes w: "window S b" and u: "usable b" and m: "mergeable S count ids before after b"
  shows "\<exists>b'. mergeSliceData count ids before after b = Inr b' \<and> settled S b b'"
proof (cases "ids = []")
  case True
  have "window S (merge_count count b)"
    using window_merge_count [OF w] m by (simp add: mergeable_def)
  moreover have "usable (merge_count count b)" and "sb_requests (merge_count count b) = sb_requests b"
      and "sb_key (merge_count count b) = sb_key b"
    using u by (auto simp: merge_count_def usable_def split: option.splits)
  ultimately show ?thesis
    using True fill_settle_ok by (simp add: mergeSliceData_def)
next
  case False
  then show ?thesis
    using merge_messages_ok [OF False u] w m by (auto simp: window_def mergeable_def)
qed

section \<open>From the list to the window\<close>

definition honest_update :: "message_position set \<Rightarrow> message_position slice_update \<Rightarrow> bool" where
  "honest_update S u \<longleftrightarrow>
    (\<forall>c. up_count u = Some c \<longrightarrow> c = int (card S)) \<and>
    (\<forall>M. up_messages u = Some M \<longrightarrow> ordered M \<and> set M = S \<inter> {up_from u..up_till u})"

text \<open>An update of the list after a load tells what the server has.\<close>

lemma load_update:
  assumes agree: "list_agrees S l" and e: "honest MinMessagePosition MaxMessagePosition (Loaded ms from till count) S"
    and l': "list_react (Loaded ms from till count) l = Inr l'"
  shows "\<exists>u. ml_sliceUpdated l' = ml_sliceUpdated l @ [u] \<and> honest_update S u"
proof -
  have h: "from \<le> till" "set ms = S \<inter> {from..till}"
    using e by auto
  have "slices_agree S (ml_slices l)"
    using agree by (simp add: list_agrees_def)
  then obtain n s ss where u: "unite_or_emplace ms from till (ml_slices l) = Inr (n, s, ss)"
      and s: "s \<in> set ss" and ss: "slices_agree S ss"
    using agree_load h by blast
  have "slice_ok s"
    using ss s separated_ok by (auto simp: slices_agree_def)
  moreover have "set (sl_messages s) = S \<inter> {sl_from s..sl_till s}"
    by (rule slices_agree_slice [OF ss s])
  moreover have "list_agrees S l'"
    using list_react_agrees [OF agree e] l' by simp
  ultimately show ?thesis
    using l' h(1) u
    by (auto simp: addSlice_def addRange_def addRangeItemsAndCountNew_def Let_def honest_update_def slice_ok_def
        list_agrees_def)
qed

text \<open>Two meeting stretches leave no hole between them and the key.\<close>

lemma nearest_merge_new:
  assumes near: "nearest T p ids" and T: "T \<subseteq> S" "S - T \<subseteq> set M" and M: "ordered M" "set M = S \<inter> {from..till}"
    and backs: "from \<le> (if ids = [] then p else last ids)" and front: "(if ids = [] then p else hd ids) \<le> till"
  shows "nearest S p (fs_merge M ids)"
proof -
  have o: "ordered ids" and sub: "set ids \<subseteq> S"
    using near T(1) by (auto simp: nearest_def)
  have "x \<in> set M \<union> set ids" if x: "x \<in> S" and a: "a \<in> set M" and r: "(a \<le> x \<and> x < p) \<or> (p \<le> x \<and> x \<le> a)" for x a
  proof -
    have a': "from \<le> a" "a \<le> till"
      using a M(2) by auto
    show ?thesis
    proof (rule ccontr)
      assume no: "x \<notin> set M \<union> set ids"
      then have out: "x < from \<or> till < x" and xT: "x \<in> T"
        using x M(2) T(2) by auto
      show False
      proof (cases "a \<le> x \<and> x < p")
        case True
        then have "till < x"
          using out a' by (auto dest: order.trans)
        then have ids: "ids \<noteq> []" "hd ids \<le> x"
          using front True by (auto split: if_splits dest: order.strict_trans1)
        then show False
          using nearest_before [OF near xT hd_in_set] True no by auto
      next
        case False
        then have "p \<le> x" "x < from"
          using r out a' by (auto dest: order.strict_trans2)
        then have ids: "ids \<noteq> []" "x \<le> last ids"
          using backs by (auto split: if_splits dest: order.strict_trans2)
        then show False
          using nearest_after [OF near xT last_in_set] \<open>p \<le> x\<close> no by auto
      qed
    qed
  qed
  note merged = this
  have "x \<in> set M \<union> set ids" if "x \<in> S" "a \<in> set M \<union> set ids" "(a \<le> x \<and> x < p) \<or> (p \<le> x \<and> x \<le> a)" for x a
  proof (cases "x \<in> T")
    case True
    then show ?thesis
      using that merged [of x a] nearest_before [OF near True, of a] nearest_after [OF near True, of a] by blast
  qed (use that(1) T(2) in blast)
  moreover have "ordered (fs_merge M ids)" and "set (fs_merge M ids) \<subseteq> S"
    using o sub M(2) by auto
  ultimately show ?thesis
    unfolding nearest_def fs_merge_simps(1) by blast
qed

lemma nearest_merge:
  assumes "nearest S p ids" and "ordered M" "set M = S \<inter> {from..till}"
    and "from \<le> (if ids = [] then p else last ids)" and "(if ids = [] then p else hd ids) \<le> till"
  shows "nearest S p (fs_merge M ids)"
  by (rule nearest_merge_new [OF assms(1) order_refl _ assms(2-5)]) simp

lemma applyUpdate_ok:
  assumes w: "window S b" and u: "usable b" and h: "honest_update S x" and S: "S \<subseteq> {MinMessagePosition..MaxMessagePosition}"
  shows "\<exists>r b'. applyUpdate x b = Inr (r, b') \<and> (if r then settled S b b' else b' = b)"
proof -
  define need where "need = (up_messages x \<noteq> None \<and> up_from x \<le> (if sb_ids b = [] then sb_key b else last (sb_ids b)) \<and>
      (if sb_ids b = [] then sb_key b else hd (sb_ids b)) \<le> up_till x)"
  define M where "M = (if need then the (up_messages x) else [])"
  have near: "nearest S (sb_key b) (sb_ids b)"
    using w by (simp add: window_def)
  have "mergeable S (up_count x) M (if up_from x = MinMessagePosition then Some 0 else None)
      (if up_till x = MaxMessagePosition then Some 0 else None) b"
  proof (cases "M = []")
    case True
    then show ?thesis
      using h by (simp add: mergeable_def honest_update_def)
  next
    case False
    then have need: "need" and "up_messages x = Some M"
      by (auto simp: M_def need_def split: if_splits)
    then have M: "ordered M" "set M = S \<inter> {up_from x..up_till x}"
      using h by (auto simp: honest_update_def)
    have "nearest S (sb_key b) (fs_merge M (sb_ids b))"
      by (rule nearest_merge [OF near M]) (use need in \<open>simp_all add: need_def\<close>)
    moreover have "card {y \<in> S. y < hd M} = 0" if "up_from x = MinMessagePosition"
    proof -
      have "y \<in> set M" if "y \<in> S" "y < hd M" for y
        using that M(2) hd_in_set [OF False] S \<open>up_from x = MinMessagePosition\<close> by (auto dest: order.strict_trans2)
      moreover have "\<forall>y\<in>set M. hd M \<le> y"
        using M(1) False by (cases M) (auto intro: less_imp_le)
      ultimately have "{y \<in> S. y < hd M} = {}"
        by (auto dest: leD)
      then show ?thesis
        by (simp only: card.empty)
    qed
    moreover have "card {y \<in> S. last M < y} = 0" if "up_till x = MaxMessagePosition"
    proof -
      have "y \<in> set M" if "y \<in> S" "last M < y" for y
        using that M(2) last_in_set [OF False] S \<open>up_till x = MaxMessagePosition\<close> by (auto dest: order.strict_trans1)
      then have "{y \<in> S. last M < y} = {}"
        using ordered_last [OF M(1)] by (auto dest: leD)
      then show ?thesis
        by (simp only: card.empty)
    qed
    ultimately show ?thesis
      using h M(1) by (simp add: mergeable_def honest_update_def)
  qed
  then obtain b' where "mergeSliceData (up_count x) M (if up_from x = MinMessagePosition then Some 0 else None)
      (if up_till x = MaxMessagePosition then Some 0 else None) b = Inr b'" and "settled S b b'"
    using mergeSliceData_ok [OF w u] by blast
  moreover have "applyUpdate x b = (if \<not> need \<and> up_count x = None then Inr (False, b)
      else bind_result (mergeSliceData (up_count x) M (if up_from x = MinMessagePosition then Some 0 else None)
        (if up_till x = MaxMessagePosition then Some 0 else None) b) (\<lambda>b. Inr (True, b)))"
    unfolding applyUpdate_def Let_def need_def [symmetric] M_def ..
  ultimately show ?thesis
    by (cases "\<not> need \<and> up_count x = None") auto
qed

text \<open>A query's skipped counts are relative to the key; here they are relative to the ends.\<close>

lemma rank_of_key:
  assumes near: "nearest S p ids" and fin: "finite S" and ne: "ids \<noteq> []"
  shows "card {x \<in> S. x < p} = card {x \<in> S. x < hd ids} + length (filter (\<lambda>x. x < p) ids)"
    and "card {x \<in> S. p \<le> x} = card {x \<in> S. last ids < x} + length (filter (\<lambda>x. p \<le> x) ids)"
proof -
  have o: "ordered ids" and sub: "set ids \<subseteq> S"
    using near by (simp_all add: nearest_def)
  have ends: "\<forall>x\<in>set ids. hd ids \<le> x \<and> x \<le> last ids"
    using o ordered_last [OF o] by (cases ids) (auto intro: less_imp_le)
  have o': "ordered (filter P ids)" for P
    using o by (rule sorted_wrt_filter)
  have "{x \<in> S. x < p} = {x \<in> S. x < hd ids \<and> x < p} \<union> set (filter (\<lambda>x. x < p) ids)"
    using sub nearest_before [OF near _ hd_in_set [OF ne]] by (auto simp: not_le [symmetric])
  moreover have "x < p" if "x \<in> S" "x < hd ids" for x
  proof (rule ccontr)
    assume "\<not> x < p"
    then have "x \<in> set ids"
      using that nearest_after [OF near that(1) hd_in_set [OF ne]] by (auto simp: not_less)
    then show False
      using that(2) ends by (auto dest: leD)
  qed
  then have "{x \<in> S. x < hd ids \<and> x < p} = {x \<in> S. x < hd ids}"
    by auto
  moreover have "{x \<in> S. x < hd ids} \<inter> set (filter (\<lambda>x. x < p) ids) = {}"
    using ends by (auto dest: leD)
  ultimately show "card {x \<in> S. x < p} = card {x \<in> S. x < hd ids} + length (filter (\<lambda>x. x < p) ids)"
    using fin by (simp add: card_Un_disjoint ordered_length [OF o'] del: set_filter)
  have "{x \<in> S. p \<le> x} = {x \<in> S. last ids < x \<and> p \<le> x} \<union> set (filter (\<lambda>x. p \<le> x) ids)"
    using sub nearest_after [OF near _ last_in_set [OF ne]] by (auto simp: not_le [symmetric])
  moreover have "p \<le> x" if "x \<in> S" "last ids < x" for x
  proof (rule ccontr)
    assume "\<not> p \<le> x"
    then have "x \<in> set ids"
      using that nearest_before [OF near that(1) last_in_set [OF ne]] by (auto simp: not_le)
    then show False
      using that(2) ends by (auto dest: leD)
  qed
  then have "{x \<in> S. last ids < x \<and> p \<le> x} = {x \<in> S. last ids < x}"
    by auto
  moreover have "{x \<in> S. last ids < x} \<inter> set (filter (\<lambda>x. p \<le> x) ids) = {}"
    using ends by (auto dest: leD)
  ultimately show "card {x \<in> S. p \<le> x} = card {x \<in> S. last ids < x} + length (filter (\<lambda>x. p \<le> x) ids)"
    using fin by (simp add: card_Un_disjoint ordered_length [OF o'] del: set_filter)
qed

lemma query_answer:
  assumes agree: "list_agrees S l" and q: "queryCurrent q l = Inr r" and "0 \<le> mq_limitBefore q" and "0 \<le> mq_limitAfter q"
  shows "nearest S (mq_aroundId q) (mr_ids r) \<and> counts_match S (mq_aroundId q) r \<and>
    (\<forall>c. mr_count r = Some c \<longrightarrow> c = int (card S))"
proof -
  have sl: "slices_agree S (ml_slices l)" and sep: "separated (ml_slices l)" and fin: "finite S"
    and bounds: "S \<subseteq> {MinMessagePosition..MaxMessagePosition}"
    and c: "\<forall>c. ml_count l = Some c \<longrightarrow> c = int (card S)"
    using agree by (simp_all add: list_agrees_def slices_agree_def)
  show ?thesis
  proof (cases "names_message (mq_aroundId q) \<and> slice_index (ml_slices l) (mq_aroundId q) \<noteq> None")
    case False
    then have "r = no_result"
      using q by (auto simp: queryCurrent_def split: if_splits)
    then show ?thesis
      by (simp add: no_result_def nearest_def counts_match_def)
  next
    case True
    then obtain i where i: "slice_index (ml_slices l) (mq_aroundId q) = Some i"
      by blast
    let ?s = "ml_slices l ! i"
    have mem: "?s \<in> set (ml_slices l)" and p: "sl_from ?s \<le> mq_aroundId q" "mq_aroundId q \<le> sl_till ?s"
      using slice_index_split [OF sep i] by auto
    then show ?thesis
      using query_from_slice_ok [OF separated_ok [OF sep mem] slices_agree_slice [OF sl mem] p assms(3,4) fin bounds c]
        q True i c by (auto simp: queryCurrent_def)
  qed
qed

text \<open>
  The window built from a query of the list is a stretch of the server's messages
  around the key with the right skipped counts, within the limits; when it asks for
  nothing it holds all the messages the limits allow.
\<close>

lemma window_from_query:
  assumes "list_agrees S l" and "names_message key" and "0 \<le> before" and "0 \<le> after"
    and "queryCurrent \<lparr>mq_aroundId = key, mq_limitBefore = before, mq_limitAfter = after\<rparr> l = Inr r"
  shows "\<exists>b. applyInitial r (MessagesSliceBuilder key before after) = Inr b \<and> window S b \<and> usable b \<and>
    (sb_ids b \<noteq> [] \<and> sb_requests b = [] \<longrightarrow> complete S b)"
proof -
  let ?b = "MessagesSliceBuilder key before after"
  have fin: "finite S" using assms(1) by (simp add: list_agrees_def)
  have r: "nearest S key (mr_ids r)" "counts_match S key r" "\<forall>c. mr_count r = Some c \<longrightarrow> c = int (card S)"
    using query_answer [OF assms(1,5)] assms(3,4) by simp_all
  have b: "window S ?b" "usable ?b" "sb_requests ?b = []" "sb_ids ?b = []" "sb_key ?b = key"
    using fin assms(2-4) by (simp_all add: MessagesSliceBuilder_def window_def usable_def nearest_def)
  have o: "ordered (mr_ids r)"
    using r(1) by (simp add: nearest_def)
  have "mergeable S (mr_count r) (mr_ids r) (mr_skippedBefore r) (mr_skippedAfter r) ?b"
    unfolding mergeable_def b(4,5) fs_merge_ordered [OF o]
    using r o rank_of_key [OF r(1) fin] by (auto simp: counts_match_def)
  then obtain b' where "mergeSliceData (mr_count r) (mr_ids r) (mr_skippedBefore r) (mr_skippedAfter r) ?b = Inr b'"
      and "settled S ?b b'"
    using mergeSliceData_ok [OF b(1,2)] by blast
  then show ?thesis
    using b(3) by (simp add: applyInitial_def settled_def)
qed

section \<open>The window over time\<close>

text \<open>A new message at the end, told with the list's update that covers it up to the end and
  reaches the window: the window had every message but this one.\<close>

lemma applyUpdate_new:
  assumes w: "window S b" and u: "usable b" and new: "\<forall>x\<in>S. x < m" and h: "honest_update (insert m S) x"
    and bounds: "insert m S \<subseteq> {MinMessagePosition..MaxMessagePosition}"
    and told: "up_messages x \<noteq> None" "up_from x \<le> m" "up_till x = MaxMessagePosition"
      "up_from x \<le> (if sb_ids b = [] then sb_key b else last (sb_ids b))"
      "(if sb_ids b = [] then sb_key b else hd (sb_ids b)) \<le> up_till x"
    and counted: "sb_fullCount b \<noteq> None \<Longrightarrow> up_count x \<noteq> None"
  shows "\<exists>b'. applyUpdate x b = Inr (True, b') \<and> settled (insert m S) b b'"
proof -
  obtain M where "up_messages x = Some M" using told(1) by blast
  with h have M: "up_messages x = Some M" "ordered M" "set M = insert m S \<inter> {up_from x..up_till x}"
    and c: "\<forall>c. up_count x = Some c \<longrightarrow> c = int (card (insert m S))"
    by (auto simp: honest_update_def)
  have fin: "finite S" and near: "nearest S (sb_key b) (sb_ids b)" using w by (simp_all add: window_def)
  have m: "m \<in> set M" using M(3) told(2,3) bounds by simp
  then have ne: "M \<noteq> []" by auto
  have near': "nearest (insert m S) (sb_key b) (fs_merge M (sb_ids b))"
    by (rule nearest_merge_new [OF near _ _ M(2,3) told(4,5)]) (use m in auto)
  have first: "n = int (card {y \<in> insert m S. y < hd M})" if "(if up_from x = MinMessagePosition then Some 0 else None) = Some n" for n
  proof -
    have "\<not> y < hd M" if "y \<in> insert m S" for y
    proof
      assume "y < hd M"
      moreover have "up_from x \<le> y"
        using that bounds \<open>(if up_from x = MinMessagePosition then Some 0 else None) = Some n\<close> by (auto split: if_splits)
      moreover have "y \<le> up_till x" using that bounds told(3) by auto
      ultimately have "y \<in> set M" using that M(3) by auto
      then have "hd M \<le> y" using M(2) by (cases M) (auto intro: less_imp_le)
      with \<open>y < hd M\<close> show False by simp
    qed
    then have "{y \<in> insert m S. y < hd M} = {}" by blast
    then have "card {y \<in> insert m S. y < hd M} = 0" by (simp only: card.empty)
    then show ?thesis using that by (simp only: split: if_splits) simp_all
  qed
  have none: "{y \<in> insert m S. last M < y} = {}"
  proof -
    have "m \<le> last M" using m ordered_last [OF M(2)] by blast
    then show ?thesis using new by (auto dest: order.strict_trans)
  qed
  have full: "\<forall>c. (if up_count x \<noteq> None then up_count x else sb_fullCount b) = Some c \<longrightarrow> c = int (card (insert m S))"
    using c counted by auto
  have old: "\<forall>n. sb_skippedBefore b = Some n \<longrightarrow> n = int (card {y \<in> insert m S. y < hd (sb_ids b)})"
    if "sb_ids b \<noteq> []"
  proof -
    have "hd (sb_ids b) \<in> S" using near that hd_in_set by (auto simp: nearest_def)
    then have "{y \<in> insert m S. y < hd (sb_ids b)} = {y \<in> S. y < hd (sb_ids b)}"
      using new by (auto dest: order.strict_trans)
    then show ?thesis using w that by (simp add: window_def)
  qed
  have last: "\<forall>n. (if up_till x = MaxMessagePosition then Some 0 else None) = Some n
      \<longrightarrow> n = int (card {y \<in> insert m S. last M < y})"
    unfolding none using told(3) by simp
  have "\<exists>b'. mergeSliceData (up_count x) M (if up_from x = MinMessagePosition then Some 0 else None)
      (if up_till x = MaxMessagePosition then Some 0 else None) b = Inr b' \<and> settled (insert m S) b b'"
    by (rule merge_messages_ok [OF ne u _ near' full _ last old]) (use fin first told(3) in auto)
  then obtain b' where "mergeSliceData (up_count x) M (if up_from x = MinMessagePosition then Some 0 else None)
      (if up_till x = MaxMessagePosition then Some 0 else None) b = Inr b'" "settled (insert m S) b b'" by blast
  moreover have "applyUpdate x b = bind_result (mergeSliceData (up_count x) M
      (if up_from x = MinMessagePosition then Some 0 else None)
      (if up_till x = MaxMessagePosition then Some 0 else None) b) (\<lambda>b. Inr (True, b))"
    using M(1) told(4,5) by (simp add: applyUpdate_def Let_def)
  ultimately show ?thesis by simp
qed

text \<open>A message that the server deleted leaves the window.\<close>

lemma window_remove:
  assumes w: "window S b" and m: "m \<in> S"
  shows "window (S - {m}) (snd (builder_removeOne m b))"
proof -
  let ?S = "S - {m}"
  let ?ids = "remove1 m (sb_ids b)"
  let ?full = "map_option (\<lambda>c. c - 1) (sb_fullCount b)"
  have fin: "finite S" and near: "nearest S (sb_key b) (sb_ids b)"
    and full: "\<forall>c. sb_fullCount b = Some c \<longrightarrow> c = int (card S)" using w by (simp_all add: window_def)
  have o: "ordered (sb_ids b)" and sub: "set (sb_ids b) \<subseteq> S" using near by (simp_all add: nearest_def)
  have st: "stretch S (sb_ids b)" by (rule nearest_stretch [OF near])
  have dist: "distinct (sb_ids b)" using o by (simp add: strict_sorted_iff)
  have ids: "set ?ids = set (sb_ids b) - {m}" using dist by (simp add: set_remove1_eq)
  have ends: "\<forall>x\<in>set (sb_ids b). hd (sb_ids b) \<le> x \<and> x \<le> last (sb_ids b)"
    using o ordered_last [OF o] by (cases "sb_ids b") (auto intro: less_imp_le)
  have o': "ordered ?ids" using o dist
    by (simp add: distinct_remove1_removeAll removeAll_filter_not_eq sorted_wrt_filter)
  have ends': "\<forall>x\<in>set ?ids. hd ?ids \<le> x \<and> x \<le> last ?ids"
    using o' ordered_last [OF o'] by (cases ?ids) (auto intro: less_imp_le)
  have near': "nearest ?S (sb_key b) ?ids"
    unfolding nearest_def
  proof (intro conjI ballI impI)
    show "set ?ids \<subseteq> ?S" using sub ids by auto
    fix x a assume x: "x \<in> ?S" and a: "a \<in> set ?ids" and r: "a \<le> x \<and> x < sb_key b \<or> sb_key b \<le> x \<and> x \<le> a"
    have "a \<in> set (sb_ids b)" using a ids by simp
    then have "x \<in> set (sb_ids b)" using near x r unfolding nearest_def by blast
    then show "x \<in> set ?ids" using x ids by simp
  qed (rule o')
  have pos: "0 < card S" using m fin card_gt_0_iff by blast
  have card: "card ?S = card S - 1" using m fin by simp
  have full': "\<forall>c. ?full = Some c \<longrightarrow> c = int (card ?S)"
    using full pos by (auto simp: card of_nat_diff)
  define b1 where "b1 = b\<lparr>sb_fullCount := ?full\<rparr>"
  have b1: "(case sb_fullCount b of Some c \<Rightarrow> if c > 0 then (True, b\<lparr>sb_fullCount := Some (c - 1)\<rparr>) else (False, b)
      | None \<Rightarrow> (False, b)) = (sb_fullCount b \<noteq> None, b1)"
    using full pos by (cases "sb_fullCount b") (simp_all add: b1_def)
  have f1: "sb_ids b1 = sb_ids b" "sb_key b1 = sb_key b" "sb_fullCount b1 = ?full"
    "sb_skippedBefore b1 = sb_skippedBefore b" "sb_skippedAfter b1 = sb_skippedAfter b"
    by (simp_all add: b1_def)
  consider (inside) "m \<in> set (sb_ids b)" | (empty) "sb_ids b = []"
    | (outside) "m \<notin> set (sb_ids b)" "sb_ids b \<noteq> []" by blast
  then show ?thesis
  proof cases
    case inside
    have res: "snd (builder_removeOne m b) = b1\<lparr>sb_ids := ?ids\<rparr>"
      using inside by (simp add: builder_removeOne_def b1 f1)
    have "{x \<in> ?S. x < hd ?ids} = {x \<in> S. x < hd (sb_ids b)}"
      and "{x \<in> ?S. last ?ids < x} = {x \<in> S. last (sb_ids b) < x}" if ne: "?ids \<noteq> []"
    proof -
      have h: "hd ?ids \<in> set (sb_ids b)" "last ?ids \<in> set (sb_ids b)" "hd ?ids \<noteq> m" "last ?ids \<noteq> m"
        using hd_in_set [OF ne] last_in_set [OF ne] ids by auto
      have ne': "sb_ids b \<noteq> []" using inside by auto
      have mid: "x \<in> set ?ids" if "x \<in> S" "x \<noteq> m" "hd (sb_ids b) \<le> x" "x \<le> last (sb_ids b)" for x
      proof -
        have "x \<in> set (sb_ids b)"
          using st that(1,3,4) hd_in_set [OF ne'] last_in_set [OF ne'] unfolding stretch_def by blast
        then show ?thesis using that(2) ids by simp
      qed
      show "{x \<in> ?S. x < hd ?ids} = {x \<in> S. x < hd (sb_ids b)}"
      proof (intro set_eqI iffI)
        fix x assume x: "x \<in> {x \<in> ?S. x < hd ?ids}"
        then have "x < last (sb_ids b)" using ends h(1) by (auto dest: order.strict_trans2)
        then have "\<not> hd (sb_ids b) \<le> x" using mid [of x] ends' x by (auto dest: leD)
        then show "x \<in> {x \<in> S. x < hd (sb_ids b)}" using x by auto
      next
        fix x assume x: "x \<in> {x \<in> S. x < hd (sb_ids b)}"
        then show "x \<in> {x \<in> ?S. x < hd ?ids}" using ends h(1) inside by (auto dest: order.strict_trans2 leD)
      qed
      show "{x \<in> ?S. last ?ids < x} = {x \<in> S. last (sb_ids b) < x}"
      proof (intro set_eqI iffI)
        fix x assume x: "x \<in> {x \<in> ?S. last ?ids < x}"
        then have "hd (sb_ids b) < x" using ends h(2) by (auto dest: order.strict_trans1)
        then have "\<not> x \<le> last (sb_ids b)" using mid [of x] ends' x by (auto dest: leD)
        then show "x \<in> {x \<in> S. last (sb_ids b) < x}" using x by auto
      next
        fix x assume x: "x \<in> {x \<in> S. last (sb_ids b) < x}"
        then show "x \<in> {x \<in> ?S. last ?ids < x}" using ends h(2) inside by (auto dest: order.strict_trans1 leD)
      qed
    qed
    moreover have "sb_ids b \<noteq> []" using inside by auto
    ultimately show ?thesis
      using w near' full' fin unfolding res window_def by (simp add: f1)
  next
    case empty
    then have res: "snd (builder_removeOne m b) = b1" by (simp add: builder_removeOne_def b1 f1)
    show ?thesis
      using near' full' fin empty unfolding res window_def by (simp add: f1)
  next
    case outside
    have ids_same: "?ids = sb_ids b" using outside(1) by (simp add: remove1_idem)
    have counts: "\<forall>n. sb_skippedBefore b = Some n \<longrightarrow> n = int (card {x \<in> S. x < hd (sb_ids b)})"
      "\<forall>n. sb_skippedAfter b = Some n \<longrightarrow> n = int (card {x \<in> S. last (sb_ids b) < x})"
      using w outside(2) by (simp_all add: window_def)
    have le: "hd (sb_ids b) \<le> last (sb_ids b)" using ends hd_in_set [OF outside(2)] by blast
    have "m < hd (sb_ids b) \<or> last (sb_ids b) < m"
      using st m outside hd_in_set [OF outside(2)] last_in_set [OF outside(2)]
      unfolding stretch_def by (meson linorder_not_le)
    then consider (before) "m < hd (sb_ids b)" | (after) "last (sb_ids b) < m" by blast
    then show ?thesis
    proof cases
      case before
      have eq: "{x \<in> ?S. x < hd (sb_ids b)} = {x \<in> S. x < hd (sb_ids b)} - {m}"
        "{x \<in> ?S. last (sb_ids b) < x} = {x \<in> S. last (sb_ids b) < x}"
        using before le by (auto dest: leD)
      have one: "0 < card {x \<in> S. x < hd (sb_ids b)}" using before m fin by (auto simp: card_gt_0_iff)
      have c: "int (card {x \<in> ?S. x < hd (sb_ids b)}) = int (card {x \<in> S. x < hd (sb_ids b)}) - 1"
        unfolding eq using before m fin one by (simp add: of_nat_diff)
      have res: "snd (builder_removeOne m b) = b1\<lparr>sb_skippedBefore := map_option (\<lambda>n. n - 1) (sb_skippedBefore b)\<rparr>"
      proof (cases "sb_skippedBefore b")
        case None
        have "\<not> last (sb_ids b) < m" using before le by (auto dest: leD)
        then show ?thesis
          using None outside before by (simp add: builder_removeOne_def b1 f1)
      next
        case (Some n)
        then have "n > 0" using counts(1) one by simp
        then show ?thesis
          using Some outside before by (simp add: builder_removeOne_def b1 f1)
      qed
      have bf: "\<forall>n. map_option (\<lambda>n. n - 1) (sb_skippedBefore b) = Some n \<longrightarrow> n = int (card {x \<in> ?S. x < hd (sb_ids b)})"
        unfolding c using counts(1) by auto
      have af: "\<forall>n. sb_skippedAfter b = Some n \<longrightarrow> n = int (card {x \<in> ?S. last (sb_ids b) < x})"
        unfolding eq(2) using counts(2) by simp
      show ?thesis
        using near' full' fin bf af unfolding res window_def ids_same by (simp add: f1)
    next
      case after
      have eq: "{x \<in> ?S. last (sb_ids b) < x} = {x \<in> S. last (sb_ids b) < x} - {m}"
        "{x \<in> ?S. x < hd (sb_ids b)} = {x \<in> S. x < hd (sb_ids b)}"
        using after le by (auto dest: leD)
      have one: "0 < card {x \<in> S. last (sb_ids b) < x}" using after m fin by (auto simp: card_gt_0_iff)
      have c: "int (card {x \<in> ?S. last (sb_ids b) < x}) = int (card {x \<in> S. last (sb_ids b) < x}) - 1"
        unfolding eq using after m fin one by (simp add: of_nat_diff)
      have nb: "\<not> m < hd (sb_ids b)" using after le by (auto dest: leD)
      have res: "snd (builder_removeOne m b) = b1\<lparr>sb_skippedAfter := map_option (\<lambda>n. n - 1) (sb_skippedAfter b)\<rparr>"
      proof (cases "sb_skippedAfter b")
        case None
        then show ?thesis
          using outside nb by (simp add: builder_removeOne_def b1 f1 b1_def)
      next
        case (Some n)
        then have "n > 0" using counts(2) one by simp
        then show ?thesis
          using Some outside after nb by (simp add: builder_removeOne_def b1 f1)
      qed
      have af: "\<forall>n. map_option (\<lambda>n. n - 1) (sb_skippedAfter b) = Some n \<longrightarrow> n = int (card {x \<in> ?S. last (sb_ids b) < x})"
        unfolding c using counts(2) by auto
      have bf: "\<forall>n. sb_skippedBefore b = Some n \<longrightarrow> n = int (card {x \<in> ?S. x < hd (sb_ids b)})"
        unfolding eq(2) using counts(1) by simp
      show ?thesis
        using near' full' fin bf af unfolding res window_def ids_same by (simp add: f1)
    qed
  qed
qed

text \<open>
  What a view hears after its window was built: an update of the list, an update that brings
  a new last message, a deletion, that all messages are gone, that the list forgot its
  end or everything.
\<close>

datatype window_event =
    Told "message_position slice_update"
  | Joined message_position "message_position slice_update"
  | Removed message_position
  | AllRemoved
  | BottomLost
  | AllLost

fun window_react :: "window_event \<Rightarrow> slice_builder \<Rightarrow> slice_builder result" where
  "window_react (Told u) b = bind_result (applyUpdate u b) (\<lambda>(r, b). Inr b)"
| "window_react (Joined m u) b = bind_result (applyUpdate u b) (\<lambda>(r, b). Inr b)"
| "window_react (Removed m) b = Inr (snd (builder_removeOne m b))"
| "window_react AllRemoved b = Inr (builder_removeAll b)"
| "window_react BottomLost b = bottomInvalidated b"
| "window_react AllLost b = builder_invalidated b"

text \<open>The messages on the server after an event.\<close>

fun server_then :: "window_event \<Rightarrow> message_position set \<Rightarrow> message_position set" where
  "server_then (Joined m u) S = insert m S"
| "server_then (Removed m) S = S - {m}"
| "server_then AllRemoved S = {}"
| "server_then _ S = S"

fun server_at_end :: "window_event list \<Rightarrow> message_position set \<Rightarrow> message_position set" where
  "server_at_end [] S = S"
| "server_at_end (e # es) S = server_at_end es (server_then e S)"

fun window_run :: "window_event list \<Rightarrow> slice_builder \<Rightarrow> slice_builder result" where
  "window_run [] b = Inr b"
| "window_run (e # es) b = bind_result (window_react e b) (window_run es)"

text \<open>An event tells the truth. A new message joins the window when the update reaches it, up to
  the end of the chat, and knows the count if the window does.\<close>

fun true_event :: "window_event \<Rightarrow> message_position set \<Rightarrow> slice_builder \<Rightarrow> bool" where
  "true_event (Told u) S b \<longleftrightarrow> honest_update S u"
| "true_event (Joined m u) S b \<longleftrightarrow>
     honest_update (insert m S) u \<and> (\<forall>x\<in>S. x < m) \<and> MinMessagePosition \<le> m \<and> m \<le> MaxMessagePosition
     \<and> up_messages u \<noteq> None \<and> up_from u \<le> m \<and> up_till u = MaxMessagePosition
     \<and> up_from u \<le> (if sb_ids b = [] then sb_key b else last (sb_ids b))
     \<and> (if sb_ids b = [] then sb_key b else hd (sb_ids b)) \<le> up_till u
     \<and> (sb_fullCount b \<noteq> None \<longrightarrow> up_count u \<noteq> None)"
| "true_event (Removed m) S b \<longleftrightarrow> m \<in> S"
| "true_event _ S b \<longleftrightarrow> True"

fun true_events :: "window_event list \<Rightarrow> message_position set \<Rightarrow> slice_builder \<Rightarrow> bool" where
  "true_events [] S b \<longleftrightarrow> True"
| "true_events (e # es) S b \<longleftrightarrow>
     true_event e S b \<and> (\<forall>b'. window_react e b = Inr b' \<longrightarrow> true_events es (server_then e S) b')"

lemma window_react_ok:
  assumes w: "window S b" and u: "usable b" and S: "S \<subseteq> {MinMessagePosition..MaxMessagePosition}"
    and e: "true_event e S b"
  shows "server_then e S \<subseteq> {MinMessagePosition..MaxMessagePosition}"
    and "\<exists>b'. window_react e b = Inr b' \<and> window (server_then e S) b' \<and> usable b'"
proof -
  show "server_then e S \<subseteq> {MinMessagePosition..MaxMessagePosition}" using S e by (cases e) auto
  have lost: "\<exists>b2. sliceToLimits b1 = Inr b2 \<and> window S b2 \<and> usable b2"
    if "window S b1" "usable b1" for b1
    using sliceToLimits_ok [OF that] that(2) by (auto simp: same_view_def usable_def)
  show "\<exists>b'. window_react e b = Inr b' \<and> window (server_then e S) b' \<and> usable b'"
  proof (cases e)
    case (Told x)
    then have "honest_update S x" using e by simp
    from applyUpdate_ok [OF w u this S] obtain r b'
      where r: "applyUpdate x b = Inr (r, b')" "if r then settled S b b' else b' = b" by blast
    have "window S b' \<and> usable b'"
    proof (cases r)
      case False
      then have "b' = b" using r(2) by simp
      then show ?thesis using w u by simp
    qed (use r(2) in \<open>simp add: settled_def\<close>)
    then show ?thesis using Told r(1) by simp
  next
    case (Joined m x)
    then have "\<exists>b'. applyUpdate x b = Inr (True, b') \<and> settled (insert m S) b b'"
      using e S by (intro applyUpdate_new [OF w u]) auto
    then show ?thesis using Joined by (auto simp: settled_def)
  next
    case (Removed m)
    moreover have "usable (snd (builder_removeOne m b))"
      using u by (auto simp: builder_removeOne_def usable_def Let_def split: option.split)
    ultimately show ?thesis using window_remove [OF w] e by simp
  next
    case AllRemoved
    have "window {} (builder_removeAll b)" and "usable (builder_removeAll b)"
      using u by (simp_all add: window_def builder_removeAll_def nearest_def usable_def)
    then show ?thesis using AllRemoved by simp
  next
    case BottomLost
    have "window S (b\<lparr>sb_fullCount := None, sb_skippedAfter := None\<rparr>)"
      and "usable (b\<lparr>sb_fullCount := None, sb_skippedAfter := None\<rparr>)"
      using w u by (simp_all add: window_def usable_def)
    then show ?thesis using BottomLost lost by (simp add: bottomInvalidated_def)
  next
    case AllLost
    let ?b = "b\<lparr>sb_fullCount := None, sb_skippedBefore := None, sb_skippedAfter := None, sb_ids := []\<rparr>"
    have "window S ?b" and "usable ?b"
      using w u by (simp_all add: window_def usable_def nearest_def)
    then show ?thesis using AllLost lost by (simp add: builder_invalidated_def)
  qed
qed

lemma window_run_ok:
  assumes "window S b" and "usable b" and "S \<subseteq> {MinMessagePosition..MaxMessagePosition}" and "true_events es S b"
  shows "server_at_end es S \<subseteq> {MinMessagePosition..MaxMessagePosition}
    \<and> (\<exists>b'. window_run es b = Inr b' \<and> window (server_at_end es S) b' \<and> usable b')"
  using assms
proof (induction es arbitrary: S b)
  case (Cons e es)
  from Cons.prems(4) have e: "true_event e S b" by simp
  obtain b1 where b1: "window_react e b = Inr b1" "window (server_then e S) b1" "usable b1"
    using window_react_ok(2) [OF Cons.prems(1-3) e] by blast
  moreover have "true_events es (server_then e S) b1" using Cons.prems(4) b1(1) by simp
  ultimately show ?case
    using Cons.IH [OF b1(2,3) window_react_ok(1) [OF Cons.prems(1-3) e]] by simp
qed simp

text \<open>
  C16: A window built from a query of the list follows the server. After any sequence of honest
  updates of the list, new last messages that reach the window, deletions, and losses of what the list
  knew, no \<open>Assert\<close> failed, the window is a stretch without holes of the
  server's messages around its key, its full count, when it shows one, is the server's,
  and so are its skipped counts while it holds a message. When
  a further honest update is taken and the window then asks for nothing, it holds all the
  messages that the limits allow. Removals are told before updates that count them; a new message that
  does not reach the window is not part of the sequence, as the code then leaves the
  skipped count after the window as it was.
\<close>

theorem window_follows_events:
  assumes "list_agrees S l" and "names_message key" and "0 \<le> before" and "0 \<le> after"
    and "queryCurrent \<lparr>mq_aroundId = key, mq_limitBefore = before, mq_limitAfter = after\<rparr> l = Inr q"
    and "\<And>b. applyInitial q (MessagesSliceBuilder key before after) = Inr b \<Longrightarrow> true_events es S b"
  shows "\<exists>b b'. applyInitial q (MessagesSliceBuilder key before after) = Inr b \<and> window_run es b = Inr b'
    \<and> window (server_at_end es S) b'
    \<and> (\<forall>u. honest_update (server_at_end es S) u \<longrightarrow>
        (\<exists>r b''. applyUpdate u b' = Inr (r, b'') \<and>
          (r \<and> sb_ids b'' \<noteq> [] \<and> length (sb_requests b'') = length (sb_requests b') \<longrightarrow>
            complete (server_at_end es S) b'')))"
proof -
  obtain b where b: "applyInitial q (MessagesSliceBuilder key before after) = Inr b" "window S b" "usable b"
    using window_from_query [OF assms(1-5)] by blast
  have S: "S \<subseteq> {MinMessagePosition..MaxMessagePosition}" using assms(1) by (simp add: list_agrees_def)
  let ?S = "server_at_end es S"
  from window_run_ok [OF b(2,3) S assms(6) [OF b(1)]] obtain b'
    where S': "?S \<subseteq> {MinMessagePosition..MaxMessagePosition}"
      and b': "window_run es b = Inr b'" "window ?S b'" "usable b'" by blast
  have "\<exists>r b''. applyUpdate u b' = Inr (r, b'') \<and>
      (r \<and> sb_ids b'' \<noteq> [] \<and> length (sb_requests b'') = length (sb_requests b') \<longrightarrow> complete ?S b'')"
    if "honest_update ?S u" for u
  proof -
    from applyUpdate_ok [OF b'(2,3) that S'] obtain r b''
      where r: "applyUpdate u b' = Inr (r, b'')" "if r then settled ?S b' b'' else b'' = b'" by blast
    then have "r \<Longrightarrow> settled ?S b' b''" by simp
    then show ?thesis using r(1) unfolding settled_def by blast
  qed
  then show ?thesis using b b' by blast
qed

section \<open>Witnesses\<close>

definition sample_window :: slice_builder where
  "sample_window = MessagesSliceBuilder (sample_position 5) 1 1"

lemma sample_list_agrees: "list_agrees sample_server empty_messages_list"
  by (rule empty_agrees [OF sample_server_ok])

definition sample_told :: "message_position slice_update" where
  "sample_told = \<lparr>up_messages = Some [sample_position 5], up_from = sample_position 4, up_till = sample_position 6,
    up_count = Some 2\<rparr>"

text \<open>A window that is told of its message and then loses it.\<close>

theorem window_follows_events_witness:
  "\<exists>b b'. applyInitial no_result sample_window = Inr b
    \<and> window_run [Told sample_told, Removed (sample_position 5)] b = Inr b'
    \<and> window (sample_server - {sample_position 5}) b'"
proof -
  have q: "queryCurrent \<lparr>mq_aroundId = sample_position 5, mq_limitBefore = 1, mq_limitAfter = 1\<rparr> empty_messages_list =
      Inr no_result"
    by (simp add: queryCurrent_def empty_messages_list_def slice_index_def lower_till_def)
  have key: "names_message (sample_position 5)" by (simp add: names_message_def sample_position_def)
  have "honest_update sample_server sample_told"
    by (auto simp: honest_update_def sample_told_def sample_server_def)
  moreover have "sample_position 5 \<in> sample_server" by (simp add: sample_server_def)
  ultimately have "true_events [Told sample_told, Removed (sample_position 5)] sample_server b" for b by simp
  from window_follows_events [OF sample_list_agrees key _ _ q this] show ?thesis
    unfolding sample_window_def by auto
qed

end
