(* ===== verification/Sparse_Ids.thy ===== *)
theory Sparse_Ids
  imports Messages_List
begin

text \<open>
  The sparse lists of ids behind shared media and pinned messages,
  \<open>storage/storage_sparse_ids_list.cpp\<close>: the slices of \<open>Slices\<close> over message ids,
  with a count that may show that everything is loaded.
\<close>

section \<open>Slices of ids\<close>

type_synonym msg_id = int

definition sparse_merge :: "msg_id list \<Rightarrow> msg_id \<Rightarrow> msg_id \<Rightarrow> msg_id slice \<Rightarrow> msg_id slice result" where
  "sparse_merge moreMessages moreFrom moreTill s =
    (if \<not> moreFrom \<le> sl_till s then Inl (Abort ''Expects'')
     else if \<not> sl_from s \<le> moreTill then Inl (Abort ''Expects'')
     else
       let ms = (case moreMessages of
                   [] \<Rightarrow> sl_messages s
                 | [m] \<Rightarrow> insort_insert m (sl_messages s)
                 | _ \<Rightarrow> fs_merge moreMessages (sl_messages s))
       in Inr \<lparr>sl_messages = ms, sl_from = min (sl_from s) moreFrom, sl_till = max (sl_till s) moreTill\<rparr>)"

fun sparse_merge_all :: "msg_id slice list \<Rightarrow> msg_id slice \<Rightarrow> msg_id slice result" where
  "sparse_merge_all [] s = Inr s"
| "sparse_merge_all (it # its) s =
     bind_result (sparse_merge (sl_messages it) (sl_from it) (sl_till it) s) (sparse_merge_all its)"

definition sparse_uniteAndAdd ::
  "nat \<Rightarrow> nat \<Rightarrow> msg_id list \<Rightarrow> msg_id \<Rightarrow> msg_id \<Rightarrow> msg_id slice list
    \<Rightarrow> (int \<times> msg_id slice \<times> msg_id slice list) result" where
  "sparse_uniteAndAdd uniteFrom uniteTill messages from till ss =
    (let was = int (length (sl_messages (ss ! uniteFrom)))
     in bind_result (sparse_merge messages from till (ss ! uniteFrom)) (\<lambda>s.
        bind_result (sparse_merge_all (take (uniteTill - (uniteFrom + 1)) (drop (uniteFrom + 1) ss)) s) (\<lambda>s.
        Inr (int (length (sl_messages s)) - was, s, take uniteFrom ss @ s # drop uniteTill ss))))"

text \<open>The slice is missing when nothing was added and the update stays empty.\<close>

definition sparse_addRangeItems ::
  "msg_id list \<Rightarrow> msg_id \<Rightarrow> msg_id \<Rightarrow> msg_id slice list
    \<Rightarrow> (int \<times> msg_id slice option \<times> msg_id slice list) result" where
  "sparse_addRangeItems messages from till ss =
    (if \<not> from \<le> till then Inr (0, None, ss)
     else if from = till \<and> messages = [] then Inr (0, None, ss)
     else
       let uniteFrom = lower_till ss from; uniteTill = upper_from ss till
       in if uniteFrom < uniteTill then
            bind_result (sparse_uniteAndAdd uniteFrom uniteTill messages from till ss)
              (\<lambda>(n, s, ss'). Inr (n, Some s, ss'))
          else case emplace_slice \<lparr>sl_messages = fs_merge messages [], sl_from = from, sl_till = till\<rparr> ss of
            (s, ss') \<Rightarrow> Inr (int (length (sl_messages s)), Some s, ss'))"

section \<open>The list\<close>

record sparse_list =
  sp_count :: "int option"
  sp_slices :: "msg_id slice list"
  sp_sliceUpdated :: "msg_id slice_update list"

definition empty_sparse_list :: sparse_list where
  "empty_sparse_list = \<lparr>sp_count = None, sp_slices = [], sp_sliceUpdated = []\<rparr>"

definition sparse_added_count :: "int option \<Rightarrow> bool \<Rightarrow> int \<Rightarrow> int option \<Rightarrow> int option" where
  "sparse_added_count count incrementCount added old =
    (if count \<noteq> None then count
     else if incrementCount \<and> added > 0 then map_option (\<lambda>c. min (c + added) (int kIntMax)) old
     else old)"

text \<open>A size is unsigned: a negative count is never reached.\<close>

definition settle_single :: "int option \<Rightarrow> msg_id slice list \<Rightarrow> int option \<times> msg_id slice list" where
  "settle_single c ss =
    (case ss of
       [f] \<Rightarrow>
         let all_loaded = (case c of None \<Rightarrow> False | Some n \<Rightarrow> 0 \<le> n \<and> int (length (sl_messages f)) \<ge> n);
             f = (if all_loaded then f\<lparr>sl_from := 0, sl_till := ServerMaxMsgId\<rparr> else f);
             c = (if sl_from f = 0 \<and> sl_till f = ServerMaxMsgId then Some (int (length (sl_messages f))) else c)
         in (c, [f])
     | _ \<Rightarrow> (c, ss))"

definition sparse_addRange ::
  "msg_id list \<Rightarrow> msg_id \<Rightarrow> msg_id \<Rightarrow> int option \<Rightarrow> bool \<Rightarrow> sparse_list \<Rightarrow> sparse_list result" where
  "sparse_addRange messages from till count incrementCount l =
    (if \<not> (count = None \<or> \<not> incrementCount) then Inl (Abort ''Expects'')
     else bind_result (sparse_addRangeItems messages from till (sp_slices l)) (\<lambda>(added, changed, ss).
       case settle_single (sparse_added_count count incrementCount added (sp_count l)) ss of (c, ss) \<Rightarrow>
       let c = (case changed of None \<Rightarrow> c
                | Some s \<Rightarrow> map_option (\<lambda>c. max c (int (length (sl_messages s)))) c);
           update = (case changed of
               None \<Rightarrow> \<lparr>up_messages = None, up_from = 0, up_till = 0, up_count = c\<rparr>
             | Some s \<Rightarrow> \<lparr>up_messages = Some (sl_messages s), up_from = sl_from s, up_till = sl_till s, up_count = c\<rparr>)
       in Inr (l\<lparr>sp_count := c, sp_slices := ss, sp_sliceUpdated := sp_sliceUpdated l @ [update]\<rparr>)))"

definition sparse_addNew :: "msg_id \<Rightarrow> sparse_list \<Rightarrow> sparse_list result" where
  "sparse_addNew messageId = sparse_addRange [messageId] messageId ServerMaxMsgId None True"

definition sparse_addExisting :: "msg_id \<Rightarrow> msg_id \<Rightarrow> msg_id \<Rightarrow> bool \<Rightarrow> sparse_list \<Rightarrow> sparse_list result" where
  "sparse_addExisting messageId from till incrementCount = sparse_addRange [messageId] from till None incrementCount"

definition sparse_addSlice :: "msg_id list \<Rightarrow> msg_id \<Rightarrow> msg_id \<Rightarrow> int option \<Rightarrow> sparse_list \<Rightarrow> sparse_list result" where
  "sparse_addSlice messageIds from till count = sparse_addRange messageIds from till count False"

definition sparse_removeOne :: "msg_id \<Rightarrow> bool \<Rightarrow> sparse_list \<Rightarrow> sparse_list" where
  "sparse_removeOne messageId onlyMatched l =
    (let removed = (case slice_index (sp_slices l) messageId of None \<Rightarrow> False
                    | Some i \<Rightarrow> messageId \<in> set (sl_messages (sp_slices l ! i)));
         l = l\<lparr>sp_slices := remove_in_slices messageId (sp_slices l)\<rparr>
     in if onlyMatched \<and> \<not> removed then l
        else l\<lparr>sp_count := map_option (\<lambda>c. if c > 0 then c - 1 else c) (sp_count l)\<rparr>)"

definition removeAll_ids :: "sparse_list \<Rightarrow> sparse_list" where
  "removeAll_ids l = l\<lparr>sp_slices := [\<lparr>sl_messages = [], sl_from = 0, sl_till = ServerMaxMsgId\<rparr>], sp_count := Some 0\<rparr>"

definition countAfter :: "msg_id \<Rightarrow> int \<Rightarrow> (msg_id \<Rightarrow> bool) \<Rightarrow> sparse_list \<Rightarrow> int option" where
  "countAfter tillId limit counts l =
    (if sp_slices l = [] then None
     else
       let bottom = last (sp_slices l)
       in if sl_till bottom \<noteq> ServerMaxMsgId then None
          else if sl_from bottom > tillId \<and> sl_from bottom \<noteq> 0 then None
          else
            let after = dropWhile (\<lambda>x. x \<le> tillId) (sl_messages bottom)
            in if int (length after) > limit then None
               else Some (int (length (filter counts after))))"

definition sparse_invalidateBottom :: "sparse_list \<Rightarrow> sparse_list" where
  "sparse_invalidateBottom l = l\<lparr>sp_slices := trim_bottom ServerMaxMsgId (sp_slices l), sp_count := None\<rparr>"

definition sparse_snapshot :: "msg_id messages_query \<Rightarrow> sparse_list \<Rightarrow> msg_id messages_result result" where
  "sparse_snapshot q l =
    (case (if mq_aroundId q \<noteq> 0 then slice_index (sp_slices l) (mq_aroundId q) else None) of
       Some i \<Rightarrow> query_from_slice 0 ServerMaxMsgId (sp_count l) (mq_aroundId q) (mq_limitBefore q) (mq_limitAfter q)
         (sp_slices l ! i)
     | None \<Rightarrow> Inr \<lparr>mr_count = sp_count l, mr_skippedBefore = None, mr_skippedAfter = None, mr_ids = []\<rparr>)"

section \<open>The shared slices\<close>

lemma sparse_merge_eq: "sparse_merge = slice_merge"
  by (auto simp: fun_eq_iff sparse_merge_def slice_merge_def fs_merge_def split: list.split)

lemma sparse_merge_all_eq: "sparse_merge_all its s = merge_all its s"
  by (induction its s rule: merge_all.induct) (auto simp: sparse_merge_eq bind_result_def split: sum.split)

lemma sparse_uniteAndAdd_eq: "sparse_uniteAndAdd = uniteAndAdd"
  by (simp add: fun_eq_iff sparse_uniteAndAdd_def uniteAndAdd_def Let_def sparse_merge_eq sparse_merge_all_eq)

lemma sparse_add_eq:
  assumes "from \<le> till" and "\<not> (from = till \<and> messages = [])"
  shows "sparse_addRangeItems messages from till ss =
    bind_result (unite_or_emplace messages from till ss) (\<lambda>(n, s, ss'). Inr (n, Some s, ss'))"
proof -
  have "\<not> \<not> from \<le> till"
    using assms(1) by simp
  then show ?thesis
    unfolding sparse_addRangeItems_def unite_or_emplace_def sparse_uniteAndAdd_eq Let_def if_not_P [OF assms(2)]
    by (simp add: bind_result_def split: prod.split)
qed

section \<open>Agreement with the server\<close>

definition ids_agree :: "msg_id set \<Rightarrow> sparse_list \<Rightarrow> bool" where
  "ids_agree S l \<longleftrightarrow>
    slices_agree S (sp_slices l) \<and> finite S \<and> S \<subseteq> {0..ServerMaxMsgId} \<and> card S \<le> kIntMax \<and>
    (\<forall>c. sp_count l = Some c \<longrightarrow> c = int (card S))"

text \<open>A single slice with as many messages as the server has is everything.\<close>

lemma settle_agrees:
  assumes "slices_agree S ss" and "finite S" and S: "S \<subseteq> {0..ServerMaxMsgId}"
    and c: "\<forall>n. c = Some n \<longrightarrow> n = int (card S)" and "settle_single c ss = (c', ss')"
  shows "slices_agree S ss'" and "\<forall>n. c' = Some n \<longrightarrow> n = int (card S)"
proof -
  have "slices_agree S ss' \<and> (\<forall>n. c' = Some n \<longrightarrow> n = int (card S))"
  proof (cases "\<exists>f. ss = [f]")
    case True
    then obtain f where f: "ss = [f]" ..
    have ok: "slice_ok f" and ms: "set (sl_messages f) = S \<inter> {sl_from f..sl_till f}"
      using assms(1) by (simp_all add: f slices_agree_Cons)
    have len: "length (sl_messages f) = card (set (sl_messages f))"
      using ok by (simp add: slice_ok_def ordered_length)
    define all_loaded where "all_loaded = (case c of None \<Rightarrow> False | Some n \<Rightarrow> 0 \<le> n \<and> int (length (sl_messages f)) \<ge> n)"
    define f' where "f' = (if all_loaded then f\<lparr>sl_from := 0, sl_till := ServerMaxMsgId\<rparr> else f)"
    have "set (sl_messages f) = S" if all_loaded
    proof (rule card_subset_eq [OF assms(2)])
      show "set (sl_messages f) \<subseteq> S" using ms by auto
      then have "card (set (sl_messages f)) \<le> card S" by (rule card_mono [OF assms(2)])
      then show "card (set (sl_messages f)) = card S"
        using that c len by (auto simp: all_loaded_def split: option.splits)
    qed
    then have agree': "slices_agree S [f']"
      using assms(1) S ok ms
      by (auto simp: f f'_def slices_agree_Cons slices_agree_def slice_ok_def ServerMaxMsgId_def)
    have "ss' = [f']" and "c' = (if sl_from f' = 0 \<and> sl_till f' = ServerMaxMsgId then Some (int (length (sl_messages f'))) else c)"
      using assms(5) by (auto simp: settle_single_def f Let_def f'_def all_loaded_def)
    then show ?thesis
      using agree' c full_slice [OF agree' _ _ S] by auto
  next
    case False
    then have "settle_single c ss = (c, ss)"
      by (auto simp: settle_single_def split: list.split)
    then show ?thesis
      using assms by simp
  qed
  then show "slices_agree S ss'" and "\<forall>n. c' = Some n \<longrightarrow> n = int (card S)" by blast+
qed

lemma sparse_addRange_agrees:
  assumes u: "sparse_addRangeItems ms from till (sp_slices l) = Inr (n, changed, ss)"
    and agree: "slices_agree S ss" and changed: "\<forall>s. changed = Some s \<longrightarrow> s \<in> set ss"
    and fin: "finite S" "S \<subseteq> {0..ServerMaxMsgId}" "card S \<le> kIntMax" and c: "count = None \<or> \<not> incrementCount"
    and count: "\<forall>c. sparse_added_count count incrementCount n (sp_count l) = Some c \<longrightarrow> c = int (card S)"
  shows "\<exists>l'. sparse_addRange ms from till count incrementCount l = Inr l' \<and> ids_agree S l'"
proof -
  obtain c' ss' where settle: "settle_single (sparse_added_count count incrementCount n (sp_count l)) ss = (c', ss')"
    by fastforce
  have agree': "slices_agree S ss'" and c': "\<forall>n. c' = Some n \<longrightarrow> n = int (card S)"
    using settle_agrees [OF agree fin(1,2) count settle] by blast+
  have "length (sl_messages s) \<le> card S" if "changed = Some s" for s
  proof -
    have s: "s \<in> set ss"
      using changed that by blast
    then have "slice_ok s"
      using agree separated_ok by (auto simp: slices_agree_def)
    then have "length (sl_messages s) = card (set (sl_messages s))"
      by (simp add: slice_ok_def ordered_length)
    also have "\<dots> \<le> card S"
      by (rule card_mono [OF fin(1)]) (use slices_agree_slice [OF agree s] in blast)
    finally show ?thesis .
  qed
  then have "case changed of None \<Rightarrow> True | Some s \<Rightarrow> length (sl_messages s) \<le> card S"
    by (simp split: option.split)
  then show ?thesis
    using c c' agree' fin
    by (cases changed; cases c') (simp_all add: sparse_addRange_def u settle Let_def ids_agree_def del: not_None_eq)
qed

fun ids_react :: "msg_id list_event \<Rightarrow> sparse_list \<Rightarrow> sparse_list result" where
  "ids_react (Loaded ms from till count) l = sparse_addSlice ms from till count l"
| "ids_react (Arrived m) l = sparse_addNew m l"
| "ids_react (Deleted m) l = Inr (sparse_removeOne m False l)"
| "ids_react Forgotten l = Inr (sparse_invalidateBottom l)"

lemma sparse_load_items:
  assumes agree: "slices_agree S ss" and "from \<le> till" and "set ms = S \<inter> {from..till}"
  shows "\<exists>n changed ss'. sparse_addRangeItems ms from till ss = Inr (n, changed, ss') \<and>
    slices_agree S ss' \<and> (\<forall>s. changed = Some s \<longrightarrow> s \<in> set ss')"
proof (cases "from = till \<and> ms = []")
  case True
  then show ?thesis
    using agree by (simp add: sparse_addRangeItems_def)
next
  case False
  then show ?thesis
    using agree_load [OF assms] sparse_add_eq [OF assms(2) False, of ss] by fastforce
qed

lemma ids_react_agrees:
  assumes agree: "ids_agree S l" and e: "honest 0 ServerMaxMsgId e S"
  shows "\<exists>l'. ids_react e l = Inr l' \<and> ids_agree (on_server e S) l'"
proof -
  have sl: "slices_agree S (sp_slices l)" and fin: "finite S" "S \<subseteq> {0..ServerMaxMsgId}" "card S \<le> kIntMax"
    and c: "\<forall>c. sp_count l = Some c \<longrightarrow> c = int (card S)"
    using agree by (simp_all add: ids_agree_def)
  show ?thesis
  proof (cases e)
    case (Loaded ms "from" till count)
    then obtain n changed ss where u: "sparse_addRangeItems ms from till (sp_slices l) = Inr (n, changed, ss)"
        "slices_agree S ss" "\<forall>s. changed = Some s \<longrightarrow> s \<in> set ss"
      using sparse_load_items [OF sl, of "from" till ms] e by auto
    moreover have "\<forall>c. sparse_added_count count False n (sp_count l) = Some c \<longrightarrow> c = int (card S)"
      using e Loaded c by (auto simp: sparse_added_count_def)
    ultimately show ?thesis
      using sparse_addRange_agrees [OF u fin, of count False] Loaded by (simp add: sparse_addSlice_def)
  next
    case (Arrived m)
    have h: "0 \<le> m" "m \<le> ServerMaxMsgId" "\<forall>x\<in>S. x < m" "m \<notin> S" "card S < kIntMax"
      using e Arrived by auto
    then obtain s ss where u: "unite_or_emplace [m] m ServerMaxMsgId (sp_slices l) = Inr (1, s, ss)" "s \<in> set ss"
        "slices_agree (insert m S) ss"
      using agree_arrive [OF sl] by blast
    then have items: "sparse_addRangeItems [m] m ServerMaxMsgId (sp_slices l) = Inr (1, Some s, ss)"
      using sparse_add_eq [of m ServerMaxMsgId "[m]" "sp_slices l"] h(2) by simp
    have card: "card (insert m S) = Suc (card S)"
      using h(4) fin(1) by simp
    then have "\<forall>c. sparse_added_count None True 1 (sp_count l) = Some c \<longrightarrow> c = int (card (insert m S))"
      using c h(5) by (auto simp: sparse_added_count_def)
    then show ?thesis
      using sparse_addRange_agrees [OF items u(3), of None True] u(2) fin h card Arrived
      by (simp add: sparse_addNew_def)
  next
    case (Deleted m)
    have "card S = Suc (card (S - {m}))"
      using fin(1) e Deleted by (intro card.remove) simp_all
    then show ?thesis
      using agree_remove(1) [OF sl, of m] fin c Deleted
      by (auto simp: ids_agree_def sparse_removeOne_def Let_def)
  next
    case Forgotten
    then show ?thesis
      using agree agree_trim [OF sl] by (auto simp: sparse_invalidateBottom_def ids_agree_def)
  qed
qed

interpretation sparse_ids: server_index ids_agree 0 ServerMaxMsgId ids_react
  by unfold_locales (rule ids_react_agrees)

lemma empty_ids_agree:
  "finite S \<Longrightarrow> S \<subseteq> {0..ServerMaxMsgId} \<Longrightarrow> card S \<le> kIntMax \<Longrightarrow> ids_agree S empty_sparse_list"
  by (simp add: ids_agree_def empty_sparse_list_def slices_agree_def)

lemma follow_ids:
  assumes "finite S" and "S \<subseteq> {0..ServerMaxMsgId}" and "card S \<le> kIntMax" and "honest_history 0 ServerMaxMsgId es S"
  shows "\<exists>l. follow ids_react es empty_sparse_list = Inr l \<and> ids_agree (server_after es S) l"
  using sparse_ids.follow_agrees [OF empty_ids_agree [OF assms(1-3)] assms(4)] .

text \<open>
  C17: However slices, new ids and deletions come in, the sparse list never fails an
  \<open>Expects\<close> and knows exactly the server's ids in what it covers; when it concludes
  from the count that everything is loaded, everything is, and its count is the server's.
\<close>

theorem sparse_list_follows_server:
  assumes "finite S" and "S \<subseteq> {0..ServerMaxMsgId}" and "card S \<le> kIntMax" and "honest_history 0 ServerMaxMsgId es S"
  shows "\<exists>l. follow ids_react es empty_sparse_list = Inr l \<and> separated (sp_slices l) \<and>
    known (sp_slices l) = server_after es S \<inter> covered (sp_slices l) \<and>
    (sp_count l = None \<or> sp_count l = Some (int (card (server_after es S))))"
proof -
  obtain l where "follow ids_react es empty_sparse_list = Inr l" and "ids_agree (server_after es S) l"
    using follow_ids [OF assms] by blast
  then show ?thesis
    by (cases "sp_count l") (auto simp: ids_agree_def slices_agree_def)
qed

lemma drop_while_le: "ordered xs \<Longrightarrow> set (dropWhile (\<lambda>x. x \<le> (p::'p::linorder)) xs) = {x \<in> set xs. p < x}"
  by (induction xs) (auto simp: not_le intro: order.strict_trans)

text \<open>
  A number \<open>countAfter\<close> returns is the number of the server's ids after the given
  one that the predicate selects.
\<close>

theorem countAfter_exact:
  assumes "finite S" and "S \<subseteq> {0..ServerMaxMsgId}" and "card S \<le> kIntMax" and "honest_history 0 ServerMaxMsgId es S"
    and "follow ids_react es empty_sparse_list = Inr l" and "countAfter tillId limit counts l = Some n"
  shows "n = int (card {x \<in> server_after es S. tillId < x \<and> counts x}) \<and> n \<le> limit"
proof -
  let ?S = "server_after es S"
  have agree: "ids_agree ?S l"
    using follow_ids [OF assms(1-4)] assms(5) by simp
  let ?b = "last (sp_slices l)"
  let ?after = "dropWhile (\<lambda>x. x \<le> tillId) (sl_messages ?b)"
  have b: "sp_slices l \<noteq> []" "sl_till ?b = ServerMaxMsgId" "sl_from ?b \<le> tillId \<or> sl_from ?b = 0"
    and n: "n = int (length (filter counts ?after))" and limit: "int (length ?after) \<le> limit"
    using assms(6) by (auto simp: countAfter_def Let_def split: if_splits)
  have mem: "?b \<in> set (sp_slices l)"
    using b(1) by simp
  have S: "slices_agree ?S (sp_slices l)" "?S \<subseteq> {0..ServerMaxMsgId}"
    using agree by (simp_all add: ids_agree_def)
  have ok: "slice_ok ?b"
    using S(1) mem separated_ok by (auto simp: slices_agree_def)
  have "set ?after = {x \<in> ?S. tillId < x}"
    using ok drop_while_le [of "sl_messages ?b" tillId] slices_agree_slice [OF S(1) mem] b(2,3) S(2)
    by (auto simp: slice_ok_def)
  moreover have "ordered ?after"
    using ok by (metis slice_ok_def sorted_wrt_append takeWhile_dropWhile_id)
  then have "ordered (filter counts ?after)"
    by (rule sorted_wrt_filter)
  ultimately have "length (filter counts ?after) = card {x \<in> ?S. tillId < x \<and> counts x}"
    by (simp add: ordered_length conj_assoc)
  then show ?thesis
    using n limit length_filter_le [of counts ?after] by linarith
qed

definition sample_ids :: "msg_id list_event list" where
  "sample_ids = [Loaded [3, 5] 2 6 (Some 2), Arrived 9]"

lemma sample_ids_honest: "honest_history 0 ServerMaxMsgId sample_ids {3, 5}"
  by (auto simp: sample_ids_def kIntMax_def ServerMaxMsgId_def)

theorem sparse_list_follows_server_witness:
  "\<exists>l. follow ids_react sample_ids empty_sparse_list = Inr l \<and> known (sp_slices l) = {3, 5, 9} \<inter> covered (sp_slices l)"
proof -
  have "server_after sample_ids {3, 5} = {3, 5, 9}"
    by (auto simp: sample_ids_def)
  moreover have "{3, 5} \<subseteq> {0..ServerMaxMsgId}" and "card {3, 5::msg_id} \<le> kIntMax"
    by (simp_all add: ServerMaxMsgId_def kIntMax_def)
  ultimately show ?thesis
    using sparse_list_follows_server [of "{3, 5}" sample_ids] sample_ids_honest by auto
qed

theorem countAfter_exact_witness:
  "\<exists>l. follow ids_react [Loaded [3, 5] 2 ServerMaxMsgId None] empty_sparse_list = Inr l \<and>
    countAfter 4 10 (\<lambda>_. True) l = Some 1 \<and> card {x \<in> {3, 5::msg_id}. 4 < x} = 1"
proof -
  let ?es = "[Loaded [3, 5] 2 ServerMaxMsgId None]"
  let ?l = "\<lparr>sp_count = None, sp_slices = [\<lparr>sl_messages = [3, 5], sl_from = 2, sl_till = ServerMaxMsgId\<rparr>],
    sp_sliceUpdated = [\<lparr>up_messages = Some [3, 5], up_from = 2, up_till = ServerMaxMsgId, up_count = None\<rparr>]\<rparr>"
  have "fs_merge [3, 5] [] = [3, 5::msg_id]"
    by (rule fs_merge_ordered) simp
  then have l: "follow ids_react ?es empty_sparse_list = Inr ?l"
    by (simp add: sparse_addSlice_def sparse_addRange_def sparse_addRangeItems_def empty_sparse_list_def ServerMaxMsgId_def
        lower_till_def upper_from_def emplace_slice_def sparse_added_count_def settle_single_def)
  have c: "countAfter 4 10 (\<lambda>_. True) ?l = Some 1"
    by (simp add: countAfter_def ServerMaxMsgId_def)
  have "{3, 5} \<subseteq> {0..ServerMaxMsgId}" and "card {3, 5::msg_id} \<le> kIntMax" and "honest_history 0 ServerMaxMsgId ?es {3, 5}"
    by (auto simp: ServerMaxMsgId_def kIntMax_def)
  then show ?thesis
    using l c countAfter_exact [of "{3, 5}" ?es ?l 4 10 "\<lambda>_. True" 1] by simp
qed

end
