(* ===== verification/Flat_Map.thy ===== *)
theory Flat_Map
  imports Prelude
begin

text \<open>
  The ordered map \<open>base::flat_map\<close> that clients keep their queues in, as the list of its
  entries in key order, and the contract they rely on. \<open>lib_base\<close> is not part of the
  repository: the contract is the documented one of an ordered map without duplicates.
\<close>

fun fm_emplace :: "'k::linorder \<Rightarrow> 'v \<Rightarrow> ('k \<times> 'v) list \<Rightarrow> ('k \<times> 'v) list" where
  "fm_emplace k v [] = [(k, v)]"
| "fm_emplace k v ((k', v') # m) =
     (if k < k' then (k, v) # (k', v') # m
      else if k = k' then (k', v') # m
      else (k', v') # fm_emplace k v m)"

abbreviation fm_ok :: "('k::linorder \<times> 'v) list \<Rightarrow> bool" where
  "fm_ok m \<equiv> sorted_wrt (<) (map fst m)"

locale ordered_map =
  fixes ok :: "'m \<Rightarrow> bool" and keys :: "'m \<Rightarrow> 'k::linorder list" and lookup :: "'m \<Rightarrow> 'k \<Rightarrow> 'v option"
    and emplace :: "'k \<Rightarrow> 'v \<Rightarrow> 'm \<Rightarrow> 'm"
  assumes keys_sorted: "ok m \<Longrightarrow> sorted_wrt (<) (keys m)"
    and keys_lookup: "ok m \<Longrightarrow> k \<in> set (keys m) \<longleftrightarrow> lookup m k \<noteq> None"
    and ok_emplace: "ok m \<Longrightarrow> ok (emplace k v m)"
    and lookup_emplace: "ok m \<Longrightarrow> lookup (emplace k v m) k' =
      (if k' = k \<and> lookup m k = None then Some v else lookup m k')"
begin

lemma keys_emplace: "ok m \<Longrightarrow> set (keys (emplace k v m)) = insert k (set (keys m))"
  by (auto simp: keys_lookup ok_emplace lookup_emplace split: if_splits)

lemma keys_distinct: "ok m \<Longrightarrow> distinct (keys m)"
  using keys_sorted by (auto simp: strict_sorted_iff)

lemma count_emplace: "ok m \<Longrightarrow> lookup m k = None \<Longrightarrow> length (keys (emplace k v m)) = Suc (length (keys m))"
  using keys_distinct [OF ok_emplace, of m k v] keys_distinct [of m] keys_emplace [of m k v] keys_lookup [of m k]
  by (simp add: distinct_card [symmetric])

lemma first_least: "ok m \<Longrightarrow> k \<in> set (keys m) \<Longrightarrow> hd (keys m) \<le> k"
  using keys_sorted [of m] by (cases "keys m") (auto intro: less_imp_le)

end

lemma fst_fm_emplace: "set (map fst (fm_emplace k v m)) = insert k (set (map fst m))"
  by (induction k v m rule: fm_emplace.induct) auto

lemma fm_ok_emplace: "fm_ok m \<Longrightarrow> fm_ok (fm_emplace k v m)"
proof (induction k v m rule: fm_emplace.induct)
  case (2 k v k' v' m)
  then show ?case
    using fst_fm_emplace [of k v m] by auto
qed simp

lemma map_of_fm_emplace:
  "fm_ok m \<Longrightarrow> map_of (fm_emplace k v m) k' = (if k' = k \<and> map_of m k = None then Some v else map_of m k')"
proof (induction k v m rule: fm_emplace.induct)
  case (2 k v k1 v1 m)
  have "\<forall>x\<in>fst ` set m. k1 < x" and "fm_ok m"
    using 2(2) by auto
  moreover from this have "k < k1 \<Longrightarrow> map_of m k = None" and "map_of m k1 = None"
    by (auto simp: map_of_eq_None_iff dest: order.strict_trans)
  ultimately show ?case
    using 2(1) by (auto simp: not_less)
qed simp

interpretation flat_map: ordered_map fm_ok "map fst" map_of fm_emplace
  by unfold_locales (simp_all add: fm_ok_emplace map_of_fm_emplace map_of_eq_None_iff)

end
