(* ===== verification/Received_Ids.thy ===== *)
theory Received_Ids
  imports Flat_Map
begin

text \<open>
  The ids of received messages that guard a connection against replays,
  \<open>mtproto/details/mtproto_received_ids_manager.cpp\<close>.
\<close>

datatype id_state = NotFound | NeedsAck | NoAckNeeded

datatype id_result = IdSuccess | Duplicate | TooOld

type_synonym received_ids = "(u64 \<times> bool) list"

definition kIdsBufferSize :: nat where "kIdsBufferSize = 400"

definition ids_min :: "received_ids \<Rightarrow> u64" where
  "ids_min m = (case m of [] \<Rightarrow> 0 | (k, _) # _ \<Rightarrow> k)"

definition ids_max :: "received_ids \<Rightarrow> u64" where
  "ids_max m = (if m = [] then 0 else fst (last m))"

definition registerMsgId :: "u64 \<Rightarrow> bool \<Rightarrow> received_ids \<Rightarrow> id_result \<times> received_ids" where
  "registerMsgId msgId needAck m =
    (if map_of m msgId \<noteq> None then (Duplicate, m)
     else if length m < kIdsBufferSize \<or> msgId > ids_min m then (IdSuccess, fm_emplace msgId needAck m)
     else (TooOld, m))"

definition id_lookup :: "u64 \<Rightarrow> received_ids \<Rightarrow> id_state" where
  "id_lookup msgId m =
    (case map_of m msgId of None \<Rightarrow> NotFound | Some i \<Rightarrow> if i then NeedsAck else NoAckNeeded)"

fun shrink_loop :: "nat \<Rightarrow> received_ids \<Rightarrow> received_ids" where
  "shrink_loop 0 m = m"
| "shrink_loop (Suc n) m = (if Suc n > kIdsBufferSize then shrink_loop n (drop 1 m) else m)"

definition shrink :: "received_ids \<Rightarrow> received_ids" where
  "shrink m = shrink_loop (length m) m"

definition ids_clear :: "received_ids \<Rightarrow> received_ids" where
  "ids_clear m = []"

lemma shrink_drop: "shrink m = drop (length m - kIdsBufferSize) m"
proof -
  have "shrink_loop (length m) m = drop (length m - kIdsBufferSize) m" for m
  proof (induction "length m" arbitrary: m)
    case (Suc n)
    then obtain x m' where "m = x # m'" and "length m' = n"
      by (cases m) auto
    then show ?case
      using Suc.hyps(1) [of m'] by (auto simp: Suc_diff_le not_less)
  qed simp
  then show ?thesis
    by (simp add: shrink_def)
qed

section \<open>No id is accepted twice\<close>

datatype id_operation = Register u64 bool | Shrink

fun id_step :: "id_operation \<Rightarrow> u64 list \<times> received_ids \<Rightarrow> u64 list \<times> received_ids" where
  "id_step (Register k b) (accepted, m) =
    (case registerMsgId k b m of (r, m') \<Rightarrow> (if r = IdSuccess then accepted @ [k] else accepted, m'))"
| "id_step Shrink (accepted, m) = (accepted, shrink m)"

text \<open>An accepted id is still there, or the buffer is full of later ones.\<close>

definition remembered :: "u64 list \<times> received_ids \<Rightarrow> bool" where
  "remembered s \<longleftrightarrow> (case s of (accepted, m) \<Rightarrow>
    fm_ok m \<and> distinct accepted \<and> fst ` set m \<subseteq> set accepted \<and>
    (\<forall>k\<in>set accepted. k \<in> fst ` set m \<or> (kIdsBufferSize \<le> length m \<and> k < ids_min m)))"

lemma ids_min_hd: "m \<noteq> [] \<Longrightarrow> ids_min m = hd (map fst m)"
  by (cases m) (auto simp: ids_min_def)

lemma register_remembered:
  assumes "remembered (accepted, m)"
  shows "remembered (id_step (Register k b) (accepted, m))"
proof (cases "map_of m k \<noteq> None \<or> \<not> (length m < kIdsBufferSize \<or> k > ids_min m)")
  case True
  then show ?thesis
    using assms by (auto simp: registerMsgId_def)
next
  case False
  then have new: "k \<notin> fst ` set m" and room: "length m < kIdsBufferSize \<or> k > ids_min m"
    by (auto simp: map_of_eq_None_iff)
  have r: "fm_ok m" "distinct accepted" "fst ` set m \<subseteq> set accepted"
    and kept: "\<And>x. x \<in> set accepted \<Longrightarrow> x \<in> fst ` set m \<or> (kIdsBufferSize \<le> length m \<and> x < ids_min m)"
    using assms by (auto simp: remembered_def)
  let ?m = "fm_emplace k b m"
  have none: "map_of m k = None"
    using new by (simp add: map_of_eq_None_iff)
  have keys: "fst ` set ?m = insert k (fst ` set m)"
    using fst_fm_emplace [of k b m] by simp
  have len: "length ?m = Suc (length m)"
    using flat_map.count_emplace [OF r(1) none, of b] by simp
  have "k \<notin> set accepted"
    using kept [of k] new room by auto
  moreover have least: "ids_min ?m = ids_min m" if "kIdsBufferSize \<le> length m"
  proof -
    have "ids_min m < k" and "m \<noteq> []"
      using room that by (auto simp: kIdsBufferSize_def)
    then show ?thesis
      by (cases m) (auto simp: ids_min_def split: if_splits)
  qed
  moreover have "x \<in> fst ` set ?m \<or> (kIdsBufferSize \<le> length ?m \<and> x < ids_min ?m)" if "x \<in> set (accepted @ [k])" for x
    using that kept [of x] keys len least by auto
  moreover have "fst ` set ?m \<subseteq> set (accepted @ [k])"
    using keys r(3) by auto
  ultimately have "remembered (accepted @ [k], ?m)"
    using r(2) fm_ok_emplace [OF r(1), of k b] unfolding remembered_def by simp
  then show ?thesis
    using False by (simp add: registerMsgId_def)
qed

lemma shrink_remembered:
  assumes "remembered (accepted, m)"
  shows "remembered (id_step Shrink (accepted, m))"
proof -
  let ?n = "length m - kIdsBufferSize"
  have ok: "fm_ok m" and d: "distinct accepted" and sub: "fst ` set m \<subseteq> set accepted"
    and kept: "\<And>x. x \<in> set accepted \<Longrightarrow> x \<in> fst ` set m \<or> (kIdsBufferSize \<le> length m \<and> x < ids_min m)"
    using assms by (auto simp: remembered_def)
  show ?thesis
  proof (cases "?n = 0")
    case True
    then show ?thesis
      using assms by (simp add: shrink_drop)
  next
    case False
    let ?s = "drop ?n m"
    have m: "m = take ?n m @ ?s" by simp
    have "?s \<noteq> []" and len: "length ?s = kIdsBufferSize"
      using False by (simp_all add: kIdsBufferSize_def)
    have "fm_ok (take ?n m @ ?s)"
      using ok by simp
    then have split: "fm_ok ?s" "\<forall>x\<in>fst ` set (take ?n m). \<forall>y\<in>fst ` set ?s. x < y"
      unfolding map_append sorted_wrt_append by auto
    have min: "ids_min ?s \<in> fst ` set ?s"
      using \<open>?s \<noteq> []\<close> by (cases ?s) (auto simp: ids_min_def)
    have "x \<in> fst ` set ?s \<or> x < ids_min ?s" if "x \<in> set accepted" for x
    proof (cases "x \<in> fst ` set m")
      case True
      then have "x \<in> fst ` set (take ?n m) \<or> x \<in> fst ` set ?s"
        by (metis append_take_drop_id image_Un set_append Un_iff)
      then show ?thesis
        using split(2) min by blast
    next
      case x: False
      have "m \<noteq> []" using False by auto
      then have "ids_min m \<in> fst ` set (take ?n m)"
        using False by (cases m; cases ?n) (auto simp: ids_min_def)
      then show ?thesis
        using kept [OF that] x split(2) min by (meson order.strict_trans)
    qed
    moreover have "fst ` set ?s \<subseteq> set accepted"
      using sub set_drop_subset [of ?n m] by blast
    ultimately show ?thesis
      using split(1) d len by (simp add: shrink_drop remembered_def)
  qed
qed

lemma run_remembered: "remembered s \<Longrightarrow> remembered (fold id_step ops s)"
proof (induction ops arbitrary: s)
  case (Cons x xs)
  then show ?case
    using register_remembered shrink_remembered by (cases s; cases x) (simp del: id_step.simps)+
qed simp

text \<open>
  C18: Until the ids are cleared no id is accepted twice, however often old ids are
  dropped from the buffer, and dropping leaves at most the buffer size.
\<close>

theorem no_id_accepted_twice:
  "distinct (fst (fold id_step ops ([], []))) \<and> length (shrink (snd (fold id_step ops ([], [])))) \<le> kIdsBufferSize"
proof -
  have "remembered ([], [])"
    by (simp add: remembered_def)
  then have "remembered (fold id_step ops ([], []))"
    by (rule run_remembered)
  then show ?thesis
    by (auto simp: remembered_def shrink_drop split: prod.splits)
qed

end
