(* ===== verification/Pts_Waiter.thy ===== *)
theory Pts_Waiter
  imports Flat_Map "HOL-Library.Multiset"
begin

text \<open>
  The sequencer of updates with a pts, \<open>data/data_pts_waiter.cpp\<close>. What it calls of
  its owner, \<open>Api::Updates\<close>, is the list \<open>pw_calls\<close>; the queues are ordered maps. The pts
  values are integers: the server keeps them and their sums below \<open>2 ^ 31\<close>, and a sum
  beyond it is undefined in the code.
\<close>

section \<open>State\<close>

datatype skipped_queue = SkippedUpdate | SkippedUpdates

text \<open>A missing entry is a default-constructed update, as \<open>operator[]\<close> makes it.\<close>

datatype ('u, 'us) owner_call =
    StartTimer int
  | ApplyUpdate "'u option"
  | ApplyUpdates "'us option"

record ('u, 'us) pts_waiter =
  pw_queue :: "(u64 \<times> skipped_queue) list"
  pw_updateQueue :: "(u64 \<times> 'u) list"
  pw_updatesQueue :: "(u64 \<times> 'us) list"
  pw_good :: int
  pw_last :: int
  pw_count :: int
  pw_applySkippedLevel :: int
  pw_requesting :: bool
  pw_waitingForSkipped :: bool
  pw_waitingForShortPoll :: bool
  pw_skippedKey :: u32
  pw_calls :: "('u, 'us) owner_call list"

definition new_waiter :: "('u, 'us) pts_waiter" where
  "new_waiter = \<lparr>pw_queue = [], pw_updateQueue = [], pw_updatesQueue = [], pw_good = 0, pw_last = 0, pw_count = 0,
    pw_applySkippedLevel = 0, pw_requesting = False, pw_waitingForSkipped = False, pw_waitingForShortPoll = False,
    pw_skippedKey = 0, pw_calls = []\<rparr>"

definition kWaitForSkippedTimeout :: int where "kWaitForSkippedTimeout = 1000"

definition owner_do :: "('u, 'us) owner_call list \<Rightarrow> ('u, 'us) pts_waiter \<Rightarrow> ('u, 'us) pts_waiter" where
  "owner_do xs w = w\<lparr>pw_calls := pw_calls w @ xs\<rparr>"

section \<open>Operations\<close>

definition pts_key :: "int \<Rightarrow> u32 \<Rightarrow> u64" where
  "pts_key pts n = push_bit 32 (ucast (word_of_int pts :: u32)) OR ucast n"

definition ptsKey :: "skipped_queue \<Rightarrow> int \<Rightarrow> ('u, 'us) pts_waiter \<Rightarrow> u64 \<times> ('u, 'us) pts_waiter" where
  "ptsKey q pts w =
    (let n = pw_skippedKey w + 1; key = pts_key pts n
     in (key, w\<lparr>pw_skippedKey := n, pw_queue := fm_emplace key q (pw_queue w)\<rparr>))"

definition checkForWaiting :: "('u, 'us) pts_waiter \<Rightarrow> ('u, 'us) pts_waiter" where
  "checkForWaiting w =
    (if \<not> pw_waitingForSkipped w \<and> \<not> pw_waitingForShortPoll w then owner_do [StartTimer (- 1)] w else w)"

definition setWaitingForSkipped :: "int \<Rightarrow> ('u, 'us) pts_waiter \<Rightarrow> ('u, 'us) pts_waiter" where
  "setWaitingForSkipped ms w =
    (if ms \<ge> 0 then (owner_do [StartTimer ms] w)\<lparr>pw_waitingForSkipped := True\<rparr>
     else checkForWaiting (w\<lparr>pw_waitingForSkipped := False\<rparr>))"

definition setWaitingForShortPoll :: "int \<Rightarrow> ('u, 'us) pts_waiter \<Rightarrow> ('u, 'us) pts_waiter" where
  "setWaitingForShortPoll ms w =
    (if ms \<ge> 0 then (owner_do [StartTimer ms] w)\<lparr>pw_waitingForShortPoll := True\<rparr>
     else checkForWaiting (w\<lparr>pw_waitingForShortPoll := False\<rparr>))"

definition clearSkippedUpdates :: "('u, 'us) pts_waiter \<Rightarrow> ('u, 'us) pts_waiter" where
  "clearSkippedUpdates w = w\<lparr>pw_queue := [], pw_updateQueue := [], pw_updatesQueue := [], pw_applySkippedLevel := 0\<rparr>"

definition pts_init :: "int \<Rightarrow> ('u, 'us) pts_waiter \<Rightarrow> ('u, 'us) pts_waiter" where
  "pts_init pts w = clearSkippedUpdates (w\<lparr>pw_good := pts, pw_last := pts, pw_count := pts\<rparr>)"

definition inited :: "('u, 'us) pts_waiter \<Rightarrow> bool" where
  "inited w \<longleftrightarrow> pw_good w > 0"

definition setRequesting :: "bool \<Rightarrow> ('u, 'us) pts_waiter \<Rightarrow> ('u, 'us) pts_waiter" where
  "setRequesting isRequesting w =
    (let w = w\<lparr>pw_requesting := isRequesting\<rparr> in if isRequesting then clearSkippedUpdates w else w)"

definition queued_call :: "('u, 'us) pts_waiter \<Rightarrow> u64 \<times> skipped_queue \<Rightarrow> ('u, 'us) owner_call" where
  "queued_call w e =
    (case e of
       (key, SkippedUpdate) \<Rightarrow> ApplyUpdate (map_of (pw_updateQueue w) key)
     | (key, SkippedUpdates) \<Rightarrow> ApplyUpdates (map_of (pw_updatesQueue w) key))"

text \<open>
  The owner may call back while it applies: with \<open>_applySkippedLevel\<close> raised every
  \<open>updated\<close> returns at once and leaves the queues alone.
\<close>

definition applySkippedUpdates :: "('u, 'us) pts_waiter \<Rightarrow> ('u, 'us) pts_waiter" where
  "applySkippedUpdates w =
    (if \<not> pw_waitingForSkipped w then w
     else
       let w = setWaitingForSkipped (- 1) w
       in if pw_queue w = [] then w
          else
            let w = w\<lparr>pw_applySkippedLevel := pw_applySkippedLevel w + 1\<rparr>;
                w = owner_do (map (queued_call w) (pw_queue w)) w;
                w = w\<lparr>pw_applySkippedLevel := pw_applySkippedLevel w - 1\<rparr>
            in clearSkippedUpdates w)"

definition check :: "int \<Rightarrow> int \<Rightarrow> ('u, 'us) pts_waiter \<Rightarrow> bool \<times> ('u, 'us) pts_waiter" where
  "check pts cnt w =
    (if \<not> inited w then (True, pts_init pts w)
     else
       let w = w\<lparr>pw_last := max (pw_last w) pts, pw_count := pw_count w + cnt\<rparr>
       in if pw_last w = pw_count w then (True, w\<lparr>pw_good := pw_last w\<rparr>)
          else
            let w = (if pw_last w < pw_count w then setWaitingForSkipped 1 w
                     else setWaitingForSkipped kWaitForSkippedTimeout w)
            in (cnt = 0, w))"

datatype ('u, 'us) pts_item = Update 'u | Updates 'us

text \<open>What \<open>updated\<close> saves of an update that came too early.\<close>

definition save_item :: "int \<Rightarrow> ('u, 'us) pts_item \<Rightarrow> ('u, 'us) pts_waiter \<Rightarrow> ('u, 'us) pts_waiter" where
  "save_item pts item w =
    (case item of
       Updates us \<Rightarrow> (case ptsKey SkippedUpdates pts w of (key, w) \<Rightarrow>
         w\<lparr>pw_updatesQueue := fm_emplace key us (pw_updatesQueue w)\<rparr>)
     | Update u \<Rightarrow> (case ptsKey SkippedUpdate pts w of (key, w) \<Rightarrow>
         w\<lparr>pw_updateQueue := fm_emplace key u (pw_updateQueue w)\<rparr>))"

text \<open>The overloads with an update and, for \<open>None\<close>, without one.\<close>

definition updated :: "int \<Rightarrow> int \<Rightarrow> ('u, 'us) pts_item option \<Rightarrow> ('u, 'us) pts_waiter \<Rightarrow> bool \<times> ('u, 'us) pts_waiter" where
  "updated pts cnt item w =
    (if pw_requesting w \<or> pw_applySkippedLevel w \<noteq> 0 then (True, w)
     else if pts \<le> pw_good w \<and> cnt > 0 then (False, w)
     else case check pts cnt w of
            (True, w) \<Rightarrow> (True, w)
          | (False, w) \<Rightarrow> (False, case item of None \<Rightarrow> w | Some i \<Rightarrow> save_item pts i w))"

definition apply_item :: "('u, 'us) pts_item \<Rightarrow> ('u, 'us) owner_call" where
  "apply_item item = (case item of Update u \<Rightarrow> ApplyUpdate (Some u) | Updates us \<Rightarrow> ApplyUpdates (Some us))"

definition updateAndApply ::
  "int \<Rightarrow> int \<Rightarrow> ('u, 'us) pts_item option \<Rightarrow> ('u, 'us) pts_waiter \<Rightarrow> bool \<times> ('u, 'us) pts_waiter" where
  "updateAndApply pts cnt item w =
    (case updated pts cnt item w of
       (False, w) \<Rightarrow> (False, w)
     | (True, w) \<Rightarrow>
         (True,
          case item of
            None \<Rightarrow> applySkippedUpdates w
          | Some i \<Rightarrow>
              if \<not> pw_waitingForSkipped w \<or> pw_queue w = [] then owner_do [apply_item i] w
              else applySkippedUpdates (save_item pts i w)))"

section \<open>No gap in what is good\<close>

text \<open>An update covers the \<open>count\<close> values up to its pts.\<close>

definition interval :: "int \<times> int \<Rightarrow> int set" where
  "interval u = {fst u - snd u <.. fst u}"

definition covers :: "(int \<times> int) list \<Rightarrow> int set" where
  "covers us = (\<Union>u\<in>set us. interval u)"

text \<open>Updates of one history: from the state \<open>p\<close> on, none overlapping another.\<close>

fun consistent_updates :: "int \<Rightarrow> (int \<times> int) list \<Rightarrow> bool" where
  "consistent_updates p [] = True"
| "consistent_updates p (u # us) \<longleftrightarrow>
     snd u \<ge> 0 \<and> p \<le> fst u - snd u \<and> (\<forall>v\<in>set us. interval u \<inter> interval v = {}) \<and> consistent_updates p us"

definition receive :: "int \<times> int \<times> ('u, 'us) pts_item option \<Rightarrow> ('u, 'us) pts_waiter \<Rightarrow> ('u, 'us) pts_waiter" where
  "receive x w = (case x of (pts, cnt, item) \<Rightarrow> snd (updated pts cnt item w))"

definition numbers :: "int \<times> int \<times> 'i \<Rightarrow> int \<times> int" where
  "numbers x = (fst x, fst (snd x))"

lemma waiting_select [simp]:
  "pw_good (setWaitingForSkipped ms w) = pw_good w" "pw_last (setWaitingForSkipped ms w) = pw_last w"
  "pw_count (setWaitingForSkipped ms w) = pw_count w" "pw_requesting (setWaitingForSkipped ms w) = pw_requesting w"
  "pw_applySkippedLevel (setWaitingForSkipped ms w) = pw_applySkippedLevel w"
  by (simp_all add: setWaitingForSkipped_def checkForWaiting_def owner_do_def)

lemma save_select [simp]:
  "pw_good (save_item pts i w) = pw_good w" "pw_last (save_item pts i w) = pw_last w"
  "pw_count (save_item pts i w) = pw_count w" "pw_requesting (save_item pts i w) = pw_requesting w"
  "pw_applySkippedLevel (save_item pts i w) = pw_applySkippedLevel w"
  by (simp_all add: save_item_def ptsKey_def Let_def split: pts_item.split)

text \<open>The counters after updates \<open>us\<close> have been taken in from the state \<open>p\<close>.\<close>

definition counted :: "int \<Rightarrow> (int \<times> int) list \<Rightarrow> ('u, 'us) pts_waiter \<Rightarrow> bool" where
  "counted p us w \<longleftrightarrow>
    \<not> pw_requesting w \<and> pw_applySkippedLevel w = 0 \<and> 0 < p \<and> p \<le> pw_good w \<and> pw_good w \<le> pw_last w \<and>
    pw_count w = p + int (card (covers us)) \<and> covers us \<subseteq> {p<..pw_last w} \<and> {p<..pw_good w} \<subseteq> covers us \<and>
    finite (covers us) \<and> (pw_last w = pw_count w \<longrightarrow> pw_good w = pw_last w) \<and> (pw_last w = p \<or> (\<exists>u\<in>set us. fst u = pw_last w))"

lemma covers_simps [simp]:
  "covers [] = {}" "covers (us @ vs) = covers us \<union> covers vs" "covers [u] = interval u"
  "covers (u # us) = interval u \<union> covers us"
  by (auto simp: covers_def)

lemma check_counted:
  assumes w: "counted p us w" and c: "0 \<le> cnt" "p \<le> pts - cnt"
    and new: "interval (pts, cnt) \<inter> covers us = {}"
  shows "counted p (us @ [(pts, cnt)]) (snd (check pts cnt w))"
proof -
  let ?last = "max (pw_last w) pts" and ?cnt = "pw_count w + cnt" and ?cov = "covers (us @ [(pts, cnt)])"
  have h: "0 < p" "p \<le> pw_good w" "pw_good w \<le> pw_last w" "pw_count w = p + int (card (covers us))"
      "covers us \<subseteq> {p<..pw_last w}" "{p<..pw_good w} \<subseteq> covers us" "finite (covers us)"
    using w by (simp_all add: counted_def)
  have card: "int (card ?cov) = int (card (covers us)) + cnt"
    using c(1) h(7) new by (simp add: interval_def card_Un_disjoint Int_commute)
  have "covers us \<subseteq> {p<..?last}"
    by (rule subset_trans [OF h(5)]) auto
  then have sub: "?cov \<subseteq> {p<..?last}"
    using c by (auto simp: interval_def)
  have full: "{p<..?last} \<subseteq> ?cov" if "?last = ?cnt"
  proof -
    have "card ?cov = card {p<..?last}"
      using that card h(2-4) by simp
    then show ?thesis
      using card_subset_eq [OF _ sub] by simp
  qed
  have last: "?last = p \<or> (\<exists>u\<in>set (us @ [(pts, cnt)]). fst u = ?last)"
    using w by (auto simp: counted_def max_def)
  have "inited w"
    using h by (simp add: inited_def)
  moreover have "covers us \<subseteq> ?cov" and "finite ?cov" and "\<not> pw_requesting w" and "pw_applySkippedLevel w = 0"
    using h(7) w by (simp_all add: counted_def interval_def)
  moreover have "p \<le> ?last" and "pw_good w \<le> ?last"
    using h(2,3) by linarith+
  moreover have "{p<..pw_good w} \<subseteq> ?cov"
    using h(6) by auto
  ultimately show ?thesis
    using sub full last card h(1,2,4)
    by (cases "?last = ?cnt") (simp_all add: check_def Let_def counted_def del: covers_simps)
qed

lemma receive_counted:
  assumes w: "counted p us w" and c: "0 \<le> cnt" "p \<le> pts - cnt"
    and new: "interval (pts, cnt) \<inter> covers us = {}"
  shows "counted p (us @ [(pts, cnt)]) (receive (pts, cnt, item) w)"
proof -
  have "\<not> (pts \<le> pw_good w \<and> cnt > 0)"
  proof
    assume a: "pts \<le> pw_good w \<and> cnt > 0"
    then have "pts \<in> {p<..pw_good w}" and "pts \<in> interval (pts, cnt)"
      using c by (auto simp: interval_def)
    then show False
      using w new by (auto simp: counted_def)
  qed
  moreover have "\<not> (pw_requesting w \<or> pw_applySkippedLevel w \<noteq> 0)"
    using w by (simp add: counted_def)
  moreover obtain r w' where r: "check pts cnt w = (r, w')"
    by fastforce
  ultimately have "receive (pts, cnt, item) w = (if r then w' else case item of None \<Rightarrow> w' | Some i \<Rightarrow> save_item pts i w')"
    by (cases r) (auto simp: receive_def updated_def)
  moreover have "counted p (us @ [(pts, cnt)]) w'"
    using check_counted [OF w c new] r by simp
  ultimately show ?thesis
    by (simp add: counted_def split: option.split)
qed

lemma run_counted:
  assumes "counted p us w" and "consistent_updates p (map numbers xs)" and "\<forall>x\<in>set xs. interval (numbers x) \<inter> covers us = {}"
  shows "counted p (us @ map numbers xs) (fold receive xs w)"
  using assms
proof (induction xs arbitrary: us w)
  case (Cons x xs)
  obtain pts cnt item where x: "x = (pts, cnt, item)"
    by (cases x)
  have "counted p (us @ [(pts, cnt)]) (receive x w)"
    unfolding x by (rule receive_counted) (use Cons.prems in \<open>simp_all add: x numbers_def\<close>)
  moreover have "\<forall>y\<in>set xs. interval (numbers y) \<inter> covers (us @ [(pts, cnt)]) = {}"
    using Cons.prems(2,3) by (auto simp: x numbers_def)
  ultimately have "counted p ((us @ [(pts, cnt)]) @ map numbers xs) (fold receive xs (receive x w))"
    using Cons.IH [of "us @ [(pts, cnt)]" "receive x w"] Cons.prems(2) by simp
  moreover have "numbers x = (pts, cnt)"
    by (simp add: x numbers_def)
  ultimately show ?case
    by simp
qed simp

text \<open>
  C19: In whatever order the updates of one history arrive after the state \<open>p\<close>, the good
  pts never skips a value that no received update covers, and once the updates cover
  everything up to \<open>q\<close> it is \<open>q\<close>.
\<close>

theorem good_pts_has_no_gap:
  assumes "0 < p" and "consistent_updates p (map numbers xs)"
  defines "w \<equiv> fold receive xs (pts_init p new_waiter)"
  shows "{p<..pw_good w} \<subseteq> covers (map numbers xs) \<and>
    (\<forall>q. p \<le> q \<and> covers (map numbers xs) = {p<..q} \<and> (\<forall>u\<in>set (map numbers xs). fst u \<le> q) \<longrightarrow> pw_good w = q)"
proof -
  have "counted p [] (pts_init p new_waiter)"
    using assms(1) by (simp add: counted_def pts_init_def new_waiter_def clearSkippedUpdates_def)
  then have w: "counted p (map numbers xs) w"
    using run_counted [of p "[]" _ xs] assms(2) by (simp add: w_def)
  moreover have "pw_good w = q" if "p \<le> q" "covers (map numbers xs) = {p<..q}" "\<forall>u\<in>set (map numbers xs). fst u \<le> q" for q
  proof -
    have "pw_count w = q" and "pw_last w \<le> q"
      using w that by (auto simp: counted_def)
    moreover have "q \<le> pw_last w"
    proof (cases "q = p")
      case False
      then have "q \<in> covers (map numbers xs)"
        using that by simp
      then show ?thesis
        using w by (auto simp: counted_def)
    qed (use w in \<open>simp add: counted_def\<close>)
    ultimately show ?thesis
      using w by (simp add: counted_def)
  qed
  ultimately show ?thesis
    by (auto simp: counted_def)
qed

theorem good_pts_has_no_gap_witness:
  "pw_good (fold receive [(12, 1, None), (11, 1, Some (Update (7::nat)))] (pts_init 10 (new_waiter :: (nat, nat) pts_waiter))) = 12"
proof -
  let ?xs = "[(12, 1, None), (11, 1, Some (Update 7))] :: (int \<times> int \<times> (nat, nat) pts_item option) list"
  have "consistent_updates 10 (map numbers ?xs)"
    by (auto simp: numbers_def interval_def)
  moreover have "covers (map numbers ?xs) = {10<..12}"
    by (auto simp: numbers_def interval_def)
  ultimately show ?thesis
    using good_pts_has_no_gap [of 10 ?xs] by (auto simp: numbers_def)
qed

section \<open>The order of saved updates\<close>

text \<open>Keys order by pts and then by the running number.\<close>

lemma unat_pts_key: "0 \<le> pts \<Longrightarrow> pts < 2 ^ 31 \<Longrightarrow> unat (pts_key pts n) = nat pts * 2 ^ 32 + unat n"
proof -
  assume h: "0 \<le> pts" "pts < 2 ^ 31"
  let ?a = "ucast (word_of_int pts :: u32) :: u64" and ?n = "ucast n :: u64"
  have a: "unat ?a = nat pts"
    using h by (simp add: unsigned_ucast_eq unsigned_of_int unsigned_of_int take_bit_int_eq_self nat_take_bit_eq)
  have n: "unat ?n = unat n" "unat n < 2 ^ 32"
  proof -
    show "unat n < 2 ^ 32" using unsigned_less [where w = n and ?'a = nat] by simp
    then have "unat n < 2 ^ 64" by simp
    then show "unat ?n = unat n" by (simp add: unsigned_ucast_eq take_bit_nat_eq_self)
  qed
  have "push_bit 32 ?a AND ?n = 0"
    by (rule bit_word_eqI) (auto simp: bit_simps dest: bit_imp_le_length)
  then have "pts_key pts n = push_bit 32 ?a + ?n"
    unfolding pts_key_def by (simp add: disjunctive_add_eq_or)
  moreover have "unat (push_bit 32 ?a) = nat pts * 2 ^ 32"
    unfolding unsigned_push_bit_eq a using h by (simp add: push_bit_eq_mult take_bit_nat_eq_self)
  ultimately show ?thesis
    using n h by (simp add: unat_word_ariths)
qed

lemma pts_key_less:
  assumes "0 \<le> p" and "p < 2 ^ 31" and "0 \<le> q" and "q < 2 ^ 31"
  shows "pts_key p n < pts_key q m \<longleftrightarrow> p < q \<or> (p = q \<and> n < m)"
proof -
  have n: "unat n < 2 ^ 32" "unat m < 2 ^ 32"
    using unsigned_less [where w = n and ?'a = nat] unsigned_less [where w = m and ?'a = nat] by simp_all
  have "pts_key p n < pts_key q m \<longleftrightarrow> nat p * 2 ^ 32 + unat n < nat q * 2 ^ 32 + unat m"
    using assms by (simp add: word_less_nat_alt unat_pts_key)
  also have "\<dots> \<longleftrightarrow> nat p < nat q \<or> (nat p = nat q \<and> unat n < unat m)"
    using n by auto
  finally show ?thesis
    using assms by (auto simp: word_less_nat_alt)
qed

lemma fm_emplace_between:
  "(\<forall>x\<in>set m1. fst x < k) \<Longrightarrow> (\<forall>x\<in>set m2. k < fst x) \<Longrightarrow> fm_emplace k v (m1 @ m2) = m1 @ (k, v) # m2"
proof (induction m1)
  case Nil
  then show ?case by (cases m2) auto
next
  case (Cons x m1)
  then show ?case by (cases x) auto
qed

type_synonym ('u, 'us) entry = "int \<times> u32 \<times> ('u, 'us) pts_item"

definition entry_key :: "('u, 'us) entry \<Rightarrow> u64" where
  "entry_key y = pts_key (fst y) (fst (snd y))"

definition entry_kind :: "('u, 'us) entry \<Rightarrow> skipped_queue" where
  "entry_kind y = (case snd (snd y) of Update _ \<Rightarrow> SkippedUpdate | Updates _ \<Rightarrow> SkippedUpdates)"

definition entry_item :: "('u, 'us) entry \<Rightarrow> int \<times> ('u, 'us) pts_item" where
  "entry_item y = (fst y, snd (snd y))"

definition entry_stored :: "('u, 'us) pts_waiter \<Rightarrow> ('u, 'us) entry \<Rightarrow> bool" where
  "entry_stored w y = (case snd (snd y) of
     Update u \<Rightarrow> map_of (pw_updateQueue w) (entry_key y) = Some u
   | Updates us \<Rightarrow> map_of (pw_updatesQueue w) (entry_key y) = Some us)"

definition old_keys :: "u32 \<Rightarrow> u64 set" where
  "old_keys s = {pts_key p n | p n. 0 \<le> p \<and> p < 2 ^ 31 \<and> n \<le> s}"

text \<open>The queues of \<open>w\<close> hold the entries \<open>ys\<close>: the saved updates \<open>xs\<close> by pts, ties in order.\<close>

definition holds ::
  "(int \<times> ('u, 'us) pts_item) list \<Rightarrow> ('u, 'us) pts_waiter \<Rightarrow> ('u, 'us) entry list \<Rightarrow> bool" where
  "holds xs w ys \<longleftrightarrow>
    pw_queue w = map (\<lambda>y. (entry_key y, entry_kind y)) ys \<and>
    sorted_wrt (\<lambda>a b. entry_key a < entry_key b) ys \<and>
    (\<forall>y\<in>set ys. 0 \<le> fst y \<and> fst y < 2 ^ 31 \<and> fst (snd y) \<le> pw_skippedKey w \<and> entry_stored w y) \<and>
    (\<forall>k. filter (\<lambda>x. k = fst x) (map entry_item ys) = filter (\<lambda>x. k = fst x) xs) \<and>
    fm_ok (pw_updateQueue w) \<and> fm_ok (pw_updatesQueue w) \<and>
    fst ` set (pw_updateQueue w) \<subseteq> old_keys (pw_skippedKey w) \<and> fst ` set (pw_updatesQueue w) \<subseteq> old_keys (pw_skippedKey w)"

lemma fresh_key:
  assumes "0 \<le> p" and "p < 2 ^ 31" and "s < s + 1"
  shows "pts_key p (s + 1) \<notin> old_keys s"
proof
  assume "pts_key p (s + 1) \<in> old_keys s"
  then obtain q n where q: "pts_key p (s + 1) = pts_key q n" "0 \<le> q" "q < 2 ^ 31" "n \<le> s"
    by (auto simp: old_keys_def)
  then have "\<not> pts_key p (s + 1) < pts_key q n" and "\<not> pts_key q n < pts_key p (s + 1)"
    by simp_all
  then have "p = q" and "s + 1 \<le> n"
    using pts_key_less [OF assms(1,2) q(2,3)] pts_key_less [OF q(2,3) assms(1,2)] by auto
  then show False
    using q(4) assms(3) by simp
qed

lemma old_keys_mono: "s \<le> t \<Longrightarrow> old_keys s \<subseteq> old_keys t"
  unfolding old_keys_def using order.trans by blast

lemma stored_new:
  assumes "fm_ok (pw_updateQueue w)" and "fm_ok (pw_updatesQueue w)"
    and "map_of (pw_updateQueue w) (pts_key p (pw_skippedKey w + 1)) = None"
    and "map_of (pw_updatesQueue w) (pts_key p (pw_skippedKey w + 1)) = None"
  shows "entry_stored (save_item p item w) (p, pw_skippedKey w + 1, item)"
  using assms by (cases item)
    (simp_all add: entry_stored_def entry_key_def save_item_def ptsKey_def Let_def map_of_fm_emplace)

lemma stored_old:
  assumes "fm_ok (pw_updateQueue w)" and "fm_ok (pw_updatesQueue w)"
    and "entry_stored w y" and "entry_key y \<noteq> pts_key p (pw_skippedKey w + 1)"
  shows "entry_stored (save_item p item w) y"
  using assms by (cases item; cases "snd (snd y)")
    (simp_all add: entry_stored_def save_item_def ptsKey_def Let_def map_of_fm_emplace)

lemma save_holds:
  assumes h: "holds xs w ys" and p: "0 \<le> p" "p < 2 ^ 31" and s: "pw_skippedKey w < pw_skippedKey w + 1"
  shows "\<exists>ys'. holds (xs @ [(p, item)]) (save_item p item w) ys'"
proof -
  let ?s = "pw_skippedKey w + 1" and ?w = "save_item p item w"
  let ?new = "(p, ?s, item)" and ?k = "pts_key p ?s"
  let ?A = "takeWhile (\<lambda>y. fst y \<le> p) ys" and ?B = "dropWhile (\<lambda>y. fst y \<le> p) ys"
  have AB: "?A @ ?B = ys" by simp
  have ys: "sorted_wrt (\<lambda>a b. entry_key a < entry_key b) ys"
    and range: "\<And>y. y \<in> set ys \<Longrightarrow> 0 \<le> fst y \<and> fst y < 2 ^ 31 \<and> fst (snd y) \<le> pw_skippedKey w \<and> entry_stored w y"
    using h by (auto simp: holds_def)
  have sAB: "sorted_wrt (\<lambda>a b. entry_key a < entry_key b) (?A @ ?B)"
    using ys by simp
  have A: "entry_key y < ?k" if "y \<in> set ?A" for y
  proof -
    have "y \<in> set ys" and "fst y \<le> p"
      using that by (auto dest: set_takeWhileD)
    then show ?thesis
      using range [of y] s pts_key_less [of "fst y" p "fst (snd y)" ?s] p
      by (auto simp: entry_key_def intro: order.strict_trans1)
  qed
  have B: "p < fst y" if "y \<in> set ?B" for y
  proof (cases ?B)
    case (Cons b B)
    have b: "\<not> fst b \<le> p" "b \<in> set ys"
    proof -
      show "\<not> fst b \<le> p"
        using hd_dropWhile [of "\<lambda>y. fst y \<le> p" ys] Cons by simp
      have "b \<in> set ?B" using Cons by simp
      then show "b \<in> set ys" by (rule set_dropWhileD)
    qed
    have "y = b \<or> entry_key b < entry_key y"
    proof -
      have "sorted_wrt (\<lambda>a b. entry_key a < entry_key b) ?B"
        using sAB unfolding sorted_wrt_append by blast
      then show ?thesis
        using that Cons by auto
    qed
    moreover have "y \<in> set ys"
      using that by (rule set_dropWhileD)
    ultimately have "fst b \<le> fst y"
      using range [of b] range [of y] b(2) pts_key_less [of "fst b" "fst y" "fst (snd b)" "fst (snd y)"]
      by (auto simp: entry_key_def)
    then show ?thesis
      using b(1) by simp
  next
    case Nil
    have "y \<in> set []"
      using that unfolding Nil .
    then show ?thesis by simp
  qed
  have Bk: "?k < entry_key y" if "y \<in> set ?B" for y
    using B [OF that] range [OF set_dropWhileD [OF that]] p pts_key_less [of p "fst y" ?s "fst (snd y)"]
    by (simp add: entry_key_def)
  have key: "entry_key ?new = ?k" "entry_item ?new = (p, item)"
    by (simp_all add: entry_key_def entry_item_def)
  let ?e = "\<lambda>y. (entry_key y, entry_kind y)"
  have old: "pw_queue w = map ?e ?A @ map ?e ?B"
    using h unfolding map_append [symmetric] AB by (simp only: holds_def)
  have queue: "fm_emplace ?k (entry_kind ?new) (pw_queue w) = map ?e (?A @ ?new # ?B)"
    unfolding old map_append list.map key(1) by (rule fm_emplace_between) (use A Bk in auto)
  have "pw_queue ?w = fm_emplace ?k (entry_kind ?new) (pw_queue w)" and skipped: "pw_skippedKey ?w = ?s"
    and stores: "pw_updateQueue ?w = (case item of Update u \<Rightarrow> fm_emplace ?k u (pw_updateQueue w) | _ \<Rightarrow> pw_updateQueue w)"
    "pw_updatesQueue ?w = (case item of Updates u \<Rightarrow> fm_emplace ?k u (pw_updatesQueue w) | _ \<Rightarrow> pw_updatesQueue w)"
    by (cases item; simp add: save_item_def ptsKey_def Let_def entry_kind_def)+
  then have queue': "pw_queue ?w = map ?e (?A @ ?new # ?B)"
    using queue by simp
  note w = queue' skipped stores
  have fresh: "?k \<notin> old_keys (pw_skippedKey w)"
    by (rule fresh_key [OF p s])
  have q: "fm_ok (pw_updateQueue w)" "fm_ok (pw_updatesQueue w)" "map_of (pw_updateQueue w) ?k = None"
      "map_of (pw_updatesQueue w) ?k = None"
    using h fresh by (auto simp: holds_def map_of_eq_None_iff)
  have stored: "entry_stored ?w y" if y: "y \<in> set (?A @ ?new # ?B)" for y
  proof (cases "y = ?new")
    case True
    then show ?thesis
      using stored_new [OF q(1-2) q(3-4)] by simp
  next
    case False
    then have "y \<in> set ?A \<or> y \<in> set ?B" using y by auto
    then have "y \<in> set ys" and "entry_key y < ?k \<or> ?k < entry_key y"
      using A [of y] Bk [of y] by (auto dest: set_takeWhileD set_dropWhileD)
    then have "y \<in> set ys" "entry_key y \<noteq> ?k"
      by auto
    then show ?thesis
      using range stored_old [OF q(1-2)] by blast
  qed
  have "\<forall>k. filter (\<lambda>x. k = fst x) (map entry_item (?A @ ?new # ?B)) = filter (\<lambda>x. k = fst x) (xs @ [(p, item)])"
  proof
    fix k
    have "filter (\<lambda>x. k = fst x) (map entry_item ys) = filter (\<lambda>x. k = fst x) xs"
      using h by (simp add: holds_def)
    then have "filter (\<lambda>x. k = fst x) (map entry_item ?A) @ filter (\<lambda>x. k = fst x) (map entry_item ?B) =
        filter (\<lambda>x. k = fst x) xs"
      unfolding filter_append [symmetric] map_append [symmetric] AB .
    moreover have "filter (\<lambda>x. k = fst x) (map entry_item ?B) = []" if "k = p"
      using B that by (auto simp: filter_empty_conv entry_item_def)
    ultimately show "filter (\<lambda>x. k = fst x) (map entry_item (?A @ ?new # ?B)) = filter (\<lambda>x. k = fst x) (xs @ [(p, item)])"
      by (cases "k = p") (simp_all add: key(2) del: filter_map)
  qed
  moreover have "sorted_wrt (\<lambda>a b. entry_key a < entry_key b) (?A @ ?new # ?B)"
  proof -
    have "\<forall>y\<in>set ?A. entry_key y < entry_key ?new" and "\<forall>y\<in>set ?B. entry_key ?new < entry_key y"
      using A Bk unfolding key(1) by blast+
    then show ?thesis
      using sAB unfolding sorted_wrt_append sorted_wrt.simps by simp
  qed
  moreover have "\<forall>y\<in>set (?A @ ?new # ?B). 0 \<le> fst y \<and> fst y < 2 ^ 31 \<and> fst (snd y) \<le> ?s \<and> entry_stored ?w y"
  proof
    fix y assume y: "y \<in> set (?A @ ?new # ?B)"
    then have "y = ?new \<or> y \<in> set ys"
      by (auto dest: set_takeWhileD set_dropWhileD)
    then show "0 \<le> fst y \<and> fst y < 2 ^ 31 \<and> fst (snd y) \<le> ?s \<and> entry_stored ?w y"
      using stored [OF y] range [of y] p s by auto
  qed
  moreover have "fm_ok (pw_updateQueue ?w)" and "fm_ok (pw_updatesQueue ?w)"
    using q fm_ok_emplace unfolding w by (auto split: pts_item.split)
  moreover have "?k \<in> old_keys ?s" and "old_keys (pw_skippedKey w) \<subseteq> old_keys ?s"
    using p s old_keys_mono [of "pw_skippedKey w" ?s] by (auto simp: old_keys_def)
  then have "fst ` set (pw_updateQueue ?w) \<subseteq> old_keys ?s" and "fst ` set (pw_updatesQueue ?w) \<subseteq> old_keys ?s"
    using h fst_fm_emplace [of ?k _ "pw_updateQueue w"] fst_fm_emplace [of ?k _ "pw_updatesQueue w"]
    unfolding w by (auto simp: holds_def split: pts_item.splits)
  ultimately have "holds (xs @ [(p, item)]) ?w (?A @ ?new # ?B)"
    unfolding holds_def w(1,2) by blast
  then show ?thesis ..
qed

lemma same_filters_empty: "(\<forall>k. filter (\<lambda>x. k = fst x) xs = filter (\<lambda>x. k = fst x) ys) \<Longrightarrow> xs = [] \<longleftrightarrow> ys = []"
  by (cases xs; cases ys) (auto split: if_splits dest: spec [of _ "fst (hd xs)"] spec [of _ "fst (hd ys)"])

lemma holds_iff_empty: "holds xs w ys \<Longrightarrow> pw_queue w = [] \<longleftrightarrow> xs = []"
  using same_filters_empty [of "map entry_item ys" xs] by (simp add: holds_def)

lemma holds_cong:
  "pw_queue v = pw_queue w \<Longrightarrow> pw_updateQueue v = pw_updateQueue w \<Longrightarrow> pw_updatesQueue v = pw_updatesQueue w \<Longrightarrow>
   pw_skippedKey v = pw_skippedKey w \<Longrightarrow> holds xs v ys = holds xs w ys"
  by (simp add: holds_def entry_stored_def cong: pts_item.case_cong)

lemma same_filters_mset:
  fixes xs :: "('k \<times> 'v) list"
  assumes "\<And>k. filter (\<lambda>x. k = fst x) xs = filter (\<lambda>x. k = fst x) ys"
  shows "mset xs = mset ys"
proof (rule multiset_eqI)
  fix a :: "'k \<times> 'v"
  have "count (mset zs) a = count (mset (filter (\<lambda>x. fst a = fst x) zs)) a" for zs
    by simp
  then show "count (mset xs) a = count (mset ys) a"
    using assms by metis
qed

text \<open>The queue as it is walked is the saved updates by pts, ties in order.\<close>

lemma holds_calls:
  assumes "holds xs w ys"
  shows "map (queued_call w) (pw_queue w) = map (\<lambda>x. apply_item (snd x)) (sort_key fst xs)"
proof -
  have h: "pw_queue w = map (\<lambda>y. (entry_key y, entry_kind y)) ys"
      "sorted_wrt (\<lambda>a b. entry_key a < entry_key b) ys"
      "\<forall>y\<in>set ys. 0 \<le> fst y \<and> fst y < 2 ^ 31 \<and> fst (snd y) \<le> pw_skippedKey w \<and> entry_stored w y"
    using assms by (simp_all add: holds_def)
  have "sorted_wrt (\<lambda>a b. fst a \<le> fst b) ys"
  proof (rule sorted_wrt_mono_rel [OF _ h(2)])
    fix a b assume "a \<in> set ys" "b \<in> set ys" "entry_key a < entry_key b"
    then show "fst a \<le> fst b"
      using h(3) pts_key_less [of "fst a" "fst b" "fst (snd a)" "fst (snd b)"] by (auto simp: entry_key_def)
  qed
  then have "sorted (map fst (map entry_item ys))"
    by (simp add: sorted_wrt_map entry_item_def)
  moreover have "\<And>k. filter (\<lambda>x. k = fst x) (map entry_item ys) = filter (\<lambda>x. k = fst x) xs"
    using assms by (simp add: holds_def)
  ultimately have "map entry_item ys = sort_key fst xs"
    using same_filters_mset by (intro properties_for_sort_key [symmetric]) blast+
  moreover have "queued_call w (entry_key y, entry_kind y) = apply_item (snd (entry_item y))" if "y \<in> set ys" for y
    using h(3) that by (cases "snd (snd y)")
      (auto simp: queued_call_def entry_kind_def entry_item_def apply_item_def entry_stored_def)
  ultimately show ?thesis
    unfolding h(1) by (simp flip: \<open>map entry_item ys = sort_key fst xs\<close> add: comp_def)
qed

text \<open>The updates the owner has been told to apply, without the timer calls.\<close>

definition applied :: "('u, 'us) owner_call list \<Rightarrow> ('u, 'us) owner_call list" where
  "applied cs = filter (\<lambda>c. case c of StartTimer _ \<Rightarrow> False | _ \<Rightarrow> True) cs"

definition deliver :: "int \<times> int \<times> ('u, 'us) pts_item \<Rightarrow> ('u, 'us) pts_waiter \<Rightarrow> bool \<times> ('u, 'us) pts_waiter" where
  "deliver x w = updateAndApply (fst x) (fst (snd x)) (Some (snd (snd x))) w"

text \<open>Every one of these updates is put aside, none of them applied.\<close>

fun all_saved :: "(int \<times> int \<times> ('u, 'us) pts_item) list \<Rightarrow> ('u, 'us) pts_waiter \<Rightarrow> bool" where
  "all_saved [] w = True"
| "all_saved (x # xs) w \<longleftrightarrow> \<not> fst (deliver x w) \<and> all_saved xs (snd (deliver x w))"

definition after :: "(int \<times> int \<times> ('u, 'us) pts_item) list \<Rightarrow> ('u, 'us) pts_waiter \<Rightarrow> ('u, 'us) pts_waiter" where
  "after xs w = fold (\<lambda>x w. snd (deliver x w)) xs w"

definition saved :: "int \<times> int \<times> ('u, 'us) pts_item \<Rightarrow> int \<times> ('u, 'us) pts_item" where
  "saved x = (fst x, snd (snd x))"

lemma applied_simps [simp]:
  "applied [] = []" "applied (xs @ ys) = applied xs @ applied ys" "applied [StartTimer t] = []"
  "applied (apply_item i # cs) = apply_item i # applied cs"
  "applied (map (\<lambda>x. apply_item (f x)) zs) = map (\<lambda>x. apply_item (f x)) zs"
  by (auto simp: applied_def apply_item_def split: pts_item.split)

lemma waiting_queues [simp]:
  "pw_queue (setWaitingForSkipped ms w) = pw_queue w"
  "pw_updateQueue (setWaitingForSkipped ms w) = pw_updateQueue w"
  "pw_updatesQueue (setWaitingForSkipped ms w) = pw_updatesQueue w"
  "pw_skippedKey (setWaitingForSkipped ms w) = pw_skippedKey w"
  "applied (pw_calls (setWaitingForSkipped ms w)) = applied (pw_calls w)"
  "pw_waitingForSkipped (setWaitingForSkipped ms w) \<longleftrightarrow> ms \<ge> 0"
  by (simp_all add: setWaitingForSkipped_def checkForWaiting_def owner_do_def)

lemma check_inited:
  assumes "pw_good w > 0"
  shows "pw_queue (snd (check pts cnt w)) = pw_queue w" "pw_updateQueue (snd (check pts cnt w)) = pw_updateQueue w"
    "pw_updatesQueue (snd (check pts cnt w)) = pw_updatesQueue w" "pw_skippedKey (snd (check pts cnt w)) = pw_skippedKey w"
    "applied (pw_calls (snd (check pts cnt w))) = applied (pw_calls w)"
    "pw_requesting (snd (check pts cnt w)) = pw_requesting w"
    "pw_applySkippedLevel (snd (check pts cnt w)) = pw_applySkippedLevel w"
    "pw_waitingForSkipped w \<Longrightarrow> pw_waitingForSkipped (snd (check pts cnt w))"
    "\<not> fst (check pts cnt w) \<Longrightarrow> pw_waitingForSkipped (snd (check pts cnt w)) \<and> pw_good (snd (check pts cnt w)) = pw_good w"
  using assms by (simp_all add: check_def Let_def inited_def kWaitForSkippedTimeout_def split: if_splits)

lemma save_fields [simp]:
  "pw_waitingForSkipped (save_item pts i w) = pw_waitingForSkipped w" "pw_calls (save_item pts i w) = pw_calls w"
  "pw_skippedKey (save_item pts i w) = pw_skippedKey w + 1"
  by (simp_all add: save_item_def ptsKey_def Let_def split: pts_item.split)

text \<open>The waiter after \<open>xs\<close> have been put aside since it was \<open>v\<close>.\<close>

definition waits :: "('u, 'us) pts_waiter \<Rightarrow> (int \<times> int \<times> ('u, 'us) pts_item) list \<Rightarrow> ('u, 'us) pts_waiter \<Rightarrow> bool" where
  "waits v xs w \<longleftrightarrow>
    (\<exists>ys. holds (map saved xs) w ys) \<and> (xs \<noteq> [] \<longrightarrow> pw_waitingForSkipped w) \<and> \<not> pw_requesting w \<and>
    pw_applySkippedLevel w = 0 \<and> pw_good w = pw_good v \<and> 0 < pw_good v \<and>
    applied (pw_calls w) = applied (pw_calls v) \<and> unat (pw_skippedKey w) = unat (pw_skippedKey v) + length xs"

lemma key_next:
  fixes s :: u32
  assumes "unat s + 1 < 2 ^ 32"
  shows "s < s + 1" "unat (s + 1) = unat s + 1"
proof -
  show "unat (s + 1) = unat s + 1"
    using assms by (simp add: unat_word_ariths)
  then show "s < s + 1"
    by (simp add: word_less_nat_alt)
qed

lemma updated_unfold:
  assumes "waits v xs w"
  shows "updated pts cnt (Some i) w =
    (if pts \<le> pw_good v \<and> cnt > 0 then (False, w)
     else let c = check pts cnt w in if fst c then c else (False, save_item pts i (snd c)))"
  using assms by (auto simp: waits_def updated_def Let_def split: prod.split bool.split)

lemma applySkipped_holds:
  assumes "holds xs w ys" and "pw_waitingForSkipped w" and "xs \<noteq> []"
  shows "applied (pw_calls (applySkippedUpdates w)) = applied (pw_calls w) @ map (\<lambda>x. apply_item (snd x)) (sort_key fst xs)"
    and "pw_queue (applySkippedUpdates w) = []"
proof -
  let ?w = "setWaitingForSkipped (- 1) w"
  have "map (queued_call ?w) (pw_queue w) = map (\<lambda>x. apply_item (snd x)) (sort_key fst xs)"
    using holds_calls [of xs ?w ys] assms(1) holds_cong [of ?w w xs ys] by simp
  moreover have "queued_call (u\<lparr>pw_applySkippedLevel := n\<rparr>) = queued_call u" for u :: "('a, 'b) pts_waiter" and n
    by (rule ext) (simp add: queued_call_def cong: prod.case_cong skipped_queue.case_cong)
  moreover have "pw_queue w \<noteq> []"
    using assms(1,3) by (simp add: holds_iff_empty)
  ultimately show "applied (pw_calls (applySkippedUpdates w)) = applied (pw_calls w) @ map (\<lambda>x. apply_item (snd x)) (sort_key fst xs)"
    and "pw_queue (applySkippedUpdates w) = []"
    using assms(2) by (simp_all add: applySkippedUpdates_def Let_def clearSkippedUpdates_def owner_do_def)
qed

lemma waits_check:
  fixes cnt :: int
  assumes "waits v xs w" and "pw_good v < pts" and "pts < 2 ^ 31" and "unat (pw_skippedKey v) + length xs + 1 < 2 ^ 32"
  defines "u \<equiv> snd (check pts cnt w)"
  shows "\<exists>ys. holds (map saved xs) u ys" "\<exists>ys. holds (map saved xs @ [(pts, i)]) (save_item pts i u) ys"
    "pw_queue u = [] \<longleftrightarrow> xs = []" "unat (pw_skippedKey (save_item pts i u)) = unat (pw_skippedKey w) + 1"
proof -
  have good: "pw_good w > 0"
    using assms(1) by (simp add: waits_def)
  obtain ys where "holds (map saved xs) w ys"
    using assms(1) by (auto simp: waits_def)
  then have h: "holds (map saved xs) u ys"
    unfolding u_def by (subst holds_cong [OF check_inited(1-4) [OF good]])
  then show "\<exists>ys. holds (map saved xs) u ys" by blast
  have "unat (pw_skippedKey u) + 1 < 2 ^ 32"
    using assms(1,4) check_inited(4) [OF good] by (simp add: waits_def u_def)
  note key = key_next [OF this]
  show "\<exists>ys. holds (map saved xs @ [(pts, i)]) (save_item pts i u) ys"
    by (rule save_holds [OF h _ _ key(1)]) (use assms good in \<open>auto simp: waits_def\<close>)
  show "unat (pw_skippedKey (save_item pts i u)) = unat (pw_skippedKey w) + 1"
    using key(2) check_inited(4) [OF good] by (simp add: u_def)
  show "pw_queue u = [] \<longleftrightarrow> xs = []"
    using holds_iff_empty [OF h] by simp
qed

lemma deliver_saved:
  assumes w: "waits v xs w" and x: "pw_good v < fst x" "fst x < 2 ^ 31" and n: "unat (pw_skippedKey v) + length xs + 1 < 2 ^ 32"
    and r: "\<not> fst (deliver x w)"
  shows "waits v (xs @ [x]) (snd (deliver x w))"
proof -
  obtain pts cnt i where xi: "x = (pts, cnt, i)" by (cases x)
  let ?c = "check pts cnt w"
  have good: "pw_good w > 0"
    using w by (simp add: waits_def)
  have u: "updated pts cnt (Some i) w = (if fst ?c then ?c else (False, save_item pts i (snd ?c)))"
    using updated_unfold [OF w, of pts cnt i] x(1) by (simp add: xi Let_def)
  then have "\<not> fst ?c"
    using r by (cases "fst ?c") (auto simp: deliver_def updateAndApply_def xi split: prod.splits)
  then have "snd (deliver x w) = save_item pts i (snd ?c)"
    using u by (simp add: deliver_def updateAndApply_def xi)
  moreover have "saved x = (pts, i)"
    by (simp add: saved_def xi)
  ultimately show ?thesis
    using w waits_check(2,4) [OF w x n, where cnt = cnt and i = i] check_inited(5-7) [OF good] check_inited(9) [OF good \<open>\<not> fst ?c\<close>]
    unfolding waits_def by (simp add: xi)
qed

lemma deliver_applied:
  assumes w: "waits v xs w" and x: "pw_good v < fst x" "fst x < 2 ^ 31" and n: "unat (pw_skippedKey v) + length xs + 1 < 2 ^ 32"
    and r: "fst (deliver x w)"
  shows "applied (pw_calls (snd (deliver x w))) =
      applied (pw_calls v) @ map (\<lambda>x. apply_item (snd x)) (sort_key fst (map saved (xs @ [x])))"
    and "pw_queue (snd (deliver x w)) = []"
proof -
  obtain pts cnt i where xi: "x = (pts, cnt, i)" by (cases x)
  let ?c = "check pts cnt w"
  have good: "pw_good w > 0" and calls: "applied (pw_calls w) = applied (pw_calls v)"
    and waiting: "xs \<noteq> [] \<longrightarrow> pw_waitingForSkipped w"
    using w by (simp_all add: waits_def)
  have u: "updated pts cnt (Some i) w = (if fst ?c then ?c else (False, save_item pts i (snd ?c)))"
    using updated_unfold [OF w, of pts cnt i] x(1) by (simp add: xi Let_def)
  then have c: "fst ?c"
    using r by (cases "fst ?c") (auto simp: deliver_def updateAndApply_def xi split: prod.splits)
  have "snd (deliver x w) = (if \<not> pw_waitingForSkipped (snd ?c) \<or> xs = [] then owner_do [apply_item i] (snd ?c)
      else applySkippedUpdates (save_item pts i (snd ?c)))"
    using u c waits_check(3) [OF w x n, of cnt] by (cases ?c) (simp add: deliver_def updateAndApply_def xi)
  moreover have "saved x = (pts, i)"
    by (simp add: saved_def xi)
  moreover obtain ys where "holds (map saved xs @ [(pts, i)]) (save_item pts i (snd ?c)) ys"
    using waits_check(2) [OF w x n, where cnt = cnt and i = i] by (auto simp: xi)
  note apply_saved = applySkipped_holds [OF this]
  ultimately show "applied (pw_calls (snd (deliver x w))) =
      applied (pw_calls v) @ map (\<lambda>x. apply_item (snd x)) (sort_key fst (map saved (xs @ [x])))"
    and "pw_queue (snd (deliver x w)) = []"
    using waiting calls check_inited(5,8) [OF good] waits_check(3) [OF w x n, of cnt]
    by (cases "xs = []"; simp add: owner_do_def xi)+
qed

lemma all_saved_waits:
  assumes "waits v xs w" and "\<forall>x\<in>set zs. pw_good v < fst x \<and> fst x < 2 ^ 31"
    and "unat (pw_skippedKey v) + length (xs @ zs) < 2 ^ 32" and "all_saved zs w"
  shows "waits v (xs @ zs) (after zs w)"
  using assms
proof (induction zs arbitrary: xs w)
  case (Cons z zs)
  have "waits v (xs @ [z]) (snd (deliver z w))"
    by (rule deliver_saved) (use Cons.prems in auto)
  then show ?case
    using Cons.IH [of "xs @ [z]" "snd (deliver z w)"] Cons.prems by (simp add: after_def)
qed (simp add: after_def)

text \<open>
  C20: Updates that \<open>updateAndApply\<close> puts aside because they came too early are applied once
  an update fills the gap: each of them once, together with the filling one, in the order
  of their pts (ties in the order of arrival), and nothing stays in the queue.
\<close>

theorem early_updates_apply_in_order:
  assumes "0 < pw_good w" and "\<not> pw_requesting w" and "pw_applySkippedLevel w = 0"
    and "pw_queue w = []" and "pw_updateQueue w = []" and "pw_updatesQueue w = []"
    and "\<forall>x\<in>set (xs @ [z]). pw_good w < fst x \<and> fst x < 2 ^ 31"
    and "unat (pw_skippedKey w) + length xs + 1 < 2 ^ 32"
    and "all_saved xs w" and "fst (deliver z (after xs w))"
  shows "applied (pw_calls (snd (deliver z (after xs w)))) =
      applied (pw_calls w) @ map (\<lambda>x. apply_item (snd x)) (sort_key fst (map saved (xs @ [z]))) \<and>
    pw_queue (snd (deliver z (after xs w))) = []"
proof -
  have "holds (map saved []) w []"
    using assms by (simp add: holds_def)
  then have "waits w [] w"
    using assms by (auto simp: waits_def)
  then have "waits w ([] @ xs) (after xs w)"
    by (rule all_saved_waits) (use assms in auto)
  then show ?thesis
    using deliver_applied [of w xs "after xs w" z] assms by simp
qed

theorem early_updates_apply_in_order_witness:
  "applied (pw_calls (snd (deliver (11, 1, Update (1::nat)) (after [(13, 1, Update 3), (12, 1, Update 2)]
      (pts_init 10 (new_waiter :: (nat, nat) pts_waiter)))))) =
    [ApplyUpdate (Some 1), ApplyUpdate (Some 2), ApplyUpdate (Some 3)]"
proof -
  let ?w = "pts_init 10 (new_waiter :: (nat, nat) pts_waiter)"
  let ?xs = "[(13, 1, Update 3), (12, 1, Update 2)] :: (int \<times> int \<times> (nat, nat) pts_item) list"
  have "pw_good ?w = 10" "\<not> pw_requesting ?w" "pw_applySkippedLevel ?w = 0" "pw_queue ?w = []"
      "pw_updateQueue ?w = []" "pw_updatesQueue ?w = []" "pw_skippedKey ?w = 0" "pw_calls ?w = []"
    by (simp_all add: pts_init_def new_waiter_def clearSkippedUpdates_def)
  moreover have "all_saved ?xs ?w" and "fst (deliver (11, 1, Update 1) (after ?xs ?w))"
    by code_simp+
  ultimately show ?thesis
    using early_updates_apply_in_order [of ?w ?xs "(11, 1, Update 1)"]
    by (simp add: saved_def apply_item_def)
qed

end
