(* ===== verification/Phrase_Shares.thy ===== *)
theory Phrase_Shares
  imports Byte_Words
begin

unbundle bit_operations_syntax

text \<open>
  The backup of the secret phrase in shares, \<open>wallet/wallet_phrase_shares.cpp\<close>, and
  its use in \<open>wallet/wallet_session.cpp\<close>. TL strings (\<open>lib_tl\<close>), the key pairs of
  \<open>TdE2E\<close> and the UTF-8 conversions are parameters. \<open>RandomFill\<close> of share \<open>i\<close> is
  \<open>rnd i\<close>, byte by byte.
\<close>

section \<open>The code around\<close>

record 'k sealing =
  se_toUtf8 :: "qstring \<Rightarrow> bytes"
  se_fromUtf8 :: "bytes \<Rightarrow> qstring"
  se_writeString :: "bytes \<Rightarrow> u32 list"
  se_readString :: "u32 list \<Rightarrow> (bytes \<times> u32 list) option"
  se_publicKey :: "'k \<Rightarrow> bytes"
  se_encryptForOne :: "'k \<Rightarrow> bytes \<Rightarrow> bytes \<Rightarrow> bytes option"
  se_decryptForOne :: "'k \<Rightarrow> bytes \<Rightarrow> bytes \<Rightarrow> bytes option"

definition kPublicKeySize :: nat where "kPublicKeySize = 32"
definition kSeedLength :: nat where "kSeedLength = 215"
definition kDecryptedKeyPartId :: u32 where "kDecryptedKeyPartId = 0x8b90dd08"

section \<open>Sealed parts\<close>

fun le_words :: "bytes \<Rightarrow> u32 list" where
  "le_words (a # b # c # d # bs) = le_value [a, b, c, d] # le_words bs"
| "le_words _ = []"

definition words_bytes :: "u32 list \<Rightarrow> bytes" where
  "words_bytes ws = concat (map (le_bytes 4) ws)"

definition ParseDecryptedKeyPart :: "'k sealing \<Rightarrow> bytes \<Rightarrow> bytes option" where
  "ParseDecryptedKeyPart S plain =
    (if plain = [] \<or> length plain mod 4 \<noteq> 0 then None
     else
       let buffer = le_words plain
       in if hd buffer \<noteq> kDecryptedKeyPartId then None
          else case se_readString S (tl buffer) of
                 None \<Rightarrow> None
               | Some (share, from) \<Rightarrow> if from \<noteq> [] then None else Some share)"

definition SerializeDecryptedKeyPart :: "'k sealing \<Rightarrow> bytes \<Rightarrow> bytes" where
  "SerializeDecryptedKeyPart S share = words_bytes (kDecryptedKeyPartId # se_writeString S share)"

definition DecryptShare :: "'k sealing \<Rightarrow> 'k \<Rightarrow> bytes \<Rightarrow> bytes option" where
  "DecryptShare S keys data =
    (if length data \<le> kPublicKeySize then None
     else case se_decryptForOne S keys (take kPublicKeySize data) (drop kPublicKeySize data) of
            None \<Rightarrow> None
          | Some plain \<Rightarrow> ParseDecryptedKeyPart S plain)"

text \<open>\<open>pair\<close> is what \<open>Generate\<close> returns.\<close>

definition EncryptShare :: "'k sealing \<Rightarrow> 'k option \<Rightarrow> bytes \<Rightarrow> bytes \<Rightarrow> bytes option" where
  "EncryptShare S pair holderPublicKey share =
    (if length holderPublicKey \<noteq> kPublicKeySize then None
     else case pair of
            None \<Rightarrow> None
          | Some pair \<Rightarrow>
              (case se_encryptForOne S pair holderPublicKey (SerializeDecryptedKeyPart S share) of
                 None \<Rightarrow> None
               | Some cipher \<Rightarrow> Some (se_publicKey S pair @ cipher)))"

section \<open>Splitting and combining\<close>

definition xor_bytes :: "bytes \<Rightarrow> bytes \<Rightarrow> bytes" where
  "xor_bytes to from = map (\<lambda>i. to ! i XOR from ! i) [0..<length to]"

fun combine_loop :: "nat \<Rightarrow> bytes list \<Rightarrow> bytes \<Rightarrow> bytes option" where
  "combine_loop len [] to = Some to"
| "combine_loop len (share # shares) to =
     (if length share \<noteq> len then None else combine_loop len shares (xor_bytes to share))"

definition CombineShares :: "bytes list \<Rightarrow> bytes option" where
  "CombineShares shares =
    (if shares = [] \<or> hd shares = [] then None
     else let len = length (hd shares) in combine_loop len shares (replicate len 0))"

fun join_words :: "qstring list \<Rightarrow> qstring" where
  "join_words [] = []"
| "join_words [w] = w"
| "join_words (w # ws) = w @ 32 # join_words ws"

definition SeedFromWords :: "'k sealing \<Rightarrow> qstring list \<Rightarrow> bytes" where
  "SeedFromWords S words =
    (let joined = se_toUtf8 S (join_words words)
     in if length joined > kSeedLength then []
        else joined @ replicate (kSeedLength - length joined) 32)"

definition random_share :: "(nat \<Rightarrow> nat \<Rightarrow> byte) \<Rightarrow> nat \<Rightarrow> nat \<Rightarrow> bytes" where
  "random_share rnd len i = map (rnd i) [0..<len]"

definition split_last :: "(nat \<Rightarrow> nat \<Rightarrow> byte) \<Rightarrow> nat \<Rightarrow> bytes \<Rightarrow> bytes" where
  "split_last rnd n seed = fold (\<lambda>i to. xor_bytes to (random_share rnd (length seed) i)) [0..<n] seed"

definition SplitSeed :: "(nat \<Rightarrow> nat \<Rightarrow> byte) \<Rightarrow> bytes \<Rightarrow> nat \<Rightarrow> bytes list result" where
  "SplitSeed rnd seed count =
    (if \<not> (count \<ge> 2 \<and> seed \<noteq> []) then Inl (Abort ''Expects'')
     else Inr (map (random_share rnd (length seed)) [0..<count - 1] @ [split_last rnd (count - 1) seed]))"

section \<open>The backup\<close>

text \<open>The holders are their data centre and key.\<close>

definition ParseBackupHolderKeys :: "(int \<times> bytes) list \<Rightarrow> bytes list option" where
  "ParseBackupHolderKeys holders =
    (if length holders < 2 then None
     else
       case fold (\<lambda>(dc, key) r. case r of None \<Rightarrow> None | Some (dcs, result) \<Rightarrow>
           if dc \<le> 0 \<or> dc \<in> set dcs \<or> length key \<noteq> kPublicKeySize then None
           else Some (dcs @ [dc], result @ [key])) holders (Some ([], [])) of
         None \<Rightarrow> None
       | Some (dcs, result) \<Rightarrow> Some result)"

fun seal_loop :: "'k sealing \<Rightarrow> (nat \<Rightarrow> 'k option) \<Rightarrow> nat \<Rightarrow> (bytes \<times> bytes) list \<Rightarrow> bytes list option" where
  "seal_loop S pairs i [] = Some []"
| "seal_loop S pairs i ((key, share) # rest) =
     (case EncryptShare S (pairs i) key share of
        None \<Rightarrow> None
      | Some part \<Rightarrow> map_option (\<lambda>parts. part # parts) (seal_loop S pairs (Suc i) rest))"

definition SealBackupParts ::
  "'k sealing \<Rightarrow> (nat \<Rightarrow> nat \<Rightarrow> byte) \<Rightarrow> (nat \<Rightarrow> 'k option) \<Rightarrow> bytes list \<Rightarrow> qstring list
    \<Rightarrow> bytes list option result" where
  "SealBackupParts S rnd pairs holderKeys words =
    (let seed = SeedFromWords S words
     in if seed = [] then Inr None
        else bind_result (SplitSeed rnd seed (length holderKeys)) (\<lambda>shares.
          Inr (seal_loop S pairs 0 (zip holderKeys shares))))"

definition SplitWords :: "qstring \<Rightarrow> qstring list" where
  "SplitWords phrase = filter (\<lambda>w. w \<noteq> []) (split_on 32 phrase)"

section \<open>Shares as sums\<close>

definition xor_sum :: "byte list \<Rightarrow> byte" where
  "xor_sum bs = foldr (XOR) bs 0"

lemma xor_sum_simps [simp]:
  "xor_sum [] = 0" "xor_sum (b # bs) = b XOR xor_sum bs" "xor_sum (as @ bs) = xor_sum as XOR xor_sum bs"
  by (simp_all add: xor_sum_def, induction as) (simp_all add: xor.assoc)

lemma xor_sum_update:
  "j < length xs \<Longrightarrow> xor_sum (map f (xs[j := y])) = xor_sum (map f xs) XOR f (xs ! j) XOR f y"
proof (induction xs arbitrary: j)
  case (Cons x xs)
  then show ?case
    by (cases j) (simp_all add: xor.left_commute xor.commute xor.assoc)
qed simp

lemma xor_bytes_simps [simp]:
  "length (xor_bytes to from) = length to"
  "j < length to \<Longrightarrow> xor_bytes to from ! j = to ! j XOR from ! j"
  by (simp_all add: xor_bytes_def)

lemma combine_loop_sum:
  "length to = len \<Longrightarrow> \<forall>s\<in>set shares. length s = len \<Longrightarrow>
   \<exists>r. combine_loop len shares to = Some r \<and> length r = len \<and>
     (\<forall>j<len. r ! j = to ! j XOR xor_sum (map (\<lambda>s. s ! j) shares))"
proof (induction shares arbitrary: to)
  case (Cons s shares)
  then show ?case
    using Cons.IH [of "xor_bytes to s"] by (auto simp: xor.assoc)
qed simp

lemma split_last_sum:
  "length (split_last rnd n seed) = length seed"
  "j < length seed \<Longrightarrow> split_last rnd n seed ! j = seed ! j XOR xor_sum (map (\<lambda>i. rnd i j) [0..<n])"
proof (induction n)
  case (Suc n)
  have step: "split_last rnd (Suc n) seed = xor_bytes (split_last rnd n seed) (random_share rnd (length seed) n)"
    by (simp add: split_last_def)
  {
    case 1
    show ?case using Suc(1) by (simp add: step)
  next
    case 2
    then show ?case using Suc by (simp add: step random_share_def xor.assoc)
  }
qed (simp_all add: split_last_def)

text \<open>The lists of shares a seed can be split into are those that sum up to it.\<close>

lemma split_iff:
  assumes "count \<ge> 2" and "seed \<noteq> []"
  shows "(\<exists>rnd. SplitSeed rnd seed count = Inr shares) \<longleftrightarrow>
    length shares = count \<and> (\<forall>s\<in>set shares. length s = length seed) \<and>
    (\<forall>j<length seed. xor_sum (map (\<lambda>s. s ! j) shares) = seed ! j)" (is "?split \<longleftrightarrow> ?sums")
proof
  assume ?split
  then show ?sums
    using assms
    by (auto simp: SplitSeed_def random_share_def split_last_sum comp_def xor.left_commute)
next
  assume sums: ?sums
  let ?rnd = "\<lambda>i j. shares ! i ! j"
  have shares: "shares = take (count - 1) shares @ [shares ! (count - 1)]"
    using sums assms(1) take_Suc_conv_app_nth [of "count - 1" shares] by simp
  have first: "map (random_share ?rnd (length seed)) [0..<count - 1] = take (count - 1) shares"
  proof (rule nth_equalityI)
    fix i assume "i < length (map (random_share ?rnd (length seed)) [0..<count - 1])"
    then show "map (random_share ?rnd (length seed)) [0..<count - 1] ! i = take (count - 1) shares ! i"
      using sums by (auto simp: random_share_def intro!: nth_equalityI)
  qed (use sums in simp)
  have "split_last ?rnd (count - 1) seed = shares ! (count - 1)"
  proof (rule nth_equalityI)
    show "length (split_last ?rnd (count - 1) seed) = length (shares ! (count - 1))"
      using sums assms(1) by (simp add: split_last_sum)
    fix j assume "j < length (split_last ?rnd (count - 1) seed)"
    then have j: "j < length seed" by (simp add: split_last_sum)
    have "map (\<lambda>i. ?rnd i j) [0..<count - 1] = map (\<lambda>s. s ! j) (take (count - 1) shares)"
      unfolding first [symmetric] using j by (simp add: random_share_def)
    moreover have "seed ! j = xor_sum (map (\<lambda>s. s ! j) (take (count - 1) shares @ [shares ! (count - 1)]))"
      using sums j unfolding shares [symmetric] by simp
    ultimately show "split_last ?rnd (count - 1) seed ! j = shares ! (count - 1) ! j"
      using j by (simp add: split_last_sum xor.commute xor.left_commute)
  qed
  then have "SplitSeed ?rnd seed count = Inr shares"
    using assms first shares by (simp add: SplitSeed_def)
  then show ?split by blast
qed

lemma combine_split:
  assumes "SplitSeed rnd seed count = Inr shares"
  shows "CombineShares shares = Some seed"
proof -
  have c: "count \<ge> 2" "seed \<noteq> []"
    using assms by (auto simp: SplitSeed_def split: if_splits)
  then have sums: "length shares = count" "\<forall>s\<in>set shares. length s = length seed"
      "\<forall>j<length seed. xor_sum (map (\<lambda>s. s ! j) shares) = seed ! j"
    using split_iff [of count seed shares] assms by blast+
  have hd: "shares \<noteq> []"
    using c sums(1) by auto
  then have len: "length (hd shares) = length seed"
    using sums(2) hd_in_set by blast
  obtain r where r: "combine_loop (length seed) shares (replicate (length seed) 0) = Some r" "length r = length seed"
      "\<forall>j<length seed. r ! j = seed ! j"
    using combine_loop_sum [of "replicate (length seed) 0" "length seed" shares] sums by auto
  then have "r = seed"
    by (intro nth_equalityI) auto
  then show ?thesis
    using r(1) hd len c(2) by (auto simp: CombineShares_def Let_def)
qed

text \<open>
  C25: All the shares but one say nothing about the seed: for every other seed of that
  length there is exactly one list of shares it can be split into that agrees on them. As
  the random bytes are the first shares, every seed is equally likely to those who lack
  one share, whichever it is.
\<close>

theorem shares_hide_seed:
  assumes "SplitSeed rnd seed count = Inr shares" and "length seed' = length seed" and "j < count"
  shows "\<exists>!shares'. (\<exists>rnd'. SplitSeed rnd' seed' count = Inr shares') \<and> (\<forall>i<count. i \<noteq> j \<longrightarrow> shares' ! i = shares ! i)"
proof -
  have c: "count \<ge> 2" "seed \<noteq> []" "seed' \<noteq> []"
    using assms by (auto simp: SplitSeed_def split: if_splits)
  have sums: "length shares = count" "\<forall>s\<in>set shares. length s = length seed"
      "\<forall>b<length seed. xor_sum (map (\<lambda>s. s ! b) shares) = seed ! b"
    using split_iff [OF c(1,2), of shares] assms(1) by blast+
  then have len: "length (shares ! j) = length seed"
    using assms(3) by simp
  let ?new = "xor_bytes (shares ! j) (xor_bytes seed seed')"
  let ?shares = "shares[j := ?new]"
  show ?thesis
  proof (rule ex1I [of _ ?shares])
    have "xor_sum (map (\<lambda>s. s ! b) ?shares) = seed' ! b" if "b < length seed'" for b
      using that sums assms(2,3) len by (simp add: xor_sum_update xor.left_commute xor.commute xor.assoc)
    moreover have "\<forall>s\<in>set ?shares. length s = length seed'"
      using sums len assms(2) set_update_subset_insert [of shares j ?new] by auto
    ultimately have "\<exists>rnd'. SplitSeed rnd' seed' count = Inr ?shares"
      using split_iff [OF c(1,3), of ?shares] sums(1) by simp
    then show "(\<exists>rnd'. SplitSeed rnd' seed' count = Inr ?shares) \<and> (\<forall>i<count. i \<noteq> j \<longrightarrow> ?shares ! i = shares ! i)"
      using sums(1) by simp
  next
    fix shares'
    assume h: "(\<exists>rnd'. SplitSeed rnd' seed' count = Inr shares') \<and> (\<forall>i<count. i \<noteq> j \<longrightarrow> shares' ! i = shares ! i)"
    then have sums': "length shares' = count" "\<forall>s\<in>set shares'. length s = length seed'"
      "\<forall>b<length seed'. xor_sum (map (\<lambda>s. s ! b) shares') = seed' ! b"
      using split_iff [OF c(1,3), of shares'] by blast+
    have eq: "shares' = shares[j := shares' ! j]"
    proof (rule nth_equalityI)
      fix i assume "i < length shares'"
      then show "shares' ! i = shares[j := shares' ! j] ! i"
        using h sums(1) sums'(1) assms(3) by (simp add: nth_list_update)
    qed (use sums(1) sums'(1) in simp)
    have "shares' ! j = ?new"
    proof (rule nth_equalityI)
      show "length (shares' ! j) = length ?new"
        using sums' len assms(2,3) by simp
      fix b assume "b < length (shares' ! j)"
      then have b: "b < length seed" "b < length seed'"
        using sums' assms(2,3) by auto
      have "seed' ! b = xor_sum (map (\<lambda>s. s ! b) shares) XOR shares ! j ! b XOR shares' ! j ! b"
        using sums'(3) b xor_sum_update [of j shares "\<lambda>s. s ! b" "shares' ! j"] eq assms(3) sums(1) by simp
      then show "shares' ! j ! b = ?new ! b"
        using sums(3) b len by (simp add: xor.left_commute xor.commute xor.assoc)
    qed
    with eq show "shares' = ?shares" by simp
  qed
qed

section \<open>Sealing and opening\<close>

lemma le_words_bytes: "le_words (words_bytes ws) = ws"
proof (induction ws)
  case (Cons w ws)
  have "le_bytes 4 w = [le_bytes 4 w ! 0, le_bytes 4 w ! 1, le_bytes 4 w ! 2, le_bytes 4 w ! 3]"
    by (simp add: le_bytes_4)
  moreover have "le_value (le_bytes 4 w) = w"
    by (simp add: le_value_le_bytes_full)
  ultimately show ?case
    using Cons by (simp add: words_bytes_def del: le_value.simps)
qed (simp add: words_bytes_def)

lemma length_words_bytes: "length (words_bytes ws) = 4 * length ws"
  by (induction ws) (simp_all add: words_bytes_def)

lemma parse_serialized:
  assumes "\<And>r. se_readString S (se_writeString S share @ r) = Some (share, r)"
  shows "ParseDecryptedKeyPart S (SerializeDecryptedKeyPart S share) = Some share"
proof -
  have "words_bytes (kDecryptedKeyPartId # se_writeString S share) \<noteq> []"
    using length_words_bytes [of "kDecryptedKeyPartId # se_writeString S share"] by auto
  then show ?thesis
    using assms [of "[]"]
    by (simp add: ParseDecryptedKeyPart_def SerializeDecryptedKeyPart_def le_words_bytes length_words_bytes)
qed

text \<open>
  What the seal of a part relies on: TL strings, which end at 16 MB, are read back, a public
  key has 32 bytes, and what one pair encrypts for the key of another, the other decrypts from the
  key of the one; a ciphertext is not empty.
\<close>

definition sealing_laws :: "'k sealing \<Rightarrow> bool" where
  "sealing_laws S \<longleftrightarrow>
    (\<forall>share r. length share < 2 ^ 24 \<longrightarrow> se_readString S (se_writeString S share @ r) = Some (share, r)) \<and>
    (\<forall>k. length (se_publicKey S k) = kPublicKeySize) \<and>
    (\<forall>a b m c. se_encryptForOne S a (se_publicKey S b) m = Some c \<longrightarrow>
      c \<noteq> [] \<and> se_decryptForOne S b (se_publicKey S a) c = Some m)"

lemma decrypt_encrypted:
  assumes "sealing_laws S" and "EncryptShare S pair (se_publicKey S holder) share = Some part" and "length share < 2 ^ 24"
  shows "DecryptShare S holder part = Some share"
  using assms parse_serialized [of S share]
  by (auto simp: EncryptShare_def DecryptShare_def sealing_laws_def split: option.splits if_splits)

lemma seal_loop_opens:
  assumes "sealing_laws S" and "length shares = length holders" and "\<forall>s\<in>set shares. length s < 2 ^ 24"
    and "seal_loop S pairs i (zip (map (se_publicKey S) holders) shares) = Some parts"
  shows "length parts = length holders \<and> map2 (DecryptShare S) holders parts = map Some shares"
  using assms(2-)
proof (induction holders shares arbitrary: i parts rule: list_induct2')
  case (4 h hs sh shs)
  then show ?case
    using decrypt_encrypted [OF assms(1)] by (auto split: option.splits)
qed simp_all

lemma split_on_padding: "filter (\<lambda>w. w \<noteq> []) (split_on c (replicate n c)) = []"
  by (induction n) simp_all

lemma split_on_joined:
  assumes "\<forall>w\<in>set words. w \<noteq> [] \<and> 32 \<notin> set w" and "words \<noteq> []"
  shows "SplitWords (join_words words @ replicate n 32) = words"
  using assms
proof (induction words rule: join_words.induct)
  case (2 w)
  then show ?case
    by (cases n) (simp_all add: SplitWords_def split_on_append split_on_none split_on_padding)
next
  case (3 w v ws)
  then show ?case
    by (simp add: SplitWords_def split_on_append)
qed simp

text \<open>
  C24: A phrase of plain words comes back from its backup: the parts sealed for the holder keys
  are one for each holder, each opens with that holder's key pair, the opened shares
  combine, and the combined seed read as text splits into the same words.
\<close>

theorem backup_restores_words:
  assumes laws: "sealing_laws S"
    and words: "\<forall>w\<in>set words. w \<noteq> [] \<and> 32 \<notin> set w" "words \<noteq> []"
    and utf8: "\<And>n. se_fromUtf8 S (se_toUtf8 S (join_words words) @ replicate n 32) = join_words words @ replicate n 32"
    and parts: "SealBackupParts S rnd pairs (map (se_publicKey S) holders) words = Inr (Some parts)"
  shows "\<exists>shares seed. length parts = length holders \<and> map2 (DecryptShare S) holders parts = map Some shares \<and>
    CombineShares shares = Some seed \<and> length seed = kSeedLength \<and> SplitWords (se_fromUtf8 S seed) = words"
proof -
  let ?seed = "SeedFromWords S words"
  obtain shares where seed: "?seed \<noteq> []" and shares: "SplitSeed rnd ?seed (length holders) = Inr shares"
    and sealed: "seal_loop S pairs 0 (zip (map (se_publicKey S) holders) shares) = Some parts"
    using parts by (auto simp: SealBackupParts_def Let_def result_simps split: if_splits)
  have seedlen: "length ?seed = kSeedLength"
    using seed by (auto simp: SeedFromWords_def Let_def split: if_splits)
  have "length (holders) \<ge> 2"
    using shares by (auto simp: SplitSeed_def split: if_splits)
  then have "length shares = length holders" and "\<forall>s\<in>set shares. length s = kSeedLength"
    using split_iff [OF _ seed, of "length holders" shares] shares seedlen by auto
  then have "length shares = length holders" and "\<forall>s\<in>set shares. length s < 2 ^ 24"
    by (simp_all add: kSeedLength_def)
  note opened = seal_loop_opens [OF laws this sealed]
  have "?seed = se_toUtf8 S (join_words words) @ replicate (kSeedLength - length (se_toUtf8 S (join_words words))) 32"
    and "length ?seed = kSeedLength"
    using seed by (auto simp: SeedFromWords_def Let_def split: if_splits)
  then have "SplitWords (se_fromUtf8 S ?seed) = words" and "length ?seed = kSeedLength"
    using utf8 split_on_joined [OF words] by simp_all
  then show ?thesis
    using opened combine_split [OF shares] by blast
qed

section \<open>A concrete backup\<close>

text \<open>
  Sealing with a key that is visible in the part, for texts of Latin letters and TL
  strings as a length and a word for each byte, to show that the laws hold together.
\<close>

definition sample_sealing :: "byte sealing" where
  "sample_sealing = \<lparr>se_toUtf8 = map ucast, se_fromUtf8 = map ucast,
    se_writeString = (\<lambda>s. of_nat (length s) # map ucast s),
    se_readString = (\<lambda>ws. case ws of [] \<Rightarrow> None | n # r \<Rightarrow> Some (map ucast (take (unat n) r), drop (unat n) r)),
    se_publicKey = (\<lambda>k. replicate 32 k), se_encryptForOne = (\<lambda>a p m. Some (a # m)),
    se_decryptForOne = (\<lambda>b p c. Some (tl c))\<rparr>"

lemma sample_sealing_laws: "sealing_laws sample_sealing"
proof -
  have "unat (of_nat (length s) :: u32) = length s" if "length s < 2 ^ 24" for s :: bytes
    using that by (simp add: unsigned_of_nat take_bit_nat_eq_self)
  moreover have "ucast (ucast b :: u32) = b" for b :: byte
    by (rule bit_word_eqI) (auto simp: bit_simps dest: bit_imp_le_length)
  ultimately show ?thesis
    by (simp add: sealing_laws_def sample_sealing_def kPublicKeySize_def comp_def)
qed

abbreviation sample_words :: "qstring list" where
  "sample_words \<equiv> [latin1 ''oak'', latin1 ''elm'']"

lemma sample_parts:
  "\<exists>parts. SealBackupParts sample_sealing (\<lambda>i j. 3) (\<lambda>i. Some 9) (map (se_publicKey sample_sealing) [1, 2]) sample_words =
    Inr (Some parts)"
proof -
  have "SeedFromWords sample_sealing sample_words \<noteq> []"
    by (simp add: SeedFromWords_def sample_sealing_def kSeedLength_def latin1_def)
  moreover have "se_encryptForOne sample_sealing a p m = Some (a # m)" "length (se_publicKey sample_sealing k) = 32" for a p m k
    by (simp_all add: sample_sealing_def)
  ultimately show ?thesis
    by (simp add: SealBackupParts_def Let_def SplitSeed_def EncryptShare_def kPublicKeySize_def)
qed

theorem backup_restores_words_witness:
  "\<exists>parts shares seed. map2 (DecryptShare sample_sealing) [1, 2] parts = map Some shares \<and>
    CombineShares shares = Some seed \<and> SplitWords (se_fromUtf8 sample_sealing seed) = sample_words"
proof -
  obtain parts where parts: "SealBackupParts sample_sealing (\<lambda>i j. 3) (\<lambda>i. Some 9)
      (map (se_publicKey sample_sealing) [1, 2]) sample_words = Inr (Some parts)"
    using sample_parts by blast
  have "se_fromUtf8 sample_sealing (se_toUtf8 sample_sealing (join_words sample_words) @ replicate n 32) =
      join_words sample_words @ replicate n 32" for n
    by (simp add: sample_sealing_def latin1_def)
  then show ?thesis
    using backup_restores_words [OF sample_sealing_laws _ _ _ parts] by (fastforce simp: latin1_def)
qed

theorem shares_hide_seed_witness:
  "\<exists>!shares'. (\<exists>rnd'. SplitSeed rnd' [7] 2 = Inr shares') \<and> (\<forall>i<2. i \<noteq> 0 \<longrightarrow> shares' ! i = [[1], [4]] ! i)"
proof -
  have "SplitSeed (\<lambda>i j. 1) [5] 2 = Inr [[1], [4]]"
    by (simp add: SplitSeed_def random_share_def split_last_def xor_bytes_def)
  from shares_hide_seed [OF this, of "[7]" 0] show ?thesis by simp
qed

end
