(* ===== verification/Sync_Crypto.thy ===== *)
theory Sync_Crypto
  imports Byte_Words "HOL-Library.AList" "HOL-Library.Multiset"
begin

unbundle bit_operations_syntax

text \<open>
  Keys and bundles of the TeleForge sync, \<open>tfc/features/sync/teleforge_sync_crypto.cpp\<close>,
  in a build other than Windows. The globals and the two files are the record
  \<open>sync_state\<close>; OpenSSL, the hashes and conversions of Qt and the random bytes that a
  process draws are the record \<open>sync_env\<close>. What the two files do when a call reads and writes
  them (open or not, transfer all or a part) is drawn for each call, like its random bytes.
\<close>

section \<open>The code around and the state\<close>

record sync_env =
  sy_sha256 :: "bytes \<Rightarrow> bytes"
  sy_hmac :: "bytes \<Rightarrow> bytes \<Rightarrow> bytes"
  sy_pbkdf2 :: "bytes \<Rightarrow> bytes \<Rightarrow> nat \<Rightarrow> nat \<Rightarrow> bytes option"
  sy_seal :: "bytes \<Rightarrow> bytes \<Rightarrow> bytes \<Rightarrow> (bytes \<times> bytes) option"
  sy_open :: "bytes \<Rightarrow> bytes \<Rightarrow> bytes \<Rightarrow> bytes \<Rightarrow> bytes option"
  sy_fromHex :: "bytes \<Rightarrow> bytes"
  sy_toUtf8 :: "qstring \<Rightarrow> bytes"
  sy_fromUtf8 :: "bytes \<Rightarrow> qstring"
  sy_toBase64 :: "bytes \<Rightarrow> bytes"
  sy_fromBase64 :: "bytes \<Rightarrow> bytes"
  sy_number :: "int \<Rightarrow> bytes"

definition kMagic :: bytes where "kMagic = ascii ''TFSYNC1'' @ [0]"
definition kNonceSize :: nat where "kNonceSize = 12"
definition kTagSize :: nat where "kTagSize = 16"
definition kKeySize :: nat where "kKeySize = 32"
definition kSaltSize :: nat where "kSaltSize = 16"
definition kSecretSize :: nat where "kSecretSize = 32"
definition kPbkdf2Iterations :: nat where "kPbkdf2Iterations = 300000"
definition kFieldPrefix :: qstring where "kFieldPrefix = latin1 ''tfs1:''"
definition kSecretMagic :: bytes where "kSecretMagic = ascii ''TFDK1''"

record sync_state =
  g_legacyKey :: bytes
  g_migrationComplete :: bool
  g_secret :: bytes
  g_secretLoaded :: bool
  g_stateLoaded :: bool
  g_stateSalt :: bytes
  g_keyCache :: "(bytes \<times> bytes) list"
  stateFile :: bytes
  secretFile :: bytes

text \<open>A process starts with the files that are there; a missing file reads as empty.\<close>

definition sync_start :: "bytes \<Rightarrow> bytes \<Rightarrow> sync_state" where
  "sync_start sf kf = \<lparr>g_legacyKey = [], g_migrationComplete = False, g_secret = [], g_secretLoaded = False,
    g_stateLoaded = False, g_stateSalt = [], g_keyCache = [], stateFile = sf, secretFile = kf\<rparr>"

section \<open>The files\<close>

text \<open>What opening a file and transferring its bytes comes to. Neither the number of bytes that
  \<open>readAll\<close> gives nor the result of \<open>write\<close> is looked at; a file that is opened for writing
  is truncated first.\<close>

datatype transfer = OpenFails | Whole | Cut nat

definition ReadWholeFile :: "transfer \<Rightarrow> bytes \<Rightarrow> bytes" where
  "ReadWholeFile io stored = (case io of OpenFails \<Rightarrow> [] | Whole \<Rightarrow> stored | Cut n \<Rightarrow> take n stored)"

definition WriteWholeFile :: "transfer \<Rightarrow> bytes \<Rightarrow> bytes \<Rightarrow> bytes" where
  "WriteWholeFile io data stored = (case io of OpenFails \<Rightarrow> stored | Whole \<Rightarrow> data | Cut n \<Rightarrow> take n data)"

text \<open>What a call meets when it loads a file: the bytes that \<open>RAND_bytes\<close> would fill a new
  value with, the read, the write of the new value, and the write of the migration flag.\<close>

record file_io =
  fi_fresh :: bytes
  fi_read :: transfer
  fi_write :: transfer
  fi_save :: transfer

section \<open>Key state and device secret\<close>

definition hex_char :: "byte \<Rightarrow> byte" where
  "hex_char b = (if b < 10 then 48 + b else 87 + b)"

definition to_hex :: "bytes \<Rightarrow> bytes" where
  "to_hex bs = concat (map (\<lambda>b. [hex_char (drop_bit 4 b), hex_char (b AND 15)]) bs)"

definition is_space :: "byte \<Rightarrow> bool" where
  "is_space b \<longleftrightarrow> (9 \<le> b \<and> b \<le> 13) \<or> b = 32 \<or> b = 0x85 \<or> b = 0xA0"

definition trimmed :: "bytes \<Rightarrow> bytes" where
  "trimmed s = rev (dropWhile is_space (rev (dropWhile is_space s)))"

definition WrapSecret :: "bytes \<Rightarrow> bytes" where
  "WrapSecret raw = kSecretMagic @ [0] @ raw"

definition UnwrapSecret :: "bytes \<Rightarrow> bytes" where
  "UnwrapSecret stored =
    (if take (length kSecretMagic) stored \<noteq> kSecretMagic \<or> length stored \<le> length kSecretMagic then []
     else
       let kind = stored ! length kSecretMagic; payload = drop (length kSecretMagic + 1) stored
       in if kind = 0 then payload else [])"

text \<open>A line of the key state: the salt and the flag it leaves.\<close>

definition read_state_line :: "sync_env \<Rightarrow> bytes \<Rightarrow> bytes \<times> bool \<Rightarrow> bytes \<times> bool" where
  "read_state_line E line r =
    (case r of (salt, complete) \<Rightarrow>
      let index = length (takeWhile (\<lambda>c. c \<noteq> 61) line)
      in if index = length line \<or> index = 0 then r
         else
           let key = take index line; val = trimmed (drop (index + 1) line)
           in if key = ascii ''salt'' then (sy_fromHex E val, complete)
              else if key = ascii ''migrated'' then (salt, val = ascii ''1'')
              else r)"

definition state_text :: "bytes \<Rightarrow> bool \<Rightarrow> bytes" where
  "state_text salt complete =
    ascii ''salt='' @ to_hex salt @ [10] @ ascii ''migrated='' @ (if complete then ascii ''1'' else ascii ''0'') @ [10]"

text \<open>The salt and the flag that a key state file holds.\<close>

definition read_state :: "sync_env \<Rightarrow> bytes \<Rightarrow> bytes \<times> bool" where
  "read_state E raw = fold (read_state_line E) (split_on 10 raw) ([], False)"

definition LoadKeyStateLocked :: "sync_env \<Rightarrow> file_io \<Rightarrow> sync_state \<Rightarrow> sync_state" where
  "LoadKeyStateLocked E f s =
    (if g_stateLoaded s then s
     else
       let (salt, complete) = read_state E (ReadWholeFile (fi_read f) (stateFile s));
           isFresh = (length salt \<noteq> kSaltSize);
           salt = (if isFresh then fi_fresh f else salt);
           s = s\<lparr>g_stateLoaded := True, g_stateSalt := salt, g_migrationComplete := complete\<rparr>
       in if isFresh
          then s\<lparr>stateFile := WriteWholeFile (fi_write f) (state_text salt complete) (stateFile s)\<rparr>
          else s)"

definition SaveMigrationStateLocked :: "transfer \<Rightarrow> sync_state \<Rightarrow> sync_state" where
  "SaveMigrationStateLocked io s =
    s\<lparr>g_stateLoaded := True,
      stateFile := WriteWholeFile io (state_text (g_stateSalt s) (g_migrationComplete s)) (stateFile s)\<rparr>"

definition DeviceSecret :: "file_io \<Rightarrow> sync_state \<Rightarrow> bytes \<times> sync_state" where
  "DeviceSecret f s =
    (if g_secretLoaded s then (g_secret s, s)
     else
       let secret = UnwrapSecret (ReadWholeFile (fi_read f) (secretFile s))
       in if length secret \<noteq> kSecretSize
          then (fi_fresh f, s\<lparr>g_secretLoaded := True, g_secret := fi_fresh f,
                  secretFile := WriteWholeFile (fi_write f) (WrapSecret (fi_fresh f)) (secretFile s)\<rparr>)
          else (secret, s\<lparr>g_secretLoaded := True, g_secret := secret\<rparr>))"

section \<open>Keys\<close>

definition HkdfSha256 :: "sync_env \<Rightarrow> bytes \<Rightarrow> bytes \<Rightarrow> bytes \<Rightarrow> bytes" where
  "HkdfSha256 E ikm salt info = sy_sha256 E (salt @ ikm @ info)"

definition DeriveLegacySyncKey :: "sync_env \<Rightarrow> bytes \<Rightarrow> bytes" where
  "DeriveLegacySyncKey E masterMaterial = HkdfSha256 E masterMaterial (ascii ''TeleForge-Sync-v1'') (ascii ''account'')"

definition sync_password :: "sync_env \<Rightarrow> bytes \<Rightarrow> bytes \<Rightarrow> bytes" where
  "sync_password E secret exportKey = (if exportKey \<noteq> [] then sy_hmac E secret exportKey else secret)"

text \<open>The part of \<open>DeriveSyncKey\<close> that does not find the key in the cache.\<close>

definition derive_new_key ::
  "sync_env \<Rightarrow> bytes \<Rightarrow> bytes \<Rightarrow> bytes \<Rightarrow> sync_state \<Rightarrow> bytes \<times> sync_state" where
  "derive_new_key E password accountBinding cacheKey s =
    (let key = (case sy_pbkdf2 E password (g_stateSalt s @ accountBinding) kPbkdf2Iterations kKeySize of
         None \<Rightarrow> [] | Some key \<Rightarrow> key)
     in if key = [] then ([], s)
        else
          let cache = (if length (g_keyCache s) > 4 then [] else g_keyCache s)
          in (key, s\<lparr>g_keyCache := AList.update cacheKey key cache\<rparr>))"

definition DeriveSyncKey ::
  "sync_env \<Rightarrow> file_io \<Rightarrow> bytes \<Rightarrow> bytes \<Rightarrow> bytes \<Rightarrow> sync_state \<Rightarrow> bytes \<times> sync_state" where
  "DeriveSyncKey E f secret exportKey accountBinding s =
    (if length secret \<noteq> kKeySize then ([], s)
     else
       let password = sync_password E secret exportKey;
           s = LoadKeyStateLocked E f s;
           cacheKey = sy_sha256 E (password @ g_stateSalt s @ accountBinding)
       in case map_of (g_keyCache s) cacheKey of
            Some cached \<Rightarrow>
              if length cached = kKeySize then (cached, s)
              else derive_new_key E password accountBinding cacheKey s
          | None \<Rightarrow> derive_new_key E password accountBinding cacheKey s)"

definition SetLegacySyncKey :: "bytes \<Rightarrow> sync_state \<Rightarrow> sync_state" where
  "SetLegacySyncKey key s = s\<lparr>g_legacyKey := key\<rparr>"

definition MarkSyncMigrationComplete :: "sync_env \<Rightarrow> file_io \<Rightarrow> sync_state \<Rightarrow> sync_state" where
  "MarkSyncMigrationComplete E f s =
    (if g_migrationComplete s then s
     else SaveMigrationStateLocked (fi_save f) ((LoadKeyStateLocked E f s)\<lparr>g_migrationComplete := True\<rparr>))"

definition SyncMigrationComplete :: "sync_env \<Rightarrow> file_io \<Rightarrow> sync_state \<Rightarrow> bool \<times> sync_state" where
  "SyncMigrationComplete E f s =
    (let s = LoadKeyStateLocked E f s in (g_migrationComplete s, s))"

definition FieldCryptKey :: "sync_env \<Rightarrow> file_io \<Rightarrow> sync_state \<Rightarrow> bytes \<times> sync_state" where
  "FieldCryptKey E f s =
    (let (secret, s) = DeviceSecret f s in (sy_hmac E secret (ascii ''TeleForge-Field-v1''), s))"

text \<open>The key of an account, \<open>SyncKey\<close> of \<open>teleforge_sync.cpp\<close>, from the id and the phone
  that its user has at the moment.\<close>

definition MasterMaterial :: "sync_env \<Rightarrow> 64 word \<Rightarrow> qstring \<Rightarrow> bytes" where
  "MasterMaterial E userId phone = sy_number E (uint userId) @ sy_toUtf8 E phone"

definition SyncKey ::
  "sync_env \<Rightarrow> file_io \<Rightarrow> file_io \<Rightarrow> bytes \<Rightarrow> 64 word \<Rightarrow> qstring \<Rightarrow> sync_state \<Rightarrow> bytes \<times> sync_state" where
  "SyncKey E fs f g_exportKey userId phone s =
    (let binding = MasterMaterial E userId phone;
         s = SetLegacySyncKey (DeriveLegacySyncKey E binding) s;
         (secret, s) = DeviceSecret fs s
     in DeriveSyncKey E f secret g_exportKey binding s)"

section \<open>Bundles\<close>

definition EncryptBundle :: "sync_env \<Rightarrow> bytes \<Rightarrow> bytes \<Rightarrow> bytes \<Rightarrow> bytes" where
  "EncryptBundle E nonce plain key =
    (if length key \<noteq> kKeySize then []
     else case sy_seal E key nonce plain of
            None \<Rightarrow> []
          | Some (ciphertext, tag) \<Rightarrow> kMagic @ nonce @ ciphertext @ tag)"

definition DecryptBundleWithKey :: "sync_env \<Rightarrow> bytes \<Rightarrow> bytes \<Rightarrow> bytes option" where
  "DecryptBundleWithKey E encrypted key =
    (if length encrypted < length kMagic + kNonceSize + kTagSize + 1 then None
     else if take (length kMagic) encrypted \<noteq> kMagic then None
     else if length key \<noteq> kKeySize then None
     else
       let nonce = take kNonceSize (drop (length kMagic) encrypted);
           tag = drop (length encrypted - kTagSize) encrypted;
           ciphertext = take (length encrypted - length kMagic - kNonceSize - kTagSize)
             (drop (length kMagic + kNonceSize) encrypted)
       in sy_open E key nonce ciphertext tag)"

definition DecryptBundle ::
  "sync_env \<Rightarrow> file_io \<Rightarrow> bytes \<Rightarrow> bytes \<Rightarrow> sync_state \<Rightarrow> bytes option \<times> sync_state" where
  "DecryptBundle E f encrypted key s =
    (case DecryptBundleWithKey E encrypted key of
       Some plain \<Rightarrow> (Some plain, s)
     | None \<Rightarrow>
         let s = LoadKeyStateLocked E f s
         in if g_migrationComplete s \<or> g_legacyKey s = [] then (None, s)
            else if g_legacyKey s = key then (None, s)
            else
              case DecryptBundleWithKey E encrypted (g_legacyKey s) of
                None \<Rightarrow> (None, s)
              | Some plain \<Rightarrow> (Some plain, MarkSyncMigrationComplete E f s))"

text \<open>\<open>QString::fromLatin1\<close> and \<open>toLatin1\<close>, which puts a question mark for a character
  it cannot hold.\<close>

definition fromLatin1 :: "bytes \<Rightarrow> qstring" where
  "fromLatin1 bs = map ucast bs"

definition toLatin1 :: "qstring \<Rightarrow> bytes" where
  "toLatin1 cs = map (\<lambda>c. if c < 256 then ucast c else 63) cs"

definition ProtectSecret ::
  "sync_env \<Rightarrow> file_io \<Rightarrow> bytes \<Rightarrow> qstring \<Rightarrow> sync_state \<Rightarrow> qstring \<times> sync_state" where
  "ProtectSecret E f nonce plain s =
    (if plain = [] then ([], s)
     else
       let (key, s) = FieldCryptKey E f s;
           encrypted = EncryptBundle E nonce (sy_toUtf8 E plain) key
       in if encrypted = [] then (plain, s)
          else (kFieldPrefix @ fromLatin1 (sy_toBase64 E encrypted), s))"

definition IsProtectedSecret :: "qstring \<Rightarrow> bool" where
  "IsProtectedSecret stored \<longleftrightarrow> take (length kFieldPrefix) stored = kFieldPrefix"

definition UnprotectSecret ::
  "sync_env \<Rightarrow> file_io \<Rightarrow> file_io \<Rightarrow> qstring \<Rightarrow> sync_state \<Rightarrow> qstring \<times> sync_state" where
  "UnprotectSecret E fs f stored s =
    (if \<not> IsProtectedSecret stored then (stored, s)
     else
       let raw = sy_fromBase64 E (toLatin1 (drop (length kFieldPrefix) stored));
           (key, s) = FieldCryptKey E fs s;
           (plain, s) = DecryptBundle E f raw key s
       in case plain of None \<Rightarrow> ([], s) | Some p \<Rightarrow> (sy_fromUtf8 E p, s))"

definition ExportKeyBase64 :: "sync_env \<Rightarrow> bytes \<Rightarrow> qstring" where
  "ExportKeyBase64 E key = fromLatin1 (sy_toBase64 E key)"

definition trimmed_string :: "qstring \<Rightarrow> (16 word \<Rightarrow> bool) \<Rightarrow> qstring" where
  "trimmed_string s space = rev (dropWhile space (rev (dropWhile space s)))"

definition ImportKeyBase64 :: "sync_env \<Rightarrow> (16 word \<Rightarrow> bool) \<Rightarrow> qstring \<Rightarrow> bytes option" where
  "ImportKeyBase64 E space encoded =
    (let bs = sy_fromBase64 E (toLatin1 (trimmed_string encoded space))
     in if length bs \<noteq> kKeySize then None else Some bs)"

definition HmacTag :: "sync_env \<Rightarrow> bytes \<Rightarrow> bytes \<Rightarrow> qstring" where
  "HmacTag E data key = fromLatin1 (take 32 (to_hex (sy_hmac E key data)))"

definition HmacId :: "sync_env \<Rightarrow> int \<Rightarrow> bytes \<Rightarrow> qstring" where
  "HmacId E i key = HmacTag E (sy_number E i) key"

section \<open>A device over time\<close>

text \<open>What the files and \<open>RAND_bytes\<close> do in a call, the calls a device makes and its
  restarts.\<close>

record sync_rand =
  r_secret :: file_io
  r_salt :: file_io
  r_nonce :: bytes

datatype sync_op =
    OpSyncKey bytes "64 word" qstring
  | OpProtect qstring
  | OpUnprotect qstring
  | OpDecrypt bytes bytes
  | OpMigrationComplete
  | OpSetLegacy bytes
  | OpRestart

fun sync_step :: "sync_env \<Rightarrow> sync_rand \<times> sync_op \<Rightarrow> sync_state \<Rightarrow> sync_state" where
  "sync_step E (r, OpSyncKey exportKey userId phone) s =
    snd (SyncKey E (r_secret r) (r_salt r) exportKey userId phone s)"
| "sync_step E (r, OpProtect plain) s = snd (ProtectSecret E (r_secret r) (r_nonce r) plain s)"
| "sync_step E (r, OpUnprotect stored) s = snd (UnprotectSecret E (r_secret r) (r_salt r) stored s)"
| "sync_step E (r, OpDecrypt bundle key) s = snd (DecryptBundle E (r_salt r) bundle key s)"
| "sync_step E (r, OpMigrationComplete) s = MarkSyncMigrationComplete E (r_salt r) s"
| "sync_step E (r, OpSetLegacy key) s = SetLegacySyncKey key s"
| "sync_step E (r, OpRestart) s = sync_start (stateFile s) (secretFile s)"

section \<open>Files\<close>

text \<open>What the conversions of Qt promise.\<close>

definition text_laws :: "sync_env \<Rightarrow> bool" where
  "text_laws E \<longleftrightarrow> (\<forall>b. sy_fromHex E (to_hex b) = b) \<and> (\<forall>b. sy_fromBase64 E (sy_toBase64 E b) = b)"

lemma hex_digits: "c \<in> set (to_hex bs) \<Longrightarrow> 48 \<le> c \<and> c \<le> 102"
proof -
  assume "c \<in> set (to_hex bs)"
  then obtain b where "c = hex_char (drop_bit 4 b) \<or> c = hex_char (b AND 15)"
    by (auto simp: to_hex_def)
  moreover have "drop_bit 4 b \<le> 15" for b :: byte
  proof -
    have "unat b < 256" using unsigned_less [where w = b and ?'a = nat] by simp
    then have "unat b div 16 \<le> 15" by linarith
    then show ?thesis unfolding word_le_nat_alt unat_drop_bit_eq by (simp add: drop_bit_eq_div)
  qed
  moreover have "b AND 15 \<le> 15" for b :: byte by (rule word_and_le1)
  moreover have "48 \<le> hex_char d \<and> hex_char d \<le> 102" if "d \<le> 15" for d :: byte
    using that by (auto simp: hex_char_def word_le_nat_alt word_less_nat_alt unat_word_ariths)
  ultimately show ?thesis by blast
qed

lemma trimmed_plain:
  assumes "\<And>c. c \<in> set s \<Longrightarrow> \<not> is_space c"
  shows "trimmed s = s"
proof -
  have "dropWhile is_space u = u" if "\<And>c. c \<in> set u \<Longrightarrow> \<not> is_space c" for u
    using that by (cases u) auto
  from this [of s] this [of "rev s"] show ?thesis using assms by (simp add: trimmed_def)
qed

lemma trimmed_hex: "trimmed (to_hex bs) = to_hex bs"
proof (rule trimmed_plain)
  fix c
  assume "c \<in> set (to_hex bs)"
  from hex_digits [OF this] show "\<not> is_space c"
    by (auto simp: is_space_def word_le_nat_alt)
qed

lemma read_salt_line:
  assumes "text_laws E"
  shows "read_state_line E (ascii ''salt='' @ to_hex salt) r = (salt, snd r)"
  using assms
  by (cases r) (simp add: read_state_line_def ascii_def of_char_def trimmed_hex text_laws_def Let_def)

lemma read_migrated_line:
  "read_state_line E (ascii ''migrated='' @ (if complete then ascii ''1'' else ascii ''0'')) r = (fst r, complete)"
  by (cases r; cases complete)
    (simp_all add: read_state_line_def ascii_def of_char_def trimmed_def is_space_def Let_def)

lemma split_two_lines:
  "c \<notin> set a \<Longrightarrow> c \<notin> set b \<Longrightarrow> split_on c (a @ c # b @ c # []) = [a, b, []]"
  by (simp add: split_on_append)

lemma read_state_text:
  assumes "text_laws E"
  shows "read_state E (state_text salt complete) = (salt, complete)"
proof -
  let ?m = "ascii ''migrated='' @ (if complete then ascii ''1'' else ascii ''0'')"
  have "10 \<notin> set (ascii ''salt='' @ to_hex salt)"
    using hex_digits [of 10 salt] by (auto simp: ascii_def of_char_def)
  moreover have "10 \<notin> set ?m" by (auto simp: ascii_def of_char_def)
  moreover have "state_text salt complete = (ascii ''salt='' @ to_hex salt) @ 10 # ?m @ 10 # []"
    by (simp add: state_text_def)
  ultimately have "split_on 10 (state_text salt complete) = [ascii ''salt='' @ to_hex salt, ?m, []]"
    using split_two_lines [of 10 "ascii ''salt='' @ to_hex salt" ?m] by (simp only: not_False_eq_True)
  moreover have "read_state_line E [] r = r" for r
    by (cases r) (simp add: read_state_line_def)
  ultimately show ?thesis
    using assms by (simp only: read_state_def fold_simps read_salt_line read_migrated_line fst_conv snd_conv)
qed

lemma UnwrapSecret_WrapSecret: "UnwrapSecret (WrapSecret raw) = raw"
  by (simp add: UnwrapSecret_def WrapSecret_def)

section \<open>Processes and files\<close>

text \<open>What is kept over time is kept in two ways: in the process, until it ends, and in the
  files, as long as they are read and written as a whole. The flag \<open>disk\<close> says which of the two
  is meant.\<close>

definition file_works :: "file_io \<Rightarrow> bool" where
  "file_works f \<longleftrightarrow> fi_read f = Whole \<and> fi_write f = Whole \<and> fi_save f = Whole"

definition io_ok :: "bool \<Rightarrow> sync_rand \<Rightarrow> bool" where
  "io_ok disk r \<longleftrightarrow> (disk \<longrightarrow> file_works (r_secret r) \<and> file_works (r_salt r))"

definition step_ok :: "bool \<Rightarrow> sync_rand \<times> sync_op \<Rightarrow> bool" where
  "step_ok disk ro \<longleftrightarrow> io_ok disk (fst ro) \<and> (\<not> disk \<longrightarrow> snd ro \<noteq> OpRestart)"

definition same_process :: "(sync_rand \<times> sync_op) list \<Rightarrow> bool" where
  "same_process ops \<longleftrightarrow> (\<forall>ro \<in> set ops. snd ro \<noteq> OpRestart)"

definition files_work :: "sync_rand list \<Rightarrow> bool" where
  "files_work rs \<longleftrightarrow> (\<forall>r \<in> set rs. file_works (r_secret r) \<and> file_works (r_salt r))"

lemma kept_in_one_way:
  assumes "same_process ops \<or> files_work (rs @ map fst ops)"
  obtains disk where "\<forall>r \<in> set rs. io_ok disk r" and "\<forall>ro \<in> set ops. step_ok disk ro"
proof (cases "files_work (rs @ map fst ops)")
  case True
  then show thesis using that [of True] by (auto simp: files_work_def io_ok_def step_ok_def)
next
  case False
  then have "same_process ops" using assms by simp
  then show thesis using that [of False] by (auto simp: same_process_def io_ok_def step_ok_def)
qed

lemma Read_Whole [simp]: "ReadWholeFile Whole stored = stored"
  by (simp add: ReadWholeFile_def)

lemma Write_Whole [simp]: "WriteWholeFile Whole data stored = data"
  by (simp add: WriteWholeFile_def)

section \<open>Migration\<close>

text \<open>The legacy key is out of use: the process knows it, or the file says so.\<close>

definition migrated :: "bool \<Rightarrow> sync_env \<Rightarrow> sync_state \<Rightarrow> bool" where
  "migrated disk E s \<longleftrightarrow>
    (if disk then snd (read_state E (stateFile s)) \<and> (g_stateLoaded s \<longrightarrow> g_migrationComplete s)
     else g_stateLoaded s \<and> g_migrationComplete s)"

lemma LoadKeyState_loaded [simp]: "g_stateLoaded (LoadKeyStateLocked E f s)"
  by (simp add: LoadKeyStateLocked_def Let_def split: prod.split)

lemma LoadKeyState_loaded_id: "g_stateLoaded s \<Longrightarrow> LoadKeyStateLocked E f s = s"
  by (simp add: LoadKeyStateLocked_def)

lemma LoadKeyState_secret [simp]:
  "g_secret (LoadKeyStateLocked E f s) = g_secret s"
  "g_secretLoaded (LoadKeyStateLocked E f s) = g_secretLoaded s"
  "secretFile (LoadKeyStateLocked E f s) = secretFile s"
  "g_keyCache (LoadKeyStateLocked E f s) = g_keyCache s"
  "g_legacyKey (LoadKeyStateLocked E f s) = g_legacyKey s"
  by (simp_all add: LoadKeyStateLocked_def Let_def split: prod.split)

lemma LoadKeyState_migrated:
  assumes "text_laws E" and "disk \<Longrightarrow> file_works f" and "migrated disk E s"
  shows "migrated disk E (LoadKeyStateLocked E f s)"
proof (cases disk)
  case True
  then show ?thesis using assms
    by (auto simp: LoadKeyStateLocked_def migrated_def read_state_text file_works_def Let_def split: prod.split)
next
  case False
  then show ?thesis using assms(3) by (simp add: migrated_def LoadKeyState_loaded_id)
qed

lemma DeviceSecret_state [simp]:
  "g_stateLoaded (snd (DeviceSecret f s)) = g_stateLoaded s"
  "g_stateSalt (snd (DeviceSecret f s)) = g_stateSalt s"
  "g_migrationComplete (snd (DeviceSecret f s)) = g_migrationComplete s"
  "stateFile (snd (DeviceSecret f s)) = stateFile s"
  "g_keyCache (snd (DeviceSecret f s)) = g_keyCache s"
  "g_legacyKey (snd (DeviceSecret f s)) = g_legacyKey s"
  by (simp_all add: DeviceSecret_def Let_def)

lemma migrated_unchanged:
  assumes "g_stateLoaded s' = g_stateLoaded s" and "g_migrationComplete s' = g_migrationComplete s"
    and "stateFile s' = stateFile s"
  shows "migrated disk E s' = migrated disk E s"
  using assms by (simp add: migrated_def)

lemma DeviceSecret_migrated [simp]: "migrated disk E (snd (DeviceSecret f s)) = migrated disk E s"
  by (rule migrated_unchanged) simp_all

lemma FieldCryptKey_state: "snd (FieldCryptKey E f s) = snd (DeviceSecret f s)"
  by (simp add: FieldCryptKey_def split: prod.split)

lemma SetLegacy_migrated [simp]: "migrated disk E (SetLegacySyncKey k s) = migrated disk E s"
  by (rule migrated_unchanged) (simp_all add: SetLegacySyncKey_def)

lemma SetLegacy_flag [simp]: "g_migrationComplete (SetLegacySyncKey k s) = g_migrationComplete s"
  by (simp add: SetLegacySyncKey_def)

lemma derive_new_key_state:
  "\<exists>c. snd (derive_new_key E p b h s) = s\<lparr>g_keyCache := c\<rparr>"
  by (auto simp: derive_new_key_def Let_def intro: exI [of _ "g_keyCache s"])

lemma DeriveSyncKey_state:
  "snd (DeriveSyncKey E f sec x b s) = s
    \<or> (\<exists>c. snd (DeriveSyncKey E f sec x b s) = (LoadKeyStateLocked E f s)\<lparr>g_keyCache := c\<rparr>)"
proof -
  let ?s = "LoadKeyStateLocked E f s"
  have "\<exists>c. ?s = ?s\<lparr>g_keyCache := c\<rparr>" by (rule exI [of _ "g_keyCache ?s"]) simp
  then show ?thesis
    using derive_new_key_state by (auto simp: DeriveSyncKey_def Let_def split: option.split)
qed

lemma ProtectSecret_state:
  "snd (ProtectSecret E f n p s) = (if p = [] then s else snd (DeviceSecret f s))"
  by (simp add: ProtectSecret_def FieldCryptKey_def Let_def split: prod.split)

lemma UnprotectSecret_state:
  "snd (UnprotectSecret E fs f p s) = s
    \<or> (\<exists>raw key. snd (UnprotectSecret E fs f p s) = snd (DecryptBundle E f raw key (snd (DeviceSecret fs s))))"
proof (cases "IsProtectedSecret p")
  case True
  obtain key s2 where k: "FieldCryptKey E fs s = (key, s2)" by fastforce
  let ?raw = "sy_fromBase64 E (toLatin1 (drop (length kFieldPrefix) p))"
  have "s2 = snd (DeviceSecret fs s)" using k FieldCryptKey_state [of E fs s] by simp
  moreover have "snd (UnprotectSecret E fs f p s) = snd (DecryptBundle E f ?raw key s2)"
    using True k by (simp add: UnprotectSecret_def Let_def split: prod.split option.split)
  ultimately show ?thesis by blast
next
  case False
  then show ?thesis by (simp add: UnprotectSecret_def)
qed

lemma SyncKey_derive:
  "SyncKey E fs f x i p s =
    (let u = DeviceSecret fs (SetLegacySyncKey (DeriveLegacySyncKey E (MasterMaterial E i p)) s)
     in DeriveSyncKey E f (fst u) x (MasterMaterial E i p) (snd u))"
  by (simp add: SyncKey_def Let_def case_prod_unfold)

lemma DecryptBundle_state:
  "snd (DecryptBundle E f blob key s) \<in> {s, LoadKeyStateLocked E f s,
    MarkSyncMigrationComplete E f (LoadKeyStateLocked E f s)}"
  by (simp add: DecryptBundle_def Let_def split: option.split)

text \<open>Every call but the restart is made of a few steps, so what those steps keep, all keep.\<close>

lemma sync_step_keeps:
  assumes "P s" and "\<And>k s. P s \<Longrightarrow> P (SetLegacySyncKey k s)"
    and "\<And>s. P s \<Longrightarrow> P (snd (DeviceSecret (r_secret (fst ro)) s))"
    and "\<And>s. P s \<Longrightarrow> P (LoadKeyStateLocked E (r_salt (fst ro)) s)"
    and "\<And>s. P s \<Longrightarrow> P (MarkSyncMigrationComplete E (r_salt (fst ro)) s)"
    and "\<And>c s. P s \<Longrightarrow> P (s\<lparr>g_keyCache := c\<rparr>)"
    and "snd ro = OpRestart \<Longrightarrow> P (sync_start (stateFile s) (secretFile s))"
  shows "P (sync_step E ro s)"
proof -
  obtain r op where ro: "ro = (r, op)" by fastforce
  have dec: "P (snd (DecryptBundle E (r_salt r) b key s))" if "P s" for b key s
    using DecryptBundle_state [of E "r_salt r" b key s] that assms(4,5) ro by fastforce
  have der: "P (snd (DeriveSyncKey E (r_salt r) sec x b s))" if "P s" for sec x b s
    using DeriveSyncKey_state [of E "r_salt r" sec x b s] that assms(4,6) ro by fastforce
  show ?thesis
  proof (cases op)
    case (OpSyncKey x i p)
    then show ?thesis using ro assms(1,2,3) der by (simp add: SyncKey_derive Let_def)
  next
    case (OpProtect p)
    then show ?thesis using ro assms(1,3) by (simp add: ProtectSecret_state)
  next
    case (OpUnprotect p)
    then show ?thesis
      using ro assms(1,3) dec UnprotectSecret_state [of E "r_secret r" "r_salt r" p s] by fastforce
  qed (use ro assms dec in simp_all)
qed

lemma Mark_migrated:
  assumes "text_laws E" and "disk \<Longrightarrow> file_works f" and "g_migrationComplete s \<Longrightarrow> migrated disk E s"
  shows "migrated disk E (MarkSyncMigrationComplete E f s)"
  using assms
  by (auto simp: MarkSyncMigrationComplete_def SaveMigrationStateLocked_def migrated_def read_state_text file_works_def)

lemma sync_step_migrated:
  assumes "text_laws E" and "step_ok disk ro" and "migrated disk E s"
  shows "migrated disk E (sync_step E ro s)"
proof (rule sync_step_keeps [where P = "migrated disk E", OF assms(3)])
  show "migrated disk E (sync_start (stateFile s) (secretFile s))" if "snd ro = OpRestart"
    using assms(2,3) that by (simp add: step_ok_def migrated_def sync_start_def split: if_splits)
  show "migrated disk E (u\<lparr>g_keyCache := c\<rparr>)" if "migrated disk E u" for c u
    using that by (simp add: migrated_def)
qed (use assms(1,2) in \<open>auto intro!: LoadKeyState_migrated Mark_migrated simp: step_ok_def io_ok_def\<close>)

lemma sync_steps_migrated:
  "text_laws E \<Longrightarrow> \<forall>ro \<in> set ops. step_ok disk ro \<Longrightarrow> migrated disk E s
    \<Longrightarrow> migrated disk E (fold (sync_step E) ops s)"
  by (induction ops arbitrary: s) (simp_all add: sync_step_migrated)

text \<open>A process that takes the migration for done has it in the file.\<close>

definition flag_kept :: "bool \<Rightarrow> sync_env \<Rightarrow> sync_state \<Rightarrow> bool" where
  "flag_kept disk E s \<longleftrightarrow> (g_migrationComplete s \<longrightarrow> migrated disk E s)"

lemma LoadKeyState_flag_kept:
  assumes "text_laws E" and "disk \<Longrightarrow> file_works f" and "flag_kept disk E s"
  shows "flag_kept disk E (LoadKeyStateLocked E f s)"
  using assms
  by (auto simp: LoadKeyStateLocked_def flag_kept_def migrated_def read_state_text file_works_def Let_def
      split: prod.split)

lemma sync_step_flag_kept:
  assumes "text_laws E" and "io_ok disk (fst ro)" and "flag_kept disk E s"
  shows "flag_kept disk E (sync_step E ro s)"
proof (rule sync_step_keeps [where P = "flag_kept disk E", OF assms(3)])
  show "flag_kept disk E (MarkSyncMigrationComplete E (r_salt (fst ro)) u)" if "flag_kept disk E u" for u
    using Mark_migrated [OF assms(1), of disk "r_salt (fst ro)" u] assms(2) that
    by (simp add: flag_kept_def io_ok_def)
qed (use assms(1,2) in \<open>auto intro!: LoadKeyState_flag_kept simp: io_ok_def,
  simp_all add: flag_kept_def migrated_def sync_start_def SetLegacySyncKey_def\<close>)

lemma sync_steps_flag_kept:
  "text_laws E \<Longrightarrow> \<forall>ro \<in> set ops. io_ok disk (fst ro) \<Longrightarrow> flag_kept disk E s
    \<Longrightarrow> flag_kept disk E (fold (sync_step E) ops s)"
  by (induction ops arbitrary: s) (simp_all add: sync_step_flag_kept)

lemma DecryptBundle_migrated:
  assumes "text_laws E" and "disk \<Longrightarrow> file_works f" and "migrated disk E s"
  shows "fst (DecryptBundle E f blob key s) = DecryptBundleWithKey E blob key"
proof -
  have "migrated disk E (LoadKeyStateLocked E f s)" by (rule LoadKeyState_migrated [OF assms])
  then have "g_migrationComplete (LoadKeyStateLocked E f s)" by (simp add: migrated_def split: if_splits)
  then show ?thesis by (simp add: DecryptBundle_def Let_def split: option.split)
qed

text \<open>C27: \<open>MarkSyncMigrationComplete\<close> retires the legacy key for good, as the header says: after
  it, whatever the device did before and does next, a bundle is read with the key that is
  given or not at all, and setting a legacy key again changes nothing. That holds in the process
  that completed the migration, whatever its files do, and over any number of restarts when all
  reads and writes of the two files of the device are complete.\<close>

theorem migration_retires_legacy_key:
  fixes after earlier :: "(sync_rand \<times> sync_op) list"
  assumes "text_laws E"
    and "same_process after \<or> files_work ([r, r'] @ map fst earlier @ map fst after)"
  shows "fst (DecryptBundle E (r_salt r') blob key
    (fold (sync_step E) (earlier @ [(r, OpMigrationComplete)] @ after) (sync_start sf kf)))
      = DecryptBundleWithKey E blob key"
proof -
  have "same_process after \<or> files_work ((r # r' # map fst earlier) @ map fst after)"
    using assms(2) by (auto simp: files_work_def)
  then consider disk where "\<forall>q \<in> set (r # r' # map fst earlier). io_ok disk q" "\<forall>ro \<in> set after. step_ok disk ro"
    by (rule kept_in_one_way) blast
  then show ?thesis
  proof cases
    case 1
    let ?s = "fold (sync_step E) earlier (sync_start sf kf)"
    have "flag_kept disk E ?s"
      by (rule sync_steps_flag_kept [OF assms(1)]) (use 1(1) in \<open>simp_all add: flag_kept_def sync_start_def\<close>)
    then have "migrated disk E (MarkSyncMigrationComplete E (r_salt r) ?s)"
      using 1(1) by (intro Mark_migrated [OF assms(1)]) (simp_all add: flag_kept_def io_ok_def)
    from sync_steps_migrated [OF assms(1) 1(2) this]
    have "migrated disk E (fold (sync_step E) (earlier @ [(r, OpMigrationComplete)] @ after) (sync_start sf kf))"
      by simp
    then show ?thesis
      using 1(1) by (intro DecryptBundle_migrated [OF assms(1), where disk = disk]) (simp_all add: io_ok_def)
  qed
qed

text \<open>Until then a bundle that only the legacy key opens is read with it, and that read
  completes the migration by itself: the next such bundle is refused.\<close>

lemma legacy_bundle_is_read_once:
  assumes "text_laws E" and "g_stateLoaded s" and "\<not> g_migrationComplete s"
    and "g_legacyKey s \<noteq> []" and "g_legacyKey s \<noteq> key"
    and "DecryptBundleWithKey E blob key = None" and "DecryptBundleWithKey E blob (g_legacyKey s) = Some plain"
    and "DecryptBundleWithKey E blob' key = None"
  shows "fst (DecryptBundle E f blob key s) = Some plain"
    and "fst (DecryptBundle E f' blob' key (snd (DecryptBundle E f blob key s))) = None"
proof -
  have s': "DecryptBundle E f blob key s = (Some plain, MarkSyncMigrationComplete E f s)"
    using assms by (simp add: DecryptBundle_def LoadKeyState_loaded_id)
  then show "fst (DecryptBundle E f blob key s) = Some plain" by simp
  have "migrated False E (MarkSyncMigrationComplete E f s)"
    using assms(3) by (intro Mark_migrated [OF assms(1)]) simp_all
  from DecryptBundle_migrated [OF assms(1) _ this]
  show "fst (DecryptBundle E f' blob' key (snd (DecryptBundle E f blob key s))) = None"
    using s' assms(8) by simp
qed

section \<open>One secret, one salt, one key per account\<close>

text \<open>\<open>password_of\<close> and \<open>key_value\<close> are the key that the code means to give: PBKDF2 of the
  device secret, or of its HMAC of an export key, salted with the salt of the device and the
  account.\<close>

definition key_value :: "sync_env \<Rightarrow> bytes \<Rightarrow> bytes \<Rightarrow> bytes \<Rightarrow> bytes \<Rightarrow> bytes" where
  "key_value E secret salt exportKey binding =
    (case sy_pbkdf2 E (sync_password E secret exportKey) (salt @ binding) kPbkdf2Iterations kKeySize of
       None \<Rightarrow> [] | Some key \<Rightarrow> key)"

text \<open>The texts whose hashes name the keys in the cache.\<close>

definition cache_inputs :: "sync_env \<Rightarrow> bytes \<Rightarrow> bytes \<Rightarrow> (bytes \<times> bytes) set \<Rightarrow> bytes set" where
  "cache_inputs E secret salt U = (\<lambda>(x, b). sync_password E secret x @ salt @ b) ` U"

definition mac_laws :: "sync_env \<Rightarrow> bool" where
  "mac_laws E \<longleftrightarrow> (\<forall>k d. length (sy_hmac E k d) = 32)"

text \<open>The device keeps the secret and the salt, in the files or in the process, and every key
  in the cache belongs to an account that was asked for.\<close>

definition cache_ok ::
  "sync_env \<Rightarrow> (bytes \<times> bytes) set \<Rightarrow> bytes \<Rightarrow> bytes \<Rightarrow> (bytes \<times> bytes) list \<Rightarrow> bool" where
  "cache_ok E U secret salt c \<longleftrightarrow> (\<forall>e \<in> set c. \<exists>x b. (x, b) \<in> U
    \<and> e = (sy_sha256 E (sync_password E secret x @ salt @ b), key_value E secret salt x b))"

definition device_inv ::
  "bool \<Rightarrow> sync_env \<Rightarrow> (bytes \<times> bytes) set \<Rightarrow> bytes \<Rightarrow> bytes \<Rightarrow> sync_state \<Rightarrow> bool" where
  "device_inv disk E U secret salt s \<longleftrightarrow>
    length secret = kSecretSize
    \<and> (if disk then length salt = kSaltSize \<and> UnwrapSecret (secretFile s) = secret
         \<and> fst (read_state E (stateFile s)) = salt
       else g_secretLoaded s \<and> g_stateLoaded s)
    \<and> (g_secretLoaded s \<longrightarrow> g_secret s = secret) \<and> (g_stateLoaded s \<longrightarrow> g_stateSalt s = salt)
    \<and> cache_ok E U secret salt (g_keyCache s)"

lemma sync_password_length:
  assumes "mac_laws E" and "length secret = kSecretSize"
  shows "length (sync_password E secret x) = 32"
  using assms by (simp add: sync_password_def mac_laws_def kSecretSize_def)

lemma cached_key_value:
  assumes inv: "device_inv disk E U secret salt s" and mac: "mac_laws E"
    and inj: "inj_on (sy_sha256 E) (cache_inputs E secret salt U)" and used: "(x, b) \<in> U"
    and cached: "map_of (g_keyCache s) (sy_sha256 E (sync_password E secret x @ salt @ b)) = Some k"
  shows "k = key_value E secret salt x b"
proof -
  have len: "length secret = kSecretSize" using inv by (simp add: device_inv_def)
  from map_of_SomeD [OF cached] inv obtain x' b' where u: "(x', b') \<in> U"
    and h: "sy_sha256 E (sync_password E secret x @ salt @ b) = sy_sha256 E (sync_password E secret x' @ salt @ b')"
    and k: "k = key_value E secret salt x' b'"
    unfolding device_inv_def cache_ok_def by fastforce
  from used u have "sync_password E secret x @ salt @ b \<in> cache_inputs E secret salt U"
    and "sync_password E secret x' @ salt @ b' \<in> cache_inputs E secret salt U"
    by (force simp: cache_inputs_def)+
  from inj_onD [OF inj h this]
  have "sync_password E secret x = sync_password E secret x'" and "b = b'"
    using sync_password_length [OF mac len] by (simp_all add: append_eq_append_conv)
  with k show ?thesis by (simp add: key_value_def)
qed

lemma LoadKeyState_inv:
  assumes "disk \<Longrightarrow> file_works f" and "device_inv disk E U secret salt s"
  shows "device_inv disk E U secret salt (LoadKeyStateLocked E f s)"
    and "g_stateSalt (LoadKeyStateLocked E f s) = salt"
  using assms by (auto simp: LoadKeyStateLocked_def device_inv_def file_works_def Let_def split: prod.split if_splits)

lemma DeviceSecret_inv:
  assumes "disk \<Longrightarrow> file_works f" and "device_inv disk E U secret salt s"
  shows "device_inv disk E U secret salt (snd (DeviceSecret f s))"
    and "fst (DeviceSecret f s) = secret"
  using assms by (auto simp: DeviceSecret_def device_inv_def file_works_def Let_def split: if_splits)

lemma SetLegacy_inv:
  "device_inv disk E U secret salt (SetLegacySyncKey k s) = device_inv disk E U secret salt s"
  by (simp add: device_inv_def SetLegacySyncKey_def)

lemma set_update_subset: "set (AList.update k v al) \<subseteq> insert (k, v) (set al)"
  by (induction al) auto

lemma cache_inv:
  assumes "device_inv disk E U secret salt s" and "set c \<subseteq> insert (h, k) (set (g_keyCache s))"
    and "(x, b) \<in> U" and "h = sy_sha256 E (sync_password E secret x @ salt @ b)" and "k = key_value E secret salt x b"
  shows "device_inv disk E U secret salt (s\<lparr>g_keyCache := c\<rparr>)"
proof -
  have "cache_ok E U secret salt c"
    unfolding cache_ok_def
  proof
    fix e
    assume "e \<in> set c"
    then consider "e = (h, k)" | "e \<in> set (g_keyCache s)" using assms(2) by blast
    then show "\<exists>x b. (x, b) \<in> U
        \<and> e = (sy_sha256 E (sync_password E secret x @ salt @ b), key_value E secret salt x b)"
    proof cases
      case 1
      show ?thesis
        by (rule exI [of _ x], rule exI [of _ b], rule conjI [OF assms(3)], simp only: 1 assms(4,5))
    next
      case 2
      then show ?thesis using assms(1) by (simp add: device_inv_def cache_ok_def)
    qed
  qed
  then show ?thesis using assms(1) by (simp add: device_inv_def)
qed

lemma derive_new_key_inv:
  assumes inv: "device_inv disk E U secret salt s" and loaded: "g_stateSalt s = salt" and used: "(x, b) \<in> U"
  defines "r \<equiv> derive_new_key E (sync_password E secret x) b (sy_sha256 E (sync_password E secret x @ salt @ b)) s"
  shows "fst r = key_value E secret salt x b" and "device_inv disk E U secret salt (snd r)"
proof -
  show "fst r = key_value E secret salt x b"
    using loaded by (simp add: r_def derive_new_key_def key_value_def Let_def)
  let ?h = "sy_sha256 E (sync_password E secret x @ salt @ b)"
  let ?c = "if length (g_keyCache s) > 4 then [] else g_keyCache s"
  have "set ?c \<subseteq> set (g_keyCache s)" by simp
  then have "set (AList.update ?h (key_value E secret salt x b) ?c)
      \<subseteq> insert (?h, key_value E secret salt x b) (set (g_keyCache s))"
    by (rule order_trans [OF set_update_subset insert_mono])
  from cache_inv [OF inv this used refl refl]
  have "device_inv disk E U secret salt (s\<lparr>g_keyCache := AList.update ?h (key_value E secret salt x b) ?c\<rparr>)" .
  moreover have "snd r = s \<or> snd r = s\<lparr>g_keyCache := AList.update ?h (key_value E secret salt x b) ?c\<rparr>"
    using loaded by (simp add: r_def derive_new_key_def key_value_def Let_def)
  ultimately show "device_inv disk E U secret salt (snd r)" using inv by auto
qed

lemma DeriveSyncKey_inv:
  assumes io: "disk \<Longrightarrow> file_works f" and inv: "device_inv disk E U secret salt s" and mac: "mac_laws E"
    and inj: "inj_on (sy_sha256 E) (cache_inputs E secret salt U)" and used: "(x, b) \<in> U"
  shows "fst (DeriveSyncKey E f secret x b s) = key_value E secret salt x b"
    and "device_inv disk E U secret salt (snd (DeriveSyncKey E f secret x b s))"
proof -
  let ?s = "LoadKeyStateLocked E f s"
  let ?h = "sy_sha256 E (sync_password E secret x @ salt @ b)"
  note l = LoadKeyState_inv [OF io inv]
  have len: "length secret = kKeySize"
    using inv by (simp add: device_inv_def kSecretSize_def kKeySize_def)
  note n = derive_new_key_inv [OF l used]
  have "DeriveSyncKey E f secret x b s = derive_new_key E (sync_password E secret x) b ?h ?s
      \<or> (\<exists>k. map_of (g_keyCache ?s) ?h = Some k \<and> DeriveSyncKey E f secret x b s = (k, ?s))"
    using len l(2) by (simp add: DeriveSyncKey_def Let_def split: option.split)
  then show "fst (DeriveSyncKey E f secret x b s) = key_value E secret salt x b"
    and "device_inv disk E U secret salt (snd (DeriveSyncKey E f secret x b s))"
    using n l(1) cached_key_value [OF l(1) mac inj used] by (auto simp del: LoadKeyState_secret)
qed

lemma SyncKey_inv:
  assumes io: "io_ok disk r" and inv: "device_inv disk E U secret salt s" and mac: "mac_laws E"
    and inj: "inj_on (sy_sha256 E) (cache_inputs E secret salt U)" and used: "(x, MasterMaterial E i p) \<in> U"
  shows "fst (SyncKey E (r_secret r) (r_salt r) x i p s) = key_value E secret salt x (MasterMaterial E i p)"
    and "device_inv disk E U secret salt (snd (SyncKey E (r_secret r) (r_salt r) x i p s))"
proof -
  let ?s = "SetLegacySyncKey (DeriveLegacySyncKey E (MasterMaterial E i p)) s"
  have io': "disk \<Longrightarrow> file_works (r_secret r)" "disk \<Longrightarrow> file_works (r_salt r)" using io by (simp_all add: io_ok_def)
  have "device_inv disk E U secret salt ?s" using inv by (simp add: SetLegacy_inv)
  note d = DeviceSecret_inv [OF io'(1) this]
  show "fst (SyncKey E (r_secret r) (r_salt r) x i p s) = key_value E secret salt x (MasterMaterial E i p)"
    and "device_inv disk E U secret salt (snd (SyncKey E (r_secret r) (r_salt r) x i p s))"
    using DeriveSyncKey_inv [OF io'(2) d(1) mac inj used] d(2) by (simp_all add: SyncKey_derive Let_def)
qed

lemma MarkSyncMigrationComplete_inv:
  assumes "text_laws E" and "disk \<Longrightarrow> file_works f" and "device_inv disk E U secret salt s"
  shows "device_inv disk E U secret salt (MarkSyncMigrationComplete E f s)"
proof (cases "g_migrationComplete s")
  case False
  note l = LoadKeyState_inv [OF assms(2,3)]
  have "disk \<Longrightarrow> fst (read_state E (stateFile (MarkSyncMigrationComplete E f s))) = salt"
    using False l(2) assms(1,2)
    by (simp add: MarkSyncMigrationComplete_def SaveMigrationStateLocked_def read_state_text file_works_def)
  then show ?thesis
    using False l by (simp add: MarkSyncMigrationComplete_def SaveMigrationStateLocked_def device_inv_def split: if_splits)
qed (use assms in \<open>simp add: MarkSyncMigrationComplete_def\<close>)

definition used_keys :: "sync_env \<Rightarrow> (sync_rand \<times> sync_op) list \<Rightarrow> (bytes \<times> bytes) set" where
  "used_keys E ops = {(x, MasterMaterial E i p) | x i p. \<exists>r. (r, OpSyncKey x i p) \<in> set ops}"

lemma DecryptBundle_inv:
  assumes "text_laws E" and "disk \<Longrightarrow> file_works f" and "device_inv disk E U secret salt s"
  shows "device_inv disk E U secret salt (snd (DecryptBundle E f blob key s))"
  using DecryptBundle_state [of E f blob key s] LoadKeyState_inv(1) [OF assms(2,3)] assms
    MarkSyncMigrationComplete_inv [OF assms(1,2)] by fastforce

lemma sync_step_inv:
  assumes "text_laws E" and "mac_laws E" and "inj_on (sy_sha256 E) (cache_inputs E secret salt U)"
    and inv: "device_inv disk E U secret salt s" and ok: "step_ok disk ro" and used: "used_keys E [ro] \<subseteq> U"
  shows "device_inv disk E U secret salt (sync_step E ro s)"
proof -
  obtain r op where ro: "ro = (r, op)" by fastforce
  have io: "io_ok disk r" "disk \<Longrightarrow> file_works (r_secret r)" "disk \<Longrightarrow> file_works (r_salt r)"
    using ok ro by (simp_all add: step_ok_def io_ok_def)
  note dec = DecryptBundle_inv [OF assms(1) io(3)]
  note dev = DeviceSecret_inv(1) [OF io(2)]
  show ?thesis
  proof (cases op)
    case (OpSyncKey x i p)
    then have "(x, MasterMaterial E i p) \<in> U" using used ro by (auto simp: used_keys_def)
    then show ?thesis using OpSyncKey ro SyncKey_inv(2) [OF io(1) inv assms(2,3)] by simp
  next
    case (OpProtect p)
    then show ?thesis using ro inv dev by (simp add: ProtectSecret_state)
  next
    case (OpUnprotect p)
    then show ?thesis
      using ro inv dev dec UnprotectSecret_state [of E "r_secret r" "r_salt r" p s] by fastforce
  next
    case (OpDecrypt b key)
    then show ?thesis using ro dec [OF _ inv] by simp
  next
    case OpMigrationComplete
    then show ?thesis using ro MarkSyncMigrationComplete_inv [OF assms(1) io(3) inv] by simp
  next
    case (OpSetLegacy k)
    then show ?thesis using ro inv by (simp add: SetLegacy_inv)
  next
    case OpRestart
    then have disk using ok ro by (auto simp: step_ok_def)
    then show ?thesis using OpRestart ro inv by (simp add: device_inv_def sync_start_def cache_ok_def)
  qed
qed

lemma sync_steps_inv:
  assumes "text_laws E" and "mac_laws E" and "inj_on (sy_sha256 E) (cache_inputs E secret salt U)"
    and "used_keys E ops \<subseteq> U" and "\<forall>ro \<in> set ops. step_ok disk ro" and "device_inv disk E U secret salt s"
  shows "device_inv disk E U secret salt (fold (sync_step E) ops s)"
  using assms(4-6)
proof (induction ops arbitrary: s)
  case (Cons ro ops)
  have "used_keys E ops \<subseteq> U" and "used_keys E [ro] \<subseteq> U"
    using Cons.prems(1) by (fastforce simp: used_keys_def)+
  moreover from this(2) have "device_inv disk E U secret salt (sync_step E ro s)"
    using Cons.prems(2,3) by (intro sync_step_inv [OF assms(1,2,3)]) simp_all
  ultimately show ?case using Cons by simp
qed simp

lemma DeriveSyncKey_load:
  assumes "length secret = kKeySize"
  shows "DeriveSyncKey E f secret x b s = DeriveSyncKey E f secret x b (LoadKeyStateLocked E f s)"
  using assms by (simp add: DeriveSyncKey_def LoadKeyState_loaded_id)

text \<open>New secrets, salts and nonces have the sizes that are asked of \<open>RAND_bytes\<close>.\<close>

definition well_drawn :: "sync_rand \<Rightarrow> bool" where
  "well_drawn r \<longleftrightarrow> length (fi_fresh (r_secret r)) = kSecretSize \<and> length (fi_fresh (r_salt r)) = kSaltSize
    \<and> length (r_nonce r) = kNonceSize"

lemma first_device_secret:
  assumes "length (fi_fresh f) = kSecretSize" and "DeviceSecret f (sync_start sf kf\<lparr>g_legacyKey := l\<rparr>) = (secret, s)"
  shows "length secret = kSecretSize" and "file_works f \<Longrightarrow> UnwrapSecret (secretFile s) = secret"
    and "g_secret s = secret" and "g_secretLoaded s" and "\<not> g_stateLoaded s" and "g_keyCache s = []"
  using assms
  by (auto simp: DeviceSecret_def sync_start_def UnwrapSecret_WrapSecret file_works_def Let_def split: if_splits)

lemma first_key_state:
  assumes "text_laws E" and "length (fi_fresh f) = kSaltSize" and "\<not> g_stateLoaded s"
  defines "s1 \<equiv> LoadKeyStateLocked E f s"
  shows "length (g_stateSalt s1) = kSaltSize"
    and "file_works f \<Longrightarrow> fst (read_state E (stateFile s1)) = g_stateSalt s1"
  using assms by (auto simp: LoadKeyStateLocked_def read_state_text file_works_def Let_def split: prod.split)

lemma first_SyncKey:
  assumes laws: "text_laws E" "mac_laws E" and drawn: "well_drawn r" and io: "io_ok disk r"
    and first: "SyncKey E (r_secret r) (r_salt r) x i p (sync_start sf kf) = (key, s1)"
    and inj: "inj_on (sy_sha256 E) (cache_inputs E (g_secret s1) (g_stateSalt s1) U)"
    and used: "(x, MasterMaterial E i p) \<in> U"
  shows "key = key_value E (g_secret s1) (g_stateSalt s1) x (MasterMaterial E i p)"
    and "device_inv disk E U (g_secret s1) (g_stateSalt s1) s1"
proof -
  let ?b = "MasterMaterial E i p"
  let ?f = "r_salt r"
  obtain secret s where d: "DeviceSecret (r_secret r) (sync_start sf kf\<lparr>g_legacyKey := DeriveLegacySyncKey E ?b\<rparr>) = (secret, s)"
    by fastforce
  have fresh: "length (fi_fresh (r_secret r)) = kSecretSize" "length (fi_fresh ?f) = kSaltSize"
    and works: "disk \<Longrightarrow> file_works (r_secret r)" "disk \<Longrightarrow> file_works ?f"
    using drawn io by (simp_all add: well_drawn_def io_ok_def)
  note d' = first_device_secret [OF fresh(1) d]
  let ?s = "LoadKeyStateLocked E ?f s"
  note l' = first_key_state [OF laws(1) fresh(2) d'(5)]
  have inv: "device_inv disk E U secret (g_stateSalt ?s) ?s"
    using d' l' works by (simp add: device_inv_def cache_ok_def)
  have len: "length secret = kKeySize" using d'(1) by (simp add: kSecretSize_def kKeySize_def)
  have derive: "SyncKey E (r_secret r) ?f x i p (sync_start sf kf) = DeriveSyncKey E ?f secret x ?b ?s"
    using d DeriveSyncKey_load [OF len] by (simp add: SyncKey_derive SetLegacySyncKey_def)
  have "s1 = ?s \<or> (\<exists>c. s1 = ?s\<lparr>g_keyCache := c\<rparr>)"
    using first DeriveSyncKey_state [of E ?f secret x ?b ?s] derive by (auto simp: LoadKeyState_loaded_id)
  then have same: "g_secret s1 = secret" "g_stateSalt s1 = g_stateSalt ?s" using d'(3) by auto
  with inj have "inj_on (sy_sha256 E) (cache_inputs E secret (g_stateSalt ?s) U)" by simp
  from DeriveSyncKey_inv [OF works(2) inv laws(2) this used]
  show "key = key_value E (g_secret s1) (g_stateSalt s1) x ?b"
    and "device_inv disk E U (g_secret s1) (g_stateSalt s1) s1"
    using first derive same by simp_all
qed

text \<open>C26: The key of an account does not change. A process that has derived the sync key for
  the id and the phone of an account, whatever its files were, derives the same key for them
  again after anything it does meanwhile: other accounts, migration, an overflow of the cache,
  whatever its files do. Restarts make no difference either when every read and write of
  the two files of the device is complete. The export key is the same both times, and no two of
  the texts under which the keys of these calls are cached have the same SHA-256.\<close>

theorem sync_key_is_stable:
  assumes "text_laws E" and "mac_laws E" and "well_drawn r"
    and "SyncKey E (r_secret r) (r_salt r) x i p (sync_start sf kf) = (key, s1)"
    and "same_process ops \<or> files_work ([r, r'] @ map fst ops)"
    and "inj_on (sy_sha256 E)
      (cache_inputs E (g_secret s1) (g_stateSalt s1) (insert (x, MasterMaterial E i p) (used_keys E ops)))"
  shows "fst (SyncKey E (r_secret r') (r_salt r') x i p (fold (sync_step E) ops s1)) = key"
proof -
  let ?U = "insert (x, MasterMaterial E i p) (used_keys E ops)"
  obtain disk where io: "\<forall>q \<in> set [r, r']. io_ok disk q" and ok: "\<forall>ro \<in> set ops. step_ok disk ro"
    by (rule kept_in_one_way [OF assms(5)])
  have io: "io_ok disk r" "io_ok disk r'" using io by simp_all
  note first = first_SyncKey [OF assms(1-3) io(1) assms(4,6) insertI1]
  have "device_inv disk E ?U (g_secret s1) (g_stateSalt s1) (fold (sync_step E) ops s1)"
    by (rule sync_steps_inv [OF assms(1,2,6) subset_insertI ok first(2)])
  then show ?thesis
    using SyncKey_inv(1) [OF io(2) _ assms(2,6) insertI1] first(1) by simp
qed

section \<open>Protected secrets\<close>

text \<open>What the cipher promises: what it sealed it opens again, with a text of the same
  length and a tag of 16 bytes.\<close>

definition aead_laws :: "sync_env \<Rightarrow> bool" where
  "aead_laws E \<longleftrightarrow> (\<forall>key nonce plain c t. sy_seal E key nonce plain = Some (c, t)
    \<longrightarrow> sy_open E key nonce c t = Some plain \<and> length c = length plain \<and> length t = kTagSize)"

lemma length_kMagic [simp]: "length kMagic = 8"
  by (simp add: kMagic_def ascii_def)

lemma DecryptBundleWithKey_EncryptBundle:
  assumes "aead_laws E" and "length nonce = kNonceSize" and "plain \<noteq> []"
    and "EncryptBundle E nonce plain key \<noteq> []"
  shows "DecryptBundleWithKey E (EncryptBundle E nonce plain key) key = Some plain"
proof -
  obtain c t where seal: "sy_seal E key nonce plain = Some (c, t)"
    and blob: "EncryptBundle E nonce plain key = kMagic @ nonce @ c @ t"
    and key: "length key = kKeySize"
    using assms(4) by (auto simp: EncryptBundle_def split: if_splits option.splits)
  have o: "sy_open E key nonce c t = Some plain" "length c = length plain" "length t = 16"
    using assms(1) seal by (auto simp: aead_laws_def kTagSize_def)
  then have "length c > 0" using assms(3) by simp
  then show ?thesis
    using o key assms(2)
    by (simp add: DecryptBundleWithKey_def blob kNonceSize_def kTagSize_def Let_def)
qed

text \<open>An empty text seals to a bundle that is too short to be read.\<close>

lemma empty_bundle_is_refused:
  assumes "aead_laws E" and "length nonce = kNonceSize"
  shows "DecryptBundleWithKey E (EncryptBundle E nonce [] key) key = None"
proof (cases "sy_seal E key nonce []")
  case (Some ct)
  then have "length (fst ct) = 0" and "length (snd ct) = 16"
    using assms(1) by (cases ct; auto simp: aead_laws_def kTagSize_def)+
  then show ?thesis
    using Some assms(2)
    by (cases ct) (simp add: DecryptBundleWithKey_def EncryptBundle_def kNonceSize_def kTagSize_def)
qed (simp add: EncryptBundle_def DecryptBundleWithKey_def)

text \<open>The secret of the device never changes once the process or the file has it.\<close>

definition has_secret :: "bool \<Rightarrow> bytes \<Rightarrow> sync_state \<Rightarrow> bool" where
  "has_secret disk secret s \<longleftrightarrow>
    (if disk then length secret = kSecretSize \<and> UnwrapSecret (secretFile s) = secret
       \<and> (g_secretLoaded s \<longrightarrow> g_secret s = secret)
     else g_secretLoaded s \<and> g_secret s = secret)"

lemma DeviceSecret_has_secret:
  assumes "disk \<Longrightarrow> file_works f" and "has_secret disk secret s"
  shows "has_secret disk secret (snd (DeviceSecret f s))" and "fst (DeviceSecret f s) = secret"
  using assms by (auto simp: DeviceSecret_def has_secret_def file_works_def Let_def split: if_splits)

lemma secret_unchanged:
  assumes "g_secret s' = g_secret s" and "g_secretLoaded s' = g_secretLoaded s" and "secretFile s' = secretFile s"
  shows "has_secret disk secret s' = has_secret disk secret s"
  using assms by (simp add: has_secret_def)

lemma Mark_has_secret [simp]: "has_secret disk secret (MarkSyncMigrationComplete E f s) = has_secret disk secret s"
  by (rule secret_unchanged) (simp_all add: MarkSyncMigrationComplete_def SaveMigrationStateLocked_def)

lemma LoadKeyState_has_secret [simp]: "has_secret disk secret (LoadKeyStateLocked E f s) = has_secret disk secret s"
  by (rule secret_unchanged) simp_all

lemma SetLegacy_has_secret [simp]: "has_secret disk secret (SetLegacySyncKey k s) = has_secret disk secret s"
  by (rule secret_unchanged) (simp_all add: SetLegacySyncKey_def)

lemma sync_step_secret:
  assumes "step_ok disk ro" and "has_secret disk secret s"
  shows "has_secret disk secret (sync_step E ro s)"
proof (rule sync_step_keeps [where P = "has_secret disk secret", OF assms(2)])
  show "has_secret disk secret (snd (DeviceSecret (r_secret (fst ro)) u))" if "has_secret disk secret u" for u
    using assms(1) that by (intro DeviceSecret_has_secret(1)) (simp_all add: step_ok_def io_ok_def)
  show "has_secret disk secret (sync_start (stateFile s) (secretFile s))" if "snd ro = OpRestart"
    using assms that by (simp add: step_ok_def has_secret_def sync_start_def split: if_splits)
qed (simp_all, simp add: has_secret_def)

lemma sync_steps_secret:
  "\<forall>ro \<in> set ops. step_ok disk ro \<Longrightarrow> has_secret disk secret s
    \<Longrightarrow> has_secret disk secret (fold (sync_step E) ops s)"
  by (induction ops arbitrary: s) (simp_all add: sync_step_secret)

text \<open>When the files work, a process that has a secret has it in the file.\<close>

definition secret_known :: "bool \<Rightarrow> sync_state \<Rightarrow> bool" where
  "secret_known disk s \<longleftrightarrow> (g_secretLoaded s \<longrightarrow> has_secret disk (g_secret s) s)"

lemma known_unchanged:
  assumes "g_secret s' = g_secret s" and "g_secretLoaded s' = g_secretLoaded s" and "secretFile s' = secretFile s"
  shows "secret_known disk s' = secret_known disk s"
  using assms by (simp add: secret_known_def has_secret_def)

lemma DeviceSecret_known:
  assumes "length (fi_fresh f) = kSecretSize" and "disk \<Longrightarrow> file_works f" and "secret_known disk s"
  shows "secret_known disk (snd (DeviceSecret f s))"
    and "has_secret disk (fst (DeviceSecret f s)) (snd (DeviceSecret f s))"
  using assms
  by (auto simp: DeviceSecret_def secret_known_def has_secret_def UnwrapSecret_WrapSecret file_works_def Let_def
      split: if_splits)

lemma sync_step_known:
  assumes "well_drawn (fst ro)" and "io_ok disk (fst ro)" and "secret_known disk s"
  shows "secret_known disk (sync_step E ro s)"
proof (rule sync_step_keeps [where P = "secret_known disk", OF assms(3)])
  show "secret_known disk (snd (DeviceSecret (r_secret (fst ro)) u))" if "secret_known disk u" for u
    using assms(1,2) that by (intro DeviceSecret_known(1)) (simp_all add: well_drawn_def io_ok_def)
  show "secret_known disk (SetLegacySyncKey k u)" if "secret_known disk u" for k u
    using that known_unchanged [of "SetLegacySyncKey k u" u] by (simp add: SetLegacySyncKey_def)
  show "secret_known disk (LoadKeyStateLocked E (r_salt (fst ro)) u)" if "secret_known disk u" for u
    using that known_unchanged [of "LoadKeyStateLocked E (r_salt (fst ro)) u" u] by simp
  show "secret_known disk (MarkSyncMigrationComplete E (r_salt (fst ro)) u)" if "secret_known disk u" for u
    using that known_unchanged [of "MarkSyncMigrationComplete E (r_salt (fst ro)) u" u]
    by (simp add: MarkSyncMigrationComplete_def SaveMigrationStateLocked_def)
qed (simp_all add: secret_known_def has_secret_def sync_start_def)

lemma sync_steps_known:
  assumes "\<forall>ro \<in> set ops. well_drawn (fst ro) \<and> io_ok disk (fst ro)" and "secret_known disk s"
  shows "secret_known disk (fold (sync_step E) ops s)"
  using assms by (induction ops arbitrary: s) (simp_all add: sync_step_known)

lemma toLatin1_fromLatin1 [simp]: "toLatin1 (fromLatin1 bs) = bs"
proof -
  have "(if (ucast b :: 16 word) < 256 then ucast (ucast b :: 16 word) else 63) = (b :: byte)" for b
  proof -
    have "unat (ucast b :: 16 word) < 256"
      using unsigned_less [where w = b and ?'a = nat] by (simp add: unsigned_ucast_eq take_bit_nat_eq_self)
    moreover have "ucast (ucast b :: 16 word) = b"
      by (rule bit_word_eqI) (simp add: bit_simps)
    ultimately show ?thesis by (simp add: word_less_nat_alt)
  qed
  then show ?thesis by (simp add: toLatin1_def fromLatin1_def o_def)
qed

text \<open>C28: A secret that the device protects stays readable. Whatever was done before and is done
  after, unprotecting what \<open>ProtectSecret\<close> returned gives the secret back, also where the cipher
  was not available and it was stored as it is: in the process that protected it, whatever
  its files do, and after any restarts when every read and write of the two files of the
  device, from the first start on, is complete. The secret is not empty, is valid text and does
  not itself look like a protected one.\<close>

theorem protected_secret_is_readable:
  assumes "text_laws E" and "aead_laws E"
    and "sy_toUtf8 E plain \<noteq> []" and "sy_fromUtf8 E (sy_toUtf8 E plain) = plain"
    and "\<not> IsProtectedSecret plain"
    and "\<forall>q \<in> set (r # map fst earlier). well_drawn q"
    and "ProtectSecret E (r_secret r) (r_nonce r) plain (fold (sync_step E) earlier (sync_start sf kf)) = (stored, s)"
    and "same_process after \<or> files_work ([r, r'] @ map fst earlier @ map fst after)"
  shows "fst (UnprotectSecret E (r_secret r') (r_salt r') stored (fold (sync_step E) after s)) = plain"
proof -
  let ?s0 = "fold (sync_step E) earlier (sync_start sf kf)"
  let ?secret = "fst (DeviceSecret (r_secret r) ?s0)"
  let ?key = "sy_hmac E ?secret (ascii ''TeleForge-Field-v1'')"
  let ?blob = "EncryptBundle E (r_nonce r) (sy_toUtf8 E plain) ?key"
  have "same_process after \<or> files_work ((r # r' # map fst earlier) @ map fst after)"
    using assms(8) by (auto simp: files_work_def)
  then obtain disk where io: "\<forall>q \<in> set (r # r' # map fst earlier). io_ok disk q"
    and ok: "\<forall>ro \<in> set after. step_ok disk ro" by (rule kept_in_one_way)
  have "secret_known disk ?s0"
    by (rule sync_steps_known) (use assms(6) io in \<open>simp_all add: secret_known_def sync_start_def\<close>)
  then have known: "has_secret disk ?secret (snd (DeviceSecret (r_secret r) ?s0))"
    using assms(6) io by (intro DeviceSecret_known(2)) (simp_all add: well_drawn_def io_ok_def)
  show ?thesis
  proof (cases "plain = [] \<or> ?blob = []")
    case True
    then have "stored = plain"
      using assms(7) by (auto simp: ProtectSecret_def FieldCryptKey_def case_prod_unfold Let_def split: if_splits)
    then show ?thesis using assms(5) by (simp add: UnprotectSecret_def)
  next
    case False
    then have stored: "stored = kFieldPrefix @ fromLatin1 (sy_toBase64 E ?blob)"
      and s: "s = snd (DeviceSecret (r_secret r) ?s0)"
      using assms(7) by (auto simp: ProtectSecret_def FieldCryptKey_def case_prod_unfold Let_def split: if_splits)
    let ?s = "fold (sync_step E) after s"
    have "has_secret disk ?secret ?s" using known s by (simp add: sync_steps_secret [OF ok])
    from DeviceSecret_has_secret(2) [OF _ this, of "r_secret r'"] io
    have "fst (FieldCryptKey E (r_secret r') ?s) = ?key"
      by (simp add: FieldCryptKey_def case_prod_unfold io_ok_def)
    moreover have "length (r_nonce r) = kNonceSize" using assms(6) by (simp add: well_drawn_def)
    then have "DecryptBundleWithKey E ?blob ?key = Some (sy_toUtf8 E plain)"
      using False by (intro DecryptBundleWithKey_EncryptBundle [OF assms(2) _ assms(3)]) simp_all
    moreover have "sy_fromBase64 E (toLatin1 (drop (length kFieldPrefix) stored)) = ?blob"
      using assms(1) stored by (simp add: text_laws_def)
    moreover have "IsProtectedSecret stored" using stored by (simp add: IsProtectedSecret_def)
    ultimately show ?thesis
      using assms(4) by (simp add: UnprotectSecret_def DecryptBundle_def case_prod_unfold Let_def)
  qed
qed

section \<open>An instance of the code around\<close>

definition unhex_char :: "byte \<Rightarrow> byte" where
  "unhex_char c = (if c < 58 then c - 48 else c - 87)"

fun from_hex :: "bytes \<Rightarrow> bytes" where
  "from_hex (a # b # cs) = (push_bit 4 (unhex_char a) OR unhex_char b) # from_hex cs"
| "from_hex _ = []"

lemma unhex_hex: "d < 16 \<Longrightarrow> unhex_char (hex_char d) = d"
  by (auto simp: unhex_char_def hex_char_def word_less_nat_alt unat_word_ariths)

lemma from_hex_to_hex: "from_hex (to_hex bs) = bs"
proof (induction bs)
  case (Cons b bs)
  have "unat b < 256" using unsigned_less [where w = b and ?'a = nat] by simp
  then have "unat b div 16 < 16" by linarith
  then have "drop_bit 4 b < 16" unfolding word_less_nat_alt unat_drop_bit_eq by (simp add: drop_bit_eq_div)
  moreover have "b AND 15 < 16"
  proof -
    have "b AND 15 \<le> 15" by (rule word_and_le1)
    then show ?thesis by (simp add: word_le_nat_alt word_less_nat_alt del: word_and_le1 word_and_le2)
  qed
  moreover have "push_bit 4 (drop_bit 4 b) OR (b AND 15) = b"
  proof -
    have m: "(15 :: byte) = mask 4" by (simp add: mask_eq_exp_minus_1)
    show ?thesis unfolding m by (rule bit_word_eqI) (auto simp: bit_simps)
  qed
  ultimately show ?case using Cons.IH by (simp add: to_hex_def unhex_hex)
qed (simp add: to_hex_def)

definition sample_env :: sync_env where
  "sample_env = \<lparr>sy_sha256 = (\<lambda>x. x), sy_hmac = (\<lambda>k d. take 32 (k @ d @ replicate 32 7)),
    sy_pbkdf2 = (\<lambda>p s i n. Some (take n (p @ s @ replicate n 0))),
    sy_seal = (\<lambda>k n p. if take 1 n = [0] then None else Some (p, replicate kTagSize (hd (k @ [0])))),
    sy_open = (\<lambda>k n c t. if t = replicate kTagSize (hd (k @ [0])) then Some c else None),
    sy_fromHex = from_hex, sy_toUtf8 = toLatin1, sy_fromUtf8 = fromLatin1,
    sy_toBase64 = (\<lambda>x. x), sy_fromBase64 = (\<lambda>x. x), sy_number = (\<lambda>i. [of_int i])\<rparr>"

lemma sample_env_laws: "text_laws sample_env" "mac_laws sample_env" "aead_laws sample_env"
  by (auto simp: sample_env_def text_laws_def mac_laws_def aead_laws_def from_hex_to_hex split: if_splits)

text \<open>Files that work, and files that cannot be opened.\<close>

definition works :: "bytes \<Rightarrow> file_io" where
  "works b = \<lparr>fi_fresh = b, fi_read = Whole, fi_write = Whole, fi_save = Whole\<rparr>"

definition broken_file :: "bytes \<Rightarrow> file_io" where
  "broken_file b = \<lparr>fi_fresh = b, fi_read = OpenFails, fi_write = OpenFails, fi_save = Cut 3\<rparr>"

definition sample_rand :: "byte \<Rightarrow> sync_rand" where
  "sample_rand b = \<lparr>r_secret = works (replicate 32 b), r_salt = works (replicate 16 b), r_nonce = replicate 12 b\<rparr>"

definition broken_rand :: sync_rand where
  "broken_rand = \<lparr>r_secret = broken_file (replicate 32 6), r_salt = broken_file (replicate 16 6), r_nonce = replicate 12 6\<rparr>"

lemma works_works [simp]: "file_works (works b)"
  by (simp add: file_works_def works_def)

lemma sample_rand_drawn [simp]: "well_drawn (sample_rand b)" "well_drawn broken_rand"
  by (simp_all add: well_drawn_def sample_rand_def broken_rand_def works_def broken_file_def
      kSecretSize_def kSaltSize_def kNonceSize_def)

lemma sample_rand_works [simp]: "file_works (r_secret (sample_rand b))" "file_works (r_salt (sample_rand b))"
  by (simp_all add: sample_rand_def)

text \<open>An old bundle, which the legacy key reads until the migration is marked complete.\<close>

definition sample_old_bundle :: "byte \<Rightarrow> bytes" where
  "sample_old_bundle x = EncryptBundle sample_env (replicate kNonceSize 1) [x] (replicate 32 3)"

definition set_legacy :: "sync_rand \<times> sync_op" where
  "set_legacy = (sample_rand 1, OpSetLegacy (replicate 32 3))"

theorem migration_retires_legacy_key_witness:
  "fst (DecryptBundle sample_env (works []) (sample_old_bundle 9) (replicate 32 4)
      (fold (sync_step sample_env) [set_legacy] (sync_start [] []))) = Some [9]
   \<and> fst (DecryptBundle sample_env (r_salt (sample_rand 2)) (sample_old_bundle 9) (replicate 32 4)
      (fold (sync_step sample_env) ([set_legacy] @ [(sample_rand 2, OpMigrationComplete)]
        @ [(sample_rand 3, OpRestart), set_legacy]) (sync_start [] []))) = None"
proof -
  have a: "fst (DecryptBundle sample_env (works []) (sample_old_bundle 9) (replicate 32 4)
      (fold (sync_step sample_env) [set_legacy] (sync_start [] []))) = Some [9]" by code_simp
  have b: "DecryptBundleWithKey sample_env (sample_old_bundle 9) (replicate 32 4) = None" by code_simp
  have w: "same_process [(sample_rand 3, OpRestart), set_legacy]
      \<or> files_work ([sample_rand 2, sample_rand 2] @ map fst [set_legacy]
          @ map fst [(sample_rand 3, OpRestart), set_legacy])"
    by (simp add: files_work_def set_legacy_def)
  show ?thesis
    by (rule conjI [OF a]) (rule trans [OF migration_retires_legacy_key [OF sample_env_laws(1) w] b])
qed

theorem sync_key_is_stable_witness:
  "let r = SyncKey sample_env (r_secret (sample_rand 1)) (r_salt (sample_rand 1)) [6] 49 [7] (sync_start [] [])
   in fst r \<noteq> [] \<and> fst (SyncKey sample_env (r_secret (sample_rand 9)) (r_salt (sample_rand 9)) [6] 49 [7]
        (fold (sync_step sample_env)
          [(sample_rand 4, OpMigrationComplete), (sample_rand 5, OpSyncKey [6] 50 [7]),
           (sample_rand 8, OpRestart)] (snd r))) = fst r"
proof -
  let ?r = "SyncKey sample_env (r_secret (sample_rand 1)) (r_salt (sample_rand 1)) [6] 49 [7] (sync_start [] [])"
  have inj: "inj_on (sy_sha256 sample_env) A" for A by (simp add: sample_env_def inj_on_def)
  have r: "?r = (fst ?r, snd ?r)" by (rule prod.collapse [symmetric])
  have io: "io_ok True (sample_rand 1)" by (simp add: io_ok_def)
  note k = first_SyncKey [OF sample_env_laws(1,2) sample_rand_drawn(1) io r inj UNIV_I]
  have "length (sync_password sample_env (g_secret (snd ?r)) [6]) = 32"
    using k(2) by (intro sync_password_length sample_env_laws) (simp add: device_inv_def)
  then have "length (fst ?r) = 32"
    unfolding k(1) by (simp add: key_value_def sample_env_def kKeySize_def)
  then have ne: "fst ?r \<noteq> []" by auto
  let ?ops = "[(sample_rand 4, OpMigrationComplete), (sample_rand 5, OpSyncKey [6] 50 [7]), (sample_rand 8, OpRestart)]"
  have w: "same_process ?ops \<or> files_work ([sample_rand 1, sample_rand 9] @ map fst ?ops)"
    by (simp add: files_work_def)
  show ?thesis
    unfolding Let_def
    by (rule conjI [OF ne sync_key_is_stable [OF sample_env_laws(1,2) sample_rand_drawn(1) r w inj]])
qed

text \<open>The files of this device cannot be opened; the secret is readable until it ends.\<close>

theorem protected_secret_is_readable_witness:
  "let r = ProtectSecret sample_env (r_secret broken_rand) (r_nonce broken_rand) (latin1 ''pass'') (sync_start [] [])
   in IsProtectedSecret (fst r)
    \<and> fst (UnprotectSecret sample_env (r_secret broken_rand) (r_salt broken_rand) (fst r)
        (fold (sync_step sample_env) [(broken_rand, OpMigrationComplete)] (snd r))) = latin1 ''pass''"
proof -
  let ?r = "ProtectSecret sample_env (r_secret broken_rand) (r_nonce broken_rand) (latin1 ''pass'') (sync_start [] [])"
  have a: "IsProtectedSecret (fst ?r)" by code_simp
  have u: "sy_toUtf8 sample_env (latin1 ''pass'') \<noteq> []"
    and v: "sy_fromUtf8 sample_env (sy_toUtf8 sample_env (latin1 ''pass'')) = latin1 ''pass''"
    and w: "\<not> IsProtectedSecret (latin1 ''pass'')" by code_simp+
  have p: "ProtectSecret sample_env (r_secret broken_rand) (r_nonce broken_rand) (latin1 ''pass'')
      (fold (sync_step sample_env) [] (sync_start [] [])) = (fst ?r, snd ?r)"
    unfolding fold_simps by (rule prod.collapse [symmetric])
  have d: "\<forall>q \<in> set (broken_rand # map fst []). well_drawn q" by simp
  have e: "same_process [(broken_rand, OpMigrationComplete)]
      \<or> files_work ([broken_rand, broken_rand] @ map fst [] @ map fst [(broken_rand, OpMigrationComplete)])"
    by (simp add: same_process_def)
  show ?thesis
    unfolding Let_def
    by (rule conjI [OF a protected_secret_is_readable [OF sample_env_laws(1,3) u v w d p e]])
qed

end
