(* ===== verification/Sync_Projection.thy ===== *)
theory Sync_Projection
  imports Sync_Crypto "HOL-Library.Multiset"
begin

unbundle bit_operations_syntax

text \<open>
  \<open>ProjectEmbedding\<close> of \<open>tfc/features/sync/teleforge_sync_crypto.cpp\<close>: a keyed
  permutation and keyed signs hide the components of an embedding from the remote database
  and keep every inner product, so that the database can still search by similarity. The
  elements are of any ring, since the code only negates them. The positions of the stream
  and of the vectors are checked: an access out of bounds gives None.
\<close>

section \<open>The keyed stream\<close>

text \<open>\<open>partial_function\<close>, because the loop ends only when the HMAC gives bytes.\<close>

partial_function (option) key_stream ::
  "sync_env \<Rightarrow> bytes \<Rightarrow> int \<Rightarrow> int \<Rightarrow> bytes \<Rightarrow> bytes option" where
  [code]: "key_stream E key needed counter stream =
    (if int (length stream) < needed
     then key_stream E key needed (counter + 1)
       (stream @ sy_hmac E key (ascii ''tf-emb-proj-v1'' @ sy_number E counter))
     else Some stream)"

definition nextU32 :: "bytes \<Rightarrow> nat \<Rightarrow> (32 word \<times> nat) option" where
  "nextU32 bs pos =
    (if pos + 4 \<le> length bs
     then Some (push_bit 24 (ucast (bs ! pos)) OR push_bit 16 (ucast (bs ! (pos + 1)))
       OR push_bit 8 (ucast (bs ! (pos + 2))) OR ucast (bs ! (pos + 3)), pos + 4)
     else None)"

definition swap_entries :: "'a list \<Rightarrow> nat \<Rightarrow> nat \<Rightarrow> 'a list" where
  "swap_entries xs i j = xs[i := xs ! j, j := xs ! i]"

text \<open>The Fisher-Yates loop from \<open>i\<close> down to one.\<close>

fun shuffle :: "bytes \<Rightarrow> nat \<Rightarrow> nat \<Rightarrow> nat list \<Rightarrow> (nat list \<times> nat) option" where
  "shuffle bs 0 pos perm = Some (perm, pos)"
| "shuffle bs (Suc i) pos perm =
    (case nextU32 bs pos of
       None \<Rightarrow> None
     | Some (u, pos) \<Rightarrow>
         let j = unat (u mod (of_nat (Suc i) + 1))
         in if Suc i < length perm \<and> j < length perm
            then shuffle bs i pos (swap_entries perm (Suc i) j)
            else None)"

text \<open>The loop that writes the result, with a sign per output position.\<close>

fun signed_entries :: "bytes \<Rightarrow> nat \<Rightarrow> 'a::comm_ring_1 list \<Rightarrow> nat list \<Rightarrow> 'a list option" where
  "signed_entries bs pos vec [] = Some []"
| "signed_entries bs pos vec (p # ps) =
    (if pos < length bs \<and> p < length vec
     then
       let sgn = (if bs ! pos AND 1 \<noteq> 0 then - 1 else 1)
       in map_option ((#) (sgn * vec ! p)) (signed_entries bs (pos + 1) vec ps)
     else None)"

definition ProjectEmbedding :: "sync_env \<Rightarrow> 'a::comm_ring_1 list \<Rightarrow> bytes \<Rightarrow> 'a list option" where
  "ProjectEmbedding E vec key =
    (let n = length vec
     in if n = 0 then Some []
        else
          let needed = int n * 8 + 64
          in case key_stream E key needed 0 [] of
               None \<Rightarrow> None
             | Some bs \<Rightarrow>
                 (case shuffle bs (n - 1) 0 [0..<n] of
                    None \<Rightarrow> None
                  | Some (perm, pos) \<Rightarrow> signed_entries bs pos vec perm))"

section \<open>The stream is long enough\<close>

lemma key_stream_enough:
  assumes "mac_laws E"
  shows "\<exists>bs. key_stream E key needed counter stream = Some bs \<and> needed \<le> int (length bs)"
proof (induction "nat (needed - int (length stream))" arbitrary: counter stream rule: less_induct)
  case less
  show ?case
  proof (cases "int (length stream) < needed")
    case True
    let ?stream = "stream @ sy_hmac E key (ascii ''tf-emb-proj-v1'' @ sy_number E counter)"
    have "length ?stream = length stream + 32" using assms by (simp add: mac_laws_def)
    then have "nat (needed - int (length ?stream)) < nat (needed - int (length stream))"
      using True by simp
    from less [OF this, of "counter + 1"] show ?thesis
      using True by (simp add: key_stream.simps [of E key needed counter stream])
  next
    case False
    then show ?thesis by (simp add: key_stream.simps [of E key needed counter stream])
  qed
qed

section \<open>The permutation\<close>

lemma length_swap_entries [simp]: "length (swap_entries xs i j) = length xs"
  by (simp add: swap_entries_def)

lemma mset_swap_entries: "i < length xs \<Longrightarrow> j < length xs \<Longrightarrow> mset (swap_entries xs i j) = mset xs"
  unfolding swap_entries_def by (rule mset_swap)

lemma index_in_range:
  assumes "i + 1 < 2 ^ 32"
  shows "unat ((u :: 32 word) mod (of_nat i + 1)) \<le> i"
proof -
  have "unat (of_nat (i + 1) :: 32 word) = i + 1"
    unfolding unsigned_of_nat using assms by (subst take_bit_nat_eq_self) simp_all
  then have m: "unat (of_nat i + 1 :: 32 word) = i + 1" by (simp add: add.commute)
  have "unat (u mod (of_nat i + 1)) = unat u mod (i + 1)" by (simp add: unat_mod_distrib m)
  then show ?thesis using mod_less_divisor [of "i + 1" "unat u"] by simp
qed

lemma shuffle_permutes:
  assumes "i < length perm" and "length perm < 2 ^ 31" and "pos + 4 * i \<le> length bs"
  shows "\<exists>perm'. shuffle bs i pos perm = Some (perm', pos + 4 * i) \<and> mset perm' = mset perm"
  using assms
proof (induction i arbitrary: pos perm)
  case (Suc i)
  obtain u where u: "nextU32 bs pos = Some (u, pos + 4)"
    using Suc.prems(3) by (simp add: nextU32_def)
  let ?j = "unat (u mod (of_nat (Suc i) + 1))"
  have j: "?j < length perm"
    using index_in_range [of "Suc i" u] Suc.prems(1,2) by simp
  from Suc.IH [of "swap_entries perm (Suc i) ?j" "pos + 4"] Suc.prems obtain perm'
    where "shuffle bs i (pos + 4) (swap_entries perm (Suc i) ?j) = Some (perm', pos + 4 + 4 * i)"
      and "mset perm' = mset (swap_entries perm (Suc i) ?j)" by auto
  then show ?case
    using u j Suc.prems(1) by (simp add: mset_swap_entries del: of_nat_Suc)
qed simp

section \<open>Inner products\<close>

definition inner_product :: "'a::comm_ring_1 list \<Rightarrow> 'a list \<Rightarrow> 'a" where
  "inner_product u v = sum_list (map2 (*) u v)"

lemma signed_entries_inner:
  assumes "pos + length ps \<le> length bs" and "\<forall>p \<in> set ps. p < length u \<and> p < length v"
  shows "\<exists>ru rv. signed_entries bs pos u ps = Some ru \<and> signed_entries bs pos v ps = Some rv
    \<and> length ru = length ps \<and> length rv = length ps
    \<and> inner_product ru rv = (\<Sum>p\<leftarrow>ps. u ! p * v ! p)"
  using assms
proof (induction ps arbitrary: pos)
  case (Cons p ps)
  have "pos + 1 + length ps \<le> length bs" and "\<forall>p \<in> set ps. p < length u \<and> p < length v"
    using Cons.prems by simp_all
  from Cons.IH [OF this] obtain ru rv where "signed_entries bs (pos + 1) u ps = Some ru" and "signed_entries bs (pos + 1) v ps = Some rv"
    and "length ru = length ps" and "length rv = length ps"
    and "inner_product ru rv = (\<Sum>p\<leftarrow>ps. u ! p * v ! p)"
    by blast
  then show ?case using Cons.prems by (simp add: inner_product_def Let_def)
qed (simp add: inner_product_def)

lemma inner_product_index:
  assumes "length u = length v"
  shows "inner_product u v = (\<Sum>p\<leftarrow>[0..<length u]. u ! p * v ! p)"
proof -
  have "map2 (*) u v = map (\<lambda>p. u ! p * v ! p) [0..<length u]"
    using assms by (intro nth_equalityI) auto
  then show ?thesis by (simp add: inner_product_def)
qed

lemma sum_list_permuted: "mset ps = mset qs \<Longrightarrow> (\<Sum>p\<leftarrow>ps. f p) = ((\<Sum>p\<leftarrow>qs. f p) :: 'a::comm_monoid_add)"
  by (metis mset_map sum_mset_sum_list)

text \<open>C29: The projection that hides an embedding keeps every inner product, and with it the
  length and the angle of any two embeddings; it reads neither the stream nor a vector out of
  bounds, and its loop that fills the stream ends.\<close>

theorem projection_keeps_inner_products:
  fixes u v :: "'a::comm_ring_1 list"
  assumes "mac_laws E" and "length u = length v" and "int (length u) * 8 + 64 < 2 ^ 31"
  shows "\<exists>pu pv. ProjectEmbedding E u key = Some pu \<and> ProjectEmbedding E v key = Some pv
    \<and> length pu = length u \<and> length pv = length v \<and> inner_product pu pv = inner_product u v"
proof (cases "length u")
  case 0
  then show ?thesis using assms(2) by (simp add: ProjectEmbedding_def)
next
  case (Suc m)
  let ?n = "length u"
  obtain bs where bs: "key_stream E key (int ?n * 8 + 64) 0 [] = Some bs" "int ?n * 8 + 64 \<le> int (length bs)"
    using key_stream_enough [OF assms(1)] by blast
  have "m < length [0..<?n]" and "length [0..<?n] < 2 ^ 31" and "0 + 4 * m \<le> length bs"
    using Suc assms(3) bs(2) by simp_all
  from shuffle_permutes [OF this] obtain perm
    where perm: "shuffle bs m 0 [0..<?n] = Some (perm, 4 * m)" "mset perm = mset [0..<?n]" by auto
  have "length perm = ?n" using perm(2) mset_eq_length [of perm "[0..<?n]"] by simp
  moreover have "set perm = {0..<?n}" using perm(2) mset_eq_setD [of perm "[0..<?n]"] by simp
  ultimately obtain pu pv where "signed_entries bs (4 * m) u perm = Some pu"
    and "signed_entries bs (4 * m) v perm = Some pv" and "length pu = ?n" and "length pv = ?n"
    and "inner_product pu pv = (\<Sum>p\<leftarrow>perm. u ! p * v ! p)"
    using signed_entries_inner [of "4 * m" perm bs u v] Suc assms(2) bs(2) by auto
  moreover have "(\<Sum>p\<leftarrow>perm. u ! p * v ! p) = inner_product u v"
    using sum_list_permuted [OF perm(2)] inner_product_index [OF assms(2)] by simp
  ultimately show ?thesis
    using Suc assms(2) bs(1) perm(1) by (simp add: ProjectEmbedding_def Let_def)
qed

theorem projection_keeps_inner_products_witness:
  "\<exists>pu pv. ProjectEmbedding sample_env [3, - 1, 2 :: int] [9] = Some pu
    \<and> ProjectEmbedding sample_env [1, 1, 4] [9] = Some pv
    \<and> length pu = 3 \<and> length pv = 3 \<and> inner_product pu pv = 10"
  using projection_keeps_inner_products [OF sample_env_laws(2), of "[3, - 1, 2 :: int]" "[1, 1, 4]" "[9]"]
  by (simp add: inner_product_def eval_nat_numeral)

end
