(* ===== verification/Sync_Rows.thy ===== *)
theory Sync_Rows
  imports Sync_Crypto Update_Manifest "HOL-Library.Monad_Syntax"
begin

text \<open>
  The rows of the message sync, \<open>tfc/features/sync/teleforge_sync_rows.cpp\<close>: a captured
  message (\<open>TfMessageBase\<close> of \<open>tfc/data/entities.h\<close>) as JSON text, packed and
  encrypted, and the merge of received rows into the two local tables. The conversions
  of Qt, JSON text and zlib are the record \<open>row_env\<close>; the tables are lists in the order of
  insertion, and the calls to the database succeed.
\<close>

section \<open>Messages\<close>

record TfMessage =
  m_fakeId :: "64 word"
  m_userId :: "64 word"
  m_dialogId :: "64 word"
  m_groupedId :: "64 word"
  m_peerId :: "64 word"
  m_fromId :: "64 word"
  m_topicId :: "64 word"
  m_messageId :: "32 word"
  m_date :: "32 word"
  m_flags :: "32 word"
  m_editDate :: "32 word"
  m_views :: "32 word"
  m_fwdFlags :: "32 word"
  m_fwdFromId :: "64 word"
  m_fwdName :: bytes
  m_fwdDate :: "32 word"
  m_fwdPostAuthor :: bytes
  m_postAuthor :: bytes
  m_replyFlags :: "32 word"
  m_replyMessageId :: "32 word"
  m_replyPeerId :: "64 word"
  m_replyTopId :: "32 word"
  m_replyForumTopic :: bool
  m_replySerialized :: bytes
  m_replyMarkupSerialized :: bytes
  m_entityCreateDate :: "32 word"
  m_text :: bytes
  m_textEntities :: bytes
  m_mediaPath :: bytes
  m_hqThumbPath :: bytes
  m_documentType :: "32 word"
  m_documentSerialized :: bytes
  m_thumbsSerialized :: bytes
  m_documentAttributesSerialized :: bytes
  m_mimeType :: bytes
  m_contentHash :: bytes

section \<open>The code around\<close>

record row_env =
  re_sync :: sync_env
  re_toJson :: "json \<Rightarrow> bytes"
  re_fromJson :: "bytes \<Rightarrow> json option"
  re_number :: "int \<Rightarrow> qstring"
  re_toLongLong :: "qstring \<Rightarrow> int option"
  re_toInt :: "qstring \<Rightarrow> int option"
  re_qCompress :: "bytes \<Rightarrow> bytes"
  re_qUncompress :: "bytes \<Rightarrow> bytes"

text \<open>\<open>QString::fromStdString\<close>, \<open>toStdString\<close> and base64 in JSON values.\<close>

definition Str :: "row_env \<Rightarrow> bytes \<Rightarrow> json" where
  "Str R v = JString (sy_fromUtf8 (re_sync R) v)"

definition B64 :: "row_env \<Rightarrow> bytes \<Rightarrow> json" where
  "B64 R v = JString (fromLatin1 (sy_toBase64 (re_sync R) v))"

definition json_toString :: "json \<Rightarrow> qstring" where
  "json_toString v = (case v of JString s \<Rightarrow> s | _ \<Rightarrow> [])"

definition StdStr :: "row_env \<Rightarrow> json \<Rightarrow> bytes" where
  "StdStr R v = sy_toUtf8 (re_sync R) (json_toString v)"

definition Vec :: "row_env \<Rightarrow> json \<Rightarrow> bytes" where
  "Vec R v = sy_fromBase64 (re_sync R) (toLatin1 (json_toString v))"

text \<open>\<open>QJsonValue::toInt\<close>: a number that is no whole \<open>int\<close> reads as zero.\<close>

definition json_toInt :: "rat \<Rightarrow> int" where
  "json_toInt d = (if of_int (trunc d) = d \<and> - (2 ^ 31) \<le> trunc d \<and> trunc d < 2 ^ 31 then trunc d else 0)"

text \<open>None is the result false, which leads to the row being rejected.\<close>

definition JsonId :: "row_env \<Rightarrow> json \<Rightarrow> 64 word option" where
  "JsonId R v =
    (case v of
       JDouble d \<Rightarrow> Some (word_of_int (trunc d))
     | JString s \<Rightarrow> map_option word_of_int (re_toLongLong R s)
     | _ \<Rightarrow> None)"

definition JsonInt :: "row_env \<Rightarrow> json \<Rightarrow> 32 word option" where
  "JsonInt R v =
    (case v of
       JDouble d \<Rightarrow> Some (word_of_int (json_toInt d))
     | JString s \<Rightarrow> map_option word_of_int (re_toInt R s)
     | _ \<Rightarrow> None)"

definition json_value :: "(qstring \<times> json) list \<Rightarrow> string \<Rightarrow> json" where
  "json_value ob key = (case map_of ob (latin1 key) of None \<Rightarrow> JUndefined | Some v \<Rightarrow> v)"

definition json_toBool :: "json \<Rightarrow> bool" where
  "json_toBool v = (case v of JBool b \<Rightarrow> b | _ \<Rightarrow> False)"

section \<open>A message as JSON\<close>

definition json_id :: "row_env \<Rightarrow> 64 word \<Rightarrow> json" where
  "json_id R w = JString (re_number R (sint w))"

definition json_int :: "32 word \<Rightarrow> json" where
  "json_int w = JDouble (of_int (sint w))"

definition message_object :: "row_env \<Rightarrow> TfMessage \<Rightarrow> (string \<times> json) list" where
  "message_object R m =
    [(''userId'', json_id R (m_userId m)),
     (''dialogId'', json_id R (m_dialogId m)),
     (''groupedId'', json_id R (m_groupedId m)),
     (''peerId'', json_id R (m_peerId m)),
     (''fromId'', json_id R (m_fromId m)),
     (''topicId'', json_id R (m_topicId m)),
     (''messageId'', json_int (m_messageId m)),
     (''date'', json_int (m_date m)),
     (''flags'', json_int (m_flags m)),
     (''editDate'', json_int (m_editDate m)),
     (''views'', json_int (m_views m)),
     (''fwdFlags'', json_int (m_fwdFlags m)),
     (''fwdFromId'', json_id R (m_fwdFromId m)),
     (''fwdName'', Str R (m_fwdName m)),
     (''fwdDate'', json_int (m_fwdDate m)),
     (''fwdPostAuthor'', Str R (m_fwdPostAuthor m)),
     (''postAuthor'', Str R (m_postAuthor m)),
     (''replyFlags'', json_int (m_replyFlags m)),
     (''replyMessageId'', json_int (m_replyMessageId m)),
     (''replyPeerId'', json_id R (m_replyPeerId m)),
     (''replyTopId'', json_int (m_replyTopId m)),
     (''replyForumTopic'', JBool (m_replyForumTopic m)),
     (''replySerialized'', B64 R (m_replySerialized m)),
     (''replyMarkupSerialized'', B64 R (m_replyMarkupSerialized m)),
     (''entityCreateDate'', json_int (m_entityCreateDate m)),
     (''text'', Str R (m_text m)),
     (''textEntities'', B64 R (m_textEntities m)),
     (''mediaPath'', Str R (m_mediaPath m)),
     (''hqThumbPath'', Str R (m_hqThumbPath m)),
     (''documentType'', json_int (m_documentType m)),
     (''documentSerialized'', B64 R (m_documentSerialized m)),
     (''thumbsSerialized'', B64 R (m_thumbsSerialized m)),
     (''documentAttributesSerialized'', B64 R (m_documentAttributesSerialized m)),
     (''mimeType'', Str R (m_mimeType m)),
     (''contentHash'', Str R (m_contentHash m))]"

definition SerializeMessage :: "row_env \<Rightarrow> TfMessage \<Rightarrow> bytes" where
  "SerializeMessage R m = re_toJson R (JObject (map (\<lambda>(k, v). (latin1 k, v)) (message_object R m)))"

definition document_object :: "row_env \<Rightarrow> bytes \<Rightarrow> (qstring \<times> json) list" where
  "document_object R text = (case re_fromJson R text of Some (JObject ob) \<Rightarrow> ob | _ \<Rightarrow> [])"

definition read_message :: "row_env \<Rightarrow> (qstring \<times> json) list \<Rightarrow> TfMessage option" where
  "read_message R ob = do {
    userId \<leftarrow> JsonId R (json_value ob ''userId'');
    dialogId \<leftarrow> JsonId R (json_value ob ''dialogId'');
    groupedId \<leftarrow> JsonId R (json_value ob ''groupedId'');
    peerId \<leftarrow> JsonId R (json_value ob ''peerId'');
    fromId \<leftarrow> JsonId R (json_value ob ''fromId'');
    topicId \<leftarrow> JsonId R (json_value ob ''topicId'');
    messageId \<leftarrow> JsonInt R (json_value ob ''messageId'');
    date \<leftarrow> JsonInt R (json_value ob ''date'');
    flags \<leftarrow> JsonInt R (json_value ob ''flags'');
    editDate \<leftarrow> JsonInt R (json_value ob ''editDate'');
    views \<leftarrow> JsonInt R (json_value ob ''views'');
    fwdFlags \<leftarrow> JsonInt R (json_value ob ''fwdFlags'');
    fwdFromId \<leftarrow> JsonId R (json_value ob ''fwdFromId'');
    fwdDate \<leftarrow> JsonInt R (json_value ob ''fwdDate'');
    replyFlags \<leftarrow> JsonInt R (json_value ob ''replyFlags'');
    replyMessageId \<leftarrow> JsonInt R (json_value ob ''replyMessageId'');
    replyPeerId \<leftarrow> JsonId R (json_value ob ''replyPeerId'');
    replyTopId \<leftarrow> JsonInt R (json_value ob ''replyTopId'');
    entityCreateDate \<leftarrow> JsonInt R (json_value ob ''entityCreateDate'');
    documentType \<leftarrow> JsonInt R (json_value ob ''documentType'');
    Some \<lparr>m_fakeId = 0, m_userId = userId, m_dialogId = dialogId, m_groupedId = groupedId,
      m_peerId = peerId, m_fromId = fromId, m_topicId = topicId, m_messageId = messageId,
      m_date = date, m_flags = flags, m_editDate = editDate, m_views = views,
      m_fwdFlags = fwdFlags, m_fwdFromId = fwdFromId,
      m_fwdName = StdStr R (json_value ob ''fwdName''), m_fwdDate = fwdDate,
      m_fwdPostAuthor = StdStr R (json_value ob ''fwdPostAuthor''),
      m_postAuthor = StdStr R (json_value ob ''postAuthor''),
      m_replyFlags = replyFlags, m_replyMessageId = replyMessageId, m_replyPeerId = replyPeerId,
      m_replyTopId = replyTopId, m_replyForumTopic = json_toBool (json_value ob ''replyForumTopic''),
      m_replySerialized = Vec R (json_value ob ''replySerialized''),
      m_replyMarkupSerialized = Vec R (json_value ob ''replyMarkupSerialized''),
      m_entityCreateDate = entityCreateDate, m_text = StdStr R (json_value ob ''text''),
      m_textEntities = Vec R (json_value ob ''textEntities''),
      m_mediaPath = StdStr R (json_value ob ''mediaPath''),
      m_hqThumbPath = StdStr R (json_value ob ''hqThumbPath''), m_documentType = documentType,
      m_documentSerialized = Vec R (json_value ob ''documentSerialized''),
      m_thumbsSerialized = Vec R (json_value ob ''thumbsSerialized''),
      m_documentAttributesSerialized = Vec R (json_value ob ''documentAttributesSerialized''),
      m_mimeType = StdStr R (json_value ob ''mimeType''),
      m_contentHash = StdStr R (json_value ob ''contentHash'')\<rparr>
  }"

definition DeserializeMessage :: "row_env \<Rightarrow> bytes \<Rightarrow> TfMessage option" where
  "DeserializeMessage R json =
    (let ob = document_object R json in if ob = [] then None else read_message R ob)"

section \<open>Rows\<close>

definition kCompressedPayloadMagic :: bytes where "kCompressedPayloadMagic = ascii ''TFZ1''"

definition PackPayload :: "row_env \<Rightarrow> bytes \<Rightarrow> bytes" where
  "PackPayload R plain =
    (let compressed = re_qCompress R plain
     in if length compressed + 4 \<ge> length plain then plain else kCompressedPayloadMagic @ compressed)"

definition UnpackPayload :: "row_env \<Rightarrow> bytes \<Rightarrow> bytes" where
  "UnpackPayload R stored =
    (if length stored > 4 \<and> take 4 stored = kCompressedPayloadMagic
     then re_qUncompress R (drop 4 stored) else stored)"

record SyncMessageRow =
  row_contentHash :: qstring
  row_chatIdH :: qstring
  row_accountIdH :: qstring
  row_messageIdH :: qstring
  row_deleted :: bool
  row_edited :: bool
  row_date :: int
  row_editDate :: int
  row_payload :: bytes

definition BuildRow :: "row_env \<Rightarrow> bytes \<Rightarrow> TfMessage \<Rightarrow> bool \<Rightarrow> bool \<Rightarrow> bytes \<Rightarrow> SyncMessageRow" where
  "BuildRow R nonce m deleted edited key =
    \<lparr>row_contentHash = sy_fromUtf8 (re_sync R) (m_contentHash m),
     row_chatIdH = HmacId (re_sync R) (sint (m_peerId m)) key,
     row_accountIdH = HmacId (re_sync R) (sint (m_fromId m)) key,
     row_messageIdH = HmacId (re_sync R) (sint (m_messageId m)) key,
     row_deleted = deleted, row_edited = edited,
     row_date = sint (m_date m), row_editDate = sint (m_editDate m),
     row_payload = EncryptBundle (re_sync R) nonce (PackPayload R (SerializeMessage R m)) key\<rparr>"

text \<open>The two tables. They have no columns for the post author and the reply markup, which a
  message read back has empty.\<close>

definition stored_message :: "TfMessage \<Rightarrow> TfMessage" where
  "stored_message m = m\<lparr>m_postAuthor := [], m_replyMarkupSerialized := []\<rparr>"

record message_db =
  db_deleted :: "TfMessage list"
  db_edited :: "TfMessage list"

text \<open>\<open>nonces i\<close> is the nonce that \<open>EncryptBundle\<close> draws for the row of the message \<open>i\<close>.\<close>

definition collect_table ::
  "row_env \<Rightarrow> (nat \<Rightarrow> bytes) \<Rightarrow> nat \<Rightarrow> TfMessage list \<Rightarrow> bool \<Rightarrow> bool \<Rightarrow> bytes \<Rightarrow> SyncMessageRow list" where
  "collect_table R nonces i0 ms deleted edited key =
    map (\<lambda>(i, m). BuildRow R (nonces i) m deleted edited key)
      (filter (\<lambda>(i, m). m_contentHash m \<noteq> []) (enumerate i0 ms))"

definition CollectMessageRows ::
  "row_env \<Rightarrow> (nat \<Rightarrow> bytes) \<Rightarrow> message_db \<Rightarrow> bytes \<Rightarrow> SyncMessageRow list" where
  "CollectMessageRows R nonces db key =
    collect_table R nonces 0 (db_deleted db) True False key
    @ collect_table R nonces (length (db_deleted db)) (db_edited db) False True key"

record apply_state =
  ap_sync :: sync_state
  ap_db :: message_db
  seenDeleted :: "bytes set"
  seenEdited :: "bytes set"
  inserted :: nat

text \<open>What a row holds: its message, if the row can be read.\<close>

definition read_row ::
  "row_env \<Rightarrow> file_io \<Rightarrow> bytes \<Rightarrow> SyncMessageRow \<Rightarrow> sync_state \<Rightarrow> TfMessage option \<times> sync_state" where
  "read_row R f key row s =
    (if row_payload row = [] then (None, s)
     else
       let (decrypted, s) = DecryptBundle (re_sync R) f (row_payload row) key s
       in case decrypted of
            None \<Rightarrow> (None, s)
          | Some d \<Rightarrow>
              let plain = UnpackPayload R d
              in if plain = [] then (None, s)
                 else (case DeserializeMessage R plain of
                         None \<Rightarrow> (None, s)
                       | Some m \<Rightarrow> if m_contentHash m = [] then (None, s) else (Some m, s)))"

definition insert_row :: "SyncMessageRow \<Rightarrow> TfMessage \<Rightarrow> apply_state \<Rightarrow> apply_state" where
  "insert_row row m a =
    (if row_deleted row \<and> m_contentHash m \<notin> seenDeleted a
     then a\<lparr>ap_db := (ap_db a)\<lparr>db_deleted := db_deleted (ap_db a) @ [stored_message m]\<rparr>,
            seenDeleted := insert (m_contentHash m) (seenDeleted a), inserted := inserted a + 1\<rparr>
     else if row_edited row \<and> m_contentHash m \<notin> seenEdited a
     then a\<lparr>ap_db := (ap_db a)\<lparr>db_edited := db_edited (ap_db a) @ [stored_message m]\<rparr>,
            seenEdited := insert (m_contentHash m) (seenEdited a), inserted := inserted a + 1\<rparr>
     else a)"

definition apply_row :: "row_env \<Rightarrow> file_io \<Rightarrow> bytes \<Rightarrow> SyncMessageRow \<Rightarrow> apply_state \<Rightarrow> apply_state" where
  "apply_row R f key row a =
    (let (m, s) = read_row R f key row (ap_sync a); a = a\<lparr>ap_sync := s\<rparr>
     in case m of None \<Rightarrow> a | Some m \<Rightarrow> insert_row row m a)"

definition apply_start :: "sync_state \<Rightarrow> message_db \<Rightarrow> apply_state" where
  "apply_start s db = \<lparr>ap_sync = s, ap_db = db, seenDeleted = m_contentHash ` set (db_deleted db),
    seenEdited = m_contentHash ` set (db_edited db), inserted = 0\<rparr>"

definition ApplyMessageRows ::
  "row_env \<Rightarrow> file_io \<Rightarrow> SyncMessageRow list \<Rightarrow> bytes \<Rightarrow> sync_state \<times> message_db \<Rightarrow> nat \<times> sync_state \<times> message_db" where
  "ApplyMessageRows R f rows key sd =
    (let a = fold (apply_row R f key) rows (apply_start (fst sd) (snd sd))
     in (inserted a, ap_sync a, ap_db a))"

section \<open>A message survives the JSON text\<close>

text \<open>What Qt and zlib promise: numbers and base64 text read back, JSON text gives back the
  values of an object of flags, whole numbers and well-formed strings and starts with a
  brace, and decompression undoes compression.\<close>

definition plain_json :: "row_env \<Rightarrow> json \<Rightarrow> bool" where
  "plain_json R v \<longleftrightarrow> (\<exists>b. v = JBool b) \<or> (\<exists>i. v = JDouble (of_int i) \<and> \<bar>i\<bar> < 2 ^ 53)
    \<or> (\<exists>s. v = JString s \<and> sy_fromUtf8 (re_sync R) (sy_toUtf8 (re_sync R) s) = s)"

definition row_laws :: "row_env \<Rightarrow> bool" where
  "row_laws R \<longleftrightarrow> text_laws (re_sync R)
    \<and> (\<forall>i. - (2 ^ 63) \<le> i \<and> i < 2 ^ 63 \<longrightarrow> re_toLongLong R (re_number R i) = Some i
         \<and> plain_json R (JString (re_number R i)))
    \<and> (\<forall>b. plain_json R (JString (fromLatin1 (sy_toBase64 (re_sync R) b))))
    \<and> (\<forall>ob. distinct (map fst ob) \<and> (\<forall>v \<in> snd ` set ob. plain_json R v) \<longrightarrow>
         (\<exists>ob'. re_fromJson R (re_toJson R (JObject ob)) = Some (JObject ob') \<and> map_of ob' = map_of ob)
         \<and> take 1 (re_toJson R (JObject ob)) = [123])
    \<and> (\<forall>p. re_qUncompress R (re_qCompress R p) = p \<and> re_qCompress R p \<noteq> [])"

text \<open>A message whose strings are UTF-8.\<close>

definition utf8_message :: "row_env \<Rightarrow> TfMessage \<Rightarrow> bool" where
  "utf8_message R m \<longleftrightarrow> (\<forall>s \<in> {m_fwdName m, m_fwdPostAuthor m, m_postAuthor m, m_text m, m_mediaPath m,
      m_hqThumbPath m, m_mimeType m, m_contentHash m}.
    sy_toUtf8 (re_sync R) (sy_fromUtf8 (re_sync R) s) = s)"

lemma latin1_inject: "inj latin1"
proof (rule injI)
  fix a b
  assume eq: "latin1 a = latin1 b"
  have "inj (of_char :: char \<Rightarrow> 16 word)"
  proof (rule injI)
    fix c d :: char
    assume "(of_char c :: 16 word) = of_char d"
    then have "unat (of_nat (of_char c) :: 16 word) = unat (of_nat (of_char d) :: 16 word)"
      by (simp add: of_nat_of_char)
    moreover have "unat (of_nat (of_char x) :: 16 word) = (of_char x :: nat)" for x
    proof -
      have "(of_char x :: nat) < 256" by simp
      moreover have "(256 :: nat) < 2 ^ 16" by simp
      ultimately have "take_bit 16 (of_char x) = (of_char x :: nat)" by (intro take_bit_nat_eq_self) linarith
      then show ?thesis by (simp add: unsigned_of_nat)
    qed
    ultimately show "c = d" by simp
  qed
  then have "inj (map (of_char :: char \<Rightarrow> 16 word))" by simp
  from injD [OF this eq [unfolded latin1_def]] show "a = b" .
qed

lemma map_of_latin1: "map_of (map (\<lambda>(k, v). (latin1 k, v)) ob) (latin1 key) = map_of ob key"
  by (induction ob) (auto simp: inj_eq [OF latin1_inject])

lemma distinct_message_object: "distinct (map fst (map (\<lambda>(k, v). (latin1 k, v)) (message_object R m)))"
proof -
  have "distinct (map fst (message_object R m))" unfolding message_object_def by (simp only: list.map fst_conv) code_simp
  then have "distinct (map latin1 (map fst (message_object R m)))"
    using latin1_inject by (simp add: distinct_map inj_on_def inj_def)
  then show ?thesis by (simp add: case_prod_unfold o_def)
qed

lemma JsonId_json_id [simp]: "row_laws R \<Longrightarrow> JsonId R (json_id R w) = Some w"
  using sint_range_size [of w]
  by (simp add: JsonId_def json_id_def row_laws_def word_size)

lemma sint_32: "- (2 ^ 31) \<le> sint (w :: 32 word) \<and> sint w < 2 ^ 31"
  using sint_range_size [of w] by (simp add: word_size)

lemma trunc_of_int [simp]: "trunc (of_int i) = i"
  by (simp add: trunc_def)

lemma JsonInt_json_int [simp]: "JsonInt R (json_int w) = Some w"
proof -
  have "word_of_int (sint w) = w" by simp
  then show ?thesis
    using sint_32 [of w] by (simp add: JsonInt_def json_int_def json_toInt_def del: of_int_sint)
qed

lemma StdStr_Str: "sy_toUtf8 (re_sync R) (sy_fromUtf8 (re_sync R) s) = s \<Longrightarrow> StdStr R (Str R s) = s"
  by (simp add: StdStr_def Str_def json_toString_def)

lemma Vec_B64 [simp]: "row_laws R \<Longrightarrow> Vec R (B64 R v) = v"
  by (simp add: Vec_def B64_def json_toString_def row_laws_def text_laws_def)

lemma message_object_plain:
  assumes "row_laws R" and "utf8_message R m"
  shows "\<forall>v \<in> snd ` set (message_object R m). plain_json R v"
proof -
  have i: "plain_json R (json_id R w)" for w
    using assms(1) sint_range_size [of w] by (simp add: row_laws_def json_id_def word_size)
  have n: "plain_json R (json_int w)" for w
  proof -
    have "\<bar>sint w\<bar> < 2 ^ 53" using sint_32 [of w] by auto
    then show ?thesis unfolding plain_json_def json_int_def by blast
  qed
  have b: "plain_json R (B64 R v)" for v
    using assms(1) by (simp add: row_laws_def B64_def)
  have s: "plain_json R (Str R v)" if "sy_toUtf8 (re_sync R) (sy_fromUtf8 (re_sync R) v) = v" for v
    using that by (simp add: plain_json_def Str_def)
  show ?thesis
    using assms(2) i n b s unfolding message_object_def utf8_message_def
    by (simp add: plain_json_def [of R "JBool _"])
qed

lemma serialized_message:
  assumes "row_laws R" and "utf8_message R m"
  shows "DeserializeMessage R (SerializeMessage R m) = Some (m\<lparr>m_fakeId := 0\<rparr>)"
proof -
  let ?ob = "map (\<lambda>(k, v). (latin1 k, v)) (message_object R m)"
  have "\<forall>v \<in> snd ` set ?ob. plain_json R v"
    using message_object_plain [OF assms] by force
  then obtain ob' where parsed: "re_fromJson R (SerializeMessage R m) = Some (JObject ob')" and same: "map_of ob' = map_of ?ob"
    using assms(1) distinct_message_object [of R m] unfolding row_laws_def SerializeMessage_def by blast
  have look: "json_value ob' k = (case map_of (message_object R m) k of None \<Rightarrow> JUndefined | Some v \<Rightarrow> v)" for k
    by (simp add: json_value_def same map_of_latin1)
  have "ob' \<noteq> []"
  proof
    assume "ob' = []"
    then have "json_value ob' ''userId'' = JUndefined" by (simp add: json_value_def)
    then show False by (simp add: look message_object_def json_id_def)
  qed
  moreover have "read_message R ob' = Some (m\<lparr>m_fakeId := 0\<rparr>)"
    using assms(2) unfolding read_message_def look message_object_def
    by (simp add: assms(1) StdStr_Str utf8_message_def json_toBool_def)
  ultimately show ?thesis
    by (simp add: DeserializeMessage_def document_object_def parsed)
qed

section \<open>Reading bundles as time passes\<close>

text \<open>A later state of the same process and account reads no more than an earlier one.\<close>

definition later :: "sync_state \<Rightarrow> sync_state \<Rightarrow> bool" where
  "later s s' \<longleftrightarrow> g_legacyKey s' = g_legacyKey s
    \<and> (g_stateLoaded s \<longrightarrow> g_stateLoaded s' \<and> (g_migrationComplete s \<longrightarrow> g_migrationComplete s'))"

lemma later_refl [simp]: "later s s"
  by (simp add: later_def)

lemma later_trans: "later s t \<Longrightarrow> later t u \<Longrightarrow> later s u"
  by (simp add: later_def)

lemma LoadKeyState_later: "later s (LoadKeyStateLocked E f s)"
  by (simp add: later_def LoadKeyState_loaded_id)

lemma MarkSync_later: "later s (MarkSyncMigrationComplete E f s)"
  by (simp add: later_def MarkSyncMigrationComplete_def SaveMigrationStateLocked_def)

lemma DecryptBundle_later: "later s (snd (DecryptBundle E f b key s))"
  using DecryptBundle_state [of E f b key s] later_refl LoadKeyState_later
    later_trans [OF LoadKeyState_later MarkSync_later] by fastforce

text \<open>What a bundle gives later, whatever the files do then, it gave already.\<close>

lemma DecryptBundle_gave:
  assumes "later (snd (DecryptBundle E f b key s0)) s" and "fst (DecryptBundle E f' b key s) = Some p"
  shows "fst (DecryptBundle E f b key s0) = Some p"
proof (cases "DecryptBundleWithKey E b key")
  case None
  let ?s = "LoadKeyStateLocked E f s0"
  have s1: "snd (DecryptBundle E f b key s0) = ?s
      \<or> snd (DecryptBundle E f b key s0) = MarkSyncMigrationComplete E f ?s \<and> \<not> g_migrationComplete ?s"
    using None by (simp add: DecryptBundle_def Let_def split: option.split)
  then have loaded: "g_stateLoaded (snd (DecryptBundle E f b key s0))"
    by (auto simp: MarkSyncMigrationComplete_def SaveMigrationStateLocked_def)
  have flag: "g_migrationComplete ?s \<Longrightarrow> g_migrationComplete (snd (DecryptBundle E f b key s0))"
    using s1 by auto
  have "g_legacyKey (snd (DecryptBundle E f b key s0)) = g_legacyKey s0"
    using DecryptBundle_later [of s0 E f b key] by (simp add: later_def)
  then have s: "g_stateLoaded s" "g_migrationComplete ?s \<Longrightarrow> g_migrationComplete s" "g_legacyKey s = g_legacyKey s0"
    using assms(1) loaded flag by (simp_all add: later_def)
  then show ?thesis
    using assms(2) None
    by (auto simp: DecryptBundle_def LoadKeyState_loaded_id Let_def split: if_splits option.splits)
qed (use assms(2) in \<open>simp add: DecryptBundle_def\<close>)

text \<open>The message of a row, without the state.\<close>

definition row_message :: "row_env \<Rightarrow> bytes option \<Rightarrow> TfMessage option" where
  "row_message R d = do {
    d \<leftarrow> d;
    m \<leftarrow> (if UnpackPayload R d = [] then None else DeserializeMessage R (UnpackPayload R d));
    if m_contentHash m = [] then None else Some m
  }"

lemma read_row_result:
  "fst (read_row R f key row s) =
    (if row_payload row = [] then None
     else row_message R (fst (DecryptBundle (re_sync R) f (row_payload row) key s)))"
  by (simp add: read_row_def row_message_def Let_def case_prod_unfold split: option.split)

lemma read_row_state:
  "snd (read_row R f key row s) =
    (if row_payload row = [] then s else snd (DecryptBundle (re_sync R) f (row_payload row) key s))"
  by (simp add: read_row_def Let_def case_prod_unfold split: option.split)

lemma read_row_later: "later s (snd (read_row R f key row s))"
  by (simp add: read_row_state DecryptBundle_later)

lemma read_row_gave:
  assumes "later (snd (read_row R f key row s0)) s" and "fst (read_row R f' key row s) = Some m"
  shows "fst (read_row R f key row s0) = Some m"
proof -
  from assms(2) obtain d where p: "row_payload row \<noteq> []"
    and d: "fst (DecryptBundle (re_sync R) f' (row_payload row) key s) = Some d" and m: "row_message R (Some d) = Some m"
    by (auto simp: read_row_result row_message_def split: if_splits option.splits bind_splits)
  from assms(1) p have "later (snd (DecryptBundle (re_sync R) f (row_payload row) key s0)) s"
    by (simp add: read_row_state)
  from DecryptBundle_gave [OF this d] show ?thesis using p m by (simp add: read_row_result)
qed

section \<open>Applying rows\<close>

definition seen_ok :: "apply_state \<Rightarrow> bool" where
  "seen_ok a \<longleftrightarrow> seenDeleted a = m_contentHash ` set (db_deleted (ap_db a))
    \<and> seenEdited a = m_contentHash ` set (db_edited (ap_db a))"

lemma stored_hash [simp]: "m_contentHash (stored_message m) = m_contentHash m"
  by (simp add: stored_message_def)

lemma insert_row_seen: "seen_ok a \<Longrightarrow> seen_ok (insert_row row m a)"
  by (simp add: insert_row_def seen_ok_def)

lemma insert_row_sync [simp]: "ap_sync (insert_row row m a) = ap_sync a"
  by (simp add: insert_row_def)

lemma insert_row_grows:
  "seenDeleted a \<subseteq> seenDeleted (insert_row row m a)" "seenEdited a \<subseteq> seenEdited (insert_row row m a)"
  by (auto simp: insert_row_def)

lemma apply_row_eq:
  "apply_row R f key row a =
    (let a' = a\<lparr>ap_sync := snd (read_row R f key row (ap_sync a))\<rparr>
     in case fst (read_row R f key row (ap_sync a)) of None \<Rightarrow> a' | Some m \<Rightarrow> insert_row row m a')"
  by (simp add: apply_row_def case_prod_unfold Let_def)

text \<open>A row is settled when reading it now or later leads to nothing new.\<close>

definition settled :: "row_env \<Rightarrow> bytes \<Rightarrow> apply_state \<Rightarrow> SyncMessageRow \<Rightarrow> bool" where
  "settled R key a row \<longleftrightarrow> (\<forall>f s m. later (ap_sync a) s \<and> fst (read_row R f key row s) = Some m \<longrightarrow>
    (row_deleted row \<longrightarrow> m_contentHash m \<in> seenDeleted a) \<and> (row_edited row \<longrightarrow> m_contentHash m \<in> seenEdited a))"

lemma apply_row_sync: "ap_sync (apply_row R f key row a) = snd (read_row R f key row (ap_sync a))"
  by (simp add: apply_row_eq Let_def split: option.split)

lemma apply_row_grows:
  "seenDeleted a \<subseteq> seenDeleted (apply_row R f key row a)" "seenEdited a \<subseteq> seenEdited (apply_row R f key row a)"
  "later (ap_sync a) (ap_sync (apply_row R f key row a))"
  using read_row_later [of "ap_sync a" R f key row]
    insert_row_grows [of "a\<lparr>ap_sync := snd (read_row R f key row (ap_sync a))\<rparr>" row]
  by (auto simp: apply_row_eq Let_def split: option.split)

lemma settled_stays: "settled R key a row \<Longrightarrow> settled R key (apply_row R f key row' a) row"
  using apply_row_grows [where a = a and R = R and f = f and key = key and row = row'] later_trans [of "ap_sync a"]
  unfolding settled_def by blast

lemma apply_row_settles:
  assumes "\<not> (row_deleted row \<and> row_edited row)"
  shows "settled R key (apply_row R f key row a) row"
  unfolding settled_def
proof (intro allI impI)
  fix f' s m
  assume s: "later (ap_sync (apply_row R f key row a)) s \<and> fst (read_row R f' key row s) = Some m"
  have "fst (read_row R f key row (ap_sync a)) = Some m"
    using read_row_gave [of R f key row "ap_sync a" s f' m] s unfolding apply_row_sync by blast
  then show "(row_deleted row \<longrightarrow> m_contentHash m \<in> seenDeleted (apply_row R f key row a))
      \<and> (row_edited row \<longrightarrow> m_contentHash m \<in> seenEdited (apply_row R f key row a))"
    using assms by (auto simp: apply_row_eq insert_row_def Let_def)
qed

lemma apply_rows_settle:
  assumes "\<forall>row \<in> set rows. \<not> (row_deleted row \<and> row_edited row)"
    and "row \<in> set rows \<or> settled R key a row"
  shows "settled R key (fold (apply_row R f key) rows a) row"
  using assms
proof (induction rows arbitrary: a)
  case (Cons r rows)
  have "row \<in> set rows \<or> settled R key (apply_row R f key r a) row"
    using Cons.prems apply_row_settles [of row R key f a] settled_stays [of R key a row f r] by auto
  then show ?case using Cons by simp
qed simp

lemma apply_settled_row:
  assumes "settled R key a row"
  shows "apply_row R f key row a = a\<lparr>ap_sync := snd (read_row R f key row (ap_sync a))\<rparr>"
proof (cases "fst (read_row R f key row (ap_sync a))")
  case None
  then show ?thesis by (simp add: apply_row_eq Let_def)
next
  case (Some m)
  have "(row_deleted row \<longrightarrow> m_contentHash m \<in> seenDeleted a) \<and> (row_edited row \<longrightarrow> m_contentHash m \<in> seenEdited a)"
    using assms Some later_refl [of "ap_sync a"] unfolding settled_def by blast
  then have "insert_row row m (a\<lparr>ap_sync := s\<rparr>) = a\<lparr>ap_sync := s\<rparr>" for s
    by (auto simp: insert_row_def)
  then show ?thesis using Some by (simp add: apply_row_eq)
qed

lemma apply_settled_rows:
  assumes "\<forall>row \<in> set rows. settled R key a row"
  shows "ap_db (fold (apply_row R f key) rows a) = ap_db a \<and> inserted (fold (apply_row R f key) rows a) = inserted a"
  using assms
proof (induction rows arbitrary: a)
  case (Cons r rows)
  then have "\<forall>row \<in> set rows. settled R key (apply_row R f key r a) row"
    by (simp add: settled_stays)
  from Cons.IH [OF this] show ?case using apply_settled_row Cons.prems by simp
qed simp

lemma apply_rows_seen: "seen_ok a \<Longrightarrow> seen_ok (fold (apply_row R f key) rows a)"
proof (induction rows arbitrary: a)
  case (Cons r rows)
  have "seen_ok (a\<lparr>ap_sync := s\<rparr>)" for s using Cons.prems by (simp add: seen_ok_def)
  then have "seen_ok (apply_row R f key r a)"
    by (simp add: apply_row_eq Let_def insert_row_seen split: option.split)
  then show ?case using Cons.IH by simp
qed simp

text \<open>C31: Applying rows is idempotent: a second download of the same rows inserts nothing and
  leaves both tables as they are, whatever rows a database returns and whether or not they
  can be read, whatever the files of the device do in either, as long as no row is marked both
  deleted and edited.\<close>

theorem ApplyMessageRows_idempotent:
  assumes "\<forall>row \<in> set rows. \<not> (row_deleted row \<and> row_edited row)"
    and "ApplyMessageRows R f rows key (s, db) = (n, s', db')"
  shows "\<exists>s''. ApplyMessageRows R f' rows key (s', db') = (0, s'', db')"
proof -
  let ?a = "fold (apply_row R f key) rows (apply_start s db)"
  have end1: "ap_sync ?a = s'" "ap_db ?a = db'"
    using assms(2) by (simp_all add: ApplyMessageRows_def Let_def)
  have "seen_ok (apply_start s db)" by (simp add: seen_ok_def apply_start_def)
  from apply_rows_seen [OF this] have "seen_ok ?a" .
  then have start: "apply_start s' db' = ?a\<lparr>inserted := 0\<rparr>"
    using end1 by (simp add: apply_start_def seen_ok_def)
  have "settled R key ?a row" if "row \<in> set rows" for row
    using apply_rows_settle [OF assms(1)] that by blast
  then have "\<forall>row \<in> set rows. settled R key (apply_start s' db') row"
    unfolding start by (simp add: settled_def)
  from apply_settled_rows [OF this] show ?thesis
    by (simp add: ApplyMessageRows_def Let_def) (simp add: apply_start_def)
qed

text \<open>A row that is marked both deleted and edited needs two downloads to arrive, so applying
  it twice is not the same as applying it once.\<close>

section \<open>From device to device\<close>

text \<open>The tables that a device should have after the messages \<open>ms\<close> of another one arrived.\<close>

fun add_missing :: "TfMessage list \<Rightarrow> TfMessage list \<Rightarrow> TfMessage list" where
  "add_missing tbl [] = tbl"
| "add_missing tbl (m # ms) =
    add_missing (if m_contentHash m = [] \<or> m_contentHash m \<in> m_contentHash ` set tbl then tbl
      else tbl @ [stored_message (m\<lparr>m_fakeId := 0\<rparr>)]) ms"

lemma add_missing_keeps: "\<exists>new. add_missing tbl ms = tbl @ new"
proof (induction ms arbitrary: tbl)
  case (Cons m ms)
  show ?case
  proof (cases "m_contentHash m = [] \<or> m_contentHash m \<in> m_contentHash ` set tbl")
    case False
    from Cons.IH [of "tbl @ [stored_message (m\<lparr>m_fakeId := 0\<rparr>)]"] False show ?thesis by auto
  qed (use Cons.IH in simp)
qed simp

lemma add_missing_hashes:
  "m_contentHash ` set (add_missing tbl ms) = m_contentHash ` set tbl \<union> (m_contentHash ` set ms - {[]})"
  by (induction ms arbitrary: tbl) auto

lemma add_missing_distinct:
  "distinct (map m_contentHash tbl) \<Longrightarrow> distinct (map m_contentHash (add_missing tbl ms))"
  by (induction ms arbitrary: tbl) auto

lemma UnpackPayload_PackPayload:
  assumes "row_laws R" and "take 1 plain = [123]"
  shows "UnpackPayload R (PackPayload R plain) = plain"
proof (cases "length (re_qCompress R plain) + 4 \<ge> length plain")
  case True
  have "take 4 plain \<noteq> kCompressedPayloadMagic"
  proof
    assume "take 4 plain = kCompressedPayloadMagic"
    then have "take 1 (take 4 plain) = [84]"
      by (simp add: kCompressedPayloadMagic_def ascii_def of_char_def)
    then show False using assms(2) by (simp add: min_def)
  qed
  then show ?thesis using True by (simp add: PackPayload_def UnpackPayload_def)
next
  case False
  have "length kCompressedPayloadMagic = 4" by (simp add: kCompressedPayloadMagic_def ascii_def)
  moreover have "re_qCompress R plain \<noteq> []" using assms(1) by (simp add: row_laws_def)
  ultimately show ?thesis
    using False assms(1) by (simp add: PackPayload_def UnpackPayload_def row_laws_def)
qed

lemma SerializeMessage_brace:
  assumes "row_laws R" and "utf8_message R m"
  shows "take 1 (SerializeMessage R m) = [123]"
proof -
  let ?ob = "map (\<lambda>(k, v). (latin1 k, v)) (message_object R m)"
  have "\<forall>v \<in> snd ` set ?ob. plain_json R v"
    using message_object_plain [OF assms] by force
  then show ?thesis
    using assms(1) distinct_message_object [of R m] unfolding row_laws_def SerializeMessage_def by blast
qed

lemma read_built_row:
  assumes laws: "row_laws R" "aead_laws (re_sync R)" and m: "utf8_message R m" "m_contentHash m \<noteq> []"
    and nonce: "length nonce = kNonceSize"
    and sealed: "row_payload (BuildRow R nonce m deleted edited key) \<noteq> []"
  shows "read_row R f key (BuildRow R nonce m deleted edited key) s = (Some (m\<lparr>m_fakeId := 0\<rparr>), s)"
proof -
  let ?plain = "SerializeMessage R m"
  have brace: "take 1 ?plain = [123]" by (rule SerializeMessage_brace [OF laws(1) m(1)])
  then have ne: "PackPayload R ?plain \<noteq> []"
    by (auto simp: PackPayload_def Let_def kCompressedPayloadMagic_def ascii_def)
  have "EncryptBundle (re_sync R) nonce (PackPayload R ?plain) key \<noteq> []"
    using sealed by (simp add: BuildRow_def)
  from DecryptBundleWithKey_EncryptBundle [OF laws(2) nonce ne this]
  have "DecryptBundle (re_sync R) f (row_payload (BuildRow R nonce m deleted edited key)) key s
      = (Some (PackPayload R ?plain), s)"
    by (simp add: DecryptBundle_def BuildRow_def)
  moreover have "UnpackPayload R (PackPayload R ?plain) = ?plain"
    by (rule UnpackPayload_PackPayload [OF laws(1) brace])
  moreover have "?plain \<noteq> []" using brace by auto
  ultimately show ?thesis
    using sealed m(2) serialized_message [OF laws(1) m(1)] by (simp add: read_row_def)
qed

lemma apply_built_row:
  assumes "row_laws R" "aead_laws (re_sync R)" and "utf8_message R m" "m_contentHash m \<noteq> []"
    and "length nonce = kNonceSize" and "row_payload (BuildRow R nonce m deleted edited key) \<noteq> []"
  shows "apply_row R f key (BuildRow R nonce m deleted edited key) a
    = insert_row (BuildRow R nonce m deleted edited key) (m\<lparr>m_fakeId := 0\<rparr>) a"
  by (simp add: apply_row_eq read_built_row [OF assms])

text \<open>Every row of a table can be encrypted.\<close>

definition sealable :: "row_env \<Rightarrow> (nat \<Rightarrow> bytes) \<Rightarrow> bytes \<Rightarrow> TfMessage \<Rightarrow> bool" where
  "sealable R nonces key m \<longleftrightarrow> utf8_message R m \<and>
    (\<forall>i d e. length (nonces i) = kNonceSize \<and> row_payload (BuildRow R (nonces i) m d e key) \<noteq> [])"

definition table :: "bool \<Rightarrow> message_db \<Rightarrow> TfMessage list" where
  "table deleted db = (if deleted then db_deleted db else db_edited db)"

lemma insert_built_row:
  assumes "seen_ok a" and "row_deleted row = d" and "row_edited row = (\<not> d)" and "m_contentHash m \<noteq> []"
    and "m_fakeId m = 0"
  shows "table d (ap_db (insert_row row m a)) = add_missing (table d (ap_db a)) [m]"
    and "table (\<not> d) (ap_db (insert_row row m a)) = table (\<not> d) (ap_db a)"
    and "inserted (insert_row row m a) + length (table d (ap_db a))
      = inserted a + length (table d (ap_db (insert_row row m a)))"
proof -
  have [simp]: "m\<lparr>m_fakeId := 0\<rparr> = m" using assms(5) by (cases m) simp
  consider (yes) d | (no) "\<not> d" by blast
  then have "table d (ap_db (insert_row row m a)) = add_missing (table d (ap_db a)) [m]
      \<and> table (\<not> d) (ap_db (insert_row row m a)) = table (\<not> d) (ap_db a)
      \<and> inserted (insert_row row m a) + length (table d (ap_db a))
        = inserted a + length (table d (ap_db (insert_row row m a)))"
  proof cases
    case yes
    then show ?thesis using assms(1-4) by (simp add: insert_row_def seen_ok_def table_def)
  next
    case no
    then show ?thesis using assms(1-4) by (simp add: insert_row_def seen_ok_def table_def)
  qed
  then show "table d (ap_db (insert_row row m a)) = add_missing (table d (ap_db a)) [m]"
    and "table (\<not> d) (ap_db (insert_row row m a)) = table (\<not> d) (ap_db a)"
    and "inserted (insert_row row m a) + length (table d (ap_db a))
      = inserted a + length (table d (ap_db (insert_row row m a)))" by blast+
qed

lemma apply_collected_rows:
  fixes R :: row_env and f :: file_io and key :: bytes and i :: nat and a :: apply_state and d :: bool
  assumes "row_laws R" "aead_laws (re_sync R)" and "\<forall>m \<in> set ms. sealable R nonces key m" and "seen_ok a"
  defines "rows \<equiv> \<lambda>i ms. collect_table R nonces i ms d (\<not> d) key"
  shows "table d (ap_db (fold (apply_row R f key) (rows i ms) a)) = add_missing (table d (ap_db a)) ms
    \<and> table (\<not> d) (ap_db (fold (apply_row R f key) (rows i ms) a)) = table (\<not> d) (ap_db a)
    \<and> ap_sync (fold (apply_row R f key) (rows i ms) a) = ap_sync a
    \<and> seen_ok (fold (apply_row R f key) (rows i ms) a)
    \<and> inserted (fold (apply_row R f key) (rows i ms) a) + length (table d (ap_db a))
      = inserted a + length (add_missing (table d (ap_db a)) ms)"
  using assms(3,4)
proof (induction ms arbitrary: a i)
  case Nil
  then show ?case by (simp add: rows_def collect_table_def)
next
  case (Cons m ms)
  have ms: "\<forall>m \<in> set ms. sealable R nonces key m" using Cons.prems(1) by simp
  show ?case
  proof (cases "m_contentHash m = []")
    case True
    then have "rows i (m # ms) = rows (Suc i) ms" by (simp add: rows_def collect_table_def)
    then show ?thesis using Cons.IH [OF ms Cons.prems(2), of "Suc i"] True by simp
  next
    case False
    let ?row = "BuildRow R (nonces i) m d (\<not> d) key"
    let ?m = "m\<lparr>m_fakeId := 0\<rparr>"
    let ?a = "insert_row ?row ?m a"
    have "apply_row R f key ?row a = ?a"
      using Cons.prems(1) False by (intro apply_built_row assms(1,2)) (simp_all add: sealable_def)
    moreover have "rows i (m # ms) = ?row # rows (Suc i) ms"
      using False by (simp add: rows_def collect_table_def)
    ultimately have step: "fold (apply_row R f key) (rows i (m # ms)) a = fold (apply_row R f key) (rows (Suc i) ms) ?a"
      by simp
    have flags: "row_deleted ?row = d" "row_edited ?row = (\<not> d)" by (simp_all add: BuildRow_def)
    have "m_contentHash ?m \<noteq> []" and "m_fakeId ?m = 0" using False by simp_all
    note one = insert_built_row [OF Cons.prems(2) flags this]
    have add: "add_missing (table d (ap_db a)) (m # ms) = add_missing (add_missing (table d (ap_db a)) [?m]) ms"
      by simp
    have "seen_ok ?a" by (rule insert_row_seen [OF Cons.prems(2)])
    from Cons.IH [OF ms this, of "Suc i"] show ?thesis
      unfolding step add using one by (simp del: add_missing.simps)
  qed
qed

text \<open>C30: The messages of a device reach another one. When a device applies the rows that
  another one with the same key collected, each of its tables becomes the old table followed
  by the messages it did not have, told apart by their content hash, every field but the row
  id, the post author and the reply markup intact; the result is the number of messages
  added, and the key state is untouched.\<close>

theorem collected_rows_arrive:
  assumes "row_laws R" and "aead_laws (re_sync R)"
    and "\<forall>m \<in> set (db_deleted remote) \<union> set (db_edited remote). sealable R nonces key m"
  shows "ApplyMessageRows R f (CollectMessageRows R nonces remote key) key (s, db)
    = (length (add_missing (db_deleted db) (db_deleted remote)) - length (db_deleted db)
       + (length (add_missing (db_edited db) (db_edited remote)) - length (db_edited db)), s,
       \<lparr>db_deleted = add_missing (db_deleted db) (db_deleted remote),
        db_edited = add_missing (db_edited db) (db_edited remote)\<rparr>)"
proof -
  let ?rows = "\<lambda>d i ms. collect_table R nonces i ms d (\<not> d) key"
  let ?a0 = "apply_start s db"
  let ?a1 = "fold (apply_row R f key) (?rows True 0 (db_deleted remote)) ?a0"
  let ?a2 = "fold (apply_row R f key) (?rows False (length (db_deleted remote)) (db_edited remote)) ?a1"
  have "seen_ok ?a0" by (simp add: seen_ok_def apply_start_def)
  note one = apply_collected_rows [OF assms(1,2) _ this, where d = True and i = 0 and f = f and key = key
      and ms = "db_deleted remote" and nonces = nonces]
  have one: "table True (ap_db ?a1) = add_missing (db_deleted db) (db_deleted remote)"
    "table False (ap_db ?a1) = db_edited db" "ap_sync ?a1 = s" "seen_ok ?a1"
    "inserted ?a1 + length (db_deleted db) = length (add_missing (db_deleted db) (db_deleted remote))"
    using one assms(3) by (simp_all add: table_def apply_start_def)
  note two = apply_collected_rows [OF assms(1,2) _ one(4), where d = False and f = f and key = key
      and i = "length (db_deleted remote)" and ms = "db_edited remote" and nonces = nonces]
  have two: "table False (ap_db ?a2) = add_missing (db_edited db) (db_edited remote)"
    "table True (ap_db ?a2) = add_missing (db_deleted db) (db_deleted remote)" "ap_sync ?a2 = s"
    "inserted ?a2 + length (db_edited db) = inserted ?a1 + length (add_missing (db_edited db) (db_edited remote))"
    using two assms(3) one(1-3) by (simp_all add: table_def)
  have "fold (apply_row R f key) (CollectMessageRows R nonces remote key) ?a0 = ?a2"
    by (simp add: CollectMessageRows_def)
  then have "ApplyMessageRows R f (CollectMessageRows R nonces remote key) key (s, db)
      = (inserted ?a2, ap_sync ?a2, ap_db ?a2)"
    by (simp add: ApplyMessageRows_def Let_def)
  moreover have "length (db_deleted db) \<le> length (add_missing (db_deleted db) (db_deleted remote))"
    and "length (db_edited db) \<le> length (add_missing (db_edited db) (db_edited remote))"
    using add_missing_keeps [of "db_deleted db" "db_deleted remote"]
      add_missing_keeps [of "db_edited db" "db_edited remote"] by auto
  ultimately show ?thesis
    using one(5) two by (simp add: table_def)
qed

section \<open>An instance of the code around\<close>

text \<open>A text format that keeps the promises about JSON: tagged values, strings as marked
  pairs of bytes and a mark before every member.\<close>

definition put_string :: "qstring \<Rightarrow> bytes" where
  "put_string s = concat (map (\<lambda>c. 1 # le_bytes 2 c) s) @ [0]"

fun get_string :: "bytes \<Rightarrow> (qstring \<times> bytes) option" where
  "get_string (b # x # y # r) =
    (if b = 0 then Some ([], x # y # r)
     else map_option (\<lambda>(s, t). (le_value [x, y] # s, t)) (get_string r))"
| "get_string (b # r) = (if b = 0 then Some ([], r) else None)"
| "get_string [] = None"

fun put_value :: "json \<Rightarrow> bytes" where
  "put_value (JBool b) = [0, if b then 1 else 0]"
| "put_value (JDouble d) = 1 # le_bytes 8 (word_of_int (trunc d) :: 64 word)"
| "put_value (JString s) = 2 # put_string s"
| "put_value _ = []"

fun get_value :: "bytes \<Rightarrow> (json \<times> bytes) option" where
  "get_value (k # r) =
    (if k = 0 then (case r of [] \<Rightarrow> None | b # t \<Rightarrow> Some (JBool (b = 1), t))
     else if k = 1 then Some (JDouble (of_int (sint (le_value (take 8 r) :: 64 word))), drop 8 r)
     else map_option (\<lambda>(s, t). (JString s, t)) (get_string r))"
| "get_value [] = None"

fun put_members :: "(qstring \<times> json) list \<Rightarrow> bytes" where
  "put_members [] = [0]"
| "put_members ((k, v) # ms) = 1 # put_string k @ put_value v @ put_members ms"

fun get_members :: "nat \<Rightarrow> bytes \<Rightarrow> (qstring \<times> json) list option" where
  "get_members 0 bs = None"
| "get_members (Suc n) [] = None"
| "get_members (Suc n) (m # r) =
    (if m = 0 then Some []
     else do {
       (k, r) \<leftarrow> get_string r;
       (v, r) \<leftarrow> get_value r;
       ms \<leftarrow> get_members n r;
       Some ((k, v) # ms)
     })"

definition sample_rows :: row_env where
  "sample_rows = \<lparr>re_sync = sample_env,
    re_toJson = (\<lambda>v. case v of JObject ob \<Rightarrow> 123 # put_members ob | _ \<Rightarrow> []),
    re_fromJson = (\<lambda>bs. map_option JObject (get_members (length bs) (drop 1 bs))),
    re_number = (\<lambda>i. fromLatin1 (le_bytes 8 (word_of_int i :: 64 word))),
    re_toLongLong = (\<lambda>s. Some (sint (le_value (toLatin1 s) :: 64 word))),
    re_toInt = (\<lambda>s. Some (sint (le_value (toLatin1 s) :: 32 word))),
    re_qCompress = (\<lambda>p. 0 # p), re_qUncompress = tl\<rparr>"

lemma get_put_string: "get_string (put_string s @ r) = Some (s, r)"
proof (induction s)
  case Nil
  then show ?case by (cases r rule: list.exhaust; cases "tl r") (auto simp: put_string_def)
next
  case (Cons c s)
  have "le_bytes 2 c = [le_bytes 2 c ! 0, le_bytes 2 c ! 1]"
    by (rule nth_equalityI) (auto simp: less_Suc_eq numeral_2_eq_2)
  then obtain x y where xy: "le_bytes 2 c = [x, y]" by blast
  have "le_value [x, y] = c"
    using le_value_le_bytes_full [of 2 c] by (simp add: xy)
  then show ?case using Cons by (simp add: put_string_def xy)
qed

lemma get_put_value:
  assumes "plain_json R v"
  shows "get_value (put_value v @ r) = Some (v, r)"
  using assms unfolding plain_json_def
proof (elim disjE exE conjE)
  fix i :: int
  assume v: "v = JDouble (of_int i)" and i: "\<bar>i\<bar> < 2 ^ 53"
  have "sint (word_of_int i :: 64 word) = i"
    using i by (simp add: sint_sbintrunc' signed_take_bit_int_eq_self)
  then show ?thesis
    unfolding v by (simp add: le_value_le_bytes_full del: of_int_sint)
qed (auto simp: get_put_string)

lemma get_put_members:
  assumes "\<forall>v \<in> snd ` set ms. plain_json R v" and "length (put_members ms) \<le> n"
  shows "get_members n (put_members ms) = Some ms"
  using assms
proof (induction ms arbitrary: n)
  case Nil
  then show ?case by (cases n) simp_all
next
  case (Cons kv ms)
  obtain k v where kv: "kv = (k, v)" by fastforce
  obtain n' where n: "n = Suc n'" using Cons.prems(2) kv by (cases n) simp_all
  have "get_members n' (put_members ms) = Some ms"
    using Cons.prems kv n by (intro Cons.IH) simp_all
  moreover have "plain_json R v" using Cons.prems(1) kv by simp
  ultimately show ?case using kv n by (simp add: get_put_string get_put_value)
qed

lemma sample_rows_laws: "row_laws sample_rows"
proof -
  have latin: "plain_json sample_rows (JString (fromLatin1 bs))" for bs
    by (simp add: plain_json_def sample_rows_def sample_env_def)
  have num: "sint (le_value (le_bytes 8 (word_of_int i :: 64 word)) :: 64 word) = i"
    if "- (2 ^ 63) \<le> i" "i < 2 ^ 63" for i
    using that by (simp add: le_value_le_bytes_full sint_sbintrunc' signed_take_bit_int_eq_self del: of_int_sint)
  have "re_fromJson sample_rows (re_toJson sample_rows (JObject ob)) = Some (JObject ob)"
    if "\<forall>v \<in> snd ` set ob. plain_json sample_rows v" for ob
    using get_put_members [OF that, of "Suc (length (put_members ob))"] by (simp add: sample_rows_def)
  moreover have "take 1 (re_toJson sample_rows (JObject ob)) = [123]" for ob
    by (simp add: sample_rows_def)
  moreover have "re_sync sample_rows = sample_env" by (simp add: sample_rows_def)
  ultimately show ?thesis
    using latin num sample_env_laws(1) unfolding row_laws_def
    by (auto simp: sample_rows_def)
qed

definition sample_message :: "byte \<Rightarrow> TfMessage" where
  "sample_message h = \<lparr>m_fakeId = 7, m_userId = 100, m_dialogId = - 200, m_groupedId = 0, m_peerId = 3,
    m_fromId = 4, m_topicId = 0, m_messageId = 55, m_date = 1700000000, m_flags = 2, m_editDate = 0,
    m_views = 0, m_fwdFlags = 0, m_fwdFromId = 0, m_fwdName = [], m_fwdDate = 0, m_fwdPostAuthor = [],
    m_postAuthor = [], m_replyFlags = 0, m_replyMessageId = 0, m_replyPeerId = 0, m_replyTopId = 0,
    m_replyForumTopic = True, m_replySerialized = [1, 2], m_replyMarkupSerialized = [],
    m_entityCreateDate = 9, m_text = ascii ''hi'', m_textEntities = [], m_mediaPath = [], m_hqThumbPath = [],
    m_documentType = 0, m_documentSerialized = [], m_thumbsSerialized = [],
    m_documentAttributesSerialized = [], m_mimeType = [], m_contentHash = [h]\<rparr>"

definition sample_key :: bytes where "sample_key = replicate 32 4"

definition sample_nonces :: "nat \<Rightarrow> bytes" where "sample_nonces i = replicate 12 1"

lemma sample_sealable: "sealable sample_rows sample_nonces sample_key (sample_message h)"
proof -
  have "utf8_message sample_rows (sample_message h)"
    by (simp add: utf8_message_def sample_message_def sample_rows_def sample_env_def)
  moreover have "EncryptBundle sample_env (sample_nonces i) p sample_key \<noteq> []" for i p
    by (simp add: EncryptBundle_def sample_env_def sample_nonces_def sample_key_def kKeySize_def kMagic_def)
  ultimately show ?thesis
    by (simp add: sealable_def sample_nonces_def kNonceSize_def BuildRow_def sample_rows_def)
qed

theorem collected_rows_arrive_witness:
  "ApplyMessageRows sample_rows (works (replicate 16 5))
     (CollectMessageRows sample_rows sample_nonces
       \<lparr>db_deleted = [sample_message 1, sample_message 2], db_edited = [sample_message 1]\<rparr> sample_key)
     sample_key (sync_start [] [], \<lparr>db_deleted = [sample_message 2], db_edited = []\<rparr>)
   = (2, sync_start [] [],
      \<lparr>db_deleted = [sample_message 2, (sample_message 1)\<lparr>m_fakeId := 0\<rparr>],
       db_edited = [(sample_message 1)\<lparr>m_fakeId := 0\<rparr>]\<rparr>)"
proof -
  have sealable: "\<forall>m \<in> set (db_deleted \<lparr>db_deleted = [sample_message 1, sample_message 2], db_edited = [sample_message 1]\<rparr>)
      \<union> set (db_edited \<lparr>db_deleted = [sample_message 1, sample_message 2], db_edited = [sample_message 1]\<rparr>).
      sealable sample_rows sample_nonces sample_key m"
    using sample_sealable by simp
  have hash: "m_contentHash (sample_message h) = [h]" for h by (simp add: sample_message_def)
  have stored: "stored_message ((sample_message h)\<lparr>m_fakeId := 0\<rparr>) = (sample_message h)\<lparr>m_fakeId := 0\<rparr>" for h
    by (simp add: stored_message_def sample_message_def)
  have aead: "aead_laws (re_sync sample_rows)" using sample_env_laws(3) by (simp add: sample_rows_def)
  show ?thesis
    by (subst collected_rows_arrive [OF sample_rows_laws aead sealable]) (simp add: hash stored)
qed

definition sample_row :: "bool \<Rightarrow> bool \<Rightarrow> SyncMessageRow" where
  "sample_row deleted edited = BuildRow sample_rows (sample_nonces 0) (sample_message 1) deleted edited sample_key"

lemma apply_sample_row:
  "apply_row sample_rows f sample_key (sample_row d e) a
    = insert_row (sample_row d e) ((sample_message 1)\<lparr>m_fakeId := 0\<rparr>) a"
proof -
  have "aead_laws (re_sync sample_rows)" using sample_env_laws(3) by (simp add: sample_rows_def)
  moreover have "m_contentHash (sample_message 1) \<noteq> []" by (simp add: sample_message_def)
  ultimately show ?thesis
    unfolding sample_row_def using sample_sealable [of 1]
    by (intro apply_built_row sample_rows_laws) (auto simp: sealable_def)
qed

lemma sample_row_flags [simp]:
  "row_deleted (sample_row d e) = d" "row_edited (sample_row d e) = e"
  by (simp_all add: sample_row_def BuildRow_def)

lemmas sample_apply = ApplyMessageRows_def apply_sample_row insert_row_def apply_start_def Let_def

theorem ApplyMessageRows_idempotent_witness:
  "let r = ApplyMessageRows sample_rows (works []) [sample_row True False, sample_row False True] sample_key
         (sync_start [] [], \<lparr>db_deleted = [], db_edited = []\<rparr>)
   in fst r = 2 \<and> (\<exists>s. ApplyMessageRows sample_rows (works []) [sample_row True False, sample_row False True] sample_key
         (fst (snd r), snd (snd r)) = (0, s, snd (snd r)))"
proof -
  let ?rows = "[sample_row True False, sample_row False True]"
  let ?r = "ApplyMessageRows sample_rows (works []) ?rows sample_key (sync_start [] [], \<lparr>db_deleted = [], db_edited = []\<rparr>)"
  have n: "fst ?r = 2" by (simp add: sample_apply)
  have flags: "\<forall>row \<in> set ?rows. \<not> (row_deleted row \<and> row_edited row)"
    by simp
  have r: "?r = (fst ?r, fst (snd ?r), snd (snd ?r))" by simp
  show ?thesis
    unfolding Let_def by (rule conjI [OF n ApplyMessageRows_idempotent [OF flags r]])
qed

lemma both_flags_arrive_in_two_steps:
  "let r = ApplyMessageRows sample_rows (works []) [sample_row True True] sample_key
         (sync_start [] [], \<lparr>db_deleted = [], db_edited = []\<rparr>)
   in fst r = 1 \<and> fst (ApplyMessageRows sample_rows (works []) [sample_row True True] sample_key
         (fst (snd r), snd (snd r))) = 1"
  by (simp add: sample_apply)

end
