(* ===== verification/Sync_Remote.thy ===== *)
theory Sync_Remote
  imports Sync_Rows "HOL-Library.List_Lexorder"
begin

text \<open>
  The PostgreSQL replica of the message sync, \<open>tfc/features/sync/teleforge_sync_pg.cpp\<close>:
  the upload of collected rows in one transaction of batches, and their download. The
  server is the three tables that the statements of the file name, with the meaning that
  the statements have in SQL. A connection has what the server stores, the working copy of
  an open transaction and whether that is aborted; whether the server accepts a statement is
  drawn: one boolean for each statement that is sent, in order, BEGIN and COMMIT included.
\<close>

section \<open>The server\<close>

record pg_message =
  pg_chat :: qstring
  pg_account :: qstring
  pg_mid :: qstring
  pg_deleted :: bool
  pg_edited :: bool
  pg_date :: int
  pg_editDate :: int
  pg_payload :: bytes
  pg_updatedAt :: int

record pg_event =
  ev_chat :: qstring
  ev_account :: qstring
  ev_mid :: qstring
  ev_payload :: bytes
  ev_createdAt :: int

record pg_stamp =
  st_revision :: int
  st_updatedAt :: int
  st_sha256 :: bytes
  st_dateFrom :: int
  st_dateTo :: int

record pg_state =
  pg_messages :: "((qstring \<times> qstring) \<times> pg_message) list"
  pg_events :: "((qstring \<times> qstring \<times> string) \<times> pg_event) list"
  pg_stamps :: "(qstring \<times> pg_stamp) list"

definition PgTenantId :: "sync_env \<Rightarrow> int \<Rightarrow> qstring \<Rightarrow> qstring" where
  "PgTenantId E userId phone =
    fromLatin1 (to_hex (sy_sha256 E (sy_number E userId @ [58] @ sy_toUtf8 E phone)))"

text \<open>A literal of SQL: the quotes inside are doubled.\<close>

definition PgQuote :: "bytes \<Rightarrow> bytes" where
  "PgQuote s = [39] @ concat (map (\<lambda>c. if c = 39 then [39, 39] else [c]) s) @ [39]"

text \<open>How a server reads the literal after its first quote.\<close>

fun read_literal :: "bytes \<Rightarrow> (bytes \<times> bytes) option" where
  "read_literal [] = None"
| "read_literal (c # r) =
    (if c = 39 then
       (case r of
          [] \<Rightarrow> Some ([], [])
        | d # r' \<Rightarrow> if d = 39 then map_option (\<lambda>(s, t). (39 # s, t)) (read_literal r') else Some ([], r))
     else map_option (\<lambda>(s, t). (c # s, t)) (read_literal r))"

text \<open>The insert of a message with its conflict clause.\<close>

definition fresh_message :: "row_env \<Rightarrow> int \<Rightarrow> SyncMessageRow \<Rightarrow> pg_message" where
  "fresh_message R now row =
    \<lparr>pg_chat = row_chatIdH row, pg_account = row_accountIdH row, pg_mid = row_messageIdH row,
     pg_deleted = row_deleted row, pg_edited = row_edited row, pg_date = row_date row,
     pg_editDate = row_editDate row, pg_payload = sy_toBase64 (re_sync R) (row_payload row),
     pg_updatedAt = now\<rparr>"

definition merge_message :: "pg_message \<Rightarrow> pg_message \<Rightarrow> pg_message" where
  "merge_message fresh old =
    old\<lparr>pg_deleted := pg_deleted old \<or> pg_deleted fresh, pg_edited := pg_edited old \<or> pg_edited fresh,
      pg_editDate := pg_editDate fresh, pg_payload := pg_payload fresh, pg_updatedAt := pg_updatedAt fresh\<rparr>"

definition upsert_message ::
  "row_env \<Rightarrow> qstring \<Rightarrow> int \<Rightarrow> SyncMessageRow \<Rightarrow> pg_state \<Rightarrow> pg_state" where
  "upsert_message R tenant now row st =
    (let k = (tenant, row_contentHash row); fresh = fresh_message R now row
     in st\<lparr>pg_messages := AList.update k
         (case map_of (pg_messages st) k of None \<Rightarrow> fresh | Some old \<Rightarrow> merge_message fresh old) (pg_messages st)\<rparr>)"

text \<open>An insert that would update a row a second time is refused as a whole.\<close>

definition insert_messages ::
  "row_env \<Rightarrow> qstring \<Rightarrow> int \<Rightarrow> SyncMessageRow list \<Rightarrow> pg_state \<Rightarrow> pg_state option" where
  "insert_messages R tenant now rows st =
    (if distinct (map row_contentHash rows) then Some (fold (upsert_message R tenant now) rows st) else None)"

definition event_types :: "SyncMessageRow \<Rightarrow> string list" where
  "event_types row =
    [''created''] @ (if row_deleted row then [''deleted''] else []) @ (if row_edited row then [''edited''] else [])"

definition insert_event ::
  "row_env \<Rightarrow> qstring \<Rightarrow> int \<Rightarrow> SyncMessageRow \<Rightarrow> string \<Rightarrow> pg_state \<Rightarrow> pg_state" where
  "insert_event R tenant now row typ st =
    (let k = (tenant, row_contentHash row, typ)
     in case map_of (pg_events st) k of
          Some _ \<Rightarrow> st
        | None \<Rightarrow> st\<lparr>pg_events := pg_events st @ [(k, \<lparr>ev_chat = row_chatIdH row,
            ev_account = row_accountIdH row, ev_mid = row_messageIdH row,
            ev_payload = sy_toBase64 (re_sync R) (row_payload row), ev_createdAt = now\<rparr>)]\<rparr>)"

definition insert_events :: "row_env \<Rightarrow> qstring \<Rightarrow> int \<Rightarrow> SyncMessageRow \<Rightarrow> pg_state \<Rightarrow> pg_state" where
  "insert_events R tenant now row st = fold (insert_event R tenant now row) (event_types row) st"

section \<open>A connection\<close>

record pg_conn =
  pc_stored :: pg_state
  pc_open :: "pg_state option"
  pc_aborted :: bool
  pc_answers :: "bool list"

text \<open>The next answer of the server; a connection without answers left is lost.\<close>

definition next_answer :: "pg_conn \<Rightarrow> bool \<times> pg_conn" where
  "next_answer c = (case pc_answers c of [] \<Rightarrow> (False, c) | b # bs \<Rightarrow> (b, c\<lparr>pc_answers := bs\<rparr>))"

text \<open>A statement: it works on the open transaction, which it aborts when it is refused and
  which refuses every statement once it is aborted; without a transaction it is stored at
  once.\<close>

definition pg_exec :: "(pg_state \<Rightarrow> pg_state option) \<Rightarrow> pg_conn \<Rightarrow> bool \<times> pg_conn" where
  "pg_exec statement c =
    (let (taken, c) = next_answer c in
     case pc_open c of
       None \<Rightarrow>
         (case (if taken then statement (pc_stored c) else None) of
            None \<Rightarrow> (False, c) | Some st \<Rightarrow> (True, c\<lparr>pc_stored := st\<rparr>))
     | Some work \<Rightarrow>
         if pc_aborted c then (False, c)
         else (case (if taken then statement work else None) of
                 None \<Rightarrow> (False, c\<lparr>pc_aborted := True\<rparr>) | Some work \<Rightarrow> (True, c\<lparr>pc_open := Some work\<rparr>)))"

text \<open>BEGIN and COMMIT, whose results are not looked at, and ROLLBACK. A transaction that is
  aborted is rolled back by COMMIT; a lost connection leaves nothing open.\<close>

definition pg_begin :: "pg_conn \<Rightarrow> pg_conn" where
  "pg_begin c =
    (let (taken, c) = next_answer c
     in if taken \<and> pc_open c = None then c\<lparr>pc_open := Some (pc_stored c), pc_aborted := False\<rparr> else c)"

definition pg_commit :: "pg_conn \<Rightarrow> pg_conn" where
  "pg_commit c =
    (let (taken, c) = next_answer c in
     case pc_open c of
       None \<Rightarrow> c
     | Some work \<Rightarrow> c\<lparr>pc_open := None, pc_aborted := False,
         pc_stored := (if taken \<and> \<not> pc_aborted c then work else pc_stored c)\<rparr>)"

definition pg_rollback :: "pg_conn \<Rightarrow> pg_conn" where
  "pg_rollback c = (let (taken, c) = next_answer c in c\<lparr>pc_open := None, pc_aborted := False\<rparr>)"

section \<open>Upload\<close>

definition kUploadBatch :: nat where "kUploadBatch = 100"

text \<open>The rows of a batch that are sent: those with a hash that was not sent before.\<close>

fun unseen_rows :: "qstring set \<Rightarrow> SyncMessageRow list \<Rightarrow> SyncMessageRow list" where
  "unseen_rows seen [] = []"
| "unseen_rows seen (row # rows) =
    (if row_contentHash row \<in> seen then unseen_rows seen rows
     else row # unseen_rows (insert (row_contentHash row) seen) rows)"

record upload =
  up_conn :: pg_conn
  up_seen :: "qstring set"
  up_progress :: "nat list"

text \<open>One batch: the messages, then the events; False when the server refuses a statement.\<close>

definition upload_batch ::
  "row_env \<Rightarrow> qstring \<Rightarrow> int \<Rightarrow> nat \<Rightarrow> SyncMessageRow list \<Rightarrow> upload \<Rightarrow> bool \<times> upload" where
  "upload_batch R tenant now stop batch u =
    (let sent = unseen_rows (up_seen u) batch;
         u = u\<lparr>up_seen := up_seen u \<union> set (map row_contentHash batch)\<rparr>
     in if sent = [] then (True, u\<lparr>up_progress := up_progress u @ [stop]\<rparr>)
        else
          let (ok, c) = pg_exec (insert_messages R tenant now sent) (up_conn u); u = u\<lparr>up_conn := c\<rparr>
          in if \<not> ok then (False, u)
             else
               let (ok, c) = pg_exec (\<lambda>st. Some (fold (insert_events R tenant now) sent st)) (up_conn u);
                   u = u\<lparr>up_conn := c\<rparr>
               in if \<not> ok then (False, u) else (True, u\<lparr>up_progress := up_progress u @ [stop]\<rparr>))"

function upload_batches ::
  "row_env \<Rightarrow> qstring \<Rightarrow> int \<Rightarrow> nat \<Rightarrow> SyncMessageRow list \<Rightarrow> upload \<Rightarrow> bool \<times> upload" where
  "upload_batches R tenant now start rows u =
    (if rows = [] then (True, u)
     else
       let batch = take kUploadBatch rows;
           (ok, u) = upload_batch R tenant now (start + length batch) batch u
       in if \<not> ok then (False, u)
          else upload_batches R tenant now (start + length batch) (drop kUploadBatch rows) u)"
  by pat_completeness auto
termination
  by (relation "measure (\<lambda>(R, tenant, now, start, rows, u). length rows)") (auto simp: kUploadBatch_def)

declare upload_batches.simps [simp del]

text \<open>Byte arrays are ordered by their bytes without sign, a prefix first.\<close>

definition stamp_material :: "row_env \<Rightarrow> SyncMessageRow list \<Rightarrow> bytes" where
  "stamp_material R rows =
    concat (map (\<lambda>h. h @ [10]) (sort_key (map unat)
      (map (\<lambda>row. sy_toUtf8 (re_sync R) (row_contentHash row)
         @ [if row_deleted row then 68 else 99, if row_edited row then 69 else 101]) rows)))"

text \<open>The stamp of the tenant, whose revision and time are two reads of the clock.\<close>

definition upsert_stamp :: "qstring \<Rightarrow> pg_stamp \<Rightarrow> pg_state \<Rightarrow> pg_state" where
  "upsert_stamp tenant fresh st =
    (case map_of (pg_stamps st) tenant of
       None \<Rightarrow> st\<lparr>pg_stamps := AList.update tenant fresh (pg_stamps st)\<rparr>
     | Some old \<Rightarrow> if st_revision old \<le> st_revision fresh
                   then st\<lparr>pg_stamps := AList.update tenant fresh (pg_stamps st)\<rparr> else st)"

definition DoUpdateStamp ::
  "row_env \<Rightarrow> qstring \<Rightarrow> int \<Rightarrow> int \<Rightarrow> SyncMessageRow list \<Rightarrow> pg_conn \<Rightarrow> bool \<times> pg_conn" where
  "DoUpdateStamp R tenant now revision rows c =
    pg_exec (\<lambda>st. Some (upsert_stamp tenant
      \<lparr>st_revision = revision, st_updatedAt = now,
       st_sha256 = to_hex (sy_sha256 (re_sync R) (stamp_material R rows)),
       st_dateFrom = Min (set (map row_date rows)), st_dateTo = Max (set (map row_date rows))\<rparr> st)) c"

text \<open>The result and the connection after the upload.\<close>

definition DoUploadMessages ::
  "row_env \<Rightarrow> qstring \<Rightarrow> int \<Rightarrow> int \<Rightarrow> SyncMessageRow list \<Rightarrow> pg_conn \<Rightarrow> bool \<times> pg_conn" where
  "DoUploadMessages R tenant now revision rows c =
    (if rows = [] then (True, c)
     else
       let c = pg_begin c;
           (ok, u) = upload_batches R tenant now 0 rows \<lparr>up_conn = c, up_seen = {}, up_progress = []\<rparr>
       in if \<not> ok then (False, pg_rollback (up_conn u))
          else
            let (ok, c) = DoUpdateStamp R tenant now revision rows (up_conn u)
            in if \<not> ok then (False, pg_rollback c) else (True, pg_commit c))"

section \<open>Download\<close>

definition downloaded_row :: "row_env \<Rightarrow> qstring \<Rightarrow> pg_message \<Rightarrow> SyncMessageRow" where
  "downloaded_row R h p =
    \<lparr>row_contentHash = h, row_chatIdH = [], row_accountIdH = [], row_messageIdH = [],
     row_deleted = pg_deleted p, row_edited = pg_edited p, row_date = 0, row_editDate = 0,
     row_payload = sy_fromBase64 (re_sync R) (pg_payload p)\<rparr>"

definition DoDownloadMessages :: "row_env \<Rightarrow> qstring \<Rightarrow> pg_state \<Rightarrow> SyncMessageRow list" where
  "DoDownloadMessages R tenant st =
    map (\<lambda>((t, h), p). downloaded_row R h p) (filter (\<lambda>((t, h), p). t = tenant) (pg_messages st))"

section \<open>What the statements do\<close>

lemma upsert_message_fields [simp]:
  "pg_events (upsert_message R t now row st) = pg_events st"
  "pg_stamps (upsert_message R t now row st) = pg_stamps st"
  by (simp_all add: upsert_message_def Let_def)

lemma insert_event_fields [simp]:
  "pg_messages (insert_event R t now row typ st) = pg_messages st"
  "pg_stamps (insert_event R t now row typ st) = pg_stamps st"
  by (simp_all add: insert_event_def Let_def split: option.split)

lemma insert_events_messages [simp]: "pg_messages (insert_events R t now row st) = pg_messages st"
proof -
  have "pg_messages (fold (insert_event R t now row) ts u) = pg_messages u" for ts u
    by (induction ts arbitrary: u) simp_all
  then show ?thesis by (simp add: insert_events_def)
qed

lemma fold_insert_events_messages [simp]:
  "pg_messages (fold (insert_events R t now) rows st) = pg_messages st"
  by (induction rows arbitrary: st) simp_all

text \<open>The upsert on the table of messages alone.\<close>

definition upserted ::
  "row_env \<Rightarrow> qstring \<Rightarrow> int \<Rightarrow> SyncMessageRow \<Rightarrow> ((qstring \<times> qstring) \<times> pg_message) list
    \<Rightarrow> ((qstring \<times> qstring) \<times> pg_message) list" where
  "upserted R t now row ms = pg_messages (upsert_message R t now row \<lparr>pg_messages = ms, pg_events = [], pg_stamps = []\<rparr>)"

lemma upsert_message_messages: "pg_messages (upsert_message R t now row st) = upserted R t now row (pg_messages st)"
  by (simp add: upserted_def upsert_message_def Let_def)

lemma fold_upsert_messages:
  "pg_messages (fold (upsert_message R t now) rows st) = fold (upserted R t now) rows (pg_messages st)"
  by (induction rows arbitrary: st) (simp_all add: upsert_message_messages)

lemma upserted_other: "k \<noteq> (t, row_contentHash row) \<Longrightarrow> map_of (upserted R t now row ms) k = map_of ms k"
  by (simp add: upserted_def upsert_message_def Let_def update_conv')

text \<open>What the table of messages should hold for a row, given what it held before.\<close>

definition holds_row :: "row_env \<Rightarrow> int \<Rightarrow> SyncMessageRow \<Rightarrow> pg_message option \<Rightarrow> pg_message \<Rightarrow> bool" where
  "holds_row R now row old p \<longleftrightarrow>
    pg_payload p = sy_toBase64 (re_sync R) (row_payload row) \<and> pg_updatedAt p = now
    \<and> pg_editDate p = row_editDate row
    \<and> pg_deleted p = (row_deleted row \<or> (\<exists>q. old = Some q \<and> pg_deleted q))
    \<and> pg_edited p = (row_edited row \<or> (\<exists>q. old = Some q \<and> pg_edited q))
    \<and> (pg_chat p, pg_account p, pg_mid p, pg_date p)
      = (case old of None \<Rightarrow> (row_chatIdH row, row_accountIdH row, row_messageIdH row, row_date row)
         | Some q \<Rightarrow> (pg_chat q, pg_account q, pg_mid q, pg_date q))"

lemma upserted_self:
  "\<exists>p. map_of (upserted R t now row ms) (t, row_contentHash row) = Some p
    \<and> holds_row R now row (map_of ms (t, row_contentHash row)) p"
  by (auto simp: upserted_def upsert_message_def fresh_message_def merge_message_def holds_row_def Let_def
      update_conv' split: option.split)

lemma fold_upserted_other:
  "\<forall>row \<in> set rows. k \<noteq> (t, row_contentHash row) \<Longrightarrow> map_of (fold (upserted R t now) rows ms) k = map_of ms k"
  by (induction rows arbitrary: ms) (simp_all add: upserted_other)

lemma fold_upserted_self:
  assumes "distinct (map row_contentHash rows)" and "row \<in> set rows"
  shows "\<exists>p. map_of (fold (upserted R t now) rows ms) (t, row_contentHash row) = Some p
    \<and> holds_row R now row (map_of ms (t, row_contentHash row)) p"
  using assms
proof (induction rows arbitrary: ms)
  case (Cons r rows)
  show ?case
  proof (cases "row = r")
    case True
    then have "\<forall>r' \<in> set rows. (t, row_contentHash row) \<noteq> (t, row_contentHash r')"
      using Cons.prems(1) by force
    from fold_upserted_other [OF this] show ?thesis using upserted_self True by simp
  next
    case False
    then have "row_contentHash row \<in> row_contentHash ` set rows" using Cons.prems(2) by simp
    then have "row_contentHash row \<noteq> row_contentHash r" using Cons.prems(1) by auto
    then have "map_of (upserted R t now r ms) (t, row_contentHash row) = map_of ms (t, row_contentHash row)"
      by (intro upserted_other) simp
    moreover have "distinct (map row_contentHash rows)" and "row \<in> set rows" using Cons.prems False by simp_all
    ultimately show ?thesis using Cons.IH [of "upserted R t now r ms"] by simp
  qed
qed simp

text \<open>The inserts on the table of events alone; the first event of a key stays.\<close>

definition event_list :: "SyncMessageRow list \<Rightarrow> (SyncMessageRow \<times> string) list" where
  "event_list rows = concat (map (\<lambda>row. map (Pair row) (event_types row)) rows)"

definition evented ::
  "row_env \<Rightarrow> qstring \<Rightarrow> int \<Rightarrow> SyncMessageRow \<times> string \<Rightarrow> ((qstring \<times> qstring \<times> string) \<times> pg_event) list
    \<Rightarrow> ((qstring \<times> qstring \<times> string) \<times> pg_event) list" where
  "evented R t now e es =
    pg_events (insert_event R t now (fst e) (snd e) \<lparr>pg_messages = [], pg_events = es, pg_stamps = []\<rparr>)"

lemma insert_event_events:
  "pg_events (insert_event R t now row typ st) = evented R t now (row, typ) (pg_events st)"
  by (simp add: evented_def insert_event_def Let_def split: option.split)

lemma fold_insert_events_events:
  "pg_events (fold (insert_events R t now) rows st) = fold (evented R t now) (event_list rows) (pg_events st)"
proof -
  have one: "pg_events (fold (insert_event R t now row) ts u) = fold (evented R t now) (map (Pair row) ts) (pg_events u)"
    for row ts u by (induction ts arbitrary: u) (simp_all add: insert_event_events)
  show ?thesis
    by (induction rows arbitrary: st) (simp_all add: event_list_def insert_events_def one)
qed

lemma fold_insert_events_stamps: "pg_stamps (fold (insert_events R t now) rows st) = pg_stamps st"
proof -
  have "pg_stamps (fold (insert_event R t now row) ts u) = pg_stamps u" for row ts u
    by (induction ts arbitrary: u) simp_all
  then show ?thesis by (induction rows arbitrary: st) (simp_all add: insert_events_def)
qed

lemma fold_upsert_other_tables:
  "pg_events (fold (upsert_message R t now) rows st) = pg_events st"
  "pg_stamps (fold (upsert_message R t now) rows st) = pg_stamps st"
  by (induction rows arbitrary: st) simp_all

definition event_of :: "row_env \<Rightarrow> int \<Rightarrow> SyncMessageRow \<Rightarrow> pg_event" where
  "event_of R now row = \<lparr>ev_chat = row_chatIdH row, ev_account = row_accountIdH row, ev_mid = row_messageIdH row,
    ev_payload = sy_toBase64 (re_sync R) (row_payload row), ev_createdAt = now\<rparr>"

lemma map_of_evented:
  "map_of (evented R t now e es) k =
    (if k = (t, row_contentHash (fst e), snd e) \<and> map_of es k = None then Some (event_of R now (fst e)) else map_of es k)"
  by (auto simp: evented_def insert_event_def event_of_def Let_def map_add_def split: option.split)

lemma map_of_fold_evented:
  "map_of (fold (evented R t now) es l) k =
    (case map_of l k of
       Some e \<Rightarrow> Some e
     | None \<Rightarrow> map_option (\<lambda>e. event_of R now (fst e)) (find (\<lambda>e. k = (t, row_contentHash (fst e), snd e)) es))"
  by (induction es arbitrary: l) (auto simp: map_of_evented split: option.split)

section \<open>The batches together\<close>

lemma unseen_rows_append:
  "unseen_rows seen (xs @ ys) = unseen_rows seen xs @ unseen_rows (seen \<union> set (map row_contentHash xs)) ys"
proof (induction xs arbitrary: seen)
  case (Cons x xs)
  have "insert (row_contentHash x) seen \<union> set (map row_contentHash xs) = seen \<union> set (map row_contentHash (x # xs))"
    by auto
  then show ?case using Cons [of seen] Cons [of "insert (row_contentHash x) seen"] by (auto simp: insert_absorb)
qed simp

lemma unseen_rows_subset: "set (unseen_rows seen rows) \<subseteq> set rows"
  by (induction rows arbitrary: seen) auto

lemma unseen_rows_distinct:
  "distinct (map row_contentHash (unseen_rows seen rows)) \<and> row_contentHash ` set (unseen_rows seen rows) \<inter> seen = {}"
proof (induction rows arbitrary: seen)
  case (Cons r rows)
  show ?case using Cons [of seen] Cons [of "insert (row_contentHash r) seen"] by auto
qed simp

lemma unseen_rows_complete:
  "row_contentHash ` set (unseen_rows seen rows) = row_contentHash ` set rows - seen"
proof (induction rows arbitrary: seen)
  case (Cons r rows)
  show ?case using Cons [of seen] Cons [of "insert (row_contentHash r) seen"] by auto
qed simp

text \<open>The row of a hash that is sent is the first one with it.\<close>

lemma find_unseen:
  "find (\<lambda>r. row_contentHash r = h) (unseen_rows seen rows) =
    (if h \<in> seen then None else find (\<lambda>r. row_contentHash r = h) rows)"
  by (induction rows arbitrary: seen) auto

lemma find_app: "find P (xs @ ys) = (case find P xs of None \<Rightarrow> find P ys | Some x \<Rightarrow> Some x)"
  by (induction xs) simp_all

lemma find_is: "find P xs = Some x \<Longrightarrow> x \<in> set xs"
  by (induction xs) (auto split: if_splits)

lemma find_holds: "find P xs = Some x \<Longrightarrow> P x"
  by (induction xs) (auto split: if_splits)

lemma find_event:
  assumes "distinct (map row_contentHash rows)"
  shows "find (\<lambda>e. (h, typ) = (row_contentHash (fst e), snd e)) (event_list rows) =
    (case find (\<lambda>r. row_contentHash r = h) rows of
       None \<Rightarrow> None | Some row \<Rightarrow> if typ \<in> set (event_types row) then Some (row, typ) else None)"
  using assms
proof (induction rows)
  case (Cons r rows)
  have one: "find (\<lambda>e. (h, typ) = (row_contentHash (fst e), snd e)) (map (Pair r) ts)
      = (if row_contentHash r = h \<and> typ \<in> set ts then Some (r, typ) else None)" for ts
    by (induction ts) auto
  have none: "find (\<lambda>x. row_contentHash x = h) rows = None" if "row_contentHash r = h"
    using Cons.prems that by (auto simp: find_None_iff image_iff)
  have "event_list (r # rows) = map (Pair r) (event_types r) @ event_list rows" by (simp add: event_list_def)
  then show ?case using Cons one none by (auto simp: find_app split: option.split)
qed (simp add: event_list_def)

text \<open>What the three tables should hold after an upload.\<close>

definition messages_uploaded :: "row_env \<Rightarrow> qstring \<Rightarrow> int \<Rightarrow> SyncMessageRow list \<Rightarrow> pg_state \<Rightarrow> pg_state \<Rightarrow> bool" where
  "messages_uploaded R tenant now rows st st' \<longleftrightarrow> (\<forall>t h.
    case (if t = tenant then find (\<lambda>r. row_contentHash r = h) rows else None) of
      None \<Rightarrow> map_of (pg_messages st') (t, h) = map_of (pg_messages st) (t, h)
    | Some row \<Rightarrow> \<exists>p. map_of (pg_messages st') (t, h) = Some p
        \<and> holds_row R now row (map_of (pg_messages st) (t, h)) p)"

definition events_uploaded :: "row_env \<Rightarrow> qstring \<Rightarrow> int \<Rightarrow> SyncMessageRow list \<Rightarrow> pg_state \<Rightarrow> pg_state \<Rightarrow> bool" where
  "events_uploaded R tenant now rows st st' \<longleftrightarrow> (\<forall>t h typ.
    map_of (pg_events st') (t, h, typ) =
      (case map_of (pg_events st) (t, h, typ) of
         Some e \<Rightarrow> Some e
       | None \<Rightarrow>
           (case (if t = tenant then find (\<lambda>r. row_contentHash r = h) rows else None) of
              None \<Rightarrow> None
            | Some row \<Rightarrow>
                if typ = ''created'' \<or> typ = ''deleted'' \<and> row_deleted row \<or> typ = ''edited'' \<and> row_edited row
                then Some (event_of R now row) else None)))"

definition stamp_uploaded ::
  "row_env \<Rightarrow> qstring \<Rightarrow> int \<Rightarrow> int \<Rightarrow> SyncMessageRow list \<Rightarrow> pg_state \<Rightarrow> pg_state \<Rightarrow> bool" where
  "stamp_uploaded R tenant now revision rows st st' \<longleftrightarrow> (\<forall>t.
    map_of (pg_stamps st') t =
      (if t \<noteq> tenant \<or> (\<exists>q. map_of (pg_stamps st) t = Some q \<and> revision < st_revision q)
       then map_of (pg_stamps st) t
       else Some \<lparr>st_revision = revision, st_updatedAt = now,
         st_sha256 = to_hex (sy_sha256 (re_sync R) (stamp_material R rows)),
         st_dateFrom = Min (row_date ` set rows), st_dateTo = Max (row_date ` set rows)\<rparr>))"

definition uploaded ::
  "row_env \<Rightarrow> qstring \<Rightarrow> int \<Rightarrow> int \<Rightarrow> SyncMessageRow list \<Rightarrow> pg_state \<Rightarrow> pg_state \<Rightarrow> bool" where
  "uploaded R tenant now revision rows st st' \<longleftrightarrow> messages_uploaded R tenant now rows st st'
    \<and> events_uploaded R tenant now rows st st' \<and> stamp_uploaded R tenant now revision rows st st'"

lemma messages_of_upload:
  assumes "pg_messages st' = fold (upserted R t now) (unseen_rows {} rows) (pg_messages st)"
  shows "messages_uploaded R t now rows st st'"
  unfolding messages_uploaded_def
proof (intro allI)
  fix t' h
  let ?sent = "unseen_rows {} rows"
  have find: "find (\<lambda>r. row_contentHash r = h) ?sent = find (\<lambda>r. row_contentHash r = h) rows"
    by (simp add: find_unseen)
  have dist: "distinct (map row_contentHash ?sent)" using unseen_rows_distinct by blast
  show "case (if t' = t then find (\<lambda>r. row_contentHash r = h) rows else None) of
      None \<Rightarrow> map_of (pg_messages st') (t', h) = map_of (pg_messages st) (t', h)
    | Some row \<Rightarrow> \<exists>p. map_of (pg_messages st') (t', h) = Some p
        \<and> holds_row R now row (map_of (pg_messages st) (t', h)) p"
  proof (cases "if t' = t then find (\<lambda>r. row_contentHash r = h) rows else None")
    case None
    then have "\<forall>r \<in> set ?sent. (t', h) \<noteq> (t, row_contentHash r)"
      using find by (auto simp: find_None_iff split: if_splits)
    from fold_upserted_other [OF this] show ?thesis unfolding None assms by simp
  next
    case (Some row)
    then have t: "t' = t" and f: "find (\<lambda>r. row_contentHash r = h) ?sent = Some row"
      using find by (simp_all split: if_splits)
    have "row \<in> set ?sent" and "row_contentHash row = h" by (rule find_is [OF f]) (rule find_holds [OF f])
    with t fold_upserted_self [OF dist, of row R t now "pg_messages st"] show ?thesis
      unfolding Some assms by simp
  qed
qed

lemma events_of_upload:
  assumes "pg_events st' = fold (evented R t now) (event_list (unseen_rows {} rows)) (pg_events st)"
  shows "events_uploaded R t now rows st st'"
proof -
  let ?sent = "unseen_rows {} rows"
  have dist: "distinct (map row_contentHash ?sent)" using unseen_rows_distinct by blast
  have "find (\<lambda>e. (t', h, y) = (t, row_contentHash (fst e), snd e)) (event_list ?sent) =
      (case (if t' = t then find (\<lambda>r. row_contentHash r = h) rows else None) of
         None \<Rightarrow> None | Some row \<Rightarrow> if y \<in> set (event_types row) then Some (row, y) else None)" for t' h y
  proof (cases "t' = t")
    case True
    then show ?thesis using find_event [OF dist, of h y] by (simp add: find_unseen)
  next
    case False
    then show ?thesis by (simp add: find_None_iff)
  qed
  note f = this
  show ?thesis
    unfolding events_uploaded_def assms map_of_fold_evented f
    by (auto simp: event_types_def split: option.split)
qed

lemma stamp_of_upload:
  "stamp_uploaded R t now revision rows st (upsert_stamp t
    \<lparr>st_revision = revision, st_updatedAt = now,
     st_sha256 = to_hex (sy_sha256 (re_sync R) (stamp_material R rows)),
     st_dateFrom = Min (set (map row_date rows)), st_dateTo = Max (set (map row_date rows))\<rparr> st)"
  by (auto simp: stamp_uploaded_def upsert_stamp_def update_conv' split: option.split)

section \<open>The transaction\<close>

lemma next_answer_fields [simp]:
  "pc_stored (snd (next_answer c)) = pc_stored c" "pc_open (snd (next_answer c)) = pc_open c"
  "pc_aborted (snd (next_answer c)) = pc_aborted c"
  by (simp_all add: next_answer_def split: list.split)

lemma next_answer_set:
  "set (pc_answers (snd (next_answer c))) \<subseteq> set (pc_answers c)"
  "fst (next_answer c) \<Longrightarrow> \<exists>b \<in> set (pc_answers c). b"
  by (auto simp: next_answer_def split: list.splits)

text \<open>Nothing is stored as long as a transaction is open, or the connection is lost.\<close>

definition guarded :: "pg_conn \<Rightarrow> bool" where
  "guarded c \<longleftrightarrow> pc_open c \<noteq> None \<or> (\<forall>b \<in> set (pc_answers c). \<not> b)"

lemma pg_exec_eq:
  "pg_exec f c =
    (let taken = fst (next_answer c); c = snd (next_answer c) in
     case pc_open c of
       None \<Rightarrow>
         (case (if taken then f (pc_stored c) else None) of
            None \<Rightarrow> (False, c) | Some st \<Rightarrow> (True, c\<lparr>pc_stored := st\<rparr>))
     | Some work \<Rightarrow>
         if pc_aborted c then (False, c)
         else (case (if taken then f work else None) of
                 None \<Rightarrow> (False, c\<lparr>pc_aborted := True\<rparr>) | Some work \<Rightarrow> (True, c\<lparr>pc_open := Some work\<rparr>)))"
  by (simp add: pg_exec_def case_prod_unfold Let_def)

lemma pg_exec_guarded:
  assumes "guarded c"
  shows "guarded (snd (pg_exec f c)) \<and> pc_stored (snd (pg_exec f c)) = pc_stored c
    \<and> (pc_open (snd (pg_exec f c)) = None \<longleftrightarrow> pc_open c = None)"
proof (cases "pc_open c")
  case None
  then have "\<not> fst (next_answer c)" using assms next_answer_set(2) by (auto simp: guarded_def)
  then show ?thesis
    using None assms next_answer_set(1) [of c] by (auto simp: pg_exec_eq guarded_def)
next
  case (Some work)
  then show ?thesis by (auto simp: pg_exec_eq guarded_def Let_def split: option.split)
qed

lemma pg_exec_works:
  assumes "pg_exec f c = (True, c')" and "guarded c"
  obtains w w' where "pc_open c = Some w" and "\<not> pc_aborted c" and "f w = Some w'" and "pc_open c' = Some w'"
    and "\<not> pc_aborted c'"
proof (cases "pc_open c")
  case None
  then have "\<not> fst (next_answer c)" using assms(2) next_answer_set(2) by (auto simp: guarded_def)
  then show thesis using None assms(1) by (simp add: pg_exec_eq)
next
  case (Some w)
  then show thesis
    using assms(1) that by (auto simp: pg_exec_eq Let_def split: if_splits option.splits)
qed

text \<open>The working copy after some rows were sent.\<close>

definition sent_rows :: "row_env \<Rightarrow> qstring \<Rightarrow> int \<Rightarrow> SyncMessageRow list \<Rightarrow> pg_state \<Rightarrow> pg_state \<Rightarrow> bool" where
  "sent_rows R t now sent w w' \<longleftrightarrow>
    pg_messages w' = fold (upserted R t now) sent (pg_messages w)
    \<and> pg_events w' = fold (evented R t now) (event_list sent) (pg_events w) \<and> pg_stamps w' = pg_stamps w"

lemma sent_rows_append: "sent_rows R t now a w w1 \<Longrightarrow> sent_rows R t now b w1 w2 \<Longrightarrow> sent_rows R t now (a @ b) w w2"
  by (simp add: sent_rows_def event_list_def)

lemma sent_rows_none: "sent_rows R t now [] w w"
  by (simp add: sent_rows_def event_list_def)

lemma insert_messages_sent:
  "sent_rows R t now sent w (fold (insert_events R t now) sent (fold (upsert_message R t now) sent w))"
  by (simp add: sent_rows_def fold_insert_events_events fold_insert_events_stamps fold_upsert_messages
      fold_upsert_other_tables)

lemma upload_batch_guarded:
  assumes "guarded (up_conn u)"
  shows "guarded (up_conn (snd (upload_batch R t now stop batch u)))
    \<and> pc_stored (up_conn (snd (upload_batch R t now stop batch u))) = pc_stored (up_conn u)
    \<and> (pc_open (up_conn (snd (upload_batch R t now stop batch u))) = None \<longleftrightarrow> pc_open (up_conn u) = None)"
proof -
  let ?a = "pg_exec (insert_messages R t now (unseen_rows (up_seen u) batch)) (up_conn u)"
  let ?b = "pg_exec (\<lambda>st. Some (fold (insert_events R t now) (unseen_rows (up_seen u) batch) st)) (snd ?a)"
  have "up_conn (snd (upload_batch R t now stop batch u)) \<in> {up_conn u, snd ?a, snd ?b}"
    by (simp add: upload_batch_def Let_def case_prod_unfold)
  then show ?thesis
    using pg_exec_guarded [OF assms] pg_exec_guarded [of "snd ?a"] assms by fastforce
qed

lemma upload_batch_works:
  assumes "upload_batch R t now stop batch u = (True, u')" and "guarded (up_conn u)"
  shows "up_seen u' = up_seen u \<union> set (map row_contentHash batch)"
    and "pc_open (up_conn u) = Some w \<Longrightarrow> \<not> pc_aborted (up_conn u) \<Longrightarrow>
      \<exists>w'. pc_open (up_conn u') = Some w' \<and> \<not> pc_aborted (up_conn u')
        \<and> sent_rows R t now (unseen_rows (up_seen u) batch) w w'"
proof -
  let ?sent = "unseen_rows (up_seen u) batch"
  show "up_seen u' = up_seen u \<union> set (map row_contentHash batch)"
    using assms(1) by (auto simp: upload_batch_def Let_def split: if_splits prod.splits)
  assume w: "pc_open (up_conn u) = Some w" "\<not> pc_aborted (up_conn u)"
  show "\<exists>w'. pc_open (up_conn u') = Some w' \<and> \<not> pc_aborted (up_conn u') \<and> sent_rows R t now ?sent w w'"
  proof (cases "?sent = []")
    case True
    then show ?thesis using assms(1) w sent_rows_none by (auto simp: upload_batch_def Let_def)
  next
    case False
    let ?E = "\<lambda>st. Some (fold (insert_events R t now) ?sent st)"
    obtain c1 where one: "pg_exec (insert_messages R t now ?sent) (up_conn u) = (True, c1)"
      and two: "pg_exec ?E c1 = (True, up_conn u')"
      using assms(1) False by (auto simp: upload_batch_def Let_def split: prod.splits if_splits)
    have g1: "guarded c1" using pg_exec_guarded [OF assms(2), of "insert_messages R t now ?sent"] one by simp
    obtain w1 where w1: "insert_messages R t now ?sent w = Some w1" "pc_open c1 = Some w1"
      by (rule pg_exec_works [OF one assms(2)]) (use w in simp)
    obtain w2 where w2: "?E w1 = Some w2" "pc_open (up_conn u') = Some w2" "\<not> pc_aborted (up_conn u')"
      by (rule pg_exec_works [OF two g1]) (use w1 in simp)
    have "w1 = fold (upsert_message R t now) ?sent w"
      using w1(1) by (simp add: insert_messages_def split: if_splits)
    then show ?thesis using w2 insert_messages_sent by auto
  qed
qed

lemma upload_batches_step:
  assumes "rows \<noteq> []"
  defines "b \<equiv> take kUploadBatch rows"
  shows "upload_batches R t now start rows u =
    (let r = upload_batch R t now (start + length b) b u
     in if fst r then upload_batches R t now (start + length b) (drop kUploadBatch rows) (snd r) else (False, snd r))"
  using assms by (simp add: upload_batches.simps [of R t now start rows] Let_def case_prod_unfold)

lemma fewer_rows: "rows \<noteq> [] \<Longrightarrow> length (drop kUploadBatch rows) < length rows"
  by (simp add: kUploadBatch_def)

lemma upload_batches_guarded:
  assumes "guarded (up_conn u)"
  shows "guarded (up_conn (snd (upload_batches R t now start rows u)))
    \<and> pc_stored (up_conn (snd (upload_batches R t now start rows u))) = pc_stored (up_conn u)
    \<and> (pc_open (up_conn (snd (upload_batches R t now start rows u))) = None \<longleftrightarrow> pc_open (up_conn u) = None)"
  using assms
proof (induction "length rows" arbitrary: start rows u rule: less_induct)
  case less
  show ?case
  proof (cases "rows = []")
    case True
    then show ?thesis using less.prems by (simp add: upload_batches.simps)
  next
    case False
    let ?b = "take kUploadBatch rows"
    note one = upload_batch_guarded [OF less.prems, of R t now "start + length ?b" ?b]
    from less.hyps [OF fewer_rows [OF False], of "snd (upload_batch R t now (start + length ?b) ?b u)"
        "start + length ?b"] one
    show ?thesis by (simp add: upload_batches_step [OF False] Let_def)
  qed
qed

lemma upload_batches_works:
  assumes "upload_batches R t now start rows u = (True, u')" and "guarded (up_conn u)"
    and "pc_open (up_conn u) = Some w" and "\<not> pc_aborted (up_conn u)"
  shows "\<exists>w'. pc_open (up_conn u') = Some w' \<and> \<not> pc_aborted (up_conn u')
    \<and> sent_rows R t now (unseen_rows (up_seen u) rows) w w'"
  using assms
proof (induction "length rows" arbitrary: start rows u w rule: less_induct)
  case less
  show ?case
  proof (cases "rows = []")
    case True
    then show ?thesis using less.prems sent_rows_none by (simp add: upload_batches.simps)
  next
    case False
    let ?b = "take kUploadBatch rows"
    let ?r = "upload_batch R t now (start + length ?b) ?b u"
    have one: "?r = (True, snd ?r)"
      and rest: "upload_batches R t now (start + length ?b) (drop kUploadBatch rows) (snd ?r) = (True, u')"
      using less.prems(1) by (auto simp: upload_batches_step [OF False] Let_def prod_eq_iff split: if_splits)
    have g: "guarded (up_conn (snd ?r))" using upload_batch_guarded [OF less.prems(2)] by blast
    from upload_batch_works(2) [OF one less.prems(2-4)] obtain w1
      where w1: "pc_open (up_conn (snd ?r)) = Some w1" "\<not> pc_aborted (up_conn (snd ?r))"
        "sent_rows R t now (unseen_rows (up_seen u) ?b) w w1" by blast
    from less.hyps [OF fewer_rows [OF False] rest g w1(1,2)] obtain w2
      where w2: "pc_open (up_conn u') = Some w2" "\<not> pc_aborted (up_conn u')"
        "sent_rows R t now (unseen_rows (up_seen (snd ?r)) (drop kUploadBatch rows)) w1 w2" by blast
    have "unseen_rows (up_seen u) rows = unseen_rows (up_seen u) ?b
        @ unseen_rows (up_seen (snd ?r)) (drop kUploadBatch rows)"
      using unseen_rows_append [of "up_seen u" ?b "drop kUploadBatch rows"] upload_batch_works(1) [OF one less.prems(2)]
      by simp
    then show ?thesis using w2 sent_rows_append [OF w1(3) w2(3)] by simp
  qed
qed

text \<open>The stamp that an upload writes.\<close>

definition stamp_of :: "row_env \<Rightarrow> int \<Rightarrow> int \<Rightarrow> SyncMessageRow list \<Rightarrow> pg_stamp" where
  "stamp_of R now revision rows =
    \<lparr>st_revision = revision, st_updatedAt = now,
     st_sha256 = to_hex (sy_sha256 (re_sync R) (stamp_material R rows)),
     st_dateFrom = Min (set (map row_date rows)), st_dateTo = Max (set (map row_date rows))\<rparr>"

lemma uploaded_tables:
  assumes "sent_rows R t now (unseen_rows {} rows) st w"
  shows "uploaded R t now revision rows st (upsert_stamp t (stamp_of R now revision rows) w)"
proof -
  let ?w = "upsert_stamp t (stamp_of R now revision rows) w"
  have "pg_messages ?w = pg_messages w" "pg_events ?w = pg_events w"
    by (simp_all add: upsert_stamp_def split: option.split)
  then have "messages_uploaded R t now rows st ?w" and "events_uploaded R t now rows st ?w"
    using assms by (auto simp: sent_rows_def intro!: messages_of_upload events_of_upload)
  moreover have "stamp_uploaded R t now revision rows st ?w"
  proof -
    have same: "pg_stamps w = pg_stamps st" using assms by (simp add: sent_rows_def)
    show ?thesis
      using stamp_of_upload [of R t now revision rows w] unfolding stamp_uploaded_def stamp_of_def same .
  qed
  ultimately show ?thesis by (simp add: uploaded_def)
qed

text \<open>A connection that takes BEGIN, or takes nothing: BEGIN fails only when it is lost.\<close>

definition begin_taken :: "pg_conn \<Rightarrow> bool" where
  "begin_taken c \<longleftrightarrow> fst (next_answer c) \<or> (\<forall>b \<in> set (pc_answers c). \<not> b)"

lemma pg_begin_cases:
  assumes "begin_taken c" and "pc_open c = None"
  shows "guarded (pg_begin c)" and "pc_stored (pg_begin c) = pc_stored c"
    and "pc_open (pg_begin c) = None \<or> pc_open (pg_begin c) = Some (pc_stored c) \<and> \<not> pc_aborted (pg_begin c)"
  using assms next_answer_set [of c]
  by (auto simp: pg_begin_def guarded_def begin_taken_def case_prod_unfold Let_def)

lemma pg_rollback_fields [simp]:
  "pc_stored (pg_rollback c) = pc_stored c" "pc_open (pg_rollback c) = None"
  by (simp_all add: pg_rollback_def case_prod_unfold Let_def)

lemma pg_commit_stored:
  assumes "pc_open c = Some w" and "\<not> pc_aborted c"
  shows "pc_open (pg_commit c) = None"
    and "pc_stored (pg_commit c) = (if fst (next_answer c) then w else pc_stored c)"
  using assms by (simp_all add: pg_commit_def case_prod_unfold Let_def)

lemma DoUploadMessages_eq:
  assumes "rows \<noteq> []"
  shows "DoUploadMessages R t now revision rows c =
    (let r = upload_batches R t now 0 rows \<lparr>up_conn = pg_begin c, up_seen = {}, up_progress = []\<rparr>;
         s = pg_exec (\<lambda>st. Some (upsert_stamp t (stamp_of R now revision rows) st)) (up_conn (snd r))
     in if \<not> fst r then (False, pg_rollback (up_conn (snd r)))
        else if \<not> fst s then (False, pg_rollback (snd s)) else (True, pg_commit (snd s)))"
  using assms by (simp add: DoUploadMessages_def DoUpdateStamp_def stamp_of_def case_prod_unfold Let_def)

lemma upload_shape:
  assumes up: "DoUploadMessages R t now revision rows c = (ok, c')" and rows: "rows \<noteq> []"
    and c: "pc_open c = None" "begin_taken c"
  shows "pc_open c' = None \<and> (pc_stored c' = pc_stored c
    \<or> ok \<and> uploaded R t now revision rows (pc_stored c) (pc_stored c'))"
proof -
  let ?r = "upload_batches R t now 0 rows \<lparr>up_conn = pg_begin c, up_seen = {}, up_progress = []\<rparr>"
  let ?f = "\<lambda>st. Some (upsert_stamp t (stamp_of R now revision rows) st)"
  let ?s = "pg_exec ?f (up_conn (snd ?r))"
  note b = pg_begin_cases [OF c(2,1)]
  have "guarded (up_conn (snd ?r)) \<and> pc_stored (up_conn (snd ?r)) = pc_stored c
      \<and> (pc_open (up_conn (snd ?r)) = None \<longleftrightarrow> pc_open (pg_begin c) = None)"
    using upload_batches_guarded [of "\<lparr>up_conn = pg_begin c, up_seen = {}, up_progress = []\<rparr>" R t now 0 rows] b
    by simp
  then have g: "guarded (up_conn (snd ?r))" "pc_stored (up_conn (snd ?r)) = pc_stored c"
    "pc_open (up_conn (snd ?r)) = None \<longleftrightarrow> pc_open (pg_begin c) = None" by blast+
  note s = pg_exec_guarded [OF g(1), of ?f]
  consider (refused) "\<not> fst ?r \<or> \<not> fst ?s" | (sent) "fst ?r" "fst ?s" by blast
  then show ?thesis
  proof cases
    case refused
    then show ?thesis
      using up g(2) s by (auto simp: DoUploadMessages_eq [OF rows] Let_def split: if_splits)
  next
    case sent
    then have s1: "?s = (True, snd ?s)" and r1: "?r = (True, snd ?r)" by (simp_all add: prod_eq_iff)
    obtain w1 w2 where w: "pc_open (up_conn (snd ?r)) = Some w1" "?f w1 = Some w2" "pc_open (snd ?s) = Some w2"
      "\<not> pc_aborted (snd ?s)"
      by (rule pg_exec_works [OF s1 g(1)])
    then have "pc_open (pg_begin c) = Some (pc_stored c) \<and> \<not> pc_aborted (pg_begin c)" using g(3) b(3) by auto
    then obtain w0 where "pc_open (up_conn (snd ?r)) = Some w0"
      "sent_rows R t now (unseen_rows {} rows) (pc_stored c) w0"
      using upload_batches_works [OF r1] b(1) by auto
    then have "uploaded R t now revision rows (pc_stored c) w2"
      using w uploaded_tables by auto
    moreover have "ok" and "c' = pg_commit (snd ?s)"
      using up sent by (auto simp: DoUploadMessages_eq [OF rows] Let_def)
    ultimately show ?thesis
      using pg_commit_stored [OF w(3,4)] s g(2) by simp
  qed
qed

text \<open>A server that accepts everything.\<close>

definition accepting :: "nat \<Rightarrow> pg_conn \<Rightarrow> bool" where
  "accepting n c \<longleftrightarrow> (\<forall>b \<in> set (pc_answers c). b) \<and> n \<le> length (pc_answers c)"

definition in_transaction :: "pg_conn \<Rightarrow> bool" where
  "in_transaction c \<longleftrightarrow> pc_open c \<noteq> None \<and> \<not> pc_aborted c"

lemma accepting_less: "accepting m c \<Longrightarrow> n \<le> m \<Longrightarrow> accepting n c"
  unfolding accepting_def by fastforce

lemma accepting_same: "pc_answers c' = pc_answers c \<Longrightarrow> accepting n c' = accepting n c"
  by (simp only: accepting_def)

lemma accepting_next:
  assumes "accepting (Suc n) c"
  shows "fst (next_answer c)" and "accepting n (snd (next_answer c))"
  using assms by (auto simp: accepting_def next_answer_def split: list.split)

lemma pg_exec_accepted:
  assumes "accepting (Suc n) c" and "in_transaction c" and "\<And>w. f w \<noteq> None"
  shows "fst (pg_exec f c)" and "accepting n (snd (pg_exec f c))" and "in_transaction (snd (pg_exec f c))"
proof -
  obtain w where w: "pc_open c = Some w" "\<not> pc_aborted c" using assms(2) by (auto simp: in_transaction_def)
  obtain w' where "f w = Some w'" using assms(3) by blast
  then have "pg_exec f c = (True, (snd (next_answer c))\<lparr>pc_open := Some w'\<rparr>)"
    using w accepting_next(1) [OF assms(1)] by (simp add: pg_exec_eq Let_def)
  then show "fst (pg_exec f c)" and "accepting n (snd (pg_exec f c))" and "in_transaction (snd (pg_exec f c))"
    using w accepting_next(2) [OF assms(1)] by (simp_all add: in_transaction_def accepting_same [of "(snd (next_answer c))\<lparr>pc_open := Some w'\<rparr>"])
qed

lemma upload_batch_accepted:
  assumes "accepting (Suc (Suc n)) (up_conn u)" and "in_transaction (up_conn u)"
  shows "fst (upload_batch R t now stop batch u)"
    and "accepting n (up_conn (snd (upload_batch R t now stop batch u)))"
    and "in_transaction (up_conn (snd (upload_batch R t now stop batch u)))"
proof -
  have "insert_messages R t now (unseen_rows (up_seen u) batch) w \<noteq> None" for w
    using unseen_rows_distinct [of "up_seen u" batch] by (simp add: insert_messages_def)
  note a = pg_exec_accepted [OF assms this]
  note b = pg_exec_accepted [OF a(2,3), of "\<lambda>st. Some (fold (insert_events R t now) (unseen_rows (up_seen u) batch) st)"]
  have "accepting n (up_conn u)" by (rule accepting_less [OF assms(1)]) simp
  then show "fst (upload_batch R t now stop batch u)"
    and "accepting n (up_conn (snd (upload_batch R t now stop batch u)))"
    and "in_transaction (up_conn (snd (upload_batch R t now stop batch u)))"
    using a b assms(2) by (simp_all add: upload_batch_def case_prod_unfold Let_def)
qed

lemma upload_batches_accepted:
  assumes "accepting (2 * length rows + n) (up_conn u)" and "in_transaction (up_conn u)"
  shows "fst (upload_batches R t now start rows u)
    \<and> accepting n (up_conn (snd (upload_batches R t now start rows u)))
    \<and> in_transaction (up_conn (snd (upload_batches R t now start rows u)))"
  using assms
proof (induction "length rows" arbitrary: start rows u rule: less_induct)
  case less
  show ?case
  proof (cases "rows = []")
    case True
    then show ?thesis using less.prems by (simp add: upload_batches.simps)
  next
    case False
    let ?b = "take kUploadBatch rows"
    let ?rest = "drop kUploadBatch rows"
    have "accepting (Suc (Suc (2 * length ?rest + n))) (up_conn u)"
      by (rule accepting_less [OF less.prems(1)]) (use fewer_rows [OF False] in linarith)
    note one = upload_batch_accepted [OF this less.prems(2), of R t now "start + length ?b" ?b]
    from less.hyps [OF fewer_rows [OF False] one(2,3), of "start + length ?b"] one(1)
    show ?thesis by (simp add: upload_batches_step [OF False] Let_def)
  qed
qed

lemma upload_accepted:
  assumes "accepting (2 * length rows + 3) c" and "pc_open c = None" and "rows \<noteq> []"
  shows "fst (DoUploadMessages R t now revision rows c)
    \<and> (\<exists>w. sent_rows R t now (unseen_rows {} rows) (pc_stored c) w
      \<and> pc_stored (snd (DoUploadMessages R t now revision rows c))
        = upsert_stamp t (stamp_of R now revision rows) w)"
proof -
  let ?u = "\<lparr>up_conn = pg_begin c, up_seen = {}, up_progress = []\<rparr>"
  let ?r = "upload_batches R t now 0 rows ?u"
  let ?f = "\<lambda>st. Some (upsert_stamp t (stamp_of R now revision rows) st)"
  let ?s = "pg_exec ?f (up_conn (snd ?r))"
  have "accepting (Suc (2 * length rows + 2)) c" by (rule accepting_less [OF assms(1)]) simp
  note a = accepting_next [OF this]
  have opened: "pg_begin c = (snd (next_answer c))\<lparr>pc_open := Some (pc_stored c), pc_aborted := False\<rparr>"
    using a(1) assms(2) by (simp add: pg_begin_def case_prod_unfold Let_def)
  have "accepting (2 * length rows + Suc (Suc 0)) (up_conn ?u)" and "in_transaction (up_conn ?u)"
    using a(2) accepting_same [of "pg_begin c" "snd (next_answer c)"] by (simp_all add: opened in_transaction_def)
  note r = upload_batches_accepted [OF this, of R t now 0]
  have s: "fst ?s" "accepting (Suc 0) (snd ?s)" using pg_exec_accepted [of "Suc 0" "up_conn (snd ?r)" ?f] r by auto
  have r1: "?r = (True, snd ?r)" and s1: "?s = (True, snd ?s)" using r s by (simp_all add: prod_eq_iff)
  have g: "guarded (up_conn (snd ?r))" using r by (auto simp: guarded_def in_transaction_def)
  from upload_batches_works [OF r1, of "pc_stored c"] obtain w
    where w: "pc_open (up_conn (snd ?r)) = Some w" "sent_rows R t now (unseen_rows {} rows) (pc_stored c) w"
    by (auto simp: opened guarded_def)
  obtain w2 where w2: "pc_open (snd ?s) = Some w2" "\<not> pc_aborted (snd ?s)"
    "w2 = upsert_stamp t (stamp_of R now revision rows) w"
    by (rule pg_exec_works [OF s1 g]) (use w(1) in simp)
  have "DoUploadMessages R t now revision rows c = (True, pg_commit (snd ?s))"
    using r s by (simp add: DoUploadMessages_eq [OF assms(3)] Let_def)
  moreover have "pc_stored (pg_commit (snd ?s)) = w2"
    using pg_commit_stored(2) [OF w2(1,2)] accepting_next(1) [OF s(2)] by simp
  ultimately show ?thesis using w(2) w2(3) by auto
qed

text \<open>C34: An upload is all or nothing. Whatever statements the server refuses, the upload leaves
  no transaction open and the stored tables either exactly as they were or, and then it
  reports success, with everything it sent: under each content hash the payload, edit date and
  time of the first row with it, the flags joined with those the server had, the other
  columns as they were or from the row when it is new; one event of each kind for each row,
  unless it was there; the stamp of the tenant, unless a later revision is there; and nothing
  else changed, other tenants included. It stores everything when all statements are
  accepted. The connection starts outside a transaction and takes BEGIN, whose result the
  code does not look at, unless it is lost and takes nothing.\<close>

theorem upload_all_or_nothing:
  assumes "DoUploadMessages R tenant now revision rows c = (ok, c')"
    and "pc_open c = None" and "begin_taken c"
  shows "pc_open c' = None
    \<and> (pc_stored c' = pc_stored c \<or> ok \<and> uploaded R tenant now revision rows (pc_stored c) (pc_stored c'))
    \<and> (accepting (2 * length rows + 3) c \<and> rows \<noteq> [] \<longrightarrow>
        ok \<and> uploaded R tenant now revision rows (pc_stored c) (pc_stored c'))"
proof (cases "rows = []")
  case True
  then show ?thesis using assms by (simp add: DoUploadMessages_def)
next
  case False
  have "uploaded R tenant now revision rows (pc_stored c) (pc_stored c') \<and> ok"
    if "accepting (2 * length rows + 3) c"
    using upload_accepted [OF that assms(2) False, of R tenant now revision] assms(1) uploaded_tables by auto
  then show ?thesis using upload_shape [OF assms(1) False assms(2,3)] by blast
qed

section \<open>Back to a device\<close>

text \<open>A row that is read without a look at the key state.\<close>

definition plainly_read :: "row_env \<Rightarrow> bytes \<Rightarrow> SyncMessageRow \<Rightarrow> TfMessage \<Rightarrow> bool" where
  "plainly_read R key row m \<longleftrightarrow> (\<forall>f s. read_row R f key row s = (Some m, s))"

lemma plain_row_arrives:
  fixes f :: file_io
  assumes "row \<in> set rows" and "plainly_read R key row m" and "seen_ok a"
  defines "a' \<equiv> fold (apply_row R f key) rows a"
  shows "(row_deleted row \<longrightarrow> m_contentHash m \<in> m_contentHash ` set (db_deleted (ap_db a')))
    \<and> (row_edited row \<and> \<not> row_deleted row \<longrightarrow> m_contentHash m \<in> m_contentHash ` set (db_edited (ap_db a')))"
proof -
  have grows: "seenDeleted b \<subseteq> seenDeleted (fold (apply_row R f key) rs b)
      \<and> seenEdited b \<subseteq> seenEdited (fold (apply_row R f key) rs b)" for rs b
  proof (induction rs arbitrary: b)
    case (Cons r rs)
    from Cons [of "apply_row R f key r b"] show ?case
      using apply_row_grows(1,2) [of b R f key r] by auto
  qed simp
  obtain xs ys where rows: "rows = xs @ row # ys" using assms(1) by (meson split_list)
  let ?b = "fold (apply_row R f key) xs a"
  have "apply_row R f key row ?b = insert_row row m ?b"
    using assms(2) by (simp add: apply_row_eq plainly_read_def)
  moreover have "row_deleted row \<Longrightarrow> m_contentHash m \<in> seenDeleted (insert_row row m ?b)"
    and "row_edited row \<Longrightarrow> \<not> row_deleted row \<Longrightarrow> m_contentHash m \<in> seenEdited (insert_row row m ?b)"
    by (auto simp: insert_row_def)
  moreover have "a' = fold (apply_row R f key) ys (apply_row R f key row ?b)"
    by (simp add: a'_def rows)
  moreover have "seen_ok a'" unfolding a'_def by (rule apply_rows_seen [OF assms(3)])
  ultimately show ?thesis
    using grows [of "apply_row R f key row ?b" ys] unfolding seen_ok_def by auto
qed

lemma read_row_payload:
  "row_payload r = row_payload r' \<Longrightarrow> read_row R f key r s = read_row R f key r' s"
  by (simp add: read_row_def)

lemma downloaded_row_reads:
  assumes "text_laws (re_sync R)" and "plainly_read R key row m"
    and "pg_payload p = sy_toBase64 (re_sync R) (row_payload row)"
  shows "plainly_read R key (downloaded_row R h p) m"
proof -
  have "row_payload (downloaded_row R h p) = row_payload row"
    using assms(1,3) by (simp add: downloaded_row_def text_laws_def)
  from read_row_payload [OF this] show ?thesis using assms(2) by (simp add: plainly_read_def)
qed

lemma built_row_reads:
  assumes "row_laws R" "aead_laws (re_sync R)" and "sealable R nonces key m" and "m_contentHash m \<noteq> []"
  shows "plainly_read R key (BuildRow R (nonces i) m d e key) (m\<lparr>m_fakeId := 0\<rparr>)"
  using read_built_row [OF assms(1,2) _ assms(4), of "nonces i" d e key] assms(3)
  by (simp add: plainly_read_def sealable_def)

lemma downloaded_rows:
  "map_of (pg_messages st) (tenant, h) = Some p \<Longrightarrow> downloaded_row R h p \<in> set (DoDownloadMessages R tenant st)"
  by (force simp: DoDownloadMessages_def dest: map_of_SomeD)

lemma apply_rows_keep:
  "\<exists>new. db_deleted (ap_db (fold (apply_row R f key) rows a)) = db_deleted (ap_db a) @ new"
  "\<exists>new. db_edited (ap_db (fold (apply_row R f key) rows a)) = db_edited (ap_db a) @ new"
proof -
  have one: "(\<exists>new. db_deleted (ap_db (apply_row R f key r b)) = db_deleted (ap_db b) @ new)
      \<and> (\<exists>new. db_edited (ap_db (apply_row R f key r b)) = db_edited (ap_db b) @ new)" for r b
    by (auto simp: apply_row_eq insert_row_def Let_def split: option.split)
  have "(\<exists>new. db_deleted (ap_db (fold (apply_row R f key) rows a)) = db_deleted (ap_db a) @ new)
      \<and> (\<exists>new. db_edited (ap_db (fold (apply_row R f key) rows a)) = db_edited (ap_db a) @ new)"
  proof (induction rows arbitrary: a)
    case (Cons r rows)
    from one [of r a] Cons [of "apply_row R f key r a"] show ?case by fastforce
  qed simp
  then show "\<exists>new. db_deleted (ap_db (fold (apply_row R f key) rows a)) = db_deleted (ap_db a) @ new"
    and "\<exists>new. db_edited (ap_db (fold (apply_row R f key) rows a)) = db_edited (ap_db a) @ new" by blast+
qed

text \<open>The rows of a table, and the row of a hash that is sent.\<close>

lemma collect_table_rows:
  "set (collect_table R nonces i ms d e key)
    = {BuildRow R (nonces j) m d e key | j m. (j, m) \<in> set (enumerate i ms) \<and> m_contentHash m \<noteq> []}"
  by (auto simp: collect_table_def)

lemma collect_table_has:
  assumes "m \<in> set ms" and "m_contentHash m \<noteq> []"
  shows "sy_fromUtf8 (re_sync R) (m_contentHash m) \<in> row_contentHash ` set (collect_table R nonces i ms d e key)"
proof -
  from assms(1) obtain k where "k < length ms" and "ms ! k = m" by (auto simp: in_set_conv_nth)
  then have "(i + k, m) \<in> set (enumerate i ms)" by (auto simp: in_set_enumerate_eq)
  then have "BuildRow R (nonces (i + k)) m d e key \<in> set (collect_table R nonces i ms d e key)"
    using assms(2) unfolding collect_table_rows by blast
  moreover have "row_contentHash (BuildRow R (nonces (i + k)) m d e key) = sy_fromUtf8 (re_sync R) (m_contentHash m)"
    by (simp add: BuildRow_def)
  ultimately show ?thesis by (metis image_eqI)
qed

lemma collect_table_row:
  assumes "row \<in> set (collect_table R nonces i ms d e key)"
  obtains j m where "row = BuildRow R (nonces j) m d e key" and "m \<in> set ms" and "m_contentHash m \<noteq> []"
  using assms unfolding collect_table_rows by (auto simp: in_set_enumerate_eq)

lemma utf8_hash_inject:
  assumes "utf8_message R a" and "utf8_message R b"
    and "sy_fromUtf8 (re_sync R) (m_contentHash a) = sy_fromUtf8 (re_sync R) (m_contentHash b)"
  shows "m_contentHash a = m_contentHash b"
proof -
  have "sy_toUtf8 (re_sync R) (sy_fromUtf8 (re_sync R) (m_contentHash x)) = m_contentHash x"
    if "utf8_message R x" for x using that by (simp add: utf8_message_def)
  from this [OF assms(1)] this [OF assms(2)] assms(3) show ?thesis by argo
qed

lemma sent_row_of_table:
  assumes "m \<in> set ms" and "m_contentHash m \<noteq> []" and "sy_fromUtf8 (re_sync R) (m_contentHash m) \<notin> seen"
    and "\<forall>m \<in> set ms. sealable R nonces key m"
  obtains row m0 j where "row \<in> set (unseen_rows seen (collect_table R nonces i ms d e key))"
    and "row = BuildRow R (nonces j) m0 d e key" and "m0 \<in> set ms" and "m_contentHash m0 = m_contentHash m"
    and "row_contentHash row = sy_fromUtf8 (re_sync R) (m_contentHash m)"
proof -
  let ?rows = "collect_table R nonces i ms d e key"
  let ?h = "sy_fromUtf8 (re_sync R) (m_contentHash m)"
  have "?h \<in> row_contentHash ` set (unseen_rows seen ?rows)"
    using collect_table_has [OF assms(1,2), of R nonces i d e key] assms(3) by (simp add: unseen_rows_complete)
  then obtain row where row: "row \<in> set (unseen_rows seen ?rows)" "row_contentHash row = ?h" by force
  from row(1) unseen_rows_subset have "row \<in> set ?rows" by blast
  then obtain j m0 where r: "row = BuildRow R (nonces j) m0 d e key" "m0 \<in> set ms"
    by (rule collect_table_row)
  have "sy_fromUtf8 (re_sync R) (m_contentHash m0) = ?h" using row(2) r(1) by (simp add: BuildRow_def)
  moreover have "utf8_message R m0" and "utf8_message R m"
    using assms(1,4) r(2) by (simp_all add: sealable_def)
  ultimately have "m_contentHash m0 = m_contentHash m" by (intro utf8_hash_inject)
  then show thesis using that row r by blast
qed

lemma collect_table_lacks:
  assumes "\<forall>m \<in> set ms. utf8_message R m" and "utf8_message R m" and "m_contentHash m \<notin> m_contentHash ` set ms"
  shows "sy_fromUtf8 (re_sync R) (m_contentHash m) \<notin> set (map row_contentHash (collect_table R nonces i ms d e key))"
proof
  assume "sy_fromUtf8 (re_sync R) (m_contentHash m) \<in> set (map row_contentHash (collect_table R nonces i ms d e key))"
  then obtain row where "row \<in> set (collect_table R nonces i ms d e key)"
    and h: "row_contentHash row = sy_fromUtf8 (re_sync R) (m_contentHash m)" by auto
  from this(1) obtain j m1 where r: "row = BuildRow R (nonces j) m1 d e key" "m1 \<in> set ms"
    by (rule collect_table_row)
  then have "sy_fromUtf8 (re_sync R) (m_contentHash m1) = sy_fromUtf8 (re_sync R) (m_contentHash m)"
    using h by (simp add: BuildRow_def)
  moreover have "utf8_message R m1" using assms(1) r(2) by simp
  ultimately have "m_contentHash m1 = m_contentHash m" using assms(2) by (intro utf8_hash_inject)
  then show False using assms(3) r(2) by (metis image_eqI)
qed

text \<open>A row that was sent, found again in the tables of the device that downloads.\<close>

lemma sent_row_comes_back:
  fixes f :: file_io and s :: sync_state and db :: message_db
  assumes laws: "row_laws R" "aead_laws (re_sync R)" and seal: "sealable R nonces key m0" "m_contentHash m0 \<noteq> []"
    and st': "pg_messages st' = fold (upserted R tenant now) sent (pg_messages st)"
    and sent: "distinct (map row_contentHash sent)" "row \<in> set sent" "row = BuildRow R (nonces j) m0 d e key"
  defines "old \<equiv> map_of (pg_messages st) (tenant, row_contentHash row)"
    and "db' \<equiv> ap_db (fold (apply_row R f key) (DoDownloadMessages R tenant st') (apply_start s db))"
  shows "(d \<longrightarrow> m_contentHash m0 \<in> m_contentHash ` set (db_deleted db'))
    \<and> (e \<and> \<not> d \<and> (\<forall>q. old = Some q \<longrightarrow> \<not> pg_deleted q) \<longrightarrow> m_contentHash m0 \<in> m_contentHash ` set (db_edited db'))"
proof -
  from fold_upserted_self [OF sent(1,2), of R tenant now "pg_messages st"] obtain p
    where p: "map_of (pg_messages st') (tenant, row_contentHash row) = Some p"
      "pg_payload p = sy_toBase64 (re_sync R) (row_payload row)"
      "pg_deleted p = (row_deleted row \<or> (\<exists>q. old = Some q \<and> pg_deleted q))"
      "pg_edited p = (row_edited row \<or> (\<exists>q. old = Some q \<and> pg_edited q))"
    unfolding st' old_def holds_row_def by blast
  have plain: "plainly_read R key row (m0\<lparr>m_fakeId := 0\<rparr>)"
    unfolding sent(3) by (rule built_row_reads [OF laws seal])
  have tl: "text_laws (re_sync R)" using laws(1) by (simp add: row_laws_def)
  have seen: "seen_ok (apply_start s db)" by (simp add: seen_ok_def apply_start_def)
  have flags: "row_deleted row = d" "row_edited row = e" using sent(3) by (simp_all add: BuildRow_def)
  from plain_row_arrives [OF downloaded_rows [OF p(1)] downloaded_row_reads [OF tl plain p(2)] seen, of f]
  have "(pg_deleted p \<longrightarrow> m_contentHash m0 \<in> m_contentHash ` set (db_deleted db'))
      \<and> (pg_edited p \<and> \<not> pg_deleted p \<longrightarrow> m_contentHash m0 \<in> m_contentHash ` set (db_edited db'))"
    unfolding db'_def by (simp add: downloaded_row_def)
  then show ?thesis using p(3,4) flags by auto
qed


text \<open>The replica of two sample messages, downloaded by a new device with the same key.\<close>

definition sample_db :: message_db where
  "sample_db = \<lparr>db_deleted = [sample_message 1], db_edited = [sample_message 2]\<rparr>"

definition empty_server :: pg_state where
  "empty_server = \<lparr>pg_messages = [], pg_events = [], pg_stamps = []\<rparr>"

definition sample_conn :: "bool list \<Rightarrow> pg_conn" where
  "sample_conn answers = \<lparr>pc_stored = empty_server, pc_open = None, pc_aborted = False, pc_answers = answers\<rparr>"


text \<open>An upload that is stored, and one whose second statement is refused.\<close>

theorem upload_all_or_nothing_witness:
  "let rows = [sample_row True False];
       u = DoUploadMessages sample_rows [1] 5 6 rows (sample_conn (replicate 5 True));
       v = DoUploadMessages sample_rows [1] 5 6 rows (sample_conn [True, True, False, True])
   in fst u \<and> uploaded sample_rows [1] 5 6 rows empty_server (pc_stored (snd u))
    \<and> \<not> fst v \<and> pc_stored (snd v) = empty_server \<and> pc_open (snd v) = None"
proof -
  let ?rows = "[sample_row True False]"
  let ?c = "sample_conn (replicate 5 True)"
  let ?d = "sample_conn [True, True, False, True]"
  let ?u = "DoUploadMessages sample_rows [1] 5 6 ?rows ?c"
  let ?v = "DoUploadMessages sample_rows [1] 5 6 ?rows ?d"
  have u: "?u = (fst ?u, snd ?u)" and v: "?v = (fst ?v, snd ?v)" by simp_all
  have c: "pc_open ?c = None" "begin_taken ?c" "accepting (2 * length ?rows + 3) ?c" "pc_stored ?c = empty_server"
    and d: "pc_open ?d = None" "begin_taken ?d" "pc_stored ?d = empty_server"
    by (simp_all add: sample_conn_def begin_taken_def next_answer_def accepting_def numeral_eq_Suc)
  have "\<not> fst ?v"
    by (simp add: DoUploadMessages_def upload_batches.simps upload_batch_def insert_messages_def pg_begin_def
        pg_exec_def next_answer_def sample_conn_def kUploadBatch_def)
  then show ?thesis
    using upload_all_or_nothing [OF u c(1,2)] upload_all_or_nothing [OF v d(1,2)] c(3,4) d(3) by (simp add: Let_def)
qed

end
