(* ===== verification/Content_Hash.thy ===== *)
theory Content_Hash
  imports Sync_Rows
begin

text \<open>
  The content hash of a captured message, \<open>tfc/data/tf_content_hash.cpp\<close>: the key by which
  the devices of an account recognise the same message. Numbers are written by
  \<open>AppendNumber\<close> into an array of twenty digits; an access out of the array gives None.
\<close>

definition kSeparator :: byte where "kSeparator = 124"

text \<open>The do-while loop that fills the array of digits from the last one on; \<open>digits\<close> is what
  it holds.\<close>

function fill_digits :: "64 word \<Rightarrow> bytes \<Rightarrow> bytes option" where
  "fill_digits magnitude digits =
    (if length digits < 20
     then
       let digits = digits @ [48 + ucast (magnitude mod 10)]; magnitude = magnitude div 10
       in if magnitude = 0 then Some digits else fill_digits magnitude digits
     else None)"
  by pat_completeness auto
termination
  by (relation "measure (\<lambda>(m, digits). 20 - length digits)") auto

declare fill_digits.simps [simp del]

definition AppendNumber :: "bytes \<Rightarrow> 64 word \<Rightarrow> bytes option" where
  "AppendNumber out val =
    (let (out, magnitude) = (if val <s 0 then (out @ [45], 0 - val) else (out, val))
     in map_option (\<lambda>digits. out @ rev digits) (fill_digits magnitude []))"

definition ComputeKey ::
  "sync_env \<Rightarrow> 64 word \<Rightarrow> 64 word \<Rightarrow> 32 word \<Rightarrow> 64 word \<Rightarrow> bytes \<Rightarrow> 32 word \<Rightarrow> bytes option" where
  "ComputeKey E accountId dialogId messageId authorId text revisionDate = do {
    payload \<leftarrow> AppendNumber [] accountId;
    payload \<leftarrow> AppendNumber (payload @ [kSeparator]) dialogId;
    payload \<leftarrow> AppendNumber (payload @ [kSeparator]) (scast messageId);
    payload \<leftarrow> AppendNumber (payload @ [kSeparator]) authorId;
    payload \<leftarrow> AppendNumber (payload @ [kSeparator] @ text @ [kSeparator]) (scast revisionDate);
    Some (to_hex (sy_sha256 E payload))
  }"

definition ComputeEdited :: "sync_env \<Rightarrow> TfMessage \<Rightarrow> bytes option" where
  "ComputeEdited E m =
    ComputeKey E (m_userId m) (m_dialogId m) (m_messageId m) (m_fromId m) (m_text m) (m_editDate m)"

definition ComputeDeleted :: "sync_env \<Rightarrow> TfMessage \<Rightarrow> bytes option" where
  "ComputeDeleted E m =
    ComputeKey E (m_userId m) (m_dialogId m) (m_messageId m) (m_fromId m) (m_text m) (m_date m)"

section \<open>Decimal numbers\<close>

text \<open>The number that a list of digits stands for, the last digit first.\<close>

fun digits_value :: "bytes \<Rightarrow> nat" where
  "digits_value [] = 0"
| "digits_value (d # ds) = unat (d - 48) + 10 * digits_value ds"

lemma digit_byte:
  fixes m :: "64 word"
  shows "unat ((48 + ucast (m mod 10) :: byte) - 48) = unat m mod 10"
    and "48 \<le> (48 + ucast (m mod 10) :: byte) \<and> (48 + ucast (m mod 10) :: byte) \<le> 57"
proof -
  have m: "unat (m mod 10) = unat m mod 10" by (simp add: unat_mod_distrib)
  then have "unat (ucast (m mod 10) :: byte) = unat m mod 10"
    by (simp add: unsigned_ucast_eq take_bit_nat_eq_self)
  then show "unat ((48 + ucast (m mod 10) :: byte) - 48) = unat m mod 10"
    and "48 \<le> (48 + ucast (m mod 10) :: byte) \<and> (48 + ucast (m mod 10) :: byte) \<le> 57"
    by (auto simp: word_le_nat_alt unat_word_ariths)
qed

lemma fill_digits_result:
  assumes "unat m < 10 ^ (20 - length digits)" and "length digits < 20"
  shows "\<exists>ds. fill_digits m digits = Some (digits @ ds) \<and> ds \<noteq> [] \<and> digits_value ds = unat m
    \<and> (\<forall>d \<in> set ds. 48 \<le> d \<and> d \<le> 57) \<and> length digits + length ds \<le> 20"
  using assms
proof (induction "20 - length digits" arbitrary: m digits rule: less_induct)
  case less
  let ?d = "48 + ucast (m mod 10) :: byte"
  show ?case
  proof (cases "m div 10 = 0")
    case True
    then have "unat m div 10 = 0" by (simp add: word_eq_iff_unsigned [where ?'a = nat] unat_div_distrib)
    then have "unat m mod 10 = unat m" by (simp add: div_eq_0_iff)
    then show ?thesis
      using True less.prems(2) digit_byte [of m] by (simp add: fill_digits.simps [of m] Let_def)
  next
    case False
    have q: "unat (m div 10) = unat m div 10" by (simp add: unat_div_distrib)
    have ne: "unat m div 10 \<noteq> 0" using False by (metis q unsigned_0 unsigned_eq_0_iff)
    have room: "length digits + 1 < 20"
    proof (rule ccontr)
      assume "\<not> length digits + 1 < 20"
      then have "20 - length digits = 1" using less.prems(2) by simp
      then show False using less.prems(1) ne by simp
    qed
    have "unat (m div 10) < 10 ^ (20 - length (digits @ [?d]))"
    proof -
      have "20 - length digits = Suc (20 - length (digits @ [?d]))" using less.prems(2) by simp
      then have "unat m < 10 * 10 ^ (20 - length (digits @ [?d]))" using less.prems(1) by simp
      then show ?thesis by (simp add: q)
    qed
    moreover have "20 - length (digits @ [?d]) < 20 - length digits" using less.prems(2) by simp
    ultimately obtain ds where ds: "fill_digits (m div 10) (digits @ [?d]) = Some ((digits @ [?d]) @ ds)"
      "digits_value ds = unat (m div 10)" "\<forall>d \<in> set ds. 48 \<le> d \<and> d \<le> 57"
      "length (digits @ [?d]) + length ds \<le> 20"
      using less.hyps [of "digits @ [?d]" "m div 10"] room by auto
    have "fill_digits m digits = Some (digits @ ?d # ds)"
      using ds(1) False less.prems(2) by (simp add: fill_digits.simps [of m digits] Let_def)
    moreover have "digits_value (?d # ds) = unat m"
      using ds(2) digit_byte(1) [of m] q by simp
    moreover have "\<forall>d \<in> set (?d # ds). 48 \<le> d \<and> d \<le> 57" using ds(3) digit_byte(2) [of m] by simp
    ultimately show ?thesis using ds(4) by (intro exI [of _ "?d # ds"]) simp
  qed
qed

text \<open>The text of a number; \<open>AppendNumber\<close> never leaves its array.\<close>

definition number_text :: "64 word \<Rightarrow> bytes" where
  "number_text w = (case AppendNumber [] w of None \<Rightarrow> [] | Some t \<Rightarrow> t)"

lemma digits_of: "\<exists>ds. fill_digits m [] = Some ds \<and> ds \<noteq> [] \<and> digits_value ds = unat m
    \<and> (\<forall>d \<in> set ds. 48 \<le> d \<and> d \<le> 57) \<and> length ds \<le> 20"
proof -
  have "unat m < 2 ^ 64" using unsigned_less [where w = m and ?'a = nat] by simp
  then have "unat m < 10 ^ (20 - length ([] :: bytes))" by simp
  from fill_digits_result [OF this] show ?thesis by auto
qed

lemma AppendNumber_text: "AppendNumber out w = Some (out @ number_text w)"
  using digits_of [of w] digits_of [of "0 - w"]
  by (auto simp: AppendNumber_def number_text_def)

lemma number_text_chars: "c \<in> set (number_text w) \<Longrightarrow> c \<noteq> kSeparator"
  using digits_of [of w] digits_of [of "0 - w"]
  by (auto simp: AppendNumber_def number_text_def kSeparator_def word_le_nat_alt split: if_splits)

lemma number_text_inject:
  assumes "number_text v = number_text w"
  shows "v = w"
proof -
  have "\<exists>ds. number_text w = (if w <s 0 then 45 # rev ds else rev ds) \<and> ds \<noteq> []
      \<and> digits_value ds = unat (if w <s 0 then 0 - w else w) \<and> (\<forall>d \<in> set ds. 48 \<le> d)" for w
    using digits_of [of w] digits_of [of "0 - w"] by (auto simp: AppendNumber_def number_text_def)
  from this [of v] this [of w] obtain ds es
    where v: "number_text v = (if v <s 0 then 45 # rev ds else rev ds)" "ds \<noteq> []"
        "digits_value ds = unat (if v <s 0 then 0 - v else v)" "\<forall>d \<in> set ds. 48 \<le> d"
      and w: "number_text w = (if w <s 0 then 45 # rev es else rev es)" "es \<noteq> []"
        "digits_value es = unat (if w <s 0 then 0 - w else w)" "\<forall>d \<in> set es. 48 \<le> d" by blast
  have first: "hd (rev xs) \<noteq> 45" if "\<forall>d \<in> set xs. 48 \<le> (d :: byte)" and "xs \<noteq> []" for xs
  proof -
    have "hd (rev xs) \<in> set xs" using that(2) by (cases xs rule: rev_cases) simp_all
    then show ?thesis using that(1) by (auto simp: word_le_nat_alt)
  qed
  have "(v <s 0) = (w <s 0)"
    using first [OF v(4,2)] first [OF w(4,2)] v(1) w(1) assms by (cases "v <s 0"; cases "w <s 0") (auto, metis list.sel(1))+
  moreover from this have "ds = es" using v(1) w(1) assms by (auto split: if_splits)
  ultimately show ?thesis using v(3) w(3) by (auto split: if_splits simp: word_eq_iff_unsigned [where ?'a = nat, symmetric])
qed

section \<open>The key tells messages apart\<close>

definition key_text :: "64 word \<Rightarrow> 64 word \<Rightarrow> 32 word \<Rightarrow> 64 word \<Rightarrow> bytes \<Rightarrow> 32 word \<Rightarrow> bytes" where
  "key_text a d i f t r =
    number_text a @ kSeparator # number_text d @ kSeparator # number_text (scast i) @ kSeparator
    # number_text f @ kSeparator # t @ kSeparator # number_text (scast r)"

lemma ComputeKey_text: "ComputeKey E a d i f t r = Some (to_hex (sy_sha256 E (key_text a d i f t r)))"
  by (simp add: ComputeKey_def AppendNumber_text key_text_def)

lemma append_sep_inject:
  assumes "c \<notin> set a" and "c \<notin> set a'" and "a @ c # r = a' @ c # r'"
  shows "a = a'" and "r = r'"
proof -
  have tw: "takeWhile (\<lambda>x. x \<noteq> c) (b @ c # s) = b" if "c \<notin> set b" for b s
    using that by (induction b) auto
  show "a = a'" using tw [OF assms(1), of r] tw [OF assms(2), of r'] assms(3) by simp
  then show "r = r'" using assms(3) by simp
qed

lemma append_last_sep_inject:
  assumes "c \<notin> set r" and "c \<notin> set r'" and "a @ c # r = a' @ c # r'"
  shows "a = a'" and "r = r'"
proof -
  have "rev r @ c # rev a = rev r' @ c # rev a'"
    using arg_cong [OF assms(3), of rev] by simp
  from append_sep_inject [OF _ _ this] assms(1,2) show "r = r'" and "a = a'" by simp_all
qed

lemma scast_inject: "(scast (i :: 32 word) :: 64 word) = scast j \<Longrightarrow> i = j"
proof -
  assume eq: "(scast i :: 64 word) = scast j"
  show "i = j"
  proof (rule bit_word_eqI)
    fix n
    assume n: "n < LENGTH(32)"
    have "bit (scast i :: 64 word) n = bit (scast j :: 64 word) n" using eq by simp
    then show "bit i n = bit j n" using n by (auto simp: bit_simps)
  qed
qed

lemma key_text_inject:
  assumes "key_text a d i f t r = key_text a' d' i' f' t' r'"
  shows "a = a' \<and> d = d' \<and> i = i' \<and> f = f' \<and> t = t' \<and> r = r'"
proof -
  have sep: "kSeparator \<notin> set (number_text w)" for w using number_text_chars by blast
  note inj = append_sep_inject [OF sep sep]
  from assms have 1: "number_text a = number_text a'"
    and "number_text d @ kSeparator # number_text (scast i) @ kSeparator # number_text f @ kSeparator # t @ kSeparator # number_text (scast r)
      = number_text d' @ kSeparator # number_text (scast i') @ kSeparator # number_text f' @ kSeparator # t' @ kSeparator # number_text (scast r')"
    unfolding key_text_def by (blast dest: inj)+
  then have 2: "number_text d = number_text d'"
    and "number_text (scast i) @ kSeparator # number_text f @ kSeparator # t @ kSeparator # number_text (scast r)
      = number_text (scast i') @ kSeparator # number_text f' @ kSeparator # t' @ kSeparator # number_text (scast r')"
    by (blast dest: inj)+
  then have 3: "number_text (scast i) = number_text (scast i')"
    and "number_text f @ kSeparator # t @ kSeparator # number_text (scast r)
      = number_text f' @ kSeparator # t' @ kSeparator # number_text (scast r')"
    by (blast dest: inj)+
  then have 4: "number_text f = number_text f'"
    and "t @ kSeparator # number_text (scast r) = t' @ kSeparator # number_text (scast r')"
    by (blast dest: inj)+
  then have "t = t'" and "number_text (scast r) = number_text (scast r')"
    using append_last_sep_inject [OF sep sep] by blast+
  with 1 2 3 4 show ?thesis using number_text_inject scast_inject by blast
qed

lemma to_hex_inject: "to_hex a = to_hex b \<Longrightarrow> a = b"
  by (metis from_hex_to_hex)

text \<open>C32: The content hash of a deleted message tells messages apart: unless the hash function
  collides on the two texts, two messages have the same content hash exactly if they agree in
  account, dialog, message id, author, text and date, also when a text holds the separator.\<close>

theorem content_hash_identifies:
  assumes "inj_on (sy_sha256 E) ((\<lambda>m. key_text (m_userId m) (m_dialogId m) (m_messageId m) (m_fromId m) (m_text m) (m_date m)) ` {m, m'})"
  shows "ComputeDeleted E m = ComputeDeleted E m' \<longleftrightarrow>
    m_userId m = m_userId m' \<and> m_dialogId m = m_dialogId m' \<and> m_messageId m = m_messageId m'
    \<and> m_fromId m = m_fromId m' \<and> m_text m = m_text m' \<and> m_date m = m_date m'"
proof
  assume "ComputeDeleted E m = ComputeDeleted E m'"
  then have "to_hex (sy_sha256 E (key_text (m_userId m) (m_dialogId m) (m_messageId m) (m_fromId m) (m_text m) (m_date m)))
      = to_hex (sy_sha256 E (key_text (m_userId m') (m_dialogId m') (m_messageId m') (m_fromId m') (m_text m') (m_date m')))"
    by (simp add: ComputeDeleted_def ComputeKey_text)
  then have "sy_sha256 E (key_text (m_userId m) (m_dialogId m) (m_messageId m) (m_fromId m) (m_text m) (m_date m))
      = sy_sha256 E (key_text (m_userId m') (m_dialogId m') (m_messageId m') (m_fromId m') (m_text m') (m_date m'))"
    by (rule to_hex_inject)
  from inj_onD [OF assms this]
  show "m_userId m = m_userId m' \<and> m_dialogId m = m_dialogId m' \<and> m_messageId m = m_messageId m'
      \<and> m_fromId m = m_fromId m' \<and> m_text m = m_text m' \<and> m_date m = m_date m'"
    by (intro key_text_inject) simp
qed (simp add: ComputeDeleted_def)

theorem content_hash_identifies_witness:
  "ComputeDeleted sample_env (sample_message 1) = ComputeDeleted sample_env (sample_message 2)
    \<and> ComputeDeleted sample_env (sample_message 1) \<noteq> ComputeDeleted sample_env ((sample_message 1)\<lparr>m_text := ascii ''hi|1''\<rparr>)"
proof -
  have inj: "inj_on (sy_sha256 sample_env) A" for A by (simp add: sample_env_def inj_on_def)
  note same = content_hash_identifies [OF inj]
  show ?thesis unfolding same by (simp add: sample_message_def ascii_def)
qed

end
