(* ===== verification/Tcp_Protocol.thy ===== *)
theory Tcp_Protocol
  imports Byte_Words
begin

text \<open>
  The transport protocols of a TCP connection: \<open>TcpConnection::Protocol\<close> and its
  versions in mtproto/connection_tcp.cpp, \<open>isGoodStartNonce\<close> of
  mtproto/details/mtproto_tcp_socket.cpp, \<open>ValidateSecret\<close> of
  mtproto/mtproto_dc_options.cpp and \<open>parseNotSecureResponse\<close> of
  mtproto/connection_abstract.cpp. SHA-256, random bytes and the CTR mode of OpenSSL are
  arguments. An \<open>mtpBuffer\<close> is a list of 32-bit words; where the code writes bytes into
  it, the list of its bytes is updated.
\<close>

section \<open>Words and bytes of a buffer\<close>

type_synonym mtpBuffer = "u32 list"

definition ints_bytes :: "mtpBuffer \<Rightarrow> bytes" where
  "ints_bytes buffer = concat (map (le_bytes 4) buffer)"

fun bytes_ints :: "bytes \<Rightarrow> mtpBuffer" where
  "bytes_ints (a # b # c # d # bs) = le_value [a, b, c, d] # bytes_ints bs"
| "bytes_ints _ = []"

lemma length_ints_bytes [simp]: "length (ints_bytes buffer) = 4 * length buffer"
  by (induction buffer) (simp_all add: ints_bytes_def)

lemma ints_bytes_Nil [simp]: "ints_bytes [] = []"
  by (simp add: ints_bytes_def)

lemma ints_bytes_Cons: "ints_bytes (x # xs) = le_bytes 4 x @ ints_bytes xs"
  by (simp add: ints_bytes_def)

lemma ints_bytes_append: "ints_bytes (xs @ ys) = ints_bytes xs @ ints_bytes ys"
  by (simp add: ints_bytes_def)

lemma ints_bytes_drop: "ints_bytes (drop n xs) = drop (4 * n) (ints_bytes xs)"
proof (induction xs arbitrary: n)
  case (Cons x xs)
  then show ?case by (cases n) (simp_all add: ints_bytes_Cons)
qed simp

lemma bytes_ints_Cons: "bytes_ints (le_bytes 4 x @ bs) = x # bytes_ints bs"
proof -
  have four: "le_bytes 4 x @ bs = ucast x # ucast (drop_bit 8 x) # ucast (drop_bit 16 x)
      # ucast (drop_bit 24 x) # bs"
    by (simp add: le_bytes_4)
  have "le_value (le_bytes 4 x) = x" by (rule le_value_le_bytes_full) simp
  then have "le_value [ucast x, ucast (drop_bit 8 x), ucast (drop_bit 16 x), ucast (drop_bit 24 x)] = x"
    by (simp only: le_bytes_4)
  then show ?thesis unfolding four bytes_ints.simps by (simp only:)
qed

lemma bytes_ints_ints_bytes [simp]: "bytes_ints (ints_bytes xs) = xs"
  by (induction xs) (simp_all add: ints_bytes_Cons bytes_ints_Cons)

lemma bytes_ints_short: "length bs < 4 \<Longrightarrow> bytes_ints bs = []"
  by (cases bs rule: bytes_ints.cases) auto

lemma length_bytes_ints [simp]: "length (bytes_ints bs) = length bs div 4"
proof (induction bs rule: bytes_ints.induct)
  case (1 a b c d bs)
  have "length (a # b # c # d # bs) = length bs + 4" by simp
  then show ?case using 1 by simp
qed simp_all

lemma bytes_ints_append_short:
  "length r < 4 \<Longrightarrow> bytes_ints (ints_bytes xs @ r) = xs"
  by (induction xs) (simp_all add: ints_bytes_Cons bytes_ints_Cons bytes_ints_short)

section \<open>The protocols\<close>

definition kPacketSizeMax :: nat where "kPacketSizeMax = 0x01000000 * 4"

definition kUnknownSize :: int where "kUnknownSize = -1"

definition kInvalidSize :: int where "kInvalidSize = -2"

datatype protocol = Version0 | Version1 bytes | VersionD bytes

definition ValidateSecret :: "bytes \<Rightarrow> bool" where
  "ValidateSecret secret \<longleftrightarrow> length secret \<ge> 21 \<and> secret ! 0 = 0xEE
    \<or> length secret = 17 \<and> secret ! 0 = 0xDD \<or> length secret = 16 \<or> secret = []"

definition Create :: "bytes \<Rightarrow> protocol result" where
  "Create secret =
    (if length secret \<ge> 21 \<and> secret ! 0 = 0xEE \<or> length secret = 17 \<and> secret ! 0 = 0xDD
     then Inr (VersionD (take 16 (drop 1 secret)))
     else if length secret = 16 then Inr (Version1 secret)
     else if secret = [] then Inr Version0
     else Inl (Abort ''Secret bytes in TcpConnection::Protocol::Create.''))"

fun protocol_id :: "protocol \<Rightarrow> u32" where
  "protocol_id (VersionD _) = 0xDDDDDDDD"
| "protocol_id _ = 0xEFEFEFEF"

fun supportsArbitraryLength :: "protocol \<Rightarrow> bool" where
  "supportsArbitraryLength (VersionD _) = True"
| "supportsArbitraryLength _ = False"

fun prepareKey :: "(bytes \<Rightarrow> bytes) \<Rightarrow> protocol \<Rightarrow> bytes \<Rightarrow> bytes" where
  "prepareKey sha256 Version0 source = source"
| "prepareKey sha256 (Version1 secret) source = sha256 (source @ secret)"
| "prepareKey sha256 (VersionD secret) source = sha256 (source @ secret)"

text \<open>
  \<open>finalizePacket\<close> writes the length into the two words that the buffer starts with. The
  random words of the padding are \<open>random 1\<close>, \<open>random 2\<close>, and so on, the one that gives
  its length is \<open>random 0\<close>.
\<close>

definition finalizePacket0 :: "mtpBuffer \<Rightarrow> bytes result" where
  "finalizePacket0 buffer =
    (if 2 < length buffer \<and> length buffer < 0x1000003
     then let intsSize = (of_nat (length buffer - 2) :: u32);
              bytesSize = unat intsSize * 4;
              bytes = ints_bytes buffer in
       if intsSize < 0x7F
       then Inr (take (1 + bytesSize) (drop 7 (bytes[7 := ucast intsSize])))
       else Inr (take (4 + bytesSize) (drop 4 (bytes[4 := 0x7F,
              5 := ucast (intsSize AND 0xFF), 6 := ucast (drop_bit 8 intsSize AND 0xFF),
              7 := ucast (drop_bit 16 intsSize AND 0xFF)])))
     else Inl (Abort ''Expects''))"

function padding_ints :: "(nat \<Rightarrow> u32) \<Rightarrow> nat \<Rightarrow> nat \<Rightarrow> mtpBuffer" where
  "padding_ints random padding added =
    (if added < padding
     then random (1 + added div 4) # padding_ints random padding (added + 4) else [])"
  by pat_completeness auto
termination by (relation "measure (\<lambda>(_, padding, added). padding - added)") auto

declare padding_ints.simps [simp del]

definition finalizePacketD :: "(nat \<Rightarrow> u32) \<Rightarrow> mtpBuffer \<Rightarrow> bytes result" where
  "finalizePacketD random buffer =
    (if 2 < length buffer \<and> length buffer < 0x1000003
     then let intsSize = (of_nat (length buffer - 2) :: u32);
              padding = random 0 AND 0x0F;
              bytesSize = unat intsSize * 4 + unat padding;
              sent = buffer[1 := of_nat bytesSize] @ padding_ints random (unat padding) 0 in
       Inr (take (4 + bytesSize) (drop 4 (ints_bytes sent)))
     else Inl (Abort ''Expects''))"

fun finalizePacket :: "(nat \<Rightarrow> u32) \<Rightarrow> protocol \<Rightarrow> mtpBuffer \<Rightarrow> bytes result" where
  "finalizePacket random (VersionD _) buffer = finalizePacketD random buffer"
| "finalizePacket random _ buffer = finalizePacket0 buffer"

definition readPacketLength0 :: "bytes \<Rightarrow> int" where
  "readPacketLength0 bs =
    (if bs = [] then kUnknownSize
     else let first = sint (bs ! 0) in
       if first = 0x7F
       then if length bs < 4 then kUnknownSize
            else let ints = ucast (bs ! 1) OR push_bit 8 (ucast (bs ! 2))
                            OR push_bit 16 (ucast (bs ! 3)) :: u32 in
              if ints \<ge> 0x7F then sint (push_bit 2 ints) + 4 else kInvalidSize
       else if first > 0 \<and> first < 0x7F
       then sint (push_bit 2 (of_int first :: u32)) + 1
       else kInvalidSize)"

definition readPacketLengthD :: "bytes \<Rightarrow> int" where
  "readPacketLengthD bs =
    (if length bs < 4 then kUnknownSize
     else let packet = le_value (take 4 bs) + 4 :: u32 in
       if packet \<ge> 8 \<and> packet < of_nat kPacketSizeMax then sint packet else kInvalidSize)"

fun readPacketLength :: "protocol \<Rightarrow> bytes \<Rightarrow> int" where
  "readPacketLength (VersionD _) bs = readPacketLengthD bs"
| "readPacketLength _ bs = readPacketLength0 bs"

fun size_length :: "protocol \<Rightarrow> bytes \<Rightarrow> nat" where
  "size_length (VersionD _) bs = 4"
| "size_length _ bs = (if sint (bs ! 0) = 0x7F then 4 else 1)"

definition readPacket :: "protocol \<Rightarrow> bytes \<Rightarrow> bytes result" where
  "readPacket protocol bs =
    (let packet = readPacketLength protocol bs; skipped = size_length protocol bs in
     if packet \<noteq> kUnknownSize \<and> packet \<noteq> kInvalidSize \<and> packet \<le> int (length bs)
     then if int skipped \<le> packet
       then Inr (take (nat packet - skipped) (drop skipped bs))
       else Inl (Abort ''subspan'')
     else Inl (Abort ''Assert''))"

definition parsePacket :: "protocol \<Rightarrow> bytes \<Rightarrow> mtpBuffer result" where
  "parsePacket protocol bs =
    bind_result (readPacket protocol bs) (\<lambda>packet.
      let ints = length packet div 4 in
      if ints = 0 then Inl (Abort ''Assert'')
      else if ints < 3 then Inr [le_value (take 4 packet)]
      else Inr (bytes_ints (take (4 * ints) packet)))"

section \<open>Answers to requests that are not encrypted\<close>

definition parseNotSecureResponse :: "mtpBuffer \<Rightarrow> mtpBuffer" where
  "parseNotSecureResponse answer =
    (let len = length answer in
     if len < 6 then []
     else if answer ! 0 \<noteq> 0 \<or> answer ! 1 \<noteq> 0 \<or> answer ! 2 AND 0x03 \<noteq> 1 then []
     else let answerLen = unat (answer ! 4) in
       if answerLen < 1 \<or> answerLen mod 4 \<noteq> 0 \<or> answerLen > (len - 5) * 4 then []
       else take (answerLen div 4) (drop 5 answer))"

section \<open>The start of a connection\<close>

record ctr_state =
  ivec :: bytes
  num :: u32
  ecount :: bytes

definition ctr_start :: ctr_state where
  "ctr_start = \<lparr>ivec = replicate 16 0, num = 0, ecount = replicate 16 0\<rparr>"

type_synonym ctr_mode = "bytes \<Rightarrow> ctr_state \<Rightarrow> bytes \<Rightarrow> bytes \<times> ctr_state"

definition isGoodStartNonce :: "bytes \<Rightarrow> bool" where
  "isGoodStartNonce nonce \<longleftrightarrow>
    (let first = le_value (take 4 nonce) :: u32; second = le_value (take 4 (drop 4 nonce)) :: u32 in
     nonce ! 0 \<noteq> 0xEF \<and> first \<noteq> 0x44414548 \<and> first \<noteq> 0x54534F50 \<and> first \<noteq> 0x20544547
     \<and> first \<noteq> 0xEEEEEEEE \<and> first \<noteq> 0xDDDDDDDD \<and> first \<noteq> 0x02010316 \<and> second \<noteq> 0)"

text \<open>The loop over random nonces; \<open>None\<close> when no draw is ever good.\<close>

partial_function (option) good_nonce :: "(bytes \<Rightarrow> bool) \<Rightarrow> (nat \<Rightarrow> bytes) \<Rightarrow> nat \<Rightarrow> bytes option" where
  [code]: "good_nonce good draws i =
    (if good (draws i) then Some (draws i) else good_nonce good draws (Suc i))"

record start_keys =
  start_prefix :: bytes
  start_send_key :: bytes
  start_send_state :: ctr_state
  start_receive_key :: bytes
  start_receive_state :: ctr_state

definition connection_start ::
  "(bytes \<Rightarrow> bytes) \<Rightarrow> ctr_mode \<Rightarrow> protocol \<Rightarrow> 16 word \<Rightarrow> bytes \<Rightarrow> start_keys" where
  "connection_start sha256 ctr protocol dcId nonce =
    (let sendKey = prepareKey sha256 protocol (take 32 (drop 8 nonce));
         sendState = ctr_start\<lparr>ivec := take 16 (drop 40 nonce)\<rparr>;
         reversed = rev (take 48 (drop 8 nonce));
         receiveKey = prepareKey sha256 protocol (take 32 reversed);
         receiveState = ctr_start\<lparr>ivec := take 16 (drop 32 reversed)\<rparr>;
         full = take 56 nonce @ le_bytes 4 (protocol_id protocol) @ le_bytes 2 dcId @ drop 62 nonce;
         (encrypted, sendState') = ctr sendKey sendState full in
     \<lparr>start_prefix = take 56 full @ drop 56 encrypted, start_send_key = sendKey,
      start_send_state = sendState', start_receive_key = receiveKey,
      start_receive_state = receiveState\<rparr>)"


section \<open>Lengths of packets\<close>

lemma sint_small:
  fixes w :: u32
  assumes "unat w < 2 ^ 31"
  shows "sint w = int (unat w)"
proof -
  have "int (unat w) < int (2 ^ 31)" using assms by (rule of_nat_less_iff [THEN iffD2])
  then have "uint w < 2 ^ 31" unfolding uint_nat by (simp only: of_nat_power of_nat_numeral)
  moreover have "- (2 ^ 31) \<le> uint w" by (rule order_trans [OF _ uint_ge_0]) simp
  ultimately have "signed_take_bit 31 (uint w) = uint w"
    by (intro signed_take_bit_int_eq_self)
  then show ?thesis by (simp add: sint_uint)
qed

lemma sint_shift_2:
  fixes w :: u32
  assumes "unat w < 2 ^ 24"
  shows "sint (push_bit 2 w) = 4 * int (unat w)"
proof -
  have u: "unat (push_bit 2 w) = 4 * unat w"
    using assms by (simp add: push_bit_eq_mult unat_word_ariths mult.commute)
  then have "sint (push_bit 2 w) = int (unat (push_bit 2 w))"
    using assms by (intro sint_small) simp
  then show ?thesis unfolding u by simp
qed

lemma three_byte_length:
  fixes a b c :: byte
  shows "unat (ucast a OR push_bit 8 (ucast b) OR push_bit 16 (ucast c) :: u32) < 2 ^ 24"
proof -
  have "unat (le_value [a, b, c] :: u32) < 256 ^ length [a, b, c]"
    by (rule le_value_bound) simp
  moreover have "(le_value [a, b, c] :: u32)
      = ucast a OR push_bit 8 (ucast b) OR push_bit 16 (ucast c)"
    by (simp add: push_bit_or or.assoc)
  ultimately show ?thesis by simp
qed

lemma readPacketLength0_cases:
  obtains "readPacketLength0 bs = kUnknownSize" "length bs < 4"
    "bs = [] \<or> sint (bs ! 0) = 0x7F"
  | "readPacketLength0 bs = kInvalidSize"
  | n where "bs \<noteq> []" "sint (bs ! 0) = 0x7F" "4 \<le> length bs" "0x7F \<le> n" "n < 2 ^ 24"
    "readPacketLength0 bs = 4 * int n + 4"
    "n = unat (ucast (bs ! 1) OR push_bit 8 (ucast (bs ! 2)) OR push_bit 16 (ucast (bs ! 3)) :: u32)"
  | n where "bs \<noteq> []" "sint (bs ! 0) = int n" "0 < n" "n < 0x7F"
    "readPacketLength0 bs = 4 * int n + 1"
proof (cases "bs = []")
  case True
  then show ?thesis using that(1) by (simp add: readPacketLength0_def)
next
  case ne: False
  define first where "first = sint (bs ! 0)"
  show ?thesis
  proof (cases "first = 0x7F")
    case seven: True
    show ?thesis
    proof (cases "length bs < 4")
      case True
      then show ?thesis using that(1) ne seven by (simp add: readPacketLength0_def first_def)
    next
      case False
      define ints where "ints = (ucast (bs ! 1) OR push_bit 8 (ucast (bs ! 2))
          OR push_bit 16 (ucast (bs ! 3)) :: u32)"
      have small: "unat ints < 2 ^ 24" unfolding ints_def by (rule three_byte_length)
      have len: "readPacketLength0 bs = (if ints \<ge> 0x7F then sint (push_bit 2 ints) + 4 else kInvalidSize)"
        using ne seven False unfolding readPacketLength0_def Let_def first_def ints_def by simp
      show ?thesis
      proof (cases "ints \<ge> 0x7F")
        case True
        then have "0x7F \<le> unat ints" by (simp add: word_le_nat_alt)
        moreover have "readPacketLength0 bs = 4 * int (unat ints) + 4"
          using len True sint_shift_2 [OF small] by simp
        ultimately show ?thesis using that(3) [of "unat ints"] ne seven False small
          by (simp add: first_def ints_def)
      next
        case False
        then show ?thesis using that(2) len by simp
      qed
    qed
  next
    case other: False
    show ?thesis
    proof (cases "first > 0 \<and> first < 0x7F")
      case True
      define n where "n = nat first"
  have n: "first = int n" "0 < n" "n < 0x7F" using True unfolding n_def by linarith+
      have "take_bit 32 n = n" by (rule take_bit_nat_eq_self) (use n in simp)
      then have "unat (of_int first :: u32) = n" using n(1) by (simp add: unsigned_of_nat)
      then have "sint (push_bit 2 (of_int first :: u32)) = 4 * int n"
        using n sint_shift_2 [of "of_int first"] by simp
      then have "readPacketLength0 bs = 4 * int n + 1"
        using ne other True unfolding readPacketLength0_def Let_def first_def by simp
      then show ?thesis using that(4) [of n] ne n by (simp add: first_def)
    next
      case False
      then have "readPacketLength0 bs = kInvalidSize"
        using ne other unfolding readPacketLength0_def Let_def first_def by auto
      then show ?thesis by (rule that(2))
    qed
  qed
qed

lemma readPacketLengthD_cases:
  obtains "readPacketLengthD bs = kUnknownSize" "length bs < 4"
  | "readPacketLengthD bs = kInvalidSize" "4 \<le> length bs"
  | n where "4 \<le> length bs" "8 \<le> n" "n < kPacketSizeMax" "readPacketLengthD bs = int n"
    "n = unat (le_value (take 4 bs) + 4 :: u32)"
proof (cases "length bs < 4")
  case True
  then show ?thesis using that(1) by (simp add: readPacketLengthD_def)
next
  case False
  define packet where "packet = (le_value (take 4 bs) + 4 :: u32)"
  show ?thesis
  proof (cases "packet \<ge> 8 \<and> packet < of_nat kPacketSizeMax")
    case True
    then have b: "8 \<le> unat packet" "unat packet < kPacketSizeMax"
      by (simp_all add: word_le_nat_alt word_less_nat_alt kPacketSizeMax_def)
    then have "sint packet = int (unat packet)"
      by (intro sint_small) (simp add: kPacketSizeMax_def)
    then have "readPacketLengthD bs = int (unat packet)"
      using False True by (simp add: readPacketLengthD_def packet_def)
    then show ?thesis using that(3) [of "unat packet"] False b by (simp add: packet_def)
  next
    case False
    then have "readPacketLengthD bs = kInvalidSize"
      using \<open>\<not> length bs < 4\<close> unfolding readPacketLengthD_def packet_def Let_def by auto
    then show ?thesis using that(2) \<open>\<not> length bs < 4\<close> by simp
  qed
qed

text \<open>
  The contract of a way to tell the length of a packet from its start: it needs at most
  four bytes, further bytes do not change it, and a packet is longer than four bytes.
\<close>

locale packet_framing =
  fixes len :: "bytes \<Rightarrow> int"
  assumes unknown_short: "len bs = kUnknownSize \<Longrightarrow> length bs < 4"
    and stable: "len bs \<noteq> kUnknownSize \<Longrightarrow> len (bs @ r) = len bs"
    and long: "len bs = kUnknownSize \<or> len bs = kInvalidSize \<or> 4 < len bs \<and> len bs \<le> 2 ^ 26"
    and unknown_empty: "len [] = kUnknownSize"

text \<open>What a stream of bytes means: its packets, what is left, and whether the rest is broken.\<close>

function packet_stream :: "(bytes \<Rightarrow> int) \<Rightarrow> bytes \<Rightarrow> bytes list \<times> bytes \<times> bool" where
  "packet_stream len bs =
    (if len bs = kUnknownSize then ([], bs, False)
     else if len bs \<le> 0 then ([], bs, True)
     else if int (length bs) < len bs then ([], bs, False)
     else (case packet_stream len (drop (nat (len bs)) bs) of
       (ps, r, bad) \<Rightarrow> (take (nat (len bs)) bs # ps, r, bad)))"
  by pat_completeness auto
termination by (relation "measure (\<lambda>(_, bs). length bs)") auto

declare packet_stream.simps [simp del]

context packet_framing
begin

lemma stream_unknown: "len bs = kUnknownSize \<Longrightarrow> packet_stream len bs = ([], bs, False)"
  by (simp add: packet_stream.simps)

lemma stream_empty [simp]: "packet_stream len [] = ([], [], False)"
  by (rule stream_unknown) (rule unknown_empty)

lemma stream_invalid: "len bs = kInvalidSize \<Longrightarrow> packet_stream len bs = ([], bs, True)"
  by (simp add: packet_stream.simps [of len bs] kUnknownSize_def kInvalidSize_def)

lemma stream_partial:
  "len bs = int n \<Longrightarrow> length bs < n \<Longrightarrow> packet_stream len bs = ([], bs, False)"
  by (simp add: packet_stream.simps [of len bs] kUnknownSize_def)

lemma stream_packet:
  assumes "len bs = int n" and "0 < n" and "n \<le> length bs" and "packet_stream len (drop n bs) = (ps, r, bad)"
  shows "packet_stream len bs = (take n bs # ps, r, bad)"
  using assms by (simp add: packet_stream.simps [of len bs] kUnknownSize_def)

lemma len_cases:
  obtains "len bs = kUnknownSize" "length bs < 4"
  | "len bs = kInvalidSize"
  | n where "len bs = int n" "4 < n" "n \<le> 2 ^ 26"
proof -
  consider "len bs = kUnknownSize" | "len bs = kInvalidSize" | "4 < len bs \<and> len bs \<le> 2 ^ 26"
    using long by blast
  then show ?thesis
  proof cases
    case 1
    then show ?thesis by (rule that(1)) (rule unknown_short [OF 1])
  next
    case 2
    then show ?thesis by (rule that(2))
  next
    case 3
    then have p: "4 < len bs" and q: "len bs \<le> 2 ^ 26" by simp_all
    define n where "n = nat (len bs)"
    have e: "len bs = int n" unfolding n_def using p by simp
    show ?thesis by (rule that(3) [OF e]) (use p q in \<open>simp_all add: e\<close>)
  qed
qed

lemma known_not_unknown: "len bs = int n \<Longrightarrow> len bs \<noteq> kUnknownSize"
  by (simp add: kUnknownSize_def)

lemma known_append: "len bs = int n \<Longrightarrow> len (bs @ r) = int n"
  using stable [OF known_not_unknown] by simp

lemma known_take:
  assumes "len bs = int n" and "4 < n" and "n \<le> length bs"
  shows "len (take n bs) = int n"
proof (rule ccontr)
  assume other: "len (take n bs) \<noteq> int n"
  have "len (take n bs) = kUnknownSize"
  proof (rule ccontr)
    assume "len (take n bs) \<noteq> kUnknownSize"
    from stable [OF this, of "drop n bs"] have "len bs = len (take n bs)" by simp
    with other assms(1) show False by simp
  qed
  then have "length (take n bs) < 4" by (rule unknown_short)
  with assms show False by simp
qed

lemma stream_append:
  assumes "packet_stream len a = (ps, r, bad)"
  shows "packet_stream len (a @ b) = (if bad then (ps, r @ b, True)
    else (case packet_stream len (r @ b) of (qs, r', bad') \<Rightarrow> (ps @ qs, r', bad')))"
  using assms
proof (induction "length a" arbitrary: a ps r bad rule: less_induct)
  case less
  show ?case
  proof (cases a rule: len_cases)
    case 1
    then have "ps = []" "r = a" "\<not> bad" using less.prems stream_unknown by simp_all
    then show ?thesis by (simp split: prod.split)
  next
    case 2
    then have "ps = []" "r = a" "bad" using less.prems stream_invalid by simp_all
    moreover have "len (a @ b) = kInvalidSize"
      using stable [of a b] 2 by (simp add: kUnknownSize_def kInvalidSize_def)
    ultimately show ?thesis using stream_invalid by simp
  next
    case (3 n)
    show ?thesis
    proof (cases "n \<le> length a")
      case False
      then have "ps = []" "r = a" "\<not> bad" using less.prems stream_partial [OF 3(1)] by simp_all
      then show ?thesis by (simp split: prod.split)
    next
      case True
      obtain qs r' bad' where q: "packet_stream len (drop n a) = (qs, r', bad')"
        by (metis prod_cases3)
      have "packet_stream len a = (take n a # qs, r', bad')"
        by (rule stream_packet [OF 3(1) _ True q]) (use 3 in simp)
      then have e: "ps = take n a # qs" "r = r'" "bad = bad'" using less.prems by simp_all
      have shorter: "length (drop n a) < length a" using 3 True by simp
      note ih = less.hyps [OF shorter q]
      obtain qs2 r2 bad2 where rest: "packet_stream len (drop n (a @ b)) = (qs2, r2, bad2)"
        by (metis prod_cases3)
      have whole: "packet_stream len (a @ b) = (take n (a @ b) # qs2, r2, bad2)"
        by (rule stream_packet [OF known_append [OF 3(1)] _ _ rest]) (use 3 True in simp_all)
      have "drop n (a @ b) = drop n a @ b" and "take n (a @ b) = take n a" using True by simp_all
      then show ?thesis using whole rest ih e by (auto split: prod.splits if_splits)
    qed
  qed
qed

lemma stream_rest:
  assumes "packet_stream len a = (ps, r, bad)"
  shows "a = concat ps @ r"
  using assms
proof (induction "length a" arbitrary: a ps r bad rule: less_induct)
  case less
  show ?case
  proof (cases "a" rule: len_cases)
    case 1
    then show ?thesis using less.prems stream_unknown by simp
  next
    case 2
    then show ?thesis using less.prems stream_invalid by simp
  next
    case (3 n)
    show ?thesis
    proof (cases "n \<le> length a")
      case False
      then show ?thesis using less.prems stream_partial [OF 3(1)] by simp
    next
      case True
      obtain qs r' bad' where q: "packet_stream len (drop n a) = (qs, r', bad')"
        by (metis prod_cases3)
      have "packet_stream len a = (take n a # qs, r', bad')"
        by (rule stream_packet [OF 3(1) _ True q]) (use 3 in simp)
      moreover have "drop n a = concat qs @ r'"
        by (rule less.hyps [OF _ q]) (use 3 True in simp)
      ultimately show ?thesis using less.prems by (metis append.assoc append_take_drop_id concat.simps(2) prod.inject)
    qed
  qed
qed

lemma stream_concat:
  assumes "\<forall>p \<in> set ps. len p = int (length p) \<and> p \<noteq> []"
  shows "packet_stream len (concat ps) = (ps, [], False)"
  using assms
proof (induction ps)
  case (Cons p ps)
  have "len (p @ concat ps) = int (length p)" by (rule known_append) (use Cons.prems in simp)
  from stream_packet [OF this, of ps "[]" False] Cons show ?case by simp
qed simp

end

interpretation v0: packet_framing readPacketLength0
proof unfold_locales
  fix bs r :: bytes
  show "readPacketLength0 bs = kUnknownSize \<Longrightarrow> length bs < 4"
  proof -
    assume unknown: "readPacketLength0 bs = kUnknownSize"
    show "length bs < 4"
    proof (cases bs rule: readPacketLength0_cases)
      case 1
      then show ?thesis by simp
    next
      case 2
      with unknown show ?thesis by (simp add: kUnknownSize_def kInvalidSize_def)
    next
      case (3 n)
      from 3(6) unknown have "4 * int n + 4 = - 1" unfolding kUnknownSize_def by simp
      then show ?thesis by linarith
    next
      case (4 n)
      from 4(5) unknown have "4 * int n + 1 = - 1" unfolding kUnknownSize_def by simp
      then show ?thesis by linarith
    qed
  qed
  show "readPacketLength0 bs = kUnknownSize \<or> readPacketLength0 bs = kInvalidSize
      \<or> 4 < readPacketLength0 bs \<and> readPacketLength0 bs \<le> 2 ^ 26"
  proof (cases bs rule: readPacketLength0_cases)
    case (3 n)
    from 3(4,5,6) show ?thesis by simp
  next
    case (4 n)
    from 4(3,4,5) show ?thesis by simp
  qed simp_all
  show "readPacketLength0 (bs @ r) = readPacketLength0 bs" if "readPacketLength0 bs \<noteq> kUnknownSize"
  proof -
    from that have ne: "bs \<noteq> []" by (auto simp: readPacketLength0_def)
    show ?thesis
    proof (cases "sint (bs ! 0) = 0x7F")
      case True
      then have "4 \<le> length bs" using that ne by (simp add: readPacketLength0_def split: if_splits)
      then show ?thesis using ne True by (simp add: readPacketLength0_def Let_def nth_append)
    next
      case False
      then show ?thesis using ne by (simp add: readPacketLength0_def Let_def nth_append)
    qed
  qed
qed (simp add: readPacketLength0_def)

interpretation vd: packet_framing readPacketLengthD
proof unfold_locales
  fix bs r :: bytes
  show "length bs < 4" if unknown: "readPacketLengthD bs = kUnknownSize"
  proof (cases bs rule: readPacketLengthD_cases)
    case 1
    then show ?thesis by simp
  next
    case 2
    with unknown show ?thesis by (simp add: kUnknownSize_def kInvalidSize_def)
  next
    case (3 n)
    from 3(4) unknown have "int n = - 1" unfolding kUnknownSize_def by simp
    then show ?thesis by linarith
  qed
  show "readPacketLengthD bs = kUnknownSize \<or> readPacketLengthD bs = kInvalidSize
      \<or> 4 < readPacketLengthD bs \<and> readPacketLengthD bs \<le> 2 ^ 26"
  proof (cases bs rule: readPacketLengthD_cases)
    case (3 n)
    from 3(2,3,4) show ?thesis by (simp add: kPacketSizeMax_def)
  qed simp_all
  show "readPacketLengthD (bs @ r) = readPacketLengthD bs" if "readPacketLengthD bs \<noteq> kUnknownSize"
    using that by (auto simp: readPacketLengthD_def Let_def split: if_splits)
qed (simp add: readPacketLengthD_def)

lemma readPacketLength_framing: "packet_framing (readPacketLength protocol)"
proof (cases protocol)
  case Version0
  then have "readPacketLength protocol = readPacketLength0" by auto
  then show ?thesis by (simp only: v0.packet_framing_axioms)
next
  case (Version1 secret)
  then have "readPacketLength protocol = readPacketLength0" by auto
  then show ?thesis by (simp only: v0.packet_framing_axioms)
next
  case (VersionD secret)
  then have "readPacketLength protocol = readPacketLengthD" by auto
  then show ?thesis by (simp only: vd.packet_framing_axioms)
qed

interpretation framing: packet_framing "readPacketLength protocol" for protocol
  by (rule readPacketLength_framing)


section \<open>Packets are written as they are read\<close>

lemma size_length_le:
  assumes "readPacketLength protocol bs = int n"
  shows "size_length protocol bs + 4 \<le> n \<and> bs \<noteq> []"
proof -
  have zero: "size_length q bs + 4 \<le> n \<and> bs \<noteq> []"
    if "readPacketLength0 bs = int n" and "size_length q bs = (if sint (bs ! 0) = 0x7F then 4 else 1)" for q
  proof (cases bs rule: readPacketLength0_cases)
    case 1
    with that show ?thesis by (simp add: kUnknownSize_def)
  next
    case 2
    with that show ?thesis by (simp add: kInvalidSize_def)
  next
    case (3 m)
    from 3(6) that(1) have "int n = 4 * int m + 4" by simp
    with 3(1,2,4) that(2) show ?thesis by simp
  next
    case (4 m)
    from 4(5) that(1) have "int n = 4 * int m + 1" by simp
    with 4(1,2,3,4) that(2) show ?thesis by simp
  qed
  show ?thesis
  proof (cases protocol)
    case Version0
    with assms zero [of protocol] show ?thesis by simp
  next
    case (Version1 secret)
    with assms zero [of protocol] show ?thesis by simp
  next
    case (VersionD secret)
    with assms have "readPacketLengthD bs = int n" by simp
    then show ?thesis
    proof (cases bs rule: readPacketLengthD_cases)
      case (3 m)
      from 3(4) \<open>readPacketLengthD bs = int n\<close> have "n = m" by simp
      with 3(1,2) VersionD show ?thesis by auto
    qed (simp_all add: kUnknownSize_def kInvalidSize_def)
  qed
qed

lemma readPacket_complete:
  assumes "readPacketLength protocol bs = int (length bs)"
  shows "readPacket protocol bs = Inr (drop (size_length protocol bs) bs)"
  using assms size_length_le [OF assms]
  by (simp add: readPacket_def Let_def kUnknownSize_def kInvalidSize_def)

lemma parsePacket_complete:
  assumes "readPacketLength protocol bs = int (length bs)"
  obtains data where "parsePacket protocol bs = Inr data" and "data \<noteq> []"
    and "length data = 1 \<or> 3 \<le> length data"
proof -
  define packet where "packet = drop (size_length protocol bs) bs"
  have four: "4 \<le> length packet"
    using size_length_le [OF assms] unfolding packet_def length_drop by linarith
  have parsed: "parsePacket protocol bs = (if length packet div 4 < 3
      then Inr [le_value (take 4 packet)]
      else Inr (bytes_ints (take (4 * (length packet div 4)) packet)))"
    using four unfolding parsePacket_def readPacket_complete [OF assms]
    by (simp add: packet_def [symmetric] Let_def)
  show ?thesis
  proof (cases "length packet div 4 < 3")
    case True
    then show ?thesis using that [of "[le_value (take 4 packet)]"] parsed by simp
  next
    case False
    have n: "length (bytes_ints (take (4 * (length packet div 4)) packet)) = length packet div 4"
      by simp
    then have "3 \<le> length (bytes_ints (take (4 * (length packet div 4)) packet))"
      using False by simp
    moreover from this have "bytes_ints (take (4 * (length packet div 4)) packet) \<noteq> []"
      by (metis list.size(3) not_numeral_le_zero)
    ultimately show ?thesis using that [of "bytes_ints (take (4 * (length packet div 4)) packet)"]
        parsed False by simp
  qed
qed

lemma bytes_ints_take:
  "bytes_ints (take (4 * (length (ints_bytes xs @ r) div 4)) (ints_bytes xs @ r))
    = xs @ bytes_ints r"
proof -
  have whole: "bytes_ints (ints_bytes xs @ r) = xs @ bytes_ints r" for xs r
    by (induction xs) (simp_all add: ints_bytes_Cons bytes_ints_Cons)
  have cut: "bytes_ints (take (4 * (length b div 4)) b) = bytes_ints b" for b
  proof (induction b rule: bytes_ints.induct)
    case (1 a b c d bs)
    have "length (a # b # c # d # bs) = length bs + 1 * 4" by simp
    then have "length (a # b # c # d # bs) div 4 = length bs div 4 + 1"
      by (simp only: div_mult_self1)
    then have "4 * (length (a # b # c # d # bs) div 4) = Suc (Suc (Suc (Suc (4 * (length bs div 4)))))"
      by simp
    then have "take (4 * (length (a # b # c # d # bs) div 4)) (a # b # c # d # bs)
        = a # b # c # d # take (4 * (length bs div 4)) bs"
      by (simp only: take_Suc_Cons)
    then show ?case using 1 by simp
  qed simp_all
  show ?thesis unfolding cut whole ..
qed

lemma length_padding_ints: "length (padding_ints random padding added) = (padding - added + 3) div 4"
proof (induction random padding added rule: padding_ints.induct)
  case (1 random padding added)
  show ?case
  proof (cases "added < padding")
    case True
    then have "padding - added + 3 = padding - (added + 4) + 3 + 4 \<or> padding - added < 4" by auto
    then show ?thesis using 1 [OF True] True
      by (auto simp: padding_ints.simps [of random padding added] div_le_mono)
  next
    case False
    then show ?thesis by (simp add: padding_ints.simps [of random padding added])
  qed
qed

lemma drop_update_prefix:
  assumes "i < j" and "j \<le> length xs"
  shows "drop j (xs[i := x]) = drop j xs"
  using assms by simp

lemma finalizePacket0_small:
  assumes "2 < length buffer" and "length buffer - 2 < 0x7F"
  shows "finalizePacket0 buffer
    = Inr (of_nat (length buffer - 2) # ints_bytes (drop 2 buffer))"
proof -
  define bs where "bs = ints_bytes buffer"
  have len: "length bs = 4 * length buffer" by (simp add: bs_def)
  define intsSize where "intsSize = (of_nat (length buffer - 2) :: u32)"
  have t: "take_bit 32 (length buffer - 2) = length buffer - 2"
    by (rule take_bit_nat_eq_self) (use assms in simp)
  have u: "unat intsSize = length buffer - 2"
    unfolding intsSize_def unsigned_of_nat len_num1 using t by simp
  have small: "intsSize < 0x7F" using u assms by (simp add: word_less_nat_alt)
  have b: "(ucast intsSize :: byte) = of_nat (length buffer - 2)"
    unfolding intsSize_def unsigned_of_nat len_num1 using t by simp
  have cut: "drop 7 (bs[7 := x]) = x # drop 8 bs" for x
  proof -
    have "7 < length bs" using len assms(1) by simp
    then have "drop 7 (bs[7 := x]) = bs[7 := x] ! 7 # drop (Suc 7) (bs[7 := x])"
      by (intro Cons_nth_drop_Suc [symmetric]) simp
    then show ?thesis using \<open>7 < length bs\<close> by simp
  qed
  have "finalizePacket0 buffer
      = Inr (take (1 + unat intsSize * 4) (drop 7 (bs[7 := ucast intsSize])))"
    using assms small by (simp add: finalizePacket0_def Let_def intsSize_def bs_def)
  also have "\<dots> = Inr (of_nat (length buffer - 2) # drop 8 bs)"
    using len u unfolding cut b by simp
  also have "drop 8 bs = ints_bytes (drop 2 buffer)"
    by (simp add: ints_bytes_drop bs_def)
  finally show ?thesis .
qed

lemma ucast_low_byte: "ucast (x AND 0xFF) = (ucast x :: byte)" for x :: u32
proof (rule bit_word_eqI)
  fix k
  assume k: "k < LENGTH(8)"
  have low: "(0xFF :: u32) = mask 8" by (simp add: mask_eq_exp_minus_1)
  show "bit (ucast (x AND 0xFF) :: byte) k = bit (ucast x :: byte) k"
    unfolding low using k by (auto simp: bit_simps)
qed

lemma finalizePacket0_long:
  assumes "length buffer < 0x1000002" and "0x7F \<le> length buffer - 2"
  shows "finalizePacket0 buffer
    = Inr (0x7F # le_bytes 3 (of_nat (length buffer - 2) :: u32) @ ints_bytes (drop 2 buffer))"
proof -
  define bs where "bs = ints_bytes buffer"
  have len: "length bs = 4 * length buffer" by (simp add: bs_def)
  define intsSize where "intsSize = (of_nat (length buffer - 2) :: u32)"
  have t: "take_bit 32 (length buffer - 2) = length buffer - 2"
    by (rule take_bit_nat_eq_self) (use assms in simp)
  have u: "unat intsSize = length buffer - 2"
    unfolding intsSize_def unsigned_of_nat len_num1 using t by simp
  have large: "\<not> intsSize < 0x7F" using u assms by (simp add: word_less_nat_alt)
  have eight: "8 \<le> length bs" using len assms by linarith
  have cut: "drop 4 (bs[4 := a, 5 := b, 6 := c, 7 := d]) = [a, b, c, d] @ drop 8 bs" for a b c d
  proof (rule nth_equalityI)
    show "length (drop 4 (bs[4 := a, 5 := b, 6 := c, 7 := d])) = length ([a, b, c, d] @ drop 8 bs)"
      using eight by simp
  next
    fix i
    assume i: "i < length (drop 4 (bs[4 := a, 5 := b, 6 := c, 7 := d]))"
    consider "i = 0" | "i = 1" | "i = 2" | "i = 3" | j where "i = 4 + j"
      by (metis One_nat_def Suc_1 add.commute le_Suc_ex less_2_cases_iff less_Suc_eq not_less numeral_3_eq_3 numeral_eq_Suc pred_numeral_simps(2) semiring_norm(26) semiring_norm(27))
    then show "drop 4 (bs[4 := a, 5 := b, 6 := c, 7 := d]) ! i = ([a, b, c, d] @ drop 8 bs) ! i"
    proof cases
      case 5
      with i eight show ?thesis by (simp add: add.assoc [symmetric] nth_append)
    qed (use eight in simp_all)
  qed
  have "finalizePacket0 buffer
      = Inr (take (4 + unat intsSize * 4) (drop 4 (bs[4 := 0x7F,
          5 := ucast (intsSize AND 0xFF), 6 := ucast (drop_bit 8 intsSize AND 0xFF),
          7 := ucast (drop_bit 16 intsSize AND 0xFF)])))"
    using assms large by (simp add: finalizePacket0_def Let_def intsSize_def bs_def)
  also have "\<dots> = Inr ([0x7F, ucast intsSize, ucast (drop_bit 8 intsSize), ucast (drop_bit 16 intsSize)]
      @ drop 8 bs)"
    using len u assms unfolding cut ucast_low_byte by simp
  also have "drop 8 bs = ints_bytes (drop 2 buffer)"
    by (simp add: ints_bytes_drop bs_def)
  finally show ?thesis by (simp add: le_bytes_def upt_rec intsSize_def)
qed

lemma readPacketLength0_small:
  assumes "0 < n" and "n < 0x7F"
  shows "readPacketLength0 (of_nat n # bs) = 4 * int n + 1"
proof -
  have t: "take_bit 8 n = n" by (rule take_bit_nat_eq_self) (use assms in simp)
  have u: "unat (of_nat n :: byte) = n" unfolding unsigned_of_nat len_num1 using t by simp
  have "signed_take_bit 7 (int n) = int n"
    by (rule signed_take_bit_int_eq_self) (use assms in simp_all)
  then have first: "sint (of_nat n :: byte) = int n" by (simp add: sint_uint uint_nat u)
  have t': "take_bit 32 n = n" by (rule take_bit_nat_eq_self) (use assms in simp)
  have "unat (of_nat n :: u32) = n" unfolding unsigned_of_nat len_num1 using t' by simp
  then have "sint (push_bit 2 (of_int (int n) :: u32)) = 4 * int n"
    using assms sint_shift_2 [of "of_nat n"] by simp
  then show ?thesis using assms first unfolding readPacketLength0_def Let_def by simp
qed

lemma readPacketLength0_long:
  assumes "0x7F \<le> n" and "n < 2 ^ 24"
  shows "readPacketLength0 (0x7F # le_bytes 3 (of_nat n :: u32) @ bs) = 4 * int n + 4"
proof -
  define w where "w = (of_nat n :: u32)"
  have t: "take_bit 32 n = n" by (rule take_bit_nat_eq_self) (use assms in simp)
  have u: "unat w = n" unfolding w_def unsigned_of_nat len_num1 using t by simp
  have three: "le_bytes 3 w = [ucast w, ucast (drop_bit 8 w), ucast (drop_bit 16 w)]"
    by (simp add: le_bytes_def upt_rec)
  have "take_bit 24 w = w"
  proof -
    have "unat (take_bit 24 w) = take_bit 24 (unat w)" by (rule unsigned_take_bit_eq)
    also have "\<dots> = unat w" by (rule take_bit_nat_eq_self) (use assms u in simp)
    finally show ?thesis by (simp only: word_unat_eq_iff)
  qed
  then have "le_value (le_bytes 3 w) = w" by (simp add: le_value_le_bytes)
  then have ints: "ucast (ucast w :: byte) OR push_bit 8 (ucast (ucast (drop_bit 8 w) :: byte))
      OR push_bit 16 (ucast (ucast (drop_bit 16 w) :: byte)) = w"
    unfolding three by (simp add: push_bit_or or.assoc)
  have "0x7F \<le> w" using u assms by (simp add: word_le_nat_alt)
  moreover have "sint (push_bit 2 w) = 4 * int n" using sint_shift_2 [of w] u assms by simp
  moreover have "sint (0x7F :: byte) = 0x7F" by simp
  ultimately show ?thesis
    unfolding readPacketLength0_def Let_def w_def [symmetric] three
    by (simp add: ints del: of_int_sint)
qed

lemma finalizePacketD_eq:
  fixes random :: "nat \<Rightarrow> u32"
  assumes "2 < length buffer" and "length buffer < 0x1000003"
  defines "padding \<equiv> unat (random 0 AND 0x0F)"
  defines "n \<equiv> 4 * (length buffer - 2) + padding"
  shows "finalizePacketD random buffer = Inr (le_bytes 4 (of_nat n :: u32)
    @ ints_bytes (drop 2 buffer) @ take padding (ints_bytes (padding_ints random padding 0)))"
proof -
  have t: "take_bit 32 (length buffer - 2) = length buffer - 2"
    by (rule take_bit_nat_eq_self) (use assms in simp)
  have u: "unat (of_nat (length buffer - 2) :: u32) = length buffer - 2"
    unfolding unsigned_of_nat len_num1 using t by simp
  obtain x y z where b: "buffer = x # y # z" and z: "z = drop 2 buffer"
    using assms(1) by (cases buffer; cases "tl buffer") auto
  define pads where "pads = padding_ints random padding 0"
  have l: "length buffer - 2 = length z" using b by simp
  have sent: "ints_bytes (buffer[1 := of_nat n] @ pads)
      = le_bytes 4 x @ le_bytes 4 (of_nat n :: u32) @ ints_bytes z @ ints_bytes pads"
    by (simp add: b ints_bytes_Cons ints_bytes_append)
  have "padding \<le> 4 * length pads"
    unfolding pads_def length_padding_ints by linarith
  have whole: "finalizePacketD random buffer
      = Inr (take (4 + n) (drop 4 (ints_bytes (buffer[1 := of_nat n] @ pads))))"
    using assms(1,2) unfolding finalizePacketD_def Let_def u padding_def [symmetric]
    by (simp add: n_def pads_def mult.commute)
  also have "take (4 + n) (drop 4 (ints_bytes (buffer[1 := of_nat n] @ pads)))
      = le_bytes 4 (of_nat n :: u32) @ take n (ints_bytes z @ ints_bytes pads)"
    unfolding sent by simp
  also have "take n (ints_bytes z @ ints_bytes pads) = ints_bytes z @ take padding (ints_bytes pads)"
    by (simp add: n_def l)
  finally show ?thesis by (simp add: z pads_def)
qed

lemma readPacketLengthD_written:
  assumes "4 \<le> n" and "n + 4 < kPacketSizeMax"
  shows "readPacketLengthD (le_bytes 4 (of_nat n :: u32) @ bs) = int n + 4"
proof -
  define w where "w = (of_nat n :: u32)"
  have t: "take_bit 32 n = n"
    by (rule take_bit_nat_eq_self) (use assms in \<open>simp add: kPacketSizeMax_def\<close>)
  have u: "unat w = n" unfolding w_def unsigned_of_nat len_num1 using t by simp
  have v: "le_value (le_bytes 4 w) = w" by (rule le_value_le_bytes_full) simp
  have u4: "unat (w + 4) = n + 4"
    using u assms by (simp add: unat_word_ariths kPacketSizeMax_def)
  then have "sint (w + 4) = int n + 4"
    using assms by (subst sint_small) (simp_all add: kPacketSizeMax_def)
  moreover have "8 \<le> w + 4" and "w + 4 < of_nat kPacketSizeMax"
    using assms u4 by (simp_all add: word_le_nat_alt word_less_nat_alt kPacketSizeMax_def)
  ultimately show ?thesis
    unfolding w_def [symmetric] readPacketLengthD_def Let_def by (simp add: v)
qed

text \<open>
  The largest packets: Version0 and Version1 have three bytes for the number of words,
  VersionD a limit on the number of bytes.
\<close>

definition packet_fits :: "protocol \<Rightarrow> mtpBuffer \<Rightarrow> bool" where
  "packet_fits protocol buffer \<longleftrightarrow> 2 < length buffer \<and> length buffer < 0x1000002
    \<and> (supportsArbitraryLength protocol \<longrightarrow> 4 * length buffer + 15 < kPacketSizeMax)"

lemma finalizePacket_frame:
  assumes "packet_fits protocol buffer"
  obtains frame pad where "finalizePacket random protocol buffer = Inr frame"
    and "readPacketLength protocol frame = int (length frame)"
    and "drop (size_length protocol frame) frame = ints_bytes (drop 2 buffer) @ pad"
    and "length pad < 16" and "supportsArbitraryLength protocol \<or> pad = []"
proof -
  define n where "n = length buffer - 2"
  have "2 < length buffer" and "length buffer < 2 ^ 24 + 2"
    using assms by (simp_all add: packet_fits_def)
  then have n: "0 < n" "n < 2 ^ 24" "length buffer = n + 2"
    unfolding n_def by linarith+
  have len: "length (ints_bytes (drop 2 buffer)) = 4 * n" by (simp add: n_def)
  note frameI = that
  have plain: thesis if p: "\<And>b. finalizePacket random protocol b = finalizePacket0 b"
    "\<And>b. readPacketLength protocol b = readPacketLength0 b"
    "\<And>b. size_length protocol b = (if sint (b ! 0) = 0x7F then 4 else 1)"
  proof (cases "n < 0x7F")
    case True
    define frame where "frame = of_nat n # ints_bytes (drop 2 buffer)"
    have f: "finalizePacket0 buffer = Inr frame"
      unfolding frame_def n_def by (rule finalizePacket0_small) (use n(1) True in \<open>simp_all add: n_def\<close>)
    have r: "readPacketLength0 frame = int (length frame)"
      unfolding frame_def readPacketLength0_small [OF n(1) True] by (simp add: n(3))
    have "sint (frame ! 0) \<noteq> 0x7F"
    proof
      assume "sint (frame ! 0) = 0x7F"
      moreover have "frame ! 0 = of_nat n" by (simp add: frame_def)
      moreover have "take_bit 8 n = n" by (rule take_bit_nat_eq_self) (use True in simp)
      then have "unat (of_nat n :: byte) = n" unfolding unsigned_of_nat len_num1 by simp
      moreover have "signed_take_bit 7 (int n) = int n"
        by (rule signed_take_bit_int_eq_self) (use True in simp_all)
      ultimately show False using True by (simp add: sint_uint uint_nat)
    qed
    then have "size_length protocol frame = 1" unfolding p by simp
    then have "drop (size_length protocol frame) frame = ints_bytes (drop 2 buffer) @ []"
      by (simp add: frame_def)
    show thesis
      by (rule frameI [OF f [folded p] r [folded p] \<open>drop (size_length protocol frame) frame = _\<close>]) simp_all
  next
    case False
    define frame where "frame = 0x7F # le_bytes 3 (of_nat n :: u32) @ ints_bytes (drop 2 buffer)"
    have f: "finalizePacket0 buffer = Inr frame"
      unfolding frame_def n_def
      by (rule finalizePacket0_long) (use False assms in \<open>simp_all add: n_def packet_fits_def\<close>)
    have r: "readPacketLength0 frame = int (length frame)"
      unfolding frame_def by (subst readPacketLength0_long) (use n False in simp_all)
    have "size_length protocol frame = 4" unfolding p by (simp add: frame_def)
    then have "drop (size_length protocol frame) frame = ints_bytes (drop 2 buffer) @ []"
      by (simp add: frame_def)
    show thesis
      by (rule frameI [OF f [folded p] r [folded p] \<open>drop (size_length protocol frame) frame = _\<close>]) simp_all
  qed
  show thesis
  proof (cases protocol)
    case (VersionD secret)
    define padding where "padding = unat (random 0 AND 0x0F)"
    define m where "m = 4 * n + padding"
    define pad where "pad = take padding (ints_bytes (padding_ints random padding 0))"
    define frame where "frame = le_bytes 4 (of_nat m :: u32) @ ints_bytes (drop 2 buffer) @ pad"
    have f: "finalizePacketD random buffer = Inr frame"
      unfolding frame_def pad_def m_def padding_def n_def
      by (rule finalizePacketD_eq) (use assms in \<open>simp_all add: packet_fits_def\<close>)
    have small: "padding < 16"
    proof -
      have "random 0 AND 0x0F \<le> (0x0F :: u32)" by (rule word_and_le1)
      then have "unat (random 0 AND 0x0F) \<le> unat (0x0F :: u32)" by (simp only: word_le_nat_alt)
      then show ?thesis by (simp add: padding_def)
    qed
    have "padding \<le> length (ints_bytes (padding_ints random padding 0))"
      unfolding length_ints_bytes length_padding_ints by linarith
    then have pl: "length pad = padding" by (simp add: pad_def)
    have fits: "4 * (n + 2) + 15 < kPacketSizeMax"
      using assms VersionD n(3) by (simp add: packet_fits_def)
    have m: "4 \<le> m" "m + 4 < kPacketSizeMax"
      using n(1) fits small unfolding m_def by (simp_all add: algebra_simps)
    have "readPacketLengthD frame = int m + 4"
      unfolding frame_def by (rule readPacketLengthD_written [OF m])
    then have r: "readPacketLengthD frame = int (length frame)"
      using n(3) by (simp add: frame_def pl m_def)
    have d: "drop (size_length protocol frame) frame = ints_bytes (drop 2 buffer) @ pad"
      unfolding VersionD by (simp add: frame_def)
    show thesis
      by (rule frameI [of frame pad]) (use f r d small pl VersionD in simp_all)
  qed (rule plain; simp)+
qed

lemma finalized_packet_is_parsed:
  assumes "packet_fits protocol buffer" and "5 \<le> length buffer"
  obtains frame pad where "finalizePacket random protocol buffer = Inr frame"
    and "readPacketLength protocol frame = int (length frame)" and "frame \<noteq> []"
    and "parsePacket protocol frame = Inr (drop 2 buffer @ pad)"
    and "length pad \<le> 3" and "supportsArbitraryLength protocol \<or> pad = []"
proof -
  obtain frame pad where f: "finalizePacket random protocol buffer = Inr frame"
    "readPacketLength protocol frame = int (length frame)"
    "drop (size_length protocol frame) frame = ints_bytes (drop 2 buffer) @ pad"
    "length pad < 16" "supportsArbitraryLength protocol \<or> pad = []"
    using finalizePacket_frame [OF assms(1), where random = random] .
  have "frame \<noteq> []" using size_length_le [OF f(2)] by simp
  have "3 * 4 \<le> length (ints_bytes (drop 2 buffer) @ pad)" using assms(2) by simp
  then have long: "3 \<le> length (ints_bytes (drop 2 buffer) @ pad) div 4"
    by (simp only: less_eq_div_iff_mult_less_eq)
  have "parsePacket protocol frame = Inr (bytes_ints (take
      (4 * (length (ints_bytes (drop 2 buffer) @ pad) div 4)) (ints_bytes (drop 2 buffer) @ pad)))"
    using long unfolding parsePacket_def readPacket_complete [OF f(2)] f(3)
    unfolding bind_result_eval Let_def by (metis not_le not_numeral_le_zero)
  then have "parsePacket protocol frame = Inr (drop 2 buffer @ bytes_ints pad)"
    unfolding bytes_ints_take .
  moreover have "length (bytes_ints pad) \<le> 3" using f(4) by simp
  moreover have "supportsArbitraryLength protocol \<or> bytes_ints pad = []" using f(5) by auto
  ultimately show thesis using that [of frame "bytes_ints pad"] f \<open>frame \<noteq> []\<close> by blast
qed

end
