(* ===== verification/Tcp_Transport.thy ===== *)
theory Tcp_Transport
  imports Tcp_Protocol
begin

text \<open>
  \<open>TcpConnection\<close> (mtproto/connection_tcp.cpp) over any socket that has the operations of
  \<open>AbstractSocket\<close>: the receive buffers with their offsets, the read loop, the packets
  given to the session, the start of a connection and what is sent. Spans into a buffer are
  an offset and a length, and are read when the code reads them, so that a move of the
  buffer under a span is seen. A negative \<open>subspan\<close>, a failed \<open>Assert\<close> or \<open>Expects\<close> is an
  \<open>Abort\<close>. The session is the set of its signal handlers: it takes the events, and
  \<open>hangs_up\<close> says after which of them it has called \<open>disconnectFromServer\<close>. What the
  session takes out of the queue of received packets, and times, are left out.
\<close>

section \<open>Memory\<close>

record buffer =
  cells :: "nat \<Rightarrow> byte"
  buffer_size :: nat

definition zeros :: "nat \<Rightarrow> buffer" where
  "zeros n = \<lparr>cells = \<lambda>_. 0, buffer_size = n\<rparr>"

definition region :: "buffer \<Rightarrow> nat \<Rightarrow> nat \<Rightarrow> bytes" where
  "region b off n = map (cells b) [off..<off + n]"

definition put :: "buffer \<Rightarrow> nat \<Rightarrow> bytes \<Rightarrow> buffer" where
  "put b off xs = b\<lparr>cells := \<lambda>i. if off \<le> i \<and> i < off + length xs then xs ! (i - off) else cells b i\<rparr>"

lemma length_region [simp]: "length (region b off n) = n"
  by (simp add: region_def)

lemma region_0 [simp]: "region b off 0 = []"
  by (simp add: region_def)

lemma nth_region [simp]: "i < n \<Longrightarrow> region b off n ! i = cells b (off + i)"
  by (simp add: region_def)

lemma buffer_size_put [simp]: "buffer_size (put b off xs) = buffer_size b"
  by (simp add: put_def)

lemma buffer_size_zeros [simp]: "buffer_size (zeros n) = n"
  by (simp add: zeros_def)

lemma take_region: "m \<le> n \<Longrightarrow> take m (region b off n) = region b off m"
  by (rule nth_equalityI) simp_all

lemma drop_region: "m \<le> n \<Longrightarrow> drop m (region b off n) = region b (off + m) (n - m)"
  by (rule nth_equalityI) (simp_all add: add.assoc)

lemma region_put_other:
  "off + n \<le> at \<or> at + length xs \<le> off \<Longrightarrow> region (put b at xs) off n = region b off n"
  by (rule nth_equalityI) (auto simp: put_def)

lemma region_put_append:
  "region (put b (off + n) xs) off (n + length xs) = region b off n @ xs"
  by (rule nth_equalityI) (auto simp: put_def nth_append)

lemma region_put_here: "region (put b off xs) off (length xs) = xs"
  by (rule nth_equalityI) (simp_all add: put_def)

section \<open>The connection\<close>

definition kSmallBufferSize :: nat where "kSmallBufferSize = 256 * 1024"
definition kMinPacketBuffer :: nat where "kMinPacketBuffer = 256"
definition kErrorCodeOther :: int where "kErrorCodeOther = -499"

datatype status = Waiting | Ready | Finished

datatype event = Connected | ReceivedData | Error int | Disconnected

text \<open>The operations of a socket that a connection uses.\<close>

record 's socket_ops =
  so_read :: "'s \<Rightarrow> nat \<Rightarrow> (bytes option \<times> 's) result"
  so_write :: "'s \<Rightarrow> bytes \<Rightarrow> bytes \<Rightarrow> 's result"
  so_connected :: "'s \<Rightarrow> bool"
  so_available :: "'s \<Rightarrow> bool"
  so_good_nonce :: "bytes \<Rightarrow> bool"

record 's tcp =
  socket :: "'s option"
  connectionStarted :: bool
  offsetBytes :: nat
  readBytes :: nat
  leftBytes :: nat
  smallBuffer :: buffer
  largeBuffer :: buffer
  usingLargeBuffer :: bool
  sendKey :: bytes
  sendState :: ctr_state
  receiveKey :: bytes
  receiveState :: ctr_state
  protocol :: "protocol option"
  protocolDcId :: "16 word"
  status :: status
  checkNonce :: bytes
  receivedQueue :: "mtpBuffer list"
  connected_lifetime :: bool
  lifetime :: bool
  some_received :: nat
  events :: "event list"

text \<open>
  What the connection is given: the hash and cipher, the reader of \<open>MTPResPQ\<close> (its
  \<open>vnonce\<close>), and the reaction of the session.
\<close>

record tcp_env =
  sha256 :: "bytes \<Rightarrow> bytes"
  ctr :: ctr_mode
  read_resPQ :: "mtpBuffer \<Rightarrow> bytes option"
  hangs_up :: "event list \<Rightarrow> bool"

definition disconnectFromServer :: "'s tcp \<Rightarrow> 's tcp" where
  "disconnectFromServer s =
    (if status s = Finished then s
     else s\<lparr>status := Finished, connected_lifetime := False, lifetime := False, socket := None\<rparr>)"

definition emit :: "tcp_env \<Rightarrow> event \<Rightarrow> 's tcp \<Rightarrow> 's tcp" where
  "emit env e s =
    (let s' = s\<lparr>events := events s @ [e]\<rparr> in
     if hangs_up env (events s') then disconnectFromServer s' else s')"

definition alive :: "'s socket_ops \<Rightarrow> 's tcp \<Rightarrow> bool" where
  "alive ops s = (case socket s of None \<Rightarrow> False | Some k \<Rightarrow> so_connected ops k)"

definition with_protocol :: "'s tcp \<Rightarrow> (protocol \<Rightarrow> 'b result) \<Rightarrow> 'b result" where
  "with_protocol s f = (case protocol s of None \<Rightarrow> Inl (Abort ''null'') | Some p \<Rightarrow> f p)"

definition readPQFakeReply :: "tcp_env \<Rightarrow> mtpBuffer \<Rightarrow> bytes option" where
  "readPQFakeReply env buffer =
    (let answer = parseNotSecureResponse buffer in
     if answer = [] then None else read_resPQ env answer)"

definition socketPacket :: "tcp_env \<Rightarrow> bytes \<Rightarrow> 's tcp \<Rightarrow> 's tcp result" where
  "socketPacket env bs s =
    (if socket s = None then Inl (Abort ''Expects'')
     else with_protocol s (\<lambda>p. bind_result (parsePacket p bs) (\<lambda>data.
       if length data = 1
       then if data ! 0 \<noteq> 0 then Inr (emit env (Error (sint (data ! 0))) s) else Inr s
       else if status s = Ready
       then Inr (emit env ReceivedData (s\<lparr>receivedQueue := receivedQueue s @ [data]\<rparr>))
       else if status s = Waiting
       then (case readPQFakeReply env data of
           Some vnonce \<Rightarrow>
             if vnonce = checkNonce s
             then Inr (emit env Connected (s\<lparr>status := Ready, connected_lifetime := False\<rparr>))
             else Inr (emit env (Error kErrorCodeOther) s)
         | None \<Rightarrow> Inr (emit env (Error kErrorCodeOther) s))
       else Inr s)))"

section \<open>Reading\<close>

definition active :: "'s tcp \<Rightarrow> buffer" where
  "active s = (if usingLargeBuffer s then largeBuffer s else smallBuffer s)"

definition set_active :: "buffer \<Rightarrow> 's tcp \<Rightarrow> 's tcp" where
  "set_active b s = (if usingLargeBuffer s then s\<lparr>largeBuffer := b\<rparr> else s\<lparr>smallBuffer := b\<rparr>)"

definition ensureAvailableInBuffer :: "nat \<Rightarrow> 's tcp \<Rightarrow> 's tcp result" where
  "ensureAvailableInBuffer amount s =
    (if buffer_size (active s) < offsetBytes s then Inl (Abort ''subspan'')
     else if amount \<le> buffer_size (active s) - offsetBytes s then Inr s
     else if buffer_size (active s) - offsetBytes s < readBytes s then Inl (Abort ''subspan'')
     else let read = region (active s) (offsetBytes s) (readBytes s) in
       if amount \<le> buffer_size (smallBuffer s)
       then if buffer_size (smallBuffer s) < readBytes s then Inl (Abort ''copy'')
         else if usingLargeBuffer s
         then Inr (s\<lparr>smallBuffer := put (smallBuffer s) 0 read, usingLargeBuffer := False,
                largeBuffer := zeros 0, offsetBytes := 0\<rparr>)
         else Inr (s\<lparr>smallBuffer := put (smallBuffer s) 0 read, offsetBytes := 0\<rparr>)
       else if amount \<le> buffer_size (largeBuffer s)
       then if \<not> usingLargeBuffer s then Inl (Abort ''Assert'')
         else Inr (s\<lparr>largeBuffer := put (largeBuffer s) 0 read, offsetBytes := 0\<rparr>)
       else if amount < readBytes s then Inl (Abort ''copy'')
       else Inr (s\<lparr>largeBuffer := put (zeros amount) 0 read, usingLargeBuffer := True,
              offsetBytes := 0\<rparr>))"

text \<open>
  The loop over the packets in the bytes that are available. The span \<open>available\<close> is the
  offset and length in the buffer that was active when the bytes were read. The boolean
  tells whether \<open>socketRead\<close> goes on.
\<close>

function takePackets ::
  "tcp_env \<Rightarrow> 's socket_ops \<Rightarrow> bool \<Rightarrow> nat \<Rightarrow> nat \<Rightarrow> 's tcp \<Rightarrow> ('s tcp \<times> bool) result" where
  "takePackets env ops large off n s =
    (if readBytes s = 0 then Inr (s, True)
     else with_protocol s (\<lambda>p.
       let buffer = (if large then largeBuffer s else smallBuffer s) in
       if buffer_size buffer < off + n then Inl (Abort ''dangling span'')
       else let available = region buffer off n; packetSize = readPacketLength p available in
         if packetSize = kUnknownSize then Inr (s, True)
         else if packetSize \<le> 0 then Inr (emit env (Error kErrorCodeOther) s, False)
         else if packetSize \<le> int n
         then bind_result (socketPacket env (take (nat packetSize) available) s) (\<lambda>s1.
           if \<not> alive ops s1 then Inr (s1, False)
           else if readBytes s1 < nat packetSize then Inl (Abort ''negative'')
           else bind_result (ensureAvailableInBuffer kMinPacketBuffer
               (s1\<lparr>offsetBytes := offsetBytes s1 + nat packetSize,
                  readBytes := readBytes s1 - nat packetSize\<rparr>)) (\<lambda>s2.
             takePackets env ops large (off + nat packetSize) (n - nat packetSize) s2))
         else bind_result (ensureAvailableInBuffer (nat packetSize)
             (s\<lparr>leftBytes := nat packetSize - n\<rparr>)) (\<lambda>s1.
           Inr (s1\<lparr>some_received := some_received s1 + 1\<rparr>, True))))"
  by pat_completeness auto
termination by (relation "measure (\<lambda>(_, _, _, _, n, _). n)") auto

declare takePackets.simps [simp del]

definition readOnce :: "tcp_env \<Rightarrow> 's socket_ops \<Rightarrow> 's tcp \<Rightarrow> ('s tcp \<times> bool) result" where
  "readOnce env ops s =
    (case socket s of None \<Rightarrow> Inl (Abort ''null'') | Some k \<Rightarrow>
     let readLimit = (if 0 < leftBytes s then int (leftBytes s)
           else int kSmallBufferSize - int (offsetBytes s) - int (readBytes s));
         full = int (buffer_size (active s)) - int (offsetBytes s) in
     if readLimit \<le> 0 then Inl (Abort ''Assert'')
     else if full < 0 \<or> full < int (readBytes s) \<or> full - int (readBytes s) < readLimit
     then Inl (Abort ''subspan'')
     else bind_result (so_read ops k (nat readLimit)) (\<lambda>(got, k').
       let s1 = s\<lparr>socket := Some k'\<rparr> in
       case got of
         None \<Rightarrow> Inr (emit env (Error kErrorCodeOther) s1, False)
       | Some bs \<Rightarrow>
         if bs = [] then Inr (s1, False)
         else if readLimit < int (length bs) then Inl (Abort ''overrun'')
         else let (plain, state) = ctr env (receiveKey s) (receiveState s) bs;
             s2 = (set_active (put (active s) (offsetBytes s + readBytes s) plain) s1)
               \<lparr>receiveState := state, readBytes := readBytes s + length bs\<rparr> in
           if 0 < leftBytes s
           then if leftBytes s < length bs then Inl (Abort ''Assert'')
             else let s3 = s2\<lparr>leftBytes := leftBytes s - length bs\<rparr> in
               if leftBytes s3 = 0
               then bind_result (socketPacket env
                   (region (active s3) (offsetBytes s3) (readBytes s3)) s3) (\<lambda>s4.
                 if \<not> alive ops s4 then Inr (s4, False)
                 else Inr (s4\<lparr>usingLargeBuffer := False, largeBuffer := zeros 0,
                   offsetBytes := 0, readBytes := 0\<rparr>, True))
               else Inr (s3\<lparr>some_received := some_received s3 + 1\<rparr>, True)
           else takePackets env ops (usingLargeBuffer s2) (offsetBytes s2) (readBytes s2) s2))"

definition available :: "'s socket_ops \<Rightarrow> 's tcp \<Rightarrow> bool" where
  "available ops s = (case socket s of None \<Rightarrow> False | Some k \<Rightarrow> so_available ops k)"

partial_function (option) readLoop ::
  "tcp_env \<Rightarrow> 's socket_ops \<Rightarrow> 's tcp \<Rightarrow> 's tcp result option" where
  [code]: "readLoop env ops s =
    (case readOnce env ops s of
       Inl e \<Rightarrow> Some (Inl e)
     | Inr (s', goes_on) \<Rightarrow>
         if goes_on \<and> alive ops s' \<and> available ops s' then readLoop env ops s' else Some (Inr s'))"

definition socketRead :: "tcp_env \<Rightarrow> 's socket_ops \<Rightarrow> 's tcp \<Rightarrow> 's tcp result option" where
  "socketRead env ops s =
    (if \<not> (0 < leftBytes s \<or> \<not> usingLargeBuffer s) then Some (Inl (Abort ''Expects''))
     else if \<not> alive ops s then Some (Inr (emit env (Error kErrorCodeOther) s))
     else readLoop env ops (if buffer_size (smallBuffer s) = 0
       then s\<lparr>smallBuffer := zeros kSmallBufferSize\<rparr> else s))"

section \<open>Sending\<close>

definition prepareConnectionStartPrefix ::
  "tcp_env \<Rightarrow> 's socket_ops \<Rightarrow> (nat \<Rightarrow> bytes) \<Rightarrow> 's tcp \<Rightarrow> (bytes \<times> 's tcp) result option" where
  "prepareConnectionStartPrefix env ops draws s =
    (if socket s = None \<or> protocol s = None then Some (Inl (Abort ''Expects''))
     else if connectionStarted s then Some (Inr ([], s))
     else case good_nonce (so_good_nonce ops) draws 0 of
         None \<Rightarrow> None
       | Some nonce \<Rightarrow>
         let k = connection_start (sha256 env) (ctr env) (the (protocol s)) (protocolDcId s) nonce in
         Some (Inr (start_prefix k,
           s\<lparr>connectionStarted := True, sendKey := start_send_key k, sendState := start_send_state k,
             receiveKey := start_receive_key k, receiveState := start_receive_state k\<rparr>)))"

definition sendData ::
  "tcp_env \<Rightarrow> 's socket_ops \<Rightarrow> (nat \<Rightarrow> bytes) \<Rightarrow> (nat \<Rightarrow> u32) \<Rightarrow> mtpBuffer \<Rightarrow> 's tcp
    \<Rightarrow> 's tcp result option" where
  "sendData env ops draws random buffer s =
    (if \<not> 2 < length buffer then Some (Inl (Abort ''Expects''))
     else case socket s of None \<Rightarrow> Some (Inr s) | Some k \<Rightarrow>
       (case prepareConnectionStartPrefix env ops draws s of
          None \<Rightarrow> None
        | Some (Inl e) \<Rightarrow> Some (Inl e)
        | Some (Inr (start, s1)) \<Rightarrow>
          Some (with_protocol s1 (\<lambda>p. bind_result (finalizePacket random p buffer) (\<lambda>bs.
            let (encrypted, state) = ctr env (sendKey s1) (sendState s1) bs in
            bind_result (so_write ops k start encrypted) (\<lambda>k'.
              Inr (s1\<lparr>sendState := state, socket := Some k'\<rparr>)))))))"

definition socketConnected ::
  "tcp_env \<Rightarrow> 's socket_ops \<Rightarrow> (nat \<Rightarrow> bytes) \<Rightarrow> (nat \<Rightarrow> u32) \<Rightarrow> mtpBuffer \<Rightarrow> 's tcp
    \<Rightarrow> 's tcp result option" where
  "socketConnected env ops draws random preparePQFake s =
    (if status s \<noteq> Waiting then Some (Inl (Abort ''Expects''))
     else sendData env ops draws random preparePQFake s)"

definition socketDisconnected :: "tcp_env \<Rightarrow> 's tcp \<Rightarrow> 's tcp" where
  "socketDisconnected env s =
    (if status s = Waiting \<or> status s = Ready then emit env Disconnected s else s)"

definition socketError :: "tcp_env \<Rightarrow> 's tcp \<Rightarrow> 's tcp" where
  "socketError env s = (if socket s = None then s else emit env (Error kErrorCodeOther) s)"

definition new_connection :: "bytes \<Rightarrow> 's tcp" where
  "new_connection nonce = \<lparr>socket = None, connectionStarted = False, offsetBytes = 0, readBytes = 0,
    leftBytes = 0, smallBuffer = zeros 0, largeBuffer = zeros 0, usingLargeBuffer = False,
    sendKey = replicate 32 0, sendState = ctr_start, receiveKey = replicate 32 0,
    receiveState = ctr_start, protocol = None, protocolDcId = 0, status = Waiting,
    checkNonce = nonce, receivedQueue = [], connected_lifetime = False, lifetime = False,
    some_received = 0, events = []\<rparr>"

text \<open>\<open>connectToServer\<close>: the secret is that of the proxy or of the server, the socket is new.\<close>

definition connectToServer :: "bytes \<Rightarrow> 's \<Rightarrow> 16 word \<Rightarrow> 's tcp \<Rightarrow> 's tcp result" where
  "connectToServer secret new_socket dcId s =
    (if status s = Finished then Inr s
     else if protocol s \<noteq> None \<or> protocolDcId s \<noteq> 0 then Inl (Abort ''Expects'')
     else bind_result (Create secret) (\<lambda>p.
       Inr (s\<lparr>protocol := Some p, socket := Some new_socket, protocolDcId := dcId,
         connected_lifetime := True, lifetime := True\<rparr>)))"


section \<open>What the session sees\<close>

text \<open>
  \<open>view\<close> forgets how bytes are received and which socket delivers them; \<open>deliver\<close> gives
  packets to a connection until it is disconnected.
\<close>

definition view :: "'s tcp \<Rightarrow> unit tcp" where
  "view s = \<lparr>socket = map_option (\<lambda>_. ()) (socket s), connectionStarted = connectionStarted s,
    offsetBytes = 0, readBytes = 0, leftBytes = 0, smallBuffer = zeros 0, largeBuffer = zeros 0,
    usingLargeBuffer = False, sendKey = sendKey s, sendState = sendState s,
    receiveKey = receiveKey s, receiveState = ctr_start, protocol = protocol s,
    protocolDcId = protocolDcId s, status = status s, checkNonce = checkNonce s,
    receivedQueue = receivedQueue s, connected_lifetime = connected_lifetime s,
    lifetime = lifetime s, some_received = 0, events = events s\<rparr>"

fun deliver :: "tcp_env \<Rightarrow> bytes list \<Rightarrow> unit tcp \<Rightarrow> unit tcp result" where
  "deliver env [] v = Inr v"
| "deliver env (p # ps) v =
    (if socket v = None then Inr v else bind_result (socketPacket env p v) (deliver env ps))"

lemma deliver_closed [simp]: "socket v = None \<Longrightarrow> deliver env ps v = Inr v"
  by (cases ps) simp_all

lemma deliver_append:
  "deliver env ps v = Inr w \<Longrightarrow> deliver env (ps @ qs) v = deliver env qs w"
proof (induction ps arbitrary: v)
  case (Cons p ps)
  show ?case
  proof (cases "socket v = None")
    case True
    with Cons.prems show ?thesis by simp
  next
    case False
    with Cons.prems obtain u where u: "socketPacket env p v = Inr u" "deliver env ps u = Inr w"
      by (auto simp: bind_result_Inr)
    from Cons.IH [OF u(2)] u(1) False show ?thesis by simp
  qed
qed simp

text \<open>The fields a handler of packets can change.\<close>

definition handled :: "'s tcp \<Rightarrow> 's tcp \<Rightarrow> bool" where
  "handled s s' \<longleftrightarrow> (\<exists>so st q cl lt ev. s' = s\<lparr>socket := so, status := st, receivedQueue := q,
    connected_lifetime := cl, lifetime := lt, events := ev\<rparr> \<and> (so = socket s \<or> so = None))"

lemma handled_refl: "handled s s"
proof -
  have "s = s\<lparr>socket := socket s, status := status s, receivedQueue := receivedQueue s,
      connected_lifetime := connected_lifetime s, lifetime := lifetime s, events := events s\<rparr>"
    by simp
  then show ?thesis unfolding handled_def by blast
qed

lemma handled_emit:
  assumes "s = t\<lparr>status := st, receivedQueue := q, connected_lifetime := cl\<rparr>"
  shows "handled t (emit env e s)"
proof -
  let ?ev = "events s @ [e]"
  have "emit env e s = t\<lparr>socket := socket t, status := st, receivedQueue := q,
      connected_lifetime := cl, lifetime := lifetime t, events := ?ev\<rparr>
    \<or> emit env e s = t\<lparr>socket := None, status := Finished, receivedQueue := q,
      connected_lifetime := False, lifetime := False, events := ?ev\<rparr>"
    using assms by (auto simp: emit_def disconnectFromServer_def Let_def)
  then show ?thesis unfolding handled_def by blast
qed

lemma handled_emit_same: "handled t (emit env e t)"
  by (rule handled_emit [where s = t and st = "status t" and q = "receivedQueue t"
        and cl = "connected_lifetime t"]) simp

lemma handled_reader:
  assumes "handled s s'"
  shows "offsetBytes s' = offsetBytes s" "readBytes s' = readBytes s" "leftBytes s' = leftBytes s"
    "smallBuffer s' = smallBuffer s" "largeBuffer s' = largeBuffer s"
    "usingLargeBuffer s' = usingLargeBuffer s" "receiveKey s' = receiveKey s"
    "receiveState s' = receiveState s" "protocol s' = protocol s" "active s' = active s"
    "socket s' = socket s \<or> socket s' = None"
  using assms by (auto simp: handled_def active_def)

lemma view_emit: "view (emit env e s) = emit env e (view s)"
  by (simp add: view_def emit_def disconnectFromServer_def Let_def)

lemma socketPacket_view:
  assumes "socketPacket env bs s = Inr s'"
  shows "socketPacket env bs (view s) = Inr (view s')"
proof -
  have sock: "socket s \<noteq> None"
    using assms by (cases "socket s = None") (simp_all add: socketPacket_def)
  obtain p where p: "protocol s = Some p"
    using assms sock by (cases "protocol s") (auto simp: socketPacket_def with_protocol_def)
  obtain data where data: "parsePacket p bs = Inr data"
    using assms sock p by (auto simp: socketPacket_def with_protocol_def bind_result_Inr)
  note d = sock p data
  have v: "socket (view s) = Some ()" "protocol (view s) = Some p" "status (view s) = status s"
    "checkNonce (view s) = checkNonce s" "receivedQueue (view s) = receivedQueue s"
    using sock p by (auto simp add: view_def)
  have q: "view s\<lparr>receivedQueue := q\<rparr> = view (s\<lparr>receivedQueue := q\<rparr>)"
    and r: "view s\<lparr>status := st, connected_lifetime := c\<rparr> = view (s\<lparr>status := st, connected_lifetime := c\<rparr>)"
    for q st c
    by (simp_all add: view_def)
  show ?thesis
    using assms d unfolding socketPacket_def with_protocol_def v
    by (auto simp: q r view_emit [symmetric] split: if_splits option.splits)
qed

lemma socketPacket_frame:
  assumes "socket s \<noteq> None" and "protocol s = Some p" and "readPacketLength p bs = int (length bs)"
  obtains s' where "socketPacket env bs s = Inr s'" and "handled s s'"
proof -
  obtain data where data: "parsePacket p bs = Inr data" "data \<noteq> []"
    using parsePacket_complete [OF assms(3)] .
  define s' where "s' = (if length data = 1
       then if data ! 0 \<noteq> 0 then emit env (Error (sint (data ! 0))) s else s
       else if status s = Ready
       then emit env ReceivedData (s\<lparr>receivedQueue := receivedQueue s @ [data]\<rparr>)
       else if status s = Waiting
       then (case readPQFakeReply env data of
           Some vnonce \<Rightarrow>
             if vnonce = checkNonce s
             then emit env Connected (s\<lparr>status := Ready, connected_lifetime := False\<rparr>)
             else emit env (Error kErrorCodeOther) s
         | None \<Rightarrow> emit env (Error kErrorCodeOther) s)
       else s)"
  have "socketPacket env bs s = Inr s'"
    using assms data(1) unfolding socketPacket_def with_protocol_def s'_def
    by (simp split: option.split)
  moreover have "handled s (emit env ReceivedData (s\<lparr>receivedQueue := receivedQueue s @ [data]\<rparr>))"
    by (rule handled_emit [where t = s and st = "status s" and cl = "connected_lifetime s"
          and q = "receivedQueue s @ [data]"]) simp
  moreover have "handled s (emit env Connected (s\<lparr>status := Ready, connected_lifetime := False\<rparr>))"
    by (rule handled_emit [where t = s and q = "receivedQueue s" and st = Ready and cl = False]) simp
  ultimately show thesis
    using that [of s'] handled_refl [of s] handled_emit_same [of s]
    by (simp add: s'_def split: option.splits if_splits)
qed


section \<open>The buffers keep what was read\<close>

definition buffered :: "'s tcp \<Rightarrow> bytes" where
  "buffered s = region (active s) (offsetBytes s) (readBytes s)"

text \<open>
  Between two reads either the start of a packet tells nothing yet, and there is room behind
  it, or the length of the packet is known and the rest of it fits.
\<close>

definition reading :: "protocol \<Rightarrow> 's tcp \<Rightarrow> bool" where
  "reading p s \<longleftrightarrow> protocol s = Some p \<and> buffer_size (smallBuffer s) = kSmallBufferSize
    \<and> (\<not> usingLargeBuffer s \<longrightarrow> buffer_size (largeBuffer s) = 0)
    \<and> (if leftBytes s = 0
       then \<not> usingLargeBuffer s \<and> offsetBytes s + kMinPacketBuffer \<le> kSmallBufferSize
         \<and> readPacketLength p (buffered s) = kUnknownSize
       else readPacketLength p (buffered s) = int (readBytes s + leftBytes s)
         \<and> offsetBytes s + readBytes s + leftBytes s \<le> buffer_size (active s))"

text \<open>
  In the loop over packets: the span \<open>available\<close> starts at \<open>off\<close> and holds what is
  buffered, also after the buffered bytes were moved to the front.
\<close>

definition spans :: "protocol \<Rightarrow> nat \<Rightarrow> 's tcp \<Rightarrow> bool" where
  "spans p off s \<longleftrightarrow> protocol s = Some p \<and> buffer_size (smallBuffer s) = kSmallBufferSize
    \<and> buffer_size (largeBuffer s) = 0 \<and> \<not> usingLargeBuffer s \<and> leftBytes s = 0
    \<and> offsetBytes s + kMinPacketBuffer \<le> kSmallBufferSize
    \<and> offsetBytes s + readBytes s \<le> kSmallBufferSize
    \<and> off + readBytes s \<le> kSmallBufferSize
    \<and> region (smallBuffer s) off (readBytes s) = buffered s
    \<and> (off = offsetBytes s
       \<or> kMinPacketBuffer \<le> off \<and> offsetBytes s + readBytes s \<le> kMinPacketBuffer)"

lemma view_reader [simp]:
  "view (s\<lparr>offsetBytes := a\<rparr>) = view s" "view (s\<lparr>readBytes := a\<rparr>) = view s"
  "view (s\<lparr>leftBytes := a\<rparr>) = view s" "view (s\<lparr>smallBuffer := b\<rparr>) = view s"
  "view (s\<lparr>largeBuffer := b\<rparr>) = view s" "view (s\<lparr>usingLargeBuffer := c\<rparr>) = view s"
  "view (s\<lparr>receiveState := d\<rparr>) = view s" "view (s\<lparr>some_received := a\<rparr>) = view s"
  by (simp_all add: view_def)

lemma buffered_reader [simp]:
  "buffered (s\<lparr>leftBytes := a\<rparr>) = buffered s" "buffered (s\<lparr>some_received := a\<rparr>) = buffered s"
  "buffered (s\<lparr>socket := b\<rparr>) = buffered s" "buffered (s\<lparr>receiveState := c\<rparr>) = buffered s"
  by (simp_all add: buffered_def active_def)

lemma ensure_min:
  assumes "buffer_size (smallBuffer s) = kSmallBufferSize" and "\<not> usingLargeBuffer s"
    and "offsetBytes s + readBytes s \<le> kSmallBufferSize"
  shows "ensureAvailableInBuffer kMinPacketBuffer s
    = Inr (if kMinPacketBuffer \<le> kSmallBufferSize - offsetBytes s then s
        else s\<lparr>smallBuffer := put (smallBuffer s) 0 (buffered s), offsetBytes := 0\<rparr>)"
proof -
  have "kMinPacketBuffer \<le> kSmallBufferSize"
    by (simp add: kMinPacketBuffer_def kSmallBufferSize_def)
  moreover have "\<not> kSmallBufferSize - offsetBytes s < readBytes s" using assms(3) by linarith
  ultimately show ?thesis
    using assms by (simp add: ensureAvailableInBuffer_def active_def buffered_def Let_def)
qed

lemma ensure_packet:
  assumes "buffer_size (smallBuffer s) = kSmallBufferSize" and "\<not> usingLargeBuffer s"
    and "buffer_size (largeBuffer s) = 0" and "offsetBytes s + readBytes s \<le> kSmallBufferSize"
    and "0 < n" and "readBytes s \<le> n"
  obtains off small large using' where
    "ensureAvailableInBuffer n s = Inr (s\<lparr>offsetBytes := off, smallBuffer := small,
      largeBuffer := large, usingLargeBuffer := using'\<rparr>)"
    and "buffer_size small = kSmallBufferSize" and "\<not> using' \<longrightarrow> buffer_size large = 0"
    and "region (if using' then large else small) off (readBytes s) = buffered s"
    and "off + n \<le> buffer_size (if using' then large else small)"
proof -
  let ?bs = "buffered s"
  have bs: "?bs = region (smallBuffer s) (offsetBytes s) (readBytes s)" "length ?bs = readBytes s"
    using assms(2) by (simp_all add: buffered_def active_def)
  have front: "region (put b 0 ?bs) 0 (readBytes s) = ?bs" for b
    using region_put_here [of b 0 ?bs] by (simp add: bs(2))
  have a: "active s = smallBuffer s" using assms(2) by (simp add: active_def)
  have room: "\<not> kSmallBufferSize - offsetBytes s < readBytes s" using assms(4) by linarith
  consider "n \<le> kSmallBufferSize - offsetBytes s"
    | "\<not> n \<le> kSmallBufferSize - offsetBytes s" "n \<le> kSmallBufferSize"
    | "\<not> n \<le> kSmallBufferSize - offsetBytes s" "\<not> n \<le> kSmallBufferSize" by blast
  then show thesis
  proof cases
    case 1
    then have e: "ensureAvailableInBuffer n s = Inr (s\<lparr>offsetBytes := offsetBytes s,
        smallBuffer := smallBuffer s, largeBuffer := largeBuffer s, usingLargeBuffer := False\<rparr>)"
      using assms room by (simp add: ensureAvailableInBuffer_def a Let_def)
    show thesis by (rule that [OF e]) (use 1 assms bs in simp_all)
  next
    case 2
    then have e: "ensureAvailableInBuffer n s = Inr (s\<lparr>offsetBytes := 0,
        smallBuffer := put (smallBuffer s) 0 ?bs, largeBuffer := largeBuffer s, usingLargeBuffer := False\<rparr>)"
      using assms room by (simp add: ensureAvailableInBuffer_def a Let_def buffered_def)
    show thesis by (rule that [OF e]) (use 2 assms front in simp_all)
  next
    case 3
    then have e: "ensureAvailableInBuffer n s = Inr (s\<lparr>offsetBytes := 0,
        smallBuffer := smallBuffer s, largeBuffer := put (zeros n) 0 ?bs, usingLargeBuffer := True\<rparr>)"
      using assms room by (simp add: ensureAvailableInBuffer_def a Let_def buffered_def)
    show thesis by (rule that [OF e]) (use 3 assms front in simp_all)
  qed
qed

lemma spans_next:
  assumes "spans p off s" and "n \<le> readBytes s" and "4 < n"
  defines "t \<equiv> s\<lparr>offsetBytes := offsetBytes s + n, readBytes := readBytes s - n\<rparr>"
  obtains t' where "ensureAvailableInBuffer kMinPacketBuffer t = Inr t'" and "spans p (off + n) t'"
    and "readBytes t' = readBytes s - n" and "buffered t' = drop n (buffered s)"
    and "view t' = view s" and "receiveKey t' = receiveKey s" and "receiveState t' = receiveState s"
    and "socket t' = socket s"
proof -
  note sp = assms(1) [unfolded spans_def]
  have bt: "buffered t = drop n (buffered s)"
    unfolding t_def buffered_def active_def by (subst drop_region [OF assms(2)]) simp
  have rest: "region (smallBuffer s) (off + n) (readBytes s - n) = drop n (buffered s)"
    using sp drop_region [OF assms(2), of "smallBuffer s" off] by simp
  have e: "ensureAvailableInBuffer kMinPacketBuffer t
      = Inr (if kMinPacketBuffer \<le> kSmallBufferSize - offsetBytes t then t
          else t\<lparr>smallBuffer := put (smallBuffer t) 0 (buffered t), offsetBytes := 0\<rparr>)"
    by (rule ensure_min) (use sp assms(2) in \<open>simp_all add: t_def\<close>)
  have len: "length (buffered t) = readBytes s - n" by (simp add: buffered_def t_def)
  show thesis
  proof (cases "kMinPacketBuffer \<le> kSmallBufferSize - offsetBytes t")
    case True
    have "spans p (off + n) t"
      unfolding spans_def bt using sp rest True assms(2,3)
      by (auto simp: t_def kMinPacketBuffer_def kSmallBufferSize_def)
    with True show thesis
      by (intro that [of t]) (simp_all add: e bt, simp_all add: t_def)
  next
    case False
    define t' where "t' = t\<lparr>smallBuffer := put (smallBuffer t) 0 (buffered t), offsetBytes := 0\<rparr>"
    have at: "off = offsetBytes s"
      using sp False assms(2) by (auto simp: t_def kMinPacketBuffer_def kSmallBufferSize_def)
    have far: "kMinPacketBuffer \<le> off + n" and short: "readBytes s - n < kMinPacketBuffer"
      using sp False at by (auto simp: t_def kMinPacketBuffer_def kSmallBufferSize_def)
    have front: "buffered t' = buffered t"
      using region_put_here [of "smallBuffer t" 0 "buffered t"] sp
      by (simp add: t'_def buffered_def [of "t\<lparr>smallBuffer := _, offsetBytes := _\<rparr>"] active_def len)
        (simp add: t_def buffered_def)
    have same: "region (smallBuffer t') (off + n) (readBytes s - n) = buffered t'"
      unfolding front bt using rest far short
      by (simp add: t'_def region_put_other len) (simp add: t_def)
    have "spans p (off + n) t'"
      unfolding spans_def using sp same far short assms(2)
      by (simp add: t'_def t_def kMinPacketBuffer_def kSmallBufferSize_def)
    then show thesis
      by (intro that [of t']) (use False front bt in \<open>simp_all add: e t'_def\<close>, simp_all add: t_def)
  qed
qed


text \<open>
  What one round of reading gives, when the bytes are the packets \<open>ps\<close>, a rest \<open>r\<close>, and
  are broken after them or not: a round that goes on has given out all the packets and
  keeps the rest, a round that ends has lost its socket or reported the broken rest.
\<close>

definition round_result ::
  "tcp_env \<Rightarrow> 's socket_ops \<Rightarrow> protocol \<Rightarrow> 's tcp \<Rightarrow> bytes list \<times> bytes \<times> bool \<Rightarrow> 's tcp \<Rightarrow> bool \<Rightarrow> bool" where
  "round_result env ops p s content s' go \<longleftrightarrow> (case content of (ps, r, bad) \<Rightarrow>
    (socket s' = socket s \<or> socket s' = None)
    \<and> (\<exists>j v. j \<le> length ps \<and> deliver env (take j ps) (view s) = Inr v
      \<and> (if go then j = length ps \<and> \<not> bad \<and> view s' = v \<and> socket s' = socket s
            \<and> receiveKey s' = receiveKey s \<and> receiveState s' = receiveState s
            \<and> reading p s' \<and> buffered s' = r
         else \<not> alive ops s' \<and> view s' = v
            \<or> j = length ps \<and> bad \<and> view s' = emit env (Error kErrorCodeOther) v)))"

lemma socket_emit: "socket (emit env e s) = socket s \<or> socket (emit env e s) = None"
  by (simp add: emit_def disconnectFromServer_def Let_def)

lemma round_result_cong:
  assumes "view s = view t" and "socket s = socket t" and "receiveKey s = receiveKey t"
    and "receiveState s = receiveState t"
  shows "round_result env ops p s content s' go = round_result env ops p t content s' go"
  unfolding round_result_def assms ..

lemma round_result_first:
  assumes "deliver env [q] (view s) = Inr (view s1)" and "view s2 = view s1"
    and "socket s2 = socket s" and "receiveKey s2 = receiveKey s" and "receiveState s2 = receiveState s"
    and "round_result env ops p s2 (ps, r, bad) s' go"
  shows "round_result env ops p s (q # ps, r, bad) s' go"
proof -
  from assms(6) obtain j v where j: "j \<le> length ps" "deliver env (take j ps) (view s2) = Inr v"
    and rest: "if go then j = length ps \<and> \<not> bad \<and> view s' = v \<and> socket s' = socket s2
            \<and> receiveKey s' = receiveKey s2 \<and> receiveState s' = receiveState s2
            \<and> reading p s' \<and> buffered s' = r
         else \<not> alive ops s' \<and> view s' = v
            \<or> j = length ps \<and> bad \<and> view s' = emit env (Error kErrorCodeOther) v"
    unfolding round_result_def by auto
  have "deliver env (take (Suc j) (q # ps)) (view s) = Inr v"
    using deliver_append [OF assms(1), of "take j ps"] j(2) assms(2) by simp
  moreover have "socket s' = socket s \<or> socket s' = None"
    using assms(3,6) by (simp add: round_result_def)
  ultimately show ?thesis
    using j(1) rest assms(3-5) unfolding round_result_def prod.case
    by (intro conjI exI [of _ "Suc j"] exI [of _ v]) (simp_all split: if_splits)
qed

lemma takePackets_round:
  assumes "spans p off s" and "n = readBytes s" and "socket s \<noteq> None"
    and "packet_stream (readPacketLength p) (buffered s) = content"
  shows "\<exists>s' go. takePackets env ops False off n s = Inr (s', go)
    \<and> round_result env ops p s content s' go"
  using assms
proof (induction n arbitrary: off s content rule: less_induct)
  case (less n)
  note sp = less.prems(1) [unfolded spans_def] and n = less.prems(2)
  obtain k where k: "socket s = Some k" using less.prems(3) by blast
  have len: "length (buffered s) = n" by (simp add: buffered_def n)
  have av: "region (smallBuffer s) off n = buffered s" using sp n by simp
  let ?len = "readPacketLength p"
  have step: "takePackets env ops False off n s =
    (if n = 0 then Inr (s, True)
     else if ?len (buffered s) = kUnknownSize then Inr (s, True)
     else if ?len (buffered s) \<le> 0 then Inr (emit env (Error kErrorCodeOther) s, False)
     else if ?len (buffered s) \<le> int n
     then bind_result (socketPacket env (take (nat (?len (buffered s))) (buffered s)) s) (\<lambda>s1.
           if \<not> alive ops s1 then Inr (s1, False)
           else if readBytes s1 < nat (?len (buffered s)) then Inl (Abort ''negative'')
           else bind_result (ensureAvailableInBuffer kMinPacketBuffer
               (s1\<lparr>offsetBytes := offsetBytes s1 + nat (?len (buffered s)),
                  readBytes := readBytes s1 - nat (?len (buffered s))\<rparr>)) (\<lambda>s2.
             takePackets env ops False (off + nat (?len (buffered s))) (n - nat (?len (buffered s))) s2))
     else bind_result (ensureAvailableInBuffer (nat (?len (buffered s)))
             (s\<lparr>leftBytes := nat (?len (buffered s)) - n\<rparr>)) (\<lambda>s1.
           Inr (s1\<lparr>some_received := some_received s1 + 1\<rparr>, True)))"
    by (subst takePackets.simps) (use sp in \<open>simp add: n [symmetric] with_protocol_def Let_def av\<close>)
  have stays: "reading p s" if "?len (buffered s) = kUnknownSize"
    using sp that by (simp add: reading_def)
  show ?case
  proof (cases "buffered s" rule: framing.len_cases [where protocol = p])
    case 1
    then have "content = ([], buffered s, False)"
      using less.prems(4) framing.stream_unknown by simp
    moreover have "takePackets env ops False off n s = Inr (s, True)" using 1 by (simp add: step)
    moreover have "round_result env ops p s ([], buffered s, False) s True"
      using stays [OF 1(1)] by (simp add: round_result_def)
    ultimately show ?thesis by blast
  next
    case 2
    then have "content = ([], buffered s, True)"
      using less.prems(4) framing.stream_invalid by simp
    moreover have "n \<noteq> 0"
      using 2 len framing.unknown_empty [of p] by (auto simp: kUnknownSize_def kInvalidSize_def)
    then have "takePackets env ops False off n s = Inr (emit env (Error kErrorCodeOther) s, False)"
      using 2 by (simp add: step kUnknownSize_def kInvalidSize_def)
    moreover have "round_result env ops p s ([], buffered s, True) (emit env (Error kErrorCodeOther) s) False"
      using socket_emit by (simp add: round_result_def view_emit)
    ultimately show ?thesis by blast
  next
    case (3 m)
    have pos: "?len (buffered s) \<noteq> kUnknownSize" using 3(1) by (simp add: kUnknownSize_def)
    have ne: "n \<noteq> 0" using pos len framing.unknown_empty [of p] by auto
    show ?thesis
    proof (cases "m \<le> n")
      case False
      define t where "t = s\<lparr>leftBytes := m - n\<rparr>"
      have bt: "buffered t = buffered s" by (simp add: t_def)
      have t: "buffer_size (smallBuffer t) = kSmallBufferSize" "\<not> usingLargeBuffer t"
        "buffer_size (largeBuffer t) = 0" "offsetBytes t + readBytes t \<le> kSmallBufferSize"
        "0 < m" "readBytes t \<le> m"
        using sp False 3 n by (simp_all add: t_def)
      obtain off' small large using' where e: "ensureAvailableInBuffer m t = Inr (t\<lparr>offsetBytes := off',
          smallBuffer := small, largeBuffer := large, usingLargeBuffer := using'\<rparr>)"
        and f: "buffer_size small = kSmallBufferSize" "\<not> using' \<longrightarrow> buffer_size large = 0"
        "region (if using' then large else small) off' (readBytes t) = buffered t"
        "off' + m \<le> buffer_size (if using' then large else small)"
        using ensure_packet [OF t] .
      define s' where "s' = t\<lparr>offsetBytes := off', smallBuffer := small, largeBuffer := large,
          usingLargeBuffer := using', some_received := some_received t + 1\<rparr>"
      have run: "takePackets env ops False off n s = Inr (s', True)"
        using e ne pos 3 False by (simp add: step t_def s'_def)
      have "buffered s' = region (if using' then large else small) off' (readBytes t)"
        by (simp add: s'_def buffered_def active_def)
      then have b: "buffered s' = buffered s" using f(3) bt by simp
      have "reading p s'"
        using sp f 3 False n unfolding reading_def b
        by (auto simp: s'_def t_def active_def)
      moreover have "view s' = view s" "socket s' = socket s" "receiveKey s' = receiveKey s"
        "receiveState s' = receiveState s"
        by (simp_all add: s'_def t_def)
      ultimately have "round_result env ops p s ([], buffered s, False) s' True"
        using b by (simp add: round_result_def)
      moreover have "content = ([], buffered s, False)"
        using less.prems(4) framing.stream_partial [OF 3(1)] len False by simp
      ultimately show ?thesis using run by blast
    next
      case True
      define q where "q = take m (buffered s)"
      obtain ps r bad where rest: "packet_stream ?len (drop m (buffered s)) = (ps, r, bad)"
        by (metis prod_cases3)
      have content: "content = (q # ps, r, bad)"
        using framing.stream_packet [OF 3(1) _ _ rest] 3 True len less.prems(4) by (simp add: q_def)
      have ql: "?len q = int (length q)"
        using framing.known_take [OF 3(1,2)] True len by (simp add: q_def)
      obtain s1 where s1: "socketPacket env q s = Inr s1" "handled s s1"
        using socketPacket_frame [of s p q env] k sp ql by auto
      have d: "deliver env [q] (view s) = Inr (view s1)"
        using socketPacket_view [OF s1(1)] k by (simp add: view_def)
      note h = handled_reader [OF s1(2)]
      have run: "takePackets env ops False off n s = (if \<not> alive ops s1 then Inr (s1, False)
           else if readBytes s1 < m then Inl (Abort ''negative'')
           else bind_result (ensureAvailableInBuffer kMinPacketBuffer
               (s1\<lparr>offsetBytes := offsetBytes s1 + m, readBytes := readBytes s1 - m\<rparr>)) (\<lambda>s2.
             takePackets env ops False (off + m) (n - m) s2))"
        using ne pos 3 True s1(1) by (simp add: step q_def)
      show ?thesis
      proof (cases "alive ops s1")
        case False
        then have "takePackets env ops False off n s = Inr (s1, False)" using run by simp
        moreover have "round_result env ops p s content s1 False"
          unfolding round_result_def content prod.case
          by (intro conjI exI [of _ 1] exI [of _ "view s1"]) (use d False h(11) in simp_all)
        ultimately show ?thesis by blast
      next
        case True': True
        have k1: "socket s1 = Some k" using True' h(11) k by (auto simp: alive_def)
        have "buffered s1 = buffered s" using h by (simp add: buffered_def)
        then have sp1: "spans p off s1" using less.prems(1) h by (simp add: spans_def)
        have m1: "m \<le> readBytes s1" using True n h(2) by simp
        obtain s2 where s2: "ensureAvailableInBuffer kMinPacketBuffer
            (s1\<lparr>offsetBytes := offsetBytes s1 + m, readBytes := readBytes s1 - m\<rparr>) = Inr s2"
          and sp2: "spans p (off + m) s2" and r2: "readBytes s2 = readBytes s1 - m"
          and b2: "buffered s2 = drop m (buffered s1)" and v2: "view s2 = view s1"
          and c2: "receiveKey s2 = receiveKey s1" "receiveState s2 = receiveState s1" "socket s2 = socket s1"
          using spans_next [OF sp1 m1 3(2)] by metis
        have "n - m < n" using 3 ne by simp
        moreover have "n - m = readBytes s2" using r2 h(2) n by simp
        moreover have "socket s2 \<noteq> None" using k1 c2(3) by simp
        moreover have "packet_stream ?len (buffered s2) = (ps, r, bad)"
          using rest b2 \<open>buffered s1 = buffered s\<close> by simp
        ultimately obtain s' go where s': "takePackets env ops False (off + m) (n - m) s2 = Inr (s', go)"
          and rr: "round_result env ops p s2 (ps, r, bad) s' go"
          using less.IH [OF _ sp2] by blast
        have "takePackets env ops False off n s = Inr (s', go)"
          using run True' m1 s2 s' by simp
        moreover have "round_result env ops p s content s' go"
          unfolding content
          by (rule round_result_first [OF d v2 _ _ _ rr]) (use c2 k k1 h in simp_all)
        ultimately show ?thesis by blast
      qed
    qed
  qed
qed


section \<open>Reading from a socket\<close>

text \<open>A connection that was given up has no socket; one with a socket listens to it.\<close>

definition closed_when_finished :: "'s tcp \<Rightarrow> bool" where
  "closed_when_finished s \<longleftrightarrow>
    (status s = Finished \<longrightarrow> socket s = None) \<and> (socket s \<noteq> None \<longrightarrow> lifetime s)"

lemma closed_emit: "closed_when_finished s \<Longrightarrow> closed_when_finished (emit env e s)"
  by (auto simp: closed_when_finished_def emit_def disconnectFromServer_def Let_def)

lemma emit_hangs_up:
  assumes "closed_when_finished s" and "hangs_up env (events s @ [e])"
  shows "socket (emit env e s) = None"
  using assms by (auto simp: closed_when_finished_def emit_def disconnectFromServer_def Let_def)

lemma closed_socketPacket:
  assumes "socketPacket env bs s = Inr s'" and "closed_when_finished s"
  shows "closed_when_finished s'"
proof -
  have q: "closed_when_finished (s\<lparr>receivedQueue := q\<rparr>)" for q
    using assms(2) by (simp add: closed_when_finished_def)
  have r: "closed_when_finished (s\<lparr>status := Ready, connected_lifetime := False\<rparr>)"
    using assms(2) by (simp add: closed_when_finished_def)
  obtain p data where "protocol s = Some p" and "parsePacket p bs = Inr data" and "socket s \<noteq> None"
    using assms(1) by (cases "socket s = None"; cases "protocol s")
      (auto simp: socketPacket_def with_protocol_def bind_result_Inr)
  then show ?thesis
    using assms q r unfolding socketPacket_def with_protocol_def
    by (auto simp: closed_emit split: if_splits option.splits)
qed

lemma closed_deliver:
  "deliver env ps v = Inr w \<Longrightarrow> closed_when_finished v \<Longrightarrow> closed_when_finished w"
  by (induction ps arbitrary: v)
    (auto simp: bind_result_Inr dest: closed_socketPacket split: if_splits)

lemma closed_view: "closed_when_finished (view s) = closed_when_finished s"
  by (simp add: closed_when_finished_def view_def)

lemma socket_view: "socket (view s) = None \<longleftrightarrow> socket s = None"
  by (simp add: view_def)

text \<open>A cipher that works on a stream: it can be applied to the parts of it one by one.\<close>

definition stream_cipher :: "ctr_mode \<Rightarrow> bool" where
  "stream_cipher c \<longleftrightarrow>
    (\<forall>k s. c k s [] = ([], s))
    \<and> (\<forall>k s bs. length (fst (c k s bs)) = length bs)
    \<and> (\<forall>k s a b. c k s (a @ b) = (case c k s a of (x, s') \<Rightarrow> case c k s' b of (y, s'') \<Rightarrow> (x @ y, s'')))
    \<and> (\<forall>k s bs. fst (c k s (fst (c k s bs))) = bs)
    \<and> (\<forall>k s a b. length a = length b \<longrightarrow> snd (c k s a) = snd (c k s b))"

lemma stream_cipher_length: "stream_cipher c \<Longrightarrow> length (fst (c k s bs)) = length bs"
  by (simp add: stream_cipher_def)

lemma stream_cipher_append:
  assumes "stream_cipher c"
  shows "c k s (a @ b)
    = (fst (c k s a) @ fst (c k (snd (c k s a)) b), snd (c k (snd (c k s a)) b))"
proof -
  have "c k s (a @ b) = (case c k s a of (x, s') \<Rightarrow> case c k s' b of (y, s'') \<Rightarrow> (x @ y, s''))"
    using assms unfolding stream_cipher_def by blast
  then show ?thesis by (simp only: case_prod_beta)
qed

lemma stream_cipher_Nil: "stream_cipher c \<Longrightarrow> c k s [] = ([], s)"
  by (simp add: stream_cipher_def)

text \<open>The first call of \<open>socketRead\<close> allocates the small buffer.\<close>

definition allocated :: "'s tcp \<Rightarrow> 's tcp" where
  "allocated s = (if buffer_size (smallBuffer s) = 0
    then s\<lparr>smallBuffer := zeros kSmallBufferSize\<rparr> else s)"

lemma view_allocated [simp]: "view (allocated s) = view s"
  by (simp add: allocated_def)

lemma allocated_reading: "reading p s \<Longrightarrow> allocated s = s"
  by (simp add: reading_def allocated_def kSmallBufferSize_def)

lemma allocated_fields [simp]:
  "receiveKey (allocated s) = receiveKey s" "receiveState (allocated s) = receiveState s"
  "socket (allocated s) = socket s"
  by (simp_all add: allocated_def)

text \<open>
  What reading gives: the packets of the bytes \<open>got\<close> go to the session, all of them as long
  as the connection lives.
\<close>

definition read_result ::
  "tcp_env \<Rightarrow> 's socket_ops \<Rightarrow> protocol \<Rightarrow> 's tcp \<Rightarrow> bytes \<Rightarrow> 's tcp \<Rightarrow> bool" where
  "read_result env ops p s got s' \<longleftrightarrow>
    (case packet_stream (readPacketLength p)
        (buffered s @ fst (ctr env (receiveKey s) (receiveState s) got)) of
      (ps, r, bad) \<Rightarrow>
        if alive ops s'
        then \<not> bad \<and> deliver env ps (view s) = Inr (view s') \<and> buffered s' = r \<and> reading p s'
          \<and> receiveKey s' = receiveKey s
          \<and> receiveState s' = snd (ctr env (receiveKey s) (receiveState s) got)
        else \<exists>j v. j \<le> length ps \<and> deliver env (take j ps) (view s) = Inr v
          \<and> (view s' = v \<or> view s' = emit env (Error kErrorCodeOther) v))"

lemma read_result_idle:
  assumes "packet_stream (readPacketLength p) (buffered s) = ([], buffered s, False)"
    and "stream_cipher (ctr env)" and "view s1 = view s" and "buffered s1 = buffered s"
    and "receiveState s1 = receiveState s" and "receiveKey s1 = receiveKey s" and "reading p s1"
  shows "read_result env ops p s [] s1"
proof -
  have "ctr env (receiveKey s) (receiveState s) [] = ([], receiveState s)"
    by (rule stream_cipher_Nil [OF assms(2)])
  then show ?thesis using assms by (simp add: read_result_def)
qed

lemma read_result_allocated:
  assumes "read_result env ops p s got s'"
  shows "read_result env ops p s got (allocated s')"
proof (cases "alive ops s'")
  case True
  then have "reading p s'" using assms by (auto simp: read_result_def split: prod.splits)
  then show ?thesis using assms by (simp add: allocated_reading)
next
  case False
  then have "\<not> alive ops (allocated s')" by (simp add: alive_def)
  with assms False show ?thesis unfolding read_result_def view_allocated by (simp only: if_False)
qed

text \<open>The error of a socket ends a connection after the packets it has given out.\<close>

lemma read_result_error:
  assumes "read_result env ops p s0 got s" and "alive ops s" and "view s' = emit env (Error kErrorCodeOther) (view s)"
    and "\<not> alive ops s'"
  shows "read_result env ops p s0 got s'"
proof -
  obtain ps r bad where c: "packet_stream (readPacketLength p)
      (buffered s0 @ fst (ctr env (receiveKey s0) (receiveState s0) got)) = (ps, r, bad)"
    by (metis prod_cases3)
  have "deliver env (take (length ps) ps) (view s0) = Inr (view s)"
    using assms(1,2) by (simp add: read_result_def c)
  with assms(3,4) show ?thesis
    unfolding read_result_def c prod.case by (auto intro!: exI [of _ "length ps"])
qed

text \<open>What the socket does for itself is not seen.\<close>

lemma read_result_socket:
  assumes "read_result env ops p s0 got s" and "alive ops s" and "so_connected ops k"
  shows "read_result env ops p s0 got (s\<lparr>socket := Some k\<rparr>)"
proof -
  have "view (s\<lparr>socket := Some k\<rparr>) = view s"
    using assms(2) by (cases "socket s") (simp_all add: alive_def view_def)
  moreover have "reading p (s\<lparr>socket := Some k\<rparr>) = reading p s"
    unfolding reading_def buffered_reader by (simp add: active_def)
  moreover have "alive ops (s\<lparr>socket := Some k\<rparr>)" using assms(3) by (simp add: alive_def)
  ultimately show ?thesis using assms(1,2) by (simp add: read_result_def)
qed

lemma read_result_append:
  assumes cipher: "stream_cipher (ctr env)" and first: "read_result env ops p s a t"
    and alive: "alive ops t" and "read_result env ops p t b s'"
  shows "read_result env ops p s (a @ b) s'"
proof -
  let ?len = "readPacketLength p" and ?c = "ctr env (receiveKey s)"
  obtain ps1 r1 bad1 where c1: "packet_stream ?len (buffered s @ fst (?c (receiveState s) a)) = (ps1, r1, bad1)"
    by (metis prod_cases3)
  have t: "\<not> bad1" "deliver env ps1 (view s) = Inr (view t)" "buffered t = r1" "reading p t"
    "receiveKey t = receiveKey s" "receiveState t = snd (?c (receiveState s) a)"
    using first alive by (simp_all add: read_result_def c1)
  obtain ps2 r2 bad2 where c2: "packet_stream ?len (r1 @ fst (?c (receiveState t) b)) = (ps2, r2, bad2)"
    by (metis prod_cases3)
  have both: "?c (receiveState s) (a @ b)
      = (fst (?c (receiveState s) a) @ fst (?c (receiveState t) b), snd (?c (receiveState t) b))"
    using stream_cipher_append [OF cipher] t(6) by simp
  have whole: "packet_stream ?len (buffered s @ fst (?c (receiveState s) (a @ b)))
      = (ps1 @ ps2, r2, bad2)"
    using framing.stream_append [OF c1, of "fst (?c (receiveState t) b)"] t(1) c2 both by simp
  have two: "if alive ops s'
        then \<not> bad2 \<and> deliver env ps2 (view t) = Inr (view s') \<and> buffered s' = r2 \<and> reading p s'
          \<and> receiveKey s' = receiveKey s \<and> receiveState s' = snd (?c (receiveState t) b)
        else \<exists>j v. j \<le> length ps2 \<and> deliver env (take j ps2) (view t) = Inr v
          \<and> (view s' = v \<or> view s' = emit env (Error kErrorCodeOther) v)"
    using assms(4) unfolding read_result_def t(3,5) c2 prod.case .
  show ?thesis
  proof (cases "alive ops s'")
    case True
    with two show ?thesis
      using deliver_append [OF t(2), of ps2] unfolding read_result_def whole prod.case unfolding both by simp
  next
    case False
    with two obtain j v where j: "j \<le> length ps2" "deliver env (take j ps2) (view t) = Inr v"
      "view s' = v \<or> view s' = emit env (Error kErrorCodeOther) v"
      by auto
    have "deliver env (take (length ps1 + j) (ps1 @ ps2)) (view s) = Inr v"
      using deliver_append [OF t(2), of "take j ps2"] j(2) by simp
    with j False show ?thesis
      unfolding read_result_def whole prod.case by (auto intro!: exI [of _ "length ps1 + j"])
  qed
qed

text \<open>
  The contract of a socket: \<open>upcoming k x\<close> is what it still gives when \<open>x\<close> arrives after what
  has arrived. A read gives the start of it, at least one byte if there is one without any
  further arrival, and then bytes are available.
\<close>

locale byte_socket =
  fixes ops :: "'s socket_ops"
    and good :: "'s \<Rightarrow> bool"
    and upcoming :: "'s \<Rightarrow> bytes \<Rightarrow> bytes"
  assumes read_gives: "good k \<Longrightarrow> so_connected ops k \<Longrightarrow> 0 < n \<Longrightarrow>
      \<exists>bs k'. so_read ops k n = Inr (Some bs, k') \<and> good k' \<and> length bs \<le> n
        \<and> (\<forall>x. upcoming k x = bs @ upcoming k' x) \<and> (upcoming k [] \<noteq> [] \<longrightarrow> bs \<noteq> [])"
    and available_pending: "good k \<Longrightarrow> so_connected ops k \<Longrightarrow>
      so_available ops k \<longleftrightarrow> upcoming k [] \<noteq> []"
begin

lemma readOnce_round:
  assumes rd: "reading p s" and k: "socket s = Some k" "good k" "so_connected ops k"
    and cipher: "stream_cipher (ctr env)"
  obtains bs k' s' go where "readOnce env ops s = Inr (s', go)" and "good k'"
    and "\<And>x. upcoming k x = bs @ upcoming k' x" and "upcoming k [] \<noteq> [] \<longrightarrow> bs \<noteq> []"
    and "bs = [] \<Longrightarrow> s' = s\<lparr>socket := Some k'\<rparr> \<and> \<not> go"
    and "bs \<noteq> [] \<Longrightarrow> round_result env ops p
      (s\<lparr>socket := Some k', receiveState := snd (ctr env (receiveKey s) (receiveState s) bs)\<rparr>)
      (packet_stream (readPacketLength p)
        (buffered s @ fst (ctr env (receiveKey s) (receiveState s) bs))) s' go"
proof -
  note r = rd [unfolded reading_def]
  define limit where "limit = (if 0 < leftBytes s then leftBytes s
      else kSmallBufferSize - offsetBytes s - readBytes s)"
  have unknown: "readBytes s < 4" "\<not> usingLargeBuffer s" "offsetBytes s + kMinPacketBuffer \<le> kSmallBufferSize"
    if "leftBytes s = 0"
    using r that framing.unknown_short [of p "buffered s"] by (auto simp: buffered_def)
  have limit0: "0 < limit"
    using unknown by (auto simp: limit_def kMinPacketBuffer_def)
  have fits: "offsetBytes s + readBytes s + limit \<le> buffer_size (active s)"
    using r unknown by (auto simp: limit_def active_def kMinPacketBuffer_def split: if_splits)
  have limit_int: "(if 0 < leftBytes s then int (leftBytes s)
      else int kSmallBufferSize - int (offsetBytes s) - int (readBytes s)) = int limit"
    using unknown by (auto simp: limit_def kMinPacketBuffer_def)
  obtain bs k' where read: "so_read ops k limit = Inr (Some bs, k')" and k': "good k'"
    "length bs \<le> limit" "\<And>x. upcoming k x = bs @ upcoming k' x"
    "upcoming k [] \<noteq> [] \<longrightarrow> bs \<noteq> []"
    using read_gives [OF k(2,3) limit0] by blast
  obtain plain state where c: "ctr env (receiveKey s) (receiveState s) bs = (plain, state)"
    by fastforce
  have pl: "length plain = length bs"
    using stream_cipher_length [OF cipher, of "receiveKey s" "receiveState s" bs] c by simp
  define s1 where "s1 = s\<lparr>socket := Some k'\<rparr>"
  define s2 where "s2 = (set_active (put (active s) (offsetBytes s + readBytes s) plain) s1)
      \<lparr>receiveState := state, readBytes := readBytes s + length bs\<rparr>"
  define s0 where "s0 = s\<lparr>socket := Some k', receiveState := state\<rparr>"
  have once: "readOnce env ops s = (if bs = [] then Inr (s1, False)
      else if 0 < leftBytes s
           then if leftBytes s < length bs then Inl (Abort ''Assert'')
             else let s3 = s2\<lparr>leftBytes := leftBytes s - length bs\<rparr> in
               if leftBytes s3 = 0
               then bind_result (socketPacket env
                   (region (active s3) (offsetBytes s3) (readBytes s3)) s3) (\<lambda>s4.
                 if \<not> alive ops s4 then Inr (s4, False)
                 else Inr (s4\<lparr>usingLargeBuffer := False, largeBuffer := zeros 0,
                   offsetBytes := 0, readBytes := 0\<rparr>, True))
               else Inr (s3\<lparr>some_received := some_received s3 + 1\<rparr>, True)
           else takePackets env ops (usingLargeBuffer s2) (offsetBytes s2) (readBytes s2) s2)"
    using limit0 fits read k'(2) k(1) c
    unfolding readOnce_def Let_def limit_int
    by (simp add: s1_def [symmetric] s2_def [symmetric])
  have act: "active s2 = put (active s) (offsetBytes s + readBytes s) plain"
    by (simp add: s2_def s1_def active_def set_active_def)
  have same2: "offsetBytes s2 = offsetBytes s" "readBytes s2 = readBytes s + length bs"
    "usingLargeBuffer s2 = usingLargeBuffer s" "leftBytes s2 = leftBytes s" "protocol s2 = protocol s"
    "socket s2 = Some k'" "receiveKey s2 = receiveKey s" "receiveState s2 = state"
    "buffer_size (smallBuffer s2) = buffer_size (smallBuffer s)"
    "buffer_size (largeBuffer s2) = buffer_size (largeBuffer s)"
    by (simp_all add: s2_def s1_def set_active_def active_def)
  have buf2: "buffered s2 = buffered s @ plain"
    unfolding buffered_def act same2
    using region_put_append [of "active s" "offsetBytes s" "readBytes s" plain] by (simp add: pl)
  have v0: "view s0 = view s2" by (simp add: s0_def s2_def s1_def set_active_def view_def)
  have rr0: "round_result env ops p s0 content s' go" if "round_result env ops p s2 content s' go"
    for content s' go
    using that round_result_cong [OF v0, where env = env and ops = ops and p = p
        and content = content and s' = s' and go = go] same2
    by (simp add: s0_def)
  let ?len = "readPacketLength p"
  note result = that [of _ _ k' bs, OF _ k'(1,3,4)]
  show thesis
  proof (cases "bs = []")
    case True
    then show thesis using result [of s1 False] once by (simp add: s1_def)
  next
    case ne: False
    have goal: thesis if "readOnce env ops s = Inr (s', go)"
      and "round_result env ops p s2 (packet_stream ?len (buffered s @ plain)) s' go" for s' go
      by (rule result [OF that(1)]) (use rr0 [OF that(2)] ne c in \<open>simp_all add: s0_def\<close>)
    show thesis
    proof (cases "leftBytes s = 0")
      case left: True
      have using2: "\<not> usingLargeBuffer s2" and a2: "active s2 = smallBuffer s2"
        using unknown(2) [OF left] same2(3) by (simp_all add: active_def)
      have fits2: "offsetBytes s2 + readBytes s2 \<le> kSmallBufferSize"
      proof -
        have "limit + (offsetBytes s + readBytes s) \<le> kSmallBufferSize"
          using fits r unknown(2) [OF left] by (simp add: active_def)
        then show ?thesis using k'(2) same2 by simp
      qed
      have "spans p (offsetBytes s2) s2"
        unfolding spans_def buffered_def a2
        using r left unknown(2,3) [OF left] same2 fits2 using2 by simp
      then obtain s' go where "takePackets env ops False (offsetBytes s2) (readBytes s2) s2 = Inr (s', go)"
        and "round_result env ops p s2 (packet_stream ?len (buffered s2)) s' go"
        using takePackets_round [of p "offsetBytes s2" s2 "readBytes s2"] same2(6) by blast
      then show thesis using goal once ne left using2 buf2 by simp
    next
      case left: False
      define n where "n = readBytes s + leftBytes s"
      have known: "?len (buffered s @ plain) = int n"
        by (rule framing.known_append) (use r left in \<open>simp add: n_def\<close>)
      have lb: "length bs \<le> leftBytes s" using k'(2) left by (simp add: limit_def)
      have n0: "0 < n" using left by (simp add: n_def)
      have len: "length (buffered s @ plain) = readBytes s + length bs"
        by (simp add: buffered_def pl)
      define s3 where "s3 = s2\<lparr>leftBytes := leftBytes s - length bs\<rparr>"
      have buf3: "buffered s3 = buffered s @ plain"
        using buf2 by (simp add: s3_def)
      show thesis
      proof (cases "leftBytes s = length bs")
        case False
        have "packet_stream ?len (buffered s @ plain) = ([], buffered s @ plain, False)"
          by (rule framing.stream_partial [OF known]) (use len lb False in \<open>simp add: n_def\<close>)
        moreover define s' where "s' = s3\<lparr>some_received := some_received s3 + 1\<rparr>"
        have b': "buffered s' = buffered s @ plain"
          using buf3 by (simp add: s'_def)
        have "active s' = active s2" by (simp add: s'_def s3_def active_def)
        then have size': "buffer_size (active s') = buffer_size (active s)" by (simp add: act)
        have "reading p s'"
          unfolding reading_def b' size' using r left known lb False same2
          by (simp add: s'_def s3_def n_def)
        moreover have "view s' = view s2" by (simp add: s'_def s3_def)
        ultimately have "round_result env ops p s2 (packet_stream ?len (buffered s @ plain)) s' True"
          using same2 b' by (simp add: round_result_def s'_def s3_def)
        moreover have "readOnce env ops s = Inr (s', True)"
          using once ne left lb False by (simp add: s'_def s3_def Let_def)
        ultimately show thesis by (rule goal [rotated])
      next
        case True
        let ?q = "buffered s @ plain"
        have qn: "length ?q = n" using len True by (simp add: n_def)
        have "packet_stream ?len ?q = (take n ?q # [], [], False)"
          by (rule framing.stream_packet [OF known n0]) (use qn in simp_all)
        then have content: "packet_stream ?len ?q = ([?q], [], False)" using qn by simp
        have "socket s3 \<noteq> None" "protocol s3 = Some p"
          using same2 r by (simp_all add: s3_def)
        then obtain s4 where s4: "socketPacket env ?q s3 = Inr s4" "handled s3 s4"
          using socketPacket_frame [of s3 p ?q env] known qn by auto
        note h = handled_reader [OF s4(2)]
        have v3: "view s3 = view s2" by (simp add: s3_def)
        have d: "deliver env [?q] (view s2) = Inr (view s4)"
        proof -
          have "socket (view s2) \<noteq> None" using same2(6) by (simp add: view_def)
          with socketPacket_view [OF s4(1)] show ?thesis unfolding v3 by simp
        qed
        define s5 where "s5 = s4\<lparr>usingLargeBuffer := False, largeBuffer := zeros 0,
            offsetBytes := 0, readBytes := 0\<rparr>"
        have run: "readOnce env ops s = (if \<not> alive ops s4 then Inr (s4, False) else Inr (s5, True))"
          using once ne left True s4(1) buf3 buffered_def [of s3] by (simp add: s3_def s5_def Let_def)
        show thesis
        proof (cases "alive ops s4")
          case False
          have "round_result env ops p s2 (packet_stream ?len ?q) s4 False"
            unfolding round_result_def content prod.case
            by (intro conjI exI [of _ 1] exI [of _ "view s4"])
              (use d False h(11) in \<open>simp_all add: s3_def\<close>)
          with run False show thesis by (intro goal [of s4 False]) simp_all
        next
          case alive: True
          have "socket s4 = socket s2" using alive h(11) by (auto simp: alive_def s3_def)
          moreover have "buffered s5 = []" by (simp add: s5_def buffered_def)
          moreover have "reading p s5"
            using r h same2 True framing.unknown_empty [of p] \<open>buffered s5 = []\<close>
            by (simp add: reading_def s5_def s3_def kMinPacketBuffer_def kSmallBufferSize_def)
          moreover have "view s5 = view s4" "receiveKey s5 = receiveKey s2"
            "receiveState s5 = receiveState s2" "socket s5 = socket s4"
            using h by (simp_all add: s5_def s3_def)
          ultimately have "round_result env ops p s2 (packet_stream ?len ?q) s5 True"
            unfolding round_result_def content prod.case
            by (intro conjI exI [of _ 1] exI [of _ "view s4"]) (use d in simp_all)
          with run alive show thesis by (intro goal [of s5 True]) simp_all
        qed
      qed
    qed
  qed
qed

lemma readLoop_delivers:
  assumes "reading p s" and "socket s = Some k" and "good k" and "so_connected ops k"
    and cipher: "stream_cipher (ctr env)" and hang: "\<And>l c. hangs_up env (l @ [Error c])"
    and closed: "closed_when_finished s"
  shows "\<exists>s' got. readLoop env ops s = Some (Inr s') \<and> read_result env ops p s got s'
    \<and> (\<forall>x. \<exists>y. upcoming k x = got @ y)
    \<and> (\<forall>k'. socket s' = Some k' \<longrightarrow> good k')
    \<and> (alive ops s' \<longrightarrow> closed_when_finished s'
        \<and> (\<exists>k'. socket s' = Some k' \<and> good k' \<and> upcoming k' [] = []
          \<and> (\<forall>x. upcoming k x = got @ upcoming k' x)))"
  using assms(1-4) closed
proof (induction "length (upcoming k [])" arbitrary: s k rule: less_induct)
  case less
  let ?len = "readPacketLength p"
  obtain bs k' s1 go where once: "readOnce env ops s = Inr (s1, go)" and k': "good k'"
    and split: "\<And>x. upcoming k x = bs @ upcoming k' x" and some: "upcoming k [] \<noteq> [] \<longrightarrow> bs \<noteq> []"
    and none: "bs = [] \<Longrightarrow> s1 = s\<lparr>socket := Some k'\<rparr> \<and> \<not> go"
    and rr: "bs \<noteq> [] \<Longrightarrow> round_result env ops p
      (s\<lparr>socket := Some k', receiveState := snd (ctr env (receiveKey s) (receiveState s) bs)\<rparr>)
      (packet_stream ?len (buffered s @ fst (ctr env (receiveKey s) (receiveState s) bs))) s1 go"
    by (rule readOnce_round [OF less.prems(1-4) cipher]) (rule that)
  have loop: "readLoop env ops s = (if go \<and> alive ops s1 \<and> available ops s1
      then readLoop env ops s1 else Some (Inr s1))"
    by (subst readLoop.simps) (simp only: once sum.case prod.case)
  show ?case
  proof (cases "bs = []")
    case True
    from none [OF True] have s1: "s1 = s\<lparr>socket := Some k'\<rparr>" "\<not> go" by blast+
    have p0: "upcoming k [] = []" using some True by blast
    with split [of "[]"] have p1: "upcoming k' [] = []" by simp
    have same_up: "upcoming k x = [] @ upcoming k' x" for x using split [of x] True by simp
    have no_packet: "packet_stream ?len (buffered s) = ([], buffered s, False)"
    proof (cases "leftBytes s = 0")
      case True
      then show ?thesis
        using less.prems(1) framing.stream_unknown [of p "buffered s"] by (simp add: reading_def)
    next
      case False
      then have "?len (buffered s) = int (readBytes s + leftBytes s)"
        using less.prems(1) by (simp add: reading_def)
      then show ?thesis
        by (rule framing.stream_partial) (use False in \<open>simp add: buffered_def\<close>)
    qed
    have same: "view s1 = view s" "buffered s1 = buffered s" "receiveState s1 = receiveState s"
      "receiveKey s1 = receiveKey s"
      using s1 less.prems(2) by (simp_all add: view_def)
    have rd1: "reading p s1"
    proof -
      have "active s1 = active s" by (simp add: s1(1) active_def)
      with less.prems(1) show ?thesis unfolding reading_def same(2) by (simp add: s1(1))
    qed
    have "read_result env ops p s [] s1"
      by (rule read_result_idle [OF no_packet cipher same rd1])
    moreover have "readLoop env ops s = Some (Inr s1)" using loop s1(2) by simp
    moreover have "closed_when_finished s1"
      using less.prems(5) closed_view [of s1] closed_view [of s] same(1) by simp
    moreover have "socket s1 = Some k'" using s1(1) by simp
    ultimately show ?thesis using p1 k' same_up
      by (intro exI [of _ s1] exI [of _ "[]"]) auto
  next
    case ne: False
    define st where "st = snd (ctr env (receiveKey s) (receiveState s) bs)"
    define s0 where "s0 = s\<lparr>socket := Some k', receiveState := st\<rparr>"
    obtain ps r bad where c: "packet_stream ?len
        (buffered s @ fst (ctr env (receiveKey s) (receiveState s) bs)) = (ps, r, bad)"
      by (metis prod_cases3)
    have v0: "view s0 = view s" using less.prems(2) by (simp add: s0_def view_def)
    have rr0: "round_result env ops p s0 (ps, r, bad) s1 go"
      using rr [OF ne] unfolding c st_def [symmetric] s0_def [symmetric] .
    have fields: "socket s0 = Some k'" "receiveKey s0 = receiveKey s" "receiveState s0 = st"
      by (simp_all add: s0_def)
    have sock: "socket s1 = Some k' \<or> socket s1 = None"
      using rr0 unfolding round_result_def prod.case fields by (rule conjunct1)
    obtain j v where j: "j \<le> length ps" "deliver env (take j ps) (view s) = Inr v"
      and go: "if go then j = length ps \<and> \<not> bad \<and> view s1 = v \<and> socket s1 = Some k'
            \<and> receiveKey s1 = receiveKey s \<and> receiveState s1 = st
            \<and> reading p s1 \<and> buffered s1 = r
         else \<not> alive ops s1 \<and> view s1 = v
            \<or> j = length ps \<and> bad \<and> view s1 = emit env (Error kErrorCodeOther) v"
      using rr0 unfolding round_result_def prod.case v0 fields by blast
    have cv: "closed_when_finished v"
      by (rule closed_deliver [OF j(2)]) (simp add: closed_view less.prems(5))
    have dead: "\<not> alive ops s1" if "\<not> go"
    proof (cases "alive ops s1")
      case True
      with that go have "view s1 = emit env (Error kErrorCodeOther) v" by simp
      then have "socket (view s1) = None" using emit_hangs_up [OF cv hang] by simp
      then show ?thesis by (simp add: socket_view alive_def)
    qed
    have first: "read_result env ops p s bs s1"
    proof (cases "alive ops s1")
      case True
      with dead have go by blast
      with go j True show ?thesis unfolding read_result_def c prod.case st_def by simp
    next
      case False
      have "view s1 = v \<or> view s1 = emit env (Error kErrorCodeOther) v"
        using go by (cases go) auto
      with j False show ?thesis unfolding read_result_def c prod.case by auto
    qed
    have shorter: "length (upcoming k' []) < length (upcoming k [])"
      using split [of "[]"] ne by simp
    show ?thesis
    proof (cases "go \<and> alive ops s1 \<and> available ops s1")
      case True
      then have g: "socket s1 = Some k'" "reading p s1" "view s1 = v" using go by simp_all
      have conn: "so_connected ops k'" using True g(1) by (simp add: alive_def)
      have "closed_when_finished s1" using cv g(3) closed_view [of s1] by simp
      from less.hyps [OF shorter g(2,1) k' conn this]
      obtain s' got where *: "readLoop env ops s1 = Some (Inr s')" "read_result env ops p s1 got s'"
        "\<forall>x. \<exists>y. upcoming k' x = got @ y" "alive ops s' \<longrightarrow> closed_when_finished s'
        \<and> (\<exists>k''. socket s' = Some k'' \<and> good k'' \<and> upcoming k'' [] = []
          \<and> (\<forall>x. upcoming k' x = got @ upcoming k'' x))"
        "\<forall>k'. socket s' = Some k' \<longrightarrow> good k'" by blast
      have "read_result env ops p s (bs @ got) s'"
        by (rule read_result_append [OF cipher first _ *(2)]) (use True in simp)
      moreover have "readLoop env ops s = Some (Inr s')" using loop True *(1) by simp
      moreover have "\<forall>x. \<exists>y. upcoming k x = (bs @ got) @ y" using split *(3) by (metis append.assoc)
      moreover have "alive ops s' \<longrightarrow> closed_when_finished s'
        \<and> (\<exists>k''. socket s' = Some k'' \<and> good k'' \<and> upcoming k'' [] = []
          \<and> (\<forall>x. upcoming k x = (bs @ got) @ upcoming k'' x))"
        using *(4) split by (metis append.assoc)
      ultimately show ?thesis using *(5) by blast
    next
      case False
      then have "readLoop env ops s = Some (Inr s1)" using loop by auto
      moreover have "upcoming k' [] = [] \<and> closed_when_finished s1 \<and> socket s1 = Some k'" if "alive ops s1"
      proof -
        have "go" using dead that by blast
        then have g: "socket s1 = Some k'" "view s1 = v" using go by simp_all
        have "\<not> so_available ops k'" using False \<open>go\<close> that g(1) by (simp add: available_def)
        moreover have "so_connected ops k'" using that g(1) by (simp add: alive_def)
        ultimately have "upcoming k' [] = []" using available_pending [OF k'] by simp
        then show ?thesis using g cv closed_view [of s1] by simp
      qed
      moreover have "\<forall>q. socket s1 = Some q \<longrightarrow> good q" using sock k' by auto
      ultimately show ?thesis using first split k' by blast
    qed
  qed
qed

lemma socketRead_delivers:
  assumes "reading p (allocated s)" and "socket s = Some k" and "good k" and "so_connected ops k"
    and "stream_cipher (ctr env)" and "\<And>l c. hangs_up env (l @ [Error c])"
    and "closed_when_finished s"
  shows "\<exists>s' got. socketRead env ops s = Some (Inr s') \<and> read_result env ops p (allocated s) got s'
    \<and> (\<forall>x. \<exists>y. upcoming k x = got @ y)
    \<and> (\<forall>k'. socket s' = Some k' \<longrightarrow> good k')
    \<and> (alive ops s' \<longrightarrow> closed_when_finished s'
        \<and> (\<exists>k'. socket s' = Some k' \<and> good k' \<and> upcoming k' [] = []
          \<and> (\<forall>x. upcoming k x = got @ upcoming k' x)))"
proof -
  have "\<not> usingLargeBuffer s" if "leftBytes s = 0"
    using assms(1) that by (auto simp: reading_def allocated_def split: if_splits)
  then have "socketRead env ops s = readLoop env ops (allocated s)"
    using assms(2,4) by (auto simp: socketRead_def alive_def allocated_def)
  moreover have "socket (allocated s) = Some k" "closed_when_finished (allocated s)"
    using assms(2,7) by (simp_all add: allocated_def closed_when_finished_def)
  ultimately show ?thesis
    using readLoop_delivers [OF assms(1) _ assms(3-6)] by simp
qed

end


section \<open>What is sent\<close>

text \<open>A sequence of calls of \<open>sendData\<close>, each with its random words.\<close>

fun send_all ::
  "tcp_env \<Rightarrow> 's socket_ops \<Rightarrow> (nat \<Rightarrow> bytes) \<Rightarrow> ((nat \<Rightarrow> u32) \<times> mtpBuffer) list \<Rightarrow> 's tcp
    \<Rightarrow> 's tcp result option" where
  "send_all env ops draws [] s = Some (Inr s)"
| "send_all env ops draws ((random, buffer) # rest) s =
    (case sendData env ops draws random buffer s of
       None \<Rightarrow> None | Some (Inl f) \<Rightarrow> Some (Inl f)
     | Some (Inr s') \<Rightarrow> send_all env ops draws rest s')"

text \<open>
  The other side of an obfuscated connection, as its documentation describes it: key and
  initial vector are taken from the first 64 bytes, everything is decrypted, the bytes at 56
  and 60 are the protocol and the data centre, and the packets follow.
\<close>

definition server_reads :: "tcp_env \<Rightarrow> protocol \<Rightarrow> bytes \<Rightarrow> u32 \<times> 16 word \<times> bytes" where
  "server_reads env p wire =
    (let key = prepareKey (sha256 env) p (take 32 (drop 8 wire));
         plain = fst (ctr env key (ctr_start\<lparr>ivec := take 16 (drop 40 wire)\<rparr>) wire) in
     (le_value (take 4 (drop 56 plain)), le_value (take 2 (drop 60 plain)), drop 64 plain))"

lemma stream_cipher_twice: "stream_cipher c \<Longrightarrow> fst (c k s (fst (c k s bs))) = bs"
  by (simp add: stream_cipher_def)

lemma stream_cipher_state: "stream_cipher c \<Longrightarrow> length a = length b \<Longrightarrow> snd (c k s a) = snd (c k s b)"
  unfolding stream_cipher_def by blast

lemma server_reads_start:
  fixes p :: protocol and dcId :: "16 word"
  assumes cipher: "stream_cipher (ctr env)" and len: "length nonce = 64"
  defines "st \<equiv> connection_start (sha256 env) (ctr env) p dcId nonce"
  shows "server_reads env p (start_prefix st
      @ fst (ctr env (start_send_key st) (start_send_state st) bs)) = (protocol_id p, dcId, bs)"
    and "take 56 (start_prefix st) = take 56 nonce" and "length (start_prefix st) = 64"
proof -
  define full where "full = take 56 nonce @ le_bytes 4 (protocol_id p) @ le_bytes 2 dcId @ drop 62 nonce"
  define key where "key = prepareKey (sha256 env) p (take 32 (drop 8 nonce))"
  define s0 where "s0 = ctr_start\<lparr>ivec := take 16 (drop 40 nonce)\<rparr>"
  let ?c = "ctr env key"
  have flen: "length full = 64" by (simp add: full_def len)
  define a b where "a = take 56 full" and "b = drop 56 full"
  have ab: "full = a @ b" "length a = 56" by (simp_all add: a_def b_def flen)
  have a_nonce: "a = take 56 nonce" by (simp add: a_def full_def len)
  have enc: "?c s0 full = (fst (?c s0 a) @ fst (?c (snd (?c s0 a)) b), snd (?c (snd (?c s0 a)) b))"
    unfolding ab by (rule stream_cipher_append [OF cipher])
  have la: "length (fst (?c s0 a)) = 56" by (simp add: stream_cipher_length [OF cipher] ab)
  define b' where "b' = fst (?c (snd (?c s0 a)) b)"
  have st: "start_prefix st = a @ b'" "start_send_key st = key" "start_send_state st = snd (?c s0 full)"
    using enc la by (simp_all add: st_def connection_start_def Let_def key_def [symmetric]
        s0_def [symmetric] full_def [symmetric] split_beta a_def [symmetric] b'_def)
  have lb: "length b' = 8" by (simp add: b'_def stream_cipher_length [OF cipher] b_def flen)
  let ?wire = "start_prefix st @ fst (ctr env (start_send_key st) (start_send_state st) bs)"
  have head: "take 56 ?wire = take 56 nonce" using st(1) a_nonce ab by simp
  have cut: "take 32 (drop 8 (take 56 c)) = take 32 (drop 8 c)"
    "take 16 (drop 40 (take 56 c)) = take 16 (drop 40 c)" for c :: bytes
    by (simp_all add: drop_take)
  have k: "take 32 (drop 8 ?wire) = take 32 (drop 8 nonce)"
    by (simp only: cut(1) [of ?wire, symmetric] cut(1) [of nonce, symmetric] head)
  have i: "take 16 (drop 40 ?wire) = take 16 (drop 40 nonce)"
    by (simp only: cut(2) [of ?wire, symmetric] cut(2) [of nonce, symmetric] head)
  have same: "length (a @ b') = length full" unfolding flen by (simp add: ab(2) lb)
  have state: "snd (?c s0 (a @ b')) = snd (?c s0 full)"
    by (rule stream_cipher_state [OF cipher same])
  have "fst (?c s0 (a @ b')) = fst (?c s0 a) @ b"
    unfolding stream_cipher_append [OF cipher] fst_conv b'_def by (simp add: stream_cipher_twice [OF cipher])
  then have "fst (?c s0 ?wire) = (fst (?c s0 a) @ b) @ bs"
    unfolding st stream_cipher_append [OF cipher, of _ _ "a @ b'"] fst_conv state
    by (simp add: stream_cipher_twice [OF cipher])
  moreover have "b = le_bytes 4 (protocol_id p) @ le_bytes 2 dcId @ drop 62 nonce"
    by (simp add: b_def full_def len)
  moreover have "le_value (le_bytes 4 (protocol_id p)) = protocol_id p"
    by (rule le_value_le_bytes_full) simp
  moreover have "le_value (le_bytes 2 dcId) = dcId" by (rule le_value_le_bytes_full) simp
  ultimately show "server_reads env p ?wire = (protocol_id p, dcId, bs)"
    unfolding server_reads_def Let_def k i key_def [symmetric] s0_def [symmetric]
    by (simp add: la len)
  show "take 56 (start_prefix st) = take 56 nonce" using st(1) a_nonce ab by simp
  show "length (start_prefix st) = 64" using st(1) ab lb by simp
qed


definition frame_of :: "protocol \<Rightarrow> (nat \<Rightarrow> u32) \<times> mtpBuffer \<Rightarrow> bytes" where
  "frame_of p m = (case finalizePacket (fst m) p (snd m) of Inr f \<Rightarrow> f | Inl _ \<Rightarrow> [])"

lemma frame_of:
  assumes "packet_fits p (snd m)"
  shows "finalizePacket (fst m) p (snd m) = Inr (frame_of p m)"
    and "readPacketLength p (frame_of p m) = int (length (frame_of p m))" and "frame_of p m \<noteq> []"
proof -
  obtain frame pad where f: "finalizePacket (fst m) p (snd m) = Inr frame"
    "readPacketLength p frame = int (length frame)"
    using finalizePacket_frame [OF assms, of "fst m"] by metis
  then have e: "frame_of p m = frame" by (simp add: frame_of_def)
  show "finalizePacket (fst m) p (snd m) = Inr (frame_of p m)"
    and "readPacketLength p (frame_of p m) = int (length (frame_of p m))" and "frame_of p m \<noteq> []"
    unfolding e using f size_length_le [OF f(2)] by simp_all
qed

lemma parsed_frame_of:
  assumes "packet_fits p (snd m)" and "5 \<le> length (snd m)"
  shows "\<exists>pad. parsePacket p (frame_of p m) = Inr (drop 2 (snd m) @ pad) \<and> length pad \<le> 3
    \<and> (supportsArbitraryLength p \<or> pad = [])"
proof -
  obtain frame pad where f: "finalizePacket (fst m) p (snd m) = Inr frame"
    "parsePacket p frame = Inr (drop 2 (snd m) @ pad)" "length pad \<le> 3"
    "supportsArbitraryLength p \<or> pad = []"
    using finalized_packet_is_parsed [OF assms, of "fst m"] by metis
  then show ?thesis by (auto simp: frame_of_def)
qed

text \<open>
  The contract of the writing side of a socket: what is written is appended to what the
  peer reads, the prefix of the first packet before it.
\<close>

locale byte_sink =
  fixes ops :: "'s socket_ops"
    and open_sink :: "'s \<Rightarrow> bool"
    and written :: "'s \<Rightarrow> bytes"
  assumes write_appends: "open_sink k \<Longrightarrow> bs \<noteq> [] \<Longrightarrow> length start \<le> 64 \<Longrightarrow>
      \<exists>k'. so_write ops k start bs = Inr k' \<and> open_sink k' \<and> written k' = written k @ start @ bs"
begin

lemma sendData_writes:
  assumes "socket s = Some k" and "open_sink k" and "protocol s = Some p" and "packet_fits p (snd m)"
    and cipher: "stream_cipher (ctr env)"
    and prep: "prepareConnectionStartPrefix env ops draws s = Some (Inr (start, s1))"
    and "length start \<le> 64" and "protocol s1 = protocol s"
  obtains k' where
    "sendData env ops draws (fst m) (snd m) s = Some (Inr (s1\<lparr>sendState :=
      snd (ctr env (sendKey s1) (sendState s1) (frame_of p m)), socket := Some k'\<rparr>))"
    and "open_sink k'"
    and "written k' = written k @ start @ fst (ctr env (sendKey s1) (sendState s1) (frame_of p m))"
proof -
  let ?c = "ctr env (sendKey s1) (sendState s1) (frame_of p m)"
  have "fst ?c \<noteq> []"
    using stream_cipher_length [OF cipher, of "sendKey s1" "sendState s1" "frame_of p m"]
      frame_of(3) [OF assms(4)] by auto
  then obtain k' where k': "so_write ops k start (fst ?c) = Inr k'" "open_sink k'"
    "written k' = written k @ start @ fst ?c"
    using write_appends [OF assms(2) _ assms(7)] by blast
  have "2 < length (snd m)" using assms(4) by (simp add: packet_fits_def)
  then have "sendData env ops draws (fst m) (snd m) s = Some (Inr (s1\<lparr>sendState := snd ?c,
      socket := Some k'\<rparr>))"
    using assms(1,3,8) prep frame_of(1) [OF assms(4)] k'(1)
    by (simp add: sendData_def with_protocol_def split_beta)
  then show thesis using k' that by blast
qed

lemma send_all_started:
  assumes "socket s = Some k" and "open_sink k" and "protocol s = Some p" and "connectionStarted s"
    and "\<forall>m \<in> set ms. packet_fits p (snd m)" and cipher: "stream_cipher (ctr env)"
  shows "\<exists>s' k'. send_all env ops draws ms s = Some (Inr s') \<and> socket s' = Some k' \<and> open_sink k'
    \<and> written k' = written k @ fst (ctr env (sendKey s) (sendState s) (concat (map (frame_of p) ms)))"
  using assms(1-5)
proof (induction ms arbitrary: s k)
  case Nil
  then show ?case by (simp add: stream_cipher_Nil [OF cipher])
next
  case (Cons m ms)
  let ?c = "ctr env (sendKey s) (sendState s) (frame_of p m)"
  have prep: "prepareConnectionStartPrefix env ops draws s = Some (Inr ([], s))"
    using Cons.prems by (simp add: prepareConnectionStartPrefix_def)
  have fits: "packet_fits p (snd m)" using Cons.prems by simp
  obtain k1 where one: "sendData env ops draws (fst m) (snd m) s
      = Some (Inr (s\<lparr>sendState := snd ?c, socket := Some k1\<rparr>))"
    and k1: "open_sink k1" "written k1 = written k @ [] @ fst ?c"
    using sendData_writes [OF Cons.prems(1-3) fits cipher prep] by auto
  define t where "t = s\<lparr>sendState := snd ?c, socket := Some k1\<rparr>"
  have "\<exists>s' k'. send_all env ops draws ms t = Some (Inr s') \<and> socket s' = Some k' \<and> open_sink k'
    \<and> written k' = written k1 @ fst (ctr env (sendKey t) (sendState t) (concat (map (frame_of p) ms)))"
    by (rule Cons.IH) (use Cons.prems k1 in \<open>simp_all add: t_def\<close>)
  then show ?case
    using one k1(2) stream_cipher_append [OF cipher, of "sendKey s" "sendState s" "frame_of p m"]
    by (cases m) (auto simp: t_def)
qed

text \<open>The server reads the packets of everything that was sent.\<close>

lemma server_reads_sent:
  assumes "socket s = Some k" and "open_sink k" and "written k = []" and "protocol s = Some p"
    and "\<not> connectionStarted s" and "ms \<noteq> []" and "\<forall>m \<in> set ms. packet_fits p (snd m)"
    and cipher: "stream_cipher (ctr env)"
    and nonce: "good_nonce (so_good_nonce ops) draws 0 = Some nonce" "length nonce = 64"
  shows "\<exists>s' k'. send_all env ops draws ms s = Some (Inr s') \<and> socket s' = Some k'
    \<and> take 56 (written k') = take 56 nonce
    \<and> server_reads env p (written k')
      = (protocol_id p, protocolDcId s, concat (map (frame_of p) ms))"
proof -
  obtain m rest where ms: "ms = m # rest" using assms(6) by (cases ms) auto
  define st where "st = connection_start (sha256 env) (ctr env) p (protocolDcId s) nonce"
  define s1 where "s1 = s\<lparr>connectionStarted := True, sendKey := start_send_key st,
    sendState := start_send_state st, receiveKey := start_receive_key st,
    receiveState := start_receive_state st\<rparr>"
  note start = server_reads_start [OF cipher nonce(2), of p "protocolDcId s", folded st_def]
  have prep: "prepareConnectionStartPrefix env ops draws s = Some (Inr (start_prefix st, s1))"
    using assms(1,4,5) nonce by (simp add: prepareConnectionStartPrefix_def st_def s1_def Let_def)
  have fits: "packet_fits p (snd m)" using assms(7) ms by simp
  let ?c = "ctr env (start_send_key st) (start_send_state st)"
  have s1f: "sendKey s1 = start_send_key st" "sendState s1 = start_send_state st"
    "protocol s1 = protocol s" by (simp_all add: s1_def)
  obtain k1 where one: "sendData env ops draws (fst m) (snd m) s
      = Some (Inr (s1\<lparr>sendState := snd (?c (frame_of p m)), socket := Some k1\<rparr>))"
    and k1: "open_sink k1" "written k1 = written k @ start_prefix st @ fst (?c (frame_of p m))"
    by (rule sendData_writes [OF assms(1,2,4) fits cipher prep _ s1f(3)])
      (use start(3) s1f in simp_all)
  define t where "t = s1\<lparr>sendState := snd (?c (frame_of p m)), socket := Some k1\<rparr>"
  have "\<exists>s' k'. send_all env ops draws rest t = Some (Inr s') \<and> socket s' = Some k' \<and> open_sink k'
    \<and> written k' = written k1 @ fst (ctr env (sendKey t) (sendState t) (concat (map (frame_of p) rest)))"
    by (rule send_all_started) (use assms ms k1 cipher in \<open>simp_all add: t_def s1_def\<close>)
  then obtain s' k' where s': "send_all env ops draws rest t = Some (Inr s')" "socket s' = Some k'"
    "written k' = written k1 @ fst (ctr env (sendKey t) (sendState t) (concat (map (frame_of p) rest)))"
    by blast
  have w: "written k' = start_prefix st @ fst (?c (concat (map (frame_of p) ms)))"
    using s'(3) k1(2) assms(3) s1f
    by (simp add: ms t_def stream_cipher_append [OF cipher])
  have "send_all env ops draws ms s = Some (Inr s')"
    using one s'(1) by (cases m) (simp add: ms t_def)
  moreover have "take 56 (written k') = take 56 nonce" using w start(2,3) by simp
  ultimately show ?thesis using s'(2) w start(1) by auto
qed

end

end
