(* ===== verification/Tls_Hello.thy ===== *)
theory Tls_Hello
  imports Byte_Words "HOL-Library.Multiset"
begin

text \<open>
  The client hello of mtproto/details/mtproto_tls_socket.cpp: the rules that
  \<open>PrepareClientHelloRules\<close> builds and the \<open>Generator\<close> that turns them into bytes. Random
  bytes, keys of X25519, the index and the shuffle of the random library and HMAC are the
  record \<open>hello_env\<close>; each use is numbered. The grammar \<open>emits\<close> says what rules stand for,
  and \<open>parse_client_hello\<close> is a reader of TLS records.
\<close>

definition kMaxGrease :: nat where "kMaxGrease = 8"
definition kClientHelloLimit :: nat where "kClientHelloLimit = 2048"
definition kHelloDigestLength :: nat where "kHelloDigestLength = 32"
definition kLengthSize :: nat where "kLengthSize = 2"

section \<open>Rules\<close>

datatype tls_block =
    BlockString bytes
  | BlockRandom int
  | BlockZero int
  | BlockDomain
  | BlockGrease int
  | BlockPublicKey
  | BlockScope "tls_block list"
  | BlockPermutation "tls_block list list"
  | BlockM
  | BlockE
  | BlockPadding

text \<open>The stack of \<open>PrepareClientHelloRules\<close>, its back first.\<close>

datatype stack_element = Scope "tls_block list" | Permutation "tls_block list list"

type_synonym rule_step = "stack_element list \<Rightarrow> stack_element list result"

definition pushToBack :: "tls_block \<Rightarrow> rule_step" where
  "pushToBack block stack =
    (case stack of
       [] \<Rightarrow> Inl (Abort ''Expects'')
     | Scope scope # rest \<Rightarrow> Inr (Scope (scope @ [block]) # rest)
     | Permutation permutation # rest \<Rightarrow>
         if permutation = [] then Inl (Abort ''Assert'')
         else Inr (Permutation (butlast permutation @ [last permutation @ [block]]) # rest))"

definition S :: "bytes \<Rightarrow> rule_step" where "S data = pushToBack (BlockString data)"
definition Z :: "int \<Rightarrow> rule_step" where "Z n = pushToBack (BlockZero n)"
definition G :: "int \<Rightarrow> rule_step" where "G seed = pushToBack (BlockGrease seed)"
definition R :: "int \<Rightarrow> rule_step" where "R n = pushToBack (BlockRandom n)"
definition D :: rule_step where "D = pushToBack BlockDomain"
definition K :: rule_step where "K = pushToBack BlockPublicKey"
definition M :: rule_step where "M = pushToBack BlockM"
definition E :: rule_step where "E = pushToBack BlockE"
definition P :: rule_step where "P = pushToBack BlockPadding"

definition OpenScope :: rule_step where "OpenScope stack = Inr (Scope [] # stack)"

definition CloseScope :: rule_step where
  "CloseScope stack =
    (case stack of
       Scope blocks # e # rest \<Rightarrow> pushToBack (BlockScope blocks) (e # rest)
     | _ \<Rightarrow> Inl (Abort ''Expects''))"

definition OpenPermutation :: rule_step where "OpenPermutation stack = Inr (Permutation [] # stack)"

definition ClosePermutation :: rule_step where
  "ClosePermutation stack =
    (case stack of
       Permutation blocks # e # rest \<Rightarrow> pushToBack (BlockPermutation blocks) (e # rest)
     | _ \<Rightarrow> Inl (Abort ''Expects''))"

definition StartPermutationElement :: rule_step where
  "StartPermutationElement stack =
    (case stack of
       Permutation blocks # e # rest \<Rightarrow> Inr (Permutation (blocks @ [[]]) # e # rest)
     | _ \<Rightarrow> Inl (Abort ''Expects''))"

definition Finish :: "stack_element list \<Rightarrow> tls_block list result" where
  "Finish stack = (case stack of [Scope blocks] \<Rightarrow> Inr blocks | _ \<Rightarrow> Inl (Abort ''Expects''))"

fun run_steps :: "rule_step list \<Rightarrow> rule_step" where
  "run_steps [] stack = Inr stack"
| "run_steps (f # fs) stack = bind_result (f stack) (run_steps fs)"

definition kCipherSuites :: bytes where
  "kCipherSuites = [0x13, 0x01, 0x13, 0x02, 0x13, 0x03, 0xc0, 0x2b, 0xc0, 0x2f, 0xc0, 0x2c, 0xc0, 0x30,
    0xcc, 0xa9, 0xcc, 0xa8, 0xc0, 0x13, 0xc0, 0x14, 0x00, 0x9c, 0x00, 0x9d, 0x00, 0x2f, 0x00, 0x35,
    0x01, 0x00]"

definition kSignatures :: bytes where
  "kSignatures = [0x00, 0x0d, 0x00, 0x18, 0x00, 0x16, 0x09, 0x04, 0x09, 0x05, 0x09, 0x06, 0x04, 0x03,
    0x08, 0x04, 0x04, 0x01, 0x05, 0x03, 0x08, 0x05, 0x05, 0x01, 0x08, 0x06, 0x06, 0x01]"

definition kProtocols :: bytes where
  "kProtocols = [0x00, 0x10, 0x00, 0x0e, 0x00, 0x0c, 0x02, 0x68, 0x32, 0x08, 0x68, 0x74, 0x74, 0x70,
    0x2f, 0x31, 0x2e, 0x31]"

definition PrepareClientHelloRules :: "tls_block list result" where
  "PrepareClientHelloRules = bind_result (run_steps [
    S [0x16, 0x03, 0x01], OpenScope,
    S [0x01, 0x00], OpenScope,
    S [0x03, 0x03], Z 32, S [0x20], R 32, S [0x00, 0x20], G 0, S kCipherSuites,
    OpenScope, G 2, S [0x00, 0x00],
    OpenPermutation,
    StartPermutationElement, S [0x00, 0x00],
      OpenScope, OpenScope, S [0x00], OpenScope, D, CloseScope, CloseScope, CloseScope,
    StartPermutationElement, S [0x00, 0x05, 0x00, 0x05, 0x01, 0x00, 0x00, 0x00, 0x00],
    StartPermutationElement, S [0x00, 0x0a, 0x00, 0x0c, 0x00, 0x0a], G 4,
      S [0x11, 0xec, 0x00, 0x1d, 0x00, 0x17, 0x00, 0x18],
    StartPermutationElement, S [0x00, 0x0b, 0x00, 0x02, 0x01, 0x00],
    StartPermutationElement, S kSignatures,
    StartPermutationElement, S kProtocols,
    StartPermutationElement, S [0x00, 0x12, 0x00, 0x00],
    StartPermutationElement, S [0x00, 0x17, 0x00, 0x00],
    StartPermutationElement, S [0x00, 0x1b, 0x00, 0x03, 0x02, 0x00, 0x02],
    StartPermutationElement, S [0x00, 0x23, 0x00, 0x00],
    StartPermutationElement, S [0x00, 0x2b, 0x00, 0x07, 0x06], G 6, S [0x03, 0x04, 0x03, 0x03],
    StartPermutationElement, S [0x00, 0x2d, 0x00, 0x02, 0x01, 0x01],
    StartPermutationElement, S [0x00, 0x33, 0x04, 0xef, 0x04, 0xed], G 4,
      S [0x00, 0x01, 0x00, 0x11, 0xec, 0x04, 0xc0], M, K, S [0x00, 0x1d, 0x00, 0x20], K,
    StartPermutationElement, S [0x44, 0xcd, 0x00, 0x05, 0x00, 0x03, 0x02, 0x68, 0x32],
    StartPermutationElement, S [0xfe, 0x0d],
      OpenScope, S [0x00, 0x00, 0x01, 0x00, 0x01], R 1, S [0x00, 0x20], K,
      OpenScope, E, CloseScope, CloseScope,
    StartPermutationElement, S [0xff, 0x01, 0x00, 0x01, 0x00],
    ClosePermutation,
    G 3, S [0x00, 0x01, 0x00], P,
    CloseScope, CloseScope, CloseScope] [Scope []]) Finish"

section \<open>The generator\<close>

record hello_env =
  random_byte :: "nat \<Rightarrow> nat \<Rightarrow> byte"
  x25519 :: "nat \<Rightarrow> (nat \<Rightarrow> byte) option"
  random_index :: "nat \<Rightarrow> nat \<Rightarrow> nat"
  shuffle :: "nat \<Rightarrow> bytes list \<Rightarrow> bytes list"
  hmac_sha256 :: "bytes \<Rightarrow> bytes \<Rightarrow> bytes"

definition random_bytes :: "hello_env \<Rightarrow> nat \<Rightarrow> nat \<Rightarrow> bytes" where
  "random_bytes env i n = map (random_byte env i) [0..<n]"

text \<open>A raw public key of X25519 has 32 bytes, so the \<open>Assert\<close> of the code holds.\<close>

definition GeneratePublicKey :: "hello_env \<Rightarrow> nat \<Rightarrow> bytes" where
  "GeneratePublicKey env i = (case x25519 env i of None \<Rightarrow> [] | Some k \<Rightarrow> map k [0..<32])"

fun differ_in_pairs :: "bytes \<Rightarrow> bytes" where
  "differ_in_pairs (a # b # bs) = a # (if a = b then b XOR 0x10 else b) # differ_in_pairs bs"
| "differ_in_pairs bs = bs"

definition PrepareGreases :: "hello_env \<Rightarrow> nat \<Rightarrow> bytes" where
  "PrepareGreases env i =
    differ_in_pairs (map (\<lambda>b. (b AND 0xF0) + 0x0A) (random_bytes env i kMaxGrease))"

record part =
  p_result :: bytes
  p_digestPosition :: int
  p_error :: bool
  p_draws :: nat

definition new_part :: "nat \<Rightarrow> part" where
  "new_part i = \<lparr>p_result = [], p_digestPosition = -1, p_error = False, p_draws = i\<rparr>"

text \<open>
  \<open>grow\<close> gives the place of the new bytes. A caller writes all of them, so what they hold
  before does not matter; the reserved capacity is the limit, so the bytes never move.
\<close>

definition grow :: "int \<Rightarrow> part \<Rightarrow> nat option \<times> part" where
  "grow n s =
    (if p_error s \<or> n \<le> 0 \<or> int (length (p_result s)) + n > int kClientHelloLimit
     then (None, s\<lparr>p_error := True\<rparr>)
     else (Some (length (p_result s)), s\<lparr>p_result := p_result s @ replicate (nat n) 0\<rparr>))"

definition put_bytes :: "nat \<Rightarrow> bytes \<Rightarrow> part \<Rightarrow> part" where
  "put_bytes off bs s =
    s\<lparr>p_result := take off (p_result s) @ bs @ drop (off + length bs) (p_result s)\<rparr>"

definition draw :: "part \<Rightarrow> part" where "draw s = s\<lparr>p_draws := Suc (p_draws s)\<rparr>"

definition writeString :: "bytes \<Rightarrow> part \<Rightarrow> part" where
  "writeString bs s =
    (case grow (int (length bs)) s of (None, s') \<Rightarrow> s' | (Some off, s') \<Rightarrow> put_bytes off bs s')"

definition writeZero :: "int \<Rightarrow> part \<Rightarrow> part" where
  "writeZero n s =
    (let already = length (p_result s) in
     case grow n s of
       (None, s') \<Rightarrow> s'
     | (Some off, s') \<Rightarrow> put_bytes off (replicate (nat n) 0)
         (if n = int kHelloDigestLength \<and> p_digestPosition s' < 0
          then s'\<lparr>p_digestPosition := int already\<rparr> else s'))"

definition writeGrease :: "bytes \<Rightarrow> int \<Rightarrow> part \<Rightarrow> part" where
  "writeGrease greases seed s =
    (if seed < 0 \<or> seed \<ge> int (length greases) then s\<lparr>p_error := True\<rparr>
     else case grow 2 s of
         (None, s') \<Rightarrow> s'
       | (Some off, s') \<Rightarrow> put_bytes off (replicate 2 (greases ! nat seed)) s')"

definition writeRandom :: "hello_env \<Rightarrow> int \<Rightarrow> part \<Rightarrow> part" where
  "writeRandom env n s =
    (case grow n s of
       (None, s') \<Rightarrow> s'
     | (Some off, s') \<Rightarrow> put_bytes off (random_bytes env (p_draws s') (nat n)) (draw s'))"

definition writePublicKey :: "hello_env \<Rightarrow> part \<Rightarrow> part" where
  "writePublicKey env s =
    (let key = GeneratePublicKey env (p_draws s) in
     case grow (int (length key)) (draw s) of
       (None, s') \<Rightarrow> s' | (Some off, s') \<Rightarrow> put_bytes off key s')"

definition writeScope :: "(part \<Rightarrow> part) \<Rightarrow> part \<Rightarrow> part" where
  "writeScope entries s =
    (case grow (int kLengthSize) s of
       (None, s') \<Rightarrow> s'
     | (Some off, s') \<Rightarrow>
         let already = length (p_result s'); s1 = entries s' in
         put_bytes off (be_bytes 2 (of_nat (length (p_result s1) - already) :: 16 word)) s1)"

fun write_elements :: "bytes list \<Rightarrow> part \<Rightarrow> part" where
  "write_elements [] s = s"
| "write_elements (element # list) s =
    (case grow (int (length element)) s of
       (None, s') \<Rightarrow> s'
     | (Some off, s') \<Rightarrow> write_elements list (put_bytes off element s'))"

text \<open>Two coefficients of a key of ML-KEM, packed into three bytes.\<close>

definition kem_triple :: "bytes \<Rightarrow> bytes" where
  "kem_triple pair =
    (let a = unat (le_value (take 4 pair) :: u32) mod 3329;
         b = unat (le_value (take 4 (drop 4 pair)) :: u32) mod 3329 in
     [of_nat (a AND 255), of_nat (drop_bit 8 a + push_bit 4 (b AND 15)), of_nat (drop_bit 4 b)])"

definition writeM :: "hello_env \<Rightarrow> part \<Rightarrow> part" where
  "writeM env s =
    (let kElements = 384; kAdded = 32 in
     case grow (int (kElements * 3 + kAdded)) s of
       (None, s') \<Rightarrow> s'
     | (Some off, s') \<Rightarrow>
         let random = random_bytes env (p_draws s') (kElements * 8 + kAdded);
             chars = concat (map (\<lambda>i. kem_triple (take 8 (drop (i * 8) random))) [0..<kElements]);
             s1 = draw s' in
         put_bytes off (chars @ random_bytes env (p_draws s1) kAdded) (draw s1))"

definition writeE :: "hello_env \<Rightarrow> part \<Rightarrow> part" where
  "writeE env s =
    (let lengths = [144, 176, 208, 240] in
     writeRandom env (lengths ! random_index env (p_draws s) (length lengths)) (draw s))"

definition writePadding :: "part \<Rightarrow> part" where
  "writePadding s =
    (let n = length (p_result s) in
     if n < 513 then writeScope (writeZero (int (513 - n))) (writeString [0x00, 0x15] s) else s)"

fun writeBlock :: "hello_env \<Rightarrow> bytes \<Rightarrow> bytes \<Rightarrow> tls_block \<Rightarrow> part \<Rightarrow> part"
  and writeBlocks :: "hello_env \<Rightarrow> bytes \<Rightarrow> bytes \<Rightarrow> tls_block list \<Rightarrow> part \<Rightarrow> part"
  and writeParts :: "hello_env \<Rightarrow> bytes \<Rightarrow> bytes \<Rightarrow> tls_block list list \<Rightarrow> nat
    \<Rightarrow> bytes list option \<times> nat"
where
  "writeBlock env domain greases (BlockString data) s = writeString data s"
| "writeBlock env domain greases (BlockZero n) s = writeZero n s"
| "writeBlock env domain greases (BlockGrease seed) s = writeGrease greases seed s"
| "writeBlock env domain greases (BlockRandom n) s = writeRandom env n s"
| "writeBlock env domain greases BlockDomain s = writeString domain s"
| "writeBlock env domain greases BlockPublicKey s = writePublicKey env s"
| "writeBlock env domain greases (BlockScope entries) s =
    writeScope (\<lambda>s'. writeBlocks env domain greases entries s') s"
| "writeBlock env domain greases (BlockPermutation entries) s =
    (case writeParts env domain greases entries (p_draws s) of
       (None, i) \<Rightarrow> s\<lparr>p_error := True, p_draws := i\<rparr>
     | (Some list, i) \<Rightarrow>
         write_elements (shuffle env i list) (s\<lparr>p_draws := Suc i\<rparr>))"
| "writeBlock env domain greases BlockM s = writeM env s"
| "writeBlock env domain greases BlockE s = writeE env s"
| "writeBlock env domain greases BlockPadding s = writePadding s"
| "writeBlocks env domain greases [] s = s"
| "writeBlocks env domain greases (block # blocks) s =
    writeBlocks env domain greases blocks (writeBlock env domain greases block s)"
| "writeParts env domain greases [] i = (Some [], i)"
| "writeParts env domain greases (inner # entries) i =
    (let part = writeBlocks env domain greases inner (new_part i) in
     if p_error part then (None, p_draws part)
     else case writeParts env domain greases entries (p_draws part) of
         (None, j) \<Rightarrow> (None, j)
       | (Some list, j) \<Rightarrow> (Some (p_result part # list), j))"

definition writeDigest :: "hello_env \<Rightarrow> bytes \<Rightarrow> part \<Rightarrow> part" where
  "writeDigest env key s =
    put_bytes (nat (p_digestPosition s)) (hmac_sha256 env key (p_result s)) s"

definition injectTimestamp :: "u32 \<Rightarrow> part \<Rightarrow> part" where
  "injectTimestamp now s =
    (let at = nat (p_digestPosition s) + kHelloDigestLength - 4;
         already = le_value (take 4 (drop at (p_result s))) :: u32 in
     put_bytes at (le_bytes 4 (already XOR now)) s)"

definition finalize :: "hello_env \<Rightarrow> u32 \<Rightarrow> bytes \<Rightarrow> part \<Rightarrow> part" where
  "finalize env now key s =
    (if p_error s then s
     else if p_digestPosition s < 0 then s\<lparr>p_error := True\<rparr>
     else injectTimestamp now (writeDigest env key s))"

definition extractDigest :: "part \<Rightarrow> bytes" where
  "extractDigest s =
    (if p_digestPosition s < 0 then []
     else take kHelloDigestLength (drop (nat (p_digestPosition s)) (p_result s)))"

definition take_result :: "part \<Rightarrow> bytes" where
  "take_result s = (if p_error s then [] else p_result s)"

definition PrepareClientHello ::
  "hello_env \<Rightarrow> u32 \<Rightarrow> tls_block list \<Rightarrow> bytes \<Rightarrow> bytes \<Rightarrow> bytes \<times> bytes" where
  "PrepareClientHello env now rules domain key =
    (let s = finalize env now key
           (writeBlocks env domain (PrepareGreases env 0) rules (new_part 1)) in
     (take_result s, extractDigest s))"

definition client_hello :: "hello_env \<Rightarrow> u32 \<Rightarrow> bytes \<Rightarrow> bytes \<Rightarrow> (bytes \<times> bytes) result" where
  "client_hello env now domain key = bind_result PrepareClientHelloRules (\<lambda>rules.
    Inr (PrepareClientHello env now rules domain key))"

section \<open>The rules as a tree\<close>

definition hello_extensions :: "tls_block list list" where
  "hello_extensions = [
    [BlockString [0x00, 0x00], BlockScope [BlockScope [BlockString [0x00], BlockScope [BlockDomain]]]],
    [BlockString [0x00, 0x05, 0x00, 0x05, 0x01, 0x00, 0x00, 0x00, 0x00]],
    [BlockString [0x00, 0x0a, 0x00, 0x0c, 0x00, 0x0a], BlockGrease 4,
      BlockString [0x11, 0xec, 0x00, 0x1d, 0x00, 0x17, 0x00, 0x18]],
    [BlockString [0x00, 0x0b, 0x00, 0x02, 0x01, 0x00]],
    [BlockString kSignatures],
    [BlockString kProtocols],
    [BlockString [0x00, 0x12, 0x00, 0x00]],
    [BlockString [0x00, 0x17, 0x00, 0x00]],
    [BlockString [0x00, 0x1b, 0x00, 0x03, 0x02, 0x00, 0x02]],
    [BlockString [0x00, 0x23, 0x00, 0x00]],
    [BlockString [0x00, 0x2b, 0x00, 0x07, 0x06], BlockGrease 6, BlockString [0x03, 0x04, 0x03, 0x03]],
    [BlockString [0x00, 0x2d, 0x00, 0x02, 0x01, 0x01]],
    [BlockString [0x00, 0x33, 0x04, 0xef, 0x04, 0xed], BlockGrease 4,
      BlockString [0x00, 0x01, 0x00, 0x11, 0xec, 0x04, 0xc0], BlockM, BlockPublicKey,
      BlockString [0x00, 0x1d, 0x00, 0x20], BlockPublicKey],
    [BlockString [0x44, 0xcd, 0x00, 0x05, 0x00, 0x03, 0x02, 0x68, 0x32]],
    [BlockString [0xfe, 0x0d], BlockScope [BlockString [0x00, 0x00, 0x01, 0x00, 0x01], BlockRandom 1,
      BlockString [0x00, 0x20], BlockPublicKey, BlockScope [BlockE]]],
    [BlockString [0xff, 0x01, 0x00, 0x01, 0x00]]]"

definition hello_rules :: "tls_block list" where
  "hello_rules = [BlockString [0x16, 0x03, 0x01], BlockScope [BlockString [0x01, 0x00], BlockScope [
    BlockString [0x03, 0x03], BlockZero 32, BlockString [0x20], BlockRandom 32,
    BlockString [0x00, 0x20], BlockGrease 0, BlockString kCipherSuites,
    BlockScope [BlockGrease 2, BlockString [0x00, 0x00], BlockPermutation hello_extensions,
      BlockGrease 3, BlockString [0x00, 0x01, 0x00], BlockPadding]]]]"

lemmas rule_steps = S_def Z_def G_def R_def D_def K_def M_def E_def P_def pushToBack_def
  OpenScope_def CloseScope_def OpenPermutation_def ClosePermutation_def StartPermutationElement_def
  Finish_def

lemma PrepareClientHelloRules: "PrepareClientHelloRules = Inr hello_rules"
  unfolding PrepareClientHelloRules_def run_steps.simps
  by (simp add: rule_steps hello_rules_def hello_extensions_def)

section \<open>What rules stand for\<close>

fun kem_coefficients :: "bytes \<Rightarrow> nat list" where
  "kem_coefficients (x # y # z # bs) =
    (unat x + 256 * (unat y mod 16)) # (unat y div 16 + 16 * unat z) # kem_coefficients bs"
| "kem_coefficients _ = []"

definition kem_key :: "bytes \<Rightarrow> bool" where
  "kem_key k \<longleftrightarrow> length k = 1184 \<and> length (kem_coefficients (take 1152 k)) = 768
    \<and> (\<forall>c \<in> set (kem_coefficients (take 1152 k)). c < 3329)"

text \<open>
  \<open>emits domain greases at d block x d'\<close>: at the position \<open>at\<close> the block can become the
  bytes \<open>x\<close>; \<open>d\<close> and \<open>d'\<close> are the place of the digest before and after.
\<close>

inductive emits :: "bytes \<Rightarrow> bytes \<Rightarrow> nat \<Rightarrow> int \<Rightarrow> tls_block \<Rightarrow> bytes \<Rightarrow> int \<Rightarrow> bool"
  and emits_all :: "bytes \<Rightarrow> bytes \<Rightarrow> nat \<Rightarrow> int \<Rightarrow> tls_block list \<Rightarrow> bytes \<Rightarrow> int \<Rightarrow> bool"
  for domain greases :: bytes
where
  emits_string: "x \<noteq> [] \<Longrightarrow> emits domain greases at d (BlockString x) x d"
| emits_zero: "0 < n \<Longrightarrow> emits domain greases at d (BlockZero n) (replicate (nat n) 0)
    (if n = 32 \<and> d < 0 then int at else d)"
| emits_grease: "0 \<le> seed \<Longrightarrow> nat seed < length greases \<Longrightarrow> g = greases ! nat seed \<Longrightarrow>
    emits domain greases at d (BlockGrease seed) [g, g] d"
| emits_random: "0 < n \<Longrightarrow> length x = nat n \<Longrightarrow> emits domain greases at d (BlockRandom n) x d"
| emits_domain: "domain \<noteq> [] \<Longrightarrow> emits domain greases at d BlockDomain domain d"
| emits_key: "length x = 32 \<Longrightarrow> emits domain greases at d BlockPublicKey x d"
| emits_scope: "emits_all domain greases (at + 2) d entries x d' \<Longrightarrow> length x < 2 ^ 16 \<Longrightarrow>
    emits domain greases at d (BlockScope entries) (be_bytes 2 (of_nat (length x) :: 16 word) @ x) d'"
| emits_permutation: "list_all2 (\<lambda>inner x. \<exists>d'. emits_all domain greases 0 (-1) inner x d') entries xs \<Longrightarrow>
    mset ys = mset xs \<Longrightarrow> emits domain greases at d (BlockPermutation entries) (concat ys) d"
| emits_M: "kem_key x \<Longrightarrow> emits domain greases at d BlockM x d"
| emits_E: "length x \<in> {144, 176, 208, 240} \<Longrightarrow> emits domain greases at d BlockE x d"
| emits_padding: "at < 513 \<Longrightarrow> d' = (if 513 - at = 32 \<and> d < 0 then int at + 4 else d) \<Longrightarrow>
    emits domain greases at d BlockPadding
      ([0x00, 0x15] @ be_bytes 2 (of_nat (513 - at) :: 16 word) @ replicate (513 - at) 0) d'"
| emits_no_padding: "513 \<le> at \<Longrightarrow> emits domain greases at d BlockPadding [] d"
| emits_none: "emits_all domain greases at d [] [] d"
| emits_more: "emits domain greases at d block x d' \<Longrightarrow>
    emits_all domain greases (at + length x) d' blocks y d'' \<Longrightarrow>
    emits_all domain greases at d (block # blocks) (x @ y) d''"

section \<open>The generator follows the grammar\<close>

definition hello_laws :: "hello_env \<Rightarrow> bool" where
  "hello_laws env \<longleftrightarrow> (\<forall>i n. 0 < n \<longrightarrow> random_index env i n < n)
    \<and> (\<forall>i l. mset (shuffle env i l) = mset l) \<and> (\<forall>key bs. length (hmac_sha256 env key bs) = 32)"

lemma length_random_bytes [simp]: "length (random_bytes env i n) = n"
  by (simp add: random_bytes_def)

lemma put_bytes_grown:
  "n = length bs \<Longrightarrow> put_bytes (length (p_result s)) bs (s\<lparr>p_result := p_result s @ replicate n 0\<rparr>)
    = s\<lparr>p_result := p_result s @ bs\<rparr>"
  by (simp add: put_bytes_def)

lemma random_bytes_Nil [simp]: "random_bytes env i n = [] \<longleftrightarrow> n = 0"
  by (simp add: random_bytes_def)

definition has_room :: "nat \<Rightarrow> part \<Rightarrow> bool" where
  "has_room n s \<longleftrightarrow> \<not> p_error s \<and> 0 < n \<and> length (p_result s) + n \<le> 2048"

definition append_bytes :: "bytes \<Rightarrow> part \<Rightarrow> part" where
  "append_bytes bs s = s\<lparr>p_result := p_result s @ bs\<rparr>"

lemma append_bytes_simps [simp]:
  "p_result (append_bytes bs s) = p_result s @ bs"
  "p_digestPosition (append_bytes bs s) = p_digestPosition s"
  "p_error (append_bytes bs s) = p_error s"
  "p_draws (append_bytes bs s) = p_draws s"
  by (simp_all add: append_bytes_def)

lemma draw_simps [simp]:
  "p_result (draw s) = p_result s" "p_digestPosition (draw s) = p_digestPosition s"
  "p_error (draw s) = p_error s" "p_draws (draw s) = Suc (p_draws s)"
  by (simp_all add: draw_def)

lemma has_room_draw [simp]: "has_room n (draw s) = has_room n s"
  by (simp add: has_room_def)

text \<open>A write of a known number of bytes either has room and appends them, or is an error.\<close>

lemma grow_then:
  assumes "int n = m"
  shows "(if has_room n s then grow m s = (Some (length (p_result s)), s\<lparr>p_result := p_result s @ replicate n 0\<rparr>)
    else \<exists>s'. grow m s = (None, s') \<and> p_error s')"
  using assms by (auto simp: grow_def has_room_def kClientHelloLimit_def)

lemma writeString_appends:
  "if has_room (length bs) s then writeString bs s = append_bytes bs s else p_error (writeString bs s)"
  using grow_then [of "length bs" _ s, OF refl]
  by (auto simp: writeString_def put_bytes_grown append_bytes_def split: if_splits)

lemma writeZero_appends:
  "if has_room (nat n) s then writeZero n s = (append_bytes (replicate (nat n) 0) s)
      \<lparr>p_digestPosition := if n = 32 \<and> p_digestPosition s < 0 then int (length (p_result s)) else p_digestPosition s\<rparr>
    else p_error (writeZero n s)"
proof (cases "0 < n")
  case True
  then show ?thesis using grow_then [of "nat n" n s]
    by (auto simp: writeZero_def put_bytes_def append_bytes_def kHelloDigestLength_def split: if_splits)
next
  case False
  then show ?thesis by (simp add: has_room_def writeZero_def grow_def)
qed

lemma writeGrease_appends:
  "if 0 \<le> seed \<and> nat seed < length greases \<and> has_room 2 s
   then writeGrease greases seed s = append_bytes [greases ! nat seed, greases ! nat seed] s
   else p_error (writeGrease greases seed s)"
  using grow_then [of 2 2 s]
  by (auto simp: writeGrease_def put_bytes_def append_bytes_def numeral_2_eq_2 split: if_splits)

lemma writeRandom_appends:
  "if has_room (nat n) s
   then writeRandom env n s = append_bytes (random_bytes env (p_draws s) (nat n)) (draw s)
   else p_error (writeRandom env n s)"
proof (cases "0 < n")
  case True
  then show ?thesis using grow_then [of "nat n" n s]
    by (auto simp: writeRandom_def put_bytes_def append_bytes_def draw_def split: if_splits)
next
  case False
  then show ?thesis by (simp add: has_room_def writeRandom_def grow_def)
qed

lemma length_GeneratePublicKey: "GeneratePublicKey env i \<noteq> [] \<Longrightarrow> length (GeneratePublicKey env i) = 32"
  by (simp add: GeneratePublicKey_def split: option.splits)

lemma writePublicKey_appends:
  "if has_room (length (GeneratePublicKey env (p_draws s))) s
   then writePublicKey env s = append_bytes (GeneratePublicKey env (p_draws s)) (draw s)
   else p_error (writePublicKey env s)"
  using grow_then [of "length (GeneratePublicKey env (p_draws s))" _ "draw s", OF refl]
  by (auto simp: writePublicKey_def Let_def put_bytes_def append_bytes_def split: if_splits)

lemma length_kem_triple [simp]: "length (kem_triple pair) = 3"
  by (simp add: kem_triple_def Let_def)

definition kem_bytes :: "bytes \<Rightarrow> nat \<Rightarrow> bytes" where
  "kem_bytes random n = concat (map (\<lambda>i. kem_triple (take 8 (drop (i * 8) random))) [0..<n])"

lemma length_kem_bytes [simp]: "length (kem_bytes random n) = 3 * n"
  by (induction n) (simp_all add: kem_bytes_def)

lemma writeM_appends:
  "if has_room 1184 s
   then writeM env s = append_bytes (kem_bytes (random_bytes env (p_draws s) 3104) 384
      @ random_bytes env (Suc (p_draws s)) 32) (draw (draw s))
   else p_error (writeM env s)"
  using grow_then [of 1184 1184 s]
  by (auto simp: writeM_def Let_def put_bytes_def append_bytes_def draw_def kem_bytes_def [symmetric]
      split: if_splits)

lemma and_255: "(a :: nat) AND 255 = a mod 256"
  using take_bit_eq_mask [of 8 a] by (simp add: take_bit_eq_mod mask_eq_exp_minus_1)

lemma and_15: "(a :: nat) AND 15 = a mod 16"
  using take_bit_eq_mask [of 4 a] by (simp add: take_bit_eq_mod mask_eq_exp_minus_1)

lemma unat_byte: "n < 256 \<Longrightarrow> unat (of_nat n :: byte) = n"
  by (simp add: unsigned_of_nat take_bit_nat_eq_self)

lemma kem_coefficients_triple:
  obtains a b where "a < 3329" "b < 3329" "\<And>bs. kem_coefficients (kem_triple pair @ bs) = a # b # kem_coefficients bs"
proof -
  define a b where "a = unat (le_value (take 4 pair) :: u32) mod 3329"
    and "b = unat (le_value (take 4 (drop 4 pair)) :: u32) mod 3329"
  have lt: "a < 3329" "b < 3329" by (simp_all add: a_def b_def)
  have parts: "drop_bit 8 a = a div 256" "push_bit 4 (b AND 15) = 16 * (b mod 16)" "drop_bit 4 b = b div 16"
    by (simp_all add: drop_bit_eq_div push_bit_eq_mult and_15)
  have small: "a div 256 < 16" "a div 256 + 16 * (b mod 16) < 256" "b div 16 < 256"
    using lt by (simp_all add: less_mult_imp_div_less)
  define y where "y = a div 256 + 16 * (b mod 16)"
  have t: "kem_triple pair = [of_nat (a mod 256), of_nat y, of_nat (b div 16)]"
    unfolding kem_triple_def Let_def a_def [symmetric] b_def [symmetric] parts and_255 y_def ..
  have y: "unat (of_nat y :: byte) = y" "y mod 16 = a div 256" "y div 16 = b mod 16"
    using small by (simp_all add: y_def unat_byte del: of_nat_add)
  have "kem_coefficients (kem_triple pair @ bs) = a # b # kem_coefficients bs" for bs
    unfolding t using small by (simp add: unat_byte y)
  with lt show ?thesis by (rule that)
qed

lemma kem_bytes_coefficients:
  "length (kem_coefficients (kem_bytes random n @ bs)) = 2 * n + length (kem_coefficients bs)
    \<and> ((\<forall>c \<in> set (kem_coefficients bs). c < 3329) \<longrightarrow>
      (\<forall>c \<in> set (kem_coefficients (kem_bytes random n @ bs)). c < 3329))"
proof (induction n arbitrary: bs)
  case (Suc n)
  obtain a b where "a < 3329" "b < 3329"
    and "\<And>bs. kem_coefficients (kem_triple (take 8 (drop (n * 8) random)) @ bs) = a # b # kem_coefficients bs"
    using kem_coefficients_triple [of "take 8 (drop (n * 8) random)"] by blast
  with Suc [of "kem_triple (take 8 (drop (n * 8) random)) @ bs"] show ?case
    by (simp add: kem_bytes_def)
qed (simp add: kem_bytes_def)

lemma kem_key_written: "length y = 32 \<Longrightarrow> kem_key (kem_bytes random 384 @ y)"
  using kem_bytes_coefficients [of random 384 "[]"] by (simp add: kem_key_def)

definition follows :: "(bytes \<Rightarrow> int \<Rightarrow> bool) \<Rightarrow> part \<Rightarrow> part \<Rightarrow> bool" where
  "follows Q s s' \<longleftrightarrow> p_error s' \<or> \<not> p_error s \<and> length (p_result s') \<le> 2048
    \<and> (\<exists>x. p_result s' = p_result s @ x \<and> Q x (p_digestPosition s'))"

lemma follows_appended:
  assumes "if has_room (length x) s then s' = (append_bytes x r)\<lparr>p_digestPosition := d\<rparr> else p_error s'"
    and "p_result r = p_result s" and "x \<noteq> [] \<Longrightarrow> Q x d"
  shows "follows Q s s'"
  using assms by (auto simp: follows_def has_room_def split: if_splits)

lemma append_bytes_same: "append_bytes x r = (append_bytes x r)\<lparr>p_digestPosition := p_digestPosition r\<rparr>"
  by simp

lemma follows_String: "x \<noteq> [] \<longrightarrow> Q x (p_digestPosition s) \<Longrightarrow> follows Q s (writeString x s)"
  using writeString_appends [of x s] append_bytes_same [of x s]
  by (intro follows_appended [where x = x and r = s and d = "p_digestPosition s"]) auto

lemma follows_Random:
  assumes "\<And>x. 0 < n \<Longrightarrow> length x = nat n \<Longrightarrow> Q x (p_digestPosition s)"
  shows "follows Q s (writeRandom env n s)"
  using writeRandom_appends [of n s env] assms
    append_bytes_same [of "random_bytes env (p_draws s) (nat n)" "draw s"]
  by (intro follows_appended [where x = "random_bytes env (p_draws s) (nat n)" and r = "draw s"
        and d = "p_digestPosition s"]) auto

lemma write_elements_appends:
  "p_error (write_elements xs s) \<or> write_elements xs s = append_bytes (concat xs) s
    \<and> (xs \<noteq> [] \<longrightarrow> \<not> p_error s) \<and> (length (p_result s) \<le> 2048 \<longrightarrow> length (p_result s) + length (concat xs) \<le> 2048)"
proof (induction xs arbitrary: s)
  case Nil
  then show ?case by (simp add: append_bytes_def)
next
  case (Cons x xs)
  have "write_elements (x # xs) s = write_elements xs (append_bytes x s)" "\<not> p_error s"
      "length (p_result s) + length x \<le> 2048" if "has_room (length x) s"
    using that grow_then [of "length x" _ s, OF refl]
    by (simp_all add: put_bytes_grown append_bytes_def has_room_def)
  moreover have "p_error (write_elements (x # xs) s)" if "\<not> has_room (length x) s"
    using that grow_then [of "length x" _ s, OF refl] by auto
  ultimately show ?case using Cons [of "append_bytes x s"]
    by (cases "has_room (length x) s") (auto simp: append_bytes_def)
qed

lemma writeScope_follows:
  assumes "\<And>s0. p_result s0 = p_result s @ [0, 0] \<Longrightarrow> p_digestPosition s0 = p_digestPosition s \<Longrightarrow>
      length (p_result s0) \<le> 2048 \<Longrightarrow> follows inner s0 (entries s0)"
    and "\<And>x d. inner x d \<Longrightarrow> length x < 2 ^ 16 \<Longrightarrow> Q (be_bytes 2 (of_nat (length x) :: 16 word) @ x) d"
  shows "follows Q s (writeScope entries s)"
proof (cases "has_room 2 s")
  case False
  then show ?thesis using grow_then [of 2 2 s]
    by (auto simp: writeScope_def kLengthSize_def follows_def)
next
  case True
  define s0 where "s0 = s\<lparr>p_result := p_result s @ [0, 0]\<rparr>"
  have g: "grow (int kLengthSize) s = (Some (length (p_result s)), s0)"
    using True grow_then [of 2 2 s] by (simp add: s0_def kLengthSize_def numeral_2_eq_2)
  define s1 where "s1 = entries s0"
  have w: "writeScope entries s = put_bytes (length (p_result s))
      (be_bytes 2 (of_nat (length (p_result s1) - length (p_result s0)) :: 16 word)) s1"
    by (simp add: writeScope_def g Let_def s1_def)
  have "follows inner s0 s1" unfolding s1_def using True
    by (intro assms(1)) (simp_all add: s0_def has_room_def)
  then consider "p_error s1" | x where "\<not> p_error s1" "p_result s1 = p_result s0 @ x"
      "inner x (p_digestPosition s1)" "length (p_result s1) \<le> 2048"
    unfolding follows_def by blast
  then show ?thesis
  proof cases
    case 1
    then show ?thesis by (simp add: w follows_def put_bytes_def)
  next
    case 2
    then have "length x < 2 ^ 16" by simp
    with assms(2) 2(3) have q: "Q (be_bytes 2 (of_nat (length x) :: 16 word) @ x) (p_digestPosition s1)"
      by blast
    have "p_result (writeScope entries s) = p_result s @ be_bytes 2 (of_nat (length x) :: 16 word) @ x"
      using 2(2) by (simp add: w put_bytes_def s0_def)
    moreover have "p_digestPosition (writeScope entries s) = p_digestPosition s1"
      "p_error (writeScope entries s) = p_error s1" by (simp_all add: w put_bytes_def)
    ultimately show ?thesis using q True 2(2,4)
      by (auto simp: follows_def s0_def has_room_def)
  qed
qed

lemma writeZero_follows:
  assumes "0 < n \<Longrightarrow> Q (replicate (nat n) 0)
      (if n = 32 \<and> p_digestPosition s < 0 then int (length (p_result s)) else p_digestPosition s)"
  shows "follows Q s (writeZero n s)"
  using writeZero_appends [of n s] assms
  by (intro follows_appended [where x = "replicate (nat n) 0" and r = s]) auto

lemma writePadding_follows:
  assumes "length (p_result s) \<le> 2048"
  shows "follows (emits domain greases (length (p_result s)) (p_digestPosition s) BlockPadding) s
    (writePadding s)"
proof (cases "length (p_result s) < 513")
  case False
  then show ?thesis using assms
    by (cases "p_error s") (auto simp: writePadding_def follows_def intro: emits_no_padding)
next
  case True
  define n where "n = length (p_result s)"
  define s1 where "s1 = writeString [0x00, 0x15] s"
  have p: "writePadding s = writeScope (writeZero (int (513 - n))) s1"
    using True by (simp add: writePadding_def s1_def n_def Let_def)
  show ?thesis
  proof (cases "has_room 2 s")
    case False
    then have "p_error s1" using writeString_appends [of "[0x00, 0x15]" s] by (simp add: s1_def numeral_2_eq_2)
    then have "p_error (writePadding s)" by (simp add: p writeScope_def grow_def)
    then show ?thesis by (simp add: follows_def)
  next
    case room: True
    then have s1: "s1 = append_bytes [0x00, 0x15] s"
      using writeString_appends [of "[0x00, 0x15]" s] by (simp add: s1_def numeral_2_eq_2)
    have "follows (\<lambda>x d. x = be_bytes 2 (of_nat (513 - n) :: 16 word) @ replicate (513 - n) 0
        \<and> d = (if 513 - n = 32 \<and> p_digestPosition s < 0 then int n + 4 else p_digestPosition s))
      s1 (writePadding s)"
      unfolding p
    proof (rule writeScope_follows [where inner = "\<lambda>x d. x = replicate (513 - n) 0
        \<and> d = (if 513 - n = 32 \<and> p_digestPosition s < 0 then int n + 4 else p_digestPosition s)"])
      fix s0 :: part assume "p_result s0 = p_result s1 @ [0, 0]" "p_digestPosition s0 = p_digestPosition s1"
      then show "follows (\<lambda>x d. x = replicate (513 - n) 0
          \<and> d = (if 513 - n = 32 \<and> p_digestPosition s < 0 then int n + 4 else p_digestPosition s))
          s0 (writeZero (int (513 - n)) s0)"
        using True by (intro writeZero_follows) (auto simp: s1 n_def)
    qed simp
    then show ?thesis using room True emits_padding [of n _ "p_digestPosition s" domain greases]
      by (auto simp: follows_def s1 n_def)
  qed
qed

lemma writeE_follows:
  assumes "hello_laws env"
  shows "follows (emits domain greases at (p_digestPosition s) BlockE) s (writeE env s)"
proof -
  define i where "i = random_index env (p_draws s) (length [144, 176, 208, 240 :: int])"
  have "0 < length [144, 176, 208, 240 :: int]" by simp
  then have "i < length [144, 176, 208, 240 :: int]"
    using assms unfolding hello_laws_def i_def by blast
  then have "i < 4" by simp
  then have l: "nat ([144, 176, 208, 240] ! i) \<in> {144, 176, 208, 240}"
    by (auto simp: numeral_eq_Suc less_Suc_eq)
  have w: "writeE env s = writeRandom env ([144, 176, 208, 240] ! i) (draw s)"
    by (simp add: writeE_def Let_def i_def)
  have "follows (emits domain greases at (p_digestPosition s) BlockE) (draw s) (writeE env s)"
    unfolding w using l by (intro follows_Random) (auto intro: emits_E)
  then show ?thesis by (simp add: follows_def)
qed

lemma put_bytes_error [simp]: "p_error (put_bytes off bs s) = p_error s"
  by (simp add: put_bytes_def)

lemma grow_error [simp]: "p_error s \<Longrightarrow> grow n s = (None, s\<lparr>p_error := True\<rparr>)"
  by (simp add: grow_def)

lemma write_elements_error: "p_error s \<Longrightarrow> p_error (write_elements xs s)"
  by (cases xs) simp_all

lemma block_error: "p_error s \<Longrightarrow> p_error (writeBlock env domain greases block s)"
  by (cases block) (auto simp: writeString_def writeZero_def writeGrease_def writeRandom_def
      writePublicKey_def writeScope_def writeM_def writeE_def writePadding_def Let_def
      write_elements_error split: option.splits prod.splits)

lemma writes_error: "p_error s \<Longrightarrow> p_error (writeBlocks env domain greases blocks s)"
  by (induction blocks arbitrary: s) (simp_all add: block_error)

lemma writes_follow:
  assumes laws: "hello_laws env"
  shows "length (p_result s) \<le> 2048 \<Longrightarrow> follows (emits domain greases (length (p_result s))
      (p_digestPosition s) block) s (writeBlock env domain greases block s)"
    and "length (p_result s) \<le> 2048 \<Longrightarrow> follows (emits_all domain greases (length (p_result s))
      (p_digestPosition s) blocks) s (writeBlocks env domain greases blocks s)"
    and "fst (writeParts env domain greases entries i) = Some xs \<Longrightarrow>
      list_all2 (\<lambda>inner x. \<exists>d'. emits_all domain greases 0 (-1) inner x d') entries xs"
  using laws
proof (induction env domain greases block s and env domain greases blocks s
    and env domain greases entries i arbitrary: and and xs rule: writeBlock_writeBlocks_writeParts.induct)
  case (1 env domain greases data s)
  then show ?case by (auto intro!: follows_String emits_string)
next
  case (2 env domain greases n s)
  show ?case unfolding writeBlock.simps by (rule writeZero_follows) (rule emits_zero)
next
  case (3 env domain greases seed s)
  show ?case
  proof (cases "0 \<le> seed \<and> nat seed < length greases")
    case True
    then show ?thesis using writeGrease_appends [of seed greases s] append_bytes_same [of _ s]
      by (auto intro!: follows_appended [where x = "[greases ! nat seed, greases ! nat seed]" and r = s]
          emits_grease simp: numeral_2_eq_2)
  next
    case False
    then show ?thesis using writeGrease_appends [of seed greases s] by (auto simp: follows_def)
  qed
next
  case (4 env domain greases n s)
  then show ?case by (auto intro!: follows_Random emits_random)
next
  case (5 env domain greases s)
  then show ?case by (auto intro!: follows_String emits_domain)
next
  case (6 env domain greases s)
  define k where "k = GeneratePublicKey env (p_draws s)"
  have "emits domain greases (length (p_result s)) (p_digestPosition s) BlockPublicKey k (p_digestPosition s)"
    if "k \<noteq> []" using that length_GeneratePublicKey by (auto simp: k_def intro: emits_key)
  then show ?case using writePublicKey_appends [of env s] append_bytes_same [of k "draw s"]
    by (auto simp: k_def [symmetric] intro!: follows_appended [where x = k and r = "draw s"
        and d = "p_digestPosition s"])
next
  case (7 env domain greases entries s)
  show ?case unfolding writeBlock.simps
  proof (rule writeScope_follows)
    fix s0 :: part
    assume "p_result s0 = p_result s @ [0, 0]" "p_digestPosition s0 = p_digestPosition s"
      "length (p_result s0) \<le> 2048"
    then show "follows (emits_all domain greases (length (p_result s) + 2) (p_digestPosition s) entries) s0
        (writeBlocks env domain greases entries s0)"
      using 7(1) [of s0] 7(2,3) by simp
  qed (rule emits_scope)
next
  case (8 env domain greases entries s)
  show ?case
  proof (cases "writeParts env domain greases entries (p_draws s)")
    case (Pair r i)
    show ?thesis
    proof (cases r)
      case None
      then show ?thesis using Pair by (simp add: follows_def)
    next
      case (Some xs)
      have xs: "list_all2 (\<lambda>inner x. \<exists>d'. emits_all domain greases 0 (-1) inner x d') entries xs"
        by (rule 8(1)) (simp_all add: Pair Some 8)
      have m: "mset (shuffle env i xs) = mset xs" using 8 by (simp add: hello_laws_def)
      define s0 where "s0 = s\<lparr>p_draws := Suc i\<rparr>"
      have w: "writeBlock env domain greases (BlockPermutation entries) s
          = write_elements (shuffle env i xs) s0"
        using Pair Some by (simp add: s0_def)
      show ?thesis
        unfolding w using write_elements_appends [of "shuffle env i xs" s0] 8(2,3)
          emits_permutation [OF xs m, of "length (p_result s)" "p_digestPosition s"]
        by (cases "p_error s") (auto simp: follows_def s0_def append_bytes_def)
    qed
  qed
next
  case (9 env domain greases s)
  define k where "k = kem_bytes (random_bytes env (p_draws s) 3104) 384 @ random_bytes env (Suc (p_draws s)) 32"
  have "length k = 1184" "kem_key k" by (simp_all add: k_def kem_key_written)
  then show ?case using writeM_appends [of s env, folded k_def] append_bytes_same [of k "draw (draw s)"]
    by (auto intro!: follows_appended [where x = k and r = "draw (draw s)" and d = "p_digestPosition s"]
        emits_M)
next
  case (10 env domain greases s)
  then show ?case by (simp add: writeE_follows)
next
  case (11 env domain greases s)
  then show ?case by (simp add: writePadding_follows)
next
  case (12 env domain greases s)
  then show ?case by (cases "p_error s") (auto simp: follows_def intro: emits_none)
next
  case (13 env domain greases block blocks s)
  define s1 where "s1 = writeBlock env domain greases block s"
  have "follows (emits domain greases (length (p_result s)) (p_digestPosition s) block) s s1"
    unfolding s1_def using 13 by blast
  then consider "p_error s1" | x where "\<not> p_error s" "\<not> p_error s1" "length (p_result s1) \<le> 2048"
      "p_result s1 = p_result s @ x"
      "emits domain greases (length (p_result s)) (p_digestPosition s) block x (p_digestPosition s1)"
    unfolding follows_def by blast
  then show ?case
  proof cases
    case 1
    then show ?thesis using 13(2) by (simp add: s1_def [symmetric] writes_error follows_def)
  next
    case 2
    then have "follows (emits_all domain greases (length (p_result s1)) (p_digestPosition s1) blocks) s1
        (writeBlocks env domain greases blocks s1)"
      unfolding s1_def using 13 by blast
    then show ?thesis using 2
      by (auto simp: follows_def s1_def [symmetric] intro: emits_more)
  qed
next
  case (14 env domain greases i)
  then show ?case by simp
next
  case (15 env domain greases inner entries i)
  define part where "part = writeBlocks env domain greases inner (new_part i)"
  obtain ys j where rest: "writeParts env domain greases entries (p_draws part) = (Some ys, j)"
    and part: "\<not> p_error part" and xs: "xs = p_result part # ys"
    using 15(3) by (auto simp: part_def [symmetric] Let_def split: if_splits prod.splits option.splits)
  have "follows (emits_all domain greases 0 (-1) inner) (new_part i) part"
    using 15(1) 15(4) by (simp add: part_def new_part_def)
  then have "\<exists>d'. emits_all domain greases 0 (-1) inner (p_result part) d'"
    using part by (auto simp: follows_def new_part_def)
  moreover have "list_all2 (\<lambda>inner x. \<exists>d'. emits_all domain greases 0 (-1) inner x d') entries ys"
    by (rule 15(2) [OF part_def]) (simp_all add: rest part 15)
  ultimately show ?case by (simp add: xs)
qed

section \<open>How long a hello is\<close>

text \<open>
  \<open>least\<close> and \<open>room\<close> bound what a block becomes for a domain of \<open>n\<close> bytes, \<open>room\<close> at a
  position not before \<open>lo\<close>; \<open>writable\<close> blocks have something to write.
\<close>

fun least :: "nat \<Rightarrow> tls_block \<Rightarrow> nat" and leasts :: "nat \<Rightarrow> tls_block list \<Rightarrow> nat" where
  "least n (BlockString x) = length x"
| "least n (BlockZero k) = nat k"
| "least n (BlockGrease seed) = 2"
| "least n (BlockRandom k) = nat k"
| "least n BlockDomain = n"
| "least n BlockPublicKey = 32"
| "least n (BlockScope entries) = 2 + leasts n entries"
| "least n (BlockPermutation entries) = sum_list (map (leasts n) entries)"
| "least n BlockM = 1184"
| "least n BlockE = 144"
| "least n BlockPadding = 0"
| "leasts n [] = 0"
| "leasts n (block # blocks) = least n block + leasts n blocks"

fun room :: "nat \<Rightarrow> nat \<Rightarrow> tls_block \<Rightarrow> nat" and rooms :: "nat \<Rightarrow> nat \<Rightarrow> tls_block list \<Rightarrow> nat" where
  "room n lo (BlockScope entries) = 2 + rooms n (lo + 2) entries"
| "room n lo (BlockPermutation entries) = sum_list (map (rooms n 0) entries)"
| "room n lo BlockE = 240"
| "room n lo BlockPadding = (if lo < 513 then 517 else 0)"
| "room n lo block = least n block"
| "rooms n lo [] = 0"
| "rooms n lo (block # blocks) = room n lo block + rooms n (lo + least n block) blocks"

fun writable :: "nat \<Rightarrow> tls_block \<Rightarrow> bool" where
  "writable n (BlockString x) \<longleftrightarrow> x \<noteq> []"
| "writable n (BlockZero k) \<longleftrightarrow> 0 < k"
| "writable n (BlockGrease seed) \<longleftrightarrow> 0 \<le> seed \<and> seed < 8"
| "writable n (BlockRandom k) \<longleftrightarrow> 0 < k"
| "writable n BlockDomain \<longleftrightarrow> 0 < n"
| "writable n (BlockScope entries) \<longleftrightarrow> list_all (writable n) entries"
| "writable n (BlockPermutation entries) \<longleftrightarrow> list_all (\<lambda>inner. list_all (writable n) inner
    \<and> 0 < leasts n inner \<and> rooms n 0 inner \<le> 2048) entries"
| "writable n _ \<longleftrightarrow> True"

lemma length_concat_mset: "mset ys = mset xs \<Longrightarrow> length (concat ys) = length (concat xs)"
  by (metis length_concat mset_map sum_mset_sum_list)

lemma emits_length:
  "emits domain greases at d block x d' \<Longrightarrow> \<forall>lo \<le> at.
    least (length domain) block \<le> length x \<and> length x \<le> room (length domain) lo block"
  "emits_all domain greases at d blocks y d' \<Longrightarrow> \<forall>lo \<le> at.
    leasts (length domain) blocks \<le> length y \<and> length y \<le> rooms (length domain) lo blocks"
proof (induction rule: emits_emits_all.inducts)
  case (emits_permutation entries xs ys at d)
  have "sum_list (map (leasts (length domain)) entries) \<le> length (concat xs)
      \<and> length (concat xs) \<le> sum_list (map (rooms (length domain) 0) entries)"
    using emits_permutation(1)
  proof (induction entries xs rule: list_all2_induct)
    case (Cons e es x xs)
    then show ?case by (fastforce intro: add_mono)
  qed simp
  then show ?case by (simp add: length_concat_mset [OF emits_permutation(2)])
next
  case (emits_scope at d entries x d')
  then show ?case by (auto dest!: spec [of _ "_ + 2 :: nat"])
next
  case (emits_more at d block x d' blocks y d'')
  show ?case
  proof (intro allI impI)
    fix lo assume "lo \<le> at"
    then have b: "least (length domain) block \<le> length x" "length x \<le> room (length domain) lo block"
      using emits_more.IH by blast+
    then have "lo + least (length domain) block \<le> at + length x" using \<open>lo \<le> at\<close> by simp
    then have "leasts (length domain) blocks \<le> length y"
      "length y \<le> rooms (length domain) (lo + least (length domain) block) blocks"
      using emits_more.IH by blast+
    with b show "leasts (length domain) (block # blocks) \<le> length (x @ y)
        \<and> length (x @ y) \<le> rooms (length domain) lo (block # blocks)"
      by simp
  qed
qed (auto simp: kem_key_def)

lemma no_error_if_room:
  assumes "if c then f s = append_bytes x r else p_error (f s)" and "c" and "\<not> p_error r"
  shows "\<not> p_error (f s)"
  using assms by simp

lemma write_elements_room:
  "\<forall>x \<in> set xs. x \<noteq> [] \<Longrightarrow> \<not> p_error s \<Longrightarrow> length (p_result s) + length (concat xs) \<le> 2048 \<Longrightarrow>
    \<not> p_error (write_elements xs s)"
proof (induction xs arbitrary: s)
  case (Cons x xs)
  have "has_room (length x) s" using Cons.prems by (simp add: has_room_def)
  then have "write_elements (x # xs) s = write_elements xs (append_bytes x s)"
    using grow_then [of "length x" _ s, OF refl] by (simp add: put_bytes_grown append_bytes_def)
  then show ?case using Cons.IH [of "append_bytes x s"] Cons.prems by simp
qed simp

lemma list_all2_partner: "list_all2 p xs ys \<Longrightarrow> y \<in> set ys \<Longrightarrow> \<exists>x \<in> set xs. p x y"
  by (induction rule: list_all2_induct) auto

lemma writes_room:
  assumes "hello_laws env" and "\<forall>i. x25519 env i \<noteq> None" and "length greases = 8"
  shows "\<forall>lo \<le> length (p_result s). \<not> p_error s \<longrightarrow> writable (length domain) block \<longrightarrow>
      length (p_result s) + room (length domain) lo block \<le> 2048 \<longrightarrow>
      \<not> p_error (writeBlock env domain greases block s)"
    and "\<forall>lo \<le> length (p_result s). \<not> p_error s \<longrightarrow> list_all (writable (length domain)) blocks \<longrightarrow>
      length (p_result s) + rooms (length domain) lo blocks \<le> 2048 \<longrightarrow>
      \<not> p_error (writeBlocks env domain greases blocks s)"
    and "writable (length domain) (BlockPermutation entries) \<longrightarrow> fst (writeParts env domain greases entries i) \<noteq> None"
  using assms
proof (induction env domain greases block s and env domain greases blocks s
    and env domain greases entries i rule: writeBlock_writeBlocks_writeParts.induct)
  case (1 env domain greases data s)
  then show ?case using writeString_appends [of data s] by (auto simp: has_room_def)
next
  case (2 env domain greases n s)
  then show ?case using writeZero_appends [of n s] by (auto simp: has_room_def)
next
  case (3 env domain greases seed s)
  then show ?case using writeGrease_appends [of seed greases s] by (auto simp: has_room_def)
next
  case (4 env domain greases n s)
  then show ?case using writeRandom_appends [of n s env] by (auto simp: has_room_def)
next
  case (5 env domain greases s)
  then show ?case using writeString_appends [of domain s] by (auto simp: has_room_def)
next
  case (6 env domain greases s)
  then have "length (GeneratePublicKey env (p_draws s)) = 32"
    by (auto simp: GeneratePublicKey_def split: option.splits)
  then show ?case using writePublicKey_appends [of env s] by (auto simp: has_room_def)
next
  case (7 env domain greases entries s)
  show ?case
  proof (intro allI impI)
    fix lo assume a: "lo \<le> length (p_result s)" "\<not> p_error s"
      "writable (length domain) (BlockScope entries)"
      "length (p_result s) + room (length domain) lo (BlockScope entries) \<le> 2048"
    define s0 where "s0 = s\<lparr>p_result := p_result s @ [0, 0]\<rparr>"
    have "has_room 2 s" using a by (simp add: has_room_def)
    then have g: "grow (int kLengthSize) s = (Some (length (p_result s)), s0)"
      using grow_then [of 2 2 s] by (simp add: s0_def kLengthSize_def numeral_2_eq_2)
    have "\<not> p_error (writeBlocks env domain greases entries s0)"
      using 7(1) [OF 7(2-4), rule_format, of "lo + 2" s0] a by (simp add: s0_def)
    then show "\<not> p_error (writeBlock env domain greases (BlockScope entries) s)"
      by (simp add: writeScope_def g Let_def)
  qed
next
  case (8 env domain greases entries s)
  show ?case
  proof (intro allI impI)
    fix lo assume a: "lo \<le> length (p_result s)" "\<not> p_error s"
      "writable (length domain) (BlockPermutation entries)"
      "length (p_result s) + room (length domain) lo (BlockPermutation entries) \<le> 2048"
    obtain xs i where w: "writeParts env domain greases entries (p_draws s) = (Some xs, i)"
      using 8 a(3) by (cases "writeParts env domain greases entries (p_draws s)") auto
    have xs: "list_all2 (\<lambda>inner x. \<exists>d'. emits_all domain greases 0 (-1) inner x d') entries xs"
      using writes_follow(3) [OF 8(2)] w by (metis fst_conv)
    have m: "mset (shuffle env i xs) = mset xs" using 8(2) by (simp add: hello_laws_def)
    from emits_length(1) [OF emits_permutation [OF xs m]] a(1)
    have "length (concat (shuffle env i xs)) \<le> room (length domain) lo (BlockPermutation entries)"
      by blast
    moreover have "x \<noteq> []" if x_in: "x \<in> set xs" for x
    proof -
      obtain inner where "inner \<in> set entries" "\<exists>d'. emits_all domain greases 0 (-1) inner x d'"
        using list_all2_partner [OF xs x_in] by blast
      then show ?thesis using emits_length(2) [of domain greases 0 "-1" inner x] a(3)
        by (force simp: list_all_iff)
    qed
    moreover have "set (shuffle env i xs) = set xs" using m by (rule mset_eq_setD)
    ultimately show "\<not> p_error (writeBlock env domain greases (BlockPermutation entries) s)"
      using a(2,4) by (simp add: w write_elements_room)
  qed
next
  case (9 env domain greases s)
  then show ?case using writeM_appends [of s env] by (auto simp: has_room_def)
next
  case (10 env domain greases s)
  define i where "i = random_index env (p_draws s) (length [144, 176, 208, 240 :: int])"
  have "0 < length [144, 176, 208, 240 :: int]" by simp
  then have "i < length [144, 176, 208, 240 :: int]"
    using 10(1) unfolding hello_laws_def i_def by blast
  then have "nat ([144, 176, 208, 240] ! i) \<le> 240 \<and> 0 < nat ([144, 176, 208, 240] ! i)"
    by (auto simp: numeral_eq_Suc less_Suc_eq)
  then show ?case using writeRandom_appends [of "[144, 176, 208, 240] ! i" "draw s" env]
    by (auto simp: has_room_def writeE_def Let_def i_def)
next
  case (11 env domain greases s)
  show ?case
  proof (intro allI impI)
    fix lo assume a: "lo \<le> length (p_result s)" "\<not> p_error s"
      "length (p_result s) + room (length domain) lo BlockPadding \<le> 2048"
    show "\<not> p_error (writeBlock env domain greases BlockPadding s)"
    proof (cases "length (p_result s) < 513")
      case True
      have s1: "writeString [0x00, 0x15] s = append_bytes [0x00, 0x15] s"
        using a True writeString_appends [of "[0x00, 0x15]" s] by (simp add: has_room_def numeral_2_eq_2)
      define s1 where "s1 = append_bytes [0x00, 0x15] s"
      define s2 where "s2 = s1\<lparr>p_result := p_result s1 @ [0, 0]\<rparr>"
      have "grow (int kLengthSize) s1 = (Some (length (p_result s1)), s2)"
        using grow_then [of 2 2 s1] a True
        by (simp add: s2_def s1_def kLengthSize_def numeral_2_eq_2 has_room_def)
      moreover have "\<not> p_error (writeZero (int (513 - length (p_result s))) s2)"
      proof -
        have "has_room (nat (int (513 - length (p_result s)))) s2"
          using a True by (simp add: s2_def s1_def has_room_def)
        moreover have "\<not> p_error s2" using a by (simp add: s2_def s1_def)
        ultimately show ?thesis using writeZero_appends [of "int (513 - length (p_result s))" s2] by simp
      qed
      ultimately show ?thesis using True
        by (simp add: writePadding_def Let_def s1 s1_def [symmetric] writeScope_def)
    next
      case False
      then show ?thesis using a by (simp add: writePadding_def Let_def)
    qed
  qed
next
  case (12 env domain greases s)
  then show ?case by simp
next
  case (13 env domain greases block blocks s)
  show ?case
  proof (intro allI impI)
    fix lo assume a: "lo \<le> length (p_result s)" "\<not> p_error s"
      "list_all (writable (length domain)) (block # blocks)"
      "length (p_result s) + rooms (length domain) lo (block # blocks) \<le> 2048"
    define s1 where "s1 = writeBlock env domain greases block s"
    have e: "\<not> p_error s1" unfolding s1_def using 13(1,3,4,5) a by simp
    have "length (p_result s) \<le> 2048" using a(4) by simp
    from writes_follow(1) [OF 13(3) this, of domain greases block] e
    obtain x where x: "p_result s1 = p_result s @ x"
      "emits domain greases (length (p_result s)) (p_digestPosition s) block x (p_digestPosition s1)"
      unfolding s1_def follows_def by blast
    have l: "least (length domain) block \<le> length x" "length x \<le> room (length domain) lo block"
      using emits_length(1) [OF x(2)] a(1) by blast+
    then have "lo + least (length domain) block \<le> length (p_result s1)"
      "length (p_result s1) + rooms (length domain) (lo + least (length domain) block) blocks \<le> 2048"
      using a x(1) by simp_all
    then have "\<not> p_error (writeBlocks env domain greases blocks s1)"
      using 13(2-5) e a(3) unfolding s1_def by simp
    then show "\<not> p_error (writeBlocks env domain greases (block # blocks) s)" by (simp add: s1_def)
  qed
next
  case (14 env domain greases i)
  then show ?case by simp
next
  case (15 env domain greases inner entries i)
  show ?case
  proof
    assume w: "writable (length domain) (BlockPermutation (inner # entries))"
    define part where "part = writeBlocks env domain greases inner (new_part i)"
    have p: "\<not> p_error part" using 15(1,3,4,5) w by (simp add: part_def new_part_def)
    then have "fst (writeParts env domain greases entries (p_draws part)) \<noteq> None"
      using 15(2) [OF part_def] 15(3-5) w by simp
    then show "fst (writeParts env domain greases (inner # entries) i) \<noteq> None"
      using p by (auto simp: part_def [symmetric] Let_def split: prod.splits option.splits)
  qed
qed

section \<open>A reader of client hellos\<close>

definition net_value :: "bytes \<Rightarrow> nat" where
  "net_value bs = foldl (\<lambda>n b. 256 * n + unat b) 0 bs"

text \<open>A vector of TLS: its length in \<open>k\<close> bytes, then its bytes; with the rest of the input.\<close>

definition vector :: "nat \<Rightarrow> bytes \<Rightarrow> (bytes \<times> bytes) option" where
  "vector k bs =
    (let n = net_value (take k bs) in
     if length bs < k + n then None else Some (take n (drop k bs), drop (k + n) bs))"

function extensions :: "bytes \<Rightarrow> ((16 word \<times> bytes) list) option" where
  "extensions bs =
    (if bs = [] then Some []
     else if length bs < 2 then None
     else case vector 2 (drop 2 bs) of
         None \<Rightarrow> None
       | Some (body, rest) \<Rightarrow>
         map_option ((#) (be_value (take 2 bs), body)) (extensions (take (length bs - 2) rest)))"
  by pat_completeness auto
termination by (relation "measure length") auto

declare extensions.simps [simp del]

record client_hello_view =
  ch_random :: bytes
  ch_session :: bytes
  ch_suites :: bytes
  ch_compression :: bytes
  ch_extensions :: "(16 word \<times> bytes) list"

definition parse_body :: "bytes \<Rightarrow> client_hello_view option" where
  "parse_body body =
    (if take 2 body \<noteq> [0x03, 0x03] \<or> length body < 34 then None
     else case vector 1 (drop 34 body) of
       Some (session, r1) \<Rightarrow> (case vector 2 r1 of
         Some (suites, r2) \<Rightarrow> (case vector 1 r2 of
           Some (compression, r3) \<Rightarrow> (case vector 2 r3 of
             Some (exts, []) \<Rightarrow> map_option (\<lambda>es. \<lparr>ch_random = take 32 (drop 2 body),
               ch_session = session, ch_suites = suites, ch_compression = compression,
               ch_extensions = es\<rparr>) (extensions exts)
           | _ \<Rightarrow> None)
         | None \<Rightarrow> None)
       | None \<Rightarrow> None)
     | None \<Rightarrow> None)"

definition parse_client_hello :: "bytes \<Rightarrow> client_hello_view option" where
  "parse_client_hello bs =
    (if take 3 bs \<noteq> [0x16, 0x03, 0x01] then None
     else case vector 2 (drop 3 bs) of
         Some (fragment, []) \<Rightarrow>
           if take 1 fragment \<noteq> [0x01] then None
           else (case vector 3 (drop 1 fragment) of
               Some (body, []) \<Rightarrow> parse_body body
             | _ \<Rightarrow> None)
       | _ \<Rightarrow> None)"

lemma net_value_be_bytes:
  assumes "n < 2 ^ 16"
  shows "net_value (be_bytes 2 (of_nat n :: 16 word)) = n"
proof -
  define w where "w = (of_nat n :: 16 word)"
  have u: "unat w = n" unfolding w_def using assms by (simp add: unsigned_of_nat take_bit_nat_eq_self)
  have "unat (ucast w :: byte) = n mod 256"
    by (simp add: unsigned_ucast_eq u take_bit_eq_mod)
  moreover have "unat (ucast (drop_bit 8 w) :: byte) = n div 256"
  proof -
    have "unat (drop_bit 8 w) = n div 256"
      unfolding unat_drop_bit_eq u by (simp add: drop_bit_eq_div)
    then show ?thesis using assms by (simp only: unsigned_ucast_eq take_bit_eq_mod) simp
  qed
  ultimately show ?thesis by (simp add: be_bytes_2 net_value_def w_def [symmetric])
qed

lemma vector_2 [simp]:
  "length x < 2 ^ 16 \<Longrightarrow> vector 2 (be_bytes 2 (of_nat (length x) :: 16 word) @ x @ rest) = Some (x, rest)"
  by (simp add: vector_def net_value_be_bytes)

lemma vector_3:
  assumes "length x < 2 ^ 16"
  shows "vector 3 (0 # be_bytes 2 (of_nat (length x) :: 16 word) @ x @ rest) = Some (x, rest)"
proof -
  have "net_value (0 # be_bytes 2 (of_nat (length x) :: 16 word)) = length x"
    using net_value_be_bytes [OF assms] by (simp add: net_value_def)
  moreover obtain a b where "be_bytes 2 (of_nat (length x) :: 16 word) = [a, b]"
    by (simp add: be_bytes_2)
  ultimately show ?thesis by (simp add: vector_def Let_def eval_nat_numeral)
qed

lemma vector_1: "unat b = length x \<Longrightarrow> vector 1 (b # x @ rest) = Some (x, rest)"
  by (simp add: vector_def net_value_def)

definition extension :: "16 word \<times> bytes \<Rightarrow> bytes" where
  "extension e = be_bytes 2 (fst e) @ be_bytes 2 (of_nat (length (snd e)) :: 16 word) @ snd e"

lemma extensions_read:
  assumes "\<forall>e \<in> set es. length (snd e) < 2 ^ 16"
  shows "extensions (concat (map extension es)) = Some es"
  using assms
proof (induction es)
  case Nil
  then show ?case by (simp add: extensions.simps)
next
  case (Cons e es)
  define body where "body = be_bytes 2 (of_nat (length (snd e)) :: 16 word) @ snd e @ concat (map extension es)"
  have "be_value (be_bytes 2 (fst e)) = fst e" by (rule be_value_be_bytes_full) simp
  moreover have "vector 2 body = Some (snd e, concat (map extension es))"
    using Cons.prems by (simp add: body_def)
  moreover have "concat (map extension (e # es)) = be_bytes 2 (fst e) @ body"
    by (simp add: extension_def [of e] body_def)
  moreover have "be_bytes 2 (fst e) @ body \<noteq> []" "length (concat (map extension es)) \<le> length body"
    by (simp_all add: be_bytes_2 body_def)
  ultimately show ?case using Cons by (subst extensions.simps) simp
qed

section \<open>The hello the rules stand for\<close>

inductive_simps emits_String: "emits domain greases at d (BlockString b) x d'"
inductive_simps emits_Zero: "emits domain greases at d (BlockZero n) x d'"
inductive_simps emits_Grease: "emits domain greases at d (BlockGrease seed) x d'"
inductive_simps emits_Random: "emits domain greases at d (BlockRandom n) x d'"
inductive_simps emits_Domain: "emits domain greases at d BlockDomain x d'"
inductive_simps emits_PublicKey: "emits domain greases at d BlockPublicKey x d'"
inductive_simps emits_Scope: "emits domain greases at d (BlockScope entries) x d'"
inductive_simps emits_Permutation: "emits domain greases at d (BlockPermutation entries) x d'"
inductive_simps emits_Mlkem: "emits domain greases at d BlockM x d'"
inductive_simps emits_Ech: "emits domain greases at d BlockE x d'"
inductive_simps emits_Pad: "emits domain greases at d BlockPadding x d'"
inductive_simps emits_Nil: "emits_all domain greases at d [] x d'"
inductive_simps emits_Cons: "emits_all domain greases at d (block # blocks) x d'"

lemmas emits_blocks = emits_String emits_Zero emits_Grease emits_Random emits_Domain emits_PublicKey
  emits_Mlkem emits_Ech emits_Nil emits_Cons

abbreviation "element domain greases inner x \<equiv> \<exists>d'. emits_all domain greases 0 (-1) inner x d'"

definition server_name :: "bytes \<Rightarrow> bytes" where
  "server_name domain = be_bytes 2 (of_nat (3 + length domain) :: 16 word) @ [0x00]
    @ be_bytes 2 (of_nat (length domain) :: 16 word) @ domain"

definition key_shares :: "byte \<Rightarrow> bytes \<Rightarrow> bytes \<Rightarrow> bytes" where
  "key_shares g hybrid x = [0x04, 0xed, g, g, 0x00, 0x01, 0x00, 0x11, 0xec, 0x04, 0xc0] @ hybrid
    @ [0x00, 0x1d, 0x00, 0x20] @ x"

definition hello_extension_list :: "bytes \<Rightarrow> bytes \<Rightarrow> bytes \<Rightarrow> bytes \<Rightarrow> bytes \<Rightarrow> (16 word \<times> bytes) list" where
  "hello_extension_list domain greases hybrid x ech = [
    (0x00, server_name domain),
    (0x05, [0x01, 0x00, 0x00, 0x00, 0x00]),
    (0x0a, [0x00, 0x0a, greases ! 4, greases ! 4, 0x11, 0xec, 0x00, 0x1d, 0x00, 0x17, 0x00, 0x18]),
    (0x0b, [0x01, 0x00]),
    (0x0d, drop 4 kSignatures),
    (0x10, drop 4 kProtocols),
    (0x12, []),
    (0x17, []),
    (0x1b, [0x02, 0x00, 0x02]),
    (0x23, []),
    (0x2b, [0x06, greases ! 6, greases ! 6, 0x03, 0x04, 0x03, 0x03]),
    (0x2d, [0x01, 0x01]),
    (0x33, key_shares (greases ! 4) hybrid x),
    (0x44cd, [0x00, 0x03, 0x02, 0x68, 0x32]),
    (0xfe0d, ech),
    (0xff01, [0x00])]"

lemma extension_string:
  assumes "bs = extension e"
  shows "element domain greases [BlockString bs] x \<Longrightarrow> x = extension e"
  using assms by (auto simp: emits_blocks)

lemma element_server_name:
  assumes "element domain greases [BlockString [0x00, 0x00],
      BlockScope [BlockScope [BlockString [0x00], BlockScope [BlockDomain]]]] x"
  shows "x = extension (0x00, server_name domain)"
  using assms by (auto simp: emits_blocks emits_Scope extension_def server_name_def be_bytes_2)

lemma element_groups:
  assumes "element domain greases [BlockString [0x00, 0x0a, 0x00, 0x0c, 0x00, 0x0a], BlockGrease 4,
      BlockString [0x11, 0xec, 0x00, 0x1d, 0x00, 0x17, 0x00, 0x18]] x"
  shows "x = extension (0x0a, [0x00, 0x0a, greases ! 4, greases ! 4, 0x11, 0xec, 0x00, 0x1d, 0x00, 0x17,
    0x00, 0x18])"
  using assms by (auto simp: emits_blocks extension_def be_bytes_2)

lemma element_versions:
  assumes "element domain greases [BlockString [0x00, 0x2b, 0x00, 0x07, 0x06], BlockGrease 6,
      BlockString [0x03, 0x04, 0x03, 0x03]] x"
  shows "x = extension (0x2b, [0x06, greases ! 6, greases ! 6, 0x03, 0x04, 0x03, 0x03])"
  using assms by (auto simp: emits_blocks extension_def be_bytes_2)

lemma element_key_shares:
  assumes "element domain greases [BlockString [0x00, 0x33, 0x04, 0xef, 0x04, 0xed], BlockGrease 4,
      BlockString [0x00, 0x01, 0x00, 0x11, 0xec, 0x04, 0xc0], BlockM, BlockPublicKey,
      BlockString [0x00, 0x1d, 0x00, 0x20], BlockPublicKey] x"
  obtains kem k y where "kem_key kem" "length k = 32" "length y = 32"
    "x = extension (0x33, key_shares (greases ! 4) (kem @ k) y)"
  using assms by (auto simp: emits_blocks extension_def be_bytes_2 key_shares_def kem_key_def)

lemma element_ech:
  assumes "element domain greases [BlockString [0xfe, 0x0d], BlockScope [
      BlockString [0x00, 0x00, 0x01, 0x00, 0x01], BlockRandom 1, BlockString [0x00, 0x20],
      BlockPublicKey, BlockScope [BlockE]]] x"
  obtains ech where "length ech < 2 ^ 16" "x = extension (0xfe0d, ech)"
  using assms by (auto simp: emits_blocks emits_Scope extension_def be_bytes_2)

lemma string_extensions:
  "[0x00, 0x05, 0x00, 0x05, 0x01, 0x00, 0x00, 0x00, 0x00] = extension (0x05, [0x01, 0x00, 0x00, 0x00, 0x00])"
  "[0x00, 0x0b, 0x00, 0x02, 0x01, 0x00] = extension (0x0b, [0x01, 0x00])"
  "kSignatures = extension (0x0d, drop 4 kSignatures)"
  "kProtocols = extension (0x10, drop 4 kProtocols)"
  "[0x00, 0x12, 0x00, 0x00] = extension (0x12, [])"
  "[0x00, 0x17, 0x00, 0x00] = extension (0x17, [])"
  "[0x00, 0x1b, 0x00, 0x03, 0x02, 0x00, 0x02] = extension (0x1b, [0x02, 0x00, 0x02])"
  "[0x00, 0x23, 0x00, 0x00] = extension (0x23, [])"
  "[0x00, 0x2d, 0x00, 0x02, 0x01, 0x01] = extension (0x2d, [0x01, 0x01])"
  "[0x44, 0xcd, 0x00, 0x05, 0x00, 0x03, 0x02, 0x68, 0x32] = extension (0x44cd, [0x00, 0x03, 0x02, 0x68, 0x32])"
  "[0xff, 0x01, 0x00, 0x01, 0x00] = extension (0xff01, [0x00])"
  by (simp_all add: extension_def be_bytes_2 kSignatures_def kProtocols_def)

lemma hello_elements:
  assumes "list_all2 (\<lambda>inner x. element domain greases inner x) hello_extensions xs"
  obtains kem k y ech where "kem_key kem" "length k = 32" "length y = 32" "length ech < 2 ^ 16"
    "xs = map extension (hello_extension_list domain greases (kem @ k) y ech)"
proof -
  have "length xs = 16" using list_all2_lengthD [OF assms] by (simp add: hello_extensions_def)
  then obtain x0 x1 x2 x3 x4 x5 x6 x7 x8 x9 x10 x11 x12 x13 x14 x15 where
    xs: "xs = [x0, x1, x2, x3, x4, x5, x6, x7, x8, x9, x10, x11, x12, x13, x14, x15]"
    by (auto simp: length_Suc_conv eval_nat_numeral)
  note all = assms [unfolded hello_extensions_def xs list_all2_Cons list_all2_Nil]
  note string = extension_string [where domain = domain and greases = greases]
  obtain kem k y where key: "kem_key kem" "length k = 32" "length y = 32"
    and x12: "x12 = extension (0x33, key_shares (greases ! 4) (kem @ k) y)"
    using element_key_shares [of domain greases x12] all by blast
  obtain ech where ech: "length ech < 2 ^ 16" and x14: "x14 = extension (0xfe0d, ech)"
    using element_ech [of domain greases x14] all by blast
  have x1: "x1 = extension (0x05, [0x01, 0x00, 0x00, 0x00, 0x00])"
    by (rule string [OF string_extensions(1)]) (use all in blast)
  have x3: "x3 = extension (0x0b, [0x01, 0x00])"
    by (rule string [OF string_extensions(2)]) (use all in blast)
  have x4: "x4 = extension (0x0d, drop 4 kSignatures)"
    by (rule string [OF string_extensions(3)]) (use all in blast)
  have x5: "x5 = extension (0x10, drop 4 kProtocols)"
    by (rule string [OF string_extensions(4)]) (use all in blast)
  have x6: "x6 = extension (0x12, [])"
    by (rule string [OF string_extensions(5)]) (use all in blast)
  have x7: "x7 = extension (0x17, [])"
    by (rule string [OF string_extensions(6)]) (use all in blast)
  have x8: "x8 = extension (0x1b, [0x02, 0x00, 0x02])"
    by (rule string [OF string_extensions(7)]) (use all in blast)
  have x9: "x9 = extension (0x23, [])"
    by (rule string [OF string_extensions(8)]) (use all in blast)
  have x11: "x11 = extension (0x2d, [0x01, 0x01])"
    by (rule string [OF string_extensions(9)]) (use all in blast)
  have x13: "x13 = extension (0x44cd, [0x00, 0x03, 0x02, 0x68, 0x32])"
    by (rule string [OF string_extensions(10)]) (use all in blast)
  have x15: "x15 = extension (0xff01, [0x00])"
    by (rule string [OF string_extensions(11)]) (use all in blast)
  have x0: "x0 = extension (0x00, server_name domain)" by (rule element_server_name) (use all in blast)
  have x2: "x2 = extension (0x0a, [0x00, 0x0a, greases ! 4, greases ! 4, 0x11, 0xec, 0x00, 0x1d,
      0x00, 0x17, 0x00, 0x18])" by (rule element_groups) (use all in blast)
  have x10: "x10 = extension (0x2b, [0x06, greases ! 6, greases ! 6, 0x03, 0x04, 0x03, 0x03])"
    by (rule element_versions) (use all in blast)
  have "xs = map extension (hello_extension_list domain greases (kem @ k) y ech)"
    unfolding xs hello_extension_list_def list.map
    by (simp only: x0 x1 x2 x3 x4 x5 x6 x7 x8 x9 x10 x11 x12 x13 x14 x15)
  with key ech show thesis by (rule that)
qed

lemma mset_map_permuted: "mset ys = mset (map f es) \<Longrightarrow> \<exists>es'. mset es' = mset es \<and> ys = map f es'"
proof (induction ys arbitrary: es)
  case (Cons y ys)
  have "set (y # ys) = set (map f es)" using Cons.prems by (rule mset_eq_setD)
  then have "y \<in> f ` set es" by auto
  then obtain e a b where e: "es = a @ e # b" "f e = y" by (auto simp: in_set_conv_decomp)
  then have "mset ys = mset (map f (a @ b))" using Cons.prems by simp
  from Cons.IH [OF this] obtain es' where "mset es' = mset (a @ b)" "ys = map f es'" by blast
  then have "mset (e # es') = mset es \<and> y # ys = map f (e # es')" using e by simp
  then show ?case by (intro exI [of _ "e # es'"])
qed simp

definition hello_body :: "bytes \<Rightarrow> bytes \<Rightarrow> bytes \<Rightarrow> bytes \<Rightarrow> bytes" where
  "hello_body rnd sess suites exts = [0x03, 0x03] @ rnd @ [0x20] @ sess @ [0x00, 0x20] @ suites
    @ [0x01, 0x00] @ be_bytes 2 (of_nat (length exts) :: 16 word) @ exts"

definition hello_record :: "bytes \<Rightarrow> bytes \<Rightarrow> bytes \<Rightarrow> bytes \<Rightarrow> bytes" where
  "hello_record rnd sess suites exts =
    (let body = hello_body rnd sess suites exts;
         fragment = [0x01, 0x00] @ be_bytes 2 (of_nat (length body) :: 16 word) @ body in
     [0x16, 0x03, 0x01] @ be_bytes 2 (of_nat (length fragment) :: 16 word) @ fragment)"

lemma vector_32: "length x = 32 \<Longrightarrow> vector 1 (0x20 # x @ rest) = Some (x, rest)"
  by (rule vector_1) simp

lemma vector_suites: "length x = 32 \<Longrightarrow> vector 2 (0x00 # 0x20 # x @ rest) = Some (x, rest)"
  by (simp add: vector_def net_value_def)

lemma parse_hello_body:
  assumes "length rnd = 32" and "length sess = 32" and "length suites = 32"
    and "length exts < 2 ^ 16" and "extensions exts = Some es"
  shows "parse_body (hello_body rnd sess suites exts) = Some \<lparr>ch_random = rnd, ch_session = sess,
    ch_suites = suites, ch_compression = [0x00], ch_extensions = es\<rparr>"
proof -
  define tail where "tail = be_bytes 2 (of_nat (length exts) :: 16 word) @ exts"
  have v: "vector 2 tail = Some (exts, [])" using vector_2 [of exts "[]"] assms(4) by (simp add: tail_def)
  have c: "vector 1 (0x01 # 0x00 # tail) = Some ([0x00], tail)"
    using vector_1 [of "0x01" "[0x00]" tail] by simp
  have b: "hello_body rnd sess suites exts
      = 0x03 # 0x03 # rnd @ 0x20 # sess @ 0x00 # 0x20 # suites @ 0x01 # 0x00 # tail"
    by (simp add: hello_body_def tail_def)
  have d: "drop 34 (hello_body rnd sess suites exts) = 0x20 # sess @ 0x00 # 0x20 # suites @ 0x01 # 0x00 # tail"
    unfolding b using assms(1) by simp
  show ?thesis
    unfolding parse_body_def d using assms(1-3,5)
    by (simp add: b vector_32 vector_suites c v del: One_nat_def)
qed

lemma parse_hello_record:
  assumes "length rnd = 32" and "length sess = 32" and "length suites = 32"
    and "length exts < 2 ^ 15" and "extensions exts = Some es"
  shows "parse_client_hello (hello_record rnd sess suites exts) = Some \<lparr>ch_random = rnd,
    ch_session = sess, ch_suites = suites, ch_compression = [0x00], ch_extensions = es\<rparr>"
proof -
  define body where "body = hello_body rnd sess suites exts"
  have "length body < 2 ^ 15 + 105" using assms(1-4) by (simp add: body_def hello_body_def)
  then have l: "length body < 2 ^ 16" by simp
  define fragment where "fragment = 0x01 # 0x00 # be_bytes 2 (of_nat (length body) :: 16 word) @ body"
  have "length fragment < 2 ^ 16" using \<open>length body < 2 ^ 15 + 105\<close> by (simp add: fragment_def)
  then have f: "vector 2 (be_bytes 2 (of_nat (length fragment) :: 16 word) @ fragment) = Some (fragment, [])"
    using vector_2 [of fragment "[]"] by simp
  have r: "hello_record rnd sess suites exts
      = 0x16 # 0x03 # 0x01 # be_bytes 2 (of_nat (length fragment) :: 16 word) @ fragment"
    by (simp add: hello_record_def Let_def body_def [symmetric] fragment_def)
  have h: "vector 3 (drop 1 fragment) = Some (body, [])"
    using vector_3 [OF l, of "[]"] by (simp add: fragment_def)
  show ?thesis unfolding parse_client_hello_def r
    using f h parse_hello_body [OF assms(1-3) _ assms(5)] assms(4)
    by (simp add: fragment_def [symmetric] body_def [symmetric]) (simp add: fragment_def)
qed

definition grease_type :: "byte \<Rightarrow> 16 word" where
  "grease_type g = be_value [g, g]"

lemma grease_type_bytes: "be_bytes 2 (grease_type g) = [g, g]"
  using be_bytes_be_value [of "[g, g]", where 'a = 16] by (simp add: grease_type_def numeral_2_eq_2)

lemma grease_extension:
  "g # g # 0x00 # 0x00 # r = extension (grease_type g, []) @ r"
  "g # g # 0x00 # 0x01 # 0x00 # r = extension (grease_type g, [0x00]) @ r"
  by (simp_all add: extension_def grease_type_bytes be_bytes_2 [of 0] be_bytes_2 [of 1])

lemma extensions_blocks:
  assumes "emits_all domain greases at d [BlockGrease 2, BlockString [0x00, 0x00],
      BlockPermutation hello_extensions, BlockGrease 3, BlockString [0x00, 0x01, 0x00], BlockPadding] x d'"
  obtains xs ys where "list_all2 (\<lambda>inner x. element domain greases inner x) hello_extensions xs"
    "mset ys = mset xs" "d' = d"
    "x = [greases ! 2, greases ! 2, 0x00, 0x00] @ concat ys @ [greases ! 3, greases ! 3, 0x00, 0x01, 0x00]"
proof -
  obtain z d0 pad d1 where z: "emits domain greases (at + 4) d (BlockPermutation hello_extensions) z d0"
    and pad: "emits domain greases (at + 9 + length z) d0 BlockPadding pad d1" and d1: "d' = d1"
    and x: "x = [greases ! 2, greases ! 2, 0x00, 0x00] @ z @ [greases ! 3, greases ! 3, 0x00, 0x01, 0x00] @ pad"
    using assms by (auto simp: emits_Cons [of _ _ _ _ "BlockPermutation _"] emits_Cons [of _ _ _ _ "BlockPadding"]
        emits_Cons [of _ _ _ _ "BlockGrease _"] emits_Cons [of _ _ _ _ "BlockString _"]
        emits_Grease emits_String emits_Nil eval_nat_numeral)
  have "1000 \<le> length z" using emits_length(1) [OF z, rule_format, of 0]
    by (simp add: hello_extensions_def)
  then have "pad = []" "d1 = d0" using pad by (simp_all add: emits_Pad)
  then show thesis using z that d1 x by (auto simp: emits_Permutation)
qed

lemma string_scope:
  assumes "emits_all domain greases at d [BlockString a, BlockScope inner] x d'"
  obtains y where "x = a @ be_bytes 2 (of_nat (length y) :: 16 word) @ y" "length y < 2 ^ 16"
    "emits_all domain greases (at + length a + 2) d inner y d'"
  using assms by (auto simp: emits_String emits_Scope emits_Nil emits_Cons)

lemma body_blocks:
  assumes "emits_all domain greases at (-1) [BlockString a, BlockZero 32, BlockString b, BlockRandom 32,
      BlockString c, BlockGrease 0, BlockString e, BlockScope inner] x d'"
  obtains sess y where "x = a @ replicate 32 0 @ b @ sess @ c @ [greases ! 0, greases ! 0] @ e
      @ be_bytes 2 (of_nat (length y) :: 16 word) @ y" "length y < 2 ^ 16" "length sess = 32"
    "emits_all domain greases (at + length a + 32 + length b + 32 + length c + 2 + length e + 2)
      (int (at + length a)) inner y d'"
  using assms by (auto simp: emits_String emits_Scope emits_Nil emits_Cons emits_Zero emits_Random
      emits_Grease add.assoc add.commute add.left_commute)

lemma hello_blocks:
  assumes "emits_all domain greases 0 (-1) hello_rules x d'"
  obtains sess exts xs ys where "x = hello_record (replicate 32 0) sess
      ([greases ! 0, greases ! 0] @ take 30 kCipherSuites) exts" and "d' = 11" and "length sess = 32"
    and "list_all2 (\<lambda>inner x. element domain greases inner x) hello_extensions xs"
    and "mset ys = mset xs" and "length exts < 2 ^ 16"
    and "exts = [greases ! 2, greases ! 2, 0x00, 0x00] @ concat ys
      @ [greases ! 3, greases ! 3, 0x00, 0x01, 0x00]"
proof -
  obtain fragment where x: "x = [0x16, 0x03, 0x01] @ be_bytes 2 (of_nat (length fragment) :: 16 word) @ fragment"
    and f: "emits_all domain greases (0 + length [0x16, 0x03, 0x01 :: byte] + 2) (-1) [BlockString [0x01, 0x00],
      BlockScope [BlockString [0x03, 0x03], BlockZero 32, BlockString [0x20], BlockRandom 32,
      BlockString [0x00, 0x20], BlockGrease 0, BlockString kCipherSuites,
      BlockScope [BlockGrease 2, BlockString [0x00, 0x00], BlockPermutation hello_extensions,
        BlockGrease 3, BlockString [0x00, 0x01, 0x00], BlockPadding]]] fragment d'"
    by (rule string_scope [OF assms [unfolded hello_rules_def]])
  obtain body where fr: "fragment = [0x01, 0x00] @ be_bytes 2 (of_nat (length body) :: 16 word) @ body"
    and b: "emits_all domain greases (0 + length [0x16, 0x03, 0x01 :: byte] + 2 + length [0x01, 0x00 :: byte] + 2)
      (-1) [BlockString [0x03, 0x03], BlockZero 32, BlockString [0x20], BlockRandom 32,
      BlockString [0x00, 0x20], BlockGrease 0, BlockString kCipherSuites,
      BlockScope [BlockGrease 2, BlockString [0x00, 0x00], BlockPermutation hello_extensions,
        BlockGrease 3, BlockString [0x00, 0x01, 0x00], BlockPadding]] body d'"
    by (rule string_scope [OF f])
  obtain sess exts where bd: "body = [0x03, 0x03] @ replicate 32 0 @ [0x20] @ sess @ [0x00, 0x20]
      @ [greases ! 0, greases ! 0] @ kCipherSuites @ be_bytes 2 (of_nat (length exts) :: 16 word) @ exts"
    and s: "length exts < 2 ^ 16" "length sess = 32"
    and e: "emits_all domain greases (0 + length [0x16, 0x03, 0x01 :: byte] + 2 + length [0x01, 0x00 :: byte] + 2
        + length [0x03, 0x03 :: byte] + 32 + length [0x20 :: byte] + 32 + length [0x00, 0x20 :: byte] + 2
        + length kCipherSuites + 2)
      (int (0 + length [0x16, 0x03, 0x01 :: byte] + 2 + length [0x01, 0x00 :: byte] + 2 + length [0x03, 0x03 :: byte]))
      [BlockGrease 2, BlockString [0x00, 0x00], BlockPermutation hello_extensions,
        BlockGrease 3, BlockString [0x00, 0x01, 0x00], BlockPadding] exts d'"
    by (rule body_blocks [OF b])
  obtain xs ys where p: "list_all2 (\<lambda>inner x. element domain greases inner x) hello_extensions xs"
      "mset ys = mset xs"
    and d: "d' = int (0 + length [0x16, 0x03, 0x01 :: byte] + 2 + length [0x01, 0x00 :: byte] + 2 + length [0x03, 0x03 :: byte])"
    and exts: "exts = [greases ! 2, greases ! 2, 0x00, 0x00] @ concat ys @ [greases ! 3, greases ! 3, 0x00, 0x01, 0x00]"
    by (rule extensions_blocks [OF e])
  have "kCipherSuites = take 30 kCipherSuites @ [0x01, 0x00]" by (simp add: kCipherSuites_def)
  then have "body = hello_body (replicate 32 0) sess ([greases ! 0, greases ! 0] @ take 30 kCipherSuites) exts"
    unfolding bd hello_body_def by (metis append.assoc)
  then have "x = hello_record (replicate 32 0) sess ([greases ! 0, greases ! 0] @ take 30 kCipherSuites) exts"
    unfolding x fr hello_record_def Let_def by (simp only:)
  moreover have "d' = 11" using d by simp
  ultimately show thesis by (rule that) (rule s p exts)+
qed

section \<open>Greases\<close>

lemma grease_nibble: "((b AND 0xF0) + 0x0A) AND 0x0F = (0x0A :: byte)"
proof -
  have "(b AND 0xF0) AND 0x0A = (0 :: byte)" by (simp add: and.assoc)
  then have "(b AND 0xF0) + 0x0A = (b AND 0xF0) OR (0x0A :: byte)" by (rule disjunctive_add_eq_or)
  moreover have "((b AND 0xF0) OR 0x0A) AND 0x0F = (0x0A :: byte)"
    by (simp add: bit.conj_disj_distrib2 and.assoc)
  ultimately show ?thesis by simp
qed

lemma flip_nibble: "(b XOR 0x10) AND 0x0F = (b :: byte) AND 0x0F"
  by (simp add: bit.conj_xor_distrib2)

lemma flip_differs: "(b :: byte) \<noteq> b XOR 0x10"
proof
  assume "b = b XOR 0x10"
  then have "b XOR b = b XOR (b XOR 0x10)" by simp
  then show False by (simp add: xor.assoc [symmetric])
qed

lemma length_differ [simp]: "length (differ_in_pairs bs) = length bs"
  by (induction bs rule: differ_in_pairs.induct) simp_all

lemma differ_nibble:
  "\<forall>b \<in> set bs. b AND 0x0F = 0x0A \<Longrightarrow> \<forall>b \<in> set (differ_in_pairs bs). b AND 0x0F = 0x0A"
  by (induction bs rule: differ_in_pairs.induct) (auto simp: flip_nibble)

lemma differ_pairs: "2 * j + 1 < length bs \<Longrightarrow> differ_in_pairs bs ! (2 * j) \<noteq> differ_in_pairs bs ! (2 * j + 1)"
proof (induction bs arbitrary: j rule: differ_in_pairs.induct)
  case (1 a b bs)
  then show ?case using flip_differs [of b] by (cases j) auto
qed simp_all

lemma PrepareGreases_facts:
  "length (PrepareGreases env i) = 8" "\<And>j. j < 8 \<Longrightarrow> (PrepareGreases env i ! j) AND 0x0F = 0x0A"
  "PrepareGreases env i ! 2 \<noteq> PrepareGreases env i ! 3"
proof -
  define bs where "bs = map (\<lambda>b. (b AND 0xF0) + 0x0A) (random_bytes env i kMaxGrease)"
  have g: "PrepareGreases env i = differ_in_pairs bs" by (simp add: PrepareGreases_def bs_def)
  have l: "length bs = 8" by (simp add: bs_def kMaxGrease_def)
  show len: "length (PrepareGreases env i) = 8" by (simp add: g l)
  have "\<forall>b \<in> set bs. b AND 0x0F = 0x0A" by (auto simp: bs_def grease_nibble)
  from differ_nibble [OF this] show "(PrepareGreases env i ! j) AND 0x0F = 0x0A" if "j < 8" for j
    using that len by (simp add: g)
  show "PrepareGreases env i ! 2 \<noteq> PrepareGreases env i ! 3"
    using differ_pairs [of 1 bs] l by (simp add: g numeral_3_eq_3 numeral_2_eq_2)
qed

lemma grease_type_new:
  assumes "g AND 0x0F = 0x0A"
  shows "grease_type g \<notin> set (map fst (hello_extension_list domain greases hybrid x ech))"
proof
  assume "grease_type g \<in> set (map fst (hello_extension_list domain greases hybrid x ech))"
  then have "be_bytes 2 (grease_type g)
      \<in> be_bytes 2 ` set (map fst (hello_extension_list domain greases hybrid x ech))"
    by (rule imageI)
  then show False unfolding grease_type_bytes using assms
    by (auto simp: hello_extension_list_def be_bytes_2)
qed

lemma hello_extension_list_types: "distinct (map fst (hello_extension_list domain greases hybrid x ech))"
  by (simp add: hello_extension_list_def)

lemma grease_type_inject:
  assumes "grease_type g = grease_type h"
  shows "g = h"
proof -
  have "be_bytes 2 (grease_type g) = be_bytes 2 (grease_type h)" using assms by (rule arg_cong)
  then show ?thesis unfolding grease_type_bytes by simp
qed

section \<open>What the client sends\<close>

lemma hello_extensions_list:
  assumes "list_all2 (\<lambda>inner x. element domain greases inner x) hello_extensions xs"
    and "mset ys = mset xs" and "length exts < 2 ^ 16"
    and "exts = [greases ! 2, greases ! 2, 0x00, 0x00] @ concat ys @ [greases ! 3, greases ! 3, 0x00, 0x01, 0x00]"
    and nibble: "greases ! 2 AND 0x0F = 0x0A" "greases ! 3 AND 0x0F = 0x0A" and "greases ! 2 \<noteq> greases ! 3"
  obtains es kem k x where "extensions exts = Some es" "distinct (map fst es)"
    "(0x00, server_name domain) \<in> set es" "(0x33, key_shares (greases ! 4) (kem @ k) x) \<in> set es"
    "kem_key kem" "length k = 32" "length x = 32"
proof -
  obtain kem k x ech where key: "kem_key kem" "length k = 32" "length x = 32"
    and xs: "xs = map extension (hello_extension_list domain greases (kem @ k) x ech)"
    by (rule hello_elements [OF assms(1)])
  define fixed where "fixed = hello_extension_list domain greases (kem @ k) x ech"
  obtain es' where es': "mset es' = mset fixed" "ys = map extension es'"
    using mset_map_permuted [of ys extension fixed] assms(2) xs by (auto simp: fixed_def)
  define es where "es = (grease_type (greases ! 2), []) # es' @ [(grease_type (greases ! 3), [0x00])]"
  have c: "exts = concat (map extension es)"
    using grease_extension(1) [of "greases ! 2" "concat ys @ [greases ! 3, greases ! 3, 0, 1, 0]"]
      grease_extension(2) [of "greases ! 3" "[]"]
    by (simp add: es_def assms(4) es'(2) extension_def [of "(grease_type _, _)"])
  have "length (snd e) < 2 ^ 16" if "e \<in> set es" for e
  proof -
    have "length (extension e) \<le> length (concat (map extension es))"
      using that by (induction es) auto
    then show ?thesis using assms(3) c by (simp add: extension_def)
  qed
  then have read: "extensions exts = Some es" unfolding c by (intro extensions_read) blast
  have s: "set es' = set fixed" using es'(1) by (rule mset_eq_setD)
  have "mset (map fst es') = mset (map fst fixed)" using es'(1) by (metis mset_map)
  then have d: "distinct (map fst es')"
    using hello_extension_list_types mset_eq_imp_distinct_iff unfolding fixed_def by blast
  have "grease_type (greases ! 2) \<notin> fst ` set es'" "grease_type (greases ! 3) \<notin> fst ` set es'"
    using grease_type_new nibble unfolding s fixed_def by (metis list.set_map)+
  moreover have "grease_type (greases ! 2) \<noteq> grease_type (greases ! 3)"
    using assms(7) grease_type_inject by blast
  ultimately have "distinct (map fst es)" using d by (simp add: es_def)
  moreover have "(0x00, server_name domain) \<in> set es" "(0x33, key_shares (greases ! 4) (kem @ k) x) \<in> set es"
    by (simp_all add: es_def s fixed_def hello_extension_list_def)
  ultimately show thesis using that [OF read] key by blast
qed

lemma hello_record_random:
  obtains start rest where "length start = 11"
    "\<And>rnd. length rnd = 32 \<Longrightarrow> hello_record rnd sess suites exts = start @ rnd @ rest"
proof -
  define rest where "rest = [0x20] @ sess @ [0x00, 0x20] @ suites @ [0x01, 0x00]
      @ be_bytes 2 (of_nat (length exts) :: 16 word) @ exts"
  define n where "n = 34 + length rest"
  define start where "start = [0x16, 0x03, 0x01] @ be_bytes 2 (of_nat (4 + n) :: 16 word) @ [0x01, 0x00]
      @ be_bytes 2 (of_nat n :: 16 word) @ [0x03, 0x03]"
  have "hello_record rnd sess suites exts = start @ rnd @ rest" if "length rnd = 32" for rnd
  proof -
    have b: "hello_body rnd sess suites exts = [0x03, 0x03] @ rnd @ rest"
      by (simp add: hello_body_def rest_def)
    have l: "length ([0x03, 0x03] @ rnd @ rest) = n" using that by (simp add: n_def)
    have "length ([0x01, 0x00] @ be_bytes 2 (of_nat n :: 16 word) @ [0x03, 0x03] @ rnd @ rest) = 4 + n"
      using l by simp
    then show ?thesis unfolding hello_record_def Let_def b l start_def by simp
  qed
  moreover have "length start = 11" by (simp add: start_def)
  ultimately show ?thesis using that by blast
qed

lemma finalize_hello:
  assumes "\<not> p_error s" and "p_digestPosition s = 11" and "p_result s = start @ replicate 32 0 @ rest"
    and "length start = 11" and "length h = 32" and "hmac_sha256 env key (p_result s) = h"
    and stamped_def: "stamped = take 28 h @ le_bytes 4 (le_value (drop 28 h) XOR now :: u32)"
  shows "take_result (finalize env now key s) = start @ stamped @ rest"
    and "extractDigest (finalize env now key s) = stamped" and "\<not> p_error (finalize env now key s)"
proof -
  have l: "length stamped = 32" using assms(5) by (simp add: stamped_def)
  have w: "p_result (writeDigest env key s) = start @ h @ rest"
    unfolding writeDigest_def assms(6) using assms(2-5) by (simp add: put_bytes_def)
  have d: "p_digestPosition (writeDigest env key s) = 11" "p_error (writeDigest env key s) = p_error s"
    using assms(2) by (simp_all add: writeDigest_def put_bytes_def)
  have at: "nat 11 + kHelloDigestLength - 4 = 39" by (simp add: kHelloDigestLength_def)
  have "take 4 (drop 39 (start @ h @ rest)) = drop 28 h" using assms(4,5) by simp
  moreover have "take 39 (start @ h @ rest) = start @ take 28 h" "drop 43 (start @ h @ rest) = rest"
    using assms(4,5) by simp_all
  ultimately have t: "injectTimestamp now (writeDigest env key s)
      = (writeDigest env key s)\<lparr>p_result := start @ stamped @ rest\<rparr>"
    unfolding injectTimestamp_def Let_def w d at by (simp add: put_bytes_def w stamped_def)
  have f: "finalize env now key s = (writeDigest env key s)\<lparr>p_result := start @ stamped @ rest\<rparr>"
    using assms(1,2) by (simp add: finalize_def t)
  show "take_result (finalize env now key s) = start @ stamped @ rest"
    and "\<not> p_error (finalize env now key s)"
    using assms(1) d by (simp_all add: f take_result_def)
  show "extractDigest (finalize env now key s) = stamped"
    using assms(4) l d by (simp add: f extractDigest_def kHelloDigestLength_def)
qed

lemma client_hello_eq: "client_hello env now domain key = Inr (PrepareClientHello env now hello_rules domain key)"
  by (simp add: client_hello_def PrepareClientHelloRules)

definition made_part :: "hello_env \<Rightarrow> bytes \<Rightarrow> part" where
  "made_part env domain = writeBlocks env domain (PrepareGreases env 0) hello_rules (new_part 1)"

lemma hello_written:
  assumes "hello_laws env" and "\<not> p_error (made_part env domain)"
  shows "emits_all domain (PrepareGreases env 0) 0 (-1) hello_rules (p_result (made_part env domain))
      (p_digestPosition (made_part env domain))"
    and "length (p_result (made_part env domain)) \<le> 2048"
  using writes_follow(2) [OF assms(1), where s = "new_part 1" and domain = domain
      and greases = "PrepareGreases env 0" and blocks = hello_rules] assms(2)
  by (auto simp: made_part_def follows_def new_part_def)

lemma hello_shape:
  assumes "hello_laws env" and "\<not> p_error (made_part env domain)"
    and "PrepareClientHello env now hello_rules domain key = (data, digest)"
  obtains sess suites exts start rest es g kem k x where "data = hello_record digest sess suites exts"
    and "length data \<le> 2048" and "data = start @ digest @ rest" and "length start = 11"
    and "length digest = 32" and "length sess = 32" and "length suites = 32" and "length exts < 2 ^ 15"
    and "extensions exts = Some es" and "distinct (map fst es)" and "(0x00, server_name domain) \<in> set es"
    and "(0x33, key_shares g (kem @ k) x) \<in> set es" and "kem_key kem" and "length k = 32" and "length x = 32"
    and "let h = hmac_sha256 env key (start @ replicate 32 0 @ rest) in
      digest = take 28 h @ le_bytes 4 (le_value (drop 28 h) XOR now :: u32)"
proof -
  define greases where "greases = PrepareGreases env 0"
  define s where "s = made_part env domain"
  have e: "emits_all domain greases 0 (-1) hello_rules (p_result s) (p_digestPosition s)"
    and l: "length (p_result s) \<le> 2048"
    using hello_written [OF assms(1,2)] by (simp_all add: s_def greases_def)
  obtain sess exts xs ys where r: "p_result s = hello_record (replicate 32 0) sess
      ([greases ! 0, greases ! 0] @ take 30 kCipherSuites) exts"
    and d: "p_digestPosition s = 11" and sess: "length sess = 32"
    and xs: "list_all2 (\<lambda>inner x. element domain greases inner x) hello_extensions xs" "mset ys = mset xs"
      "length exts < 2 ^ 16" "exts = [greases ! 2, greases ! 2, 0x00, 0x00] @ concat ys
        @ [greases ! 3, greases ! 3, 0x00, 0x01, 0x00]"
    by (rule hello_blocks [OF e])
  define suites where "suites = [greases ! 0, greases ! 0] @ take 30 kCipherSuites"
  have suites: "length suites = 32" by (simp add: suites_def kCipherSuites_def)
  obtain start rest where st: "length start = 11"
    and rec: "\<And>rnd. length rnd = 32 \<Longrightarrow> hello_record rnd sess suites exts = start @ rnd @ rest"
    using hello_record_random [of sess suites exts] by blast
  have rs: "p_result s = start @ replicate 32 0 @ rest" using r rec by (simp add: suites_def)
  define h where "h = hmac_sha256 env key (p_result s)"
  have h: "length h = 32" using assms(1) by (simp add: h_def hello_laws_def)
  define stamped where "stamped = take 28 h @ le_bytes 4 (le_value (drop 28 h) XOR now :: u32)"
  have sl: "length stamped = 32" using h by (simp add: stamped_def)
  have e0: "\<not> p_error s" using assms(2) by (simp add: s_def)
  note fin = finalize_hello [OF e0 d rs st h h_def [symmetric] stamped_def]
  have "PrepareClientHello env now hello_rules domain key = (start @ stamped @ rest, stamped)"
    using fin(1,2) by (simp add: PrepareClientHello_def Let_def s_def made_part_def)
  then have dd: "data = start @ stamped @ rest" "digest = stamped" using assms(3) by simp_all
  have "greases ! 2 AND 0x0F = 0x0A" "greases ! 3 AND 0x0F = 0x0A" "greases ! 2 \<noteq> greases ! 3"
    using PrepareGreases_facts [where env = env and i = 0] by (simp_all add: greases_def)
  from hello_extensions_list [OF xs this]
  obtain es kem k x where es: "extensions exts = Some es" "distinct (map fst es)"
    "(0x00, server_name domain) \<in> set es" "(0x33, key_shares (greases ! 4) (kem @ k) x) \<in> set es"
    "kem_key kem" "length k = 32" "length x = 32" .
  have rd: "data = hello_record digest sess suites exts" using dd sl rec by simp
  have ld: "length data \<le> 2048" using l sl by (simp add: dd rs)
  then have "length exts \<le> 2048" unfolding rd by (simp add: hello_record_def hello_body_def Let_def)
  then have le: "length exts < 2 ^ 15" by simp
  have dg: "let h = hmac_sha256 env key (start @ replicate 32 0 @ rest) in
      digest = take 28 h @ le_bytes 4 (le_value (drop 28 h) XOR now :: u32)"
    by (simp add: dd stamped_def h_def rs Let_def)
  show thesis using that [OF rd ld _ st _ sess suites le es dg] sl dd by simp
qed

lemma hello_fits:
  assumes "hello_laws env" and "\<forall>i. x25519 env i \<noteq> None" and "domain \<noteq> []" and "length domain \<le> 236"
  shows "\<not> p_error (made_part env domain)"
proof -
  have "list_all (writable (length domain)) hello_rules"
    using assms(3,4) by (simp add: hello_rules_def hello_extensions_def kCipherSuites_def kSignatures_def kProtocols_def)
  moreover have "rooms (length domain) 0 hello_rules \<le> 2048"
    using assms(4) by (simp add: hello_rules_def hello_extensions_def kCipherSuites_def kSignatures_def kProtocols_def)
  ultimately show ?thesis
    using writes_room(2) [OF assms(1,2) PrepareGreases_facts(1), where s = "new_part 1" and domain = domain
      and blocks = hello_rules, rule_format, where lo = 0]
    by (simp add: made_part_def new_part_def)
qed

lemma hello_domain_bound:
  assumes "hello_laws env" and "\<not> p_error (made_part env domain)"
  shows "length domain \<le> 332"
  using emits_length(2) [OF hello_written(1) [OF assms], rule_format, of 0] hello_written(2) [OF assms]
  by (simp add: hello_rules_def hello_extensions_def kCipherSuites_def kSignatures_def kProtocols_def)

text \<open>
  C39: For every domain of up to 236 letters, whatever is drawn and however the extensions are
  shuffled, the client hello is a well-formed TLS record: every length in it is the length of
  what follows, its random field is the digest that is kept, no extension comes twice, the
  server name is the domain, and the hybrid key share has a packed key of ML-KEM with all
  coefficients in range, followed by a key of X25519.
\<close>

theorem client_hello_is_tls:
  assumes "hello_laws env" and "\<forall>i. x25519 env i \<noteq> None" and "domain \<noteq> []" and "length domain \<le> 236"
  shows "\<exists>data digest hello g kem k x. client_hello env now domain key = Inr (data, digest)
    \<and> length data \<le> 2048 \<and> parse_client_hello data = Some hello
    \<and> ch_random hello = digest \<and> length (ch_session hello) = 32 \<and> ch_compression hello = [0x00]
    \<and> distinct (map fst (ch_extensions hello))
    \<and> (0x00, server_name domain) \<in> set (ch_extensions hello)
    \<and> (0x33, key_shares g (kem @ k) x) \<in> set (ch_extensions hello)
    \<and> kem_key kem \<and> length k = 32 \<and> length x = 32"
proof -
  obtain data digest where p: "PrepareClientHello env now hello_rules domain key = (data, digest)"
    by (cases "PrepareClientHello env now hello_rules domain key")
  obtain sess suites exts start rest es g kem k x where h: "data = hello_record digest sess suites exts"
    "length data \<le> 2048" "length digest = 32" "length sess = 32" "length suites = 32"
    "length exts < 2 ^ 15" "extensions exts = Some es" "distinct (map fst es)"
    "(0x00, server_name domain) \<in> set es" "(0x33, key_shares g (kem @ k) x) \<in> set es" "kem_key kem"
    "length k = 32" "length x = 32"
    by (rule hello_shape [OF assms(1) hello_fits [OF assms] p])
  have "parse_client_hello data = Some \<lparr>ch_random = digest, ch_session = sess, ch_suites = suites,
      ch_compression = [0x00], ch_extensions = es\<rparr>"
    unfolding h(1) by (rule parse_hello_record [OF h(3-7)])
  then show ?thesis using h p by (auto simp: client_hello_eq)
qed

text \<open>
  C40: A server that has the key finds the digest it expects and the time of the client in the
  random field of a hello that was made: the digest is that of the hello with the field
  zeroed, with the time laid over its last four bytes. No domain of more than 332 letters
  gives a hello.
\<close>

theorem client_hello_carries_digest:
  assumes "hello_laws env" and "client_hello env now domain key = Inr (data, digest)" and "data \<noteq> []"
  shows "digest = take 32 (drop 11 data) \<and> length domain \<le> 332
    \<and> (let expected = hmac_sha256 env key (take 11 data @ replicate 32 0 @ drop 43 data) in
       take 28 digest = take 28 expected
       \<and> le_value (drop 28 digest) XOR le_value (drop 28 expected) = now)"
proof -
  have p: "PrepareClientHello env now hello_rules domain key = (data, digest)"
    using assms(2) by (simp add: client_hello_eq)
  have "\<not> p_error (finalize env now key (made_part env domain))"
    using assms(3) p by (auto simp: PrepareClientHello_def Let_def made_part_def take_result_def split: if_splits)
  then have e: "\<not> p_error (made_part env domain)" by (auto simp: finalize_def)
  obtain start rest where h: "data = start @ digest @ rest" "length start = 11" "length digest = 32"
    "let h = hmac_sha256 env key (start @ replicate 32 0 @ rest) in
      digest = take 28 h @ le_bytes 4 (le_value (drop 28 h) XOR now :: u32)"
    by (rule hello_shape [OF assms(1) e p])
  define expected where "expected = hmac_sha256 env key (start @ replicate 32 0 @ rest)"
  have "length expected = 32" using assms(1) by (simp add: expected_def hello_laws_def)
  moreover have "le_value (le_bytes 4 (le_value (drop 28 expected) XOR now :: u32)) = le_value (drop 28 expected) XOR now"
    by (rule le_value_le_bytes_full) simp
  moreover have "(a XOR b) XOR a = b" for a b :: u32
    by (metis xor.commute xor.right_neutral xor.assoc xor_self_eq)
  ultimately show ?thesis
    using h hello_domain_bound [OF assms(1) e] by (simp add: expected_def [symmetric] Let_def)
qed

section \<open>Witnesses\<close>

definition sample_hello :: hello_env where
  "sample_hello = \<lparr>random_byte = (\<lambda>i j. of_nat (17 * i + j)), x25519 = (\<lambda>i. Some (\<lambda>j. of_nat (i + j))),
    random_index = (\<lambda>i n. 0), shuffle = (\<lambda>i. rev), hmac_sha256 = (\<lambda>key bs. replicate 32 0x2a)\<rparr>"

lemma sample_hello: "hello_laws sample_hello" "\<forall>i. x25519 sample_hello i \<noteq> None"
  by (simp_all add: sample_hello_def hello_laws_def)

definition sample_domain :: bytes where
  "sample_domain = [0x61, 0x2e, 0x6f, 0x72, 0x67]"

lemma sample_domain: "sample_domain \<noteq> []" "length sample_domain \<le> 236"
  by (simp_all add: sample_domain_def)

theorem client_hello_is_tls_witness:
  "\<exists>data digest hello g kem k x. client_hello sample_hello 7 sample_domain [0x01] = Inr (data, digest)
    \<and> length data \<le> 2048 \<and> parse_client_hello data = Some hello
    \<and> ch_random hello = digest \<and> length (ch_session hello) = 32 \<and> ch_compression hello = [0x00]
    \<and> distinct (map fst (ch_extensions hello))
    \<and> (0x00, server_name sample_domain) \<in> set (ch_extensions hello)
    \<and> (0x33, key_shares g (kem @ k) x) \<in> set (ch_extensions hello)
    \<and> kem_key kem \<and> length k = 32 \<and> length x = 32"
  by (rule client_hello_is_tls [OF sample_hello sample_domain])

lemma hello_made:
  assumes "hello_laws env" and "\<forall>i. x25519 env i \<noteq> None" and "domain \<noteq> []" and "length domain \<le> 236"
  shows "fst (PrepareClientHello env now hello_rules domain key) \<noteq> []"
proof -
  obtain data digest where p: "PrepareClientHello env now hello_rules domain key = (data, digest)"
    by (cases "PrepareClientHello env now hello_rules domain key")
  obtain start rest where "data = start @ digest @ rest" "length start = 11"
    by (rule hello_shape [OF assms(1) hello_fits [OF assms] p])
  then show ?thesis using p by auto
qed

theorem client_hello_carries_digest_witness:
  "case PrepareClientHello sample_hello 7 hello_rules sample_domain [0x01] of (data, digest) \<Rightarrow>
    digest = take 32 (drop 11 data) \<and> length sample_domain \<le> 332
    \<and> (let expected = hmac_sha256 sample_hello [0x01] (take 11 data @ replicate 32 0 @ drop 43 data) in
       take 28 digest = take 28 expected
       \<and> le_value (drop 28 digest) XOR le_value (drop 28 expected) = (7 :: u32))"
  unfolding case_prod_beta
  by (rule client_hello_carries_digest [OF sample_hello(1)])
    (simp_all add: client_hello_eq hello_made [OF sample_hello sample_domain])

end
