(* ===== verification/Tls_Socket.thy ===== *)
theory Tls_Socket
  imports Tcp_Transport Tls_Hello
begin

text \<open>
  \<open>TlsSocket\<close> (mtproto/details/mtproto_tls_socket.cpp): the check of the server hello, the
  records that bytes are received and sent in, and the socket operations on top. The
  \<open>QTcpSocket\<close> below is its two byte queues: what has arrived and was not read, and what was
  written. The client hello is \<open>client_hello\<close> of \<open>Tls_Hello\<close>,
  HMAC an argument. The
  socket is the provider of the contract \<open>byte_socket\<close>, and the last section runs a
  \<open>TcpConnection\<close> over it.
\<close>

definition kMaxServerHelloLength :: nat where "kMaxServerHelloLength = 65536"
definition kServerHelloPart1 :: bytes where "kServerHelloPart1 = [0x16, 0x03, 0x03]"
definition kServerHelloPart3 :: bytes where
  "kServerHelloPart3 = [0x14, 0x03, 0x03, 0x00, 0x01, 0x01, 0x17, 0x03, 0x03]"
definition kServerHelloDigestPosition :: nat where "kServerHelloDigestPosition = 11"
definition kServerHeader :: bytes where "kServerHeader = [0x17, 0x03, 0x03]"
definition kClientPartSize :: nat where "kClientPartSize = 2878"
definition kClientPrefix :: bytes where "kClientPrefix = [0x14, 0x03, 0x03, 0x00, 0x01, 0x01]"
definition kClientHeader :: bytes where "kClientHeader = [0x17, 0x03, 0x03]"

lemmas tls_sizes = kHelloDigestLength_def kLengthSize_def kMaxServerHelloLength_def
  kServerHelloPart1_def kServerHelloPart3_def kServerHelloDigestPosition_def kServerHeader_def
  kClientPartSize_def kClientPrefix_def kClientHeader_def

section \<open>State\<close>

datatype tls_state = NotConnected | Connecting | WaitingHello | TlsConnected | TlsError

datatype tls_signal = TlsConnectedFired | TlsDisconnectedFired | ReadyReadFired | ErrorFired
  | SyncTimeFired

record tls =
  secret :: bytes
  raw :: bytes
  sent :: bytes
  tls_state :: tls_state
  incoming :: bytes
  incomingGoodDataOffset :: nat
  incomingGoodDataLimit :: nat
  serverHelloLength :: nat
  signals :: "tls_signal list"
  queued_check :: bool
  queued_error :: bool

definition keyFromSecret :: "tls \<Rightarrow> bytes" where
  "keyFromSecret k = take 16 (drop 1 (secret k))"

definition domainFromSecret :: "tls \<Rightarrow> bytes" where
  "domainFromSecret k = drop 17 (secret k)"

definition fire :: "tls_signal \<Rightarrow> tls \<Rightarrow> tls" where
  "fire e k = k\<lparr>signals := signals k @ [e]\<rparr>"

definition new_tls :: "bytes \<Rightarrow> tls result" where
  "new_tls s = (if length s \<ge> 21 \<and> s ! 0 = 0xEE
    then Inr \<lparr>secret = s, raw = [], sent = [], tls_state = NotConnected, incoming = [],
      incomingGoodDataOffset = 0, incomingGoodDataLimit = 0, serverHelloLength = 0, signals = [],
      queued_check = False, queued_error = False\<rparr>
    else Inl (Abort ''Expects''))"

definition connectToHost :: "tls \<Rightarrow> tls result" where
  "connectToHost k = (if tls_state k \<noteq> NotConnected then Inl (Abort ''Expects'')
    else Inr (k\<lparr>tls_state := Connecting\<rparr>))"

definition plainConnected :: "hello_env \<Rightarrow> u32 \<Rightarrow> tls \<Rightarrow> tls result" where
  "plainConnected env now k =
    (if tls_state k \<noteq> Connecting then Inr k
     else bind_result (client_hello env now (domainFromSecret k) (keyFromSecret k)) (\<lambda>(data, digest).
       if data = [] then Inr (fire ErrorFired (k\<lparr>tls_state := TlsError\<rparr>))
       else Inr (k\<lparr>tls_state := WaitingHello, incoming := digest, sent := sent k @ data\<rparr>)))"

definition plainDisconnected :: "tls \<Rightarrow> tls" where
  "plainDisconnected k = fire TlsDisconnectedFired (k\<lparr>tls_state := NotConnected, incoming := [],
    serverHelloLength := 0, incomingGoodDataOffset := 0, incomingGoodDataLimit := 0\<rparr>)"

definition handleError :: "tls \<Rightarrow> tls" where
  "handleError k =
    (let k' = (if tls_state k \<noteq> TlsConnected then fire SyncTimeFired k else k) in
     fire ErrorFired (k'\<lparr>tls_state := TlsError\<rparr>))"

definition timedOut :: "tls \<Rightarrow> tls" where
  "timedOut k = fire SyncTimeFired k"

section \<open>The server hello\<close>

definition CheckPart :: "bytes \<Rightarrow> bytes \<Rightarrow> bool" where
  "CheckPart data check = (if length data < length check then False
    else take (length check) data = check)"

definition ReadPartLength :: "bytes \<Rightarrow> nat \<Rightarrow> nat result" where
  "ReadPartLength data offset =
    (if length data < offset + kLengthSize then Inl (Abort ''subspan'')
     else Inr (unat (be_value (take kLengthSize (drop offset data)) :: 16 word)))"

definition shiftIncomingBy :: "nat \<Rightarrow> tls \<Rightarrow> tls result" where
  "shiftIncomingBy amount k =
    (if incomingGoodDataOffset k \<noteq> 0 \<or> incomingGoodDataLimit k \<noteq> 0 then Inl (Abort ''Expects'')
     else Inr (k\<lparr>incoming := (if amount < length (incoming k) then drop amount (incoming k) else [])\<rparr>))"

definition requiredHelloPartReady :: "tls \<Rightarrow> bool" where
  "requiredHelloPartReady k \<longleftrightarrow> length (incoming k) \<ge> kHelloDigestLength + serverHelloLength k"

definition checkHelloDigest :: "(bytes \<Rightarrow> bytes \<Rightarrow> bytes) \<Rightarrow> tls \<Rightarrow> tls result" where
  "checkHelloDigest hmac k =
    (if serverHelloLength k < kServerHelloDigestPosition + kHelloDigestLength
     then Inr (handleError k)
     else let full = kHelloDigestLength + serverHelloLength k;
              pos = kHelloDigestLength + kServerHelloDigestPosition in
       if length (incoming k) < full then Inl (Abort ''subspan'')
       else let digestCopy = take kHelloDigestLength (drop pos (incoming k));
                zeroed = take pos (incoming k) @ replicate kHelloDigestLength 0
                  @ drop (pos + kHelloDigestLength) (incoming k);
                k1 = k\<lparr>incoming := zeroed\<rparr>;
                check = hmac (keyFromSecret k) (take full zeroed) in
       if digestCopy \<noteq> check then Inr (handleError k1)
       else bind_result (shiftIncomingBy full k1) (\<lambda>k2.
         let k3 = (if incoming k2 = [] then k2 else k2\<lparr>queued_check := True\<rparr>) in
         Inr (fire TlsConnectedFired (k3\<lparr>incomingGoodDataOffset := 0, incomingGoodDataLimit := 0,
           tls_state := TlsConnected\<rparr>))))"

text \<open>
  \<open>readHello\<close> and the two checks call each other as the length of the hello becomes known:
  first the first part and the length behind it, then the parts up to the second length,
  then the whole. \<open>readAll\<close> takes everything that has arrived.
\<close>

function (sequential) readHello :: "(bytes \<Rightarrow> bytes \<Rightarrow> bytes) \<Rightarrow> tls \<Rightarrow> tls result"
  and checkHelloParts12 :: "(bytes \<Rightarrow> bytes \<Rightarrow> bytes) \<Rightarrow> nat \<Rightarrow> tls \<Rightarrow> tls result"
  and checkHelloParts34 :: "(bytes \<Rightarrow> bytes \<Rightarrow> bytes) \<Rightarrow> nat \<Rightarrow> tls \<Rightarrow> tls result"
where
  "readHello hmac k =
    (let parts1Size = length kServerHelloPart1 + kLengthSize;
         k1 = (if serverHelloLength k = 0 then k\<lparr>serverHelloLength := parts1Size\<rparr> else k) in
     if requiredHelloPartReady k1 then checkHelloParts12 hmac parts1Size k1
     else if raw k1 = [] then Inr k1
     else let k2 = k1\<lparr>incoming := incoming k1 @ raw k1, raw := []\<rparr> in
       if requiredHelloPartReady k2 then checkHelloParts12 hmac parts1Size k2 else Inr k2)"
| "checkHelloParts12 hmac parts1Size k =
    (if length (incoming k) < kHelloDigestLength + parts1Size then Inl (Abort ''subspan'')
     else let data = take parts1Size (drop kHelloDigestLength (incoming k)) in
       case ReadPartLength data (parts1Size - kLengthSize) of
         Inl e \<Rightarrow> Inl e
       | Inr part2Size \<Rightarrow>
         let parts123Size = parts1Size + part2Size + length kServerHelloPart3 + kLengthSize in
         if parts123Size > kMaxServerHelloLength then Inr (handleError k)
         else if serverHelloLength k = parts1Size
         then if \<not> CheckPart (drop (parts1Size - kLengthSize - length kServerHelloPart1) data)
                  kServerHelloPart1
           then Inr (handleError k)
           else let k1 = k\<lparr>serverHelloLength := parts123Size\<rparr> in
             if \<not> requiredHelloPartReady k1 then readHello hmac k1
             else checkHelloParts34 hmac parts123Size k1
         else checkHelloParts34 hmac parts123Size k)"
| "checkHelloParts34 hmac parts123Size k =
    (if length (incoming k) < kHelloDigestLength + parts123Size then Inl (Abort ''subspan'')
     else let data = take parts123Size (drop kHelloDigestLength (incoming k)) in
       case ReadPartLength data (parts123Size - kLengthSize) of
         Inl e \<Rightarrow> Inl e
       | Inr part4Size \<Rightarrow>
         let full = parts123Size + part4Size in
         if full > kMaxServerHelloLength then Inr (handleError k)
         else if serverHelloLength k = parts123Size
         then if \<not> CheckPart (drop (parts123Size - kLengthSize - length kServerHelloPart3) data)
                  kServerHelloPart3
           then Inr (handleError k)
           else let k1 = k\<lparr>serverHelloLength := full\<rparr> in
             if \<not> requiredHelloPartReady k1 then readHello hmac k1
             else checkHelloDigest hmac k1
         else checkHelloDigest hmac k)"
  by pat_completeness auto
termination
proof (relation "measure (\<lambda>x. case x of
      Inl (_, k) \<Rightarrow> 3 * (kMaxServerHelloLength - serverHelloLength k) + 2
    | Inr (Inl (_, _, k)) \<Rightarrow> 3 * (kMaxServerHelloLength - serverHelloLength k) + 1
    | Inr (Inr (_, _, k)) \<Rightarrow> 3 * (kMaxServerHelloLength - serverHelloLength k))", goal_cases)
qed (auto simp: requiredHelloPartReady_def Let_def split: if_splits)

section \<open>Records\<close>

text \<open>\<open>checkNextPacket\<close>; the span \<open>incoming\<close> of the code is the buffer before the shift.\<close>

function checkNextPacket :: "nat \<Rightarrow> tls \<Rightarrow> (bool \<times> tls) result" where
  "checkNextPacket offset k =
    (if incomingGoodDataLimit k \<noteq> 0 then Inr (True, k)
     else let fullHeader = length kServerHeader + kLengthSize in
       if length (incoming k) \<le> offset + fullHeader then Inr (True, k)
       else if \<not> CheckPart (drop offset (incoming k)) kServerHeader then Inr (False, k)
       else bind_result (ReadPartLength (incoming k) (offset + length kServerHeader)) (\<lambda>n.
         if 0 < n
         then bind_result (if 0 < offset then shiftIncomingBy offset k else Inr k) (\<lambda>k1.
           Inr (True, k1\<lparr>incomingGoodDataOffset := fullHeader, incomingGoodDataLimit := n\<rparr>))
         else checkNextPacket (offset + length kServerHeader + kLengthSize + n) k))"
  by pat_completeness auto
termination
  by (relation "measure (\<lambda>(offset, k). length (incoming k) - offset)")
    (auto simp: tls_sizes)

declare checkNextPacket.simps [simp del]
declare readHello.simps [simp del] checkHelloParts12.simps [simp del] checkHelloParts34.simps [simp del]

definition hasBytesAvailable :: "tls \<Rightarrow> bool" where
  "hasBytesAvailable k \<longleftrightarrow> 0 < incomingGoodDataLimit k \<and> incomingGoodDataOffset k < length (incoming k)"

definition readData :: "tls \<Rightarrow> tls result" where
  "readData k =
    (if tls_state k \<noteq> TlsConnected then Inr k
     else let k1 = k\<lparr>incoming := incoming k @ raw k, raw := []\<rparr> in
       bind_result (checkNextPacket 0 k1) (\<lambda>(ok, k2).
         if \<not> ok then Inr (handleError k2)
         else if hasBytesAvailable k2 then Inr (fire ReadyReadFired k2) else Inr k2))"

definition plainReadyRead :: "(bytes \<Rightarrow> bytes \<Rightarrow> bytes) \<Rightarrow> tls \<Rightarrow> tls result" where
  "plainReadyRead hmac k =
    (if tls_state k = WaitingHello then readHello hmac k
     else if tls_state k = TlsConnected then readData k else Inr k)"

text \<open>The check queued at the end of the hello.\<close>

definition queuedCheck :: "tls \<Rightarrow> tls result" where
  "queuedCheck k = (if \<not> queued_check k then Inr k
    else bind_result (checkNextPacket 0 (k\<lparr>queued_check := False\<rparr>)) (\<lambda>(ok, k1).
      Inr (if ok then k1 else handleError k1)))"

text \<open>The error queued by a read that met a bad record.\<close>

definition queuedError :: "tls \<Rightarrow> tls" where
  "queuedError k = (if queued_error k then handleError (k\<lparr>queued_error := False\<rparr>) else k)"

function tls_readLoop :: "bytes \<Rightarrow> nat \<Rightarrow> tls \<Rightarrow> (bytes \<times> tls) result" where
  "tls_readLoop written n k =
    (if incomingGoodDataLimit k = 0 then Inr (written, k)
     else let avail = min (int (incomingGoodDataLimit k))
            (int (length (incoming k)) - int (incomingGoodDataOffset k)) in
       if avail \<le> 0 then Inr (written, k)
       else let write = min (nat avail) n in
         if write = 0 then Inr (written, k)
         else let written' = written @ take write (drop (incomingGoodDataOffset k) (incoming k));
                  k1 = k\<lparr>incomingGoodDataLimit := incomingGoodDataLimit k - write,
                    incomingGoodDataOffset := incomingGoodDataOffset k + write\<rparr> in
           if incomingGoodDataLimit k1 \<noteq> 0 then Inr (written', k1)
           else bind_result (shiftIncomingBy (incomingGoodDataOffset k1)
               (k1\<lparr>incomingGoodDataOffset := 0\<rparr>)) (\<lambda>k2.
             bind_result (checkNextPacket 0 k2) (\<lambda>(ok, k3).
               if ok then tls_readLoop written' (n - write) k3
               else Inr (written', k3\<lparr>tls_state := TlsError, queued_error := True\<rparr>))))"
  by pat_completeness auto
termination by (relation "measure (\<lambda>(_, n, _). n)") auto

declare tls_readLoop.simps [simp del]

definition tls_read :: "tls \<Rightarrow> nat \<Rightarrow> (bytes option \<times> tls) result" where
  "tls_read k n = bind_result (tls_readLoop [] n k) (\<lambda>(bs, k'). Inr (Some bs, k'))"

text \<open>
  The loop of \<open>write\<close>. Sizes are \<open>size_t\<close>, so the difference wraps at 64 bits; a part of
  length zero would leave the loop where it is for ever.
\<close>

function writeRecords :: "bytes \<Rightarrow> bytes \<Rightarrow> bytes result" where
  "writeRecords start buffer =
    (if buffer = [] then Inr []
     else let room = (of_nat kClientPartSize - of_nat (length start) :: u64);
              write = min (unat room) (length buffer) in
       if write = 0 then Inl (Abort ''endless'')
       else bind_result (writeRecords [] (drop write buffer)) (\<lambda>rest.
         Inr (kClientHeader @ be_bytes 2 (of_nat (length start + write) :: 16 word) @ start
           @ take write buffer @ rest)))"
  by pat_completeness auto
termination by (relation "measure (\<lambda>(_, buffer). length buffer)") auto

declare writeRecords.simps [simp del]

definition tls_write :: "tls \<Rightarrow> bytes \<Rightarrow> bytes \<Rightarrow> tls result" where
  "tls_write k start buffer =
    (if buffer = [] then Inl (Abort ''Expects'')
     else if tls_state k \<noteq> TlsConnected then Inr k
     else bind_result (writeRecords start buffer) (\<lambda>records.
       Inr (k\<lparr>sent := sent k @ (if start = [] then [] else kClientPrefix) @ records\<rparr>)))"

definition tls_ops :: "tls socket_ops" where
  "tls_ops = \<lparr>so_read = tls_read, so_write = tls_write,
    so_connected = (\<lambda>k. tls_state k = TlsConnected), so_available = hasBytesAvailable,
    so_good_nonce = (\<lambda>_. True)\<rparr>"


section \<open>What a stream of records carries\<close>

definition record_length :: "bytes \<Rightarrow> nat" where
  "record_length bs = unat (be_value (take 2 (drop 3 bs)) :: 16 word)"

function payload :: "bytes \<Rightarrow> bytes" where
  "payload bs =
    (if length bs \<le> 5 \<or> take 3 bs \<noteq> kServerHeader then []
     else take (record_length bs) (drop 5 bs)
       @ (if length bs < 5 + record_length bs then [] else payload (drop (5 + record_length bs) bs)))"
  by pat_completeness auto
termination by (relation "measure length") auto

declare payload.simps [simp del]

lemma payload_Nil [simp]: "payload [] = []"
  by (simp add: payload.simps)

lemma record_length_append: "5 \<le> length bs \<Longrightarrow> record_length (bs @ x) = record_length bs"
  by (simp add: record_length_def)

lemma payload_record:
  assumes "take 3 bs = kServerHeader" and "5 + record_length bs \<le> length bs"
  shows "payload (bs @ x) = take (record_length bs) (drop 5 bs)
    @ payload (drop (5 + record_length bs) bs @ x)"
proof (cases "length (bs @ x) \<le> 5")
  case True
  with assms(2) have "length bs = 5" "length x = 0" "record_length bs = 0"
    unfolding length_append by linarith+
  then show ?thesis by (simp add: payload.simps [of bs])
next
  case False
  have l: "record_length (bs @ x) = record_length bs"
    by (rule record_length_append) (use assms(2) in simp)
  have "take 3 (bs @ x) = kServerHeader" using assms by simp
  then show ?thesis
    using False assms(2) by (simp add: payload.simps [of "bs @ x"] l)
qed

lemma payload_partial:
  assumes "take 3 bs = kServerHeader" and "5 < length bs" and "length bs < 5 + record_length bs"
  shows "payload bs = drop 5 bs"
  using assms by (simp add: payload.simps [of bs])

text \<open>What is still to be read when \<open>x\<close> arrives after what has arrived.\<close>

definition upcoming :: "tls \<Rightarrow> bytes \<Rightarrow> bytes" where
  "upcoming k x = drop (incomingGoodDataOffset k - 5) (payload (incoming k @ x))"

definition tls_pending :: "tls \<Rightarrow> bytes" where
  "tls_pending k = upcoming k []"

definition tls_good :: "tls \<Rightarrow> bool" where
  "tls_good k \<longleftrightarrow>
    (if incomingGoodDataLimit k = 0 then incomingGoodDataOffset k = 0 \<and> payload (incoming k) = []
     else 5 \<le> incomingGoodDataOffset k \<and> incomingGoodDataOffset k \<le> length (incoming k)
       \<and> 5 < length (incoming k) \<and> take 3 (incoming k) = kServerHeader
       \<and> record_length (incoming k) = incomingGoodDataOffset k - 5 + incomingGoodDataLimit k)"

lemma CheckPart_header: "CheckPart bs kServerHeader \<longleftrightarrow> take 3 bs = kServerHeader"
proof -
  have "length bs < 3 \<Longrightarrow> take 3 bs \<noteq> kServerHeader"
    using arg_cong [of "take 3 bs" kServerHeader length] by (auto simp: kServerHeader_def)
  moreover have "length kServerHeader = 3" by (simp add: kServerHeader_def)
  ultimately show ?thesis by (auto simp: CheckPart_def)
qed

lemma ReadPartLength_header:
  assumes "5 + off \<le> length bs"
  shows "ReadPartLength bs (off + 3) = Inr (record_length (drop off bs))"
proof -
  have "drop (off + 3) bs = drop 3 (drop off bs)" by (simp add: add.commute)
  then show ?thesis using assms by (simp add: ReadPartLength_def record_length_def kLengthSize_def)
qed

lemma checkNextPacket_spec:
  assumes "incomingGoodDataLimit k = 0" and "incomingGoodDataOffset k = 0"
    and "offset \<le> length (incoming k)"
  shows "(\<exists>ok. checkNextPacket offset k = Inr (ok, k) \<and> payload (drop offset (incoming k)) = [])
    \<or> (\<exists>d n. checkNextPacket offset k = Inr (True, k\<lparr>incoming := drop d (incoming k),
          incomingGoodDataOffset := 5, incomingGoodDataLimit := n\<rparr>)
        \<and> 0 < n \<and> 5 + d < length (incoming k) \<and> take 3 (drop d (incoming k)) = kServerHeader
        \<and> record_length (drop d (incoming k)) = n
        \<and> (\<forall>x. payload (drop offset (incoming k) @ x) = payload (drop d (incoming k) @ x)))"
  using assms
proof (induction "length (incoming k) - offset" arbitrary: offset rule: less_induct)
  case less
  let ?bs = "drop offset (incoming k)"
  have sizes: "length kServerHeader = 3" "kLengthSize = 2" by (simp_all add: tls_sizes)
  have step: "checkNextPacket offset k =
    (if length (incoming k) \<le> offset + 5 then Inr (True, k)
       else if take 3 ?bs \<noteq> kServerHeader then Inr (False, k)
       else if 0 < record_length ?bs
         then bind_result (if 0 < offset then shiftIncomingBy offset k else Inr k) (\<lambda>k1.
           Inr (True, k1\<lparr>incomingGoodDataOffset := 5, incomingGoodDataLimit := record_length ?bs\<rparr>))
         else checkNextPacket (offset + 5) k)"
    by (subst checkNextPacket.simps)
      (use less.prems in \<open>simp add: sizes CheckPart_header ReadPartLength_header Let_def
        add.commute [of 5]\<close>)
  show ?case
  proof (cases "length (incoming k) \<le> offset + 5 \<or> take 3 ?bs \<noteq> kServerHeader")
    case True
    then have "payload ?bs = []" by (auto simp: payload.simps [of ?bs])
    moreover have "\<exists>ok. checkNextPacket offset k = Inr (ok, k)" using True step by auto
    ultimately show ?thesis by blast
  next
    case hdr: False
    show ?thesis
    proof (cases "0 < record_length ?bs")
      case True
      have "(if 0 < offset then shiftIncomingBy offset k else Inr k)
          = Inr (k\<lparr>incoming := drop offset (incoming k)\<rparr>)"
        using less.prems hdr by (simp add: shiftIncomingBy_def)
      then have "checkNextPacket offset k = Inr (True, k\<lparr>incoming := drop offset (incoming k),
          incomingGoodDataOffset := 5, incomingGoodDataLimit := record_length ?bs\<rparr>)"
        using step hdr True by simp
      with hdr True show ?thesis
        by (intro disjI2 exI [of _ offset] exI [of _ "record_length ?bs"]) auto
    next
      case False
      then have zero: "record_length ?bs = 0" by simp
      have next_step: "checkNextPacket offset k = checkNextPacket (offset + 5) k"
        using step hdr False by simp
      have skip: "payload (?bs @ x) = payload (drop (offset + 5) (incoming k) @ x)" for x
      proof -
        have "5 \<le> length ?bs" using hdr by auto
        then show ?thesis using payload_record [of ?bs x] hdr zero by (simp add: add.commute)
      qed
      have "offset + 5 < length (incoming k)" using hdr by simp
      then have "length (incoming k) - (offset + 5) < length (incoming k) - offset" by linarith
      from less.hyps [OF this less.prems(1,2)] hdr
      have ih: "(\<exists>ok. checkNextPacket (offset + 5) k = Inr (ok, k)
          \<and> payload (drop (offset + 5) (incoming k)) = [])
        \<or> (\<exists>d n. checkNextPacket (offset + 5) k = Inr (True, k\<lparr>incoming := drop d (incoming k),
            incomingGoodDataOffset := 5, incomingGoodDataLimit := n\<rparr>)
          \<and> 0 < n \<and> 5 + d < length (incoming k) \<and> take 3 (drop d (incoming k)) = kServerHeader
          \<and> record_length (drop d (incoming k)) = n
          \<and> (\<forall>x. payload (drop (offset + 5) (incoming k) @ x) = payload (drop d (incoming k) @ x)))"
        by simp
      have "payload ?bs = payload (drop (offset + 5) (incoming k))" using skip [of "[]"] by simp
      then show ?thesis using ih unfolding next_step skip by simp
    qed
  qed
qed


text \<open>Checking for a record changes nothing about what is still to be read.\<close>

lemma checkNextPacket_good:
  assumes "incomingGoodDataLimit k = 0" and "incomingGoodDataOffset k = 0"
  obtains ok k' where "checkNextPacket 0 k = Inr (ok, k')" and "tls_good k'"
    and "\<And>x. upcoming k' x = upcoming k x" and "tls_state k' = tls_state k"
    and "signals k' = signals k" and "raw k' = raw k"
proof -
  have "0 \<le> length (incoming k)" by simp
  from checkNextPacket_spec [OF assms this] show thesis
  proof (elim disjE exE conjE)
    fix ok
    assume "checkNextPacket 0 k = Inr (ok, k)" and "payload (drop 0 (incoming k)) = []"
    then show thesis by (intro that [of ok k]) (use assms in \<open>simp_all add: tls_good_def\<close>)
  next
    fix d n
    assume e: "checkNextPacket 0 k = Inr (True, k\<lparr>incoming := drop d (incoming k),
        incomingGoodDataOffset := 5, incomingGoodDataLimit := n\<rparr>)"
      and n: "0 < n" "5 + d < length (incoming k)" "take 3 (drop d (incoming k)) = kServerHeader"
      "record_length (drop d (incoming k)) = n"
      and up: "\<forall>x. payload (drop 0 (incoming k) @ x) = payload (drop d (incoming k) @ x)"
    have "5 < length (incoming k) - d" using n(2) by linarith
    then show thesis
      by (intro that [OF e]) (use n up assms in \<open>simp_all add: tls_good_def upcoming_def\<close>)
  qed
qed

lemma tls_good_record:
  assumes "tls_good k" and "incomingGoodDataLimit k \<noteq> 0"
  shows "upcoming k x = take (incomingGoodDataLimit k) (drop (incomingGoodDataOffset k) (incoming k) @ x)
    @ (if length (incoming k @ x) < incomingGoodDataOffset k + incomingGoodDataLimit k then []
       else payload (drop (incomingGoodDataOffset k + incomingGoodDataLimit k) (incoming k @ x)))"
proof -
  let ?o = "incomingGoodDataOffset k" and ?l = "incomingGoodDataLimit k" and ?b = "incoming k @ x"
  have g: "5 \<le> ?o" "?o \<le> length (incoming k)" "5 < length (incoming k)"
    "take 3 (incoming k) = kServerHeader" "record_length (incoming k) = ?o - 5 + ?l"
    using assms by (simp_all add: tls_good_def)
  have r: "record_length ?b = ?o - 5 + ?l" using g by (simp add: record_length_append)
  have "take 3 ?b = kServerHeader" "5 < length ?b" using g by simp_all
  then have p: "payload ?b = take (?o - 5 + ?l) (drop 5 ?b)
      @ (if length ?b < ?o + ?l then [] else payload (drop (?o + ?l) ?b))"
    using g(1) by (simp add: payload.simps [of ?b] r)
  have "drop (?o - 5) (take (?o - 5 + ?l) (drop 5 c)) = take ?l (drop ?o c)" for c :: bytes
    using g(1) by (simp add: drop_take)
  then have "drop (?o - 5) (take (?o - 5 + ?l) (drop 5 ?b)) = take ?l (drop ?o ?b)" by blast
  have short: "?o - 5 - length (take (?o - 5 + ?l) (drop 5 ?b)) = 0"
    using g(2) unfolding length_take length_drop length_append by linarith
  have split: "drop c (a @ b) = drop c a @ b" if "c - length a = 0" for c and a b :: bytes
    using that by simp
  have "upcoming k x = take ?l (drop ?o ?b)
      @ (if length ?b < ?o + ?l then [] else payload (drop (?o + ?l) ?b))"
    unfolding upcoming_def p split [OF short] \<open>drop (?o - 5) (take (?o - 5 + ?l) (drop 5 ?b)) = _\<close> ..
  moreover have "drop ?o ?b = drop ?o (incoming k) @ x" using g(2) by simp
  ultimately show ?thesis by simp
qed

lemma tls_readLoop_gives:
  assumes "tls_good k"
  shows "\<exists>bs k'. tls_readLoop written n k = Inr (written @ bs, k') \<and> tls_good k' \<and> length bs \<le> n
    \<and> raw k' = raw k \<and> (tls_state k' = tls_state k \<or> tls_state k' = TlsError)
    \<and> (\<forall>x. upcoming k x = bs @ upcoming k' x) \<and> (0 < n \<and> tls_pending k \<noteq> [] \<longrightarrow> bs \<noteq> [])"
  using assms
proof (induction n arbitrary: written k rule: less_induct)
  case (less n)
  let ?o = "incomingGoodDataOffset k" and ?l = "incomingGoodDataLimit k" and ?b = "incoming k"
  have stop: ?case if "tls_readLoop written n k = Inr (written, k)" and "0 < n \<longrightarrow> tls_pending k = []"
    using that less.prems by (intro exI [of _ "[]"] exI [of _ k]) auto
  show ?case
  proof (cases "?l = 0")
    case True
    then have "tls_pending k = []" using less.prems by (simp add: tls_pending_def upcoming_def tls_good_def)
    moreover have "tls_readLoop written n k = Inr (written, k)"
      using True by (simp add: tls_readLoop.simps)
    ultimately show ?thesis using stop by blast
  next
    case l: False
    have g: "5 \<le> ?o" "?o \<le> length ?b" "5 < length ?b" "take 3 ?b = kServerHeader"
      "record_length ?b = ?o - 5 + ?l"
      using less.prems l by (simp_all add: tls_good_def)
    note up = tls_good_record [OF less.prems l]
    define part where "part = min (min ?l (length ?b - ?o)) n"
    define k1 where "k1 = k\<lparr>incomingGoodDataLimit := ?l - part, incomingGoodDataOffset := ?o + part\<rparr>"
    define bs where "bs = take part (drop ?o ?b)"
    show ?thesis
    proof (cases "part = 0")
      case True
      then have "tls_readLoop written n k = Inr (written, k)"
        using l g(2) by (subst tls_readLoop.simps) (auto simp: part_def Let_def min_def split: if_splits)
      moreover have "tls_pending k = []" if "0 < n"
      proof -
        have "length ?b = ?o" using True that l g(2) by (auto simp: part_def min_def split: if_splits)
        then show ?thesis using l by (simp add: tls_pending_def up)
      qed
      ultimately show ?thesis using stop by blast
    next
      case w: False
      have wb: "part \<le> ?l" "part \<le> length ?b - ?o" "part \<le> n" by (simp_all add: part_def)
      have nat_avail: "nat (min (int ?l) (int (length ?b) - int ?o)) = min ?l (length ?b - ?o)"
        and avail: "\<not> min (int ?l) (int (length ?b) - int ?o) \<le> 0"
        using g(2) w by (auto simp: part_def min_def nat_diff_distrib split: if_splits)
      have len: "length bs = part" using wb by (simp add: bs_def)
      have ne: "bs \<noteq> []" using len w by auto
      have step: "tls_readLoop written n k =
          (if incomingGoodDataLimit k1 \<noteq> 0 then Inr (written @ bs, k1)
           else bind_result (shiftIncomingBy (incomingGoodDataOffset k1)
               (k1\<lparr>incomingGoodDataOffset := 0\<rparr>)) (\<lambda>k2.
             bind_result (checkNextPacket 0 k2) (\<lambda>(ok, k3).
               if ok then tls_readLoop (written @ bs) (n - part) k3
               else Inr (written @ bs, k3\<lparr>tls_state := TlsError, queued_error := True\<rparr>))))"
        by (subst tls_readLoop.simps)
          (simp only: l avail w Let_def nat_avail part_def [symmetric] k1_def [symmetric]
            bs_def [symmetric] if_False simp_thms)
      have f1: "incomingGoodDataLimit k1 = ?l - part" "incomingGoodDataOffset k1 = ?o + part"
        by (simp_all add: k1_def)
      show ?thesis
      proof (cases "?l - part = 0")
        case False
        have "tls_good k1"
          using g wb False by (auto simp: tls_good_def k1_def)
        moreover have "upcoming k x = bs @ upcoming k1 x" for x
        proof -
          have cut: "drop (?o - 5) p = take part (drop (?o - 5) p) @ drop (?o + part - 5) p" for p :: bytes
            using g(1) by (metis Nat.add_diff_assoc2 append_take_drop_id drop_drop add.commute)
          have "upcoming k x = take part (upcoming k x) @ upcoming k1 x"
            using cut [of "payload (incoming k @ x)"] by (simp add: upcoming_def k1_def)
          moreover have "take part (upcoming k x) = bs" using wb by (simp add: up bs_def)
          ultimately show ?thesis by argo
        qed
        moreover have "raw k1 = raw k" "tls_state k1 = tls_state k" by (simp_all add: k1_def)
        ultimately show ?thesis using step f1 False len wb ne by (intro exI [of _ bs] exI [of _ k1]) simp
      next
        case True
        then have wl: "part = ?l" using wb by simp
        have full: "?o + ?l \<le> length ?b" using wl wb g(2) by simp
        define k2 where "k2 = k1\<lparr>incomingGoodDataOffset := 0, incoming := drop (?o + part) ?b\<rparr>"
        have shift: "shiftIncomingBy (?o + part) (k1\<lparr>incomingGoodDataOffset := 0\<rparr>) = Inr k2"
          using True by (simp add: shiftIncomingBy_def k1_def k2_def)
        have z: "incomingGoodDataLimit k2 = 0" "incomingGoodDataOffset k2 = 0"
          using True by (simp_all add: k2_def k1_def)
        obtain ok k3 where chk: "checkNextPacket 0 k2 = Inr (ok, k3)" and k3: "tls_good k3"
          and r3: "raw k3 = raw k2" and st3: "tls_state k3 = tls_state k2" and u3: "\<And>x. upcoming k3 x = upcoming k2 x"
          using checkNextPacket_good [OF z] by metis
        have rk: "raw k3 = raw k" "tls_state k3 = tls_state k"
          using r3 st3 by (simp_all add: k2_def k1_def)
        have u: "upcoming k x = bs @ upcoming k3 x" for x
        proof -
          have "upcoming k2 x = payload (drop (?o + ?l) ?b @ x)"
            by (simp add: upcoming_def k2_def wl)
          moreover have "upcoming k x = bs @ payload (drop (?o + ?l) ?b @ x)"
            using full by (simp add: up bs_def wl)
          ultimately show ?thesis using u3 [of x] by simp
        qed
        show ?thesis
        proof (cases ok)
          case True
          have "n - part < n" using w wb by simp
          from less.IH [OF this k3, of "written @ bs"] obtain bs' k' where
            "tls_readLoop (written @ bs) (n - part) k3 = Inr ((written @ bs) @ bs', k')" "tls_good k'"
            "length bs' \<le> n - part" "raw k' = raw k3" "tls_state k' = tls_state k3 \<or> tls_state k' = TlsError" "\<forall>x. upcoming k3 x = bs' @ upcoming k' x" by blast
          then show ?thesis
            using step f1 \<open>?l - part = 0\<close> shift chk True u rk len wb ne
            by (intro exI [of _ "bs @ bs'"] exI [of _ k']) auto
        next
          case False
          let ?k = "k3\<lparr>tls_state := TlsError, queued_error := True\<rparr>"
          have "tls_good ?k" "\<And>x. upcoming ?k x = upcoming k3 x"
            using k3 by (simp_all add: tls_good_def upcoming_def)
          then show ?thesis
            using step f1 \<open>?l - part = 0\<close> shift chk False u rk len wb ne
            by (intro exI [of _ bs] exI [of _ ?k]) auto
        qed
      qed
    qed
  qed
qed

definition tls_usable :: "tls \<Rightarrow> bool" where
  "tls_usable k \<longleftrightarrow> tls_good k \<and> raw k = [] \<and> (tls_state k = TlsConnected \<or> tls_state k = TlsError)"

interpretation tls: byte_socket tls_ops tls_usable upcoming
proof unfold_locales
  fix k n
  assume "tls_usable k" and "so_connected tls_ops k" and "0 < (n :: nat)"
  with tls_readLoop_gives [of k "[]" n]
  obtain bs k' where "tls_readLoop [] n k = Inr (bs, k')" "tls_good k'" "length bs \<le> n" "raw k' = []"
    "tls_state k' = TlsConnected \<or> tls_state k' = TlsError" "\<forall>x. upcoming k x = bs @ upcoming k' x" "tls_pending k \<noteq> [] \<longrightarrow> bs \<noteq> []"
    by (auto simp: tls_usable_def)
  then show "\<exists>bs k'. so_read tls_ops k n = Inr (Some bs, k') \<and> tls_usable k' \<and> length bs \<le> n
      \<and> (\<forall>x. upcoming k x = bs @ upcoming k' x) \<and> (upcoming k [] \<noteq> [] \<longrightarrow> bs \<noteq> [])"
    by (intro exI [of _ bs] exI [of _ k'])
      (simp add: tls_ops_def tls_read_def tls_pending_def tls_usable_def)
next
  fix k
  assume "tls_usable k" and "so_connected tls_ops k"
  then have good: "tls_good k" by (simp add: tls_usable_def)
  show "so_available tls_ops k \<longleftrightarrow> upcoming k [] \<noteq> []"
  proof (cases "incomingGoodDataLimit k = 0")
    case True
    with good show ?thesis
      by (simp add: tls_ops_def hasBytesAvailable_def upcoming_def tls_good_def)
  next
    case False
    have "incomingGoodDataOffset k \<le> length (incoming k)" using good False by (simp add: tls_good_def)
    with False tls_good_record [OF good False, of "[]"] show ?thesis
      by (auto simp: tls_ops_def hasBytesAvailable_def)
  qed
qed

section \<open>A connection over the socket\<close>

text \<open>
  The handlers that \<open>connectToServer\<close> subscribes to the signals of the socket. A handler of
  the socket fires its signals last, apart from the request for the time, so they are
  handled when it is done. What the connection sends when it is connected is an argument.
\<close>

fun dispatch :: "tcp_env \<Rightarrow> (tls tcp \<Rightarrow> tls tcp result option) \<Rightarrow> tls_signal list \<Rightarrow> tls tcp
    \<Rightarrow> tls tcp result option" where
  "dispatch env connected [] s = Some (Inr s)"
| "dispatch env connected (e # es) s =
    (let handled = (case e of
         TlsConnectedFired \<Rightarrow> if connected_lifetime s then connected s else Some (Inr s)
       | TlsDisconnectedFired \<Rightarrow> Some (Inr (if lifetime s then socketDisconnected env s else s))
       | ReadyReadFired \<Rightarrow> if lifetime s then socketRead env tls_ops s else Some (Inr s)
       | ErrorFired \<Rightarrow> Some (Inr (if lifetime s then socketError env s else s))
       | SyncTimeFired \<Rightarrow> Some (Inr s)) in
     case handled of None \<Rightarrow> None | Some (Inl f) \<Rightarrow> Some (Inl f)
     | Some (Inr s') \<Rightarrow> dispatch env connected es s')"

text \<open>Bytes arrive from the network at the socket of a connection.\<close>

definition bytes_arrive ::
  "tcp_env \<Rightarrow> (bytes \<Rightarrow> bytes \<Rightarrow> bytes) \<Rightarrow> (tls tcp \<Rightarrow> tls tcp result option) \<Rightarrow> bytes \<Rightarrow> tls tcp
    \<Rightarrow> tls tcp result option" where
  "bytes_arrive env hmac connected bs s =
    (case socket s of None \<Rightarrow> Some (Inr s)
     | Some k \<Rightarrow> (case plainReadyRead hmac (k\<lparr>raw := raw k @ bs, signals := []\<rparr>) of
         Inl f \<Rightarrow> Some (Inl f)
       | Inr k' \<Rightarrow> dispatch env connected (signals k') (s\<lparr>socket := Some k'\<rparr>)))"

fun stream_arrives ::
  "tcp_env \<Rightarrow> (bytes \<Rightarrow> bytes \<Rightarrow> bytes) \<Rightarrow> (tls tcp \<Rightarrow> tls tcp result option) \<Rightarrow> bytes list \<Rightarrow> tls tcp
    \<Rightarrow> tls tcp result option" where
  "stream_arrives env hmac connected [] s = Some (Inr s)"
| "stream_arrives env hmac connected (c # cs) s =
    (case bytes_arrive env hmac connected c s of
       None \<Rightarrow> None | Some (Inl f) \<Rightarrow> Some (Inl f)
     | Some (Inr s') \<Rightarrow> stream_arrives env hmac connected cs s')"

lemma upcoming_append: "incoming k = incoming k0 @ y \<Longrightarrow>
    incomingGoodDataOffset k = incomingGoodDataOffset k0 \<Longrightarrow> upcoming k x = upcoming k0 (y @ x)"
  by (simp add: upcoming_def)

lemma readData_gives:
  assumes "tls_state k = TlsConnected"
    and "tls_good k \<or> incomingGoodDataLimit k = 0 \<and> incomingGoodDataOffset k = 0"
  obtains k' where "readData k = Inr k'" and "tls_good k'"
    and "\<And>x. upcoming k' x = upcoming k (raw k @ x)" and "raw k' = []"
    and "tls_state k' = TlsConnected
        \<and> signals k' = signals k @ (if tls_pending k' = [] then [] else [ReadyReadFired])
      \<or> tls_state k' = TlsError \<and> signals k' = signals k @ [ErrorFired]"
proof -
  define k1 where "k1 = k\<lparr>incoming := incoming k @ raw k, raw := []\<rparr>"
  have u1: "upcoming k1 x = upcoming k (raw k @ x)" for x
    by (rule upcoming_append) (simp_all add: k1_def)
  have avail: "hasBytesAvailable q \<longleftrightarrow> tls_pending q \<noteq> []" if "tls_good q" "tls_state q = TlsConnected" "raw q = []" for q
    using tls.available_pending [of q] that by (simp add: tls_ops_def tls_usable_def tls_pending_def)
  note readI = that
  have goal: thesis if c: "checkNextPacket 0 k1 = Inr (ok, k2)" and g: "tls_good k2"
    and u2: "\<And>x. upcoming k2 x = upcoming k1 x" and st: "tls_state k2 = TlsConnected"
    and sg: "signals k2 = signals k" and r: "raw k2 = []" for ok k2
  proof (cases ok)
    case True
    define k3 where "k3 = (if tls_pending k2 = [] then k2 else fire ReadyReadFired k2)"
    have "readData k = Inr k3"
      using assms(1) c True avail [OF g st r] by (simp add: readData_def k1_def [symmetric] k3_def)
    moreover have "tls_pending k3 = tls_pending k2"
      by (simp add: k3_def fire_def tls_pending_def upcoming_def)
    ultimately show thesis
      using g u1 u2 st sg r
      by (intro readI [of k3]) (auto simp: k3_def fire_def tls_good_def upcoming_def)
  next
    case False
    have "readData k = Inr (handleError k2)"
      using assms(1) c False by (simp add: readData_def k1_def [symmetric])
    then show thesis
      using g u1 u2 st sg r
      by (intro readI [of "handleError k2"])
        (auto simp: handleError_def fire_def tls_good_def upcoming_def Let_def)
  qed
  show thesis
  proof (cases "incomingGoodDataLimit k = 0")
    case True
    then have z: "incomingGoodDataLimit k1 = 0" "incomingGoodDataOffset k1 = 0"
      using assms(2) by (auto simp: k1_def tls_good_def)
    obtain ok k2 where "checkNextPacket 0 k1 = Inr (ok, k2)" and "tls_good k2"
      and "\<And>x. upcoming k2 x = upcoming k1 x" and "tls_state k2 = tls_state k1"
      and "signals k2 = signals k1" and "raw k2 = raw k1"
      using checkNextPacket_good [OF z] by blast
    then show thesis using assms(1) by (intro goal) (simp_all add: k1_def)
  next
    case False
    then have g: "tls_good k" using assms(2) by simp
    have "tls_good k1"
      using g False by (simp add: tls_good_def k1_def record_length_append)
    moreover have "checkNextPacket 0 k1 = Inr (True, k1)"
      using False by (simp add: checkNextPacket.simps k1_def)
    ultimately show thesis using assms(1) by (intro goal [of True k1]) (simp_all add: k1_def)
  qed
qed

text \<open>
  What holds after the bytes \<open>wire\<close> have arrived: the session has the first packets of what the
  records in \<open>wire\<close> carry, and all of them if the connection lives.
\<close>

definition session_has :: "tcp_env \<Rightarrow> protocol \<Rightarrow> tls tcp \<Rightarrow> bytes \<Rightarrow> tls tcp \<Rightarrow> bool" where
  "session_has env p s0 wire s \<longleftrightarrow>
    (\<exists>got. read_result env tls_ops p (allocated s0) got (allocated s)
      \<and> (if alive tls_ops s
         then closed_when_finished s \<and> (\<exists>k. socket s = Some k \<and> raw k = []
           \<and> tls_good k \<and> tls_pending k = []
           \<and> (\<forall>x. payload (wire @ x) = got @ upcoming k x))
         else (\<forall>k. socket s = Some k \<longrightarrow> tls_state k = TlsError)
           \<and> (\<forall>x. \<exists>y. payload (wire @ x) = got @ y)))"


lemma session_has_dead:
  assumes "session_has env p s0 wire s" and "\<not> alive tls_ops s"
    and "\<not> alive tls_ops s'" and "view s' = view s"
    and "\<And>k. socket s' = Some k \<Longrightarrow> tls_state k = TlsError"
  shows "session_has env p s0 (wire @ c) s'"
proof -
  obtain got where got: "read_result env tls_ops p (allocated s0) got (allocated s)"
    "\<forall>x. \<exists>y. payload (wire @ x) = got @ y"
    using assms(1,2) by (auto simp: session_has_def)
  have "\<not> alive tls_ops (allocated s)" "\<not> alive tls_ops (allocated s')"
    using assms(2,3) by (simp_all add: alive_def)
  then have "read_result env tls_ops p (allocated s0) got (allocated s')"
    using got(1) assms(4) by (simp add: read_result_def)
  moreover have "\<forall>x. \<exists>y. payload ((wire @ c) @ x) = got @ y" using got(2) by simp
  ultimately show ?thesis unfolding session_has_def using assms(3,5) by auto
qed

lemma session_step:
  assumes has: "session_has env p s0 wire s"
    and cipher: "stream_cipher (ctr env)" and hang: "\<And>l c. hangs_up env (l @ [Error c])"
  shows "\<exists>s'. bytes_arrive env hmac connected c s = Some (Inr s') \<and> session_has env p s0 (wire @ c) s'"
proof (cases "alive tls_ops s")
  case dead: False
  show ?thesis
  proof (cases "socket s")
    case None
    then show ?thesis using session_has_dead [OF has dead dead] by (simp add: bytes_arrive_def)
  next
    case (Some k)
    then have st: "tls_state k = TlsError" using has dead by (auto simp: session_has_def)
    define s' where "s' = s\<lparr>socket := Some (k\<lparr>raw := raw k @ c, signals := []\<rparr>)\<rparr>"
    have "bytes_arrive env hmac connected c s = Some (Inr s')"
      using Some st by (simp add: bytes_arrive_def plainReadyRead_def s'_def)
    moreover have "session_has env p s0 (wire @ c) s'"
    proof (rule session_has_dead [OF has dead])
      show "\<not> alive tls_ops s'" using st by (simp add: alive_def s'_def tls_ops_def)
      show "view s' = view s" using Some by (simp add: view_def s'_def)
      show "tls_state q = TlsError" if "socket s' = Some q" for q using that st by (auto simp: s'_def)
    qed
    ultimately show ?thesis by blast
  qed
next
  case alive: True
  obtain got k where rr: "read_result env tls_ops p (allocated s0) got (allocated s)"
    and closed: "closed_when_finished s" and k: "socket s = Some k" "raw k = []"
    and ready: "tls_good k"
    and up: "\<And>x. payload (wire @ x) = got @ upcoming k x"
    using has alive by (auto simp: session_has_def)
  have conn: "tls_state k = TlsConnected" using alive k(1) by (simp add: alive_def tls_ops_def)
  have life: "lifetime s" using closed k(1) by (simp add: closed_when_finished_def)
  define q where "q = k\<lparr>raw := c, signals := []\<rparr>"
  have "tls_state q = TlsConnected"
    and "tls_good q \<or> incomingGoodDataLimit q = 0 \<and> incomingGoodDataOffset q = 0"
    using conn ready by (auto simp: q_def tls_good_def)
  then obtain k' where rd: "readData q = Inr k'" and good: "tls_good k'"
    and up': "\<And>x. upcoming k' x = upcoming q (raw q @ x)" and raw': "raw k' = []"
    and sig: "tls_state k' = TlsConnected
        \<and> signals k' = signals q @ (if tls_pending k' = [] then [] else [ReadyReadFired])
      \<or> tls_state k' = TlsError \<and> signals k' = signals q @ [ErrorFired]"
    by (rule readData_gives) (rule that)
  have up2: "payload ((wire @ c) @ x) = got @ upcoming k' x" for x
    using up [of "c @ x"] up' [of x] by (simp add: q_def upcoming_def)
  define s1 where "s1 = s\<lparr>socket := Some k'\<rparr>"
  have run: "bytes_arrive env hmac connected c s = dispatch env connected (signals k') s1"
    using k conn rd by (simp add: bytes_arrive_def plainReadyRead_def q_def [symmetric] s1_def)
      (simp add: q_def)
  have a1: "allocated s1 = (allocated s)\<lparr>socket := Some k'\<rparr>" by (simp add: s1_def allocated_def)
  have alive_a: "alive tls_ops (allocated s)" using alive by (simp add: alive_def)
  have closed1: "closed_when_finished s1" "lifetime s1"
    using closed life k(1) by (auto simp: closed_when_finished_def s1_def)
  show ?thesis
  proof (cases "tls_state k' = TlsConnected")
    case False
    then have "signals k' = [ErrorFired]" using sig by (auto simp: q_def)
    then have "bytes_arrive env hmac connected c s = Some (Inr (emit env (Error kErrorCodeOther) s1))"
      using run closed1(2) by (simp add: socketError_def s1_def)
    moreover define s' where "s' = emit env (Error kErrorCodeOther) s1"
    have "socket s' = None" unfolding s'_def by (rule emit_hangs_up [OF closed1(1) hang])
    then have dead': "\<not> alive tls_ops s'" "\<not> alive tls_ops (allocated s')" by (simp_all add: alive_def)
    have "view s1 = view s" using k(1) by (simp add: s1_def view_def)
    then have "view (allocated s') = emit env (Error kErrorCodeOther) (view (allocated s))"
      by (simp add: s'_def view_emit)
    from read_result_error [OF rr alive_a this dead'(2)] dead'(1) up2 \<open>socket s' = None\<close>
    have "session_has env p s0 (wire @ c) s'" unfolding session_has_def by auto
    ultimately show ?thesis by (auto simp: s'_def)
  next
    case conn': True
    have rr1: "read_result env tls_ops p (allocated s0) got (allocated s1)"
      unfolding a1 by (rule read_result_socket [OF rr alive_a]) (simp add: tls_ops_def conn')
    have alive1: "alive tls_ops s1" "alive tls_ops (allocated s1)"
      using conn' by (simp_all add: alive_def s1_def tls_ops_def allocated_def)
    show ?thesis
    proof (cases "tls_pending k' = []")
      case True
      then have "bytes_arrive env hmac connected c s = Some (Inr s1)"
        using run sig conn' by (simp add: q_def)
      moreover have "session_has env p s0 (wire @ c) s1"
        unfolding session_has_def using rr1 alive1(1) closed1 good raw' up2 True by (auto simp: s1_def)
      ultimately show ?thesis by blast
    next
      case False
      then have sg: "signals k' = [ReadyReadFired]" using sig conn' by (simp add: q_def)
      have rd1: "reading p (allocated s1)"
        using rr1 alive1(2) by (auto simp: read_result_def split: prod.splits)
      have usable: "socket s1 = Some k'" "tls_usable k'" "so_connected tls_ops k'"
        using good raw' conn' by (simp_all add: s1_def tls_usable_def tls_ops_def)
      obtain s2 got2 where s2: "socketRead env tls_ops s1 = Some (Inr s2)"
        "read_result env tls_ops p (allocated s1) got2 s2"
        "\<forall>x. \<exists>y. upcoming k' x = got2 @ y"
        "alive tls_ops s2 \<longrightarrow> closed_when_finished s2
        \<and> (\<exists>k''. socket s2 = Some k'' \<and> tls_usable k'' \<and> upcoming k'' [] = []
          \<and> (\<forall>x. upcoming k' x = got2 @ upcoming k'' x))"
        "\<forall>k''. socket s2 = Some k'' \<longrightarrow> tls_usable k''"
        using tls.socketRead_delivers [OF rd1 usable cipher hang closed1(1)] by blast
      have "read_result env tls_ops p (allocated s0) (got @ got2) s2"
        by (rule read_result_append [OF cipher rr1 alive1(2) s2(2)])
      then have rr2: "read_result env tls_ops p (allocated s0) (got @ got2) (allocated s2)"
        by (rule read_result_allocated)
      have "session_has env p s0 (wire @ c) s2"
      proof (cases "alive tls_ops s2")
        case True
        then obtain k'' where "closed_when_finished s2" "socket s2 = Some k''" "tls_usable k''"
          "upcoming k'' [] = []" "\<forall>x. upcoming k' x = got2 @ upcoming k'' x" using s2(4) by blast
        then show ?thesis unfolding session_has_def using rr2 True up2
          by (intro exI [of _ "got @ got2"]) (auto simp: tls_usable_def tls_pending_def)
      next
        case False
        have "tls_state q = TlsError" if "socket s2 = Some q" for q
          using that s2(5) False by (auto simp: tls_usable_def alive_def tls_ops_def)
        moreover have "\<exists>y. payload ((wire @ c) @ x) = (got @ got2) @ y" for x
          using up2 [of x] s2(3) by (metis append.assoc)
        ultimately show ?thesis unfolding session_has_def using rr2 False by auto
      qed
      moreover have "bytes_arrive env hmac connected c s = Some (Inr s2)"
        using run sg closed1(2) s2(1) by simp
      ultimately show ?thesis by blast
    qed
  qed
qed


section \<open>The hello lets a server in that knows the key\<close>

definition parts123 :: "bytes \<Rightarrow> nat" where
  "parts123 b = 5 + record_length (drop 32 b) + 11"

definition full_hello :: "bytes \<Rightarrow> nat" where
  "full_hello b = parts123 b + unat (be_value (take 2 (drop (32 + parts123 b - 2) b)) :: 16 word)"

text \<open>How far the length of the hello is known while the socket waits for it.\<close>

definition hello_inv :: "tls \<Rightarrow> bool" where
  "hello_inv k \<longleftrightarrow> tls_state k = WaitingHello \<and> incomingGoodDataOffset k = 0
    \<and> incomingGoodDataLimit k = 0 \<and> 32 \<le> length (incoming k)
    \<and> (serverHelloLength k = 0 \<or> serverHelloLength k = 5
       \<or> 37 \<le> length (incoming k) \<and> take 3 (drop 32 (incoming k)) = kServerHelloPart1
         \<and> (serverHelloLength k = parts123 (incoming k)
            \<or> 32 + parts123 (incoming k) \<le> length (incoming k)
              \<and> serverHelloLength k = full_hello (incoming k)))"

text \<open>The first \<open>n\<close> bytes after our digest are a hello with the digest the key gives.\<close>

definition authentic :: "(bytes \<Rightarrow> bytes \<Rightarrow> bytes) \<Rightarrow> bytes \<Rightarrow> nat \<Rightarrow> bytes \<Rightarrow> bool" where
  "authentic hmac key n all \<longleftrightarrow> 43 \<le> n \<and> 32 + n \<le> length all
    \<and> take 3 (drop 32 all) = kServerHelloPart1
    \<and> take 32 (drop 43 all) = hmac key (take 43 all @ replicate 32 0 @ take (n - 43) (drop 75 all))"

definition hello_outcome :: "(bytes \<Rightarrow> bytes \<Rightarrow> bytes) \<Rightarrow> tls \<Rightarrow> tls \<Rightarrow> bool" where
  "hello_outcome hmac k k' \<longleftrightarrow> secret k' = secret k \<and>
    (hello_inv k' \<and> \<not> requiredHelloPartReady k' \<and> raw k' = [] \<and> incoming k' = incoming k @ raw k
     \<or> tls_state k' = TlsError
     \<or> tls_state k' = TlsConnected \<and> incomingGoodDataOffset k' = 0 \<and> incomingGoodDataLimit k' = 0
       \<and> (\<exists>n. authentic hmac (keyFromSecret k) n (incoming k @ raw k)
          \<and> incoming k' @ raw k' = drop (32 + n) (incoming k @ raw k)))"

lemma hello_outcome_error: "hello_outcome hmac k (handleError k)"
  by (simp add: hello_outcome_def handleError_def fire_def Let_def)

lemma ready_simps: "requiredHelloPartReady k \<longleftrightarrow> 32 + serverHelloLength k \<le> length (incoming k)"
  by (simp add: requiredHelloPartReady_def tls_sizes)

lemma checkHelloDigest_outcome:
  assumes "hello_inv k" and "requiredHelloPartReady k" and "37 \<le> length (incoming k)"
    and "take 3 (drop 32 (incoming k)) = kServerHelloPart1"
  shows "\<exists>k'. checkHelloDigest hmac k = Inr k' \<and> hello_outcome hmac k k'"
proof (cases "serverHelloLength k < 43")
  case True
  then have "checkHelloDigest hmac k = Inr (handleError k)"
    by (simp add: checkHelloDigest_def tls_sizes)
  then show ?thesis using hello_outcome_error by blast
next
  case False
  define n where "n = serverHelloLength k"
  define b where "b = incoming k"
  have n: "43 \<le> n" "32 + n \<le> length b" using False assms(2) by (simp_all add: n_def b_def ready_simps)
  define zeroed where "zeroed = take 43 b @ replicate 32 0 @ drop 75 b"
  define k1 where "k1 = k\<lparr>incoming := zeroed\<rparr>"
  have lz: "length zeroed = length b" using n by (simp add: zeroed_def)
  have full: "take (32 + n) zeroed = take 43 b @ replicate 32 0 @ take (n - 43) (drop 75 b)"
    using n by (simp add: zeroed_def)
  have run: "checkHelloDigest hmac k =
    (if take 32 (drop 43 b) \<noteq> hmac (keyFromSecret k) (take (32 + n) zeroed) then Inr (handleError k1)
     else bind_result (shiftIncomingBy (32 + n) k1) (\<lambda>k2.
         let k3 = (if incoming k2 = [] then k2 else k2\<lparr>queued_check := True\<rparr>) in
         Inr (fire TlsConnectedFired (k3\<lparr>incomingGoodDataOffset := 0, incomingGoodDataLimit := 0,
           tls_state := TlsConnected\<rparr>))))"
    using n unfolding checkHelloDigest_def Let_def
    by (simp add: tls_sizes n_def [symmetric] b_def [symmetric] zeroed_def [symmetric] k1_def [symmetric])
  show ?thesis
  proof (cases "take 32 (drop 43 b) = hmac (keyFromSecret k) (take (32 + n) zeroed)")
    case False
    moreover have "hello_outcome hmac k (handleError k1)"
      by (simp add: hello_outcome_def handleError_def fire_def Let_def k1_def)
    ultimately show ?thesis using run by auto
  next
    case True
    define rest where "rest = drop (32 + n) zeroed"
    have "shiftIncomingBy (32 + n) k1 = Inr (k1\<lparr>incoming := rest\<rparr>)"
      using assms(1) by (simp add: shiftIncomingBy_def k1_def hello_inv_def rest_def)
    then obtain q where q: "checkHelloDigest hmac k = Inr (fire TlsConnectedFired
        (q\<lparr>incomingGoodDataOffset := 0, incomingGoodDataLimit := 0, tls_state := TlsConnected\<rparr>))"
      "incoming q = rest" "raw q = raw k" "secret q = secret k"
      using run True by (auto simp: Let_def k1_def)
    have "rest = drop (32 + n) b" using n by (simp add: rest_def zeroed_def)
    moreover have "authentic hmac (keyFromSecret k) n (b @ raw k)"
      using n assms(4) True unfolding authentic_def full by (simp add: b_def)
    ultimately show ?thesis
      using q n by (auto simp: hello_outcome_def fire_def b_def [symmetric] intro!: exI [of _ n])
  qed
qed

lemma hello_outcome_trans:
  assumes "hello_outcome hmac k1 k'" and "incoming k1 @ raw k1 = incoming k @ raw k"
    and "secret k1 = secret k"
  shows "hello_outcome hmac k k'"
  using assms unfolding hello_outcome_def keyFromSecret_def
  by (elim conjE disjE) (simp_all add: hello_inv_def)


lemma parts123_append: "37 \<le> length b \<Longrightarrow> parts123 (b @ c) = parts123 b"
  using record_length_append [of "drop 32 b" c] by (simp add: parts123_def)

lemma full_hello_append:
  "37 \<le> length b \<Longrightarrow> 32 + parts123 b \<le> length b \<Longrightarrow> full_hello (b @ c) = full_hello b"
  by (simp add: full_hello_def parts123_append)

lemma hello_inv_more:
  assumes "hello_inv k"
  shows "hello_inv (k\<lparr>incoming := incoming k @ c, raw := r\<rparr>)"
  using assms unfolding hello_inv_def
  by (auto simp: parts123_append full_hello_append)

lemma first_length:
  assumes "37 \<le> length b"
  shows "ReadPartLength (take 5 (drop 32 b)) 3 = Inr (record_length (drop 32 b))"
    and "CheckPart (take 5 (drop 32 b)) kServerHelloPart1 \<longleftrightarrow> take 3 (drop 32 b) = kServerHelloPart1"
proof -
  have "ReadPartLength (take 5 (drop 32 b)) (0 + 3) = Inr (record_length (drop 0 (take 5 (drop 32 b))))"
    by (rule ReadPartLength_header) (use assms in simp)
  then show "ReadPartLength (take 5 (drop 32 b)) 3 = Inr (record_length (drop 32 b))"
    by (simp add: record_length_def drop_take)
  have "length kServerHelloPart1 = 3" by (simp add: kServerHelloPart1_def)
  then show "CheckPart (take 5 (drop 32 b)) kServerHelloPart1 \<longleftrightarrow> take 3 (drop 32 b) = kServerHelloPart1"
    using assms by (simp add: CheckPart_def)
qed

lemma second_length:
  assumes "32 + parts123 b \<le> length b"
  shows "ReadPartLength (take (parts123 b) (drop 32 b)) (parts123 b - 2)
    = Inr (full_hello b - parts123 b)"
proof -
  define p where "p = parts123 b"
  have p: "16 \<le> p" "32 + p \<le> length b" using assms by (simp_all add: p_def parts123_def)
  have "take 2 (drop (p - 2) (take p (drop 32 b))) = take 2 (drop (32 + p - 2) b)"
    using p by (simp add: drop_take)
  then show ?thesis
    using p unfolding p_def [symmetric] full_hello_def
    by (simp add: ReadPartLength_def kLengthSize_def p_def [symmetric])
qed

text \<open>
  The three functions in turn, given what \<open>readHello\<close> does once more of the length is known.
\<close>

definition hello_reads :: "(bytes \<Rightarrow> bytes \<Rightarrow> bytes) \<Rightarrow> tls result \<Rightarrow> tls \<Rightarrow> bool" where
  "hello_reads hmac out k \<longleftrightarrow> (\<exists>k'. out = Inr k' \<and> hello_outcome hmac k k')"

lemma hello_reads_error [simp]: "hello_reads hmac (Inr (handleError k)) k"
  by (simp add: hello_reads_def hello_outcome_error)

lemma hello_reads_trans:
  assumes "hello_reads hmac out k1" and "incoming k1 @ raw k1 = incoming k @ raw k"
    and "secret k1 = secret k"
  shows "hello_reads hmac out k"
  using assms hello_outcome_trans unfolding hello_reads_def by blast

lemmas hello_part_sizes = kServerHelloPart1_def kServerHelloPart3_def kLengthSize_def
  kHelloDigestLength_def

lemma checkHelloParts34_reads:
  assumes inv: "hello_inv k" and ready: "requiredHelloPartReady k" and "5 < serverHelloLength k"
    and long: "37 \<le> length (incoming k)" "take 3 (drop 32 (incoming k)) = kServerHelloPart1"
    and part: "32 + parts123 (incoming k) \<le> length (incoming k)"
    and again: "\<And>k1. hello_inv k1 \<Longrightarrow> serverHelloLength k < serverHelloLength k1 \<Longrightarrow>
      serverHelloLength k1 \<le> kMaxServerHelloLength \<Longrightarrow> hello_reads hmac (readHello hmac k1) k1"
  shows "hello_reads hmac (checkHelloParts34 hmac (parts123 (incoming k)) k) k"
proof -
  define b where "b = incoming k"
  define p where "p = parts123 b"
  define q where "q = full_hello b"
  have p: "16 \<le> p" "p \<le> q" "32 + p \<le> length b"
    using part by (simp_all add: p_def q_def full_hello_def parts123_def b_def)
  have sz: "kLengthSize = 2" "kHelloDigestLength = 32" by (simp_all add: hello_part_sizes)
  have len: "ReadPartLength (take p (drop 32 b)) (p - 2) = Inr (q - p)"
    using second_length [of b] part by (simp add: p_def q_def b_def)
  have enough: "(length b < 32 + p) = False" using p by simp
  define k1 where "k1 = k\<lparr>serverHelloLength := q\<rparr>"
  have run: "checkHelloParts34 hmac p k =
    (if q > kMaxServerHelloLength then Inr (handleError k)
     else if serverHelloLength k = p
       then if \<not> CheckPart (drop (p - 2 - length kServerHelloPart3) (take p (drop 32 b))) kServerHelloPart3
         then Inr (handleError k)
         else if \<not> requiredHelloPartReady k1 then readHello hmac k1 else checkHelloDigest hmac k1
       else checkHelloDigest hmac k)"
    using p len by (subst checkHelloParts34.simps)
      (simp only: sz b_def [symmetric] Let_def enough if_False k1_def sum.case
        le_add_diff_inverse)
  have i1: "hello_inv k1" if "serverHelloLength k = p"
    using inv long p by (simp add: hello_inv_def k1_def b_def [symmetric] p_def [symmetric] q_def [symmetric])
  have c1: "incoming k1 = incoming k" "raw k1 = raw k" "secret k1 = secret k" by (simp_all add: k1_def)
  have digest: "hello_reads hmac (checkHelloDigest hmac k) k"
    using checkHelloDigest_outcome [OF inv ready long] by (simp add: hello_reads_def)
  have digest1: "hello_reads hmac (checkHelloDigest hmac k1) k"
    if "serverHelloLength k = p" "requiredHelloPartReady k1"
  proof (rule hello_reads_trans)
    show "hello_reads hmac (checkHelloDigest hmac k1) k1"
      unfolding hello_reads_def
      by (rule checkHelloDigest_outcome [OF i1 [OF that(1)] that(2)]) (use long c1 in simp_all)
  qed (use c1 in simp_all)
  have deeper: "hello_reads hmac (readHello hmac k1) k"
    if "serverHelloLength k = p" "\<not> requiredHelloPartReady k1" "q \<le> kMaxServerHelloLength"
  proof (rule hello_reads_trans [OF again [OF i1 [OF that(1)]]])
    show "serverHelloLength k < serverHelloLength k1"
      using that p by (simp add: k1_def ready_simps b_def)
  qed (use that c1 in \<open>simp_all add: k1_def\<close>)
  show ?thesis
    unfolding b_def [symmetric] p_def [symmetric] run
    using digest digest1 deeper by simp
qed

lemma checkHelloParts12_reads:
  assumes inv: "hello_inv k" and ready: "requiredHelloPartReady k" and "5 \<le> serverHelloLength k"
    and again: "\<And>k1. hello_inv k1 \<Longrightarrow> serverHelloLength k < serverHelloLength k1 \<Longrightarrow>
      serverHelloLength k1 \<le> kMaxServerHelloLength \<Longrightarrow> hello_reads hmac (readHello hmac k1) k1"
  shows "hello_reads hmac (checkHelloParts12 hmac 5 k) k"
proof -
  define b where "b = incoming k"
  define p where "p = parts123 b"
  have long: "37 \<le> length b" using ready assms(3) by (simp add: ready_simps b_def)
  note len = first_length [OF long]
  have sz: "length kServerHelloPart1 = 3" "length kServerHelloPart3 = 9" "kLengthSize = 2"
    "kHelloDigestLength = 32" by (simp_all add: hello_part_sizes)
  have psz: "16 + record_length (drop 32 b) = p" by (simp add: p_def parts123_def)
  define k1 where "k1 = k\<lparr>serverHelloLength := p\<rparr>"
  have run: "checkHelloParts12 hmac 5 k =
      (if p > kMaxServerHelloLength then Inr (handleError k)
       else if serverHelloLength k = 5
         then if take 3 (drop 32 b) \<noteq> kServerHelloPart1 then Inr (handleError k)
           else if \<not> requiredHelloPartReady k1 then readHello hmac k1
             else checkHelloParts34 hmac p k1
         else checkHelloParts34 hmac p k)"
    using long len by (subst checkHelloParts12.simps)
      (simp add: sz Let_def b_def [symmetric] psz k1_def [symmetric])
  have p5: "16 \<le> p" by (simp add: p_def parts123_def)
  have c1: "incoming k1 = b" "raw k1 = raw k" "secret k1 = secret k" "serverHelloLength k1 = p"
    by (simp_all add: k1_def b_def)
  have i1: "hello_inv k1" if "take 3 (drop 32 b) = kServerHelloPart1"
    using inv that long by (simp add: hello_inv_def k1_def b_def [symmetric] p_def [symmetric])
  have direct: "hello_reads hmac (checkHelloParts34 hmac p k1) k"
    if five: "serverHelloLength k = 5" and hdr: "take 3 (drop 32 b) = kServerHelloPart1"
      and r1: "requiredHelloPartReady k1"
  proof (rule hello_reads_trans [of _ _ k1])
    have "hello_reads hmac (checkHelloParts34 hmac (parts123 (incoming k1)) k1) k1"
      by (rule checkHelloParts34_reads [OF i1 [OF hdr] r1])
        (use p5 five c1 long hdr r1 again in \<open>simp_all add: ready_simps p_def [symmetric]\<close>)
    then show "hello_reads hmac (checkHelloParts34 hmac p k1) k1" by (simp add: c1 p_def)
  qed (use c1 in \<open>simp_all add: b_def\<close>)
  have later: "hello_reads hmac (checkHelloParts34 hmac p k) k" if "serverHelloLength k \<noteq> 5"
  proof -
    have known: "take 3 (drop 32 b) = kServerHelloPart1"
      "serverHelloLength k = p \<or> 32 + p \<le> length b \<and> serverHelloLength k = full_hello b"
      using inv that assms(3) by (auto simp: hello_inv_def b_def p_def)
    have "p \<le> full_hello b" by (simp add: full_hello_def p_def)
    then have "32 + p \<le> length b" "5 < serverHelloLength k"
      using known(2) ready p5 by (auto simp: ready_simps b_def)
    then show ?thesis
      using checkHelloParts34_reads [OF inv ready _ _ _ _ again] long known(1)
      by (simp add: b_def p_def)
  qed
  have deeper: "hello_reads hmac (readHello hmac k1) k"
    if five: "serverHelloLength k = 5" and hdr: "take 3 (drop 32 b) = kServerHelloPart1"
      and "p \<le> kMaxServerHelloLength"
    by (rule hello_reads_trans [OF again [OF i1 [OF hdr]]]) (use that p5 c1 in \<open>simp_all add: b_def\<close>)
  show ?thesis unfolding run using direct later deeper by simp
qed

lemma readHello_reads:
  assumes "hello_inv k"
  shows "hello_reads hmac (readHello hmac k) k"
  using assms
proof (induction "kMaxServerHelloLength - serverHelloLength k" arbitrary: k rule: less_induct)
  case less
  define k1 where "k1 = (if serverHelloLength k = 0 then k\<lparr>serverHelloLength := 5\<rparr> else k)"
  have i1: "hello_inv k1" using less.prems by (auto simp: k1_def hello_inv_def)
  have l1: "5 \<le> serverHelloLength k1" "serverHelloLength k \<le> serverHelloLength k1"
    using less.prems by (auto simp: k1_def hello_inv_def parts123_def full_hello_def)
  have same: "incoming k1 = incoming k" "raw k1 = raw k" "secret k1 = secret k" by (simp_all add: k1_def)
  have again: "hello_reads hmac (readHello hmac q) q"
    if "hello_inv q" "serverHelloLength k1 < serverHelloLength q"
      "serverHelloLength q \<le> kMaxServerHelloLength" for q
    by (rule less.hyps) (use that l1 in simp_all)
  have sz: "length kServerHelloPart1 + kLengthSize = 5" by (simp add: hello_part_sizes)
  define k2 where "k2 = k1\<lparr>incoming := incoming k1 @ raw k1, raw := []\<rparr>"
  have run: "readHello hmac k = (if requiredHelloPartReady k1 then checkHelloParts12 hmac 5 k1
     else if raw k1 = [] then Inr k1
     else if requiredHelloPartReady k2 then checkHelloParts12 hmac 5 k2 else Inr k2)"
    by (subst readHello.simps) (simp add: sz k1_def k2_def Let_def)
  have i2: "hello_inv k2" unfolding k2_def by (rule hello_inv_more [OF i1])
  have all: "incoming k2 @ raw k2 = incoming k @ raw k" "secret k2 = secret k"
    "serverHelloLength k2 = serverHelloLength k1"
    using same by (simp_all add: k2_def)
  have ready1: "hello_reads hmac (checkHelloParts12 hmac 5 k1) k" if "requiredHelloPartReady k1"
    by (rule hello_reads_trans [OF checkHelloParts12_reads [OF i1 that l1(1) again]])
      (use same in simp_all)
  have ready2: "hello_reads hmac (checkHelloParts12 hmac 5 k2) k" if "requiredHelloPartReady k2"
    by (rule hello_reads_trans [OF checkHelloParts12_reads [OF i2 that]])
      (use all l1 again in simp_all)
  have wait1: "hello_reads hmac (Inr k1) k" if "\<not> requiredHelloPartReady k1" "raw k1 = []"
    using i1 that same by (simp add: hello_reads_def hello_outcome_def)
  have wait2: "hello_reads hmac (Inr k2) k" if "\<not> requiredHelloPartReady k2"
    using i2 that all by (simp add: hello_reads_def hello_outcome_def k2_def)
  show ?case unfolding run using ready1 ready2 wait1 wait2 by simp
qed


text \<open>The hello as it arrives in parts; what comes later is read as records.\<close>

fun hello_arrives :: "(bytes \<Rightarrow> bytes \<Rightarrow> bytes) \<Rightarrow> bytes list \<Rightarrow> tls \<Rightarrow> tls result" where
  "hello_arrives hmac [] k = Inr k"
| "hello_arrives hmac (c # cs) k =
    bind_result (plainReadyRead hmac (k\<lparr>raw := raw k @ c\<rparr>)) (\<lambda>k'.
      if tls_state k' = WaitingHello then hello_arrives hmac cs k' else Inr k')"

lemma authentic_more: "authentic hmac key n all \<Longrightarrow> authentic hmac key n (all @ x)"
  by (simp add: authentic_def)

lemma hello_arrives_reads:
  assumes "hello_inv k"
  shows "\<exists>k'. hello_arrives hmac cs k = Inr k' \<and> (tls_state k' = TlsConnected \<longrightarrow>
    (\<exists>n. authentic hmac (keyFromSecret k) n (incoming k @ raw k @ concat cs)))"
  using assms
proof (induction cs arbitrary: k)
  case Nil
  then show ?case by (simp add: hello_inv_def)
next
  case (Cons c cs)
  define q where "q = k\<lparr>raw := raw k @ c\<rparr>"
  have i: "hello_inv q" using Cons.prems by (simp add: hello_inv_def q_def)
  have "tls_state q = WaitingHello" using i by (simp add: hello_inv_def)
  then obtain k1 where k1: "plainReadyRead hmac q = Inr k1" "hello_outcome hmac q k1"
    using readHello_reads [OF i, of hmac] by (auto simp: plainReadyRead_def hello_reads_def)
  have sec: "secret k1 = secret k" and key: "keyFromSecret k1 = keyFromSecret k" "keyFromSecret q = keyFromSecret k"
    using k1(2) by (simp_all add: hello_outcome_def keyFromSecret_def q_def)
  show ?case
  proof (cases "tls_state k1 = WaitingHello")
    case True
    then have w: "hello_inv k1" "raw k1 = []" "incoming k1 = incoming q @ raw q"
      using k1(2) by (auto simp: hello_outcome_def)
    from Cons.IH [OF w(1)] obtain k' where k': "hello_arrives hmac cs k1 = Inr k'"
      "tls_state k' = TlsConnected \<longrightarrow>
        (\<exists>n. authentic hmac (keyFromSecret k1) n (incoming k1 @ raw k1 @ concat cs))" by blast
    have "hello_arrives hmac (c # cs) k = Inr k'"
      using k1(1) True k'(1) by (simp add: q_def [symmetric])
    moreover have e: "incoming k1 @ raw k1 @ concat cs = incoming k @ raw k @ concat (c # cs)"
      using w by (simp add: q_def)
    ultimately show ?thesis using k'(2) unfolding key e by blast
  next
    case False
    have "\<exists>n. authentic hmac (keyFromSecret k) n (incoming k @ raw k @ concat (c # cs))"
      if conn: "tls_state k1 = TlsConnected"
    proof -
      have "\<not> hello_inv k1" and "tls_state k1 \<noteq> TlsError" using conn by (simp_all add: hello_inv_def)
      then obtain n where "authentic hmac (keyFromSecret k) n (incoming q @ raw q)"
        using k1(2) unfolding hello_outcome_def key by blast
      from authentic_more [OF this, of "concat cs"] show ?thesis by (auto simp: q_def)
    qed
    then show ?thesis using k1(1) False by (simp add: q_def [symmetric])
  qed
qed

section \<open>What is sent is read from the records\<close>

text \<open>The application data in a stream of TLS records, and streams of whole records.\<close>

function app_data :: "bytes \<Rightarrow> bytes" where
  "app_data bs =
    (if length bs < 5 then []
     else (if bs ! 0 = 0x17 then take (record_length bs) (drop 5 bs) else [])
       @ (if length bs < 5 + record_length bs then [] else app_data (drop (5 + record_length bs) bs)))"
  by pat_completeness auto
termination by (relation "measure length") auto

function whole_records :: "bytes \<Rightarrow> bool" where
  "whole_records bs =
    (if bs = [] then True
     else if length bs < 5 + record_length bs then False
     else whole_records (drop (5 + record_length bs) bs))"
  by pat_completeness auto
termination by (relation "measure length") auto

declare app_data.simps [simp del] whole_records.simps [simp del]

lemma app_data_Nil [simp]: "app_data [] = []"
  by (simp add: app_data.simps)

lemma whole_records_Nil [simp]: "whole_records []"
  by (simp add: whole_records.simps)

lemma one_record:
  assumes "length data < 2 ^ 16"
  defines "r \<equiv> kClientHeader @ be_bytes 2 (of_nat (length data) :: 16 word) @ data"
  shows "app_data (r @ x) = data @ app_data x" and "whole_records (r @ x) = whole_records x"
    and "length r = 5 + length data"
proof -
  have t: "take_bit 16 (length data) = length data" by (rule take_bit_nat_eq_self) (use assms in simp)
  have "be_value (be_bytes 2 (of_nat (length data) :: 16 word)) = (of_nat (length data) :: 16 word)"
    by (rule be_value_be_bytes_full) simp
  moreover have "unat (of_nat (length data) :: 16 word) = length data"
    unfolding unsigned_of_nat using t by simp
  ultimately have l: "record_length (r @ x) = length data" for x
    by (simp add: record_length_def r_def kClientHeader_def)
  show len: "length r = 5 + length data" by (simp add: r_def kClientHeader_def)
  have hd: "(r @ x) ! 0 = 0x17" by (simp add: r_def kClientHeader_def)
  have dn: "drop (5 + length data) (r @ x) = x" using len by simp
  have d5: "drop 5 (r @ x) = data @ x" by (simp add: r_def kClientHeader_def)
  show "app_data (r @ x) = data @ app_data x"
    by (subst app_data.simps) (simp add: l len hd d5 dn del: drop_append)
  show "whole_records (r @ x) = whole_records x"
    by (subst whole_records.simps) (use len in \<open>auto simp: l dn simp del: drop_append\<close>)
qed

lemma whole_records_append:
  "whole_records a \<Longrightarrow> app_data (a @ b) = app_data a @ app_data b \<and> (whole_records (a @ b) = whole_records b)"
proof (induction "length a" arbitrary: a rule: less_induct)
  case less
  show ?case
  proof (cases "a = []")
    case False
    with less.prems have l: "5 + record_length a \<le> length a"
      and w: "whole_records (drop (5 + record_length a) a)"
      using whole_records.simps [of a] by (auto split: if_splits)
    have r: "record_length (a @ b) = record_length a"
      by (rule record_length_append) (use l in simp)
    have "length (drop (5 + record_length a) a) < length a" using l by auto
    from less.hyps [OF this w] have ih:
      "app_data (drop (5 + record_length a) a @ b) = app_data (drop (5 + record_length a) a) @ app_data b"
      "whole_records (drop (5 + record_length a) a @ b) = whole_records b" by auto
    have hd: "(a @ b) ! 0 = a ! 0" using False by (simp add: nth_append)
    have "app_data (a @ b) = app_data a @ app_data b"
      using l by (simp add: app_data.simps [of "a @ b"] app_data.simps [of a] r ih(1) hd)
    moreover have "whole_records (a @ b) = whole_records b"
      using l False by (simp add: whole_records.simps [of "a @ b"] r ih(2))
    ultimately show ?thesis ..
  qed simp
qed

lemma writeRecords_data:
  assumes "length start \<le> 64"
  shows "\<exists>r. writeRecords start buffer = Inr r \<and> whole_records r
    \<and> app_data r = (if buffer = [] then [] else start @ buffer)"
  using assms
proof (induction "length buffer" arbitrary: start buffer rule: less_induct)
  case less
  show ?case
  proof (cases "buffer = []")
    case True
    then show ?thesis by (simp add: writeRecords.simps)
  next
    case False
    define n where "n = min (kClientPartSize - length start) (length buffer)"
    have n: "0 < n" "n \<le> length buffer" "length start + n \<le> kClientPartSize"
      using False less.prems by (auto simp: n_def kClientPartSize_def)
    have "(of_nat kClientPartSize - of_nat (length start) :: u64) = of_nat (kClientPartSize - length start)"
      using less.prems by (simp add: kClientPartSize_def of_nat_diff)
    moreover have "take_bit 64 (kClientPartSize - length start) = kClientPartSize - length start"
      by (rule take_bit_nat_eq_self) (simp add: kClientPartSize_def)
    ultimately have room: "unat (of_nat kClientPartSize - of_nat (length start) :: u64)
        = kClientPartSize - length start"
      by (simp add: unsigned_of_nat)
    have "length (drop n buffer) < length buffer" using n(1) False by simp
    from less.hyps [OF this, of "[]"] obtain rest where rest:
      "writeRecords [] (drop n buffer) = Inr rest" "whole_records rest" "app_data rest = drop n buffer"
      by (auto split: if_splits)
    define data where "data = start @ take n buffer"
    define r where "r = kClientHeader @ be_bytes 2 (of_nat (length data) :: 16 word) @ data"
    have dl: "length data = length start + n" using n by (simp add: data_def)
    then have small: "length data < 2 ^ 16" using n(3) by (simp add: kClientPartSize_def)
    have "writeRecords start buffer = Inr (r @ rest)"
      using False n rest(1) dl
      by (subst writeRecords.simps)
        (simp add: room n_def [symmetric] Let_def r_def data_def)
    then show ?thesis
      using one_record(1,2) [OF small, of rest, folded r_def] rest(2,3) False n
      by (simp add: data_def)
  qed
qed

definition tls_open :: "tls \<Rightarrow> bool" where
  "tls_open k \<longleftrightarrow> tls_state k = TlsConnected \<and> whole_records (sent k)"

interpretation tls_sink: byte_sink tls_ops tls_open "\<lambda>k. app_data (sent k)"
proof unfold_locales
  fix k and bs start :: bytes
  assume o: "tls_open k" and b: "bs \<noteq> []" and s: "length start \<le> 64"
  obtain r where r: "writeRecords start bs = Inr r" "whole_records r" "app_data r = start @ bs"
    using writeRecords_data [OF s, of bs] b by auto
  define first where "first = (if start = [] then [] else kClientPrefix)"
  have "record_length kClientPrefix = 1"
    by (simp add: record_length_def kClientPrefix_def be_value_def)
  then have f: "whole_records first" "app_data first = []"
    by (auto simp: first_def kClientPrefix_def whole_records.simps [of "_ # _"] app_data.simps [of "_ # _"])
  define k' where "k' = k\<lparr>sent := sent k @ first @ r\<rparr>"
  have "so_write tls_ops k start bs = Inr k'"
    using o b r(1) by (simp add: tls_ops_def tls_write_def tls_open_def first_def k'_def)
  moreover have "tls_open k' \<and> app_data (sent k') = app_data (sent k) @ start @ bs"
    using o f r(2,3) whole_records_append [of first r] whole_records_append [of "sent k" "first @ r"]
    by (simp add: tls_open_def k'_def)
  ultimately show "\<exists>k'. so_write tls_ops k start bs = Inr k' \<and> tls_open k'
      \<and> app_data (sent k') = app_data (sent k) @ start @ bs" by blast
qed


section \<open>Properties\<close>

lemma session_run:
  assumes "session_has env p s0 wire s"
    and "stream_cipher (ctr env)" and "\<And>l c. hangs_up env (l @ [Error c])"
  shows "\<exists>s'. stream_arrives env hmac connected cs s = Some (Inr s')
    \<and> session_has env p s0 (wire @ concat cs) s'"
  using assms(1)
proof (induction cs arbitrary: wire s)
  case (Cons c cs)
  obtain s1 where s1: "bytes_arrive env hmac connected c s = Some (Inr s1)"
    "session_has env p s0 (wire @ c) s1"
    using session_step [OF Cons.prems assms(2,3)] by blast
  from Cons.IH [OF s1(2)] s1(1) show ?case by auto
qed simp

text \<open>
  A connection that has not received a packet since its socket was connected; behind the
  hello there is at most the start of a record.
\<close>

definition fresh_stream :: "protocol \<Rightarrow> tls tcp \<Rightarrow> tls \<Rightarrow> bool" where
  "fresh_stream p s k \<longleftrightarrow> protocol s = Some p \<and> socket s = Some k \<and> status s \<noteq> Finished \<and> lifetime s
    \<and> tls_state k = TlsConnected \<and> incomingGoodDataLimit k = 0 \<and> incomingGoodDataOffset k = 0
    \<and> payload (incoming k) = [] \<and> raw k = [] \<and> offsetBytes s = 0 \<and> readBytes s = 0 \<and> leftBytes s = 0
    \<and> \<not> usingLargeBuffer s \<and> buffer_size (largeBuffer s) = 0
    \<and> (buffer_size (smallBuffer s) = 0 \<or> buffer_size (smallBuffer s) = kSmallBufferSize)"

lemma fresh_stream_reading:
  assumes "fresh_stream p s k"
  shows "reading p (allocated s)" and "buffered (allocated s) = []"
proof -
  show b: "buffered (allocated s) = []" using assms by (simp add: fresh_stream_def buffered_def allocated_def)
  show "reading p (allocated s)"
    using assms framing.unknown_empty [of p] unfolding reading_def b
    by (auto simp: fresh_stream_def allocated_def kMinPacketBuffer_def kSmallBufferSize_def)
qed

lemma fresh_session:
  assumes "fresh_stream p s k" and cipher: "stream_cipher (ctr env)"
  shows "session_has env p s (incoming k) s"
proof -
  note rd = fresh_stream_reading [OF assms(1)]
  have "packet_stream (readPacketLength p) (buffered (allocated s)) = ([], buffered (allocated s), False)"
    unfolding rd(2) by simp
  then have "read_result env tls_ops p (allocated s) [] (allocated s)"
    by (rule read_result_idle [OF _ cipher]) (use rd in simp_all)
  moreover have "alive tls_ops s" "closed_when_finished s"
    using assms(1) by (auto simp: fresh_stream_def alive_def tls_ops_def closed_when_finished_def)
  ultimately show ?thesis
    using assms(1) unfolding session_has_def
    by (intro exI [of _ "[]"])
      (simp add: fresh_stream_def upcoming_def tls_pending_def tls_good_def)
qed

lemma stream_given:
  assumes "fresh_stream p s k" and "stream_cipher (ctr env)"
    and "\<And>l c. hangs_up env (l @ [Error c])"
    and "packet_stream (readPacketLength p) (fst (ctr env (receiveKey s) (receiveState s)
      (payload (incoming k @ concat cs)))) = (ps, r, bad)"
  shows "\<exists>s'. stream_arrives env hmac connected cs s = Some (Inr s')
    \<and> (if alive tls_ops s'
       then \<not> bad \<and> deliver env ps (view s) = Inr (view s') \<and> buffered (allocated s') = r
       else \<exists>j v. deliver env (take j ps) (view s) = Inr v
         \<and> (view s' = v \<or> view s' = emit env (Error kErrorCodeOther) v))"
proof -
  let ?c = "ctr env (receiveKey s) (receiveState s)" and ?len = "readPacketLength p"
  note b = fresh_stream_reading(2) [OF assms(1)]
  obtain s' where run: "stream_arrives env hmac connected cs s = Some (Inr s')"
    and has: "session_has env p s (incoming k @ concat cs) s'"
    using session_run [OF fresh_session [OF assms(1,2)] assms(2,3)] by blast
  from has obtain got where rr: "read_result env tls_ops p (allocated s) got (allocated s')"
    and split: "alive tls_ops s' \<and> payload (incoming k @ concat cs) = got
      \<or> \<not> alive tls_ops s' \<and> (\<exists>y. payload (incoming k @ concat cs) = got @ y)"
  proof (cases "alive tls_ops s'")
    case True
    then obtain got k' where g: "read_result env tls_ops p (allocated s) got (allocated s')"
      "tls_pending k' = []" "\<And>x. payload ((incoming k @ concat cs) @ x) = got @ upcoming k' x"
      using has by (auto simp: session_has_def)
    have "payload (incoming k @ concat cs) = got"
      using g(3) [of "[]"] g(2) by (simp add: tls_pending_def)
    with True g(1) show thesis by (intro that) auto
  next
    case False
    then obtain got where g: "read_result env tls_ops p (allocated s) got (allocated s')"
      "\<forall>x. \<exists>y. payload ((incoming k @ concat cs) @ x) = got @ y"
      using has by (auto simp: session_has_def)
    have "\<exists>y. payload (incoming k @ concat cs) = got @ y" using g(2) [rule_format, of "[]"] by simp
    with False g(1) show thesis by (intro that) auto
  qed
  obtain ps1 r1 bad1 where one: "packet_stream ?len (fst (?c got)) = (ps1, r1, bad1)"
    by (metis prod_cases3)
  have result: "if alive tls_ops s'
        then \<not> bad1 \<and> deliver env ps1 (view s) = Inr (view s') \<and> buffered (allocated s') = r1
        else \<exists>j v. j \<le> length ps1 \<and> deliver env (take j ps1) (view s) = Inr v
          \<and> (view s' = v \<or> view s' = emit env (Error kErrorCodeOther) v)"
  proof -
    have a: "alive tls_ops (allocated s') = alive tls_ops s'" by (simp add: alive_def)
    show ?thesis
      using rr unfolding read_result_def b view_allocated allocated_fields a append_Nil one prod.case
      by (cases "alive tls_ops s'") simp_all
  qed
  show ?thesis
  proof (cases "alive tls_ops s'")
    case True
    with split assms(4) one have "ps1 = ps" "r1 = r" "bad1 = bad" by auto
    with result True run show ?thesis by simp
  next
    case False
    then obtain y where y: "payload (incoming k @ concat cs) = got @ y" using split by blast
    have "packet_stream ?len (fst (?c got) @ fst (ctr env (receiveKey s) (snd (?c got)) y)) = (ps, r, bad)"
      using assms(4) by (simp add: y stream_cipher_append [OF assms(2)])
    then obtain qs where qs: "ps = ps1 @ qs"
      using framing.stream_append [OF one] by (cases bad1) (auto split: prod.splits)
    from result False obtain j v where j: "j \<le> length ps1" "deliver env (take j ps1) (view s) = Inr v"
      "view s' = v \<or> view s' = emit env (Error kErrorCodeOther) v" by auto
    have "take j ps = take j ps1" using j(1) qs by simp
    with j run False show ?thesis by metis
  qed
qed



lemma deliver_queue:
  assumes "deliver env ps v = Inr w" and "socket w \<noteq> None" and "status v = Ready"
    and "protocol v = Some p"
    and "list_all2 (\<lambda>q d. parsePacket p q = Inr d \<and> length d \<noteq> 1) ps ds"
  shows "receivedQueue w = receivedQueue v @ ds"
  using assms(1,3-5)
proof (induction ps arbitrary: v ds)
  case Nil
  then show ?case by simp
next
  case (Cons q ps)
  then obtain d ds' where ds: "ds = d # ds'" "parsePacket p q = Inr d" "length d \<noteq> 1"
    and rest: "list_all2 (\<lambda>q d. parsePacket p q = Inr d \<and> length d \<noteq> 1) ps ds'"
    by (auto simp: list_all2_Cons1)
  define u where "u = v\<lparr>receivedQueue := receivedQueue v @ [d]\<rparr>"
  have open_v: "socket v \<noteq> None" using Cons.prems(1) assms(2) by (auto split: if_splits)
  then have one: "socketPacket env q v = Inr (emit env ReceivedData u)"
    using Cons.prems(2,3) ds by (simp add: socketPacket_def with_protocol_def u_def)
  then have run: "deliver env ps (emit env ReceivedData u) = Inr w"
    using Cons.prems(1) open_v by simp
  have "\<not> hangs_up env (events u @ [ReceivedData])"
  proof
    assume "hangs_up env (events u @ [ReceivedData])"
    then have "socket (emit env ReceivedData u) = None"
      using Cons.prems(2) by (simp add: emit_def Let_def disconnectFromServer_def u_def)
    then have "w = emit env ReceivedData u" using run by simp
    with \<open>socket (emit env ReceivedData u) = None\<close> assms(2) show False by simp
  qed
  then have e: "emit env ReceivedData u = u\<lparr>events := events u @ [ReceivedData]\<rparr>"
    by (simp add: emit_def Let_def)
  have "receivedQueue w = receivedQueue (emit env ReceivedData u) @ ds'"
    by (rule Cons.IH [OF run]) (use Cons.prems(2,3) rest e in \<open>simp_all add: u_def\<close>)
  then show ?case by (simp add: e ds(1)) (simp add: u_def)
qed

definition tls_record :: "bytes \<Rightarrow> bytes" where
  "tls_record d = kServerHeader @ be_bytes 2 (of_nat (length d) :: 16 word) @ d"

lemma payload_records:
  "\<forall>d \<in> set parts. length d < 2 ^ 16 \<Longrightarrow> payload (concat (map tls_record parts)) = concat parts"
proof (induction parts)
  case (Cons d parts)
  have t: "take_bit 16 (length d) = length d" by (rule take_bit_nat_eq_self) (use Cons.prems in simp)
  have "be_value (be_bytes 2 (of_nat (length d) :: 16 word)) = (of_nat (length d) :: 16 word)"
    by (rule be_value_be_bytes_full) simp
  moreover have "unat (of_nat (length d) :: 16 word) = length d"
    unfolding unsigned_of_nat using t by simp
  ultimately have l: "record_length (tls_record d) = length d"
    by (simp add: record_length_def tls_record_def kServerHeader_def)
  have shape: "take 3 (tls_record d) = kServerHeader" "length (tls_record d) = 5 + length d"
    "drop 5 (tls_record d) = d"
    by (simp_all add: tls_record_def kServerHeader_def)
  show ?case
    using payload_record [of "tls_record d" "concat (map tls_record parts)"] Cons l shape by simp
qed simp

text \<open>The message and the words of padding a packet can have.\<close>

definition padded :: "protocol \<Rightarrow> mtpBuffer \<Rightarrow> mtpBuffer \<Rightarrow> bool" where
  "padded p m d \<longleftrightarrow> take (length m) d = m \<and> length d \<le> length m + 3
    \<and> (supportsArbitraryLength p \<or> length d = length m)"

lemma frames_parsed:
  assumes "\<forall>m \<in> set ms. packet_fits p (snd m) \<and> 5 \<le> length (snd m)"
  obtains ds where "packet_stream (readPacketLength p) (concat (map (frame_of p) ms))
      = (map (frame_of p) ms, [], False)"
    and "list_all2 (\<lambda>q d. parsePacket p q = Inr d \<and> length d \<noteq> 1) (map (frame_of p) ms) ds"
    and "list_all2 (\<lambda>m d. padded p (drop 2 (snd m)) d) ms ds"
proof -
  define parsed where "parsed m = (case parsePacket p (frame_of p m) of Inr d \<Rightarrow> d | Inl _ \<Rightarrow> [])" for m
  have one: "parsePacket p (frame_of p m) = Inr (parsed m) \<and> length (parsed m) \<noteq> 1
      \<and> padded p (drop 2 (snd m)) (parsed m)" if "m \<in> set ms" for m
  proof -
    have m: "packet_fits p (snd m)" "5 \<le> length (snd m)" using assms that by auto
    from parsed_frame_of [OF m] obtain pad where pad:
      "parsePacket p (frame_of p m) = Inr (drop 2 (snd m) @ pad)" "length pad \<le> 3"
      "supportsArbitraryLength p \<or> pad = []" by blast
    have "parsed m = drop 2 (snd m) @ pad" by (simp add: parsed_def pad(1))
    with pad m(2) show ?thesis by (auto simp: padded_def)
  qed
  show thesis
  proof (rule that [of "map parsed ms"])
    show "packet_stream (readPacketLength p) (concat (map (frame_of p) ms)) = (map (frame_of p) ms, [], False)"
      by (rule framing.stream_concat) (use assms frame_of(2,3) in auto)
    show "list_all2 (\<lambda>q d. parsePacket p q = Inr d \<and> length d \<noteq> 1) (map (frame_of p) ms) (map parsed ms)"
      using one by (simp add: list_all2_map1 list_all2_map2 list_all2_same)
    show "list_all2 (\<lambda>m d. padded p (drop 2 (snd m)) d) ms (map parsed ms)"
      using one by (simp add: list_all2_map2 list_all2_same)
  qed
qed


text \<open>
  C37: What the connection sends over TLS is read by the server: in the application data of
  the records it wrote, the server that knows the secret finds the protocol, the data centre
  and then the packets of exactly the messages that were sent, in their order; no call fails.
\<close>

theorem server_reads_messages:
  assumes "socket s = Some k" and "tls_open k" and "app_data (sent k) = []"
    and "protocol s = Some p" and "\<not> connectionStarted s" and "ms \<noteq> []"
    and "\<forall>m \<in> set ms. packet_fits p (snd m) \<and> 5 \<le> length (snd m)"
    and "stream_cipher (ctr env)" and "length (draws 0) = 64"
  shows "\<exists>s' k' plain fs ds. send_all env tls_ops draws ms s = Some (Inr s') \<and> socket s' = Some k'
    \<and> server_reads env p (app_data (sent k')) = (protocol_id p, protocolDcId s, plain)
    \<and> packet_stream (readPacketLength p) plain = (fs, [], False)
    \<and> list_all2 (\<lambda>q d. parsePacket p q = Inr d \<and> length d \<noteq> 1) fs ds
    \<and> list_all2 (\<lambda>m d. padded p (drop 2 (snd m)) d) ms ds"
proof -
  have fits: "\<forall>m \<in> set ms. packet_fits p (snd m)" using assms(7) by blast
  have nonce: "good_nonce (so_good_nonce tls_ops) draws 0 = Some (draws 0)"
    by (subst good_nonce.simps) (simp add: tls_ops_def)
  obtain s' k' where s': "send_all env tls_ops draws ms s = Some (Inr s')" "socket s' = Some k'"
    "server_reads env p (app_data (sent k')) = (protocol_id p, protocolDcId s, concat (map (frame_of p) ms))"
    using tls_sink.server_reads_sent [OF assms(1-6) fits assms(8) nonce assms(9)] by blast
  obtain ds where "packet_stream (readPacketLength p) (concat (map (frame_of p) ms))
      = (map (frame_of p) ms, [], False)"
    and "list_all2 (\<lambda>q d. parsePacket p q = Inr d \<and> length d \<noteq> 1) (map (frame_of p) ms) ds"
    and "list_all2 (\<lambda>m d. padded p (drop 2 (snd m)) d) ms ds"
    using frames_parsed [OF assms(7)] .
  with s' show ?thesis by blast
qed

text \<open>
  C38: A socket made from a secret sends its client hello, and tells its connection that it is
  connected only after a server hello that carries the digest which the key of the secret
  gives for the digest in our hello and the server hello itself, with its own place zeroed.
  However the hello arrives, and whatever it is, the check stays inside the bytes it has and
  fails no assertion.
\<close>

theorem hello_is_authenticated:
  assumes "hello_laws env" and "new_tls s = Inr k0"
  shows "\<exists>k1 k2. connectToHost k0 = Inr k1 \<and> plainConnected env now k1 = Inr k2
    \<and> (tls_state k2 = TlsError \<and> sent k2 = []
       \<or> (\<exists>k'. incoming k2 = take 32 (drop 11 (sent k2)) \<and> length (incoming k2) = 32
          \<and> hello_arrives (hmac_sha256 env) cs k2 = Inr k'
          \<and> (tls_state k' = TlsConnected \<longrightarrow>
              (\<exists>n. authentic (hmac_sha256 env) (keyFromSecret k0) n (incoming k2 @ concat cs)))))"
proof -
  obtain data digest where h: "PrepareClientHello env now hello_rules (domainFromSecret k0) (keyFromSecret k0)
      = (data, digest)" by fastforce
  define k1 where "k1 = k0\<lparr>tls_state := Connecting\<rparr>"
  have k0: "tls_state k0 = NotConnected" "sent k0 = []" "raw k0 = []" "serverHelloLength k0 = 0"
      "incomingGoodDataOffset k0 = 0" "incomingGoodDataLimit k0 = 0"
    using assms(2) by (auto simp: new_tls_def split: if_splits)
  then have c: "connectToHost k0 = Inr k1" by (simp add: connectToHost_def k1_def)
  define k2 where "k2 = (if data = [] then fire ErrorFired (k1\<lparr>tls_state := TlsError\<rparr>)
      else k1\<lparr>tls_state := WaitingHello, incoming := digest, sent := sent k1 @ data\<rparr>)"
  have key: "keyFromSecret k1 = keyFromSecret k0" "domainFromSecret k1 = domainFromSecret k0"
    by (simp_all add: k1_def keyFromSecret_def domainFromSecret_def)
  have p: "plainConnected env now k1 = Inr k2"
    by (simp add: plainConnected_def key client_hello_eq h k2_def) (simp add: k1_def)
  show ?thesis
  proof (cases "data = []")
    case True
    then have "tls_state k2 = TlsError \<and> sent k2 = []" using k0 by (simp add: k2_def k1_def fire_def)
    with c p show ?thesis by blast
  next
    case False
    then have "\<not> p_error (made_part env (domainFromSecret k0))" using h
      by (auto simp: PrepareClientHello_def Let_def made_part_def take_result_def finalize_def split: if_splits)
    from hello_shape [OF assms(1) this h] obtain start rest where
      d: "data = start @ digest @ rest" "length start = 11" "length digest = 32" by metis
    have k2: "k2 = k1\<lparr>tls_state := WaitingHello, incoming := digest, sent := data\<rparr>"
      using False k0(2) by (simp add: k2_def k1_def)
    have "take 32 (drop 11 data) = digest" using d by simp
    have inv: "hello_inv k2" using d(3) k0 by (simp add: hello_inv_def k2 k1_def)
    obtain k' where "hello_arrives (hmac_sha256 env) cs k2 = Inr k'"
      "tls_state k' = TlsConnected \<longrightarrow> (\<exists>n. authentic (hmac_sha256 env) (keyFromSecret k2) n
        (incoming k2 @ raw k2 @ concat cs))"
      using hello_arrives_reads [OF inv] by blast
    moreover have "keyFromSecret k2 = keyFromSecret k0" "raw k2 = []" "incoming k2 = take 32 (drop 11 (sent k2))"
        "length (incoming k2) = 32"
      using d(3) k0 \<open>take 32 (drop 11 data) = digest\<close> by (simp_all add: k2 k1_def keyFromSecret_def)
    ultimately show ?thesis using c p by fastforce
  qed
qed

section \<open>Witnesses\<close>

definition is_error :: "event \<Rightarrow> bool" where
  "is_error e = (case e of Error _ \<Rightarrow> True | _ \<Rightarrow> False)"

text \<open>A cipher that works on streams, and a session that hangs up after an error.\<close>

definition sample_ctr :: ctr_mode where
  "sample_ctr key st bs = (map (\<lambda>b. b XOR 0x5A) bs, st\<lparr>num := num st + of_nat (length bs)\<rparr>)"

definition sample_tcp :: tcp_env where
  "sample_tcp = \<lparr>sha256 = (\<lambda>bs. take 32 bs), ctr = sample_ctr, read_resPQ = (\<lambda>_. None),
    hangs_up = list_ex is_error\<rparr>"

lemma sample_cipher: "stream_cipher (ctr sample_tcp)"
proof -
  have "(\<lambda>b :: byte. (b XOR 0x5A) XOR 0x5A) = (\<lambda>b. b)" by (simp add: xor.assoc)
  then show ?thesis
    by (simp add: stream_cipher_def sample_tcp_def sample_ctr_def comp_def)
qed

lemma sample_hangs_up: "hangs_up sample_tcp (l @ [Error c])"
  by (simp add: sample_tcp_def is_error_def)

definition sample_tls :: tls where
  "sample_tls = \<lparr>secret = 0xEE # replicate 20 0x61, raw = [], sent = [], tls_state = TlsConnected,
    incoming = [], incomingGoodDataOffset = 0, incomingGoodDataLimit = 0, serverHelloLength = 0,
    signals = [], queued_check = False, queued_error = False\<rparr>"

definition sample_connection :: "protocol \<Rightarrow> tls tcp" where
  "sample_connection p = (new_connection [])\<lparr>socket := Some sample_tls, protocol := Some p,
    status := Ready, lifetime := True\<rparr>"

lemma sample_fresh: "fresh_stream p (sample_connection p) sample_tls"
  by (simp add: fresh_stream_def sample_connection_def new_connection_def sample_tls_def)

text \<open>A record with one packet of two words, cut in the middle of its header.\<close>

definition sample_chunks :: "bytes list" where
  "sample_chunks = [[0x17, 0x03], [0x03, 0, 9] @ map (\<lambda>b. b XOR 0x5A) [2, 1, 2, 3, 4, 5, 6, 7, 8]]"

lemma sample_chunks_stream:
  "packet_stream (readPacketLength Version0) (fst (ctr sample_tcp (receiveKey s) (receiveState s)
    (payload (incoming sample_tls @ concat sample_chunks)))) = ([[2, 1, 2, 3, 4, 5, 6, 7, 8]], [], False)"
proof -
  have "payload (incoming sample_tls @ concat sample_chunks)
      = map (\<lambda>b. b XOR 0x5A) [2, 1, 2, 3, 4, 5, 6, 7, 8]"
    by (simp add: sample_tls_def sample_chunks_def payload.simps record_length_def be_value_def kServerHeader_def)
  then have "fst (ctr sample_tcp (receiveKey s) (receiveState s)
      (payload (incoming sample_tls @ concat sample_chunks))) = [2, 1, 2, 3, 4, 5, 6, 7, 8]"
    by (simp add: sample_tcp_def sample_ctr_def)
  then show ?thesis
    by (simp add: packet_stream.simps readPacketLength0_def kUnknownSize_def)
qed


definition sample_messages :: "((nat \<Rightarrow> u32) \<times> mtpBuffer) list" where
  "sample_messages = [(\<lambda>_. 0, [0, 0, 1, 2, 3])]"

lemma sample_messages_fit:
  "\<forall>m \<in> set sample_messages. packet_fits Version0 (snd m) \<and> 5 \<le> length (snd m)"
  by (simp add: sample_messages_def packet_fits_def)

definition sample_parts :: "bytes list" where
  "sample_parts = [fst (ctr sample_tcp (receiveKey (sample_connection Version0))
    (receiveState (sample_connection Version0)) (concat (map (frame_of Version0) sample_messages)))]"

lemma sample_parts_short: "\<forall>d \<in> set sample_parts. length d < 2 ^ 16"
  by (simp add: sample_parts_def sample_messages_def frame_of_def finalizePacket0_def sample_tcp_def
      sample_ctr_def Let_def)


theorem server_reads_messages_witness:
  "\<exists>s' k' plain fs ds. send_all sample_tcp tls_ops (\<lambda>_. replicate 64 1) sample_messages
      (sample_connection Version0) = Some (Inr s') \<and> socket s' = Some k'
    \<and> server_reads sample_tcp Version0 (app_data (sent k'))
        = (protocol_id Version0, protocolDcId (sample_connection Version0), plain)
    \<and> packet_stream (readPacketLength Version0) plain = (fs, [], False)
    \<and> list_all2 (\<lambda>q d. parsePacket Version0 q = Inr d \<and> length d \<noteq> 1) fs ds
    \<and> list_all2 (\<lambda>m d. padded Version0 (drop 2 (snd m)) d) sample_messages ds"
  by (rule server_reads_messages [OF _ _ _ _ _ _ sample_messages_fit sample_cipher, of _ sample_tls])
    (simp_all add: sample_connection_def new_connection_def sample_tls_def tls_open_def sample_messages_def)

definition sample_secret :: bytes where
  "sample_secret = 0xEE # replicate 16 0x11 @ sample_domain"

theorem hello_is_authenticated_witness:
  "\<exists>k1 k2. connectToHost (sample_tls\<lparr>secret := sample_secret, tls_state := NotConnected\<rparr>) = Inr k1
    \<and> plainConnected sample_hello 7 k1 = Inr k2
    \<and> (tls_state k2 = TlsError \<and> sent k2 = []
       \<or> (\<exists>k'. incoming k2 = take 32 (drop 11 (sent k2)) \<and> length (incoming k2) = 32
          \<and> hello_arrives (hmac_sha256 sample_hello) [[0x16, 3], [3, 0, 50]] k2 = Inr k'
          \<and> (tls_state k' = TlsConnected \<longrightarrow>
              (\<exists>n. authentic (hmac_sha256 sample_hello)
                (keyFromSecret (sample_tls\<lparr>secret := sample_secret, tls_state := NotConnected\<rparr>)) n
                (incoming k2 @ concat [[0x16, 3], [3, 0, 50]])))))"
  by (rule hello_is_authenticated [OF sample_hello(1), of sample_secret])
    (simp add: new_tls_def sample_tls_def sample_secret_def sample_domain_def)

end
