(* ===== verification/Spec2Isabelle.thy ===== *)
theory Spec2Isabelle
  imports Update_Apply Web_Frame Gram_Boc Cable_Ceremony
    Slice_Builder Sparse_Ids Received_Ids Pts_Waiter Phrase_Shares
    Sync_Projection Sync_Remote Content_Hash Tls_Socket
begin

text \<open>
  A verification library for the protocol, parsing and synchronisation core of
  TeleForge, a desktop client built on Telegram Desktop. File names are relative to
  src/Telegram/SourceFiles. The definitions are translated from the C++ and keep its
  names; each theory says in its opening text which files it holds.

  The parts and how they interact.

  Updates. \<open>Update_Format\<close> reads and writes the v2 envelope of an update
  (core/update_verify.h, core/update_verify.cpp, \<open>BuildV2Envelope\<close> of
  \_other/packer.cpp). \<open>Update_Manifest\<close> parses the root-signed manifest and checks
  signatures, \<open>Update_Verify\<close> decides whether a package is accepted: target, channel
  policy, authorization by key groups, version. \<open>Update_Unpack\<close>
  (core/update_unpack.cpp) decompresses and extracts the payload under checked names.
  \<open>Update_Apply\<close> (core/update_checker.cpp, storage/localstorage.cpp) holds the
  manifest, stages the accepted update and checks it at the next start; it composes the
  other four. The lemmas show that what is accepted is exactly what the packer writes,
  is authorized by an effective manifest that never goes back, is extracted inside its
  directory without conflicts, that the ready file appears only after all that, and what
  the next start checks of it: the version the package names, by the version file, of which
  the file system may keep less than was written.

  Security keys over a phone. \<open>Cbor\<close>, \<open>Cable_Noise\<close> and \<open>Cable_Messages\<close>
  (webauthn/cable_core.h, webauthn/cable_core.cpp) are the codec, the handshake with the
  message cipher, and the messages; \<open>Web_Socket\<close> (core/websocket_client.cpp) is the
  client of the tunnel; \<open>Cable_Ceremony\<close> (webauthn/cable_ceremony.cpp) is the state
  machine on top of them: the state is the \<open>Ceremony\<close> object, a handler is a function on
  it, what it asks of the box, scanner, timers and socket is a list of calls, and the step
  relation says when each handler can run. The lemmas give round trips, the agreement of
  both sides of the handshake, and the invariants of every reachable ceremony.

  Known messages. \<open>Slices\<close> holds what data/data_messages.cpp and
  storage/storage_sparse_ids_list.cpp share: lists of ranges in which no message is
  missing. Its locale \<open>server_index\<close> is the contract of such a list towards the history of
  the server, and \<open>Messages_List\<close> and \<open>Sparse_Ids\<close> interpret it with the two classes:
  each refines the set of messages on the server under loads, arrivals, deletions and lost
  ends. \<open>Slice_Builder\<close> is the window that a viewer of such a list keeps; it follows the
  server through every run of events that say what happened there.

  Order of updates. \<open>Flat_Map\<close> is the contract of \<open>base::flat_map\<close> as the locale
  \<open>ordered_map\<close> with the list of entries as its instance. \<open>Received_Ids\<close>
  (mtproto/details/mtproto_received_ids_manager.cpp) and \<open>Pts_Waiter\<close>
  (data/data_pts_waiter.cpp) keep their queues in it: replays are refused, and updates that
  arrive out of order are applied in order once nothing is missing.

  Wallet. \<open>Gram_Boc\<close> (gram/gram_boc.cpp) reads bags of cells, disarms the signature of a
  rotation request and finds text comments. \<open>Phrase_Shares\<close>
  (wallet/wallet_phrase_shares.cpp and its use in wallet/wallet_session.cpp) splits, seals
  and restores the secret phrase.

  Connections. \<open>Tcp_Protocol\<close> (the protocol classes of mtproto/connection_tcp.cpp) frames
  packets in three versions, chosen by the secret of a proxy; its locale \<open>packet_framing\<close> is
  what a reader of a stream relies on. \<open>Tcp_Transport\<close> (the class \<open>TcpConnection\<close> of the
  same file) is the connection over any socket: two receive buffers with offsets, the read
  loop, the packets given to the session, the encrypted start and what is sent. What it asks
  of a socket are the locales \<open>byte_socket\<close> and \<open>byte_sink\<close>. \<open>Tls_Socket\<close>
  (mtproto/details/mtproto_tls_socket.cpp) provides both: it sends a client hello, checks the
  hello of the server and carries the bytes in TLS records. \<open>Tls_Hello\<close> is the generator of
  the client hello: the rules as a tree, a grammar of what a tree stands for, which the
  generator is shown to follow, and a reader of TLS records that accepts what it makes. The lemmas show that the session gets exactly the
  packets of the decrypted stream however records and buffers cut it, that both directions
  carry the messages, and that a hello without the right digest never connects.
  \<open>Web_Frame\<close> (mtproto/web_proxy/web_proxy_frame.cpp) is the framing of the web proxy.

  Sync of captured messages. \<open>Sync_Crypto\<close> (tfc/features/sync/teleforge_sync_crypto.cpp)
  is the device secret, the key state and the keys derived from them, bundles and
  protected secrets, with the two files as part of the state and restarts as a step.
  \<open>Sync_Projection\<close> is \<open>ProjectEmbedding\<close> of the same file. \<open>Content_Hash\<close>
  (tfc/data/tf_content_hash.cpp) is the key that tells messages apart, \<open>Sync_Rows\<close>
  (tfc/features/sync/teleforge_sync_rows.cpp) turns messages into encrypted rows and merges
  rows into the local tables, \<open>Sync_Remote\<close> (tfc/features/sync/teleforge_sync_pg.cpp) is
  the replica in PostgreSQL, over a connection with an open transaction whose answers may
  fail at every statement. What becomes of each read and write of a file is drawn too
  (\<open>file_io\<close>). The lemmas show that the sync key of an account and protected secrets stay
  the same and readable, in one process whatever the files do, and across restarts when the
  two files are read and written completely; that a finished migration retires the legacy
  key; that rows bring over exactly the messages that are missing; that an upload stores
  everything or nothing; and that what was uploaded comes back.

  How the code is modelled. An optional is an option; an operation that leaves an error
  text, or that can fail an \<open>Expects\<close> or run into undefined behaviour, has the type
  \<open>result\<close> of \<open>Prelude\<close> with the faults \<open>Err\<close> and \<open>Abort\<close>. Unsigned and signed integers
  keep their width where they are read from or written to bytes or can wrap; counts and
  positions are nat or int, and where a sum of the code is taken to stay inside its type
  the theory says so. QString is a list of UTF-16 units, QByteArray a list of bytes. A
  mutable object is a record, passed and returned. Loops are structural recursions, or
  carry a bound that is the length of their input or a limit of the code; nothing runs out
  of fuel: \<open>parse_loop\<close> terminates by the bytes left, \<open>shrink_loop\<close> counts the entries,
  \<open>decode_levels\<close> the nesting limit of 16, the comment and cell loops the number of
  cells. The two loops that the code does not bound, over what a socket still gives and over
  random start values, are partial functions; the properties show that they return.

  What is a parameter. OpenSSL, liblzma, QJsonDocument, QDataStream, base64, UTF-8 and the
  other conversions of Qt, TL strings, random bytes, td e2e, and the answers of sockets and
  the file system are records of functions (\<open>platform\<close>, \<open>unpacker\<close>, \<open>host\<close>, \<open>crypto\<close>,
  \<open>ws_env\<close>, \<open>boc_env\<close>, \<open>sealing\<close>, \<open>sync_env\<close>, \<open>row_env\<close>, \<open>tcp_env\<close>, \<open>hello_env\<close>): they are not in the repository. A property that
  relies on them names the documented laws it uses as hypotheses, and its witness gives
  functions that satisfy them.

  Not modelled. The network sessions and their other transports, the API over generated schema types,
  the graph of session objects, local storage under encryption, the wallet engine, the
  TeleForge features other than those above, media, calls and every part of the
  interface; the manifest of the development gives the reason for each.
\<close>

end
